(* ===== verification/Cask_Prelude.thy ===== *)
theory Cask_Prelude
  imports Main "HOL-Library.Word" "HOL-Library.AList" "HOL-Library.List_Lexorder"
    "HOL-Library.Char_ord"
begin

text \<open>
  Shared vocabulary of the development: Go byte slices and strings, Go error values with
  their wrapping chain, the cancellable \<open>context.Context\<close>, readers, and the
  state-and-error monad in which the operations of the components are written.

  \<^item> A Go \<open>[]byte\<close> is a list of 8-bit words, a Go \<open>string\<close> a list of 8-bit characters
    (Go strings are byte sequences); \<open>bytes_of\<close> and \<open>string_of\<close> convert.
  \<^item> A Go error is a sentinel, an \<open>errors.New\<close> value, or an \<open>fmt.Errorf\<close> value with the
    errors it wraps with \<open>%w\<close>. Only the static part of a message is kept; the chain, which is
    what \<open>errors.Is\<close> reads, is complete.
  \<^item> A context is either live for ever or turns cancelled after a given number of
    \<open>Err\<close> calls and stays so, which covers a cancellation at any point of an operation.
  \<^item> A reader is the schedule of what its successive \<open>Read\<close> calls deliver, and the error
    (none means \<open>io.EOF\<close>) that ends it.
\<close>

section \<open>Bytes and strings\<close>

type_synonym byte = "8 word"
type_synonym bytes = "8 word list"
type_synonym digest = "8 word list"

definition byte_of_char :: "char \<Rightarrow> byte" where
  "byte_of_char c = word_of_nat (of_char c)"

definition char_of_byte :: "byte \<Rightarrow> char" where
  "char_of_byte b = char_of (unat b)"

definition bytes_of :: "string \<Rightarrow> bytes" where
  "bytes_of s = map byte_of_char s"

definition string_of :: "bytes \<Rightarrow> string" where
  "string_of b = map char_of_byte b"

lemma char_of_byte_of_char [simp]: "char_of_byte (byte_of_char c) = c"
proof -
  have "of_char c < (256::nat)"
    using nat_of_char_less_256 .
  then show ?thesis
    by (simp add: char_of_byte_def byte_of_char_def unat_of_nat)
qed

lemma byte_of_char_of_byte [simp]: "byte_of_char (char_of_byte b) = b"
proof -
  have "unat b < 256"
    using unsigned_less [of b] by simp
  then show ?thesis
    by (simp add: char_of_byte_def byte_of_char_def)
qed

lemma string_of_bytes_of [simp]: "string_of (bytes_of s) = s"
  by (induction s) (simp_all add: string_of_def bytes_of_def)

lemma bytes_of_string_of [simp]: "bytes_of (string_of b) = b"
  by (induction b) (simp_all add: string_of_def bytes_of_def)

lemma length_bytes_of [simp]: "length (bytes_of s) = length s"
  by (simp add: bytes_of_def)

lemma length_string_of [simp]: "length (string_of b) = length b"
  by (simp add: string_of_def)

lemma bytes_of_Nil [simp]: "bytes_of [] = []"
  by (simp add: bytes_of_def)

lemma string_of_Nil [simp]: "string_of [] = []"
  by (simp add: string_of_def)

lemma string_of_eq_iff [simp]: "string_of a = string_of b \<longleftrightarrow> a = b"
  by (metis bytes_of_string_of)

lemma bytes_of_eq_iff [simp]: "bytes_of s = bytes_of t \<longleftrightarrow> s = t"
  by (metis string_of_bytes_of)

lemma bytes_of_Nil_iff [simp]: "bytes_of s = [] \<longleftrightarrow> s = []"
  by (simp add: bytes_of_def)

lemma string_of_Nil_iff [simp]: "string_of b = [] \<longleftrightarrow> b = []"
  by (simp add: string_of_def)

lemma unat_byte_less_256 [simp]: "unat (b :: byte) < 256"
  using unsigned_less [of b] by simp

text \<open>Signed 64-bit integers: the largest one, and the wrap-around of an arithmetic result.\<close>

definition MaxInt64 :: int where
  "MaxInt64 = 2 ^ 63 - 1"

definition wrap64 :: "int \<Rightarrow> int" where
  "wrap64 x = (x + 2 ^ 63) mod 2 ^ 64 - 2 ^ 63"

lemma wrap64_id: "- (2 ^ 63) \<le> x \<Longrightarrow> x \<le> MaxInt64 \<Longrightarrow> wrap64 x = x"
  by (simp add: wrap64_def MaxInt64_def)

section \<open>Error values\<close>

datatype err =
    ErrNotFound | ErrDigestMismatch | ErrInvalidDigest | ErrUnknownType
  | ErrCorrupt | ErrCodecMismatch | ErrUnsupported
  | Canceled | DeadlineExceeded
  | EOF | ErrUnexpectedEOF | ErrShortWrite | ErrVarintOverflow
  | ErrorsNew string
  | Errorf string "err list"

text \<open>\<open>errors_Is e t\<close>: the target \<open>t\<close> is on the wrapping chain of \<open>e\<close>, as \<open>errors.Is\<close> decides.\<close>

fun errors_Is :: "err \<Rightarrow> err \<Rightarrow> bool" where
  "errors_Is (Errorf m es) t \<longleftrightarrow> Errorf m es = t \<or> (\<exists>e \<in> set es. errors_Is e t)"
| "errors_Is e t \<longleftrightarrow> e = t"

lemma errors_Is_refl [simp]: "errors_Is e e"
  by (cases e) auto

type_synonym 'a result = "err + 'a"

text \<open>A slice expression out of range.\<close>

definition bounds_panic :: err where
  "bounds_panic = ErrorsNew ''panic: slice bounds out of range''"

text \<open>\<open>is_ok\<close> and \<open>the_ok\<close> read a result.\<close>

definition is_ok :: "'a result \<Rightarrow> bool" where
  "is_ok r \<longleftrightarrow> (case r of Inl _ \<Rightarrow> False | Inr _ \<Rightarrow> True)"

lemma is_ok_simps [simp]: "is_ok (Inr x)" "\<not> is_ok (Inl e)"
  by (simp_all add: is_ok_def)

lemma is_ok_iff: "is_ok r \<longleftrightarrow> (\<exists>x. r = Inr x)"
  by (cases r) auto

section \<open>Contexts\<close>

datatype ctx_cause = ByCancel | ByDeadline

datatype ctx = Live | CancelAfter nat ctx_cause

fun cause_err :: "ctx_cause \<Rightarrow> err" where
  "cause_err ByCancel = Canceled"
| "cause_err ByDeadline = DeadlineExceeded"

fun ctx_poll :: "ctx \<Rightarrow> err option \<times> ctx" where
  "ctx_poll Live = (None, Live)"
| "ctx_poll (CancelAfter 0 c) = (Some (cause_err c), CancelAfter 0 c)"
| "ctx_poll (CancelAfter (Suc n) c) = (None, CancelAfter n c)"

text \<open>The state an operation runs in: the context it was handed and the state it acts on.\<close>

record 'b env =
  ectx :: ctx
  est :: 'b

section \<open>The state-and-error monad\<close>

type_synonym ('b, 'a) act = "'b env \<Rightarrow> 'a result \<times> 'b env"

definition ret :: "'a \<Rightarrow> ('b, 'a) act" where
  "ret x w = (Inr x, w)"

definition fail :: "err \<Rightarrow> ('b, 'a) act" where
  "fail e w = (Inl e, w)"

definition bnd :: "('b, 'a) act \<Rightarrow> ('a \<Rightarrow> ('b, 'c) act) \<Rightarrow> ('b, 'c) act" where
  "bnd m f w = (case m w of (Inl e, w') \<Rightarrow> (Inl e, w') | (Inr x, w') \<Rightarrow> f x w')"

text \<open>\<open>catch m h\<close> runs the handler where the source inspects the error instead of returning it.\<close>

definition catch :: "('b, 'a) act \<Rightarrow> (err \<Rightarrow> ('b, 'a) act) \<Rightarrow> ('b, 'a) act" where
  "catch m h w = (case m w of (Inl e, w') \<Rightarrow> h e w' | (Inr x, w') \<Rightarrow> (Inr x, w'))"

definition of_result :: "'a result \<Rightarrow> ('b, 'a) act" where
  "of_result r w = (r, w)"

text \<open>\<open>when_err\<close> is the Go idiom \<open>if err := f(); err != nil { return err }\<close> for an optional error.\<close>

definition when_err :: "err option \<Rightarrow> ('b, unit) act" where
  "when_err eo w = (case eo of None \<Rightarrow> (Inr (), w) | Some e \<Rightarrow> (Inl e, w))"

text \<open>\<open>wrapping msg m\<close> is \<open>if err != nil { return fmt.Errorf(msg + ": %w", err) }\<close> after \<open>m\<close>.\<close>

definition wrapping :: "string \<Rightarrow> ('b, 'a) act \<Rightarrow> ('b, 'a) act" where
  "wrapping msg m w = (case m w of (Inl e, w') \<Rightarrow> (Inl (Errorf msg [e]), w') | (Inr x, w') \<Rightarrow> (Inr x, w'))"

definition get_st :: "('b, 'b) act" where
  "get_st w = (Inr (est w), w)"

definition put_st :: "'b \<Rightarrow> ('b, unit) act" where
  "put_st s w = (Inr (), w\<lparr>est := s\<rparr>)"

definition ctx_Err :: "('b, unit) act" where
  "ctx_Err w = (case ctx_poll (ectx w) of
      (None, c) \<Rightarrow> (Inr (), w\<lparr>ectx := c\<rparr>)
    | (Some e, c) \<Rightarrow> (Inl e, w\<lparr>ectx := c\<rparr>))"

named_theorems monad_defs \<open>unfolding rules of the state-and-error monad\<close>

declare ret_def [monad_defs] fail_def [monad_defs] bnd_def [monad_defs]
  catch_def [monad_defs] of_result_def [monad_defs] when_err_def [monad_defs]
  get_st_def [monad_defs] put_st_def [monad_defs] wrapping_def [monad_defs]

lemma ctx_Err_live [simp]: "ectx w = Live \<Longrightarrow> ctx_Err w = (Inr (), w)"
  by (simp add: ctx_Err_def)

lemma ctx_Err_cancelled [simp]: "ectx w = CancelAfter 0 c \<Longrightarrow> ctx_Err w = (Inl (cause_err c), w)"
  by (simp add: ctx_Err_def)

lemma ctx_Err_error: "ctx_Err w = (Inl e, w') \<Longrightarrow> e = Canceled \<or> e = DeadlineExceeded"
  by (cases "ectx w" rule: ctx_poll.cases) (auto simp: ctx_Err_def intro: cause_err.elims)

lemma ctx_Err_est [simp]: "est (snd (ctx_Err w)) = est w"
  by (simp add: ctx_Err_def split: prod.splits option.splits)

lemma wrapping_ok [simp]: "wrapping msg m w = (Inr x, w') \<longleftrightarrow> m w = (Inr x, w')"
  by (auto simp: wrapping_def split: prod.splits sum.splits)

lemma get_st_ok [simp]: "get_st w = (Inr s, w') \<longleftrightarrow> s = est w \<and> w' = w"
  by (auto simp: get_st_def)

lemma when_err_ok [simp]: "when_err eo w = (Inr u, w') \<longleftrightarrow> eo = None \<and> w' = w"
  by (auto simp: when_err_def split: option.splits)

lemma ret_ok [simp]: "ret x w = (Inr y, w') \<longleftrightarrow> x = y \<and> w' = w"
  by (auto simp: ret_def)

lemma fail_ok [simp]: "fail e w \<noteq> (Inr y, w')"
  by (simp add: fail_def)

lemma of_result_ok [simp]: "of_result r w = (Inr y, w') \<longleftrightarrow> r = Inr y \<and> w' = w"
  by (auto simp: of_result_def)

lemma put_st_ok [simp]: "put_st s w = (Inr u, w') \<longleftrightarrow> w' = w\<lparr>est := s\<rparr>"
  by (auto simp: put_st_def)

lemma ctx_Err_estD: "ctx_Err w = (r, w') \<Longrightarrow> est w' = est w"
  using ctx_Err_est [of w] by simp

lemma bnd_ok: "bnd m f w = (Inr y, w'') \<longleftrightarrow> (\<exists>x w'. m w = (Inr x, w') \<and> f x w' = (Inr y, w''))"
  by (auto simp: bnd_def split: prod.splits sum.splits)

lemma bnd_okE:
  assumes "bnd m f w = (Inr y, w'')"
  obtains x w' where "m w = (Inr x, w')" and "f x w' = (Inr y, w'')"
  using assms by (auto simp: bnd_ok)

lemma bnd_Inr [simp]: "m w = (Inr x, w') \<Longrightarrow> bnd m f w = f x w'"
  by (simp add: bnd_def)

lemma bnd_Inl [simp]: "m w = (Inl e, w') \<Longrightarrow> bnd m f w = (Inl e, w')"
  by (simp add: bnd_def)

text \<open>
  Frame reasoning: \<open>keeps I m\<close> says that \<open>m\<close> preserves the state property \<open>I\<close> whatever it
  returns. It composes along the monad, so a whole operation keeps an invariant when its
  steps do.
\<close>

definition keeps :: "('b \<Rightarrow> bool) \<Rightarrow> ('b, 'a) act \<Rightarrow> bool" where
  "keeps I m \<longleftrightarrow> (\<forall>w. I (est w) \<longrightarrow> I (est (snd (m w))))"

named_theorems keeps_intros \<open>composition rules of the frame predicate\<close>

lemma keepsI: "(\<And>w. I (est w) \<Longrightarrow> I (est (snd (m w)))) \<Longrightarrow> keeps I m"
  by (simp add: keeps_def)

lemma keepsD: "keeps I m \<Longrightarrow> m w = (r, w') \<Longrightarrow> I (est w) \<Longrightarrow> I (est w')"
  unfolding keeps_def by (metis snd_conv)

lemma keeps_ret [keeps_intros]: "keeps I (ret x)"
  by (simp add: keeps_def ret_def)

lemma keeps_fail [keeps_intros]: "keeps I (fail e)"
  by (simp add: keeps_def fail_def)

lemma keeps_of_result [keeps_intros]: "keeps I (of_result r)"
  by (simp add: keeps_def of_result_def)

lemma keeps_when_err [keeps_intros]: "keeps I (when_err r)"
  by (simp add: keeps_def when_err_def split: option.splits)

lemma keeps_get_st [keeps_intros]: "keeps I get_st"
  by (simp add: keeps_def get_st_def)

lemma keeps_ctx_Err [keeps_intros]: "keeps I ctx_Err"
  by (simp add: keeps_def)

lemma keeps_bnd [keeps_intros]: "keeps I m \<Longrightarrow> (\<And>x. keeps I (f x)) \<Longrightarrow> keeps I (bnd m f)"
  by (auto simp: keeps_def bnd_def split: prod.splits sum.splits)

lemma keeps_catch [keeps_intros]: "keeps I m \<Longrightarrow> (\<And>x. keeps I (f x)) \<Longrightarrow> keeps I (catch m f)"
  by (auto simp: keeps_def catch_def split: prod.splits sum.splits)

lemma keeps_wrapping [keeps_intros]: "keeps I m \<Longrightarrow> keeps I (wrapping msg m)"
  by (auto simp: keeps_def wrapping_def split: prod.splits sum.splits)

lemma keeps_if [keeps_intros]: "keeps I m \<Longrightarrow> keeps I n \<Longrightarrow> keeps I (if b then m else n)"
  by simp

section \<open>Readers\<close>

text \<open>\<open>r_len\<close> is the reader's \<open>Len\<close> method, where it has one (\<open>*bytes.Reader\<close> and its kin).\<close>

record reader =
  r_chunks :: "bytes list"
  r_err :: "err option"
  r_len :: "int option"

record readcloser = reader +
  rc_close :: "err option"

definition r_data :: "'z reader_scheme \<Rightarrow> bytes" where
  "r_data r = concat (r_chunks r)"

text \<open>A reader whose error, if any, is a real failure and does not wrap \<open>io.EOF\<close>.\<close>

definition clean_reader :: "'z reader_scheme \<Rightarrow> bool" where
  "clean_reader r \<longleftrightarrow> (case r_err r of None \<Rightarrow> True | Some e \<Rightarrow> \<not> errors_Is e EOF)"

definition bytes_reader :: "bytes \<Rightarrow> reader" where
  "bytes_reader b = \<lparr>r_chunks = (if b = [] then [] else [b]), r_err = None, r_len = Some (int (length b))\<rparr>"

definition nop_closer :: "bytes \<Rightarrow> readcloser" where
  "nop_closer b = \<lparr>r_chunks = (if b = [] then [] else [b]), r_err = None, r_len = None, rc_close = None\<rparr>"

definition io_ReadAll :: "'z reader_scheme \<Rightarrow> bytes result" where
  "io_ReadAll r = (case r_err r of None \<Rightarrow> Inr (r_data r) | Some e \<Rightarrow> Inl e)"

text \<open>\<open>io.LimitReader\<close>: after the limit the stream ends cleanly without touching the source.\<close>

fun limit_chunks :: "int \<Rightarrow> bytes list \<Rightarrow> err option \<Rightarrow> bytes list \<times> err option" where
  "limit_chunks n [] fe = (if n \<le> 0 then ([], None) else ([], fe))"
| "limit_chunks n (c # cs) fe =
     (if n \<le> 0 then ([], None)
      else if int (length c) \<le> n
      then (let (cs', fe') = limit_chunks (n - int (length c)) cs fe in (c # cs', fe'))
      else ([take (nat n) c], None))"

definition io_LimitReader :: "reader \<Rightarrow> int \<Rightarrow> reader" where
  "io_LimitReader r n =
     (let (cs, fe) = limit_chunks n (r_chunks r) (r_err r) in \<lparr>r_chunks = cs, r_err = fe, r_len = None\<rparr>)"

lemma r_data_bytes_reader [simp]: "r_data (bytes_reader b) = b"
  by (simp add: r_data_def bytes_reader_def)

lemma r_err_bytes_reader [simp]: "r_err (bytes_reader b) = None"
  by (simp add: bytes_reader_def)

lemma clean_bytes_reader [simp]: "clean_reader (bytes_reader b)"
  by (simp add: clean_reader_def)

lemma r_data_nop_closer [simp]: "r_data (nop_closer b) = b"
  by (simp add: r_data_def nop_closer_def)

lemma nop_closer_simps [simp]: "r_err (nop_closer b) = None" "rc_close (nop_closer b) = None"
  by (simp_all add: nop_closer_def)

lemma io_ReadAll_nop_closer [simp]: "io_ReadAll (nop_closer b) = Inr b"
  by (simp add: io_ReadAll_def)

lemma limit_chunks_data: "concat (fst (limit_chunks n cs fe)) = take (nat n) (concat cs)"
proof (induction n cs fe rule: limit_chunks.induct)
  case (2 n c cs fe)
  then show ?case
    by (auto split: prod.splits simp: nat_diff_distrib)
qed simp

lemma limit_chunks_err_short:
  "int (length (concat cs)) < n \<Longrightarrow> snd (limit_chunks n cs fe) = fe"
  by (induction n cs fe rule: limit_chunks.induct) (auto split: prod.splits)

lemma limit_chunks_err_None: "snd (limit_chunks n cs None) = None"
  by (induction n cs "None :: err option" rule: limit_chunks.induct) (auto split: prod.splits)

lemma limit_chunks_err_long:
  "n \<le> int (length (concat cs)) \<Longrightarrow> snd (limit_chunks n cs fe) = None"
  by (induction n cs fe rule: limit_chunks.induct) (auto split: prod.splits)

lemma r_data_LimitReader [simp]: "r_data (io_LimitReader r n) = take (nat n) (r_data r)"
  using limit_chunks_data [of n "r_chunks r" "r_err r"]
  by (auto simp: io_LimitReader_def r_data_def split: prod.splits)

lemma r_err_LimitReader [simp]:
  "r_err (io_LimitReader r n) = (if int (length (r_data r)) < n then r_err r else None)"
  using limit_chunks_err_short [of "r_chunks r" n "r_err r"]
    limit_chunks_err_long [of n "r_chunks r" "r_err r"]
  by (auto simp: io_LimitReader_def r_data_def split: prod.splits)

section \<open>Association lists and lists\<close>

lemma map_of_update [simp]: "map_of (AList.update k v m) = (map_of m)(k \<mapsto> v)"
  by (rule update_conv')

lemma map_of_delete [simp]: "map_of (AList.delete k m) = (map_of m)(k := None)"
  by (rule delete_conv')

text \<open>The total length of the stored values, and how an update and a deletion change it.\<close>

definition sizes :: "('k \<times> 'v list) list \<Rightarrow> nat" where
  "sizes m = sum_list (map (\<lambda>(k, v). length v) m)"

lemma sizes_simps [simp]: "sizes [] = 0" "sizes ((k, v) # m) = length v + sizes m"
  by (simp_all add: sizes_def)

lemma delete_notin: "k \<notin> fst ` set m \<Longrightarrow> AList.delete k m = m"
  by (induction m) auto

lemma sizes_delete:
  "distinct (map fst m) \<Longrightarrow> map_of m k = Some v \<Longrightarrow> sizes (AList.delete k m) + length v = sizes m"
  by (induction m) (auto simp: delete_notin image_iff split: if_splits)

lemma sizes_update_new:
  "map_of m k = None \<Longrightarrow> sizes (AList.update k v m) = sizes m + length v"
  by (induction m) (auto split: if_splits)

lemma sizes_update_old:
  "distinct (map fst m) \<Longrightarrow> map_of m k = Some v' \<Longrightarrow>
    sizes (AList.update k v m) + length v' = sizes m + length v"
  by (induction m) (auto split: if_splits)

lemma sizes_value_le: "map_of m k = Some v \<Longrightarrow> length v \<le> sizes m"
  by (induction m) (auto split: if_splits)

lemma fst_set_update: "fst ` set (AList.update k v m) = insert k (fst ` set m)"
  using dom_update [of k v m] by (simp add: dom_map_of_conv_image_fst)


lemma set_update_subset: "set (AList.update k v xs) \<subseteq> insert (k, v) (set xs)"
  by (induction xs) auto

lemma distinct_sort_key: "distinct (map fst xs) \<Longrightarrow> distinct (map fst (sort_key f xs))"
  by (metis distinct_map distinct_sort set_sort)

lemma map_of_sort_key: "distinct (map fst xs) \<Longrightarrow> map_of (sort_key f xs) = map_of xs"
  by (subst map_of_inject_set) (auto intro: distinct_sort_key)

section \<open>Big-endian integers\<close>

text \<open>\<open>encoding/binary.BigEndian\<close>: \<open>be_put n v\<close> writes \<open>v\<close> in \<open>n\<close> bytes, dropping higher bits.\<close>

primrec be_put :: "nat \<Rightarrow> nat \<Rightarrow> bytes" where
  "be_put 0 v = []"
| "be_put (Suc n) v = word_of_nat (v div 256 ^ n) # be_put n v"

primrec be_get :: "bytes \<Rightarrow> nat" where
  "be_get [] = 0"
| "be_get (b # bs) = unat b * 256 ^ length bs + be_get bs"

lemma length_be_put [simp]: "length (be_put n v) = n"
  by (induction n) simp_all

lemma be_get_put_mod: "be_get (be_put n v) = v mod 256 ^ n"
proof (induction n)
  case (Suc n)
  have "v mod (256 ^ n * 256) = 256 ^ n * (v div 256 ^ n mod 256) + v mod 256 ^ n"
    by (simp add: mod_mult2_eq)
  with Suc show ?case
    by (simp add: unat_of_nat mult.commute)
qed simp

lemma be_get_put [simp]: "v < 256 ^ n \<Longrightarrow> be_get (be_put n v) = v"
  by (simp add: be_get_put_mod)

lemma be_get_less: "be_get b < 256 ^ length b"
proof (induction b)
  case (Cons x xs)
  have "unat x * 256 ^ length xs + be_get xs < (unat x + 1) * 256 ^ length xs"
    using Cons by simp
  also have "\<dots> \<le> 256 * 256 ^ length xs"
    using unat_byte_less_256 [of x] by (intro mult_right_mono) linarith+
  finally show ?case by simp
qed simp

end
