(* ===== verification/Cas_Digest.thy ===== *)
theory Cas_Digest
  imports Cask_Prelude
begin

text \<open>
  \<open>src/cas/digest.go\<close>: the digest as an opaque byte string, its hex rendering (the stack-buffer
  fast path and the general path), the strict parser and the guard every key argument passes.
  The parts of \<open>encoding/hex\<close> the file calls are modelled with it.

  The lemmas show that rendering and parsing are inverse to each other and exact (only the
  canonical lowercase form parses), that every rejection is \<open>ErrInvalidDigest\<close>, and that
  the byte order the backends sort by is the order of the rendered strings.
\<close>

unbundle bit_operations_syntax

section \<open>encoding/hex\<close>

definition hextable :: bytes where
  "hextable = bytes_of ''0123456789abcdef''"

definition hex_pair :: "byte \<Rightarrow> bytes" where
  "hex_pair v = [hextable ! unat (drop_bit 4 v), hextable ! unat (v AND 15)]"

definition hex_EncodedLen :: "nat \<Rightarrow> nat" where
  "hex_EncodedLen n = n * 2"

definition hex_DecodedLen :: "nat \<Rightarrow> nat" where
  "hex_DecodedLen n = n div 2"

text \<open>\<open>hex.Encode\<close> writes into a caller's buffer, which is at least as long as the rendering.\<close>

definition hex_Encode :: "bytes \<Rightarrow> bytes \<Rightarrow> bytes \<times> nat" where
  "hex_Encode dst src =
     (concat (map hex_pair src) @ drop (2 * length src) dst, 2 * length src)"

definition hex_EncodeToString :: "bytes \<Rightarrow> string" where
  "hex_EncodeToString src = string_of (concat (map hex_pair src))"

definition fromHexChar :: "byte \<Rightarrow> byte option" where
  "fromHexChar c =
     (if 48 \<le> c \<and> c \<le> 57 then Some (c - 48)
      else if 97 \<le> c \<and> c \<le> 102 then Some (c - 97 + 10)
      else if 65 \<le> c \<and> c \<le> 70 then Some (c - 65 + 10)
      else None)"

definition hex_InvalidByteError :: err where
  "hex_InvalidByteError = ErrorsNew ''encoding/hex: invalid byte''"

definition hex_ErrLength :: err where
  "hex_ErrLength = ErrorsNew ''encoding/hex: odd length hex string''"

fun hex_Decode :: "bytes \<Rightarrow> bytes result" where
  "hex_Decode [] = Inr []"
| "hex_Decode [p] =
     (case fromHexChar p of None \<Rightarrow> Inl hex_InvalidByteError | Some _ \<Rightarrow> Inl hex_ErrLength)"
| "hex_Decode (p # q # src) =
     (case fromHexChar p of None \<Rightarrow> Inl hex_InvalidByteError
      | Some a \<Rightarrow> (case fromHexChar q of None \<Rightarrow> Inl hex_InvalidByteError
        | Some b \<Rightarrow> (case hex_Decode src of Inl e \<Rightarrow> Inl e
          | Inr ds \<Rightarrow> Inr ((push_bit 4 a OR b) # ds))))"

section \<open>Digest\<close>

definition NewDigest :: "bytes \<Rightarrow> digest" where
  "NewDigest b = (if length b = 0 then [] else b)"

definition IsZero :: "digest \<Rightarrow> bool" where
  "IsZero d \<longleftrightarrow> length d = 0"

definition Digest_Equal :: "digest \<Rightarrow> digest \<Rightarrow> bool" where
  "Digest_Equal d d' = (if IsZero d \<or> IsZero d' then False else d = d')"

definition Digest_Bytes :: "digest \<Rightarrow> bytes" where
  "Digest_Bytes d = (if length d = 0 then [] else d)"

definition stackHex :: nat where
  "stackHex = 128"

definition Digest_String :: "digest \<Rightarrow> string" where
  "Digest_String d =
     (if length d = 0 then []
      else if hex_EncodedLen (length d) \<le> stackHex
      then (let (buf, n) = hex_Encode (replicate stackHex 0) d in string_of (take n buf))
      else hex_EncodeToString d)"

definition Digest_Prefix :: "digest \<Rightarrow> int \<Rightarrow> string" where
  "Digest_Prefix d n =
     (if n \<le> 0 then []
      else let s = Digest_String d in
        if int (length s) \<le> n then s else take (nat n) s)"

definition MarshalText :: "digest \<Rightarrow> bytes result" where
  "MarshalText d =
     (if length d = 0 then Inr []
      else Inr (fst (hex_Encode (replicate (hex_EncodedLen (length d)) 0) d)))"

fun lower_hex_loop :: "bytes \<Rightarrow> bool" where
  "lower_hex_loop [] = True"
| "lower_hex_loop (c # cs) =
     (if (c < 48 \<or> c > 57) \<and> (c < 97 \<or> c > 102) then False else lower_hex_loop cs)"

definition isLowerHex :: "bytes \<Rightarrow> bool" where
  "isLowerHex b = (if length b = 0 then False else lower_hex_loop b)"

definition UnmarshalText :: "bytes \<Rightarrow> digest result" where
  "UnmarshalText b =
     (if length b = 0 then Inr []
      else if length b mod 2 \<noteq> 0 \<or> \<not> isLowerHex b
      then Inl (Errorf ''is not a hex digest'' [ErrInvalidDigest])
      else (case hex_Decode b of
          Inl e \<Rightarrow> Inl (Errorf ''invalid digest'' [ErrInvalidDigest])
        | Inr raw \<Rightarrow> Inr raw))"

definition ParseDigest :: "string \<Rightarrow> digest result" where
  "ParseDigest s =
     (case UnmarshalText (bytes_of s) of
        Inl e \<Rightarrow> Inl e
      | Inr d \<Rightarrow> (if IsZero d then Inl (Errorf ''empty digest'' [ErrInvalidDigest]) else Inr d))"

definition CheckDigest :: "digest \<Rightarrow> string \<Rightarrow> err option" where
  "CheckDigest d what =
     (if IsZero d then Some (Errorf (what @ '': absent digest'') [ErrInvalidDigest]) else None)"

section \<open>Properties\<close>

lemma IsZero_iff [simp]: "IsZero d \<longleftrightarrow> d = []"
  by (simp add: IsZero_def)

lemma NewDigest_id [simp]: "NewDigest b = b"
  by (simp add: NewDigest_def)

lemma CheckDigest_simps [simp]:
  "CheckDigest [] what = Some (Errorf (what @ '': absent digest'') [ErrInvalidDigest])"
  "d \<noteq> [] \<Longrightarrow> CheckDigest d what = None"
  by (simp_all add: CheckDigest_def)

lemma CheckDigest_None_iff: "CheckDigest d what = None \<longleftrightarrow> d \<noteq> []"
  by (simp add: CheckDigest_def)

text \<open>Both rendering paths produce the plain hex text.\<close>

lemma length_hex_pairs [simp]: "length (concat (map hex_pair d)) = 2 * length d"
  by (induction d) (simp_all add: hex_pair_def)

lemma hex_pairs_Nil_iff [simp]: "(\<forall>x \<in> set d. hex_pair x = []) \<longleftrightarrow> d = []"
  by (cases d) (auto simp: hex_pair_def)

lemma Digest_String_hex: "Digest_String d = string_of (concat (map hex_pair d))"
  by (simp add: Digest_String_def hex_Encode_def hex_EncodeToString_def)

lemma length_Digest_String [simp]: "length (Digest_String d) = 2 * length d"
  by (simp add: Digest_String_hex)

lemma Digest_String_Nil_iff [simp]: "Digest_String d = [] \<longleftrightarrow> d = []"
  by (metis length_0_conv length_Digest_String mult_is_0 zero_neq_numeral)

lemma MarshalText_hex: "MarshalText d = Inr (bytes_of (Digest_String d))"
  by (simp add: MarshalText_def hex_Encode_def Digest_String_hex hex_EncodedLen_def)

lemma nibble_lo: "(v :: byte) AND 15 = take_bit 4 v"
  by (simp add: take_bit_eq_mask mask_eq_exp_minus_1)

lemma nibble_less [simp]: "unat (drop_bit 4 (v :: byte)) < 16" "unat (v AND 15) < 16"
proof -
  show "unat (drop_bit 4 v) < 16"
    using unat_byte_less_256 [of v] by (simp add: drop_bit_eq_div unat_div del: unat_byte_less_256)
  show "unat (v AND 15) < 16"
    using unat_mod [of v 16] by (simp add: nibble_lo take_bit_eq_mod)
qed

lemma fromHexChar_table: "n < 16 \<Longrightarrow> fromHexChar (hextable ! n) = Some (word_of_nat n)"
proof -
  have "\<forall>n \<in> set [0..<16]. fromHexChar (hextable ! n) = Some (word_of_nat n)"
    by code_simp
  then show "n < 16 \<Longrightarrow> ?thesis" by simp
qed

lemma lower_table: "n < 16 \<Longrightarrow> lower_hex_loop [hextable ! n]"
proof -
  have "\<forall>n \<in> set [0..<16]. lower_hex_loop [hextable ! n]"
    by code_simp
  then show "n < 16 \<Longrightarrow> ?thesis" by (auto simp del: lower_hex_loop.simps)
qed

lemma table_fromHexChar:
  assumes "lower_hex_loop [c]"
  shows "\<exists>x. fromHexChar c = Some x \<and> unat x < 16 \<and> hextable ! unat x = c"
proof -
  have "\<forall>n \<in> set [0..<256]. lower_hex_loop [word_of_nat n] \<longrightarrow>
      (case fromHexChar (word_of_nat n) of None \<Rightarrow> False
       | Some x \<Rightarrow> unat x < 16 \<and> hextable ! unat x = word_of_nat n)"
    by code_simp
  then have "lower_hex_loop [word_of_nat (unat c)] \<longrightarrow>
      (case fromHexChar (word_of_nat (unat c)) of None \<Rightarrow> False
       | Some x \<Rightarrow> unat x < 16 \<and> hextable ! unat x = word_of_nat (unat c))"
    by (rule bspec) simp
  with assms show ?thesis by (auto split: option.splits)
qed

lemma nibbles_join: "push_bit 4 (drop_bit 4 (v :: byte)) OR (v AND 15) = v"
proof -
  have "\<forall>n \<in> set [0..<256].
      push_bit 4 (drop_bit 4 (word_of_nat n :: byte)) OR (word_of_nat n AND 15) = word_of_nat n"
    by code_simp
  then have "push_bit 4 (drop_bit 4 (word_of_nat (unat v) :: byte)) OR (word_of_nat (unat v) AND 15) =
      word_of_nat (unat v)"
    by (rule bspec) simp
  then show ?thesis by simp
qed

lemma hex_Decode_pairs [simp]: "hex_Decode (concat (map hex_pair d)) = Inr d"
  by (induction d) (simp_all add: hex_pair_def fromHexChar_table nibbles_join)

lemma lower_hex_loop_append [simp]:
  "lower_hex_loop (a @ b) \<longleftrightarrow> lower_hex_loop a \<and> lower_hex_loop b"
  by (induction a) auto

lemma lower_hex_Cons: "lower_hex_loop (c # cs) \<longleftrightarrow> lower_hex_loop [c] \<and> lower_hex_loop cs"
  using lower_hex_loop_append [of "[c]" cs] by simp

lemma lower_hex_pair: "lower_hex_loop (hex_pair v)"
  unfolding hex_pair_def by (subst lower_hex_Cons) (simp only: lower_table nibble_less simp_thms)

lemma lower_hex_pairs [simp]: "lower_hex_loop (concat (map hex_pair d))"
  by (induction d) (simp_all add: lower_hex_pair)

lemma nibbles_split:
  assumes "unat (x :: byte) < 16" and "unat y < 16"
  shows "drop_bit 4 (push_bit 4 x OR y) = x \<and> (push_bit 4 x OR y) AND 15 = y"
proof -
  have "\<forall>m \<in> set [0..<16]. \<forall>n \<in> set [0..<16].
      drop_bit 4 (push_bit 4 (word_of_nat m :: byte) OR word_of_nat n) = word_of_nat m \<and>
      (push_bit 4 (word_of_nat m :: byte) OR word_of_nat n) AND 15 = word_of_nat n"
    by code_simp
  then have "drop_bit 4 (push_bit 4 (word_of_nat (unat x) :: byte) OR word_of_nat (unat y)) =
        word_of_nat (unat x) \<and>
      (push_bit 4 (word_of_nat (unat x) :: byte) OR word_of_nat (unat y)) AND 15 =
        word_of_nat (unat y)"
    using assms by (simp only: set_upt atLeastLessThan_iff Ball_def) blast
  then show ?thesis by simp
qed

lemma hex_Decode_lower:
  "lower_hex_loop b \<Longrightarrow> even (length b) \<Longrightarrow> \<exists>d. hex_Decode b = Inr d \<and> concat (map hex_pair d) = b"
proof (induction b rule: hex_Decode.induct)
  case 1
  then show ?case by simp
next
  case (2 p)
  then show ?case by simp
next
  case (3 p q src)
  from "3.prems"(1) have low: "lower_hex_loop [p]" "lower_hex_loop [q]" "lower_hex_loop src"
    by (metis lower_hex_Cons)+
  obtain x where x: "fromHexChar p = Some x" "unat x < 16" "hextable ! unat x = p"
    using table_fromHexChar [OF low(1)] by blast
  obtain y where y: "fromHexChar q = Some y" "unat y < 16" "hextable ! unat y = q"
    using table_fromHexChar [OF low(2)] by blast
  obtain d where d: "hex_Decode src = Inr d" "concat (map hex_pair d) = src"
    using "3.IH" [OF x(1) y(1) low(3)] "3.prems"(2) by auto
  show ?case
    using x y d nibbles_split [OF x(2) y(2)] by (simp add: hex_pair_def [of "push_bit 4 x OR y"])
qed

lemma ParseDigest_String: "d \<noteq> [] \<Longrightarrow> ParseDigest (Digest_String d) = Inr d"
  by (auto simp: ParseDigest_def UnmarshalText_def isLowerHex_def Digest_String_hex)

lemma ParseDigest_OkD:
  assumes parse: "ParseDigest s = Inr d"
  shows "d \<noteq> [] \<and> Digest_String d = s"
proof -
  from parse have ne: "d \<noteq> []" and un: "UnmarshalText (bytes_of s) = Inr d"
    by (auto simp: ParseDigest_def split: sum.splits if_splits)
  with parse have "s \<noteq> []"
    by (auto simp: ParseDigest_def UnmarshalText_def)
  with un have low: "even (length s)" "lower_hex_loop (bytes_of s)" "hex_Decode (bytes_of s) = Inr d"
    by (auto simp: UnmarshalText_def isLowerHex_def split: sum.splits if_splits)
  obtain d' where "hex_Decode (bytes_of s) = Inr d'" "concat (map hex_pair d') = bytes_of s"
    using hex_Decode_lower [of "bytes_of s"] low by auto
  with low(3) ne show ?thesis
    by (simp add: Digest_String_hex)
qed

lemma UnmarshalText_error: "UnmarshalText b = Inl e \<Longrightarrow> errors_Is e ErrInvalidDigest"
  by (auto simp: UnmarshalText_def split: sum.splits if_splits)

lemma ParseDigest_error: "ParseDigest s = Inl e \<Longrightarrow> errors_Is e ErrInvalidDigest"
  by (auto simp: ParseDigest_def dest: UnmarshalText_error split: sum.splits if_splits)

lemma Unmarshal_Marshal: "MarshalText d = Inr b \<Longrightarrow> UnmarshalText b = Inr d"
  by (auto simp: MarshalText_hex Digest_String_hex UnmarshalText_def isLowerHex_def)

lemma Digest_String_inj [simp]: "Digest_String a = Digest_String b \<longleftrightarrow> a = b"
  by (metis Digest_String_Nil_iff ParseDigest_String sum.inject(2))

lemma CheckDigest_error: "CheckDigest d what = Some e \<Longrightarrow> errors_Is e ErrInvalidDigest"
  by (auto simp: CheckDigest_def split: if_splits)

lemma Digest_Prefix_take: "Digest_Prefix d n = take (nat n) (Digest_String d)"
  by (auto simp: Digest_Prefix_def Let_def)

text \<open>The order of the rendered strings is the byte order of the digests.\<close>

lemma char_of_byte_less_iff: "char_of_byte a < char_of_byte b \<longleftrightarrow> a < b"
  by (simp add: less_char_def char_of_byte_def word_less_nat_alt)

lemma hex_char_less:
  assumes "a < (b :: byte)"
  shows "string_of (hex_pair a) < string_of (hex_pair b)"
proof -
  have "\<forall>m \<in> set [0..<16]. \<forall>n \<in> set [0..<16]. m < n \<longrightarrow> hextable ! m < hextable ! n"
    by code_simp
  then have mono: "char_of_byte (hextable ! m) < char_of_byte (hextable ! n)"
    if "m < n" "n < 16" for m n
    using that by (simp add: char_of_byte_less_iff)
  have n: "unat a < unat b"
    using assms by (simp add: word_less_nat_alt)
  have hi: "unat (drop_bit 4 v) = unat v div 16" for v :: byte
    by (simp add: drop_bit_eq_div unat_div)
  have lo: "unat (v AND 15) = unat v mod 16" for v :: byte
    by (simp add: nibble_lo take_bit_eq_mod unat_mod)
  show ?thesis
  proof (cases "unat a div 16 = unat b div 16")
    case True
    with n have "unat a mod 16 < unat b mod 16"
      by (metis add_less_cancel_left div_mult_mod_eq)
    with True show ?thesis
      by (simp add: hex_pair_def string_of_def hi lo mono)
  next
    case False
    with n have "unat a div 16 < unat b div 16"
      by (simp add: div_le_mono nless_le)
    then have "char_of_byte (hextable ! (unat a div 16)) < char_of_byte (hextable ! (unat b div 16))"
      by (rule mono) (use nibble_less(1) [of b] in \<open>simp only: hi\<close>)
    then show ?thesis
      by (simp add: hex_pair_def string_of_def hi)
  qed
qed

lemma list_less_append_same_length:
  fixes a b :: "'a :: linorder list"
  shows "length a = length b \<Longrightarrow> a < b \<Longrightarrow> a @ u < b @ v"
  by (induction a b rule: list_induct2) auto

lemma list_less_append_same: "(a :: 'a :: linorder list) @ u < a @ v \<longleftrightarrow> u < v"
  by (induction a) auto

lemma Digest_String_Cons: "Digest_String (b # d) = string_of (hex_pair b) @ Digest_String d"
  by (simp add: Digest_String_hex string_of_def)

text \<open>
  \<open>ParseDigest\<close> accepts exactly the rendering of a present digest: it returns \<open>d\<close> for \<open>s\<close>
  if and only if \<open>d\<close> is not absent and \<open>s\<close> is \<open>d.String()\<close>. Rendering and parsing are
  therefore inverse, an address has one textual spelling, and an upper-case or legacy
  spelling never parses.
\<close>

theorem ParseDigest_iff_String:
  "ParseDigest s = Inr d \<longleftrightarrow> d \<noteq> [] \<and> Digest_String d = s"
  using ParseDigest_String ParseDigest_OkD by blast

text \<open>
  Comparing raw digest bytes sorts exactly like comparing the rendered hex strings, which
  is what the backends' \<open>List\<close> relies on when it sorts digests without rendering them.
\<close>

theorem Digest_String_less_iff: "Digest_String a < Digest_String b \<longleftrightarrow> a < b"
proof -
  have less: "a < b \<Longrightarrow> Digest_String a < Digest_String b" for a b
  proof (induction a arbitrary: b)
    case Nil
    then show ?case
      by (cases b) (auto simp: Digest_String_Cons hex_pair_def string_of_def Digest_String_hex)
  next
    case (Cons x a)
    then obtain y b' where b: "b = y # b'"
      by (cases b) auto
    with Cons.prems consider "x < y" | "x = y" "a < b'" by auto
    then show ?case
    proof cases
      case 1
      have "length (string_of (hex_pair x)) = length (string_of (hex_pair y))"
        by (simp add: hex_pair_def)
      then show ?thesis
        unfolding b Digest_String_Cons by (rule list_less_append_same_length) (rule hex_char_less [OF 1])
    next
      case 2
      then show ?thesis
        using Cons.IH [OF 2(2)] by (simp add: b Digest_String_Cons list_less_append_same)
    qed
  qed
  show ?thesis
    using less [of a b] less [of b a] by (metis less_asym neqE order.irrefl)
qed

end
