(* ===== verification/Cas_Envelope.thy ===== *)
theory Cas_Envelope
  imports Cas_Digest
begin

text \<open>
  \<open>src/cas/envelope.go\<close>: the TLV frame every stored object travels in. The writer fills one
  pre-sized buffer in place; there are two readers of the same header, one over a byte slice
  (\<open>decodeEnvelopeHeader\<close>, \<open>decodeEnvelope\<close>) and one over a stream (\<open>peekHeader\<close>). The
  \<open>encoding/binary\<close> varint routines the file calls are modelled with it: the lengths are
  naturals, exact below \<open>2 ^ 64\<close>, which the overflow checks of both varint readers
  guarantee (\<open>uvarint_less\<close>).

  The lemmas show that the in-place writer produces the documented layout, that decoding
  inverts it, that both readers agree, and that every parse failure is \<open>ErrCorrupt\<close>.
\<close>

section \<open>encoding/binary varints\<close>

definition MaxVarintLen64 :: nat where
  "MaxVarintLen64 = 10"

fun PutUvarint :: "nat \<Rightarrow> bytes" where
  "PutUvarint x =
     (if x < 128 then [word_of_nat x]
      else word_of_nat (x mod 128 + 128) # PutUvarint (x div 128))"

declare PutUvarint.simps [simp del]

text \<open>The accumulated bits of a varint never overlap, so \<open>|\<close> is written as addition.\<close>

fun uvarint_loop :: "nat \<Rightarrow> nat \<Rightarrow> bytes \<Rightarrow> nat \<times> int" where
  "uvarint_loop i x [] = (0, 0)"
| "uvarint_loop i x (b # bs) =
     (if i = MaxVarintLen64 then (0, - (int i + 1))
      else if b < 128
      then (if i = MaxVarintLen64 - 1 \<and> b > 1 then (0, - (int i + 1))
            else (x + unat b * 2 ^ (7 * i), int i + 1))
      else uvarint_loop (i + 1) (x + unat b mod 128 * 2 ^ (7 * i)) bs)"

definition Uvarint :: "bytes \<Rightarrow> nat \<times> int" where
  "Uvarint buf = uvarint_loop 0 0 buf"

text \<open>The error a byte read reports once the stream is exhausted.\<close>

definition stream_end :: "err option \<Rightarrow> err" where
  "stream_end fe = (case fe of None \<Rightarrow> EOF | Some e \<Rightarrow> e)"

fun read_uvarint_loop :: "nat \<Rightarrow> nat \<Rightarrow> bytes \<Rightarrow> err option \<Rightarrow> nat result \<times> bytes" where
  "read_uvarint_loop i x [] fe =
     (if i = MaxVarintLen64 then (Inl ErrVarintOverflow, [])
      else (Inl (if i > 0 \<and> stream_end fe = EOF then ErrUnexpectedEOF else stream_end fe), []))"
| "read_uvarint_loop i x (b # bs) fe =
     (if i = MaxVarintLen64 then (Inl ErrVarintOverflow, b # bs)
      else if b < 128
      then (if i = MaxVarintLen64 - 1 \<and> b > 1 then (Inl ErrVarintOverflow, bs)
            else (Inr (x + unat b * 2 ^ (7 * i)), bs))
      else read_uvarint_loop (i + 1) (x + unat b mod 128 * 2 ^ (7 * i)) bs fe)"

definition ReadUvarint :: "bytes \<Rightarrow> err option \<Rightarrow> nat result \<times> bytes" where
  "ReadUvarint s fe = read_uvarint_loop 0 0 s fe"

definition io_ReadFull :: "nat \<Rightarrow> bytes \<Rightarrow> err option \<Rightarrow> bytes result \<times> bytes" where
  "io_ReadFull n s fe =
     (if n \<le> length s then (Inr (take n s), drop n s)
      else (Inl (if s \<noteq> [] \<and> stream_end fe = EOF then ErrUnexpectedEOF else stream_end fe), []))"

section \<open>The writer\<close>

record envelope =
  env_Type :: string
  env_Codec :: string
  env_Data :: bytes

definition envelopeVersion :: byte where
  "envelopeVersion = 2"

definition envelopeVersionV1 :: byte where
  "envelopeVersionV1 = 1"

definition EnvelopeVersion :: byte where
  "EnvelopeVersion = envelopeVersion"

text \<open>\<open>copy(out[off:], src)\<close>: as many bytes as fit behind the offset.\<close>

definition copy_at :: "bytes \<Rightarrow> nat \<Rightarrow> bytes \<Rightarrow> bytes" where
  "copy_at out off src = take off out @ take (length out - off) src @ drop (off + length src) out"

definition encodeEnvelope :: "string \<Rightarrow> string \<Rightarrow> bytes \<Rightarrow> bytes" where
  "encodeEnvelope codec typ payload =
     (let nCodec = length (PutUvarint (length codec));
          nType = length (PutUvarint (length typ));
          nPayload = length (PutUvarint (length payload));
          total = 1 + nCodec + length codec + nType + length typ + nPayload + length payload;
          out = replicate total 0;
          out = out[0 := envelopeVersion];
          off = 1;
          out = copy_at out off (PutUvarint (length codec));
          off = off + nCodec;
          out = copy_at out off (bytes_of codec);
          off = off + length codec;
          out = copy_at out off (PutUvarint (length typ));
          off = off + nType;
          out = copy_at out off (bytes_of typ);
          off = off + length typ;
          out = copy_at out off (PutUvarint (length payload));
          off = off + nPayload;
          out = copy_at out off payload
      in out)"

definition EncodeEnvelope :: "string \<Rightarrow> string \<Rightarrow> bytes \<Rightarrow> bytes result" where
  "EncodeEnvelope codec typ payload =
     (if typ = [] then Inl (Errorf ''empty type name'' [ErrUnknownType])
      else if CHR ''@'' \<notin> set typ
      then Inl (Errorf ''type name is not versioned'' [ErrUnknownType])
      else Inr (encodeEnvelope codec typ payload))"

section \<open>The slice reader\<close>

definition versioned :: "string \<Rightarrow> string" where
  "versioned t = (if CHR ''@'' \<notin> set t then t @ ''@1'' else t)"

definition decode_codec_field :: "bytes \<Rightarrow> nat \<Rightarrow> (string \<times> nat) result" where
  "decode_codec_field data off =
     (let (codecLen, n) = Uvarint (drop off data) in
      if n \<le> 0 then Inl (Errorf ''truncated codec length'' [ErrCorrupt])
      else let off = off + nat n in
        if codecLen > length data - off
        then Inl (Errorf ''object missing or oversized codec'' [ErrCorrupt])
        else Inr (string_of (take codecLen (drop off data)), off + codecLen))"

definition decode_type_field :: "bytes \<Rightarrow> string \<Rightarrow> nat \<Rightarrow> (string \<times> string \<times> nat) result" where
  "decode_type_field data codec off =
     (let (typeLen, n) = Uvarint (drop off data) in
      if n \<le> 0 then Inl (Errorf ''truncated type length'' [ErrCorrupt])
      else let off = off + nat n in
        if typeLen = 0 \<or> typeLen > length data - off
        then Inl (Errorf ''object missing or oversized type'' [ErrCorrupt])
        else Inr (codec, versioned (string_of (take typeLen (drop off data))), off + typeLen))"

definition decodeEnvelopeHeader :: "bytes \<Rightarrow> (string \<times> string \<times> nat) result" where
  "decodeEnvelopeHeader data =
     (if length data < 1 then Inl (Errorf ''truncated envelope version'' [ErrCorrupt])
      else let version = data ! 0 in
        if version \<noteq> envelopeVersion \<and> version \<noteq> envelopeVersionV1
        then Inl (Errorf ''unsupported envelope version'' [ErrCorrupt])
        else case (if version = envelopeVersion then decode_codec_field data 1 else Inr ([], 1)) of
            Inl e \<Rightarrow> Inl e
          | Inr (codec, off) \<Rightarrow> decode_type_field data codec off)"

definition decodeEnvelope :: "bytes \<Rightarrow> envelope result" where
  "decodeEnvelope data =
     (case decodeEnvelopeHeader data of
        Inl e \<Rightarrow> Inl e
      | Inr (codec, typeName, off) \<Rightarrow>
          (let (payloadLen, n) = Uvarint (drop off data) in
           if n \<le> 0 then Inl (Errorf ''truncated payload length'' [ErrCorrupt])
           else let off = off + nat n in
             if payloadLen > length data - off
             then Inl (Errorf ''payload length exceeds envelope size'' [ErrCorrupt])
             else Inr \<lparr>env_Type = typeName, env_Codec = codec,
                       env_Data = take payloadLen (drop off data)\<rparr>))"

definition EnvelopeType :: "bytes \<Rightarrow> string result" where
  "EnvelopeType data =
     (case decodeEnvelopeHeader data of Inl e \<Rightarrow> Inl e | Inr (_, typeName, _) \<Rightarrow> Inr typeName)"

definition EnvelopeFromBytes :: "bytes \<Rightarrow> envelope result" where
  "EnvelopeFromBytes data =
     (case decodeEnvelope data of Inl e \<Rightarrow> Inl e | Inr env \<Rightarrow> Inr (env\<lparr>env_Data := env_Data env\<rparr>))"

section \<open>The stream reader\<close>

definition maxPeekNameLen :: nat where
  "maxPeekNameLen = 4096"

definition headerPrefixLimit :: nat where
  "headerPrefixLimit = 2 * maxPeekNameLen"

definition peekError :: "string \<Rightarrow> string \<Rightarrow> err \<Rightarrow> err" where
  "peekError op1 field e =
     (if errors_Is e EOF \<or> errors_Is e ErrUnexpectedEOF
      then Errorf (op1 @ '': truncated '' @ field) [ErrCorrupt]
      else Errorf (op1 @ '': read '' @ field) [ErrCorrupt, e])"

definition readPeekName ::
  "bytes \<Rightarrow> err option \<Rightarrow> string \<Rightarrow> string \<Rightarrow> bool \<Rightarrow> string result \<times> bytes" where
  "readPeekName s fe op1 field allowEmpty =
     (case ReadUvarint s fe of
        (Inl e, s') \<Rightarrow> (Inl (peekError op1 (field @ '' length'') e), s')
      | (Inr fieldLen, s') \<Rightarrow>
          if fieldLen > maxPeekNameLen
          then (Inl (Errorf (op1 @ '': '' @ field @ '' length exceeds'') [ErrCorrupt]), s')
          else if fieldLen = 0
          then (if \<not> allowEmpty
                then (Inl (Errorf (op1 @ '': empty '' @ field @ '' name'') [ErrCorrupt]), s')
                else (Inr [], s'))
          else (case io_ReadFull fieldLen s' fe of
              (Inl e, s'') \<Rightarrow> (Inl (peekError op1 field e), s'')
            | (Inr name, s'') \<Rightarrow> (Inr (string_of name), s'')))"

text \<open>\<open>peekHeader\<close> returns the header and the rest of the stream it did not touch.\<close>

definition peekHeader ::
  "bytes \<Rightarrow> err option \<Rightarrow> string \<Rightarrow> (byte \<times> string \<times> string) result \<times> bytes" where
  "peekHeader s fe op1 =
     (case s of
        [] \<Rightarrow> (Inl (peekError op1 ''envelope version'' (stream_end fe)), [])
      | version # s1 \<Rightarrow>
          if version \<noteq> envelopeVersion \<and> version \<noteq> envelopeVersionV1
          then (Inl (Errorf (op1 @ '': unsupported envelope version'') [ErrCorrupt]), s1)
          else (case (if version = envelopeVersion then readPeekName s1 fe op1 ''codec'' True
                      else (Inr [], s1)) of
              (Inl e, s2) \<Rightarrow> (Inl e, s2)
            | (Inr codec, s2) \<Rightarrow>
                (case readPeekName s2 fe op1 ''type'' False of
                   (Inl e, s3) \<Rightarrow> (Inl e, s3)
                 | (Inr typeName, s3) \<Rightarrow> (Inr (version, codec, versioned typeName), s3))))"

definition PeekHeader :: "'z reader_scheme \<Rightarrow> (byte \<times> string \<times> string) result" where
  "PeekHeader r = fst (peekHeader (r_data r) (r_err r) ''peek header'')"

definition PeekType :: "'z reader_scheme \<Rightarrow> string result" where
  "PeekType r =
     (case fst (peekHeader (r_data r) (r_err r) ''peek type'') of
        Inl e \<Rightarrow> Inl e | Inr (_, _, typeName) \<Rightarrow> Inr typeName)"

definition PeekVersion :: "'z reader_scheme \<Rightarrow> byte result" where
  "PeekVersion r =
     (case r_data r of
        [] \<Rightarrow> Inl (peekError ''peek version'' ''envelope version'' (stream_end (r_err r)))
      | version # _ \<Rightarrow> Inr version)"

section \<open>Varint lemmas\<close>

lemma PutUvarint_Cons: "\<exists>b bs. PutUvarint x = b # bs"
  by (subst PutUvarint.simps) simp

lemma seven_bits: "(2 :: nat) ^ 7 = 128"
  by simp

lemma byte_less_128: "(word_of_nat n :: byte) < 128 \<longleftrightarrow> n mod 256 < 128"
  by (simp add: word_less_nat_alt unat_of_nat)

lemma unat_byte: "n < 256 \<Longrightarrow> unat (word_of_nat n :: byte) = n"
  by (simp add: unat_of_nat)

text \<open>
  Reading back what \<open>PutUvarint\<close> wrote, starting in the middle of a varint: \<open>i\<close> bytes and
  their value \<open>acc\<close> are already consumed.
\<close>

lemma uvarint_loop_put:
  "i \<le> 9 \<Longrightarrow> x < 2 ^ (64 - 7 * i) \<Longrightarrow>
    uvarint_loop i acc (PutUvarint x @ rest) =
      (acc + x * 2 ^ (7 * i), int i + int (length (PutUvarint x)))"
proof (induction x arbitrary: i acc rule: PutUvarint.induct)
  case (1 x)
  show ?case
  proof (cases "x < 128")
    case True
    have put: "PutUvarint x = [word_of_nat x]"
      using True by (subst PutUvarint.simps) simp
    have last: "i = 9 \<Longrightarrow> x < 2"
      using "1.prems"(2) by auto
    then have "\<not> (i = 9 \<and> (1 :: byte) < word_of_nat x)"
      using True by (auto simp: word_less_nat_alt unat_byte)
    with True "1.prems"(1) show ?thesis
      unfolding put by (auto simp: MaxVarintLen64_def unat_byte byte_less_128)
  next
    case False
    have i: "i \<le> 8"
    proof (rule ccontr)
      assume "\<not> i \<le> 8"
      with "1.prems" have "i = 9" by simp
      with "1.prems"(2) have "x < 2" by simp
      with False show False by simp
    qed
    have "x div 128 < 2 ^ (64 - 7 * (i + 1))"
    proof -
      have e: "64 - 7 * i = (64 - 7 * (i + 1)) + 7" using i by simp
      have "(2 :: nat) ^ (64 - 7 * i) = 2 ^ (64 - 7 * (i + 1)) * 2 ^ 7"
        unfolding e by (rule power_add)
      then have "x < 2 ^ (64 - 7 * (i + 1)) * 128"
        using "1.prems"(2) by (simp only: seven_bits)
      then show ?thesis by (rule less_mult_imp_div_less)
    qed
    with "1.IH" [OF False, of "i + 1" "acc + x mod 128 * 2 ^ (7 * i)"] i
    have IH: "uvarint_loop (i + 1) (acc + x mod 128 * 2 ^ (7 * i)) (PutUvarint (x div 128) @ rest) =
        (acc + x mod 128 * 2 ^ (7 * i) + x div 128 * 2 ^ (7 * (i + 1)),
         int (i + 1) + int (length (PutUvarint (x div 128))))"
      by simp
    have val: "x mod 128 * 2 ^ (7 * i) + x div 128 * 2 ^ (7 * (i + 1)) = x * 2 ^ (7 * i)"
    proof -
      have "(2 :: nat) ^ (7 * (i + 1)) = 128 * 2 ^ (7 * i)"
        by (simp add: power_add)
      then have "x mod 128 * 2 ^ (7 * i) + x div 128 * 2 ^ (7 * (i + 1)) =
          (x mod 128 + x div 128 * 128) * 2 ^ (7 * i)"
        by (simp only: add_mult_distrib mult.assoc)
      also have "x mod 128 + x div 128 * 128 = x"
        by (rule mod_div_mult_eq)
      finally show ?thesis .
    qed
    have small: "x mod 128 + 128 < 256" by simp
    have b: "\<not> (word_of_nat (x mod 128 + 128) :: byte) < 128"
      "unat (word_of_nat (x mod 128 + 128) :: byte) mod 128 = x mod 128"
      using small by (simp_all add: byte_less_128 unat_byte del: of_nat_add)
    have "uvarint_loop i acc (PutUvarint x @ rest) =
        uvarint_loop (i + 1) (acc + x mod 128 * 2 ^ (7 * i)) (PutUvarint (x div 128) @ rest)"
      using False i b
      by (subst PutUvarint.simps) (simp add: MaxVarintLen64_def del: of_nat_add)
    also have "\<dots> = (acc + x * 2 ^ (7 * i), int i + int (length (PutUvarint x)))"
      using IH val False by (simp add: PutUvarint.simps [of x])
    finally show ?thesis .
  qed
qed

lemma Uvarint_PutUvarint:
  "x < 2 ^ 64 \<Longrightarrow> Uvarint (PutUvarint x @ rest) = (x, int (length (PutUvarint x)))"
  using uvarint_loop_put [of 0 x 0 rest] by (simp add: Uvarint_def)

text \<open>A successful read depends only on the bytes it consumed.\<close>

lemma uvarint_loop_prefix:
  "uvarint_loop i x bs = (y, m) \<Longrightarrow> m > 0 \<Longrightarrow>
    int i < m \<and> nat m - i \<le> length bs \<and>
    uvarint_loop i x (take (nat m - i) bs @ rest) = (y, m)"
proof (induction i x bs rule: uvarint_loop.induct)
  case (2 i x b bs)
  show ?case
  proof (cases "i \<noteq> MaxVarintLen64 \<and> \<not> b < 128")
    case True
    with 2 have *: "int (i + 1) < m" "nat m - (i + 1) \<le> length bs"
      "uvarint_loop (i + 1) (x + unat b mod 128 * 2 ^ (7 * i)) (take (nat m - (i + 1)) bs @ rest) = (y, m)"
      by auto
    have "nat m - i = Suc (nat m - (i + 1))" using *(1) by simp
    with * True show ?thesis by simp
  next
    case False
    have "nat (int i + 1) - i = Suc 0" by simp
    with False "2.prems" show ?thesis by (auto split: if_splits)
  qed
qed simp

lemma Uvarint_prefix:
  assumes "Uvarint bs = (y, m)" and "m > 0"
  shows "nat m \<le> length bs" and "Uvarint (take (nat m) bs @ rest) = (y, m)"
  using uvarint_loop_prefix [of 0 0 bs y m rest] assms by (simp_all add: Uvarint_def)

lemma uvarint_loop_less:
  "i \<le> 10 \<Longrightarrow> x < 2 ^ (7 * i) \<Longrightarrow> uvarint_loop i x bs = (y, m) \<Longrightarrow> y < 2 ^ 64"
proof (induction i x bs rule: uvarint_loop.induct)
  case (2 i x b bs)
  show ?case
  proof (cases "i \<noteq> MaxVarintLen64 \<and> \<not> b < 128")
    case True
    with "2.prems"(1) have i: "i + 1 \<le> 10" by (simp add: MaxVarintLen64_def)
    have "unat b mod 128 * 2 ^ (7 * i) \<le> 127 * 2 ^ (7 * i)"
      by (intro mult_right_mono) (simp_all add: less_Suc_eq_le [symmetric])
    with "2.prems"(2) have "x + unat b mod 128 * 2 ^ (7 * i) < 128 * 2 ^ (7 * i)"
      by linarith
    then have "x + unat b mod 128 * 2 ^ (7 * i) < 2 ^ (7 * (i + 1))"
      by (simp add: power_add)
    with 2 True i show ?thesis by simp
  next
    case False
    then consider (over) "i = MaxVarintLen64" | (last) "i \<noteq> MaxVarintLen64" "b < 128" by auto
    then show ?thesis
    proof cases
      case over
      with "2.prems" show ?thesis by auto
    next
      case last
      have bl: "unat b < 128" using last(2) by (simp add: word_less_nat_alt)
      show ?thesis
      proof (cases "i = 9")
        case True
        with "2.prems" last have "y = 0 \<or> (b \<le> 1 \<and> y = x + unat b * 2 ^ 63)"
          by (auto simp: MaxVarintLen64_def split: if_splits)
        moreover have "b \<le> 1 \<Longrightarrow> unat b \<le> 1" by (simp add: word_le_nat_alt)
        moreover have "x < 2 ^ 63" using "2.prems"(2) True by simp
        ultimately show ?thesis by auto
      next
        case False
        with "2.prems"(1) last have i: "i \<le> 8" by (simp add: MaxVarintLen64_def)
        with False last "2.prems"(3) have y: "y = x + unat b * 2 ^ (7 * i)"
          by (auto simp: MaxVarintLen64_def split: if_splits)
        have "unat b * 2 ^ (7 * i) \<le> 127 * 2 ^ (7 * i)"
          using bl by (intro mult_right_mono) simp_all
        with y "2.prems"(2) have "y < 128 * 2 ^ (7 * i)" by linarith
        also have "\<dots> = 2 ^ (7 * i + 7)" by (simp add: power_add)
        also have "\<dots> \<le> 2 ^ 64" using i by (intro power_increasing) simp_all
        finally show ?thesis .
      qed
    qed
  qed
qed auto

lemma Uvarint_less: "Uvarint bs = (y, m) \<Longrightarrow> y < 2 ^ 64"
  using uvarint_loop_less [of 0 0 bs y m] by (simp add: Uvarint_def)

text \<open>The stream reader and the slice reader of a varint agree.\<close>

lemma read_uvarint_loop_ok:
  "i \<le> 10 \<Longrightarrow> read_uvarint_loop i x s fe = (Inr y, s') \<longleftrightarrow>
    (\<exists>m. uvarint_loop i x s = (y, m) \<and> m > 0 \<and> s' = drop (nat m - i) s)"
proof (induction i x s rule: uvarint_loop.induct)
  case (1 i x)
  then show ?case by simp
next
  case (2 i x b bs)
  show ?case
  proof (cases "i \<noteq> MaxVarintLen64 \<and> \<not> b < 128")
    case True
    with "2.prems" have i: "i + 1 \<le> 10" by (simp add: MaxVarintLen64_def)
    define z where "z = x + unat b mod 128 * 2 ^ (7 * i)"
    have skip: "drop (nat m - i) (b # bs) = drop (nat m - (i + 1)) bs"
      if "uvarint_loop (i + 1) z bs = (y, m)" "m > 0" for m
    proof -
      have "nat m - i = Suc (nat m - (i + 1))"
        using uvarint_loop_prefix [OF that, of "[]"] by linarith
      then show ?thesis by simp
    qed
    have "read_uvarint_loop i x (b # bs) fe = read_uvarint_loop (i + 1) z bs fe"
      "uvarint_loop i x (b # bs) = uvarint_loop (i + 1) z bs"
      using True by (simp_all add: z_def)
    with "2.IH" [OF _ _ i] True skip show ?thesis
      unfolding z_def by metis
  next
    case False
    have "nat (int i + 1) - i = Suc 0" by simp
    with False show ?thesis by (auto split: if_splits)
  qed
qed

lemma ReadUvarint_ok:
  "ReadUvarint s fe = (Inr y, s') \<longleftrightarrow> (\<exists>m. Uvarint s = (y, m) \<and> m > 0 \<and> s' = drop (nat m) s)"
  using read_uvarint_loop_ok [of 0 0 s fe y s'] by (simp add: ReadUvarint_def Uvarint_def)

section \<open>The layout and its round trip\<close>

lemma copy_at_append:
  "length pre = off \<Longrightarrow> length src \<le> length suf \<Longrightarrow>
    copy_at (pre @ suf) off src = pre @ src @ drop (length src) suf"
  by (simp add: copy_at_def)

lemma encodeEnvelope_layout:
  "encodeEnvelope codec typ payload =
     envelopeVersion # PutUvarint (length codec) @ bytes_of codec @
     PutUvarint (length typ) @ bytes_of typ @ PutUvarint (length payload) @ payload"
proof -
  define z :: "nat \<Rightarrow> bytes" where "z n = replicate n 0" for n
  have lz: "length (z n) = n" and dz: "drop m (z n) = z (n - m)"
    and nz: "z 0 = []" for m n
    by (simp_all add: z_def)
  define c t p where "c = PutUvarint (length codec)" and "t = PutUvarint (length typ)"
    and "p = PutUvarint (length payload)"
  define total where "total = 1 + length c + length codec + length t + length typ + length p
    + length payload"
  have z0: "(z total)[0 := envelopeVersion] = [envelopeVersion] @ z (total - 1)"
    by (cases total) (simp_all add: z_def total_def)
  have "encodeEnvelope codec typ payload =
    copy_at (copy_at (copy_at (copy_at (copy_at (copy_at ((z total)[0 := envelopeVersion])
      1 c) (1 + length c) (bytes_of codec)) (1 + length c + length codec) t)
      (1 + length c + length codec + length t) (bytes_of typ))
      (1 + length c + length codec + length t + length typ) p)
      (1 + length c + length codec + length t + length typ + length p) payload"
    by (simp add: encodeEnvelope_def Let_def c_def t_def p_def z_def total_def add.assoc)
  also have "\<dots> = [envelopeVersion] @ c @ bytes_of codec @ t @ bytes_of typ @ p @ payload"
    unfolding z0
    by (simp add: copy_at_def total_def lz dz nz)
  finally show ?thesis by (simp add: c_def t_def p_def)
qed

text \<open>
  A length-prefixed field at its place in a frame: the prefix reads back, and so does the
  field's content.
\<close>

lemma Uvarint_at:
  "length pre = off \<Longrightarrow> n < 2 ^ 64 \<Longrightarrow>
    Uvarint (drop off (pre @ PutUvarint n @ rest)) = (n, int (length (PutUvarint n)))"
  by (simp add: Uvarint_PutUvarint)

lemma PutUvarint_length_pos [simp]: "0 < length (PutUvarint n)" "PutUvarint n \<noteq> []"
  using PutUvarint_Cons [of n] by auto

definition frame_header :: "string \<Rightarrow> string \<Rightarrow> bytes" where
  "frame_header codec typ =
     envelopeVersion # PutUvarint (length codec) @ bytes_of codec @ PutUvarint (length typ) @ bytes_of typ"

lemma encodeEnvelope_header:
  "encodeEnvelope codec typ payload =
     frame_header codec typ @ PutUvarint (length payload) @ payload"
  by (simp add: encodeEnvelope_layout frame_header_def)

lemma decode_codec_field_frame:
  assumes "length codec < 2 ^ 64"
  shows "decode_codec_field (v # PutUvarint (length codec) @ bytes_of codec @ rest) (Suc 0) =
    Inr (codec, 1 + length (PutUvarint (length codec)) + length codec)"
  using Uvarint_at [of "[v]" 1 "length codec" "bytes_of codec @ rest"] assms
  by (simp add: decode_codec_field_def)

lemma decodeEnvelopeHeader_frame:
  assumes "length codec < 2 ^ 64" "length typ < 2 ^ 64" "typ \<noteq> []"
  shows "decodeEnvelopeHeader (frame_header codec typ @ rest) =
    Inr (codec, versioned typ, length (frame_header codec typ))"
proof -
  define pre where "pre = envelopeVersion # PutUvarint (length codec) @ bytes_of codec"
  define data where "data = pre @ PutUvarint (length typ) @ bytes_of typ @ rest"
  have data: "frame_header codec typ @ rest = data"
    by (simp add: frame_header_def data_def pre_def)
  have codec: "decode_codec_field data (Suc 0) = Inr (codec, length pre)"
    using decode_codec_field_frame [OF assms(1), of envelopeVersion
        "PutUvarint (length typ) @ bytes_of typ @ rest"]
    by (simp add: data_def pre_def)
  have "Uvarint (drop (length pre) data) = (length typ, int (length (PutUvarint (length typ))))"
    unfolding data_def by (rule Uvarint_at [OF refl assms(2)])
  moreover have "data ! 0 = envelopeVersion" "data \<noteq> []"
    by (simp_all add: data_def pre_def)
  moreover have "length (frame_header codec typ) = length pre + length (PutUvarint (length typ)) + length typ"
    by (simp add: frame_header_def pre_def)
  ultimately show ?thesis
    unfolding data
    by (simp add: decodeEnvelopeHeader_def decode_type_field_def codec assms(3)) (simp add: data_def Let_def Suc_le_eq)
qed

lemma versioned_id [simp]: "CHR ''@'' \<in> set t \<Longrightarrow> versioned t = t"
  by (simp add: versioned_def)

lemma decodeEnvelope_frame:
  assumes "length codec < 2 ^ 64" "length typ < 2 ^ 64" "length payload < 2 ^ 64" "typ \<noteq> []"
  shows "decodeEnvelope (encodeEnvelope codec typ payload @ trailer) =
    Inr \<lparr>env_Type = versioned typ, env_Codec = codec, env_Data = payload\<rparr>"
proof -
  define pre where "pre = frame_header codec typ"
  define data where "data = pre @ PutUvarint (length payload) @ payload @ trailer"
  have data: "encodeEnvelope codec typ payload @ trailer = data"
    by (simp add: encodeEnvelope_header data_def pre_def)
  have "decodeEnvelopeHeader data = Inr (codec, versioned typ, length pre)"
    unfolding data_def pre_def using assms(1,2,4) by (rule decodeEnvelopeHeader_frame)
  moreover have "Uvarint (drop (length pre) data) = (length payload, int (length (PutUvarint (length payload))))"
    unfolding data_def by (rule Uvarint_at [OF refl assms(3)])
  ultimately show ?thesis
    unfolding data by (simp add: decodeEnvelope_def Let_def) (simp add: data_def)
qed

section \<open>Parse failures\<close>

lemma decode_codec_field_error: "decode_codec_field data off = Inl e \<Longrightarrow> errors_Is e ErrCorrupt"
  by (auto simp: decode_codec_field_def Let_def split: prod.splits if_splits)

lemma decodeEnvelopeHeader_error: "decodeEnvelopeHeader data = Inl e \<Longrightarrow> errors_Is e ErrCorrupt"
  by (auto simp: decodeEnvelopeHeader_def decode_type_field_def Let_def dest: decode_codec_field_error
      split: prod.splits if_splits sum.splits)

lemma decodeEnvelope_error: "decodeEnvelope data = Inl e \<Longrightarrow> errors_Is e ErrCorrupt"
  by (auto simp: decodeEnvelope_def Let_def dest: decodeEnvelopeHeader_error
      split: prod.splits if_splits sum.splits)

lemma peekError_corrupt: "errors_Is (peekError op1 field e) ErrCorrupt"
  by (simp add: peekError_def)

lemma readPeekName_error: "readPeekName s fe op1 field ae = (Inl e, s') \<Longrightarrow> errors_Is e ErrCorrupt"
  by (auto simp: readPeekName_def peekError_corrupt split: prod.splits sum.splits if_splits)

lemma peekHeader_error: "peekHeader s fe op1 = (Inl e, s') \<Longrightarrow> errors_Is e ErrCorrupt"
  by (auto simp: peekHeader_def peekError_corrupt dest: readPeekName_error
      split: prod.splits sum.splits if_splits list.splits)

section \<open>The two readers agree\<close>

text \<open>
  One length-prefixed field, as both readers see it: \<open>field_at s name rest\<close> holds when \<open>s\<close>
  starts with a varint, followed by \<open>name\<close> of that length, followed by \<open>rest\<close>.
\<close>

definition field_at :: "bytes \<Rightarrow> bytes \<Rightarrow> bytes \<Rightarrow> bool" where
  "field_at s name rest \<longleftrightarrow>
     (\<exists>m. Uvarint s = (length name, m) \<and> m > 0 \<and> drop (nat m) s = name @ rest)"

lemma take_drop_split [simp]: "take n (drop m s) @ drop (n + m) s = drop m s"
  by (metis append_take_drop_id drop_drop)

lemma field_at_cases:
  assumes "Uvarint s = (n, m)" "m > 0" "n \<le> length s - nat m"
  shows "field_at s (take n (drop (nat m) s)) (drop (nat m + n) s)"
  using assms Uvarint_prefix(1) [OF assms(1,2)]
  by (auto simp: field_at_def min_def add.commute [of "nat m"])

lemma field_at_det: "field_at s a r \<Longrightarrow> field_at s b q \<Longrightarrow> a = b \<and> r = q"
  by (auto simp: field_at_def)

lemma readPeekName_ok:
  "readPeekName s fe op1 field ae = (Inr name, rest) \<longleftrightarrow>
     field_at s (bytes_of name) rest \<and> length name \<le> maxPeekNameLen \<and> (ae \<or> name \<noteq> [])"
proof -
  have "readPeekName s fe op1 field ae = (Inr name, rest) \<Longrightarrow>
      field_at s (bytes_of name) rest \<and> length name \<le> maxPeekNameLen \<and> (ae \<or> name \<noteq> [])"
    by (auto simp: readPeekName_def io_ReadFull_def ReadUvarint_ok field_at_def
        split: prod.splits sum.splits if_splits)
  moreover have "readPeekName s fe op1 field ae = (Inr name, rest)"
    if field: "field_at s (bytes_of name) rest" and "length name \<le> maxPeekNameLen" "ae \<or> name \<noteq> []"
  proof -
    from field obtain m where m: "Uvarint s = (length name, m)" "m > 0"
      "drop (nat m) s = bytes_of name @ rest"
      by (auto simp: field_at_def)
    then have "ReadUvarint s fe = (Inr (length name), bytes_of name @ rest)"
      by (auto simp: ReadUvarint_ok)
    with that show ?thesis
      by (cases name) (auto simp: readPeekName_def io_ReadFull_def)
  qed
  ultimately show ?thesis by blast
qed

text \<open>The header, as both readers see it.\<close>

definition header_at :: "bytes \<Rightarrow> byte \<Rightarrow> bytes \<Rightarrow> bytes \<Rightarrow> bytes \<Rightarrow> bool" where
  "header_at data v codec typ rest \<longleftrightarrow>
     typ \<noteq> [] \<and>
     (v = envelopeVersion \<and> (\<exists>s s1. data = v # s \<and> field_at s codec s1 \<and> field_at s1 typ rest) \<or>
      v = envelopeVersionV1 \<and> codec = [] \<and> (\<exists>s. data = v # s \<and> field_at s typ rest))"

lemma versions_differ [simp]:
  "envelopeVersion \<noteq> envelopeVersionV1" "envelopeVersionV1 \<noteq> envelopeVersion"
  by (simp_all add: envelopeVersion_def envelopeVersionV1_def)

lemma field_at_length:
  assumes "field_at s name rest"
  shows "length name + length rest \<le> length s" and "drop (length s - length rest) s = rest"
proof -
  from assms obtain m where m: "Uvarint s = (length name, m)" "m > 0" "drop (nat m) s = name @ rest"
    by (auto simp: field_at_def)
  have split: "s = take (nat m) s @ name @ rest"
    using m(3) by (metis append_take_drop_id)
  then have "length s = length (take (nat m) s) + length name + length rest"
    by (metis add.assoc length_append)
  then show "length name + length rest \<le> length s" by simp
  show "drop (length s - length rest) s = rest"
    by (subst (2) split, subst (1) split) simp
qed

lemma decode_codec_field_ok:
  "decode_codec_field (v # s) (Suc 0) = Inr (codec, off) \<longleftrightarrow>
     (\<exists>rest. field_at s (bytes_of codec) rest \<and> off = Suc (length s) - length rest)"
proof -
  have "\<exists>rest. field_at s (bytes_of codec) rest \<and> off = Suc (length s) - length rest"
    if "decode_codec_field (v # s) (Suc 0) = Inr (codec, off)"
  proof -
    from that obtain n m where nm: "Uvarint s = (n, m)" "m > 0" "n \<le> length s - nat m"
      and res: "codec = string_of (take n (drop (nat m) s))" "off = 1 + nat m + n"
      by (auto simp: decode_codec_field_def Let_def split: prod.splits if_splits)
    have "field_at s (bytes_of codec) (drop (nat m + n) s)"
      using field_at_cases [OF nm] res by simp
    moreover have "nat m + n \<le> length s"
      using nm Uvarint_prefix(1) [OF nm(1,2)] by simp
    ultimately show ?thesis using res by (intro exI [of _ "drop (nat m + n) s"]) simp
  qed
  moreover have "decode_codec_field (v # s) (Suc 0) = Inr (codec, off)"
    if "field_at s (bytes_of codec) rest" "off = Suc (length s) - length rest" for rest
  proof -
    from that(1) obtain m where m: "Uvarint s = (length codec, m)" "m > 0"
      "drop (nat m) s = bytes_of codec @ rest"
      by (auto simp: field_at_def)
    have "length s - nat m = length codec + length rest"
      using arg_cong [OF m(3), of length] by simp
    moreover have "nat m \<le> length s"
      using Uvarint_prefix(1) [OF m(1,2)] .
    ultimately show ?thesis
      using m that(2) by (auto simp: decode_codec_field_def Let_def)
  qed
  ultimately show ?thesis by blast
qed

text \<open>The type field, which the slice reader parses in place at an offset.\<close>

lemma type_field_ok:
  assumes "off \<le> length data"
  shows "decode_type_field data codec off = Inr (codec', t, fin) \<longleftrightarrow>
     codec' = codec \<and> (\<exists>typ rest. typ \<noteq> [] \<and> field_at (drop off data) typ rest \<and>
        t = versioned (string_of typ) \<and> fin = length data - length rest)"
    (is "?parse = _ \<longleftrightarrow> ?R")
proof -
  obtain n m where nm: "Uvarint (drop off data) = (n, m)" by fastforce
  have "?R" if "?parse = Inr (codec', t, fin)"
  proof -
    from that nm have g: "m > 0" "n \<noteq> 0" "n \<le> length (drop off data) - nat m"
      and res: "codec' = codec" "t = versioned (string_of (take n (drop (off + nat m) data)))"
        "fin = off + nat m + n"
      by (auto simp: decode_type_field_def Let_def split: if_splits)
    have f: "field_at (drop off data) (take n (drop (nat m) (drop off data)))
        (drop (nat m + n) (drop off data))"
      using nm g(1,3) by (rule field_at_cases)
    moreover have "nat m \<le> length (drop off data)"
      using Uvarint_prefix(1) [OF nm g(1)] .
    ultimately show ?thesis
      using g res assms
      by (intro conjI exI [of _ "take n (drop (nat m) (drop off data))"]
          exI [of _ "drop (nat m + n) (drop off data)"]) (auto simp: add.commute)
  qed
  moreover have "?parse = Inr (codec', t, fin)" if "?R"
  proof -
    from that obtain tn rest where R: "codec' = codec" "tn \<noteq> []" "field_at (drop off data) tn rest"
      "t = versioned (string_of tn)" "fin = length data - length rest" by blast
    from R(3) nm have m: "n = length tn" "m > 0" "drop (nat m) (drop off data) = tn @ rest"
      by (auto simp: field_at_def)
    have "length data - off - nat m = length tn + length rest"
      using arg_cong [OF m(3), of length] by simp
    moreover have "nat m \<le> length data - off"
      using Uvarint_prefix(1) [OF nm m(2)] by simp
    moreover have "drop (off + nat m) data = tn @ rest"
      using m(3) by (simp add: add.commute)
    ultimately show ?thesis
      using R nm m(1,2) assms by (auto simp: decode_type_field_def Let_def)
  qed
  ultimately show ?thesis by blast
qed

lemma decodeEnvelopeHeader_ok:
  "decodeEnvelopeHeader data = Inr (codec, t, off) \<longleftrightarrow>
     (\<exists>v typ rest. header_at data v (bytes_of codec) typ rest \<and> t = versioned (string_of typ) \<and>
        off = length data - length rest)"
proof (cases data)
  case Nil
  then show ?thesis by (simp add: decodeEnvelopeHeader_def header_at_def)
next
  case (Cons v s)
  note ty = type_field_ok [of _ data _ codec t off, unfolded Cons]
  consider "v = envelopeVersion" | "v = envelopeVersionV1"
    | "v \<noteq> envelopeVersion" "v \<noteq> envelopeVersionV1" by blast
  then show ?thesis
  proof cases
    case 1
    show ?thesis
    proof (cases "decode_codec_field (v # s) (Suc 0)")
      case (Inl e)
      then have "\<nexists>c k. decode_codec_field (v # s) (Suc 0) = Inr (c, k)" by simp
      then have "\<nexists>rest. field_at s (bytes_of codec) rest"
        by (auto simp: decode_codec_field_ok)
      with Inl 1 Cons show ?thesis by (auto simp: decodeEnvelopeHeader_def header_at_def)
    next
      case (Inr p)
      then obtain c off1 where p: "decode_codec_field (v # s) (Suc 0) = Inr (c, off1)" by (cases p) simp
      then obtain s1 where s1: "field_at s (bytes_of c) s1" "off1 = Suc (length s) - length s1"
        by (auto simp: decode_codec_field_ok)
      have len: "length s1 \<le> length s" and dr: "drop (length s - length s1) s = s1"
        using field_at_length [OF s1(1)] by simp_all
      have off1: "off1 \<le> length (v # s)" and dd: "drop off1 (v # s) = s1"
        using len dr s1(2) by (simp_all add: Suc_diff_le)
      have hd: "header_at (v # s) v' (bytes_of codec) tn rest \<longleftrightarrow>
          v' = envelopeVersion \<and> codec = c \<and> tn \<noteq> [] \<and> field_at s1 tn rest" for v' tn rest
        using 1 Cons s1(1) field_at_det [OF s1(1)] versions_differ
        unfolding header_at_def by (metis bytes_of_eq_iff list.inject)
      have "decodeEnvelopeHeader data = Inr (codec, t, off) \<longleftrightarrow>
          (codec = c \<and> (\<exists>typ rest. typ \<noteq> [] \<and> field_at s1 typ rest \<and>
            t = versioned (string_of typ) \<and> off = length (v # s) - length rest))"
        using 1 p ty [OF off1, of c] dd Cons by (simp add: decodeEnvelopeHeader_def)
      also have "(codec = c \<and> (\<exists>typ rest. typ \<noteq> [] \<and> field_at s1 typ rest \<and>
            t = versioned (string_of typ) \<and> off = length (v # s) - length rest)) \<longleftrightarrow>
          (\<exists>v typ rest. header_at data v (bytes_of codec) typ rest \<and>
            t = versioned (string_of typ) \<and> off = length data - length rest)"
        unfolding Cons hd by auto
      finally show ?thesis .
    qed
  next
    case 2
    have "decodeEnvelopeHeader data = Inr (codec, t, off) \<longleftrightarrow>
        codec = [] \<and> (\<exists>typ rest. typ \<noteq> [] \<and> field_at s typ rest \<and>
          t = versioned (string_of typ) \<and> off = length (v # s) - length rest)"
      using 2 ty [of 1 "[]"] Cons versions_differ by (simp add: decodeEnvelopeHeader_def)
    also have "\<dots> \<longleftrightarrow> (\<exists>v typ rest. header_at data v (bytes_of codec) typ rest \<and>
          t = versioned (string_of typ) \<and> off = length data - length rest)"
      using 2 Cons versions_differ by (fastforce simp: header_at_def bytes_of_def)
    finally show ?thesis .
  next
    case 3
    then show ?thesis using Cons by (auto simp: decodeEnvelopeHeader_def header_at_def)
  qed
qed

lemma peekHeader_ok:
  "peekHeader s fe op1 = (Inr (v, codec, t), rest) \<longleftrightarrow>
     (\<exists>tn. header_at s v (bytes_of codec) tn rest \<and> t = versioned (string_of tn) \<and>
        length codec \<le> maxPeekNameLen \<and> length tn \<le> maxPeekNameLen)"
    (is "?L \<longleftrightarrow> ?R")
proof
  assume ?L
  then obtain s1 where s: "s = v # s1"
    by (auto simp: peekHeader_def split: list.splits prod.splits sum.splits if_splits)
  show ?R
  proof (cases "v = envelopeVersion")
    case True
    with \<open>?L\<close> s obtain s2 n where "readPeekName s1 fe op1 ''codec'' True = (Inr codec, s2)"
      "readPeekName s2 fe op1 ''type'' False = (Inr n, rest)" "t = versioned n"
      by (auto simp: peekHeader_def split: prod.splits sum.splits)
    with True s show ?thesis
      by (intro exI [of _ "bytes_of n"]) (auto simp: header_at_def readPeekName_ok)
  next
    case False
    with \<open>?L\<close> s obtain n where "codec = []" "v = envelopeVersionV1"
      "readPeekName s1 fe op1 ''type'' False = (Inr n, rest)" "t = versioned n"
      by (auto simp: peekHeader_def split: prod.splits sum.splits if_splits)
    with s show ?thesis
      by (intro exI [of _ "bytes_of n"]) (auto simp: header_at_def readPeekName_ok)
  qed
next
  assume ?R
  then obtain tn where h: "header_at s v (bytes_of codec) tn rest" and t: "t = versioned (string_of tn)"
    and len: "length codec \<le> maxPeekNameLen" "length tn \<le> maxPeekNameLen" by blast
  have rp: "readPeekName s' fe op1 ''type'' False = (Inr (string_of tn), rest)"
    if "field_at s' tn rest" for s'
    using that h len by (simp add: readPeekName_ok header_at_def)
  from h consider (v2) s1 s2 where "v = envelopeVersion" "s = v # s1" "field_at s1 (bytes_of codec) s2"
      "field_at s2 tn rest"
    | (v1) s1 where "v = envelopeVersionV1" "s = v # s1" "codec = []" "field_at s1 tn rest"
    by (auto simp: header_at_def)
  then show ?L
  proof cases
    case v2
    have "readPeekName s1 fe op1 ''codec'' True = (Inr codec, s2)"
      using v2 len by (simp add: readPeekName_ok)
    with v2 rp [OF v2(4)] t show ?thesis by (simp add: peekHeader_def)
  next
    case v1
    with rp [OF v1(4)] t versions_differ show ?thesis by (simp add: peekHeader_def)
  qed
qed

lemma header_at_rest:
  assumes "header_at data v codec tn rest"
  shows "drop (length data - length rest) data = rest"
proof -
  from assms consider (v2) s s1 where "data = v # s" "field_at s codec s1" "field_at s1 tn rest"
    | (v1) s where "data = v # s" "field_at s tn rest"
    by (auto simp: header_at_def)
  then show ?thesis
  proof cases
    case v2
    note l = field_at_length [OF v2(2)] field_at_length [OF v2(3)]
    have "length data - length rest = Suc ((length s - length s1) + (length s1 - length rest))"
      using v2(1) l by simp
    then have "drop (length data - length rest) data =
        drop (length s1 - length rest) (drop (length s - length s1) s)"
      using v2(1) by (simp add: add.commute)
    then show ?thesis using l by simp
  next
    case v1
    note l = field_at_length [OF v1(2)]
    have "length data - length rest = Suc (length s - length rest)"
      using v1(1) l by simp
    then show ?thesis using v1(1) l by simp
  qed
qed

lemma peek_decode:
  assumes "peekHeader data fe op1 = (Inr (v, codec, t), rest)"
  shows "decodeEnvelopeHeader data = Inr (codec, t, length data - length rest)"
    and "drop (length data - length rest) data = rest"
  using assms header_at_rest by (auto simp: peekHeader_ok decodeEnvelopeHeader_ok)

lemma length_versioned: "length t \<le> length (versioned t)"
  by (simp add: versioned_def)

lemma decode_peek:
  assumes "decodeEnvelopeHeader data = Inr (codec, t, off)"
    and "length codec \<le> maxPeekNameLen" "length t \<le> maxPeekNameLen"
  shows "peekHeader data fe op1 = (Inr (hd data, codec, t), drop off data)"
proof -
  from assms(1) obtain v tn rest where h: "header_at data v (bytes_of codec) tn rest"
    and t: "t = versioned (string_of tn)" and off: "off = length data - length rest"
    by (auto simp: decodeEnvelopeHeader_ok)
  have "length tn \<le> maxPeekNameLen"
    using length_versioned [of "string_of tn"] t assms(3) by simp
  moreover have "v = hd data"
    using h by (auto simp: header_at_def)
  moreover have "rest = drop off data"
    using header_at_rest [OF h] off by simp
  ultimately show ?thesis
    using h t assms(2) by (auto simp: peekHeader_ok)
qed

section \<open>Properties\<close>

text \<open>
  C3: Round trip of the frame. What \<open>EncodeEnvelope\<close> writes for a codec tag, a type name
  and a payload (each of a length a Go \<open>int\<close> can hold) is read back by \<open>decodeEnvelope\<close>
  exactly, also when bytes follow the frame: the frame is self-delimiting.
\<close>

theorem envelope_roundtrip:
  assumes "EncodeEnvelope codec typ payload = Inr frame"
    and "length codec < 2 ^ 63" "length typ < 2 ^ 63" "length payload < 2 ^ 63"
  shows "decodeEnvelope (frame @ trailer) =
    Inr \<lparr>env_Type = typ, env_Codec = codec, env_Data = payload\<rparr>"
proof -
  from assms(1) have "typ \<noteq> []" "CHR ''@'' \<in> set typ" "frame = encodeEnvelope codec typ payload"
    by (auto simp: EncodeEnvelope_def split: if_splits)
  with assms(2-4) show ?thesis
    using decodeEnvelope_frame [of codec "typ" payload trailer] by simp
qed

theorem envelope_roundtrip_witness:
  "decodeEnvelope (encodeEnvelope ''json'' ''blob@1'' [7, 8, 9] @ [1, 2]) =
     Inr \<lparr>env_Type = ''blob@1'', env_Codec = ''json'', env_Data = [7, 8, 9]\<rparr>"
proof -
  have "EncodeEnvelope ''json'' ''blob@1'' [7, 8, 9] = Inr (encodeEnvelope ''json'' ''blob@1'' [7, 8, 9])"
    by (simp add: EncodeEnvelope_def)
  from envelope_roundtrip [OF this, of "[1, 2]"] show ?thesis by simp
qed

text \<open>
  C33: One answer for a header. Over the same bytes the stream reader \<open>PeekHeader\<close> and the
  slice reader \<open>decodeEnvelopeHeader\<close> agree: when the stream reader succeeds, the slice
  reader returns the same codec tag and type name, the reported version is the leading byte,
  and the bytes the stream reader left unread are exactly those behind the slice reader's
  offset (no payload byte is consumed); a header whose fields fit the peek bound is accepted
  by both; and a failure of either is \<open>ErrCorrupt\<close>.
\<close>

theorem header_readers_agree:
  "(peekHeader data fe op1 = (Inr (v, codec, t), rest) \<longrightarrow>
     decodeEnvelopeHeader data = Inr (codec, t, length data - length rest) \<and>
     rest = drop (length data - length rest) data \<and> v = hd data) \<and>
   (decodeEnvelopeHeader data = Inr (codec, t, off) \<and>
     length codec \<le> maxPeekNameLen \<and> length t \<le> maxPeekNameLen \<longrightarrow>
     peekHeader data fe op1 = (Inr (hd data, codec, t), drop off data)) \<and>
   (\<forall>e. decodeEnvelopeHeader data = Inl e \<longrightarrow> errors_Is e ErrCorrupt) \<and>
   (\<forall>e s. peekHeader data fe op1 = (Inl e, s) \<longrightarrow> errors_Is e ErrCorrupt)"
proof (intro conjI impI allI)
  assume peek: "peekHeader data fe op1 = (Inr (v, codec, t), rest)"
  show "decodeEnvelopeHeader data = Inr (codec, t, length data - length rest)"
    and "rest = drop (length data - length rest) data"
    using peek_decode [OF peek] by simp_all
  show "v = hd data"
    using peek by (auto simp: peekHeader_ok header_at_def)
qed (auto intro: decode_peek dest: decodeEnvelopeHeader_error peekHeader_error)

theorem header_readers_agree_witness:
  "peekHeader [2, 1, 106, 3, 98, 64, 49, 1, 5] None ''peek'' = (Inr (2, ''j'', ''b@1''), [1, 5]) \<and>
   decodeEnvelopeHeader [2, 1, 106, 3, 98, 64, 49, 1, 5] = Inr (''j'', ''b@1'', 7)"
proof -
  have p: "peekHeader [2, 1, 106, 3, 98, 64, 49, 1, 5] None ''peek'' = (Inr (2, ''j'', ''b@1''), [1, 5])"
    by code_simp
  show ?thesis
    using p header_readers_agree [of "[2, 1, 106, 3, 98, 64, 49, 1, 5]" None "''peek''" 2
        "''j''" "''b@1''" "[1, 5]" 7]
    by simp
qed

end
