(* ===== verification/Backend_Stream.thy ===== *)
theory Backend_Stream
  imports Cas_Digest
begin

text \<open>
  \<open>src/cas/backend/context.go\<close> and \<open>src/cas/backend/stream.go\<close>: the streaming helpers every
  backend shares. \<open>ContextReader\<close> checks the context before each read, \<open>ReadWhole\<close> reads a
  stream to its end into one buffer sized from a hint, \<open>ReadAll\<close> and \<open>ReadPayload\<close> read a
  declared number of bytes, \<open>WriteAll\<close> pushes a buffer through a writer that may accept it
  in pieces.

  A \<open>Read\<close> call with a buffer of \<open>k\<close> bytes returns the next chunk of the reader's schedule, cut
  to \<open>k\<close> bytes. The lemmas show that none of the helpers loses or invents a byte: the hint of
  \<open>ReadWhole\<close> never truncates, a short payload is an error, and what a writer has accepted is a
  prefix of the data.
\<close>

section \<open>One read\<close>

text \<open>The outcome of one \<open>Read\<close> of at most \<open>k\<close> bytes and the reader that remains.\<close>

definition read_step :: "nat \<Rightarrow> reader \<Rightarrow> (bytes \<times> err option) \<times> reader" where
  "read_step k r =
     (case r_chunks r of
        [] \<Rightarrow> (([], Some (case r_err r of None \<Rightarrow> EOF | Some e \<Rightarrow> e)), r)
      | c # cs \<Rightarrow>
          if length c \<le> k then ((c, None), r\<lparr>r_chunks := cs\<rparr>)
          else ((take k c, None), r\<lparr>r_chunks := drop k c # cs\<rparr>))"

definition reader_size :: "reader \<Rightarrow> nat" where
  "reader_size r = length (r_chunks r) + length (r_data r)"

lemma read_step_data: "read_step k r = ((b, e), r') \<Longrightarrow> r_data r = b @ r_data r'"
  by (auto simp: read_step_def r_data_def split: list.splits if_splits)

lemma read_step_end: "read_step k r = ((b, Some e), r') \<Longrightarrow>
    b = [] \<and> r' = r \<and> r_chunks r = [] \<and> e = (case r_err r of None \<Rightarrow> EOF | Some e \<Rightarrow> e)"
  by (auto simp: read_step_def split: list.splits if_splits)

lemma read_step_err: "read_step k r = (x, r') \<Longrightarrow> r_err r' = r_err r"
  by (auto simp: read_step_def split: list.splits if_splits)

lemma read_step_smaller:
  "read_step k r = ((b, None), r') \<Longrightarrow> k > 0 \<Longrightarrow> reader_size r' < reader_size r"
  by (auto simp: read_step_def reader_size_def r_data_def split: list.splits if_splits)

section \<open>ContextReader\<close>

text \<open>\<open>ContextReader.Read\<close>: the context first, then the wrapped reader.\<close>

definition ContextReader_Read :: "nat \<Rightarrow> reader \<Rightarrow> ('b, (bytes \<times> err option) \<times> reader) act" where
  "ContextReader_Read k r = bnd ctx_Err (\<lambda>_. ret (read_step k r))"

text \<open>
  \<open>io.ReadAll\<close> over a \<open>ContextReader\<close>: one context check per read, one read per chunk and one
  that meets the end.
\<close>

fun read_all_chunks :: "bytes list \<Rightarrow> err option \<Rightarrow> ('b, bytes) act" where
  "read_all_chunks [] fe =
     bnd ctx_Err (\<lambda>_. case fe of None \<Rightarrow> ret [] | Some e \<Rightarrow> fail e)"
| "read_all_chunks (c # cs) fe =
     bnd ctx_Err (\<lambda>_. bnd (read_all_chunks cs fe) (\<lambda>ds. ret (c @ ds)))"

definition ContextReader_ReadAll :: "reader \<Rightarrow> ('b, bytes) act" where
  "ContextReader_ReadAll r = read_all_chunks (r_chunks r) (r_err r)"

lemma read_all_chunks_ok:
  "read_all_chunks cs fe w = (Inr b, w') \<Longrightarrow> fe = None \<and> b = concat cs \<and> est w' = est w"
  by (induction cs arbitrary: b w w')
    (auto simp: bnd_ok dest!: ctx_Err_estD split: option.splits, (metis)?)

lemma read_all_chunks_live:
  "ectx w = Live \<Longrightarrow> read_all_chunks cs None w = (Inr (concat cs), w)"
  by (induction cs) (simp_all add: bnd_def ret_def)

lemma read_all_chunks_est: "est (snd (read_all_chunks cs fe w)) = est w"
proof (induction cs arbitrary: w)
  case Nil
  then show ?case
    by (auto simp: bnd_def ret_def fail_def dest: ctx_Err_estD split: prod.splits sum.splits option.splits)
next
  case (Cons c cs)
  then show ?case
    by (auto simp: bnd_def ret_def dest: ctx_Err_estD split: prod.splits sum.splits) (metis ctx_Err_estD snd_conv)+
qed

lemma keeps_ReadAll [keeps_intros]: "keeps I (ContextReader_ReadAll r)"
  by (simp add: keeps_def ContextReader_ReadAll_def read_all_chunks_est)

lemma ContextReader_ReadAll_ok:
  "ContextReader_ReadAll r w = (Inr b, w') \<Longrightarrow> r_err r = None \<and> b = r_data r \<and> est w' = est w"
  unfolding ContextReader_ReadAll_def r_data_def by (rule read_all_chunks_ok)

lemma ContextReader_ReadAll_live:
  "ectx w = Live \<Longrightarrow> r_err r = None \<Longrightarrow> ContextReader_ReadAll r w = (Inr (r_data r), w)"
  by (simp add: ContextReader_ReadAll_def r_data_def read_all_chunks_live)

section \<open>ReadWhole\<close>

definition maxPrealloc :: int where
  "maxPrealloc = 64 * 2 ^ 20"

text \<open>The length hint: the declared length, or the reader's own \<open>Len\<close>, capped.\<close>

definition read_hint :: "int option \<Rightarrow> int \<Rightarrow> int" where
  "read_hint len declared =
     (let hint = (if declared \<le> 0 then (case len of None \<Rightarrow> declared | Some n \<Rightarrow> n) else declared)
      in if hint > maxPrealloc then maxPrealloc else hint)"

text \<open>
  The buffered loop: \<open>buf\<close> holds what has been read, \<open>cap\<close> is its pre-allocated capacity. While
  there is room the read fills it; once it is full each step probes one byte (\<open>append\<close> grows the
  buffer, whose new capacity the caller cannot observe: the model keeps probing).
\<close>

function read_whole_loop :: "nat \<Rightarrow> bytes \<Rightarrow> reader \<Rightarrow> ('b, bytes) act" where
  "read_whole_loop cap buf r w =
     (let k = (if length buf < cap then cap - length buf else 1) in
      case ctx_Err w of
        (Inl e, w') \<Rightarrow> (Inl e, w')
      | (Inr _, w') \<Rightarrow>
          (case read_step k r of
             ((b, Some e), r') \<Rightarrow> (if errors_Is e EOF then (Inr (buf @ b), w') else (Inl e, w'))
           | ((b, None), r') \<Rightarrow> read_whole_loop cap (buf @ b) r' w'))"
  by pat_completeness auto
termination
  by (relation "measure (\<lambda>(cap, buf, r, w). reader_size r)")
    (simp, force intro: read_step_smaller [OF sym] split: if_splits)

declare read_whole_loop.simps [simp del]

definition ReadWhole :: "reader \<Rightarrow> int \<Rightarrow> ('b, bytes) act" where
  "ReadWhole r declared =
     bnd ctx_Err (\<lambda>_.
       (let hint = read_hint (r_len r) declared in
        if hint \<le> 0 then ContextReader_ReadAll r
        else read_whole_loop (nat hint) [] r))"

lemma read_whole_loop_ok:
  "read_whole_loop cap buf r w = (Inr b, w') \<Longrightarrow>
     b = buf @ r_data r \<and> est w' = est w \<and> (case r_err r of None \<Rightarrow> True | Some e \<Rightarrow> errors_Is e EOF)"
proof (induction cap buf r w rule: read_whole_loop.induct)
  case (1 cap buf r w)
  define k where "k = (if length buf < cap then cap - length buf else 1)"
  obtain c w1 where c: "ctx_Err w = (Inr c, w1)"
    using "1.prems" by (subst (asm) read_whole_loop.simps) (auto simp: Let_def split: prod.splits sum.splits)
  then have w1: "est w1 = est w" by (rule ctx_Err_estD)
  obtain d eo r' where s: "read_step k r = ((d, eo), r')"
    by (metis prod.collapse)
  have data: "r_data r = d @ r_data r'" and rerr: "r_err r' = r_err r"
    using read_step_data [OF s] read_step_err [OF s] by simp_all
  show ?case
  proof (cases eo)
    case None
    then have "read_whole_loop cap (buf @ d) r' w1 = (Inr b, w')"
      using "1.prems" c s by (subst (asm) read_whole_loop.simps) (simp add: k_def Let_def)
    then show ?thesis
      using "1.IH" [OF k_def c [symmetric] refl s [symmetric] refl None] w1 data rerr by simp
  next
    case (Some e)
    then show ?thesis
      using "1.prems" c s read_step_end [of k r d e r'] w1
      by (subst (asm) read_whole_loop.simps)
        (auto simp: k_def Let_def r_data_def split: if_splits option.splits)
  qed
qed

lemma read_whole_loop_live:
  "ectx w = Live \<Longrightarrow> r_err r = None \<Longrightarrow> read_whole_loop cap buf r w = (Inr (buf @ r_data r), w)"
proof (induction cap buf r w rule: read_whole_loop.induct)
  case (1 cap buf r w)
  define k where "k = (if length buf < cap then cap - length buf else 1)"
  have c: "ctx_Err w = (Inr (), w)" using "1.prems"(1) by simp
  obtain d eo r' where s: "read_step k r = ((d, eo), r')"
    by (metis prod.collapse)
  have data: "r_data r = d @ r_data r'" and rerr: "r_err r' = r_err r"
    using read_step_data [OF s] read_step_err [OF s] by simp_all
  show ?case
  proof (cases eo)
    case None
    have "read_whole_loop cap (buf @ d) r' w = (Inr ((buf @ d) @ r_data r'), w)"
      using "1.IH" [OF k_def c [symmetric] refl s [symmetric] refl None] "1.prems" rerr by simp
    then show ?thesis
      using c s None data by (subst read_whole_loop.simps) (simp add: k_def Let_def)
  next
    case (Some e)
    then have "e = EOF" "d = []" "r_data r = []"
      using read_step_end [of k r d e r'] s "1.prems"(2) by (auto simp: r_data_def)
    then show ?thesis
      using c s Some by (subst read_whole_loop.simps) (simp add: k_def Let_def)
  qed
qed

lemma read_whole_loop_est: "est (snd (read_whole_loop cap buf r w)) = est w"
proof (induction cap buf r w rule: read_whole_loop.induct)
  case (1 cap buf r w)
  then show ?case
    by (subst read_whole_loop.simps)
      (auto simp: Let_def dest!: ctx_Err_estD split: prod.splits sum.splits option.splits)
qed

lemma ReadWhole_ok:
  assumes "ReadWhole r declared w = (Inr b, w')"
    and "clean_reader r"
  shows "r_err r = None \<and> b = r_data r \<and> est w' = est w"
proof -
  from assms(1) obtain w1 where w1: "ctx_Err w = (Inr (), w1)"
    and res: "(if read_hint (r_len r) declared \<le> 0 then ContextReader_ReadAll r
       else read_whole_loop (nat (read_hint (r_len r) declared)) [] r) w1 = (Inr b, w')"
    by (auto simp: ReadWhole_def bnd_ok Let_def)
  have est: "est w1 = est w" using w1 by (rule ctx_Err_estD)
  show ?thesis
  proof (cases "read_hint (r_len r) declared \<le> 0")
    case True
    with res est show ?thesis using ContextReader_ReadAll_ok by fastforce
  next
    case False
    then have "read_whole_loop (nat (read_hint (r_len r) declared)) [] r w1 = (Inr b, w')"
      using res by simp
    from read_whole_loop_ok [OF this] est assms(2) show ?thesis by (auto simp: clean_reader_def split: option.splits)
  qed
qed

lemma ReadWhole_live:
  "ectx w = Live \<Longrightarrow> r_err r = None \<Longrightarrow> ReadWhole r declared w = (Inr (r_data r), w)"
  by (simp add: ReadWhole_def Let_def ContextReader_ReadAll_live read_whole_loop_live)

lemma ReadWhole_est: "est (snd (ReadWhole r declared w)) = est w"
proof -
  have "keeps (\<lambda>s. s = est w) (ReadWhole r declared)"
    unfolding ReadWhole_def Let_def
    by (intro keeps_intros) (simp add: keeps_def read_whole_loop_est)
  then show ?thesis by (simp add: keeps_def)
qed

lemma keeps_ReadWhole [keeps_intros]: "keeps I (ReadWhole r declared)"
  by (simp add: keeps_def ReadWhole_est)

section \<open>ReadAll and ReadPayload\<close>

text \<open>
  Reading at most \<open>n\<close> bytes, the loop behind \<open>io.ReadFull\<close> and behind \<open>io.ReadAll\<close> over a
  limited reader: what arrived, the error that ended it, and the reader behind it.
\<close>

function read_loop :: "nat \<Rightarrow> bytes \<Rightarrow> reader \<Rightarrow> ('b, (bytes \<times> err option) \<times> reader) act" where
  "read_loop n got r w =
     (if n = 0 then (Inr ((got, None), r), w)
      else case ctx_Err w of
        (Inl e, w') \<Rightarrow> (Inr ((got, Some e), r), w')
      | (Inr _, w') \<Rightarrow>
          (case read_step n r of
             ((b, Some e), r') \<Rightarrow> (Inr ((got @ b, Some e), r'), w')
           | ((b, None), r') \<Rightarrow> read_loop (n - length b) (got @ b) r' w'))"
  by pat_completeness auto
termination
  by (relation "measure (\<lambda>(n, got, r, w). reader_size r)")
    (simp, force intro: read_step_smaller [OF sym] split: if_splits)

declare read_loop.simps [simp del]

definition ReadAll :: "nat \<Rightarrow> reader \<Rightarrow> ('b, bytes \<times> reader) act" where
  "ReadAll n r =
     bnd (read_loop n [] r) (\<lambda>((b, eo), r').
       if length b \<ge> n then ret (b, r')
       else (case eo of
           None \<Rightarrow> ret (b, r')
         | Some e \<Rightarrow> fail (if b \<noteq> [] \<and> e = EOF then ErrUnexpectedEOF else e)))"

definition ReadPayload :: "nat \<Rightarrow> reader \<Rightarrow> ('b, bytes \<times> reader) act" where
  "ReadPayload sz r =
     bnd (read_loop sz [] r) (\<lambda>((b, eo), r').
       (case eo of
          Some e \<Rightarrow> (if e \<noteq> EOF then fail e
                     else if length b \<noteq> sz then fail ErrUnexpectedEOF else ret (b, r'))
        | None \<Rightarrow> (if length b \<noteq> sz then fail ErrUnexpectedEOF else ret (b, r'))))"

lemma read_step_le: "read_step k r = ((b, None), r') \<Longrightarrow> length b \<le> k"
  by (auto simp: read_step_def split: list.splits if_splits)

lemma read_loop_ok:
  "read_loop n got r w = (Inr ((b, None), r'), w') \<Longrightarrow>
     n \<le> length (r_data r) \<and> b = got @ take n (r_data r) \<and> r_data r' = drop n (r_data r) \<and>
     r_err r' = r_err r \<and> est w' = est w"
proof (induction n got r w rule: read_loop.induct)
  case (1 n got r w)
  show ?case
  proof (cases "n = 0")
    case True
    with "1.prems" show ?thesis by (simp add: read_loop.simps)
  next
    case False
    obtain c w1 where c: "ctx_Err w = (Inr c, w1)"
      using "1.prems" False
      by (subst (asm) read_loop.simps) (auto split: prod.splits sum.splits)
    obtain d eo r1 where s: "read_step n r = ((d, eo), r1)" by (metis prod.collapse)
    from "1.prems" False c s have eo: "eo = None"
      by (subst (asm) read_loop.simps) (auto split: option.splits)
    with "1.prems" False c s have rec: "read_loop (n - length d) (got @ d) r1 w1 = (Inr ((b, None), r'), w')"
      by (subst (asm) read_loop.simps) simp
    have data: "r_data r = d @ r_data r1" and rerr: "r_err r1 = r_err r" and len: "length d \<le> n"
      and est: "est w1 = est w"
      using read_step_data [OF s] read_step_err [OF s] read_step_le [of n r d r1] s eo ctx_Err_estD [OF c]
      by simp_all
    from "1.IH" [OF False c [symmetric] refl s [symmetric] refl eo rec] data rerr len est
    show ?thesis by auto
  qed
qed

lemma read_loop_live:
  "ectx w = Live \<Longrightarrow> n \<le> length (r_data r) \<Longrightarrow>
     \<exists>r'. read_loop n got r w = (Inr ((got @ take n (r_data r), None), r'), w)"
proof (induction n got r w rule: read_loop.induct)
  case (1 n got r w)
  show ?case
  proof (cases "n = 0")
    case True
    then show ?thesis by (simp add: read_loop.simps)
  next
    case False
    have c: "ctx_Err w = (Inr (), w)" using "1.prems"(1) by simp
    obtain d eo r1 where s: "read_step n r = ((d, eo), r1)" by (metis prod.collapse)
    have eo: "eo = None"
    proof (rule ccontr)
      assume "eo \<noteq> None"
      then have "r_chunks r = []" using read_step_end [of n r d _ r1] s by auto
      with "1.prems"(2) False show False by (simp add: r_data_def)
    qed
    have data: "r_data r = d @ r_data r1" and len: "length d \<le> n"
      using read_step_data [OF s] read_step_le [of n r d r1] s eo by simp_all
    have "n - length d \<le> length (r_data r1)"
      using "1.prems"(2) data by simp
    from "1.IH" [OF False c [symmetric] refl s [symmetric] refl eo "1.prems"(1) this]
    show ?thesis using c s eo False data len by (subst read_loop.simps) simp
  qed
qed

text \<open>A schedule without empty reads stays one, so a reader of no bytes has reached its end.\<close>

lemma read_step_chunks:
  "read_step k r = (x, r') \<Longrightarrow> [] \<notin> set (r_chunks r) \<Longrightarrow> [] \<notin> set (r_chunks r')"
  by (auto simp: read_step_def split: list.splits if_splits)

lemma read_loop_chunks:
  "read_loop n got r w = (Inr (x, r'), w') \<Longrightarrow> [] \<notin> set (r_chunks r) \<Longrightarrow> [] \<notin> set (r_chunks r')"
proof (induction n got r w rule: read_loop.induct)
  case (1 n got r w)
  obtain c w1 where c: "ctx_Err w = (c, w1)" by fastforce
  obtain d eo r1 where s: "read_step n r = ((d, eo), r1)" by (metis prod.collapse)
  note ne = read_step_chunks [OF s "1.prems"(2)]
  show ?case
  proof (cases "n \<noteq> 0 \<and> (\<exists>u. c = Inr u) \<and> eo = None")
    case True
    with "1.prems"(1) c s have "read_loop (n - length d) (got @ d) r1 w1 = (Inr (x, r'), w')"
      by (subst (asm) read_loop.simps) auto
    with "1.IH" [OF _ c [symmetric] _ s [symmetric] refl _ _ ne] True show ?thesis by blast
  next
    case False
    with "1.prems"(1) c s have "r' = r \<or> r' = r1"
      by (subst (asm) read_loop.simps) (auto split: if_splits sum.splits option.splits)
    with "1.prems"(2) ne show ?thesis by blast
  qed
qed

lemma no_chunks: "[] \<notin> set (r_chunks r) \<Longrightarrow> r_data r = [] \<Longrightarrow> r_chunks r = []"
  by (cases "r_chunks r") (auto simp: r_data_def)

lemma read_loop_est: "est (snd (read_loop n got r w)) = est w"
proof (induction n got r w rule: read_loop.induct)
  case (1 n got r w)
  then show ?case
    by (subst read_loop.simps)
      (auto dest!: ctx_Err_estD split: prod.splits sum.splits option.splits)
qed

lemma keeps_ReadAll_ReadPayload [keeps_intros]:
  "keeps I (ReadAll n r)" "keeps I (ReadPayload n r)"
  by (auto simp: keeps_def ReadAll_def ReadPayload_def bnd_def ret_def fail_def
      split: prod.splits sum.splits option.splits if_splits)
    (metis read_loop_est snd_conv)+

text \<open>Both read exactly the declared bytes or fail, and both succeed when the bytes are there.\<close>

lemma read_loop_total: "fst (read_loop n got r w) \<noteq> Inl e"
proof (induction n got r w rule: read_loop.induct)
  case (1 n got r w)
  then show ?case
    by (subst read_loop.simps) (auto split: prod.splits sum.splits option.splits)
qed

lemma read_loop_short:
  "read_loop n got r w = (Inr ((b, Some e), r'), w') \<Longrightarrow> length b < length got + n"
proof (induction n got r w rule: read_loop.induct)
  case (1 n got r w)
  show ?case
  proof (cases "n = 0")
    case True
    with "1.prems" show ?thesis by (simp add: read_loop.simps)
  next
    case False
    show ?thesis
    proof (cases "ctx_Err w")
      case (Pair x w1)
      show ?thesis
      proof (cases x)
        case (Inl e')
        with Pair "1.prems" False show ?thesis by (subst (asm) read_loop.simps) simp
      next
        case (Inr u)
        obtain d eo r1 where s: "read_step n r = ((d, eo), r1)" by (metis prod.collapse)
        show ?thesis
        proof (cases eo)
          case None
          with "1.prems" Pair Inr False s
          have rec: "read_loop (n - length d) (got @ d) r1 w1 = (Inr ((b, Some e), r'), w')"
            by (subst (asm) read_loop.simps) simp
          from "1.IH" [OF False _ _ s [symmetric] refl None rec] Pair Inr
            read_step_le [of n r d r1] s None show ?thesis by simp
        next
          case (Some e')
          with "1.prems" Pair Inr False s read_step_end [of n r d e' r1] show ?thesis
            by (subst (asm) read_loop.simps) auto
        qed
      qed
    qed
  qed
qed

lemma ReadAll_ok:
  assumes "ReadAll n r w = (Inr (b, r'), w')"
  shows "n \<le> length (r_data r) \<and> b = take n (r_data r) \<and> r_data r' = drop n (r_data r) \<and>
    r_err r' = r_err r \<and> est w' = est w"
proof -
  from assms obtain b1 eo r1 w1 where l: "read_loop n [] r w = (Inr ((b1, eo), r1), w1)"
    by (auto simp: ReadAll_def bnd_ok)
  have "eo = None"
    using l assms read_loop_short [of n "[]" r w b1 _ r1 w1]
    by (cases eo) (auto simp: ReadAll_def bnd_ok)
  with l assms have "b = b1" "r' = r1" "w' = w1"
    by (auto simp: ReadAll_def bnd_ok split: if_splits)
  with read_loop_ok [of n "[]" r w b1 r1 w1] l \<open>eo = None\<close> show ?thesis by simp
qed

lemma ReadPayload_ok:
  assumes "ReadPayload n r w = (Inr (b, r'), w')"
  shows "n \<le> length (r_data r) \<and> b = take n (r_data r) \<and> r_data r' = drop n (r_data r) \<and>
    r_err r' = r_err r \<and> est w' = est w"
proof -
  from assms obtain b1 eo r1 w1 where l: "read_loop n [] r w = (Inr ((b1, eo), r1), w1)"
    by (auto simp: ReadPayload_def bnd_ok)
  have "eo = None"
    using l assms read_loop_short [of n "[]" r w b1 _ r1 w1]
    by (cases eo) (auto simp: ReadPayload_def bnd_ok split: if_splits)
  with l assms have "b = b1" "r' = r1" "w' = w1"
    by (auto simp: ReadPayload_def bnd_ok split: if_splits)
  with read_loop_ok [of n "[]" r w b1 r1 w1] l \<open>eo = None\<close> show ?thesis by simp
qed

lemma read_live:
  assumes "ectx w = Live" "n \<le> length (r_data r)"
  obtains r' where "ReadAll n r w = (Inr (take n (r_data r), r'), w)"
    "ReadPayload n r w = (Inr (take n (r_data r), r'), w)"
    "r_data r' = drop n (r_data r)" "r_err r' = r_err r"
    "[] \<notin> set (r_chunks r) \<longrightarrow> [] \<notin> set (r_chunks r')"
proof -
  from read_loop_live [OF assms, of "[]"] obtain r' where
    l: "read_loop n [] r w = (Inr ((take n (r_data r), None), r'), w)" by auto
  from read_loop_ok [OF l] have "r_data r' = drop n (r_data r)" "r_err r' = r_err r" by simp_all
  moreover have "[] \<notin> set (r_chunks r) \<longrightarrow> [] \<notin> set (r_chunks r')" using read_loop_chunks [OF l] by blast
  moreover have "ReadAll n r w = (Inr (take n (r_data r), r'), w)"
    "ReadPayload n r w = (Inr (take n (r_data r), r'), w)"
    using l assms(2) by (simp_all add: ReadAll_def ReadPayload_def bnd_def ret_def)
  ultimately show thesis using that by blast
qed

section \<open>Writers\<close>

text \<open>
  A writer is what it has accepted so far and the schedule of its next \<open>Write\<close> calls: how many
  bytes each accepts at most, and the error it returns. An exhausted schedule accepts everything.
\<close>

record writer =
  w_out :: bytes
  w_plan :: "(nat \<times> err option) list"

definition write_step :: "bytes \<Rightarrow> writer \<Rightarrow> (nat \<times> err option) \<times> writer" where
  "write_step b wr =
     (case w_plan wr of
        [] \<Rightarrow> ((length b, None), wr\<lparr>w_out := w_out wr @ b\<rparr>)
      | (n, eo) # plan \<Rightarrow>
          (let m = min n (length b) in ((m, eo), wr\<lparr>w_out := w_out wr @ take m b, w_plan := plan\<rparr>)))"

lemma write_step_out:
  "write_step b wr = ((n, eo), wr') \<Longrightarrow> n \<le> length b \<and> w_out wr' = w_out wr @ take n b"
  by (auto simp: write_step_def Let_def split: list.splits prod.splits)

lemma write_step_smaller:
  "write_step b wr = ((n, eo), wr') \<Longrightarrow> b \<noteq> [] \<Longrightarrow> n \<noteq> 0 \<Longrightarrow>
    length (w_plan wr') + length (drop n b) < length (w_plan wr) + length b"
  by (auto simp: write_step_def Let_def split: list.splits prod.splits)

function WriteAll :: "bytes \<Rightarrow> writer \<Rightarrow> ('b, err option \<times> writer) act" where
  "WriteAll data wr w =
     (if data = [] then (Inr (None, wr), w)
      else case ctx_Err w of
        (Inl e, w') \<Rightarrow> (Inr (Some e, wr), w')
      | (Inr _, w') \<Rightarrow>
          (case write_step data wr of
             ((n, Some e), wr') \<Rightarrow> (Inr (Some e, wr'), w')
           | ((n, None), wr') \<Rightarrow>
               if n = 0 then (Inr (Some ErrShortWrite, wr'), w')
               else WriteAll (drop n data) wr' w'))"
  by pat_completeness auto
termination
  by (relation "measure (\<lambda>(data, wr, w). length (w_plan wr) + length data)")
    (simp, force dest: write_step_smaller [OF sym])

declare WriteAll.simps [simp del]

text \<open>
  What a writer accepts is always a prefix of the data, all of it exactly when \<open>WriteAll\<close>
  reports no error.
\<close>

lemma WriteAll_out:
  "WriteAll data wr w = (Inr (eo, wr'), w') \<Longrightarrow>
    est w' = est w \<and> (\<exists>n. w_out wr' = w_out wr @ take n data \<and> (eo = None \<longrightarrow> n = length data))"
proof (induction data wr w rule: WriteAll.induct)
  case (1 data wr w)
  show ?case
  proof (cases "data = []")
    case True
    with "1.prems" show ?thesis by (simp add: WriteAll.simps)
  next
    case False
    obtain x w1 where x: "ctx_Err w = (x, w1)" by fastforce
    then have est: "est w1 = est w" by (rule ctx_Err_estD)
    show ?thesis
    proof (cases x)
      case (Inl e)
      with "1.prems" False x est show ?thesis
        by (subst (asm) WriteAll.simps) (auto intro: exI [of _ 0])
    next
      case (Inr u)
      obtain n eo1 wr1 where s: "write_step data wr = ((n, eo1), wr1)" by (metis prod.collapse)
      note out = write_step_out [OF s]
      show ?thesis
      proof (cases "eo1 = None \<and> n \<noteq> 0")
        case True
        with "1.prems" False x Inr s have rec: "WriteAll (drop n data) wr1 w1 = (Inr (eo, wr'), w')"
          by (subst (asm) WriteAll.simps) simp
        from "1.IH" [OF False x [symmetric] Inr s [symmetric] refl _ _ rec] True
        obtain k where k: "est w' = est w1" "w_out wr' = w_out wr1 @ take k (drop n data)"
          "eo = None \<longrightarrow> k = length (drop n data)" by auto
        then have "w_out wr' = w_out wr @ take (n + k) data"
          using out by (simp add: take_add)
        with k est out show ?thesis by (intro conjI exI [of _ "n + k"]) auto
      next
        case stop: False
        with "1.prems" False x Inr s have "wr' = wr1" "w' = w1" "eo \<noteq> None"
          by (subst (asm) WriteAll.simps, auto split: option.splits if_splits)+
        with out est show ?thesis by auto
      qed
    qed
  qed
qed

lemma WriteAll_total: "\<exists>eo wr'. fst (WriteAll data wr w) = Inr (eo, wr')"
proof (induction data wr w rule: WriteAll.induct)
  case (1 data wr w)
  then show ?case
    by (subst WriteAll.simps) (auto split: prod.splits sum.splits option.splits)
qed

lemma WriteAll_live:
  "ectx w = Live \<Longrightarrow> w_plan wr = [] \<Longrightarrow>
    WriteAll data wr w = (Inr (None, wr\<lparr>w_out := w_out wr @ data\<rparr>), w)"
  by (subst WriteAll.simps)
    (auto simp: write_step_def WriteAll.simps [of "[]"])

section \<open>ContextReader.WriteTo\<close>

definition copyBufSize :: nat where
  "copyBufSize = 32 * 1024"

text \<open>The copy loop: the count written, the error that stopped it, and the writer.\<close>

function WriteTo_loop :: "nat \<Rightarrow> reader \<Rightarrow> writer \<Rightarrow> ('b, nat \<times> err option \<times> writer) act" where
  "WriteTo_loop written r wr w =
     (case ctx_Err w of
        (Inl e, w') \<Rightarrow> (Inr (written, Some e, wr), w')
      | (Inr _, w') \<Rightarrow>
          (case read_step copyBufSize r of
             ((b, Some e), r') \<Rightarrow> (Inr (written, (if e = EOF then None else Some e), wr), w')
           | ((b, None), r') \<Rightarrow>
               if b = [] then WriteTo_loop written r' wr w'
               else (case write_step b wr of
                   ((n, Some e), wr') \<Rightarrow> (Inr (written + n, Some e, wr'), w')
                 | ((n, None), wr') \<Rightarrow>
                     if n < length b then (Inr (written + n, Some ErrShortWrite, wr'), w')
                     else WriteTo_loop (written + n) r' wr' w')))"
  by pat_completeness auto
termination
  by (relation "measure (\<lambda>(n, r, wr, w). reader_size r)")
    (simp, (force intro: read_step_smaller [OF sym] simp: copyBufSize_def)+)

declare WriteTo_loop.simps [simp del]

definition ContextReader_WriteTo :: "reader \<Rightarrow> writer \<Rightarrow> ('b, nat \<times> err option \<times> writer) act" where
  "ContextReader_WriteTo r wr = WriteTo_loop 0 r wr"

lemma WriteTo_loop_out:
  "WriteTo_loop n r wr w = (Inr (m, eo, wr'), w') \<Longrightarrow> case r_err r of None \<Rightarrow> True | Some e \<Rightarrow> e \<noteq> EOF \<Longrightarrow>
    est w' = est w \<and> (\<exists>k \<le> length (r_data r). m = n + k \<and> w_out wr' = w_out wr @ take k (r_data r) \<and>
      (eo = None \<longrightarrow> k = length (r_data r) \<and> r_err r = None))"
proof (induction n r wr w arbitrary: rule: WriteTo_loop.induct)
  case (1 n r wr w)
  obtain x w1 where x: "ctx_Err w = (x, w1)" by fastforce
  then have est: "est w1 = est w" by (rule ctx_Err_estD)
  show ?case
  proof (cases x)
    case (Inl e)
    with "1.prems"(1) x est show ?thesis
      by (subst (asm) WriteTo_loop.simps) (auto intro: exI [of _ 0])
  next
    case (Inr u)
    obtain b e1 r1 where s: "read_step copyBufSize r = ((b, e1), r1)" by (metis prod.collapse)
    have data: "r_data r = b @ r_data r1" and rerr: "r_err r1 = r_err r"
      using read_step_data [OF s] read_step_err [OF s] by simp_all
    show ?thesis
    proof (cases e1)
      case (Some e)
      with read_step_end [of copyBufSize r b e r1] s
      have "b = []" "r_data r = []" "e = (case r_err r of None \<Rightarrow> EOF | Some e \<Rightarrow> e)"
        by (auto simp: r_data_def)
      with "1.prems" x Inr s Some est show ?thesis
        by (subst (asm) WriteTo_loop.simps) (auto split: option.splits if_splits)
    next
      case None
      show ?thesis
      proof (cases "b = []")
        case True
        with "1.prems"(1) x Inr s None have rec: "WriteTo_loop n r1 wr w1 = (Inr (m, eo, wr'), w')"
          by (subst (asm) WriteTo_loop.simps) simp
        from "1.IH"(1) [OF x [symmetric] Inr s [symmetric] refl None True rec] "1.prems"(2) rerr data True est
        show ?thesis by auto
      next
        case False
        obtain j e2 wr1 where t: "write_step b wr = ((j, e2), wr1)" by (metis prod.collapse)
        note out = write_step_out [OF t]
        show ?thesis
        proof (cases "e2 = None \<and> \<not> j < length b")
          case True
          with "1.prems"(1) x Inr s None False t
          have rec: "WriteTo_loop (n + j) r1 wr1 w1 = (Inr (m, eo, wr'), w')"
            by (subst (asm) WriteTo_loop.simps) simp
          from "1.IH"(2) [OF x [symmetric] Inr s [symmetric] refl None False t [symmetric] refl _ _ rec] True
            "1.prems"(2) rerr
          obtain k where k: "est w' = est w1" "k \<le> length (r_data r1)" "m = n + j + k"
            "w_out wr' = w_out wr1 @ take k (r_data r1)"
            "eo = None \<longrightarrow> k = length (r_data r1) \<and> r_err r1 = None" by auto
          with True out data est rerr show ?thesis
            by (intro conjI exI [of _ "j + k"]) auto
        next
          case stop: False
          with "1.prems"(1) x Inr s None False t have "m = n + j" "wr' = wr1" "w' = w1" "eo \<noteq> None"
            by (subst (asm) WriteTo_loop.simps, auto split: option.splits if_splits)+
          with out data est show ?thesis by (intro conjI exI [of _ j]) auto
        qed
      qed
    qed
  qed
qed

end
