(* ===== verification/Cas_Backend.thy ===== *)
theory Cas_Backend
  imports Cas_Envelope Backend_Stream
begin

text \<open>
  \<open>src/cas/backend.go\<close>, \<open>src/cas/readclose.go\<close>, \<open>src/cas/capabilities.go\<close>, \<open>src/cas/stats.go\<close>
  and the header reads of \<open>src/cas/envelope.go\<close>: the backend interface as a record of operations
  over a state type, the read-then-close rule, and the bounded header read.

  The contract the interface documents is the locale \<open>backend_contract\<close>: an abstraction of the
  state to a map from digests to bytes, an invariant every operation keeps, and what each
  operation does to the map. \<open>reliable_backend\<close> adds that an operation on a live context and a
  present digest succeeds. The client lemmas of the typed layer are proved in these locales and
  reach a concrete backend through its interpretation.
\<close>

section \<open>Read, then close\<close>

datatype closeOrder = readWins | closeWins

definition render :: "(err \<Rightarrow> err) option \<Rightarrow> err \<Rightarrow> err" where
  "render renderErr e = (case renderErr of None \<Rightarrow> e | Some f \<Rightarrow> f e)"

definition wrap :: "string \<Rightarrow> err \<Rightarrow> err" where
  "wrap prefix1 e = Errorf prefix1 [e]"

definition readThenClose ::
  "readcloser \<Rightarrow> (readcloser \<Rightarrow> 'a result) \<Rightarrow> closeOrder \<Rightarrow> (err \<Rightarrow> err) option \<Rightarrow> (err \<Rightarrow> err) option
    \<Rightarrow> 'a result" where
  "readThenClose rc read order readErr closeErr =
     (let res = (case read rc of Inl rerr \<Rightarrow> Inl (render readErr rerr) | Inr v \<Rightarrow> Inr v) in
      if order = closeWins
      then (case rc_close rc of Some cerr \<Rightarrow> Inl (render closeErr cerr) | None \<Rightarrow> res)
      else (case rc_close rc of
          Some cerr \<Rightarrow> (case res of Inr _ \<Rightarrow> Inl (render closeErr cerr) | Inl e \<Rightarrow> Inl e)
        | None \<Rightarrow> res))"

lemma readThenClose_ok:
  "readThenClose rc read order re ce = Inr v \<longleftrightarrow> read rc = Inr v \<and> rc_close rc = None"
  by (auto simp: readThenClose_def Let_def split: sum.splits option.splits if_splits)

lemma readThenClose_no_close_error:
  "rc_close rc = None \<Longrightarrow> readThenClose rc read order re ce =
     (case read rc of Inl rerr \<Rightarrow> Inl (render re rerr) | Inr v \<Rightarrow> Inr v)"
  by (simp add: readThenClose_def Let_def)

text \<open>
  The precedence rule: of two failures the named one is reported, and a failure is never
  swallowed.
\<close>

lemma readThenClose_precedence:
  "read rc = Inl r \<Longrightarrow> rc_close rc = Some c \<Longrightarrow>
    readThenClose rc read order re ce = Inl (if order = closeWins then render ce c else render re r)"
  "read rc = Inr v \<Longrightarrow> rc_close rc = Some c \<Longrightarrow>
    readThenClose rc read order re ce = Inl (render ce c)"
  by (auto simp: readThenClose_def Let_def)

section \<open>The backend interface\<close>

record Stats =
  TotalSize :: int
  ObjectCount :: int

text \<open>
  The required methods, then the optional capabilities (\<open>Statter\<close>, \<open>Cleaner\<close>, \<open>io.Closer\<close>),
  absent when the backend does not implement the interface. Times are nanoseconds.
\<close>

record 'b backend =
  b_Put :: "digest \<Rightarrow> reader \<Rightarrow> ('b, unit) act"
  b_Get :: "digest \<Rightarrow> ('b, readcloser) act"
  b_Exists :: "digest \<Rightarrow> ('b, bool) act"
  b_Delete :: "digest \<Rightarrow> ('b, unit) act"
  b_List :: "('b, digest list) act"
  b_Stats :: "('b, Stats) act"
  b_Size :: "(digest \<Rightarrow> ('b, int) act) option"
  b_ModTime :: "(digest \<Rightarrow> ('b, int) act) option"
  b_Clean :: "(int \<Rightarrow> ('b, nat) act) option"
  b_Close :: "('b, unit) act option"

record Capabilities =
  cap_Verify :: bool
  cap_Sweep :: bool
  cap_Clean :: bool
  cap_Stat :: bool

definition CapabilitiesOf :: "'b backend \<Rightarrow> Capabilities" where
  "CapabilitiesOf be =
     \<lparr>cap_Verify = True, cap_Sweep = True,
      cap_Clean = (b_Clean be \<noteq> None),
      cap_Stat = (b_Size be \<noteq> None \<and> b_ModTime be \<noteq> None)\<rparr>"

section \<open>Header reads\<close>

definition Header :: "'b backend \<Rightarrow> digest \<Rightarrow> ('b, byte \<times> string \<times> string) act" where
  "Header be d =
     bnd (b_Get be d) (\<lambda>rc.
       of_result (readThenClose rc
         (\<lambda>r. PeekHeader (io_LimitReader (reader.truncate r) (int headerPrefixLimit)))
         closeWins (Some (wrap ''cas: read object header''))
         (Some (wrap ''cas: close object header reader''))))"

definition HeaderType :: "'b backend \<Rightarrow> digest \<Rightarrow> ('b, string) act" where
  "HeaderType be d = bnd (Header be d) (\<lambda>(_, _, typeName). ret typeName)"

definition peekAt :: "'b backend \<Rightarrow> digest \<Rightarrow> (readcloser \<Rightarrow> 'a result) \<Rightarrow> ('b, 'a) act" where
  "peekAt be d peek =
     bnd (b_Get be d) (\<lambda>rc.
       of_result (readThenClose rc peek readWins None (Some (wrap ''cas: close object''))))"

lemma r_data_truncate [simp]: "r_data (reader.truncate rc) = r_data rc"
  by (simp add: r_data_def reader.truncate_def)

lemma r_err_truncate [simp]: "r_err (reader.truncate rc) = r_err rc"
  by (simp add: reader.truncate_def)

section \<open>The contract\<close>

locale backend_contract =
  fixes be :: "'b backend"
    and abs :: "'b \<Rightarrow> digest \<Rightarrow> bytes option"
    and inv :: "'b \<Rightarrow> bool"
  assumes absent_key: "inv s \<Longrightarrow> abs s [] = None"
    and finite_dom: "inv s \<Longrightarrow> finite (dom (abs s))"
    and put_inv: "inv (est w) \<Longrightarrow> b_Put be d r w = (px, w') \<Longrightarrow> inv (est w')"
    and put_ok: "inv (est w) \<Longrightarrow> b_Put be d r w = (Inr (), w') \<Longrightarrow> clean_reader r \<Longrightarrow>
      d \<noteq> [] \<and> r_err r = None \<and>
      (\<exists>b. abs (est w') = (abs (est w))(d \<mapsto> b) \<and> (b = r_data r \<or> abs (est w) d = Some b))"
    and put_err: "inv (est w) \<Longrightarrow> b_Put be d r w = (Inl e, w') \<Longrightarrow> abs (est w') = abs (est w)"
    and get_frame: "inv (est w) \<Longrightarrow> b_Get be d w = (gx, w') \<Longrightarrow>
      inv (est w') \<and> abs (est w') = abs (est w)"
    and get_ok: "inv (est w) \<Longrightarrow> b_Get be d w = (Inr rc, w') \<Longrightarrow>
      r_err rc = None \<longrightarrow> abs (est w) d = Some (r_data rc)"
    and exists_frame: "inv (est w) \<Longrightarrow> b_Exists be d w = (ex, w') \<Longrightarrow>
      inv (est w') \<and> abs (est w') = abs (est w)"
    and exists_ok: "inv (est w) \<Longrightarrow> b_Exists be d w = (Inr b, w') \<Longrightarrow> b = (abs (est w) d \<noteq> None)"
    and delete_inv: "inv (est w) \<Longrightarrow> b_Delete be d w = (dx, w') \<Longrightarrow> inv (est w')"
    and delete_ok: "inv (est w) \<Longrightarrow> b_Delete be d w = (Inr (), w') \<Longrightarrow>
      abs (est w') = (abs (est w))(d := None)"
    and delete_err: "inv (est w) \<Longrightarrow> b_Delete be d w = (Inl e, w') \<Longrightarrow> abs (est w') = abs (est w)"
    and list_frame: "inv (est w) \<Longrightarrow> b_List be w = (lx, w') \<Longrightarrow>
      inv (est w') \<and> abs (est w') = abs (est w)"
    and list_ok: "inv (est w) \<Longrightarrow> b_List be w = (Inr ds, w') \<Longrightarrow> dom (abs (est w)) \<subseteq> set ds"
    and stats_frame: "inv (est w) \<Longrightarrow> b_Stats be w = (sx, w') \<Longrightarrow>
      inv (est w') \<and> abs (est w') = abs (est w)"
    and modtime_frame: "b_ModTime be = Some mt \<Longrightarrow> inv (est w) \<Longrightarrow> mt d w = (mx, w') \<Longrightarrow>
      inv (est w') \<and> abs (est w') = abs (est w)"
begin

lemma get_absent:
  assumes "inv (est w)" "abs (est w) d = None" "b_Get be d w = (Inr rc, w')"
  shows "r_err rc \<noteq> None"
  using get_ok [OF assms(1,3)] assms(2) by auto

text \<open>An immutable write: where the content already stored under the key is the content written.\<close>

lemma put_same:
  assumes "inv (est w)" "b_Put be d r w = (Inr (), w')" "clean_reader r"
    and "abs (est w) d = None \<or> abs (est w) d = Some (r_data r)"
  shows "abs (est w') = (abs (est w))(d \<mapsto> r_data r)"
  using put_ok [OF assms(1,2,3)] assms(4) by auto

end

locale reliable_backend = backend_contract +
  assumes get_live: "inv (est w) \<Longrightarrow> ectx w = Live \<Longrightarrow> abs (est w) d = Some b \<Longrightarrow>
      \<exists>rc w'. b_Get be d w = (Inr rc, w') \<and> r_err rc = None \<and> rc_close rc = None \<and> ectx w' = Live"
    and get_missing: "inv (est w) \<Longrightarrow> ectx w = Live \<Longrightarrow> d \<noteq> [] \<Longrightarrow> abs (est w) d = None \<Longrightarrow>
      \<exists>e w'. b_Get be d w = (Inl e, w') \<and> errors_Is e ErrNotFound"
    and exists_live: "inv (est w) \<Longrightarrow> ectx w = Live \<Longrightarrow> d \<noteq> [] \<Longrightarrow>
      \<exists>b w'. b_Exists be d w = (Inr b, w') \<and> ectx w' = Live"
    and delete_live: "inv (est w) \<Longrightarrow> ectx w = Live \<Longrightarrow> d \<noteq> [] \<Longrightarrow>
      \<exists>w'. b_Delete be d w = (Inr (), w') \<and> ectx w' = Live"
    and list_live: "inv (est w) \<Longrightarrow> ectx w = Live \<Longrightarrow>
      \<exists>ds w'. b_List be w = (Inr ds, w') \<and> set ds = dom (abs (est w)) \<and> distinct ds \<and> ectx w' = Live"
begin

lemma get_value:
  assumes "inv (est w)" "ectx w = Live" "abs (est w) d = Some b"
  obtains rc w' where "b_Get be d w = (Inr rc, w')" "r_err rc = None" "rc_close rc = None"
    "r_data rc = b" "ectx w' = Live" "inv (est w')" "abs (est w') = abs (est w)"
proof -
  from get_live [OF assms] obtain rc w' where g: "b_Get be d w = (Inr rc, w')" "r_err rc = None"
    "rc_close rc = None" "ectx w' = Live" by blast
  moreover have "r_data rc = b"
    using get_ok [OF assms(1) g(1)] g(2) assms(3) by simp
  ultimately show thesis
    using that get_frame [OF assms(1) g(1)] by blast
qed

lemma exists_value:
  assumes "inv (est w)" "ectx w = Live" "d \<noteq> []"
  obtains w' where "b_Exists be d w = (Inr (abs (est w) d \<noteq> None), w')" "ectx w' = Live"
    "inv (est w')" "abs (est w') = abs (est w)"
proof -
  from exists_live [OF assms] obtain b w' where x: "b_Exists be d w = (Inr b, w')" "ectx w' = Live"
    by blast
  show thesis
    using that exists_ok [OF assms(1) x(1)] exists_frame [OF assms(1) x(1)] x by simp
qed

lemma delete_value:
  assumes "inv (est w)" "ectx w = Live" "d \<noteq> []"
  obtains w' where "b_Delete be d w = (Inr (), w')" "ectx w' = Live" "inv (est w')"
    "abs (est w') = (abs (est w))(d := None)"
  using delete_live [OF assms] delete_ok [OF assms(1)] delete_inv [OF assms(1)] that by metis

end

section \<open>The header bound\<close>

text \<open>
  The bounded read of \<open>Header\<close> limits the stream to \<open>headerPrefixLimit\<close> bytes, twice the bound of
  one field. The header of two maximal fields is five bytes longer than that: one version byte
  and two two-byte length prefixes.
\<close>

lemma length_PutUvarint_4096: "length (PutUvarint maxPeekNameLen) = 2"
  by (simp add: maxPeekNameLen_def PutUvarint.simps)

lemma Uvarint_PutUvarint_le:
  "x \<le> maxPeekNameLen \<Longrightarrow> Uvarint (PutUvarint x @ rest) = (x, int (length (PutUvarint x)))"
  by (rule Uvarint_PutUvarint) (simp add: maxPeekNameLen_def)

lemma field_at_PutUvarint:
  "length name \<le> maxPeekNameLen \<Longrightarrow> field_at (PutUvarint (length name) @ name @ rest) name rest"
  by (simp add: field_at_def Uvarint_PutUvarint_le)

lemma peek_frame_header:
  assumes "length codec \<le> maxPeekNameLen" "length tn \<le> maxPeekNameLen" "tn \<noteq> []"
  shows "peekHeader (frame_header codec tn @ rest) fe op1 =
    (Inr (envelopeVersion, codec, versioned tn), rest)"
proof -
  have "header_at (frame_header codec tn @ rest) envelopeVersion (bytes_of codec) (bytes_of tn) rest"
    unfolding header_at_def frame_header_def
    using assms field_at_PutUvarint [of "bytes_of codec"] field_at_PutUvarint [of "bytes_of tn" rest]
    by (auto intro!: exI [of _ "PutUvarint (length tn) @ bytes_of tn @ rest"])
  with assms show ?thesis
    unfolding peekHeader_ok by (intro exI [of _ "bytes_of tn"]) simp
qed

lemma frame_header_prefix:
  assumes "length codec = maxPeekNameLen" "length tn = maxPeekNameLen"
  shows "take headerPrefixLimit (frame_header codec tn) =
    envelopeVersion # PutUvarint maxPeekNameLen @ bytes_of codec @ PutUvarint maxPeekNameLen @ take 4091 (bytes_of tn)"
  using assms length_PutUvarint_4096
  by (simp add: frame_header_def headerPrefixLimit_def maxPeekNameLen_def take_Cons' PutUvarint.simps)

lemma prefix_not_header:
  assumes "length codec = maxPeekNameLen" "length tn = maxPeekNameLen"
  shows "\<not> header_at (take headerPrefixLimit (frame_header codec tn)) v c t rest"
proof
  let ?s1 = "PutUvarint maxPeekNameLen @ take 4091 (bytes_of tn)"
  assume "header_at (take headerPrefixLimit (frame_header codec tn)) v c t rest"
  then obtain s1 where f: "field_at (PutUvarint maxPeekNameLen @ bytes_of codec @ ?s1) c s1" "field_at s1 t rest"
    unfolding header_at_def frame_header_prefix [OF assms] by auto
  have "field_at (PutUvarint maxPeekNameLen @ bytes_of codec @ ?s1) (bytes_of codec) ?s1"
    using field_at_PutUvarint [of "bytes_of codec" ?s1] assms by simp
  from field_at_det [OF f(1) this] f(2) have "field_at ?s1 t rest" by simp
  then obtain m where "Uvarint ?s1 = (length t, m)" "drop (nat m) ?s1 = t @ rest"
    by (auto simp: field_at_def)
  then have "length t = maxPeekNameLen" "t @ rest = take 4091 (bytes_of tn)"
    using Uvarint_PutUvarint_le [of maxPeekNameLen "take 4091 (bytes_of tn)"] by auto
  then have "maxPeekNameLen \<le> length (take 4091 (bytes_of tn))"
    by (metis length_append le_add1)
  then show False by (simp add: maxPeekNameLen_def)
qed

text \<open>
  the bounded header read is not wide enough for every header the unbounded one accepts. On an
  object whose codec tag and type name both have the maximal length, \<open>PeekHeader\<close> answers the
  header, and \<open>Header\<close>, which sees the first \<open>headerPrefixLimit\<close> bytes, reports it as corrupt.
\<close>

theorem header_bound_rejects_maximal_header:
  assumes "length codec = maxPeekNameLen" "length tn = maxPeekNameLen"
    and "b_Get be d w = (Inr (nop_closer (frame_header codec tn @ payload)), w')"
  shows "PeekHeader (nop_closer (frame_header codec tn @ payload)) = Inr (envelopeVersion, codec, versioned tn) \<and>
    (\<exists>e. fst (Header be d w) = Inl e \<and> errors_Is e ErrCorrupt)"
proof -
  let ?data = "frame_header codec tn @ payload"
  have long: "headerPrefixLimit < length (frame_header codec tn)"
    using assms(1,2) length_PutUvarint_4096 by (simp add: frame_header_def headerPrefixLimit_def maxPeekNameLen_def)
  have ne: "tn \<noteq> []" using assms(2) by (auto simp: maxPeekNameLen_def)
  have peek: "PeekHeader (nop_closer ?data) = Inr (envelopeVersion, codec, versioned tn)"
    using peek_frame_header [of codec tn payload] assms(1,2) ne by (simp add: PeekHeader_def)
  have cut: "take headerPrefixLimit ?data = take headerPrefixLimit (frame_header codec tn)"
    using long by simp
  obtain x rest where x: "peekHeader (take headerPrefixLimit (frame_header codec tn)) None ''peek header'' = (x, rest)"
    by fastforce
  have "\<nexists>y. x = Inr y"
  proof
    assume "\<exists>y. x = Inr y"
    then obtain v c t where "x = Inr (v, c, t)" by (metis prod.collapse)
    with x show False
      using prefix_not_header [OF assms(1,2)] by (auto simp: peekHeader_ok)
  qed
  then obtain e where e: "x = Inl e" by (cases x) auto
  then have corrupt: "errors_Is e ErrCorrupt" using peekHeader_error x by blast
  have lim: "PeekHeader (io_LimitReader (reader.truncate (nop_closer ?data)) (int headerPrefixLimit)) = Inl e"
    using x e cut long by (simp add: PeekHeader_def)
  show ?thesis
    using peek assms(3) corrupt lim
    by (simp add: Header_def bnd_def of_result_def readThenClose_no_close_error render_def wrap_def)
qed

theorem header_bound_rejects_maximal_header_witness:
  "\<exists>be :: unit backend. \<exists>w. \<exists>e. fst (Header be [1] w) = Inl e \<and> errors_Is e ErrCorrupt"
proof -
  let ?n = "replicate maxPeekNameLen (CHR ''c'')"
  let ?rc = "nop_closer (frame_header ?n ?n @ [])"
  let ?be = "\<lparr>b_Put = (\<lambda>_ _. ret ()), b_Get = (\<lambda>_. ret ?rc), b_Exists = (\<lambda>_. ret True), b_Delete = (\<lambda>_. ret ()),
    b_List = ret [], b_Stats = ret \<lparr>TotalSize = 0, ObjectCount = 0\<rparr>, b_Size = None, b_ModTime = None,
    b_Clean = None, b_Close = None\<rparr> :: unit backend"
  have "b_Get ?be [1] \<lparr>ectx = Live, est = ()\<rparr> = (Inr ?rc, \<lparr>ectx = Live, est = ()\<rparr>)" by (simp add: ret_def)
  from header_bound_rejects_maximal_header [OF _ _ this] show ?thesis by (metis length_replicate)
qed

end
