(* ===== verification/Cas_Store.thy ===== *)
theory Cas_Store
  imports Cas_Backend
begin

text \<open>
  \<open>src/cas/store.go\<close>, \<open>src/cas/stream.go\<close> and the interfaces of \<open>src/cas/object.go\<close>,
  \<open>src/cas/codec.go\<close>, \<open>src/cas/hasher.go\<close>: the typed store. The object type, its codec and the
  hash algorithm are supplied by the client, so they are records of functions the store's
  operations take as parameters; what the interfaces document of them (a codec decodes what it
  encodes, a hasher is a pure function of the bytes) is stated as the predicates \<open>codec_law\<close> and
  \<open>hasher_law\<close> where a lemma needs it.

  The lemmas on the composition with a backend are proved in the contexts of the backend
  contracts and reach the backends through their interpretations.
\<close>

section \<open>The client's interfaces\<close>

text \<open>
  \<open>Object[T]\<close> with the optional \<open>Validator\<close>; \<open>o_isNil\<close> is the answer of \<open>isNilValue\<close>, which asks
  the runtime whether the value is a nil pointer, map, slice, channel, function or interface.
\<close>

record 'a object_ops =
  o_Type :: "'a \<Rightarrow> string"
  o_References :: "'a \<Rightarrow> digest list"
  o_Validate :: "('a \<Rightarrow> err option) option"
  o_isNil :: "'a \<Rightarrow> bool"

record 'a codec =
  c_Encode :: "'a \<Rightarrow> bytes result"
  c_Decode :: "bytes \<Rightarrow> 'a result"
  c_CodecName :: "string option"

record hasher =
  h_Digest :: "reader \<Rightarrow> digest result"
  h_Validate :: "digest \<Rightarrow> err option"

section \<open>The store\<close>

text \<open>\<open>s_closed\<close> is the memo of \<open>sync.OnceValue\<close>: the first close result, once there is one.\<close>

record ('a, 'b) store =
  s_backend :: "'b backend"
  s_codec :: "'a codec"
  s_codecName :: string
  s_hasher :: hasher
  s_obj :: "'a object_ops"
  s_closed :: "err option option"

definition codecNameOf :: "'a codec \<Rightarrow> string" where
  "codecNameOf c = (case c_CodecName c of Some n \<Rightarrow> n | None \<Rightarrow> '''')"

definition Store_New :: "'b backend \<Rightarrow> 'a codec \<Rightarrow> hasher \<Rightarrow> 'a object_ops \<Rightarrow> ('a, 'b) store" where
  "Store_New be c h ops =
     \<lparr>s_backend = be, s_codec = c, s_codecName = codecNameOf c, s_hasher = h, s_obj = ops, s_closed = None\<rparr>"

definition Store_check :: "('a, 'b) store \<Rightarrow> digest \<Rightarrow> string \<Rightarrow> err option" where
  "Store_check s d what =
     (case CheckDigest d what of
        Some e \<Rightarrow> Some e
      | None \<Rightarrow> (case h_Validate (s_hasher s) d of Some e \<Rightarrow> Some (Errorf what [e]) | None \<Rightarrow> None))"

definition validateObject :: "'a object_ops \<Rightarrow> 'a \<Rightarrow> err option" where
  "validateObject ops obj =
     (if o_isNil ops obj then Some (ErrorsNew ''cas: put: nil object'')
      else case o_Validate ops of
          Some v \<Rightarrow> (case v obj of Some e \<Rightarrow> Some (Errorf ''cas: put'' [e]) | None \<Rightarrow> None)
        | None \<Rightarrow> None)"

definition validateDecoded :: "'a object_ops \<Rightarrow> 'a \<Rightarrow> string \<Rightarrow> err option" where
  "validateDecoded ops obj typeName =
     (case o_Validate ops of
        Some v \<Rightarrow> (case v obj of Some e \<Rightarrow> Some (Errorf typeName [ErrCorrupt, e]) | None \<Rightarrow> None)
      | None \<Rightarrow> None)"

definition Store_marshal :: "('a, 'b) store \<Rightarrow> 'a \<Rightarrow> bytes result" where
  "Store_marshal s obj =
     (case c_Encode (s_codec s) obj of
        Inl e \<Rightarrow> Inl (Errorf ''cas: encode'' [e])
      | Inr payload \<Rightarrow> EncodeEnvelope (s_codecName s) (o_Type (s_obj s) obj) payload)"

definition Store_encoded :: "('a, 'b) store \<Rightarrow> 'a \<Rightarrow> (digest \<times> bytes) result" where
  "Store_encoded s obj =
     (case validateObject (s_obj s) obj of
        Some e \<Rightarrow> Inl e
      | None \<Rightarrow>
          (case Store_marshal s obj of
             Inl e \<Rightarrow> Inl e
           | Inr data \<Rightarrow>
               (case h_Digest (s_hasher s) (bytes_reader data) of
                  Inl e \<Rightarrow> Inl e
                | Inr d \<Rightarrow>
                    (case Store_check s d ''store: put'' of Some e \<Rightarrow> Inl e | None \<Rightarrow> Inr (d, data)))))"

definition Store_Put :: "('a, 'b) store \<Rightarrow> 'a \<Rightarrow> ('b, digest) act" where
  "Store_Put s obj =
     bnd ctx_Err (\<lambda>_.
     bnd (of_result (Store_encoded s obj)) (\<lambda>(d, data).
     bnd (b_Put (s_backend s) d (bytes_reader data)) (\<lambda>_.
       ret d)))"

definition Store_PutDedup :: "('a, 'b) store \<Rightarrow> 'a \<Rightarrow> ('b, digest \<times> bool) act" where
  "Store_PutDedup s obj =
     bnd ctx_Err (\<lambda>_.
     bnd (of_result (Store_encoded s obj)) (\<lambda>(d, data).
     bnd (b_Exists (s_backend s) d) (\<lambda>exists1.
       if exists1 then ret (d, True)
       else bnd (b_Put (s_backend s) d (bytes_reader data)) (\<lambda>_. ret (d, False)))))"

definition Store_Close :: "('a, 'b) store option \<Rightarrow> 'b env \<Rightarrow> (err option \<times> ('a, 'b) store option) \<times> 'b env" where
  "Store_Close so w =
     (case so of
        None \<Rightarrow> ((None, None), w)
      | Some s \<Rightarrow>
          (case s_closed s of
             Some eo \<Rightarrow> ((eo, Some s), w)
           | None \<Rightarrow>
               (case b_Close (s_backend s) of
                  None \<Rightarrow> ((None, Some (s\<lparr>s_closed := Some None\<rparr>)), w)
                | Some cl \<Rightarrow>
                    (case cl w of
                       (Inl e, w') \<Rightarrow> ((Some e, Some (s\<lparr>s_closed := Some (Some e)\<rparr>)), w')
                     | (Inr _, w') \<Rightarrow> ((None, Some (s\<lparr>s_closed := Some None\<rparr>)), w')))))"

definition Store_checkCodec :: "('a, 'b) store \<Rightarrow> envelope \<Rightarrow> err option" where
  "Store_checkCodec s env =
     (if s_codecName s = '''' \<or> env_Codec env = '''' \<or> env_Codec env = s_codecName s then None
      else Some (Errorf (env_Type env) [ErrCodecMismatch]))"

definition Store_GetReader :: "('a, 'b) store \<Rightarrow> digest \<Rightarrow> ('b, readcloser) act" where
  "Store_GetReader s d =
     bnd ctx_Err (\<lambda>_.
     bnd (when_err (Store_check s d ''store: get'')) (\<lambda>_.
       b_Get (s_backend s) d))"

definition Store_GetRaw :: "('a, 'b) store \<Rightarrow> digest \<Rightarrow> ('b, bytes) act" where
  "Store_GetRaw s d =
     bnd (Store_GetReader s d) (\<lambda>rc.
       of_result (readThenClose rc io_ReadAll readWins
         (Some (wrap ''cas: read object'')) (Some (wrap ''cas: close object''))))"

text \<open>The part of \<open>Get\<close> behind the read: from the stored bytes to the object or the error.\<close>

definition Store_decode :: "('a, 'b) store \<Rightarrow> bytes \<Rightarrow> 'a result" where
  "Store_decode s data =
     (case decodeEnvelope data of
        Inl e \<Rightarrow> Inl e
      | Inr env \<Rightarrow>
          (case Store_checkCodec s env of
             Some e \<Rightarrow> Inl e
           | None \<Rightarrow>
               (case c_Decode (s_codec s) (env_Data env) of
                  Inl e \<Rightarrow>
                    (if env_Codec env = ''''
                     then Inl (Errorf (''cas: object carries no codec identity: '' @ env_Type env) [ErrCorrupt, e])
                     else Inl (Errorf ''cas: payload decode'' [ErrCorrupt, e]))
                | Inr v \<Rightarrow>
                    if o_isNil (s_obj s) v then Inl (Errorf (env_Type env @ '': decoded to nil'') [ErrCorrupt])
                    else if o_Type (s_obj s) v \<noteq> env_Type env
                    then Inl (Errorf ''stored type != decoded type'' [ErrUnknownType])
                    else (case validateDecoded (s_obj s) v (env_Type env) of Some e \<Rightarrow> Inl e | None \<Rightarrow> Inr v))))"

definition Store_Get :: "('a, 'b) store \<Rightarrow> digest \<Rightarrow> ('b, 'a) act" where
  "Store_Get s d = bnd (Store_GetRaw s d) (\<lambda>data. of_result (Store_decode s data))"

definition Store_Type :: "('a, 'b) store \<Rightarrow> digest \<Rightarrow> ('b, string) act" where
  "Store_Type s d =
     bnd ctx_Err (\<lambda>_.
     bnd (when_err (Store_check s d ''store: type'')) (\<lambda>_.
       peekAt (s_backend s) d PeekType))"

definition Store_Version :: "('a, 'b) store \<Rightarrow> digest \<Rightarrow> ('b, byte) act" where
  "Store_Version s d =
     bnd ctx_Err (\<lambda>_.
     bnd (when_err (Store_check s d ''store: version'')) (\<lambda>_.
       peekAt (s_backend s) d PeekVersion))"

definition Store_Exists :: "('a, 'b) store \<Rightarrow> digest \<Rightarrow> ('b, bool) act" where
  "Store_Exists s d = bnd (when_err (Store_check s d ''store: exists'')) (\<lambda>_. b_Exists (s_backend s) d)"

definition Store_Delete :: "('a, 'b) store \<Rightarrow> digest \<Rightarrow> ('b, unit) act" where
  "Store_Delete s d = bnd (when_err (Store_check s d ''store: delete'')) (\<lambda>_. b_Delete (s_backend s) d)"

section \<open>PutStream\<close>

text \<open>
  The temporary file is the operating system's: what its creation, the copy into it and the two
  rewinds answer are parameters. A file has no \<open>Len\<close> method.
\<close>

record spool_io =
  sp_create :: "err option"
  sp_write :: "bytes \<Rightarrow> err option"
  sp_seek1 :: "err option"
  sp_seek2 :: "err option"

definition spool_reader :: "bytes \<Rightarrow> reader" where
  "spool_reader b = \<lparr>r_chunks = (if b = [] then [] else [b]), r_err = None, r_len = None\<rparr>"

definition PutStream :: "spool_io \<Rightarrow> 'b backend option \<Rightarrow> hasher option \<Rightarrow> reader \<Rightarrow> ('b, digest \<times> bool) act" where
  "PutStream io beo ho r =
     bnd ctx_Err (\<lambda>_.
       case beo of None \<Rightarrow> fail (ErrorsNew ''cas: put stream: nil backend'') | Some be \<Rightarrow>
       case ho of None \<Rightarrow> fail (ErrorsNew ''cas: put stream: nil hasher'') | Some h \<Rightarrow>
       bnd (wrapping ''cas: put stream: create spool'' (when_err (sp_create io))) (\<lambda>_.
       bnd (wrapping ''cas: put stream: spool''
              (bnd (when_err (sp_write io (r_data r))) (\<lambda>_. when_err (r_err r)))) (\<lambda>_.
       bnd ctx_Err (\<lambda>_.
       bnd (wrapping ''cas: put stream: rewind spool'' (when_err (sp_seek1 io))) (\<lambda>_.
       bnd (wrapping ''cas: put stream: digest'' (of_result (h_Digest h (spool_reader (r_data r))))) (\<lambda>d.
       bnd (b_Exists be d) (\<lambda>deduplicated.
         if deduplicated then ret (d, True)
         else
           bnd (wrapping ''cas: put stream: rewind spool'' (when_err (sp_seek2 io))) (\<lambda>_.
           bnd (b_Put be d (spool_reader (r_data r))) (\<lambda>_. ret (d, False))))))))))"


section \<open>What the interfaces document\<close>

text \<open>
  A hasher is a pure function \<open>H\<close> of the bytes it reads and accepts its own digests, which are
  never the absent one. A codec decodes what it encodes; no payload exceeds the address space.
\<close>

definition hasher_law :: "hasher \<Rightarrow> (bytes \<Rightarrow> digest) \<Rightarrow> bool" where
  "hasher_law h H \<longleftrightarrow> (\<forall>r. r_err r = None \<longrightarrow> h_Digest h r = Inr (H (r_data r))) \<and>
     (\<forall>b. H b \<noteq> [] \<and> h_Validate h (H b) = None)"

definition codec_law :: "'a codec \<Rightarrow> 'a \<Rightarrow> bool" where
  "codec_law c v \<longleftrightarrow> (\<exists>p. c_Encode c v = Inr p \<and> c_Decode c p = Inr v \<and> length p < 2 ^ 63)"

text \<open>An object the store accepts: not nil, valid, with a versioned type name and an encoding.\<close>

definition storable :: "('a, 'b) store \<Rightarrow> 'a \<Rightarrow> bool" where
  "storable s v \<longleftrightarrow> validateObject (s_obj s) v = None \<and> codec_law (s_codec s) v \<and>
     CHR ''@'' \<in> set (o_Type (s_obj s) v) \<and>
     length (o_Type (s_obj s) v) \<le> maxPeekNameLen \<and> length (s_codecName s) \<le> maxPeekNameLen"

definition frame_of :: "('a, 'b) store \<Rightarrow> 'a \<Rightarrow> bytes" where
  "frame_of s v = (case c_Encode (s_codec s) v of Inl _ \<Rightarrow> [] | Inr p \<Rightarrow> encodeEnvelope (s_codecName s) (o_Type (s_obj s) v) p)"

section \<open>Pure lemmas\<close>

lemma hasher_lawD:
  assumes "hasher_law h H"
  shows "h_Digest h (bytes_reader b) = Inr (H b)" "h_Digest h (spool_reader b) = Inr (H b)"
    "H b \<noteq> []" "h_Validate h (H b) = None"
  using assms by (auto simp: hasher_law_def spool_reader_def bytes_reader_def r_data_def)

lemma spool_reader_simps [simp]:
  "r_data (spool_reader b) = b" "r_err (spool_reader b) = None" "clean_reader (spool_reader b)"
  by (auto simp: spool_reader_def r_data_def clean_reader_def)

lemma Store_check_None: "Store_check s d what = None \<longleftrightarrow> d \<noteq> [] \<and> h_Validate (s_hasher s) d = None"
  by (auto simp: Store_check_def CheckDigest_None_iff CheckDigest_def split: option.splits)

lemma Store_check_H: "hasher_law (s_hasher s) H \<Longrightarrow> Store_check s (H b) what = None"
  by (simp add: Store_check_None hasher_lawD)

lemma Store_encoded_ok:
  "Store_encoded s obj = Inr (d, data) \<Longrightarrow>
    validateObject (s_obj s) obj = None \<and> Store_marshal s obj = Inr data \<and>
    h_Digest (s_hasher s) (bytes_reader data) = Inr d \<and> d \<noteq> [] \<and> h_Validate (s_hasher s) d = None"
  by (auto simp: Store_encoded_def Store_check_None split: option.splits sum.splits)

lemma Store_encoded_storable:
  assumes "hasher_law (s_hasher s) H" "storable s v"
  shows "Store_encoded s v = Inr (H (frame_of s v), frame_of s v)"
proof -
  from assms(2) obtain p where "c_Encode (s_codec s) v = Inr p" by (auto simp: storable_def codec_law_def)
  with assms show ?thesis
    by (auto simp: Store_encoded_def Store_marshal_def EncodeEnvelope_def frame_of_def storable_def
        hasher_lawD Store_check_H)
qed

lemma frame_of_decode:
  assumes "storable s v"
  obtains p where "c_Encode (s_codec s) v = Inr p" "c_Decode (s_codec s) p = Inr v"
    "decodeEnvelope (frame_of s v) = Inr \<lparr>env_Type = o_Type (s_obj s) v, env_Codec = s_codecName s, env_Data = p\<rparr>"
proof -
  from assms obtain p where p: "c_Encode (s_codec s) v = Inr p" "c_Decode (s_codec s) p = Inr v" "length p < 2 ^ 63"
    by (auto simp: storable_def codec_law_def)
  have "o_Type (s_obj s) v \<noteq> []" "versioned (o_Type (s_obj s) v) = o_Type (s_obj s) v"
    using assms by (auto simp: storable_def versioned_def)
  then have "decodeEnvelope (frame_of s v @ []) =
      Inr \<lparr>env_Type = o_Type (s_obj s) v, env_Codec = s_codecName s, env_Data = p\<rparr>"
    using decodeEnvelope_frame [of "s_codecName s" "o_Type (s_obj s) v" p "[]"] assms p
    by (simp add: frame_of_def storable_def maxPeekNameLen_def)
  with p that show thesis by simp
qed

lemma validate_same: "validateObject ops v = None \<Longrightarrow> \<not> o_isNil ops v \<and> validateDecoded ops v t = None"
  by (auto simp: validateObject_def validateDecoded_def split: if_splits option.splits)

lemma Store_decode_frame:
  assumes "storable s v"
  shows "Store_decode s (frame_of s v) = Inr v"
proof -
  have "\<not> o_isNil (s_obj s) v" "validateDecoded (s_obj s) v t = None" for t
    using validate_same [of "s_obj s" v t] assms by (simp_all add: storable_def)
  then show ?thesis
    using assms by (elim frame_of_decode) (simp add: Store_decode_def Store_checkCodec_def)
qed

text \<open>
  The verdict on stored bytes: the error names the first check that fails, and a frame that does
  not parse is never reported as a type or codec mismatch.
\<close>

lemma decodeEnvelope_error_only:
  "decodeEnvelope data = Inl e \<Longrightarrow> \<not> errors_Is e ErrUnknownType \<and> \<not> errors_Is e ErrCodecMismatch"
  by (auto simp: decodeEnvelope_def decodeEnvelopeHeader_def decode_type_field_def decode_codec_field_def Let_def
      split: prod.splits if_splits sum.splits)


lemma frame_of_peek:
  assumes "storable s v"
  shows "PeekType (bytes_reader (frame_of s v)) = Inr (o_Type (s_obj s) v)"
    and "PeekVersion (bytes_reader (frame_of s v)) = Inr EnvelopeVersion"
proof -
  from assms obtain p where p: "c_Encode (s_codec s) v = Inr p" by (auto simp: storable_def codec_law_def)
  have lay: "frame_of s v = frame_header (s_codecName s) (o_Type (s_obj s) v) @ PutUvarint (length p) @ p"
    using p by (simp add: frame_of_def encodeEnvelope_layout frame_header_def)
  have "o_Type (s_obj s) v \<noteq> []" "versioned (o_Type (s_obj s) v) = o_Type (s_obj s) v"
    using assms by (auto simp: storable_def versioned_def)
  then show "PeekType (bytes_reader (frame_of s v)) = Inr (o_Type (s_obj s) v)"
    using assms peek_frame_header [of "s_codecName s" "o_Type (s_obj s) v"]
    by (simp add: PeekType_def storable_def lay)
  show "PeekVersion (bytes_reader (frame_of s v)) = Inr EnvelopeVersion"
    by (simp add: lay PeekVersion_def frame_header_def EnvelopeVersion_def)
qed

text \<open>A frame written under one codec tag is a codec mismatch for a store that reads another.\<close>

lemma Store_decode_other_codec:
  assumes "storable s v" "s_codecName s \<noteq> ''''" "s_codecName t \<noteq> ''''" "s_codecName t \<noteq> s_codecName s"
  shows "\<exists>e. Store_decode t (frame_of s v) = Inl e \<and> errors_Is e ErrCodecMismatch"
proof -
  from frame_of_decode [OF assms(1)] obtain p where "decodeEnvelope (frame_of s v) =
    Inr \<lparr>env_Type = o_Type (s_obj s) v, env_Codec = s_codecName s, env_Data = p\<rparr>" .
  with assms(2-4) show ?thesis by (simp add: Store_decode_def Store_checkCodec_def)
qed

section \<open>The store over a backend\<close>

locale store_ops = backend_contract be abs inv
  for be :: "'b backend" and abs :: "'b \<Rightarrow> digest \<Rightarrow> bytes option" and inv :: "'b \<Rightarrow> bool" +
  fixes st :: "('a, 'b) store"
  assumes over_backend: "s_backend st = be"
begin

lemma Store_Put_ok:
  assumes "inv (est w)" "Store_Put st v w = (Inr d, w')"
  obtains data where "Store_encoded st v = Inr (d, data)" "inv (est w')" "d \<noteq> []"
    "abs (est w') = (abs (est w))(d \<mapsto> data) \<or> abs (est w') = abs (est w) \<and> abs (est w) d \<noteq> None"
proof -
  from assms(2) obtain data w1 where c: "ctx_Err w = (Inr (), w1)"
    and enc: "Store_encoded st v = Inr (d, data)" and put: "b_Put be d (bytes_reader data) w1 = (Inr (), w')"
    by (auto simp: Store_Put_def bnd_ok over_backend)
  have est: "est w1 = est w" using c by (rule ctx_Err_estD)
  with assms(1) have inv1: "inv (est w1)" by simp
  from put_ok [OF inv1 put] obtain b where
    "abs (est w') = (abs (est w1))(d \<mapsto> b)" "b = data \<or> abs (est w1) d = Some b" by auto
  moreover have "(abs (est w1))(d \<mapsto> b) = abs (est w1)" if "abs (est w1) d = Some b" for b
    using that by (simp add: fun_upd_idem)
  ultimately show thesis
    using that [OF enc put_inv [OF inv1 put]] Store_encoded_ok [OF enc] est by auto
qed

text \<open>A failed put changes no object.\<close>

lemma Store_Put_err:
  assumes "inv (est w)" "Store_Put st v w = (Inl e, w')"
  shows "abs (est w') = abs (est w) \<and> inv (est w')"
proof -
  obtain x w1 where c: "ctx_Err w = (x, w1)" by fastforce
  then have est: "est w1 = est w" by (rule ctx_Err_estD)
  with assms(1) have inv1: "inv (est w1)" by simp
  have "abs (est w') = abs (est w1) \<and> inv (est w')"
    using assms(2) c inv1 put_err [OF inv1] put_inv [OF inv1]
    by (auto simp: Store_Put_def monad_defs over_backend split: sum.splits prod.splits)
  with est show ?thesis by simp
qed

lemma Store_Delete_ok:
  assumes "inv (est w)" "Store_Delete st d w = (Inr (), w')"
  shows "abs (est w') = (abs (est w))(d := None) \<and> inv (est w')"
  using assms delete_ok delete_inv by (auto simp: Store_Delete_def bnd_ok over_backend)

end

locale typed_store = store_ops be abs inv st + reliable_backend be abs inv
  for be :: "'b backend" and abs :: "'b \<Rightarrow> digest \<Rightarrow> bytes option" and inv :: "'b \<Rightarrow> bool"
    and st :: "('a, 'b) store"
begin

lemma Store_GetRaw_value:
  assumes "inv (est w)" "ectx w = Live" "abs (est w) d = Some b" "h_Validate (s_hasher st) d = None"
  obtains w' where "Store_GetRaw st d w = (Inr b, w')" "ectx w' = Live" "inv (est w')"
    "abs (est w') = abs (est w)"
proof -
  have "d \<noteq> []" using assms(1,3) absent_key by auto
  with assms(4) have chk: "Store_check st d what = None" for what by (simp add: Store_check_None)
  from get_value [OF assms(1-3)] obtain rc w' where g: "b_Get be d w = (Inr rc, w')"
    "r_err rc = None" "rc_close rc = None" "r_data rc = b" "ectx w' = Live" "inv (est w')"
    "abs (est w') = abs (est w)" .
  then have "Store_GetRaw st d w = (Inr b, w')"
    using assms(2) chk
    by (simp add: Store_GetRaw_def Store_GetReader_def bnd_def when_err_def of_result_def over_backend
        readThenClose_no_close_error io_ReadAll_def)
  with g that show thesis by blast
qed

lemma Store_Get_value:
  assumes "inv (est w)" "ectx w = Live" "abs (est w) d = Some b" "h_Validate (s_hasher st) d = None"
  obtains w' where "Store_Get st d w = (Store_decode st b, w')" "ectx w' = Live" "inv (est w')"
    "abs (est w') = abs (est w)"
proof -
  from Store_GetRaw_value [OF assms] obtain w' where g: "Store_GetRaw st d w = (Inr b, w')"
    "ectx w' = Live" "inv (est w')" "abs (est w') = abs (est w)" .
  then have "Store_Get st d w = (Store_decode st b, w')"
    by (simp add: Store_Get_def of_result_def)
  with g that show thesis by blast
qed

lemma Store_Get_missing:
  assumes "inv (est w)" "ectx w = Live" "abs (est w) d = None" "d \<noteq> []" "h_Validate (s_hasher st) d = None"
  shows "\<exists>e w'. Store_Get st d w = (Inl e, w') \<and> errors_Is e ErrNotFound"
proof -
  have chk: "Store_check st d what = None" for what using assms by (simp add: Store_check_None)
  from get_missing [OF assms(1,2,4,3)] obtain e w' where "b_Get be d w = (Inl e, w')" "errors_Is e ErrNotFound"
    by blast
  with assms(2) chk show ?thesis
    by (simp add: Store_Get_def Store_GetRaw_def Store_GetReader_def bnd_def when_err_def over_backend)
qed

text \<open>The header reads see the type and version of the stored frame.\<close>

lemma Store_peek_value:
  assumes "inv (est w)" "ectx w = Live" "abs (est w) d = Some b" "h_Validate (s_hasher st) d = None"
  obtains w' where "Store_Type st d w = (PeekType (bytes_reader b), w')"
    "Store_Version st d w = (PeekVersion (bytes_reader b), w')" "ectx w' = Live"
proof -
  have "d \<noteq> []" using assms(1,3) absent_key by auto
  with assms(4) have chk: "Store_check st d what = None" for what by (simp add: Store_check_None)
  from get_value [OF assms(1-3)] obtain rc w' where g: "b_Get be d w = (Inr rc, w')"
    "r_err rc = None" "rc_close rc = None" "r_data rc = b" "ectx w' = Live" .
  have "PeekType rc = PeekType (bytes_reader b)" "PeekVersion rc = PeekVersion (bytes_reader b)"
    using g by (simp_all add: PeekType_def PeekVersion_def split: list.split)
  then have "Store_Type st d w = (PeekType (bytes_reader b), w')"
    "Store_Version st d w = (PeekVersion (bytes_reader b), w')"
    using g assms(2) chk
    by (auto simp: Store_Type_def Store_Version_def peekAt_def bnd_def when_err_def of_result_def over_backend
        readThenClose_no_close_error render_def split: sum.splits)
  with g that show thesis by blast
qed

text \<open>
  Put, then read back under any live context: the digest is that of the frame, and the object
  comes back, provided no other content was stored under the same digest.
\<close>

lemma put_get:
  assumes "inv (est w)" "hasher_law (s_hasher st) H" "storable st v"
    and put: "Store_Put st v w = (Inr d, w')"
    and fresh: "abs (est w) d = None \<or> abs (est w) d = Some (frame_of st v)"
    and later: "est w2 = est w'" "ectx w2 = Live"
  shows "d = H (frame_of st v) \<and> abs (est w') = (abs (est w))(d \<mapsto> frame_of st v) \<and>
    fst (Store_Get st d w2) = Inr v \<and> fst (Store_Type st d w2) = Inr (o_Type (s_obj st) v) \<and>
    fst (Store_Version st d w2) = Inr EnvelopeVersion"
proof -
  from Store_Put_ok [OF assms(1) put] obtain data where enc: "Store_encoded st v = Inr (d, data)"
    and inv': "inv (est w')" and
    upd: "abs (est w') = (abs (est w))(d \<mapsto> data) \<or> abs (est w') = abs (est w) \<and> abs (est w) d \<noteq> None" .
  from enc Store_encoded_storable [OF assms(2,3)] have d: "d = H (frame_of st v)" "data = frame_of st v" by auto
  have abs': "abs (est w') = (abs (est w))(d \<mapsto> frame_of st v)"
    using upd fresh d by (auto simp: fun_upd_idem)
  have val: "h_Validate (s_hasher st) d = None" using d assms(2) by (simp add: hasher_lawD)
  have pre: "inv (est w2)" "abs (est w2) d = Some (frame_of st v)" using inv' abs' later by simp_all
  from Store_Get_value [OF pre(1) later(2) pre(2) val] obtain w3 where
    g: "Store_Get st d w2 = (Store_decode st (frame_of st v), w3)" .
  from Store_peek_value [OF pre(1) later(2) pre(2) val] obtain w4 where
    pk: "Store_Type st d w2 = (PeekType (bytes_reader (frame_of st v)), w4)"
    "Store_Version st d w2 = (PeekVersion (bytes_reader (frame_of st v)), w4)" .
  with d abs' g show ?thesis
    by (simp add: frame_of_peek [OF assms(3)] Store_decode_frame [OF assms(3)])
qed

text \<open>A deduplicating put answers whether the content was there and stores it if it was not.\<close>

lemma PutDedup_value:
  assumes "inv (est w)" "ectx w = Live" "hasher_law (s_hasher st) H" "storable st v"
    and "Store_PutDedup st v w = (Inr (d, dup), w')"
  shows "d = H (frame_of st v) \<and> dup = (abs (est w) d \<noteq> None) \<and>
    abs (est w') = (if dup then abs (est w) else (abs (est w))(d \<mapsto> frame_of st v)) \<and> inv (est w')"
proof -
  note enc = Store_encoded_storable [OF assms(3,4)]
  let ?d = "H (frame_of st v)"
  from exists_value [OF assms(1,2), of ?d] hasher_lawD(3) [OF assms(3)] obtain w1 where
    ex: "b_Exists be ?d w = (Inr (abs (est w) ?d \<noteq> None), w1)" "inv (est w1)" "abs (est w1) = abs (est w)"
    by metis
  show ?thesis
  proof (cases "abs (est w) ?d")
    case None
    with assms(2,5) enc ex obtain w2 where "d = ?d" "\<not> dup" "w' = w2"
      and put: "b_Put be ?d (bytes_reader (frame_of st v)) w1 = (Inr (), w2)"
      by (auto simp: Store_PutDedup_def bnd_ok over_backend)
    with put_same [OF ex(2) put] put_inv [OF ex(2) put] None ex show ?thesis by simp
  next
    case (Some b)
    with assms(2,5) enc ex show ?thesis
      by (auto simp: Store_PutDedup_def bnd_ok over_backend)
  qed
qed

end

locale stream_client = backend_contract
begin

text \<open>A streamed put: the digest of the whole stream, stored once.\<close>

lemma PutStream_ok:
  assumes "inv (est w)" "hasher_law h H" "PutStream io (Some be) (Some h) r w = (Inr (d, dup), w')"
  shows "r_err r = None \<and> d = H (r_data r) \<and> dup = (abs (est w) d \<noteq> None) \<and>
    abs (est w') = (if dup then abs (est w) else (abs (est w))(d \<mapsto> r_data r)) \<and> inv (est w')"
proof -
  from assms(2,3) obtain w1 w2 w3 where c: "ctx_Err w = (Inr (), w1)" "ctx_Err w1 = (Inr (), w2)"
    and r: "r_err r = None" and d: "d = H (r_data r)"
    and ex: "b_Exists be d w2 = (Inr dup, w3)"
    and fin: "if dup then w' = w3 else b_Put be d (spool_reader (r_data r)) w3 = (Inr (), w')"
    by (auto simp: PutStream_def bnd_ok hasher_lawD split: if_splits)
  have est: "est w2 = est w" using c by (metis ctx_Err_estD)
  with assms(1) have inv2: "inv (est w2)" by simp
  note ex' = exists_frame [OF inv2 ex] exists_ok [OF inv2 ex]
  show ?thesis
  proof (cases dup)
    case False
    with fin have put: "b_Put be d (spool_reader (r_data r)) w3 = (Inr (), w')" by simp
    from ex' have inv3: "inv (est w3)" by simp
    from put_same [OF inv3 put] put_inv [OF inv3 put] False ex' est r d show ?thesis by simp
  qed (use fin ex' est r d in simp)
qed

end

section \<open>Close\<close>

text \<open>
  The memo: after the first close every further one answers the same and does not reach the
  backend again.
\<close>

lemma Store_Close_again:
  "Store_Close so w = ((eo, so'), w') \<Longrightarrow> Store_Close so' w2 = ((eo, so'), w2)"
  by (auto simp: Store_Close_def split: option.splits prod.splits sum.splits)

end
