(* ===== verification/Cas_Walk.thy ===== *)
theory Cas_Walk
  imports Cas_Store
begin

text \<open>
  \<open>src/cas/reachability.go\<close> and \<open>src/cas/walker.go\<close>: the graph walk. \<open>WalkDigests\<close> is a depth-first
  traversal with an explicit stack and a visited set, generic in the resolver and the visitor;
  \<open>Reachable\<close> and \<open>Walker\<close> are its two instances in the core.

  The stack is a list with its top at the head, the visited set the list of visited digests, the
  latest first. A graph need not be finite, so the loop takes fuel and \<open>None\<close> is a run that has not
  ended; \<open>walk_total\<close> shows that on a graph whose reachable part is finite the fuel
  \<open>walk_bound\<close>, the pending digests and the references still to be followed, is enough.
  Shown: every reachable digest is visited, nothing else is, and each one once.
\<close>

section \<open>The walk\<close>

text \<open>
  The resolver's answer: a node (or nil) and an explicit reference list (or nil, which means
  "ask the node").
\<close>

definition eff_refs :: "('n \<Rightarrow> digest list) \<Rightarrow> 'n option \<Rightarrow> digest list option \<Rightarrow> digest list" where
  "eff_refs nrefs node refs =
     (case refs of
        Some rs \<Rightarrow> rs
      | None \<Rightarrow> (case node of Some n \<Rightarrow> nrefs n | None \<Rightarrow> []))"

definition push_refs :: "digest list \<Rightarrow> digest list \<Rightarrow> digest list \<Rightarrow> digest list" where
  "push_refs visited refs stack = filter (\<lambda>ref. \<not> IsZero ref \<and> ref \<notin> set visited) refs @ stack"

fun walk_loop ::
  "(digest \<Rightarrow> ('b, 'n option \<times> digest list option) act) \<Rightarrow> ('n \<Rightarrow> digest list) \<Rightarrow>
   (digest \<Rightarrow> 'n option \<Rightarrow> digest list \<Rightarrow> 'c \<Rightarrow> err option \<times> 'c) \<Rightarrow>
   nat \<Rightarrow> digest list \<Rightarrow> digest list \<Rightarrow> 'c \<Rightarrow> 'b env \<Rightarrow> ((unit result \<times> 'c) \<times> 'b env) option" where
  "walk_loop resolve nrefs visit fuel visited [] c w = Some ((Inr (), c), w)"
| "walk_loop resolve nrefs visit 0 visited (d # stack) c w = None"
| "walk_loop resolve nrefs visit (Suc fuel) visited (d # stack) c w =
     (case ctx_Err w of
        (Inl e, w1) \<Rightarrow> Some ((Inl e, c), w1)
      | (Inr _, w1) \<Rightarrow>
          if d \<in> set visited then walk_loop resolve nrefs visit fuel visited stack c w1
          else
            (case resolve d w1 of
               (Inl e, w2) \<Rightarrow> Some ((Inl e, c), w2)
             | (Inr (node, ro), w2) \<Rightarrow>
                 (let refs = eff_refs nrefs node ro in
                  case visit d node refs c of
                    (Some e, c') \<Rightarrow> Some ((Inl e, c'), w2)
                  | (None, c') \<Rightarrow>
                      walk_loop resolve nrefs visit fuel (d # visited)
                        (push_refs (d # visited) refs stack) c' w2)))"

definition walk_roots :: "digest list \<Rightarrow> digest list" where
  "walk_roots roots = rev (filter (\<lambda>root. \<not> IsZero root) roots)"

definition WalkDigests ::
  "nat \<Rightarrow> (digest \<Rightarrow> ('b, 'n option \<times> digest list option) act) \<Rightarrow> ('n \<Rightarrow> digest list) \<Rightarrow> digest list \<Rightarrow>
   (digest \<Rightarrow> 'n option \<Rightarrow> digest list \<Rightarrow> 'c \<Rightarrow> err option \<times> 'c) \<Rightarrow> 'c \<Rightarrow> 'b env \<Rightarrow>
   ((unit result \<times> 'c) \<times> 'b env) option" where
  "WalkDigests fuel resolve nrefs roots visit c w =
     (case ctx_Err w of
        (Inl e, w1) \<Rightarrow> Some ((Inl e, c), w1)
      | (Inr _, w1) \<Rightarrow> walk_loop resolve nrefs visit fuel [] (walk_roots roots) c w1)"

text \<open>
  \<open>Reachable\<close>: the set-building visitor over a reference lister. The result map has the hex
  renderings as keys.
\<close>

definition Reachable ::
  "nat \<Rightarrow> (digest \<Rightarrow> ('b, digest list option) act) \<Rightarrow> digest list \<Rightarrow> 'b env \<Rightarrow>
   ((string \<times> bool) list result \<times> 'b env) option" where
  "Reachable fuel lister roots w =
     (case WalkDigests fuel
         (\<lambda>d. bnd (wrapping ''cas: reachable: expand'' (lister d)) (\<lambda>direct. ret (None :: unit option, direct)))
         (\<lambda>_. []) roots
         (\<lambda>d _ _ reachable. (None, AList.update (Digest_String d) True reachable)) [] w of
        None \<Rightarrow> None
      | Some ((Inl e, _), w') \<Rightarrow> Some (Inl e, w')
      | Some ((Inr _, reachable), w') \<Rightarrow> Some (Inr reachable, w'))"

definition map_lookup :: "(string \<times> bool) list \<Rightarrow> string \<Rightarrow> bool" where
  "map_lookup m k = (case map_of m k of Some b \<Rightarrow> b | None \<Rightarrow> False)"

definition Walker_Walk ::
  "nat \<Rightarrow> ('a, 'b) store \<Rightarrow> ('a \<Rightarrow> 'c \<Rightarrow> err option \<times> 'c) \<Rightarrow> digest \<Rightarrow> 'c \<Rightarrow> 'b env \<Rightarrow>
   ((unit result \<times> 'c) \<times> 'b env) option" where
  "Walker_Walk fuel s visit d =
     WalkDigests fuel
       (\<lambda>cur. bnd (Store_Get s cur) (\<lambda>obj. ret (Some obj, None)))
       (o_References (s_obj s)) [d]
       (\<lambda>_ node _ c. case node of Some obj \<Rightarrow> visit obj c | None \<Rightarrow> (None, c))"

section \<open>Reachability\<close>

text \<open>The specification: an edge follows a reference that is present.\<close>

definition edge :: "(digest \<Rightarrow> digest list) \<Rightarrow> digest \<Rightarrow> digest \<Rightarrow> bool" where
  "edge G a b \<longleftrightarrow> b \<in> set (G a) \<and> b \<noteq> []"

definition reach :: "(digest \<Rightarrow> digest list) \<Rightarrow> digest list \<Rightarrow> digest set" where
  "reach G roots = {d. \<exists>r \<in> set roots. r \<noteq> [] \<and> (edge G)\<^sup>*\<^sup>* r d}"

lemma reach_root: "r \<in> set roots \<Longrightarrow> r \<noteq> [] \<Longrightarrow> r \<in> reach G roots"
  by (auto simp: reach_def)

lemma reach_step: "d \<in> reach G roots \<Longrightarrow> edge G d d' \<Longrightarrow> d' \<in> reach G roots"
  by (auto simp: reach_def intro: rtranclp.rtrancl_into_rtrancl)

lemma reach_least:
  assumes "\<And>r. r \<in> set roots \<Longrightarrow> r \<noteq> [] \<Longrightarrow> r \<in> S"
    and "\<And>d d'. d \<in> S \<Longrightarrow> edge G d d' \<Longrightarrow> d' \<in> S"
  shows "reach G roots \<subseteq> S"
proof
  fix d assume "d \<in> reach G roots"
  then obtain r where r: "r \<in> set roots" "r \<noteq> []" "(edge G)\<^sup>*\<^sup>* r d" by (auto simp: reach_def)
  from r(3) show "d \<in> S"
    using assms(1) [OF r(1,2)] by induction (auto intro: assms(2))
qed

lemma reach_present: "d \<in> reach G roots \<Longrightarrow> d \<noteq> []"
  using reach_least [of roots "{d. d \<noteq> []}" G] by (auto simp: edge_def)

lemma reach_cong:
  assumes "\<And>d. d \<in> reach G roots \<Longrightarrow> G' d = G d"
  shows "reach G' roots = reach G roots"
proof
  show "reach G' roots \<subseteq> reach G roots"
    using assms by (intro reach_least) (auto intro: reach_root reach_step simp: edge_def)
  have "reach G roots \<subseteq> reach G' roots \<inter> reach G roots"
    using assms by (intro reach_least) (auto intro: reach_root reach_step simp: edge_def)
  then show "reach G roots \<subseteq> reach G' roots" by blast
qed

section \<open>Correctness of the walk\<close>

text \<open>The fuel a walk needs: the pending digests and the references not yet followed.\<close>

definition walk_bound :: "(digest \<Rightarrow> digest list) \<Rightarrow> digest set \<Rightarrow> digest list \<Rightarrow> digest list \<Rightarrow> nat" where
  "walk_bound G S visited stack = length stack + (\<Sum>d \<in> S - set visited. length (G d))"

lemma walk_bound_visited: "walk_bound G S visited (d # stack) = Suc (walk_bound G S visited stack)"
  by (simp add: walk_bound_def)

lemma walk_bound_new:
  assumes "finite S" "d \<in> S" "d \<notin> set visited"
  shows "walk_bound G S (d # visited) (push_refs (d # visited) (G d) stack) < walk_bound G S visited (d # stack)"
proof -
  have "S - set (d # visited) = (S - set visited) - {d}" by auto
  then have "(\<Sum>x \<in> S - set visited. length (G x)) = length (G d) + (\<Sum>x \<in> S - set (d # visited). length (G x))"
    using assms sum.remove [of "S - set visited" d "\<lambda>x. length (G x)"] by simp
  moreover have "length (filter (\<lambda>ref. ref \<noteq> [] \<and> ref \<noteq> d \<and> ref \<notin> set visited) (G d)) \<le> length (G d)"
    by (rule length_filter_le)
  ultimately show ?thesis by (simp add: walk_bound_def push_refs_def less_Suc_eq_le)
qed

text \<open>
  The resolver reads a fixed graph on the digests of \<open>S\<close>: the node \<open>N d\<close> with references \<open>G d\<close>,
  and keeps the state property \<open>I\<close>; the visitor never stops the walk there.
\<close>

definition resolves ::
  "('b env \<Rightarrow> bool) \<Rightarrow> (digest \<Rightarrow> ('b, 'n option \<times> digest list option) act) \<Rightarrow> ('n \<Rightarrow> digest list) \<Rightarrow>
   (digest \<Rightarrow> 'n option) \<Rightarrow> (digest \<Rightarrow> digest list) \<Rightarrow> digest set \<Rightarrow> bool" where
  "resolves I resolve nrefs N G S \<longleftrightarrow>
     (\<forall>w. I w \<longrightarrow> ectx w = Live) \<and>
     (\<forall>d \<in> S. \<forall>w. I w \<longrightarrow> (\<exists>ro w'. resolve d w = (Inr (N d, ro), w') \<and> eff_refs nrefs (N d) ro = G d \<and> I w'))"

lemma resolvesD:
  assumes "resolves I resolve nrefs N G S" "I w"
  shows "ectx w = Live"
    and "d \<in> S \<Longrightarrow> \<exists>ro w'. resolve d w = (Inr (N d, ro), w') \<and> eff_refs nrefs (N d) ro = G d \<and> I w'"
  using assms unfolding resolves_def by blast+

lemma walk_loop_total:
  assumes "resolves I resolve nrefs N G S" "finite S"
    and vis: "\<And>d c. d \<in> S \<Longrightarrow> fst (visit d (N d) (G d) c) = None"
    and closed: "\<forall>d \<in> S. \<forall>d'. edge G d d' \<longrightarrow> d' \<in> S"
    and "I w" "set stack \<subseteq> S" "set visited \<subseteq> S" "distinct visited"
    and "walk_bound G S visited stack \<le> fuel"
    and "\<forall>d \<in> set visited. \<forall>d'. edge G d d' \<longrightarrow> d' \<in> set visited \<union> set stack"
  shows "\<exists>order w'. walk_loop resolve nrefs visit fuel visited stack c w =
      Some ((Inr (), fold (\<lambda>d c. snd (visit d (N d) (G d) c)) order c), w') \<and> I w' \<and>
      distinct (rev order @ visited) \<and> set order \<subseteq> S \<and> set stack \<subseteq> set order \<union> set visited \<and>
      (\<forall>d \<in> set order \<union> set visited. \<forall>d'. edge G d d' \<longrightarrow> d' \<in> set order \<union> set visited)"
  using assms(5-)
proof (induction fuel arbitrary: visited stack c w)
  case 0
  then have "stack = []" by (simp add: walk_bound_def)
  with 0 show ?case by (intro exI [of _ "[]"]) auto
next
  case (Suc fuel)
  show ?case
  proof (cases stack)
    case Nil
    with Suc.prems show ?thesis by (intro exI [of _ "[]"]) auto
  next
    case (Cons d rest)
    have live: "ectx w = Live" using resolvesD(1) [OF assms(1) Suc.prems(1)] .
    have dS: "d \<in> S" using Suc.prems(2) Cons by simp
    show ?thesis
    proof (cases "d \<in> set visited")
      case True
      have "walk_bound G S visited rest \<le> fuel"
        using Suc.prems(5) Cons by (simp add: walk_bound_visited)
      with Suc.IH [of w rest visited c] Suc.prems True Cons show ?thesis
        using live by (auto simp: insert_absorb)
    next
      case False
      from resolvesD(2) [OF assms(1) Suc.prems(1) dS] obtain ro w2 where
        res: "resolve d w = (Inr (N d, ro), w2)" "eff_refs nrefs (N d) ro = G d" "I w2" by blast
      define stack' where "stack' = push_refs (d # visited) (G d) rest"
      have new: "set stack' = {r \<in> set (G d). r \<noteq> [] \<and> r \<notin> set (d # visited)} \<union> set rest"
        by (auto simp: stack'_def push_refs_def)
      have sub: "set stack' \<subseteq> S"
        using new Suc.prems(2) Cons closed dS by (auto simp: edge_def)
      obtain c' where c': "visit d (N d) (G d) c = (None, c')" using vis [OF dS, of c] by (metis prod.collapse)
      have bound: "walk_bound G S (d # visited) stack' \<le> fuel"
        using walk_bound_new [OF assms(2) dS False, of G rest] Suc.prems(5) Cons by (simp add: stack'_def)
      have inv: "\<forall>x \<in> set (d # visited). \<forall>x'. edge G x x' \<longrightarrow> x' \<in> set (d # visited) \<union> set stack'"
        using Suc.prems(6) Cons new by (fastforce simp: edge_def)
      have step: "walk_loop resolve nrefs visit (Suc fuel) visited stack c w =
          walk_loop resolve nrefs visit fuel (d # visited) stack' c' w2"
        using Cons live False res c' by (simp add: Let_def stack'_def)
      from Suc.IH [OF res(3) sub _ _ bound inv, of c'] Suc.prems(3,4) dS False
      obtain order w' where o: "walk_loop resolve nrefs visit fuel (d # visited) stack' c' w2 =
          Some ((Inr (), fold (\<lambda>d c. snd (visit d (N d) (G d) c)) order c'), w')" "I w'"
        "distinct (rev order @ d # visited)" "set order \<subseteq> S" "set stack' \<subseteq> set order \<union> set (d # visited)"
        "\<forall>x \<in> set order \<union> set (d # visited). \<forall>x'. edge G x x' \<longrightarrow> x' \<in> set order \<union> set (d # visited)"
        by auto
      show ?thesis
        using o step c' dS new Cons by (intro exI [of _ "d # order"] exI [of _ w']) auto
    qed
  qed
qed


lemma walk_total:
  assumes "resolves I resolve nrefs N G (reach G roots)" "finite (reach G roots)" "I w"
    and "\<And>d c. d \<in> reach G roots \<Longrightarrow> fst (visit d (N d) (G d) c) = None"
    and "walk_bound G (reach G roots) [] (walk_roots roots) \<le> fuel"
  shows "\<exists>order w'. WalkDigests fuel resolve nrefs roots visit c w =
      Some ((Inr (), fold (\<lambda>d c. snd (visit d (N d) (G d) c)) order c), w') \<and> I w' \<and>
      distinct order \<and> set order = reach G roots"
proof -
  have sub: "set (walk_roots roots) \<subseteq> reach G roots" by (auto simp: walk_roots_def intro: reach_root)
  have closed: "\<forall>d \<in> reach G roots. \<forall>d'. edge G d d' \<longrightarrow> d' \<in> reach G roots"
    using reach_step by blast
  from walk_loop_total [of I resolve nrefs N G "reach G roots" visit w "walk_roots roots" "[]" fuel c,
      OF assms(1,2,4) closed assms(3) sub] assms(5)
  obtain order w' where o: "walk_loop resolve nrefs visit fuel [] (walk_roots roots) c w =
      Some ((Inr (), fold (\<lambda>d c. snd (visit d (N d) (G d) c)) order c), w')" "I w'"
    "distinct order" "set order \<subseteq> reach G roots" "set (walk_roots roots) \<subseteq> set order"
    "\<forall>d \<in> set order. \<forall>d'. edge G d d' \<longrightarrow> d' \<in> set order" by auto
  have "reach G roots \<subseteq> set order"
    using o(5,6) by (intro reach_least) (auto simp: walk_roots_def)
  moreover have "ctx_Err w = (Inr (), w)" using resolvesD(1) [OF assms(1,3)] by simp
  ultimately show ?thesis
    using o by (intro exI [of _ order] exI [of _ w']) (auto simp: WalkDigests_def)
qed

text \<open>The set \<open>Reachable\<close> builds.\<close>

lemma fold_reachable_lookup:
  "map_lookup (fold (\<lambda>d m. AList.update (Digest_String d) True m) order m) k \<longleftrightarrow>
     (\<exists>d \<in> set order. k = Digest_String d) \<or> map_lookup m k"
  by (induction order arbitrary: m) (auto simp: map_lookup_def split: option.splits)

lemma Reachable_total:
  assumes "\<And>w. I w \<Longrightarrow> ectx w = Live"
    and "\<And>d w. d \<in> reach G roots \<Longrightarrow> I w \<Longrightarrow>
      \<exists>ro w'. lister d w = (Inr ro, w') \<and> (case ro of None \<Rightarrow> [] | Some rs \<Rightarrow> rs) = G d \<and> I w'"
    and "finite (reach G roots)" "I w"
    and "walk_bound G (reach G roots) [] (walk_roots roots) \<le> fuel"
  shows "\<exists>m w'. Reachable fuel lister roots w = Some (Inr m, w') \<and> I w' \<and>
    (\<forall>d. map_lookup m (Digest_String d) \<longleftrightarrow> d \<in> reach G roots)"
proof -
  let ?resolve = "\<lambda>d. bnd (wrapping ''cas: reachable: expand'' (lister d)) (\<lambda>direct. ret (None :: unit option, direct))"
  let ?visit = "\<lambda>d _ _ reachable. (None, AList.update (Digest_String d) True reachable)
    :: err option \<times> (string \<times> bool) list"
  have "\<exists>ro w'. ?resolve d w = (Inr (None, ro), w') \<and> eff_refs (\<lambda>_. []) None ro = G d \<and> I w'"
    if "d \<in> reach G roots" "I w" for d w
  proof -
    from assms(2) [OF that] obtain ro w' where "lister d w = (Inr ro, w')" "I w'"
      "(case ro of None \<Rightarrow> [] | Some rs \<Rightarrow> rs) = G d" by blast
    then show ?thesis
      by (intro exI [of _ ro] exI [of _ w'])
        (auto simp: bnd_def wrapping_def ret_def eff_refs_def split: option.splits)
  qed
  then have res: "resolves I ?resolve (\<lambda>_. []) (\<lambda>_. None) G (reach G roots)"
    using assms(1) by (auto simp: resolves_def)
  from walk_total [OF res assms(3,4) _ assms(5), of ?visit "[]"] obtain order w' where
    o: "WalkDigests fuel ?resolve (\<lambda>_. []) roots ?visit [] w =
      Some ((Inr (), fold (\<lambda>d m. AList.update (Digest_String d) True m) order []), w')" "I w'"
    "set order = reach G roots" by auto
  then show ?thesis
    by (intro exI [of _ "fold (\<lambda>d m. AList.update (Digest_String d) True m) order []"] exI [of _ w'])
      (simp add: Reachable_def fold_reachable_lookup map_lookup_def [of "[]"])
qed

text \<open>
  The typed walker over a store: the graph it walks is the one the stored objects describe.
\<close>

lemma Walker_total:
  assumes "\<And>w. I w \<Longrightarrow> ectx w = Live"
    and "\<And>d w. d \<in> reach G [root] \<Longrightarrow> I w \<Longrightarrow> \<exists>w'. Store_Get s d w = (Inr (ob d), w') \<and> I w'"
    and "\<And>d. d \<in> reach G [root] \<Longrightarrow> o_References (s_obj s) (ob d) = G d"
    and "\<And>d c. d \<in> reach G [root] \<Longrightarrow> fst (visit (ob d) c) = None"
    and "finite (reach G [root])" "I w"
    and "walk_bound G (reach G [root]) [] (walk_roots [root]) \<le> fuel"
  shows "\<exists>order w'. Walker_Walk fuel s visit root c w =
      Some ((Inr (), fold (\<lambda>d c. snd (visit (ob d) c)) order c), w') \<and> I w' \<and>
      distinct order \<and> set order = reach G [root]"
proof -
  let ?resolve = "\<lambda>cur. bnd (Store_Get s cur) (\<lambda>obj. ret (Some obj, None))"
  let ?visit = "\<lambda>_ node _ c. case node of Some obj \<Rightarrow> visit obj c | None \<Rightarrow> (None, c)"
  have "\<exists>ro w'. ?resolve d w = (Inr (Some (ob d), ro), w') \<and>
      eff_refs (o_References (s_obj s)) (Some (ob d)) ro = G d \<and> I w'"
    if "d \<in> reach G [root]" "I w" for d w
    using assms(2) [OF that] assms(3) [OF that(1)] by (auto simp: bnd_def ret_def eff_refs_def)
  then have res: "resolves I ?resolve (o_References (s_obj s)) (\<lambda>d. Some (ob d)) G (reach G [root])"
    using assms(1) by (auto simp: resolves_def)
  from walk_total [OF res assms(5,6) _ assms(7), of ?visit c] assms(4) show ?thesis
    by (auto simp: Walker_Walk_def)
qed

end
