(* ===== verification/Cas_Sweep.thy ===== *)
theory Cas_Sweep
  imports Cas_Walk
begin

text \<open>
  \<open>src/cas/sweep.go\<close>: mark-and-sweep reclamation over any backend. The first pass collects the
  unreachable, addressable and old enough digests, the second deletes them; a dry run stops
  between the two. \<open>reachable\<close> is the lookup in the caller's map, \<open>now\<close> the reading of the clock.

  Shown: a sweep never removes a reachable object, whatever fails and whenever the context is
  cancelled; what a completed sweep reports and removes is exactly the set of candidates; a dry run
  reports the same set and changes nothing.
\<close>

record SweepOptions =
  MinAge :: int
  DryRun :: bool

text \<open>\<open>time.Time.Sub\<close> saturates at the range of a 64-bit duration.\<close>

definition time_Sub :: "int \<Rightarrow> int \<Rightarrow> int" where
  "time_Sub t u = max (- (2 ^ 63)) (min (2 ^ 63 - 1) (t - u))"

text \<open>The verdict on one listed digest: \<open>True\<close> when it is to be deleted.\<close>

definition sweep_age :: "(digest \<Rightarrow> ('b, int) act) option \<Rightarrow> int \<Rightarrow> int \<Rightarrow> digest \<Rightarrow> ('b, bool) act" where
  "sweep_age statter now minAge d =
     (case statter of
        None \<Rightarrow> ret True
      | Some modTime \<Rightarrow>
          catch (bnd (modTime d) (\<lambda>mt. ret (\<not> time_Sub now mt < minAge)))
            (\<lambda>e. if errors_Is e ErrNotFound then ret False
                 else if errors_Is e ErrInvalidDigest then ret False
                 else fail e))"

definition sweep_one ::
  "'b backend \<Rightarrow> (digest \<Rightarrow> ('b, int) act) option \<Rightarrow> int \<Rightarrow> int \<Rightarrow> (string \<Rightarrow> bool) \<Rightarrow> digest \<Rightarrow> ('b, bool) act" where
  "sweep_one be statter now minAge reachable d =
     bnd ctx_Err (\<lambda>_.
       if reachable (Digest_String d) then ret False
       else
         bnd (catch (b_Exists be d)
                (\<lambda>e. if errors_Is e ErrInvalidDigest then ret False else fail e)) (\<lambda>exists1.
           if \<not> exists1 then ret False else sweep_age statter now minAge d))"

fun sweep_collect ::
  "'b backend \<Rightarrow> (digest \<Rightarrow> ('b, int) act) option \<Rightarrow> int \<Rightarrow> int \<Rightarrow> (string \<Rightarrow> bool) \<Rightarrow> digest list \<Rightarrow>
   ('b, digest list) act" where
  "sweep_collect be statter now minAge reachable [] = ret []"
| "sweep_collect be statter now minAge reachable (d # ds) =
     bnd (sweep_one be statter now minAge reachable d) (\<lambda>doom.
     bnd (sweep_collect be statter now minAge reachable ds) (\<lambda>doomed.
       ret (if doom then d # doomed else doomed)))"

fun sweep_delete :: "'b backend \<Rightarrow> digest list \<Rightarrow> ('b, unit) act" where
  "sweep_delete be [] = ret ()"
| "sweep_delete be (d # ds) =
     bnd ctx_Err (\<lambda>_. bnd (b_Delete be d) (\<lambda>_. sweep_delete be ds))"

text \<open>A backend is a \<open>Statter\<close> when it has both methods of that interface.\<close>

definition as_Statter :: "'b backend \<Rightarrow> (digest \<Rightarrow> ('b, int) act) option" where
  "as_Statter be = (if b_Size be \<noteq> None then b_ModTime be else None)"

definition Sweep ::
  "int \<Rightarrow> 'b backend option \<Rightarrow> (string \<Rightarrow> bool) \<Rightarrow> SweepOptions \<Rightarrow> ('b, digest list) act" where
  "Sweep now beo reachable opts =
     (case beo of
        None \<Rightarrow> fail (ErrorsNew ''cas: sweep: nil backend'')
      | Some be \<Rightarrow>
          if MinAge opts > 0 \<and> as_Statter be = None
          then fail (Errorf ''age-based sweep requires Statter'' [ErrUnsupported])
          else
            (let statter = (if MinAge opts > 0 then as_Statter be else None) in
             bnd (b_List be) (\<lambda>digests.
             bnd (sweep_collect be statter now (MinAge opts) reachable digests) (\<lambda>doomed.
               if DryRun opts then ret doomed
               else bnd (sweep_delete be doomed) (\<lambda>_. ret doomed)))))"

section \<open>Safety\<close>

text \<open>
  \<open>keeps_objects I A m\<close>: from a state that satisfies \<open>I\<close>, the action \<open>m\<close> keeps \<open>I\<close> and the
  abstraction \<open>A\<close> of the state, whatever it answers.
\<close>

definition keeps_objects :: "('b \<Rightarrow> bool) \<Rightarrow> ('b \<Rightarrow> 'm) \<Rightarrow> ('b, 'c) act \<Rightarrow> bool" where
  "keeps_objects I A m \<longleftrightarrow> (\<forall>w x w'. I (est w) \<longrightarrow> m w = (x, w') \<longrightarrow> I (est w') \<and> A (est w') = A (est w))"

lemma keeps_objectsD: "keeps_objects I A m \<Longrightarrow> m w = (x, w') \<Longrightarrow> I (est w) \<Longrightarrow>
    I (est w') \<and> A (est w') = A (est w)"
  by (auto simp: keeps_objects_def)

lemma keeps_objects_basic:
  "keeps_objects I A (ret x)" "keeps_objects I A (fail e)" "keeps_objects I A (when_err eo)"
  "keeps_objects I A (of_result r)" "keeps_objects I A ctx_Err"
  by (auto simp: keeps_objects_def ret_def fail_def when_err_def of_result_def dest: ctx_Err_estD
      split: option.splits)

lemma keeps_objects_bnd:
  assumes "keeps_objects I A m" "\<And>x. keeps_objects I A (f x)"
  shows "keeps_objects I A (bnd m f)"
  unfolding keeps_objects_def
proof (intro allI impI)
  fix w x w' assume I: "I (est w)" and run: "bnd m f w = (x, w')"
  obtain y w1 where y: "m w = (y, w1)" by fastforce
  note k = keeps_objectsD [OF assms(1) y I]
  show "I (est w') \<and> A (est w') = A (est w)"
  proof (cases y)
    case (Inr v)
    with run y have "f v w1 = (x, w')" by (simp add: bnd_def)
    from keeps_objectsD [OF assms(2) this] k show ?thesis by simp
  qed (use run y k in \<open>simp add: bnd_def\<close>)
qed

lemma keeps_objects_catch:
  assumes "keeps_objects I A m" "\<And>x. keeps_objects I A (f x)"
  shows "keeps_objects I A (catch m f)"
  unfolding keeps_objects_def
proof (intro allI impI)
  fix w x w' assume I: "I (est w)" and run: "catch m f w = (x, w')"
  obtain y w1 where y: "m w = (y, w1)" by fastforce
  note k = keeps_objectsD [OF assms(1) y I]
  show "I (est w') \<and> A (est w') = A (est w)"
  proof (cases y)
    case (Inl e)
    with run y have "f e w1 = (x, w')" by (simp add: catch_def)
    from keeps_objectsD [OF assms(2) this] k show ?thesis by simp
  qed (use run y k in \<open>simp add: catch_def\<close>)
qed

lemma keeps_objects_if:
  "keeps_objects I A m \<Longrightarrow> keeps_objects I A n \<Longrightarrow> keeps_objects I A (if b then m else n)"
  by simp

lemmas keeps_objects_intros = keeps_objects_basic keeps_objects_bnd keeps_objects_catch keeps_objects_if

locale sweeper = backend_contract
begin

lemma keeps_objects_backend:
  "keeps_objects inv abs (b_Get be d)" "keeps_objects inv abs (b_Exists be d)" "keeps_objects inv abs (b_List be)"
  using get_frame exists_frame list_frame unfolding keeps_objects_def by blast+

lemma sweep_age_keeps:
  assumes "statter = None \<or> statter = b_ModTime be"
  shows "keeps_objects inv abs (sweep_age statter now minAge d)"
proof (cases statter)
  case (Some mt)
  with assms have "keeps_objects inv abs (mt d)" using modtime_frame [of mt] by (auto simp: keeps_objects_def)
  then show ?thesis
    using Some by (simp add: sweep_age_def) (intro keeps_objects_intros, assumption)
qed (simp add: sweep_age_def keeps_objects_basic)

lemma sweep_one_keeps:
  "statter = None \<or> statter = b_ModTime be \<Longrightarrow> keeps_objects inv abs (sweep_one be statter now minAge reachable d)"
  unfolding sweep_one_def by (intro keeps_objects_intros keeps_objects_backend sweep_age_keeps)

lemma sweep_collect_keeps:
  "statter = None \<or> statter = b_ModTime be \<Longrightarrow> keeps_objects inv abs (sweep_collect be statter now minAge reachable ds)"
  by (induction ds) (simp_all add: keeps_objects_intros sweep_one_keeps)

lemma sweep_one_sound:
  assumes "inv (est w)" "sweep_one be statter now minAge reachable d w = (Inr True, w')"
  shows "\<not> reachable (Digest_String d) \<and> abs (est w) d \<noteq> None"
proof -
  from assms(2) obtain w1 w2 where c: "ctx_Err w = (Inr (), w1)" and r: "\<not> reachable (Digest_String d)"
    and ex: "b_Exists be d w1 = (Inr True, w2)"
    by (auto simp: sweep_one_def bnd_ok catch_def ret_def fail_def split: if_splits sum.splits prod.splits)
  have est: "est w1 = est w" using c by (rule ctx_Err_estD)
  with exists_ok [OF _ ex] assms(1) r show ?thesis by simp
qed

lemma sweep_collect_sound:
  assumes "statter = None \<or> statter = b_ModTime be" "inv (est w)"
    and "sweep_collect be statter now minAge reachable ds w = (Inr doomed, w')"
  shows "set doomed \<subseteq> {d \<in> set ds. \<not> reachable (Digest_String d) \<and> abs (est w) d \<noteq> None} \<and>
    (distinct ds \<longrightarrow> distinct doomed)"
  using assms(2,3)
proof (induction ds arbitrary: doomed w)
  case (Cons d ds)
  from Cons.prems(2) obtain b w1 rest where
    one: "sweep_one be statter now minAge reachable d w = (Inr b, w1)" and
    more: "sweep_collect be statter now minAge reachable ds w1 = (Inr rest, w')" and
    res: "doomed = (if b then d # rest else rest)"
    by (auto simp: bnd_ok)
  have k: "inv (est w1)" "abs (est w1) = abs (est w)"
    using keeps_objectsD [OF sweep_one_keeps [OF assms(1)] one Cons.prems(1)] by simp_all
  have "b \<Longrightarrow> \<not> reachable (Digest_String d) \<and> abs (est w) d \<noteq> None"
    using sweep_one_sound [OF Cons.prems(1), of statter now minAge reachable d w1] one by (cases b) auto
  with Cons.IH [OF k(1) more] k(2) res show ?case by auto
qed simp

text \<open>Deleting a list of digests touches nothing else, even when it stops half-way.\<close>

lemma sweep_delete_safe:
  assumes "inv (est w)" "sweep_delete be ds w = (x, w')"
  shows "inv (est w') \<and> (\<forall>d. d \<notin> set ds \<longrightarrow> abs (est w') d = abs (est w) d) \<and>
    (is_ok x \<longrightarrow> (\<forall>d \<in> set ds. abs (est w') d = None))"
  using assms
proof (induction ds arbitrary: w)
  case (Cons d ds)
  obtain y w1 where c: "ctx_Err w = (y, w1)" by fastforce
  then have est: "est w1 = est w" by (rule ctx_Err_estD)
  then have inv1: "inv (est w1)" using Cons.prems(1) by simp
  obtain z w2 where z: "b_Delete be d w1 = (z, w2)" by fastforce
  note d_inv = delete_inv [OF inv1 z]
  show ?case
  proof (cases "is_ok y \<and> is_ok z")
    case True
    then have ok: "b_Delete be d w1 = (Inr (), w2)" using z by (auto simp: is_ok_iff)
    have "sweep_delete be ds w2 = (x, w')"
      using Cons.prems(2) c z True by (auto simp: bnd_def is_ok_iff)
    from Cons.IH [OF d_inv this] delete_ok [OF inv1 ok] est show ?thesis
      by auto
  next
    case False
    then have "(x = y \<or> x = z) \<and> \<not> is_ok x \<and> (w' = w1 \<or> (w' = w2 \<and> \<not> is_ok z))"
      using Cons.prems(2) c z by (auto simp: bnd_def is_ok_iff split: sum.splits)
    moreover have "abs (est w2) = abs (est w1)" if "\<not> is_ok z"
      using that delete_err [OF inv1] z by (cases z) auto
    ultimately show ?thesis using est inv1 d_inv by auto
  qed
qed (auto simp: ret_def)

lemma sweep_delete_steps:
  assumes "inv (est w)" "sweep_delete be ds w = (x, w')"
  shows "abs (est w') d = abs (est w) d \<or> abs (est w') d = None"
  using assms
proof (induction ds arbitrary: w)
  case (Cons k ds)
  obtain y w1 where c: "ctx_Err w = (y, w1)" by fastforce
  then have est: "est w1 = est w" by (rule ctx_Err_estD)
  then have inv1: "inv (est w1)" using Cons.prems(1) by simp
  obtain z w2 where z: "b_Delete be k w1 = (z, w2)" by fastforce
  show ?case
  proof (cases "is_ok y \<and> is_ok z")
    case True
    then have ok: "b_Delete be k w1 = (Inr (), w2)" using z by (auto simp: is_ok_iff)
    have "sweep_delete be ds w2 = (x, w')"
      using Cons.prems(2) c z True by (auto simp: bnd_def is_ok_iff)
    from Cons.IH [OF delete_inv [OF inv1 z] this] delete_ok [OF inv1 ok] est show ?thesis
      by (auto split: if_splits)
  next
    case False
    then have "w' = w1 \<or> (w' = w2 \<and> \<not> is_ok z)"
      using Cons.prems(2) c z by (auto simp: bnd_def is_ok_iff split: sum.splits)
    moreover have "abs (est w2) = abs (est w1)" if "\<not> is_ok z"
      using that delete_err [OF inv1] z by (cases z) auto
    ultimately show ?thesis using est by auto
  qed
qed (auto simp: ret_def)

text \<open>
  A sweep removes no reachable object and adds none, whatever it answers; what it reports was
  stored and unreachable; a dry run removes nothing.
\<close>

lemma Sweep_safe:
  assumes "inv (est w)" "Sweep now (Some be) reachable opts w = (x, w')"
  shows "inv (est w')"
    and "\<And>d. reachable (Digest_String d) \<Longrightarrow> abs (est w') d = abs (est w) d"
    and "\<And>d. abs (est w') d = abs (est w) d \<or> abs (est w') d = None"
    and "\<And>doomed. x = Inr doomed \<Longrightarrow> (\<forall>d \<in> set doomed. \<not> reachable (Digest_String d) \<and> abs (est w) d \<noteq> None)"
    and "\<And>doomed. x = Inr doomed \<Longrightarrow> \<not> DryRun opts \<Longrightarrow> abs (est w') = (abs (est w)) |` (- set doomed)"
    and "DryRun opts \<Longrightarrow> abs (est w') = abs (est w)"
proof -
  define statter where "statter = (if MinAge opts > 0 then as_Statter be else None)"
  have st: "statter = None \<or> statter = b_ModTime be" by (auto simp: statter_def as_Statter_def)
  have all: "inv (est w') \<and> (\<forall>d. reachable (Digest_String d) \<longrightarrow> abs (est w') d = abs (est w) d) \<and>
    (\<forall>d. abs (est w') d = abs (est w) d \<or> abs (est w') d = None) \<and>
    (\<forall>doomed. x = Inr doomed \<longrightarrow>
      (\<forall>d \<in> set doomed. \<not> reachable (Digest_String d) \<and> abs (est w) d \<noteq> None) \<and>
      (\<not> DryRun opts \<longrightarrow> abs (est w') = (abs (est w)) |` (- set doomed))) \<and>
    (DryRun opts \<longrightarrow> abs (est w') = abs (est w))"
  proof (cases "MinAge opts > 0 \<and> as_Statter be = None")
    case True
    with assms show ?thesis by (auto simp: Sweep_def fail_def)
  next
    case False
    obtain l w1 where l: "b_List be w = (l, w1)" by fastforce
    note k1 = list_frame [OF assms(1) l]
    show ?thesis
    proof (cases l)
      case (Inl e)
      with False l assms k1 show ?thesis by (auto simp: Sweep_def bnd_def Let_def)
    next
      case (Inr ds)
      obtain c w2 where c: "sweep_collect be statter now (MinAge opts) reachable ds w1 = (c, w2)" by fastforce
      have k2: "inv (est w2)" "abs (est w2) = abs (est w)"
        using keeps_objectsD [OF sweep_collect_keeps [OF st] c] k1 by simp_all
      show ?thesis
      proof (cases c)
        case (Inl e)
        with False l Inr c k2 assms(2) show ?thesis
          by (auto simp: Sweep_def bnd_def Let_def statter_def)
      next
        case dm: (Inr doomed)
        have sound: "set doomed \<subseteq> {d. \<not> reachable (Digest_String d) \<and> abs (est w) d \<noteq> None}"
          using sweep_collect_sound [OF st _ c [unfolded dm]] k1 by auto
        show ?thesis
        proof (cases "DryRun opts")
          case True
          with False l Inr c dm k2 assms(2) sound show ?thesis
            by (auto simp: Sweep_def bnd_def ret_def Let_def statter_def)
        next
          case real: False
          obtain y w3 where y: "sweep_delete be doomed w2 = (y, w3)" by fastforce
          note del = sweep_delete_safe [OF k2(1) y]
          have res: "w' = w3" "x = (case y of Inl e \<Rightarrow> Inl e | Inr _ \<Rightarrow> Inr doomed)"
            using False l Inr c dm real y assms(2)
            by (auto simp: Sweep_def bnd_def ret_def Let_def statter_def split: sum.splits)
          have part: "abs (est w') d = abs (est w) d \<or> abs (est w') d = None" for d
            using sweep_delete_steps [OF k2(1) y] res(1) k2(2) by metis
          show ?thesis
            using del res sound real k2 part
            by (auto simp: restrict_map_def fun_eq_iff split: sum.splits)
        qed
      qed
    qed
  qed
  then show "inv (est w')"
    and "\<And>d. reachable (Digest_String d) \<Longrightarrow> abs (est w') d = abs (est w) d"
    and "\<And>d. abs (est w') d = abs (est w) d \<or> abs (est w') d = None"
    and "\<And>doomed. x = Inr doomed \<Longrightarrow> (\<forall>d \<in> set doomed. \<not> reachable (Digest_String d) \<and> abs (est w) d \<noteq> None)"
    and "\<And>doomed. x = Inr doomed \<Longrightarrow> \<not> DryRun opts \<Longrightarrow> abs (est w') = (abs (est w)) |` (- set doomed)"
    and "DryRun opts \<Longrightarrow> abs (est w') = abs (est w)"
    by simp_all
qed

end

section \<open>Completeness\<close>

locale reliable_sweeper = sweeper be abs inv + reliable_backend be abs inv
  for be :: "'b backend" and abs :: "'b \<Rightarrow> digest \<Rightarrow> bytes option" and inv :: "'b \<Rightarrow> bool"
begin

text \<open>\<open>aged\<close>: on a live context the age check answers \<open>old d\<close> and disturbs nothing.\<close>

lemma sweep_collect_exact:
  assumes aged: "\<And>d w. inv (est w) \<Longrightarrow> ectx w = Live \<Longrightarrow> abs (est w) d \<noteq> None \<Longrightarrow>
      \<exists>w'. sweep_age statter now minAge d w = (Inr (old d), w') \<and> ectx w' = Live"
    and st: "statter = None \<or> statter = b_ModTime be"
    and "inv (est w)" "ectx w = Live" "[] \<notin> set ds"
  shows "\<exists>w'. sweep_collect be statter now minAge reachable ds w =
      (Inr (filter (\<lambda>d. \<not> reachable (Digest_String d) \<and> abs (est w) d \<noteq> None \<and> old d) ds), w') \<and>
      ectx w' = Live \<and> inv (est w') \<and> abs (est w') = abs (est w)"
  using assms(3-5)
proof (induction ds arbitrary: w)
  case (Cons d ds)
  have one: "\<exists>w1. sweep_one be statter now minAge reachable d w =
      (Inr (\<not> reachable (Digest_String d) \<and> abs (est w) d \<noteq> None \<and> old d), w1) \<and> ectx w1 = Live"
  proof (cases "reachable (Digest_String d)")
    case True
    with Cons.prems(2) show ?thesis by (simp add: sweep_one_def bnd_def ret_def)
  next
    case False
    from exists_value [OF Cons.prems(1,2)] Cons.prems(3) obtain w1 where
      ex: "b_Exists be d w = (Inr (abs (est w) d \<noteq> None), w1)" "ectx w1 = Live" "inv (est w1)"
      "abs (est w1) = abs (est w)" by (metis list.set_intros(1))
    with aged [OF ex(3,2), of d] False Cons.prems(2) show ?thesis
      by (cases "abs (est w) d") (auto simp: sweep_one_def bnd_def catch_def ret_def)
  qed
  then obtain w1 where w1: "sweep_one be statter now minAge reachable d w =
      (Inr (\<not> reachable (Digest_String d) \<and> abs (est w) d \<noteq> None \<and> old d), w1)" "ectx w1 = Live" by blast
  have k: "inv (est w1)" "abs (est w1) = abs (est w)"
    using keeps_objectsD [OF sweep_one_keeps [OF st] w1(1) Cons.prems(1)] by simp_all
  from Cons.IH [OF k(1) w1(2)] Cons.prems(3) k(2) obtain w2 where
    "sweep_collect be statter now minAge reachable ds w1 =
      (Inr (filter (\<lambda>d. \<not> reachable (Digest_String d) \<and> abs (est w) d \<noteq> None \<and> old d) ds), w2)"
    "ectx w2 = Live" "inv (est w2)" "abs (est w2) = abs (est w)" by auto
  with w1(1) show ?case by (simp add: bnd_def ret_def)
qed (simp add: ret_def)

lemma sweep_delete_live:
  "inv (est w) \<Longrightarrow> ectx w = Live \<Longrightarrow> [] \<notin> set ds \<Longrightarrow> \<exists>w'. sweep_delete be ds w = (Inr (), w') \<and> ectx w' = Live"
proof (induction ds arbitrary: w)
  case (Cons d ds)
  from delete_value [OF Cons.prems(1,2), of d] Cons.prems(3) obtain w1 where
    "b_Delete be d w = (Inr (), w1)" "ectx w1 = Live" "inv (est w1)" by (metis list.set_intros(1))
  with Cons show ?case by (simp add: bnd_def)
qed (simp add: ret_def)

lemma Sweep_exact:
  assumes "inv (est w)" "ectx w = Live" "\<not> MinAge opts > 0"
  shows "\<exists>doomed w'. Sweep now (Some be) reachable opts w = (Inr doomed, w') \<and> ectx w' = Live \<and>
    set doomed = {d. abs (est w) d \<noteq> None \<and> \<not> reachable (Digest_String d)} \<and>
    abs (est w') = (if DryRun opts then abs (est w)
      else (abs (est w)) |` {d. reachable (Digest_String d)})"
proof -
  from list_live [OF assms(1,2)] obtain ds w1 where l: "b_List be w = (Inr ds, w1)" "set ds = dom (abs (est w))"
    "ectx w1 = Live" by blast
  have k1: "inv (est w1)" "abs (est w1) = abs (est w)" using list_frame [OF assms(1) l(1)] by simp_all
  have ne: "[] \<notin> set ds" using l(2) absent_key [OF assms(1)] by auto
  define doomed where "doomed = filter (\<lambda>d. \<not> reachable (Digest_String d) \<and> abs (est w) d \<noteq> None \<and> True) ds"
  have dset: "set doomed = {d. abs (est w) d \<noteq> None \<and> \<not> reachable (Digest_String d)}"
    using l(2) by (auto simp: doomed_def)
  obtain w2 where c: "sweep_collect be None now (MinAge opts) reachable ds w1 = (Inr doomed, w2)"
    "ectx w2 = Live" "inv (est w2)" "abs (est w2) = abs (est w)"
    using sweep_collect_exact [of None now "MinAge opts" "\<lambda>_. True" w1 ds reachable] k1 l(3) ne
    unfolding doomed_def by (auto simp: sweep_age_def ret_def)
  have nd: "[] \<notin> set doomed" using ne by (simp add: doomed_def)
  from sweep_delete_live [OF c(3,2) nd] obtain w3 where d: "sweep_delete be doomed w2 = (Inr (), w3)" "ectx w3 = Live"
    by blast
  have run: "Sweep now (Some be) reachable opts w = (Inr doomed, if DryRun opts then w2 else w3)"
    using assms(3) l(1) c(1) d(1) by (simp add: Sweep_def bnd_def ret_def Let_def)
  have "abs (est (if DryRun opts then w2 else w3)) = (if DryRun opts then abs (est w)
      else (abs (est w)) |` {d. reachable (Digest_String d)})"
    using Sweep_safe(5,6) [OF assms(1) run] dset
    by (auto simp: restrict_map_def fun_eq_iff)
  with run d(2) c(2) dset show ?thesis by auto
qed

end

end
