(* ===== verification/Cas_Verify.thy ===== *)
theory Cas_Verify
  imports Cas_Sweep
begin

text \<open>
  \<open>src/cas/verifier.go\<close> and \<open>src/cas/batch.go\<close>: re-hashing stored objects and reading many of
  them. A nil backend, hasher or callback is an option. \<open>VerifyAll\<close> returns its partial report
  together with the error, as the Go function does.

  Shown: on a live context the report lists exactly the stored objects whose bytes do not hash to
  their digest; neither operation changes an object; \<open>GetMany\<close> serves every digest in order with its
  bytes, or stops at the first error.
\<close>

section \<open>Verify\<close>

record Report =
  Checked :: nat
  Bad :: "digest list"

definition Verify :: "'b backend option \<Rightarrow> digest \<Rightarrow> hasher option \<Rightarrow> ('b, unit) act" where
  "Verify beo d ho =
     bnd ctx_Err (\<lambda>_.
       case beo of None \<Rightarrow> fail (ErrorsNew ''cas: verify: nil backend'') | Some be \<Rightarrow>
       bnd (when_err (CheckDigest d ''cas: verify'')) (\<lambda>_.
         case ho of None \<Rightarrow> fail (ErrorsNew ''cas: verify: nil hasher'') | Some h \<Rightarrow>
         bnd (when_err (h_Validate h d)) (\<lambda>_.
         bnd (b_Get be d) (\<lambda>rc.
         bnd (of_result (readThenClose rc (\<lambda>r. h_Digest h (reader.truncate r)) readWins
                (Some (wrap ''cas: verify read'')) (Some (wrap ''cas: verify close'')))) (\<lambda>actual.
           if \<not> Digest_Equal actual d then fail (Errorf (Digest_String d) [ErrDigestMismatch])
           else ret ())))))"

fun verify_loop ::
  "'b backend \<Rightarrow> hasher \<Rightarrow> digest list \<Rightarrow> Report \<Rightarrow> ('b, Report \<times> err option) act" where
  "verify_loop be h [] report w = (Inr (report, None), w)"
| "verify_loop be h (d # ds) report w =
     (case ctx_Err w of
        (Inl e, w1) \<Rightarrow> (Inr (report, Some e), w1)
      | (Inr _, w1) \<Rightarrow>
          (let report1 = report\<lparr>Checked := Checked report + 1\<rparr> in
           case Verify (Some be) d (Some h) w1 of
             (Inr _, w2) \<Rightarrow> verify_loop be h ds report1 w2
           | (Inl e, w2) \<Rightarrow>
               if errors_Is e ErrDigestMismatch
               then verify_loop be h ds (report1\<lparr>Bad := Bad report1 @ [d]\<rparr>) w2
               else (Inr (report1, Some (Errorf (''cas: verify all '' @ Digest_String d) [e])), w2)))"

definition VerifyAll :: "'b backend option \<Rightarrow> hasher option \<Rightarrow> ('b, Report \<times> err option) act" where
  "VerifyAll beo ho =
     (case beo of None \<Rightarrow> fail (ErrorsNew ''cas: verify all: nil backend'') | Some be \<Rightarrow>
      case ho of None \<Rightarrow> fail (ErrorsNew ''cas: verify all: nil hasher'') | Some h \<Rightarrow>
        bnd (b_List be) (\<lambda>digests. verify_loop be h digests \<lparr>Checked = 0, Bad = []\<rparr>))"

record 'b verifier =
  v_backend :: "'b backend option"
  v_hasher :: "hasher option"

definition NewVerifier :: "'b backend option \<Rightarrow> hasher option \<Rightarrow> 'b verifier" where
  "NewVerifier be h = \<lparr>v_backend = be, v_hasher = h\<rparr>"

definition Verifier_Verify :: "'b verifier \<Rightarrow> digest \<Rightarrow> ('b, unit) act" where
  "Verifier_Verify v d = Verify (v_backend v) d (v_hasher v)"

section \<open>GetMany\<close>

text \<open>
  The callback may keep state of its own, threaded as \<open>'c\<close>. A batch capability of the backend is
  an optional argument with the contract of \<open>GetMany\<close>.
\<close>

type_synonym 'c batch_fn = "digest \<Rightarrow> readcloser \<Rightarrow> 'c \<Rightarrow> err option \<times> 'c"

definition closeAfterFn :: "'c batch_fn \<Rightarrow> digest \<Rightarrow> readcloser \<Rightarrow> 'c \<Rightarrow> err option \<times> 'c" where
  "closeAfterFn fn d rc c =
     (let (fe, c') = fn d rc c in
      (case readThenClose rc (\<lambda>_. case fe of None \<Rightarrow> Inr () | Some e \<Rightarrow> Inl e) readWins None
           (Some (\<lambda>e. Errorf (''cas: get many: close '' @ Digest_String d) [e])) of
         Inl e \<Rightarrow> (Some e, c')
       | Inr _ \<Rightarrow> (None, c')))"

fun getManyEach :: "'b backend \<Rightarrow> digest list \<Rightarrow> 'c batch_fn \<Rightarrow> 'c \<Rightarrow> 'b env \<Rightarrow> (unit result \<times> 'c) \<times> 'b env" where
  "getManyEach be [] fn c w = ((Inr (), c), w)"
| "getManyEach be (d # ds) fn c w =
     (case ctx_Err w of
        (Inl e, w1) \<Rightarrow> ((Inl e, c), w1)
      | (Inr _, w1) \<Rightarrow>
          (case CheckDigest d ''cas: get many'' of
             Some e \<Rightarrow> ((Inl e, c), w1)
           | None \<Rightarrow>
               (case b_Get be d w1 of
                  (Inl e, w2) \<Rightarrow> ((Inl (Errorf (''cas: get many: '' @ Digest_String d) [e]), c), w2)
                | (Inr rc, w2) \<Rightarrow>
                    (case closeAfterFn fn d rc c of
                       (Some e, c') \<Rightarrow> ((Inl e, c'), w2)
                     | (None, c') \<Rightarrow> getManyEach be ds fn c' w2))))"

definition GetMany ::
  "(digest list \<Rightarrow> 'c batch_fn \<Rightarrow> 'c \<Rightarrow> 'b env \<Rightarrow> (unit result \<times> 'c) \<times> 'b env) option \<Rightarrow> 'b backend option \<Rightarrow>
   digest list \<Rightarrow> 'c batch_fn option \<Rightarrow> 'c \<Rightarrow> 'b env \<Rightarrow> (unit result \<times> 'c) \<times> 'b env" where
  "GetMany batch beo digests fno c w =
     (case beo of None \<Rightarrow> ((Inl (ErrorsNew ''cas: get many: nil backend''), c), w) | Some be \<Rightarrow>
      case fno of None \<Rightarrow> ((Inl (ErrorsNew ''cas: get many: nil fn''), c), w) | Some fn \<Rightarrow>
      case batch of
        Some getMany \<Rightarrow> getMany digests fn c w
      | None \<Rightarrow> getManyEach be digests fn c w)"

section \<open>Correctness\<close>

locale auditor = reliable_backend
begin

text \<open>The verdict on one stored object.\<close>

lemma Verify_value:
  assumes "inv (est w)" "ectx w = Live" "abs (est w) d = Some b" "hasher_law h H" "h_Validate h d = None"
  obtains w' where "ectx w' = Live" "inv (est w')" "abs (est w') = abs (est w)"
    "Verify (Some be) d (Some h) w =
      ((if H b = d then Inr () else Inl (Errorf (Digest_String d) [ErrDigestMismatch])), w')"
proof -
  have d: "d \<noteq> []" using assms(1,3) absent_key by auto
  from get_value [OF assms(1-3)] obtain rc w' where g: "b_Get be d w = (Inr rc, w')"
    "r_err rc = None" "rc_close rc = None" "r_data rc = b" "ectx w' = Live" "inv (est w')"
    "abs (est w') = abs (est w)" .
  have "h_Digest h (reader.truncate rc) = Inr (H b)"
    using assms(4) g by (simp add: hasher_law_def)
  then have "Verify (Some be) d (Some h) w =
      ((if H b = d then Inr () else Inl (Errorf (Digest_String d) [ErrDigestMismatch])), w')"
    using assms(2,5) d g
    by (simp add: Verify_def bnd_def when_err_def of_result_def ret_def fail_def
        readThenClose_no_close_error Digest_Equal_def)
  with g that show thesis by blast
qed

lemma verify_loop_exact:
  assumes "hasher_law h H" "inv (est w)" "ectx w = Live"
    and "\<forall>d \<in> set ds. abs (est w) d \<noteq> None \<and> h_Validate h d = None"
  shows "\<exists>w'. verify_loop be h ds rep w =
    (Inr (rep\<lparr>Checked := Checked rep + length ds,
              Bad := Bad rep @ filter (\<lambda>d. H (the (abs (est w) d)) \<noteq> d) ds\<rparr>, None), w') \<and>
    abs (est w') = abs (est w)"
  using assms(2-)
proof (induction ds arbitrary: rep w)
  case (Cons d ds)
  from Cons.prems(3) obtain b where b: "abs (est w) d = Some b" "h_Validate h d = None" by auto
  from Verify_value [OF Cons.prems(1,2) b(1) assms(1) b(2)] obtain w1 where
    v: "Verify (Some be) d (Some h) w =
      ((if H b = d then Inr () else Inl (Errorf (Digest_String d) [ErrDigestMismatch])), w1)"
    "ectx w1 = Live" "inv (est w1)" "abs (est w1) = abs (est w)" .
  let ?rep = "rep\<lparr>Checked := Checked rep + 1, Bad := Bad rep @ (if H b = d then [] else [d])\<rparr>"
  have "verify_loop be h (d # ds) rep w = verify_loop be h ds ?rep w1"
    using Cons.prems(2) v(1) by (auto simp: Let_def)
  with Cons.IH [OF v(3,2), of ?rep] Cons.prems(3) v(4) b(1) show ?case by auto
qed simp

lemma VerifyAll_exact:
  assumes "hasher_law h H" "inv (est w)" "ectx w = Live"
    and "\<forall>d. abs (est w) d \<noteq> None \<longrightarrow> h_Validate h d = None"
  shows "\<exists>rep w'. VerifyAll (Some be) (Some h) w = (Inr (rep, None), w') \<and> abs (est w') = abs (est w) \<and>
    Checked rep = card (dom (abs (est w))) \<and> distinct (Bad rep) \<and>
    set (Bad rep) = {d. \<exists>b. abs (est w) d = Some b \<and> H b \<noteq> d}"
proof -
  from list_live [OF assms(2,3)] obtain ds w1 where l: "b_List be w = (Inr ds, w1)"
    "set ds = dom (abs (est w))" "distinct ds" "ectx w1 = Live" by blast
  have k: "inv (est w1)" "abs (est w1) = abs (est w)" using list_frame [OF assms(2) l(1)] by simp_all
  have "\<forall>d \<in> set ds. abs (est w1) d \<noteq> None \<and> h_Validate h d = None"
    using l(2) k(2) assms(4) by auto
  from verify_loop_exact [OF assms(1) k(1) l(4) this, of "\<lparr>Checked = 0, Bad = []\<rparr>"] k(2)
  obtain w2 where v: "verify_loop be h ds \<lparr>Checked = 0, Bad = []\<rparr> w1 =
    (Inr (\<lparr>Checked = length ds, Bad = filter (\<lambda>d. H (the (abs (est w) d)) \<noteq> d) ds\<rparr>, None), w2)"
    "abs (est w2) = abs (est w)" by auto
  have "VerifyAll (Some be) (Some h) w =
    (Inr (\<lparr>Checked = length ds, Bad = filter (\<lambda>d. H (the (abs (est w) d)) \<noteq> d) ds\<rparr>, None), w2)"
    using l(1) v(1) by (simp add: VerifyAll_def bnd_def)
  with v(2) l(2,3) show ?thesis
    by (auto simp: distinct_card [symmetric] intro!: exI [of _ w2])
qed

text \<open>The default batch: every digest in order, its own bytes, and the callback's state folded along.\<close>

lemma getManyEach_serves:
  assumes "inv (est w)" "ectx w = Live" "\<forall>d \<in> set ds. abs (est w) d \<noteq> None"
    and "\<And>d rc c. fst (fn d rc c) = None" "\<And>d rc rc' c. r_data rc = r_data rc' \<Longrightarrow> fn d rc c = fn d rc' c"
  shows "\<exists>w'. getManyEach be ds fn c w =
    ((Inr (), fold (\<lambda>d c. snd (fn d (nop_closer (the (abs (est w) d))) c)) ds c), w') \<and>
    abs (est w') = abs (est w)"
  using assms(1-3)
proof (induction ds arbitrary: c w)
  case (Cons d ds)
  from Cons.prems(3) obtain b where b: "abs (est w) d = Some b" by auto
  have d: "d \<noteq> []" using Cons.prems(1) b absent_key by auto
  from get_value [OF Cons.prems(1,2) b] obtain rc w1 where g: "b_Get be d w = (Inr rc, w1)"
    "r_err rc = None" "rc_close rc = None" "r_data rc = b" "ectx w1 = Live" "inv (est w1)"
    "abs (est w1) = abs (est w)" .
  have f: "fn d rc c = (None, snd (fn d (nop_closer b) c))"
    using assms(4) assms(5) [of rc "nop_closer b"] g(4) by (metis prod.collapse r_data_nop_closer)
  then have "closeAfterFn fn d rc c = (None, snd (fn d (nop_closer b) c))"
    using g(3) by (simp add: closeAfterFn_def readThenClose_no_close_error)
  then have "getManyEach be (d # ds) fn c w = getManyEach be ds fn (snd (fn d (nop_closer b) c)) w1"
    using Cons.prems(2) d g(1) by simp
  with Cons.IH [OF g(6,5), of "snd (fn d (nop_closer b) c)"] Cons.prems(3) g(7) b show ?case by simp
qed simp

end

end
