(* ===== verification/Mem_Backend.thy ===== *)
theory Mem_Backend
  imports Cas_Backend
begin

text \<open>
  \<open>src/cas/backend/mem/mem.go\<close>: the in-memory backend. Its state is the object map, the
  configured cap and the byte counter; every method is one definition. Keys are the raw digest
  bytes, so \<open>string(d)\<close> is the digest itself.

  Integers: \<open>usedBytes\<close> counts bytes that are resident in the process, so neither it nor the
  differences the methods form can leave the \<open>int64\<close> range (lemma \<open>mem_arith_in_range\<close>). The one
  expression that can wrap is \<open>budget+1\<close> at a cap of \<open>math.MaxInt64\<close>; it is written with the
  wrap-around \<open>wrap64\<close>.

  Shown: the accounting invariant and the cap are kept by every method, every method implements
  the contract of the backend interface (interpretation \<open>mem\<close>), a put over the cap changes
  nothing, and what can happen when the two critical sections of a put interleave with other
  methods.
\<close>

section \<open>State and methods\<close>

record mem_state =
  objects :: "(digest \<times> bytes) list"
  maxBytes :: int
  usedBytes :: int

definition mem_New :: "int \<Rightarrow> mem_state" where
  "mem_New cap = \<lparr>objects = [], maxBytes = cap, usedBytes = 0\<rparr>"

text \<open>\<open>len(m.objects[key])\<close>: zero for a key that is not in the map.\<close>

definition object_len :: "mem_state \<Rightarrow> digest \<Rightarrow> int" where
  "object_len m key = (case map_of (objects m) key of None \<Rightarrow> 0 | Some old \<Rightarrow> int (length old))"

definition mem_budget :: "digest \<Rightarrow> mem_state \<Rightarrow> int \<times> bool" where
  "mem_budget key m =
     (if maxBytes m \<le> 0 then (0, False)
      else (max (maxBytes m - (usedBytes m - object_len m key)) 0, True))"

definition mem_store :: "digest \<Rightarrow> bytes \<Rightarrow> mem_state \<Rightarrow> err option \<times> mem_state" where
  "mem_store key data m =
     (let added = int (length data) - object_len m key in
      if maxBytes m > 0 \<and> usedBytes m + added > maxBytes m
      then (Some (ErrorsNew ''cas: memory backend would exceed max size''), m)
      else (None, m\<lparr>objects := AList.update key data (objects m), usedBytes := usedBytes m + added\<rparr>))"

definition mem_store_act :: "digest \<Rightarrow> bytes \<Rightarrow> (mem_state, unit) act" where
  "mem_store_act key data =
     bnd get_st (\<lambda>m. case mem_store key data m of
         (Some e, _) \<Rightarrow> fail e
       | (None, m') \<Rightarrow> put_st m')"

text \<open>The read of a put: limited to one byte past the budget, unless the budget is the ceiling.\<close>

definition mem_buffer :: "int \<times> bool \<Rightarrow> reader \<Rightarrow> ('b, bytes) act" where
  "mem_buffer bc r =
     (if snd bc \<and> fst bc < MaxInt64
      then wrapping ''cas: buffer object'' (ContextReader_ReadAll (io_LimitReader r (wrap64 (fst bc + 1))))
      else wrapping ''cas: buffer object'' (ReadWhole r 0))"

definition mem_Put :: "digest \<Rightarrow> reader \<Rightarrow> (mem_state, unit) act" where
  "mem_Put d r =
     bnd ctx_Err (\<lambda>_.
     bnd (when_err (CheckDigest d ''mem: put'')) (\<lambda>_.
     bnd get_st (\<lambda>m.
     bnd (mem_buffer (mem_budget d m) r) (\<lambda>data.
       mem_store_act d data))))"

definition mem_Get :: "digest \<Rightarrow> (mem_state, readcloser) act" where
  "mem_Get d =
     bnd ctx_Err (\<lambda>_.
     bnd (when_err (CheckDigest d ''mem: get'')) (\<lambda>_.
     bnd get_st (\<lambda>m.
       case map_of (objects m) d of
         None \<Rightarrow> fail (Errorf (Digest_String d) [ErrNotFound])
       | Some data \<Rightarrow> ret (nop_closer data))))"

definition mem_Exists :: "digest \<Rightarrow> (mem_state, bool) act" where
  "mem_Exists d =
     bnd ctx_Err (\<lambda>_.
     bnd (when_err (CheckDigest d ''mem: exists'')) (\<lambda>_.
     bnd get_st (\<lambda>m. ret (map_of (objects m) d \<noteq> None))))"

definition mem_delete_locked :: "digest \<Rightarrow> mem_state \<Rightarrow> mem_state" where
  "mem_delete_locked key m =
     (case map_of (objects m) key of
        None \<Rightarrow> m
      | Some old \<Rightarrow> m\<lparr>objects := AList.delete key (objects m), usedBytes := usedBytes m - int (length old)\<rparr>)"

definition mem_Delete :: "digest \<Rightarrow> (mem_state, unit) act" where
  "mem_Delete d =
     bnd ctx_Err (\<lambda>_.
     bnd (when_err (CheckDigest d ''mem: delete'')) (\<lambda>_.
     bnd get_st (\<lambda>m. put_st (mem_delete_locked d m))))"

definition mem_List :: "(mem_state, digest list) act" where
  "mem_List =
     bnd ctx_Err (\<lambda>_.
     bnd get_st (\<lambda>m.
       ret (sort (map NewDigest (filter (\<lambda>key. key \<noteq> []) (map fst (objects m)))))))"

definition mem_Stats :: "(mem_state, Stats) act" where
  "mem_Stats =
     bnd ctx_Err (\<lambda>_.
     bnd get_st (\<lambda>m.
       (let live = filter (\<lambda>(key, _). key \<noteq> []) (objects m) in
        ret \<lparr>TotalSize = sum_list (map (\<lambda>(_, data). int (length data)) live),
             ObjectCount = int (length live)\<rparr>)))"

definition mem_backend :: "mem_state backend" where
  "mem_backend =
     \<lparr>b_Put = mem_Put, b_Get = mem_Get, b_Exists = mem_Exists, b_Delete = mem_Delete,
      b_List = mem_List, b_Stats = mem_Stats,
      b_Size = None, b_ModTime = None, b_Clean = None, b_Close = None\<rparr>"

section \<open>The accounting invariant\<close>

text \<open>
  The map has one entry per key and none for the absent digest, the counter is the sum of the
  stored lengths, and a configured cap is respected.
\<close>

definition mem_inv :: "mem_state \<Rightarrow> bool" where
  "mem_inv m \<longleftrightarrow> distinct (map fst (objects m)) \<and> map_of (objects m) [] = None \<and>
     usedBytes m = int (sizes (objects m)) \<and> maxBytes m \<le> MaxInt64 \<and>
     (maxBytes m > 0 \<longrightarrow> usedBytes m \<le> maxBytes m)"

abbreviation mem_abs :: "mem_state \<Rightarrow> digest \<Rightarrow> bytes option" where
  "mem_abs m \<equiv> map_of (objects m)"

lemma mem_inv_New: "cap \<le> MaxInt64 \<Longrightarrow> mem_inv (mem_New cap)"
  by (simp add: mem_inv_def mem_New_def)

lemma mem_inv_absent: "mem_inv m \<Longrightarrow> mem_abs m [] = None"
  by (simp add: mem_inv_def)

lemma object_len_range: "mem_inv m \<Longrightarrow> 0 \<le> object_len m key \<and> object_len m key \<le> usedBytes m"
  using sizes_value_le [of "objects m" key]
  by (auto simp: object_len_def mem_inv_def split: option.splits)

lemma mem_store_inv:
  assumes "mem_inv m" "key \<noteq> []" "mem_store key data m = (eo, m')"
  shows "mem_inv m'"
proof -
  have "int (sizes (AList.update key data (objects m))) =
      usedBytes m + (int (length data) - object_len m key)"
    using assms(1) sizes_update_new [of "objects m" key data] sizes_update_old [of "objects m" key _ data]
    by (cases "map_of (objects m) key") (auto simp: mem_inv_def object_len_def)
  with assms show ?thesis
    by (auto simp: mem_store_def mem_inv_def Let_def distinct_update split: if_splits)
qed

lemma mem_delete_inv:
  assumes "mem_inv m"
  shows "mem_inv (mem_delete_locked key m)"
proof (cases "mem_abs m key")
  case (Some old)
  then have "int (sizes (AList.delete key (objects m))) = usedBytes m - int (length old)"
    using sizes_delete [of "objects m" key old] assms by (auto simp: mem_inv_def)
  with Some assms show ?thesis
    by (auto simp: mem_delete_locked_def mem_inv_def distinct_delete)
qed (use assms in \<open>simp add: mem_delete_locked_def\<close>)

lemma mem_delete_abs: "mem_abs (mem_delete_locked key m) = (mem_abs m)(key := None)"
  by (auto simp: mem_delete_locked_def split: option.splits)


text \<open>Within one resident address space none of the counter expressions leaves the 64-bit range.\<close>

lemma mem_arith_in_range:
  assumes "mem_inv m" "usedBytes m + int (length data) \<le> MaxInt64"
  shows "\<bar>usedBytes m - object_len m key\<bar> \<le> MaxInt64"
    and "\<bar>int (length data) - object_len m key\<bar> \<le> MaxInt64"
    and "\<bar>usedBytes m + (int (length data) - object_len m key)\<bar> \<le> MaxInt64"
    and "maxBytes m > 0 \<Longrightarrow> \<bar>maxBytes m - (usedBytes m - object_len m key)\<bar> \<le> MaxInt64"
  using object_len_range [OF assms(1), of key] assms by (auto simp: mem_inv_def)

lemma mem_budget_range: "mem_inv m \<Longrightarrow> mem_budget key m = (b, c) \<Longrightarrow> 0 \<le> b \<and> b \<le> MaxInt64"
  using object_len_range [of m key] by (auto simp: mem_budget_def mem_inv_def MaxInt64_def split: if_splits)

section \<open>What a put buffers\<close>

text \<open>
  Either the whole stream, or, when the stream is longer than the budget, one byte more than the
  budget: enough to overrun the cap.
\<close>

definition buffered :: "int \<times> bool \<Rightarrow> bytes \<Rightarrow> bytes" where
  "buffered bc b = (if snd bc \<and> fst bc < MaxInt64 then take (nat (fst bc + 1)) b else b)"

lemma mem_buffer_ok:
  assumes "mem_buffer bc r w = (Inr data, w')" "clean_reader r" "0 \<le> fst bc"
  shows "data = buffered bc (r_data r) \<and> est w' = est w \<and>
    (int (length data) \<le> fst bc \<or> \<not> snd bc \<or> fst bc = MaxInt64 \<longrightarrow> fst bc \<le> MaxInt64 \<longrightarrow> r_err r = None \<and> data = r_data r)"
proof (cases "snd bc \<and> fst bc < MaxInt64")
  case True
  then have "wrap64 (fst bc + 1) = fst bc + 1"
    using assms(3) by (intro wrap64_id) auto
  with True assms(1) have "ContextReader_ReadAll (io_LimitReader r (fst bc + 1)) w = (Inr data, w')"
    by (simp add: mem_buffer_def)
  from ContextReader_ReadAll_ok [OF this] True assms(3) show ?thesis
    by (auto simp: buffered_def min_def split: if_splits)
next
  case False
  with assms(1) have "ReadWhole r 0 w = (Inr data, w')"
    by (auto simp: mem_buffer_def split: if_splits)
  from ReadWhole_ok [OF this assms(2)] False show ?thesis
    by (auto simp: buffered_def)
qed

lemma mem_buffer_est: "est (snd (mem_buffer bc r w)) = est w"
proof -
  have "keeps (\<lambda>s. s = est w) (mem_buffer bc r)"
    unfolding mem_buffer_def by (intro keeps_intros)
  then show ?thesis by (simp add: keeps_def)
qed

lemma mem_buffer_live:
  assumes "ectx w = Live" "r_err r = None" "0 \<le> fst bc"
  shows "mem_buffer bc r w = (Inr (buffered bc (r_data r)), w)"
proof (cases "snd bc \<and> fst bc < MaxInt64")
  case True
  then have "wrap64 (fst bc + 1) = fst bc + 1"
    using assms(3) by (intro wrap64_id) auto
  with True assms show ?thesis
    by (simp add: mem_buffer_def buffered_def wrapping_def ContextReader_ReadAll_live)
next
  case False
  with assms show ?thesis
    by (auto simp: mem_buffer_def buffered_def wrapping_def ReadWhole_live)
qed

text \<open>A buffer that overran the budget does not pass the check of \<open>store\<close> on the same state.\<close>

lemma mem_store_overrun:
  assumes "mem_budget key m = (b, True)" "int (length data) > b"
  shows "\<exists>e. mem_store key data m = (Some e, m)"
  using assms by (auto simp: mem_budget_def mem_store_def Let_def split: if_splits)

lemma mem_store_fits:
  assumes "mem_inv m" "mem_budget key m = (b, c)" "c \<longrightarrow> int (length data) \<le> b"
  shows "\<exists>m'. mem_store key data m = (None, m') \<and> mem_abs m' = (mem_abs m)(key \<mapsto> data) \<and>
    maxBytes m' = maxBytes m"
  using assms object_len_range [of m key]
  by (auto simp: mem_budget_def mem_store_def Let_def mem_inv_def split: if_splits)

lemma mem_store_act_result:
  "mem_store_act d data w = (case mem_store d data (est w) of
      (Some e, _) \<Rightarrow> (Inl e, w) | (None, m') \<Rightarrow> (Inr (), w\<lparr>est := m'\<rparr>))"
  by (simp add: mem_store_act_def bnd_def get_st_def fail_def put_st_def split: prod.splits option.splits)


section \<open>The methods, case by case\<close>

lemma mem_Put_ok:
  assumes "mem_inv (est w)" "mem_Put d r w = (Inr (), w')" "clean_reader r"
  shows "d \<noteq> [] \<and> r_err r = None \<and> mem_abs (est w') = (mem_abs (est w))(d \<mapsto> r_data r)"
proof -
  from assms(2) obtain w1 w2 data where d: "d \<noteq> []" and c: "ctx_Err w = (Inr (), w1)"
    and buf: "mem_buffer (mem_budget d (est w1)) r w1 = (Inr data, w2)"
    and st: "mem_store_act d data w2 = (Inr (), w')"
    by (auto simp: mem_Put_def bnd_ok CheckDigest_None_iff)
  obtain b cp where bc: "mem_budget d (est w) = (b, cp)" by fastforce
  have w1: "est w1 = est w" using c by (rule ctx_Err_estD)
  note range = mem_budget_range [OF assms(1) bc]
  note info = mem_buffer_ok [OF buf assms(3), unfolded w1 bc fst_conv snd_conv]
  have w2: "est w2 = est w" using info range w1 by auto
  have fits: "cp \<longrightarrow> int (length data) \<le> b"
    using mem_store_overrun [of d "est w" b data] bc st w2
    by (cases "int (length data) \<le> b") (auto simp: mem_store_act_result)
  from mem_store_fits [OF assms(1) bc fits] st w2
  have "mem_abs (est w') = (mem_abs (est w))(d \<mapsto> data)"
    by (auto simp: mem_store_act_result)
  with d info range fits show ?thesis by auto
qed

lemma mem_Put_err:
  assumes "mem_Put d r w = (Inl e, w')"
  shows "est w' = est w"
proof -
  have "est w1 = est w" if "ctx_Err w = (x, w1)" for x w1
    using that by (rule ctx_Err_estD)
  with assms show ?thesis
    by (auto simp: mem_Put_def monad_defs mem_store_act_result split: prod.splits sum.splits option.splits)
      (metis mem_buffer_est snd_conv)+
qed

lemma mem_Put_inv:
  assumes "mem_inv (est w)" "mem_Put d r w = (x, w')"
  shows "mem_inv (est w')"
proof (cases x)
  case (Inr u)
  with assms(2) obtain w1 w2 data where d: "d \<noteq> []" and c: "ctx_Err w = (Inr (), w1)"
    and buf: "mem_buffer (mem_budget d (est w1)) r w1 = (Inr data, w2)"
    and st: "mem_store_act d data w2 = (Inr (), w')"
    by (auto simp: mem_Put_def bnd_ok CheckDigest_None_iff)
  have "est w2 = est w"
    using mem_buffer_est [of _ r w1] buf ctx_Err_estD [OF c] by (metis snd_conv)
  with st d assms(1) mem_store_inv [of "est w" d data] show ?thesis
    by (auto simp: mem_store_act_result split: prod.splits option.splits)
qed (use assms mem_Put_err in simp)

lemma mem_Put_live:
  assumes "mem_inv (est w)" "ectx w = Live" "d \<noteq> []" "r_err r = None"
    and "maxBytes (est w) \<le> 0 \<or>
      usedBytes (est w) - object_len (est w) d + int (length (r_data r)) \<le> maxBytes (est w)"
  shows "\<exists>w'. mem_Put d r w = (Inr (), w') \<and> ectx w' = Live \<and>
    mem_abs (est w') = (mem_abs (est w))(d \<mapsto> r_data r) \<and> maxBytes (est w') = maxBytes (est w)"
proof -
  obtain b cp where bc: "mem_budget d (est w) = (b, cp)" by fastforce
  note range = mem_budget_range [OF assms(1) bc]
  have fit: "cp \<longrightarrow> int (length (r_data r)) \<le> b"
    using bc assms(5) by (auto simp: mem_budget_def split: if_splits)
  then have "buffered (b, cp) (r_data r) = r_data r"
    by (auto simp: buffered_def)
  then have "mem_buffer (mem_budget d (est w)) r w = (Inr (r_data r), w)"
    using mem_buffer_live [OF assms(2,4), of "(b, cp)"] range bc by simp
  with mem_store_fits [OF assms(1) bc fit] assms(2,3) show ?thesis
    by (auto simp: mem_Put_def bnd_def get_st_def when_err_def mem_store_act_result)
qed

lemma mem_Put_over_cap:
  assumes "mem_inv (est w)" "ectx w = Live" "d \<noteq> []" "r_err r = None" "maxBytes (est w) > 0"
    and "usedBytes (est w) - object_len (est w) d + int (length (r_data r)) > maxBytes (est w)"
  shows "\<exists>e. mem_Put d r w = (Inl e, w)"
proof -
  obtain b cp where bc: "mem_budget d (est w) = (b, cp)" by fastforce
  then have b: "cp" "b = max (maxBytes (est w) - (usedBytes (est w) - object_len (est w) d)) 0"
    using assms(5) by (auto simp: mem_budget_def)
  have "0 \<le> object_len (est w) d" using object_len_range [OF assms(1)] by simp
  moreover have "usedBytes (est w) \<le> maxBytes (est w)" using assms(1,5) by (simp add: mem_inv_def)
  ultimately have "int (length (buffered (b, cp) (r_data r))) > b"
    using assms(5,6) b by (auto simp: buffered_def)
  with mem_store_overrun [of d "est w" b "buffered (b, cp) (r_data r)"] bc b(1)
  obtain e where "mem_store d (buffered (b, cp) (r_data r)) (est w) = (Some e, est w)" by auto
  moreover have "mem_buffer (mem_budget d (est w)) r w = (Inr (buffered (b, cp) (r_data r)), w)"
    using mem_buffer_live [OF assms(2,4), of "(b, cp)"] b bc by simp
  ultimately show ?thesis
    using assms(2,3) by (auto simp: mem_Put_def bnd_def get_st_def when_err_def mem_store_act_result)
qed

text \<open>The read-only methods leave the state alone.\<close>

lemma mem_read_only:
  "est (snd (mem_Get d w)) = est w" "est (snd (mem_Exists d w)) = est w"
  "est (snd (mem_List w)) = est w" "est (snd (mem_Stats w)) = est w"
proof -
  have "keeps (\<lambda>s. s = est w) (mem_Get d)" "keeps (\<lambda>s. s = est w) (mem_Exists d)"
    "keeps (\<lambda>s. s = est w) mem_List" "keeps (\<lambda>s. s = est w) mem_Stats"
    unfolding mem_Get_def mem_Exists_def mem_List_def mem_Stats_def Let_def
    by (intro keeps_intros; simp add: keeps_intros split: option.split)+
  then show "est (snd (mem_Get d w)) = est w" "est (snd (mem_Exists d w)) = est w"
    "est (snd (mem_List w)) = est w" "est (snd (mem_Stats w)) = est w"
    by (simp_all add: keeps_def)
qed

lemma mem_read_onlyD:
  "mem_Get d w = (gx, w') \<Longrightarrow> est w' = est w" "mem_Exists d w = (ex, w') \<Longrightarrow> est w' = est w"
  "mem_List w = (lx, w') \<Longrightarrow> est w' = est w" "mem_Stats w = (sx, w') \<Longrightarrow> est w' = est w"
  using mem_read_only(1,2) [of d w] mem_read_only(3,4) [of w] by simp_all

lemma mem_Get_ok:
  "mem_Get d w = (Inr rc, w') \<Longrightarrow> d \<noteq> [] \<and> mem_abs (est w) d = Some (r_data rc) \<and> rc = nop_closer (r_data rc)"
  by (auto simp: mem_Get_def bnd_ok CheckDigest_None_iff dest!: ctx_Err_estD split: option.splits)

lemma mem_Exists_ok: "mem_Exists d w = (Inr b, w') \<Longrightarrow> b = (mem_abs (est w) d \<noteq> None)"
  by (auto simp: mem_Exists_def bnd_ok dest!: ctx_Err_estD)

lemma mem_Delete_result:
  "mem_Delete d w = (Inr (), w') \<Longrightarrow> est w' = mem_delete_locked d (est w)"
  "mem_Delete d w = (Inl e, w') \<Longrightarrow> est w' = est w"
  by (auto simp: mem_Delete_def monad_defs dest!: ctx_Err_estD split: prod.splits sum.splits option.splits)

lemma mem_List_ok:
  assumes "mem_inv (est w)" "mem_List w = (Inr ds, w')"
  shows "set ds = dom (mem_abs (est w)) \<and> distinct ds \<and> sorted ds"
proof -
  have ne: "filter (\<lambda>key. key \<noteq> []) (map fst (objects (est w))) = map fst (objects (est w))"
    using assms(1) by (force simp: mem_inv_def map_of_eq_None_iff filter_id_conv)
  from assms(2) have "ds = sort (map fst (objects (est w)))"
    by (auto simp: mem_List_def bnd_ok ne comp_def dest!: ctx_Err_estD)
  with assms(1) show ?thesis
    by (auto simp: mem_inv_def dom_map_of_conv_image_fst)
qed


lemma mem_Stats_ok:
  assumes "mem_inv (est w)" "mem_Stats w = (Inr st, w')"
  shows "TotalSize st = usedBytes (est w) \<and> ObjectCount st = int (card (dom (mem_abs (est w))))"
proof -
  have ne: "filter (\<lambda>(key, _). key \<noteq> []) (objects (est w)) = objects (est w)"
    using assms(1) by (force simp: mem_inv_def map_of_eq_None_iff filter_id_conv)
  have sum: "sum_list (map (\<lambda>(_, data). int (length data)) xs) = int (sizes xs)"
    for xs :: "(digest \<times> bytes) list"
    by (induction xs) auto
  have "card (dom (mem_abs (est w))) = length (objects (est w))"
    using assms(1) distinct_card [of "map fst (objects (est w))"]
    by (simp add: mem_inv_def dom_map_of_conv_image_fst)
  with assms show ?thesis
    by (auto simp: mem_Stats_def bnd_ok ne sum Let_def mem_inv_def dest!: ctx_Err_estD)
qed

lemma mem_live:
  assumes "ectx w = Live"
  shows "d \<noteq> [] \<Longrightarrow> mem_abs (est w) d = Some b \<Longrightarrow> mem_Get d w = (Inr (nop_closer b), w)"
    and "d \<noteq> [] \<Longrightarrow> mem_abs (est w) d = None \<Longrightarrow>
      mem_Get d w = (Inl (Errorf (Digest_String d) [ErrNotFound]), w)"
    and "d \<noteq> [] \<Longrightarrow> mem_Exists d w = (Inr (mem_abs (est w) d \<noteq> None), w)"
    and "d \<noteq> [] \<Longrightarrow> mem_Delete d w = (Inr (), w\<lparr>est := mem_delete_locked d (est w)\<rparr>)"
    and "\<exists>ds. mem_List w = (Inr ds, w)"
  using assms
  by (simp_all add: mem_Get_def mem_Exists_def mem_Delete_def mem_List_def monad_defs)

section \<open>The backend contract\<close>

interpretation mem: reliable_backend mem_backend mem_abs mem_inv
proof
  fix s :: mem_state and w w' :: "mem_state env" and d :: digest and r :: reader
  fix px dx ux :: "unit result" and e :: err and gx :: "readcloser result" and rc :: readcloser
  fix ex :: "bool result" and lx :: "digest list result" and sx :: "Stats result" and b :: bytes
  fix ds :: "digest list" and bo :: bool and mt mx
  show "mem_inv s \<Longrightarrow> mem_abs s [] = None" by (rule mem_inv_absent)
  show "finite (dom (mem_abs s))" by (rule finite_dom_map_of)
  show "mem_inv (est w) \<Longrightarrow> b_Put mem_backend d r w = (px, w') \<Longrightarrow> mem_inv (est w')"
    by (simp add: mem_backend_def mem_Put_inv)
  show "d \<noteq> [] \<and> r_err r = None \<and> (\<exists>b. mem_abs (est w') = (mem_abs (est w))(d \<mapsto> b) \<and>
      (b = r_data r \<or> mem_abs (est w) d = Some b))"
    if "mem_inv (est w)" "b_Put mem_backend d r w = (Inr (), w')" "clean_reader r"
    using mem_Put_ok [of w d r w'] that by (auto simp: mem_backend_def)
  show "b_Put mem_backend d r w = (Inl e, w') \<Longrightarrow> mem_abs (est w') = mem_abs (est w)"
    by (simp add: mem_backend_def mem_Put_err)
  show "mem_inv (est w) \<Longrightarrow> b_Get mem_backend d w = (gx, w') \<Longrightarrow>
      mem_inv (est w') \<and> mem_abs (est w') = mem_abs (est w)"
    by (simp add: mem_backend_def mem_read_onlyD)
  show "b_Get mem_backend d w = (Inr rc, w') \<Longrightarrow>
      r_err rc = None \<longrightarrow> mem_abs (est w) d = Some (r_data rc)"
    using mem_Get_ok [of d w rc w'] by (auto simp: mem_backend_def)
  show "mem_inv (est w) \<Longrightarrow> b_Exists mem_backend d w = (ex, w') \<Longrightarrow>
      mem_inv (est w') \<and> mem_abs (est w') = mem_abs (est w)"
    by (simp add: mem_backend_def mem_read_onlyD)
  show "b_Exists mem_backend d w = (Inr bo, w') \<Longrightarrow> bo = (mem_abs (est w) d \<noteq> None)"
    using mem_Exists_ok [of d w bo w'] by (auto simp: mem_backend_def)
  show "mem_inv (est w) \<Longrightarrow> b_Delete mem_backend d w = (dx, w') \<Longrightarrow> mem_inv (est w')"
    by (cases dx) (auto simp: mem_backend_def mem_Delete_result mem_delete_inv)
  show "b_Delete mem_backend d w = (Inr (), w') \<Longrightarrow> mem_abs (est w') = (mem_abs (est w))(d := None)"
    by (simp add: mem_backend_def mem_Delete_result mem_delete_abs)
  show "b_Delete mem_backend d w = (Inl e, w') \<Longrightarrow> mem_abs (est w') = mem_abs (est w)"
    by (simp add: mem_backend_def mem_Delete_result)
  show "mem_inv (est w) \<Longrightarrow> b_List mem_backend w = (lx, w') \<Longrightarrow>
      mem_inv (est w') \<and> mem_abs (est w') = mem_abs (est w)"
    by (simp add: mem_backend_def mem_read_onlyD)
  show "mem_inv (est w) \<Longrightarrow> b_List mem_backend w = (Inr ds, w') \<Longrightarrow> dom (mem_abs (est w)) \<subseteq> set ds"
    by (simp add: mem_backend_def mem_List_ok)
  show "mem_inv (est w) \<Longrightarrow> b_Stats mem_backend w = (sx, w') \<Longrightarrow>
      mem_inv (est w') \<and> mem_abs (est w') = mem_abs (est w)"
    by (simp add: mem_backend_def mem_read_onlyD)
  show "b_ModTime mem_backend = Some mt \<Longrightarrow> mem_inv (est w) \<Longrightarrow> mt d w = (mx, w') \<Longrightarrow>
      mem_inv (est w') \<and> mem_abs (est w') = mem_abs (est w)"
    by (simp add: mem_backend_def)
  show "\<exists>rc w'. b_Get mem_backend d w = (Inr rc, w') \<and> r_err rc = None \<and> rc_close rc = None \<and> ectx w' = Live"
    if "mem_inv (est w)" "ectx w = Live" "mem_abs (est w) d = Some b"
  proof -
    have "d \<noteq> []" using that mem_inv_absent by auto
    with mem_live(1) [OF that(2) _ that(3)] that(2) show ?thesis by (simp add: mem_backend_def)
  qed
  show "ectx w = Live \<Longrightarrow> d \<noteq> [] \<Longrightarrow> mem_abs (est w) d = None \<Longrightarrow>
      \<exists>e w'. b_Get mem_backend d w = (Inl e, w') \<and> errors_Is e ErrNotFound"
    by (simp add: mem_backend_def mem_live)
  show "ectx w = Live \<Longrightarrow> d \<noteq> [] \<Longrightarrow> \<exists>b w'. b_Exists mem_backend d w = (Inr b, w') \<and> ectx w' = Live"
    by (simp add: mem_backend_def mem_live)
  show "ectx w = Live \<Longrightarrow> d \<noteq> [] \<Longrightarrow> \<exists>w'. b_Delete mem_backend d w = (Inr (), w') \<and> ectx w' = Live"
    by (simp add: mem_backend_def mem_live)
  show "\<exists>ds w'. b_List mem_backend w = (Inr ds, w') \<and> set ds = dom (mem_abs (est w)) \<and> distinct ds \<and> ectx w' = Live"
    if "mem_inv (est w)" "ectx w = Live"
    using mem_live(5) [OF that(2)] mem_List_ok [OF that(1)] that(2) by (auto simp: mem_backend_def)
qed


section \<open>Interleavings\<close>

text \<open>
  \<open>Put\<close> takes the lock twice: once to read the budget, once to store what it buffered in between.
  The step relation interleaves these critical sections with each other and with those of
  \<open>Delete\<close>. What a put buffers outside the lock is \<open>buffered\<close> of the budget it read (lemma
  \<open>mem_buffer_live\<close>); \<open>begun\<close> records which content was put under which digest.
\<close>

record mem_sys =
  shared :: mem_state
  inflight :: "(digest \<times> bytes \<times> int \<times> bool) list"
  begun :: "(digest \<times> bytes) list"

definition mem_put_begin :: "digest \<Rightarrow> bytes \<Rightarrow> mem_sys \<Rightarrow> mem_sys" where
  "mem_put_begin d b sy =
     sy\<lparr>inflight := (d, b, mem_budget d (shared sy)) # inflight sy, begun := (d, b) # begun sy\<rparr>"

definition mem_put_commit :: "digest \<times> bytes \<times> int \<times> bool \<Rightarrow> mem_sys \<Rightarrow> mem_sys" where
  "mem_put_commit p sy =
     (case p of (d, b, bc) \<Rightarrow>
        sy\<lparr>shared := snd (mem_store d (buffered bc b) (shared sy)), inflight := remove1 p (inflight sy)\<rparr>)"

inductive mem_step :: "mem_sys \<Rightarrow> mem_sys \<Rightarrow> bool" where
  put_begin: "d \<noteq> [] \<Longrightarrow> mem_step sy (mem_put_begin d b sy)"
| put_commit: "p \<in> set (inflight sy) \<Longrightarrow> mem_step sy (mem_put_commit p sy)"
| delete_key: "mem_step sy (sy\<lparr>shared := mem_delete_locked d (shared sy)\<rparr>)"

inductive_cases mem_stepE: "mem_step sy sy'"

definition mem_init :: "int \<Rightarrow> mem_sys" where
  "mem_init cap = \<lparr>shared = mem_New cap, inflight = [], begun = []\<rparr>"

definition mem_sys_inv :: "mem_sys \<Rightarrow> bool" where
  "mem_sys_inv sy \<longleftrightarrow> mem_inv (shared sy) \<and> (\<forall>(d, b, bc) \<in> set (inflight sy). d \<noteq> [])"

lemma mem_put_commit_shared:
  "shared (mem_put_commit (d, b, bc) sy) = snd (mem_store d (buffered bc b) (shared sy))"
  by (simp add: mem_put_commit_def)

lemma mem_step_inv:
  assumes "mem_step sy sy'" "mem_sys_inv sy"
  shows "mem_sys_inv sy'"
  using assms
proof (cases rule: mem_step.cases)
  case (put_commit p)
  obtain d b bc where p: "p = (d, b, bc)" by (metis prod.collapse)
  with put_commit assms(2) have "d \<noteq> []" by (auto simp: mem_sys_inv_def)
  moreover obtain eo m' where "mem_store d (buffered bc b) (shared sy) = (eo, m')" by fastforce
  ultimately have "mem_inv (snd (mem_store d (buffered bc b) (shared sy)))"
    using mem_store_inv assms(2) by (auto simp: mem_sys_inv_def)
  with put_commit p assms(2) show ?thesis
    by (auto simp: mem_sys_inv_def mem_put_commit_def dest: set_remove1_subset [THEN subsetD])
qed (auto simp: mem_sys_inv_def mem_put_begin_def mem_delete_inv)

lemma mem_reach_inv:
  assumes "mem_step\<^sup>*\<^sup>* sy sy'" "mem_sys_inv sy"
  shows "mem_sys_inv sy'"
  using assms by (induction rule: rtranclp_induct) (auto intro: mem_step_inv)

section \<open>Properties\<close>

text \<open>
  C4: a put on a live context with a present digest and a readable stream does exactly one of two
  things. If the new content fits the cap (or there is none, or the cap is at the 64-bit ceiling) the
  whole stream is stored under the digest and nothing else changes; otherwise it is an error and
  the backend is unchanged.
\<close>

theorem mem_put_exact:
  assumes "mem_inv (est w)" "ectx w = Live" "d \<noteq> []" "r_err r = None"
  shows "(if maxBytes (est w) \<le> 0 \<or>
           usedBytes (est w) - object_len (est w) d + int (length (r_data r)) \<le> maxBytes (est w)
         then \<exists>w'. mem_Put d r w = (Inr (), w') \<and>
           map_of (objects (est w')) = (map_of (objects (est w)))(d \<mapsto> r_data r) \<and>
           maxBytes (est w') = maxBytes (est w) \<and> mem_inv (est w')
         else \<exists>e. mem_Put d r w = (Inl e, w))"
proof (cases "maxBytes (est w) \<le> 0 \<or>
    usedBytes (est w) - object_len (est w) d + int (length (r_data r)) \<le> maxBytes (est w)")
  case True
  from mem_Put_live [OF assms True] mem_Put_inv [OF assms(1)] True show ?thesis by auto
next
  case False
  with mem_Put_over_cap [OF assms] show ?thesis by auto
qed

theorem mem_put_exact_witness:
  "\<exists>w'. mem_Put [1] (bytes_reader [5, 6]) \<lparr>ectx = Live, est = mem_New MaxInt64\<rparr> = (Inr (), w') \<and>
     map_of (objects (est w')) [1] = Some [5, 6]"
  using mem_put_exact [of "\<lparr>ectx = Live, est = mem_New MaxInt64\<rparr>" "[1]" "bytes_reader [5, 6]"]
  by (auto simp: mem_inv_New) (auto simp: mem_New_def object_len_def MaxInt64_def)

text \<open>
  C30: whatever the interleaving of the critical sections of concurrent puts and deletes, the byte
  counter is the sum of the stored lengths and a configured cap is never exceeded.
\<close>

theorem mem_cap_under_interleaving:
  assumes "cap \<le> MaxInt64" "mem_step\<^sup>*\<^sup>* (mem_init cap) sy"
  shows "usedBytes (shared sy) = int (sizes (objects (shared sy))) \<and>
    (maxBytes (shared sy) > 0 \<longrightarrow> int (sizes (objects (shared sy))) \<le> maxBytes (shared sy))"
proof -
  have "mem_sys_inv (mem_init cap)"
    using assms(1) by (simp add: mem_sys_inv_def mem_init_def mem_inv_New)
  from mem_reach_inv [OF assms(2) this] show ?thesis
    by (auto simp: mem_sys_inv_def mem_inv_def)
qed

theorem mem_cap_under_interleaving_witness:
  "\<exists>sy. mem_step\<^sup>*\<^sup>* (mem_init 4) sy \<and> objects (shared sy) = [([1], [7, 7, 7])] \<and> map fst (begun sy) = [[2], [1]] \<and>
     usedBytes (shared sy) = int (sizes (objects (shared sy))) \<and> int (sizes (objects (shared sy))) \<le> 4"
proof -
  define s1 where "s1 = mem_put_begin [1] [7, 7, 7] (mem_init 4)"
  define s2 where "s2 = mem_put_begin [2] [8, 8] s1"
  define s3 where "s3 = mem_put_commit (inflight s2 ! 1) s2"
  define s4 where "s4 = mem_put_commit (hd (inflight s3)) s3"
  have i: "inflight s2 \<noteq> []" "inflight s2 ! 1 \<in> set (inflight s2)" "hd (inflight s3) \<in> set (inflight s3)"
    unfolding s4_def s3_def s2_def s1_def by code_simp+
  have "mem_step (mem_init 4) s1" "mem_step s1 s2" "mem_step s2 s3" "mem_step s3 s4"
    using i by (auto simp: s1_def s2_def s3_def s4_def intro!: mem_step.intros)
  then have run: "mem_step\<^sup>*\<^sup>* (mem_init 4) s4" by (meson converse_rtranclp_into_rtranclp r_into_rtranclp)
  have s4: "objects (shared s4) = [([1], [7, 7, 7])]" "map fst (begun s4) = [[2], [1]]" "maxBytes (shared s4) = 4"
    unfolding s4_def s3_def s2_def s1_def by code_simp+
  from mem_cap_under_interleaving [OF _ run] run s4 show ?thesis by (intro exI [of _ s4]) (simp add: MaxInt64_def)
qed

text \<open>
  when the budget of the key has not grown since the put read it, a put that passes the check
  of \<open>store\<close> stores the whole stream.
\<close>

theorem mem_commit_whole:
  assumes "mem_budget d m = (b1, True)" "b1 \<le> b0"
    and "mem_store d (buffered (b0, True) content) m = (None, m')"
  shows "map_of (objects m') d = Some content"
proof -
  have "int (length (buffered (b0, True) content)) \<le> b1"
    using mem_store_overrun [OF assms(1)] assms(3) by (metis linorder_not_le option.distinct(1) prod.inject)
  with assms(2) have "buffered (b0, True) content = content"
    by (auto simp: buffered_def min_def split: if_splits)
  with assms(3) show ?thesis
    by (auto simp: mem_store_def Let_def split: if_splits)
qed

theorem mem_commit_whole_witness:
  "map_of (objects (snd (mem_store [1] [5, 6] (mem_New 4)))) [1] = Some [5, 6]"
  using mem_commit_whole [of "[1]" "mem_New 4" 4 4 "[5, 6]" "snd (mem_store [1] [5, 6] (mem_New 4))"]
  by (simp add: mem_budget_def mem_New_def object_len_def buffered_def MaxInt64_def mem_store_def Let_def)

text \<open>
  when the budget does grow, the two critical sections race. A put that meets a full backend
  buffers one byte past the budget; if a delete frees space before the put stores, the truncated
  buffer passes the check and is stored under the caller's digest, and the put reports success.
  Here the only content ever put under the digest \<open>[2]\<close> has six bytes and what ends up stored has one.
\<close>

theorem mem_put_race_truncates:
  "\<exists>sy. mem_step\<^sup>*\<^sup>* (mem_init 4) sy \<and> inflight sy = [] \<and>
     begun sy = [([2], [1, 2, 3, 4, 5, 6]), ([1], [9, 9, 9, 9])] \<and>
     map_of (objects (shared sy)) [2] = Some [1]"
proof -
  define s1 where "s1 = mem_put_begin [1] [9, 9, 9, 9] (mem_init 4)"
  define s2 where "s2 = mem_put_commit (hd (inflight s1)) s1"
  define s3 where "s3 = mem_put_begin [2] [1, 2, 3, 4, 5, 6] s2"
  define s4 where "s4 = s3\<lparr>shared := mem_delete_locked [1] (shared s3)\<rparr>"
  define s5 where "s5 = mem_put_commit (hd (inflight s4)) s4"
  note defs = s1_def s2_def s3_def s4_def s5_def mem_put_begin_def mem_put_commit_def mem_init_def
    mem_New_def mem_budget_def mem_store_def mem_delete_locked_def object_len_def buffered_def
    MaxInt64_def Let_def
  have "mem_step (mem_init 4) s1" "mem_step s2 s3"
    unfolding s1_def s3_def by (auto intro: put_begin)
  moreover have "mem_step s1 s2" "mem_step s4 s5"
    unfolding s2_def s5_def by (auto intro!: put_commit simp: s1_def s4_def s3_def mem_put_begin_def)
  moreover have "mem_step s3 s4"
    unfolding s4_def by (rule delete_key)
  ultimately have "mem_step\<^sup>*\<^sup>* (mem_init 4) s5"
    by (meson converse_rtranclp_into_rtranclp rtranclp.rtrancl_refl)
  moreover have "inflight s5 = []" "begun s5 = [([2], [1, 2, 3, 4, 5, 6]), ([1], [9, 9, 9, 9])]"
    "map_of (objects (shared s5)) [2] = Some [1]"
    by (simp_all add: defs)
  ultimately show ?thesis by blast
qed

end
