(* ===== verification/Mem_Snapshot.thy ===== *)
theory Mem_Snapshot
  imports Mem_Backend
begin

text \<open>
  \<open>src/cas/backend/mem/snapshot.go\<close>: the binary archive of the in-memory backend. A snapshot is
  a 26-byte header (magic, version, object count, payload total) and one record per object in
  key order (two 64-bit lengths, the digest, the payload). \<open>Restore\<close> validates the archive record
  by record into a fresh map and swaps it in at the end.

  Shown: what a snapshot writes, that restoring it gives the same map back, that a failed restore
  changes nothing, and that a restored state satisfies the invariant whatever the archive was.
\<close>

section \<open>The format\<close>

definition MaxInt :: nat where
  "MaxInt = 2 ^ 63 - 1"

definition snapshotMagic :: bytes where
  "snapshotMagic = bytes_of ''CASKMEM'' @ [0]"

definition snapshotVersion :: nat where
  "snapshotVersion = 1"

definition snapshotHeaderSize :: nat where
  "snapshotHeaderSize = 8 + 2 + 8 + 8"

definition maxSnapshotDigestSize :: nat where
  "maxSnapshotDigestSize = 2 ^ 20"

definition snapshot_header :: "nat \<Rightarrow> nat \<Rightarrow> bytes" where
  "snapshot_header count tot =
     snapshotMagic @ be_put 2 snapshotVersion @ be_put 8 count @ be_put 8 tot"

definition record_lengths :: "digest \<Rightarrow> bytes \<Rightarrow> bytes" where
  "record_lengths key data = be_put 8 (length key) @ be_put 8 (length data)"

section \<open>Snapshot\<close>

text \<open>
  The writer outlives a failed write, so the writing steps return it with the error. \<open>write_part\<close>
  is one wrapped \<open>WriteAll\<close>, \<open>check_part\<close> the context check between records.
\<close>

definition write_part ::
  "string \<Rightarrow> bytes \<Rightarrow> writer \<Rightarrow> (writer \<Rightarrow> ('b, err option \<times> writer) act) \<Rightarrow> ('b, err option \<times> writer) act" where
  "write_part msg data wr k =
     bnd (WriteAll data wr) (\<lambda>(eo, wr').
       case eo of Some e \<Rightarrow> ret (Some (Errorf msg [e]), wr') | None \<Rightarrow> k wr')"

definition check_part ::
  "writer \<Rightarrow> ('b, err option \<times> writer) act \<Rightarrow> ('b, err option \<times> writer) act" where
  "check_part wr k w =
     (case ctx_Err w of (Inl e, w') \<Rightarrow> (Inr (Some e, wr), w') | (Inr _, w') \<Rightarrow> k w')"

fun snapshot_records ::
  "(digest \<times> bytes) list \<Rightarrow> digest list \<Rightarrow> writer \<Rightarrow> ('b, err option \<times> writer) act" where
  "snapshot_records objs [] wr = ret (None, wr)"
| "snapshot_records objs (key # keys) wr =
     check_part wr
       (let data = (case map_of objs key of None \<Rightarrow> [] | Some data \<Rightarrow> data) in
        write_part ''mem: write snapshot record lengths'' (record_lengths key data) wr (\<lambda>wr1.
        write_part ''mem: write snapshot digest'' key wr1 (\<lambda>wr2.
        write_part ''mem: write snapshot payload'' data wr2 (\<lambda>wr3.
          snapshot_records objs keys wr3))))"

definition snapshot_keys :: "(digest \<times> bytes) list \<Rightarrow> digest list" where
  "snapshot_keys objs = sort (filter (\<lambda>key. key \<noteq> []) (map fst objs))"

definition mem_Snapshot :: "writer option \<Rightarrow> (mem_state, err option \<times> writer option) act" where
  "mem_Snapshot wo w0 =
     (case ctx_Err w0 of
        (Inl e, w) \<Rightarrow> (Inr (Some e, wo), w)
      | (Inr _, w) \<Rightarrow>
          (case wo of
             None \<Rightarrow> (Inr (Some (ErrorsNew ''mem: snapshot writer is nil''), None), w)
           | Some wr \<Rightarrow>
               (let objs = objects (est w); keys = snapshot_keys objs;
                    tot = sizes (filter (\<lambda>(key, _). key \<noteq> []) objs) in
                bnd (write_part ''mem: write snapshot header'' (snapshot_header (length keys) tot) wr
                       (snapshot_records objs keys))
                    (\<lambda>(eo, wr'). ret (eo, Some wr')) w)))"

section \<open>Restore\<close>

text \<open>The record loop: the objects read so far, their total, and the reader behind them.\<close>

fun restore_loop ::
  "int \<Rightarrow> nat \<Rightarrow> nat \<Rightarrow> nat \<Rightarrow> (digest \<times> bytes) list \<Rightarrow> reader \<Rightarrow>
    ('b, (digest \<times> bytes) list \<times> nat \<times> reader) act" where
  "restore_loop cap declaredTotal 0 tot objs r = ret (objs, tot, r)"
| "restore_loop cap declaredTotal (Suc n) tot objs r =
     bnd ctx_Err (\<lambda>_.
     bnd (wrapping ''mem: read snapshot record lengths'' (ReadAll 16 r)) (\<lambda>(lengths, r1).
       (let digestSize = be_get (take 8 lengths); payloadSize = be_get (drop 8 lengths) in
        if digestSize = 0 \<or> digestSize > maxSnapshotDigestSize \<or> digestSize > MaxInt
        then fail (ErrorsNew ''mem: invalid snapshot digest size'')
        else if payloadSize > MaxInt then fail (ErrorsNew ''mem: invalid snapshot payload size'')
        else if payloadSize > MaxInt - tot then fail (ErrorsNew ''mem: snapshot size overflows'')
        else if tot + payloadSize > declaredTotal
        then fail (ErrorsNew ''mem: snapshot payload exceeds declared size'')
        else if cap > 0 \<and> int (tot + payloadSize) > cap
        then fail (ErrorsNew ''mem: snapshot exceeds max size'')
        else
          bnd (wrapping ''mem: read snapshot digest'' (ReadAll digestSize r1)) (\<lambda>(digest1, r2).
          (let d = NewDigest digest1 in
           if IsZero d then fail (ErrorsNew ''mem: snapshot contains an empty digest'')
           else if map_of objs d \<noteq> None then fail (ErrorsNew ''mem: snapshot contains duplicate digest'')
           else
             bnd (wrapping ''mem: read snapshot payload'' (ReadPayload payloadSize r2)) (\<lambda>(payload, r3).
               restore_loop cap declaredTotal n (tot + payloadSize) (AList.update d payload objs) r3))))))"

definition check_trailing :: "reader \<Rightarrow> ('b, unit) act" where
  "check_trailing r =
     bnd (catch (ContextReader_Read 1 r) (\<lambda>e. ret (([], Some e), r))) (\<lambda>((b, eo), _).
       if b \<noteq> [] then fail (ErrorsNew ''mem: snapshot trailing data'')
       else (case eo of
           None \<Rightarrow> fail (ErrorsNew ''mem: snapshot trailing data'')
         | Some e \<Rightarrow> if errors_Is e EOF then ret ()
                     else fail (Errorf ''mem: check snapshot trailing data'' [e])))"

definition restore_read :: "int \<Rightarrow> reader \<Rightarrow> ('b, (digest \<times> bytes) list \<times> nat) act" where
  "restore_read cap r =
     bnd (wrapping ''mem: read snapshot header'' (ReadAll snapshotHeaderSize r)) (\<lambda>(header, r1).
       (let count = be_get (take 8 (drop 10 header)); declaredTotal = be_get (drop 18 header) in
        if take 8 header \<noteq> snapshotMagic then fail (ErrorsNew ''mem: invalid snapshot magic'')
        else if be_get (take 2 (drop 8 header)) \<noteq> snapshotVersion
        then fail (ErrorsNew ''mem: unsupported snapshot version'')
        else if count > MaxInt then fail (ErrorsNew ''mem: snapshot object count is too large'')
        else if declaredTotal > MaxInt then fail (ErrorsNew ''mem: snapshot size is too large'')
        else if cap > 0 \<and> int declaredTotal > cap then fail (ErrorsNew ''mem: snapshot exceeds max size'')
        else
          bnd (restore_loop cap declaredTotal count 0 [] r1) (\<lambda>(objs, tot, r2).
            if tot \<noteq> declaredTotal then fail (ErrorsNew ''mem: snapshot total size mismatch'')
            else bnd (check_trailing r2) (\<lambda>_. ret (objs, tot)))))"

definition mem_Restore :: "reader option \<Rightarrow> (mem_state, unit) act" where
  "mem_Restore ro =
     bnd ctx_Err (\<lambda>_.
       case ro of
         None \<Rightarrow> fail (ErrorsNew ''mem: snapshot reader is nil'')
       | Some r \<Rightarrow>
           bnd get_st (\<lambda>m.
           bnd (restore_read (maxBytes m) r) (\<lambda>(objs, tot).
             put_st (m\<lparr>objects := objs, usedBytes := int tot\<rparr>))))"


section \<open>What a snapshot writes\<close>

definition record_bytes :: "(digest \<times> bytes) list \<Rightarrow> digest \<Rightarrow> bytes" where
  "record_bytes objs key =
     (let data = (case map_of objs key of None \<Rightarrow> [] | Some data \<Rightarrow> data)
      in record_lengths key data @ key @ data)"

definition snapshot_bytes :: "(digest \<times> bytes) list \<Rightarrow> bytes" where
  "snapshot_bytes objs =
     snapshot_header (length (snapshot_keys objs)) (sizes (filter (\<lambda>(key, _). key \<noteq> []) objs)) @
     concat (map (record_bytes objs) (snapshot_keys objs))"

lemma write_part_ok:
  assumes "write_part msg data wr k w = (Inr (None, wr'), w')"
  obtains wr1 w1 where "w_out wr1 = w_out wr @ data" "est w1 = est w" "k wr1 w1 = (Inr (None, wr'), w')"
proof -
  from assms obtain wr1 w1 where c: "WriteAll data wr w = (Inr (None, wr1), w1)"
    and k: "k wr1 w1 = (Inr (None, wr'), w')"
    by (auto simp: write_part_def bnd_ok split: option.splits)
  from WriteAll_out [OF c] have "w_out wr1 = w_out wr @ data" "est w1 = est w" by auto
  with k that show thesis by blast
qed

lemma write_part_live [simp]:
  "ectx w = Live \<Longrightarrow> w_plan wr = [] \<Longrightarrow> write_part msg data wr k w = k (wr\<lparr>w_out := w_out wr @ data\<rparr>) w"
  by (simp add: write_part_def bnd_def WriteAll_live)

lemma snapshot_records_ok:
  "snapshot_records objs keys wr w = (Inr (None, wr'), w') \<Longrightarrow>
    w_out wr' = w_out wr @ concat (map (record_bytes objs) keys) \<and> est w' = est w"
proof (induction objs keys wr arbitrary: w rule: snapshot_records.induct)
  case (2 objs key keys wr)
  define data where "data = (case map_of objs key of None \<Rightarrow> [] | Some data \<Rightarrow> data)"
  from "2.prems" obtain w0 where w0: "ctx_Err w = (Inr (), w0)" and
    run: "write_part ''mem: write snapshot record lengths'' (record_lengths key data) wr (\<lambda>wr1.
        write_part ''mem: write snapshot digest'' key wr1 (\<lambda>wr2.
        write_part ''mem: write snapshot payload'' data wr2 (\<lambda>wr3.
          snapshot_records objs keys wr3))) w0 = (Inr (None, wr'), w')"
    by (auto simp: check_part_def data_def Let_def split: prod.splits sum.splits)
  from run obtain wr3 w3 where out: "w_out wr3 = w_out wr @ record_lengths key data @ key @ data"
    and est: "est w3 = est w0" and rest: "snapshot_records objs keys wr3 w3 = (Inr (None, wr'), w')"
    by (elim write_part_ok) simp
  have "w_out wr' = w_out wr3 @ concat (map (record_bytes objs) keys)" "est w' = est w3"
    using "2.IH" rest by (simp_all add: data_def)
  with out est ctx_Err_estD [OF w0] show ?case
    by (simp add: record_bytes_def [of objs key] data_def [symmetric])
qed auto

lemma snapshot_records_live:
  "ectx w = Live \<Longrightarrow> w_plan wr = [] \<Longrightarrow>
    snapshot_records objs keys wr w =
      (Inr (None, wr\<lparr>w_out := w_out wr @ concat (map (record_bytes objs) keys)\<rparr>), w)"
  by (induction keys arbitrary: wr) (simp_all add: check_part_def ret_def record_bytes_def Let_def)

lemma mem_Snapshot_ok:
  assumes "mem_Snapshot (Some wr) w = (Inr (None, Some wr'), w')"
  shows "w_out wr' = w_out wr @ snapshot_bytes (objects (est w)) \<and> est w' = est w"
proof -
  from assms obtain w0 where w0: "ctx_Err w = (Inr (), w0)" and
    run: "write_part ''mem: write snapshot header''
        (snapshot_header (length (snapshot_keys (objects (est w0)))) (sizes (filter (\<lambda>(key, _). key \<noteq> []) (objects (est w0))))) wr
        (snapshot_records (objects (est w0)) (snapshot_keys (objects (est w0)))) w0 = (Inr (None, wr'), w')"
    by (auto simp: mem_Snapshot_def bnd_ok Let_def split: prod.splits sum.splits)
  from run show ?thesis
    using ctx_Err_estD [OF w0]
    by (elim write_part_ok) (auto simp: snapshot_bytes_def dest!: snapshot_records_ok)
qed

lemma mem_Snapshot_live:
  assumes "ectx w = Live" "w_plan wr = []"
  shows "mem_Snapshot (Some wr) w =
    (Inr (None, Some (wr\<lparr>w_out := w_out wr @ snapshot_bytes (objects (est w))\<rparr>)), w)"
  using assms
  by (simp add: mem_Snapshot_def Let_def bnd_def snapshot_records_live ret_def snapshot_bytes_def)

section \<open>Restoring\<close>

lemma restore_loop_keeps: "keeps I (restore_loop cap dt n tot objs r)"
  by (induction n arbitrary: tot objs r)
    (auto intro!: keeps_intros simp: Let_def split: prod.splits)

lemma check_trailing_keeps: "keeps I (check_trailing r)"
  unfolding check_trailing_def ContextReader_Read_def
  by (auto intro!: keeps_intros split: prod.splits option.splits)

lemma restore_read_keeps: "keeps I (restore_read cap r)"
  unfolding restore_read_def Let_def
  by (auto intro!: keeps_intros restore_loop_keeps check_trailing_keeps split: prod.splits)

lemma restore_read_est: "restore_read cap r w = (x, w') \<Longrightarrow> est w' = est w"
  using keepsD [OF restore_read_keeps [of "\<lambda>s. s = est w"]] by blast

lemma mem_Restore_err: "mem_Restore ro w = (Inl e, w') \<Longrightarrow> est w' = est w"
  by (auto simp: mem_Restore_def monad_defs dest!: ctx_Err_estD restore_read_est
      split: prod.splits sum.splits option.splits)

lemma restore_loop_ok:
  "restore_loop cap dt n tot objs r w = (Inr (objs', tot', r'), w') \<Longrightarrow>
    distinct (map fst objs) \<Longrightarrow> map_of objs [] = None \<Longrightarrow> tot = sizes objs \<Longrightarrow>
    cap > 0 \<longrightarrow> int tot \<le> cap \<Longrightarrow>
    distinct (map fst objs') \<and> map_of objs' [] = None \<and> tot' = sizes objs' \<and> (cap > 0 \<longrightarrow> int tot' \<le> cap)"
proof (induction n arbitrary: tot objs r w)
  case (Suc n)
  from Suc.prems(1) obtain p d payload r2 w2 r3 w3 where
    new: "d \<noteq> []" "map_of objs d = None" and cap: "cap > 0 \<longrightarrow> int (tot + p) \<le> cap" and
    pay: "ReadPayload p r2 w2 = (Inr (payload, r3), w3)" and
    rest: "restore_loop cap dt n (tot + p) (AList.update d payload objs) r3 w3 = (Inr (objs', tot', r'), w')"
    by (auto simp: bnd_ok Let_def not_less split: if_splits) blast+
  have len: "length payload = p" using ReadPayload_ok [OF pay] by simp
  from Suc.IH [OF rest] new cap len Suc.prems(2-4) show ?case
    by (auto simp: distinct_update sizes_update_new)
qed simp

lemma mem_Restore_inv:
  assumes "mem_Restore ro w = (x, w')" "mem_inv (est w)"
  shows "mem_inv (est w')"
proof (cases x)
  case (Inr u)
  with assms(1) obtain r w1 w2 objs tot where c: "ctx_Err w = (Inr (), w1)"
    and rd: "restore_read (maxBytes (est w1)) r w1 = (Inr (objs, tot), w2)"
    and w': "w' = w2\<lparr>est := (est w1)\<lparr>objects := objs, usedBytes := int tot\<rparr>\<rparr>"
    by (auto simp: mem_Restore_def bnd_ok split: option.splits)
  from rd obtain dt n r1 r2 and v v' :: "mem_state env" where
    "restore_loop (maxBytes (est w1)) dt n 0 [] r1 v = (Inr (objs, tot, r2), v')"
    by (auto simp: restore_read_def bnd_ok Let_def split: if_splits)
  from restore_loop_ok [OF this] have "distinct (map fst objs)" "map_of objs [] = None"
    "tot = sizes objs" "maxBytes (est w1) > 0 \<longrightarrow> int tot \<le> maxBytes (est w1)" by auto
  with w' assms(2) ctx_Err_estD [OF c] show ?thesis
    by (auto simp: mem_inv_def)
qed (use assms mem_Restore_err in simp)


section \<open>The round trip\<close>

text \<open>An archive can hold a key of at most \<open>maxSnapshotDigestSize\<close> bytes.\<close>

definition snapshottable :: "(digest \<times> bytes) list \<Rightarrow> bool" where
  "snapshottable objs \<longleftrightarrow> (\<forall>(k, v) \<in> set objs. length k \<le> maxSnapshotDigestSize) \<and>
     sizes objs \<le> MaxInt \<and> length objs \<le> MaxInt"

lemma be_get_put_8: "v \<le> MaxInt \<Longrightarrow> be_get (be_put 8 v) = v"
  by (rule be_get_put) (simp add: MaxInt_def)

lemma restore_one:
  assumes live: "ectx w = Live" and data: "r_data r = record_lengths key v @ key @ v @ rest"
    and ne: "[] \<notin> set (r_chunks r)" and key: "key \<noteq> []" "length key \<le> maxSnapshotDigestSize"
    and fresh: "map_of objs key = None" and fits: "tot + length v \<le> dt" "dt \<le> MaxInt" "cap > 0 \<longrightarrow> int dt \<le> cap"
  obtains r' where "r_data r' = rest" "r_err r' = r_err r" "[] \<notin> set (r_chunks r')"
    "restore_loop cap dt (Suc n) tot objs r w =
       restore_loop cap dt n (tot + length v) (AList.update key v objs) r' w"
proof -
  have len: "length (record_lengths key v) = 16" by (simp add: record_lengths_def)
  from live obtain r1 where r1: "ReadAll 16 r w = (Inr (record_lengths key v, r1), w)"
    "r_data r1 = key @ v @ rest" "r_err r1 = r_err r" "[] \<notin> set (r_chunks r1)"
    using read_live [of w 16 r] data len ne by auto
  from live obtain r2 where r2: "ReadAll (length key) r1 w = (Inr (key, r2), w)"
    "r_data r2 = v @ rest" "r_err r2 = r_err r" "[] \<notin> set (r_chunks r2)"
    using read_live [of w "length key" r1] r1 by auto
  from live obtain r3 where r3: "ReadPayload (length v) r2 w = (Inr (v, r3), w)"
    "r_data r3 = rest" "r_err r3 = r_err r" "[] \<notin> set (r_chunks r3)"
    using read_live [of w "length v" r2] r2 by auto
  have sz: "be_get (take 8 (record_lengths key v)) = length key"
    "be_get (drop 8 (record_lengths key v)) = length v"
    using key fits by (auto simp: record_lengths_def be_get_put_8 maxSnapshotDigestSize_def MaxInt_def)
  have "restore_loop cap dt (Suc n) tot objs r w =
      restore_loop cap dt n (tot + length v) (AList.update key v objs) r3 w"
    using live key fresh fits
    by (auto simp: bnd_def wrapping_def fail_def r1(1) r2(1) r3(1) sz Let_def maxSnapshotDigestSize_def MaxInt_def)
  with r3 that show thesis by blast
qed

lemma restore_all:
  assumes "ectx w = Live" "r_data r = concat (map (record_bytes objs) keys)" "r_err r = None"
    and "[] \<notin> set (r_chunks r)" "distinct keys" "\<forall>k \<in> set keys. k \<noteq> [] \<and> length k \<le> maxSnapshotDigestSize \<and>
      map_of objs k \<noteq> None \<and> map_of acc k = None"
    and "tot + sum_list (map (\<lambda>k. length (the (map_of objs k))) keys) = dt" "dt \<le> MaxInt"
    and "cap > 0 \<longrightarrow> int dt \<le> cap"
  shows "\<exists>acc' r'. restore_loop cap dt (length keys) tot acc r w = (Inr (acc', dt, r'), w) \<and>
    map_of acc' = (\<lambda>k. if k \<in> set keys then map_of objs k else map_of acc k) \<and>
    r_chunks r' = [] \<and> r_err r' = None"
  using assms
proof (induction keys arbitrary: acc tot r)
  case Nil
  then show ?case by (auto simp: ret_def no_chunks)
next
  case (Cons k keys)
  from Cons.prems(6) obtain v where v: "map_of objs k = Some v" by auto
  have data: "r_data r = record_lengths k v @ k @ v @ concat (map (record_bytes objs) keys)"
    using Cons.prems(2) v by (simp add: record_bytes_def [of objs k] Let_def)
  obtain r' where r': "r_data r' = concat (map (record_bytes objs) keys)" "r_err r' = r_err r"
    "[] \<notin> set (r_chunks r')"
    "restore_loop cap dt (Suc (length keys)) tot acc r w =
       restore_loop cap dt (length keys) (tot + length v) (AList.update k v acc) r' w"
    using restore_one [OF Cons.prems(1) data Cons.prems(4), of acc tot dt cap "length keys"] Cons.prems v
    by auto
  have "\<exists>acc' r''. restore_loop cap dt (length keys) (tot + length v) (AList.update k v acc) r' w =
      (Inr (acc', dt, r''), w) \<and>
    map_of acc' = (\<lambda>k'. if k' \<in> set keys then map_of objs k' else map_of (AList.update k v acc) k') \<and>
    r_chunks r'' = [] \<and> r_err r'' = None"
    using Cons.prems v r' by (intro Cons.IH) auto
  with r'(4) v Cons.prems(5) show ?case by (auto simp del: restore_loop.simps simp: fun_eq_iff)
qed

lemma sizes_sum:
  "distinct (map fst objs) \<Longrightarrow> sizes objs = (\<Sum>k \<in> fst ` set objs. length (the (map_of objs k)))"
proof (induction objs)
  case (Cons kv objs)
  obtain k v where kv: "kv = (k, v)" by fastforce
  have "(\<Sum>x \<in> fst ` set objs. length (the (map_of ((k, v) # objs) x))) =
      (\<Sum>x \<in> fst ` set objs. length (the (map_of objs x)))"
    using Cons.prems kv by (intro sum.cong) auto
  with Cons kv show ?case by simp
qed simp

lemma sizes_sorted_keys:
  "distinct (map fst objs) \<Longrightarrow>
    sum_list (map (\<lambda>k. length (the (map_of objs k))) (sort (map fst objs))) = sizes objs"
  by (simp add: sum_list_distinct_conv_sum_set sizes_sum)

lemma restore_snapshot:
  assumes "ectx w = Live" "distinct (map fst objs)" "map_of objs [] = None" "snapshottable objs"
    and "r_data r = snapshot_bytes objs" "r_err r = None" "[] \<notin> set (r_chunks r)"
    and "cap > 0 \<longrightarrow> int (sizes objs) \<le> cap"
  shows "\<exists>objs'. restore_read cap r w = (Inr (objs', sizes objs), w) \<and> map_of objs' = map_of objs"
proof -
  have ne: "[] \<notin> fst ` set objs" using assms(3) by (simp add: map_of_eq_None_iff)
  have keys: "snapshot_keys objs = sort (map fst objs)"
    using ne by (force simp: snapshot_keys_def filter_id_conv intro: arg_cong [where f = sort])
  have live: "filter (\<lambda>(key, _). key \<noteq> []) objs = objs"
    using ne by (force simp: filter_id_conv)
  let ?h = "snapshot_header (length objs) (sizes objs)"
  have h: "length ?h = snapshotHeaderSize"
    by (simp add: snapshot_header_def snapshotMagic_def snapshotHeaderSize_def)
  have data: "r_data r = ?h @ concat (map (record_bytes objs) (sort (map fst objs)))"
    using assms(5) by (simp add: snapshot_bytes_def keys live)
  obtain r1 where r1: "ReadAll snapshotHeaderSize r w = (Inr (?h, r1), w)"
    "r_data r1 = concat (map (record_bytes objs) (sort (map fst objs)))" "r_err r1 = None" "[] \<notin> set (r_chunks r1)"
    using read_live [of w snapshotHeaderSize r] assms(1,6,7) data h by auto
  have ks: "\<forall>k \<in> set (sort (map fst objs)). k \<noteq> [] \<and> length k \<le> maxSnapshotDigestSize \<and>
      map_of objs k \<noteq> None \<and> map_of [] k = (None :: bytes option)"
    using ne assms(4) by (force simp: snapshottable_def map_of_eq_None_iff)
  obtain objs' r2 where loop: "restore_loop cap (sizes objs) (length objs) 0 [] r1 w = (Inr (objs', sizes objs, r2), w)"
    "map_of objs' = (\<lambda>k. if k \<in> set (sort (map fst objs)) then map_of objs k else map_of [] k)"
    "r_chunks r2 = []" "r_err r2 = None"
    using restore_all [OF assms(1) r1(2-4) _ ks, of 0 "sizes objs" cap] assms(2,4,8) sizes_sorted_keys [OF assms(2)]
    by (auto simp: snapshottable_def simp del: restore_loop.simps)
  have hd: "take 8 ?h = snapshotMagic" "be_get (take 2 (drop 8 ?h)) = snapshotVersion"
    "be_get (take 8 (drop 10 ?h)) = length objs" "be_get (drop 18 ?h) = sizes objs"
    using assms(4) by (simp_all add: snapshot_header_def snapshotMagic_def snapshotVersion_def snapshottable_def be_get_put_8)
  have tr: "check_trailing r2 w = (Inr (), w)"
    using loop(3,4) assms(1)
    by (simp add: check_trailing_def ContextReader_Read_def monad_defs read_step_def)
  have "restore_read cap r w = (Inr (objs', sizes objs), w)"
    using assms(4,8)
    by (auto simp: restore_read_def bnd_def wrapping_def r1(1) hd loop(1) tr ret_def snapshottable_def Let_def)
  moreover have "map_of objs' = map_of objs"
    using loop(2) by (simp add: fun_eq_iff) (metis map_of_eq_None_iff)
  ultimately show ?thesis by blast
qed


section \<open>Properties\<close>

text \<open>
  C28: snapshot and restore are inverse. On a live context a snapshot of a valid backend always
  succeeds into a willing writer, and restoring what it wrote, delivered in any chunks, into any backend
  whose cap allows it gives a valid backend with exactly the same objects.
\<close>

theorem snapshot_restore_roundtrip:
  assumes "mem_inv (est w)" "ectx w = Live" "w_plan wr = []" "w_out wr = []"
    and "snapshottable (objects (est w))"
    and "mem_inv (est w2)" "ectx w2 = Live" "maxBytes (est w2) > 0 \<longrightarrow> usedBytes (est w) \<le> maxBytes (est w2)"
  shows "\<exists>wr'. mem_Snapshot (Some wr) w = (Inr (None, Some wr'), w) \<and>
    (\<forall>r. r_data r = w_out wr' \<longrightarrow> r_err r = None \<longrightarrow> [] \<notin> set (r_chunks r) \<longrightarrow>
      (\<exists>w3. mem_Restore (Some r) w2 = (Inr (), w3) \<and> mem_inv (est w3) \<and>
        map_of (objects (est w3)) = map_of (objects (est w)) \<and> usedBytes (est w3) = usedBytes (est w)))"
proof -
  let ?objs = "objects (est w)"
  have inv: "distinct (map fst ?objs)" "map_of ?objs [] = None" "usedBytes (est w) = int (sizes ?objs)"
    using assms(1) by (simp_all add: mem_inv_def)
  have "\<exists>w3. mem_Restore (Some r) w2 = (Inr (), w3) \<and> mem_inv (est w3) \<and>
      map_of (objects (est w3)) = map_of ?objs \<and> usedBytes (est w3) = usedBytes (est w)"
    if r: "r_data r = snapshot_bytes ?objs" "r_err r = None" "[] \<notin> set (r_chunks r)" for r
  proof -
    obtain objs' where rd: "restore_read (maxBytes (est w2)) r w2 = (Inr (objs', sizes ?objs), w2)"
      "map_of objs' = map_of ?objs"
      using restore_snapshot [OF assms(7) inv(1,2) assms(5) r] assms(8) inv(3) by auto
    let ?w3 = "w2\<lparr>est := (est w2)\<lparr>objects := objs', usedBytes := int (sizes ?objs)\<rparr>\<rparr>"
    have res: "mem_Restore (Some r) w2 = (Inr (), ?w3)"
      using rd(1) assms(7) by (simp add: mem_Restore_def bnd_def get_st_def put_st_def)
    from mem_Restore_inv [OF res assms(6)] res rd(2) inv(3) show ?thesis by auto
  qed
  with mem_Snapshot_live [OF assms(2,3)] assms(4) show ?thesis by auto
qed

theorem snapshot_restore_roundtrip_witness:
  "\<exists>wr' w3. mem_Snapshot (Some \<lparr>w_out = [], w_plan = []\<rparr>) \<lparr>ectx = Live,
      est = \<lparr>objects = [([1, 2], [7, 8, 9])], maxBytes = 0, usedBytes = 3\<rparr>\<rparr> =
      (Inr (None, Some wr'), \<lparr>ectx = Live, est = \<lparr>objects = [([1, 2], [7, 8, 9])], maxBytes = 0, usedBytes = 3\<rparr>\<rparr>) \<and>
     mem_Restore (Some (bytes_reader (w_out wr'))) \<lparr>ectx = Live, est = mem_New 8\<rparr> = (Inr (), w3) \<and>
     map_of (objects (est w3)) = [[1, 2] \<mapsto> [7, 8, 9]] \<and> usedBytes (est w3) = 3"
proof -
  let ?w = "\<lparr>ectx = Live, est = \<lparr>objects = [([1, 2], [7, 8, 9])], maxBytes = 0, usedBytes = 3\<rparr>\<rparr> :: mem_state env"
  have inv: "mem_inv (est ?w)" "snapshottable (objects (est ?w))"
    by (simp_all add: mem_inv_def MaxInt64_def snapshottable_def maxSnapshotDigestSize_def MaxInt_def)
  have "mem_inv (est \<lparr>ectx = Live, est = mem_New 8\<rparr>)" by (simp add: mem_inv_New MaxInt64_def)
  from snapshot_restore_roundtrip [OF inv(1) _ _ _ inv(2) this, of "\<lparr>w_out = [], w_plan = []\<rparr>"] obtain wr' where
    snap: "mem_Snapshot (Some \<lparr>w_out = [], w_plan = []\<rparr>) ?w = (Inr (None, Some wr'), ?w)"
    and rest: "\<forall>r. r_data r = w_out wr' \<longrightarrow> r_err r = None \<longrightarrow> [] \<notin> set (r_chunks r) \<longrightarrow>
      (\<exists>w3. mem_Restore (Some r) \<lparr>ectx = Live, est = mem_New 8\<rparr> = (Inr (), w3) \<and> mem_inv (est w3) \<and>
        map_of (objects (est w3)) = map_of (objects (est ?w)) \<and> usedBytes (est w3) = usedBytes (est ?w))"
    by (auto simp: mem_New_def)
  have "r_data (bytes_reader x) = x" "r_err (bytes_reader x) = None" "[] \<notin> set (r_chunks (bytes_reader x))" for x
    by (simp_all add: bytes_reader_def r_data_def)
  with rest have "\<exists>w3. mem_Restore (Some (bytes_reader (w_out wr'))) \<lparr>ectx = Live, est = mem_New 8\<rparr> = (Inr (), w3) \<and> mem_inv (est w3) \<and>
        map_of (objects (est w3)) = map_of (objects (est ?w)) \<and> usedBytes (est w3) = usedBytes (est ?w)" by blast
  with snap show ?thesis by auto
qed

text \<open>
  C29: whatever bytes are offered to it, and at whatever point the context is cancelled, a restore
  leaves a valid backend, and one that reports an error leaves the backend as it was.
\<close>

theorem restore_all_or_nothing:
  assumes "mem_inv (est w)" "mem_Restore ro w = (x, w')"
  shows "mem_inv (est w') \<and> maxBytes (est w') = maxBytes (est w) \<and> (\<not> is_ok x \<longrightarrow> est w' = est w)"
proof -
  have "maxBytes (est w') = maxBytes (est w)"
    using assms(2)
    by (auto simp: mem_Restore_def monad_defs dest!: ctx_Err_estD restore_read_est
        split: prod.splits sum.splits option.splits)
  with mem_Restore_inv [OF assms(2,1)] mem_Restore_err [of ro w _ w'] assms(2) show ?thesis
    by (cases x) auto
qed

theorem restore_all_or_nothing_witness:
  "est (snd (mem_Restore (Some (bytes_reader [1, 2, 3])) \<lparr>ectx = Live, est = mem_New 4\<rparr>)) = mem_New 4"
proof -
  let ?w = "\<lparr>ectx = Live, est = mem_New 4\<rparr> :: mem_state env"
  have "\<not> is_ok (fst (mem_Restore (Some (bytes_reader [1, 2, 3])) ?w))"
    by (simp add: mem_Restore_def restore_read_def monad_defs ReadAll_def snapshotHeaderSize_def
        read_loop.simps read_step_def bytes_reader_def)
  moreover have "mem_inv (est ?w)" by (simp add: mem_inv_New MaxInt64_def)
  ultimately show ?thesis
    using restore_all_or_nothing [of ?w "Some (bytes_reader [1, 2, 3])"
        "fst (mem_Restore (Some (bytes_reader [1, 2, 3])) ?w)"
        "snd (mem_Restore (Some (bytes_reader [1, 2, 3])) ?w)"] by simp
qed

end
