(* ===== verification/Mem_Store.thy ===== *)
theory Mem_Store
  imports Mem_Backend Cas_Verify
begin

text \<open>
  The typed layer over the in-memory backend: the locales of the store, the sweep and the
  verifier interpreted on \<open>mem_backend\<close>, and the properties that span the components.
\<close>

interpretation mem_store: typed_store mem_backend mem_abs mem_inv "Store_New mem_backend c h ops"
  for c h ops
  by unfold_locales (simp add: Store_New_def)

interpretation mem_stream: stream_client mem_backend mem_abs mem_inv
  by unfold_locales

interpretation mem_sweep: reliable_sweeper mem_backend mem_abs mem_inv
  by unfold_locales

interpretation mem_audit: auditor mem_backend mem_abs mem_inv
  by unfold_locales

lemma Store_New_simps [simp]:
  "s_backend (Store_New be c h ops) = be" "s_codec (Store_New be c h ops) = c"
  "s_hasher (Store_New be c h ops) = h" "s_obj (Store_New be c h ops) = ops"
  "s_codecName (Store_New be c h ops) = codecNameOf c"
  by (simp_all add: Store_New_def)

lemma b_Put_mem [simp]: "b_Put mem_backend = mem_Put"
  by (simp add: mem_backend_def)

section \<open>Client instances\<close>

text \<open>
  A concrete client for the witnesses: objects are lists of one-byte digests, encoded as the bytes
  themselves; the digest of a content is the content behind a marker byte.
\<close>

definition demo_codec :: "string \<Rightarrow> digest list codec" where
  "demo_codec name =
     \<lparr>c_Encode = (\<lambda>ds. Inr (map hd ds)), c_Decode = (\<lambda>p. Inr (map (\<lambda>b. [b]) p)), c_CodecName = Some name\<rparr>"

definition demo_hasher :: hasher where
  "demo_hasher = \<lparr>h_Digest = (\<lambda>r. case r_err r of None \<Rightarrow> Inr (1 # r_data r) | Some e \<Rightarrow> Inl e), h_Validate = (\<lambda>_. None)\<rparr>"

definition demo_ops :: "digest list object_ops" where
  "demo_ops = \<lparr>o_Type = (\<lambda>_. ''t@1''), o_References = (\<lambda>ds. ds), o_Validate = None, o_isNil = (\<lambda>_. False)\<rparr>"

abbreviation demo_store :: "string \<Rightarrow> (digest list, mem_state) store" where
  "demo_store name \<equiv> Store_New mem_backend (demo_codec name) demo_hasher demo_ops"

lemma demo_hasher_law: "hasher_law demo_hasher (\<lambda>b. 1 # b)"
  by (simp add: hasher_law_def demo_hasher_def)

lemma demo_storable: "length name \<le> maxPeekNameLen \<Longrightarrow> storable (demo_store name) [[7]]"
  by (simp add: storable_def validateObject_def demo_ops_def demo_codec_def codec_law_def codecNameOf_def
      maxPeekNameLen_def)

section \<open>Put and read back\<close>

text \<open>
  C1: a storable object that fits the cap is stored under the digest of its frame, and a later
  read under any live context returns the same object, its type name and the current format
  version; every other object stays as it was.
\<close>

theorem store_put_get:
  assumes "mem_inv (est w)" "ectx w = Live" "hasher_law h H"
    and "storable (Store_New mem_backend c h ops) v"
    and "maxBytes (est w) \<le> 0 \<or>
      usedBytes (est w) + int (length (frame_of (Store_New mem_backend c h ops) v)) \<le> maxBytes (est w)"
  shows "\<exists>d w'. Store_Put (Store_New mem_backend c h ops) v w = (Inr d, w') \<and>
    d = H (frame_of (Store_New mem_backend c h ops) v) \<and> mem_inv (est w') \<and>
    (\<forall>d'. d' \<noteq> d \<longrightarrow> map_of (objects (est w')) d' = map_of (objects (est w)) d') \<and>
    (\<forall>w2. est w2 = est w' \<and> ectx w2 = Live \<longrightarrow>
      fst (Store_Get (Store_New mem_backend c h ops) d w2) = Inr v \<and>
      fst (Store_Type (Store_New mem_backend c h ops) d w2) = Inr (o_Type ops v) \<and>
      fst (Store_Version (Store_New mem_backend c h ops) d w2) = Inr EnvelopeVersion)"
proof -
  let ?s = "Store_New mem_backend c h ops"
  let ?f = "frame_of ?s v"
  have hl: "hasher_law (s_hasher ?s) H" using assms(3) by simp
  have enc: "Store_encoded ?s v = Inr (H ?f, ?f)" using Store_encoded_storable [OF hl assms(4)] .
  have fit: "maxBytes (est w) \<le> 0 \<or>
      usedBytes (est w) - object_len (est w) (H ?f) + int (length (r_data (bytes_reader ?f))) \<le> maxBytes (est w)"
    using assms(5) object_len_range [OF assms(1), of "H ?f"] by auto
  from mem_Put_live [OF assms(1,2) hasher_lawD(3) [OF assms(3)] _ fit] obtain w' where
    put: "mem_Put (H ?f) (bytes_reader ?f) w = (Inr (), w')"
    and upd: "mem_abs (est w') = (mem_abs (est w))(H ?f \<mapsto> ?f)" by auto
  have run: "Store_Put ?s v w = (Inr (H ?f), w')"
    using enc put assms(2) by (simp add: Store_Put_def bnd_def of_result_def ret_def)
  have inv': "mem_inv (est w')" using mem_Put_inv [OF assms(1) put] .
  have later: "fst (Store_Get ?s (H ?f) w2) = Inr v \<and> fst (Store_Type ?s (H ?f) w2) = Inr (o_Type ops v) \<and>
      fst (Store_Version ?s (H ?f) w2) = Inr EnvelopeVersion" if w2: "est w2 = est w'" "ectx w2 = Live" for w2
  proof -
    have pre: "mem_inv (est w2)" "mem_abs (est w2) (H ?f) = Some ?f" "h_Validate (s_hasher ?s) (H ?f) = None"
      using w2 upd inv' assms(3) by (simp_all add: hasher_lawD)
    from mem_store.Store_Get_value [OF pre(1) w2(2) pre(2,3)] mem_store.Store_peek_value [OF pre(1) w2(2) pre(2,3)]
    show ?thesis
      using frame_of_peek [OF assms(4)] Store_decode_frame [OF assms(4)] by (metis Store_New_simps(4) fst_conv)
  qed
  show ?thesis
    using run inv' upd later by (intro exI [of _ "H ?f"] exI [of _ w']) auto
qed

theorem store_put_get_witness:
  "\<exists>d w'. Store_Put (demo_store ''cbor'') [[7]] \<lparr>ectx = Live, est = mem_New 100\<rparr> = (Inr d, w') \<and>
     fst (Store_Get (demo_store ''cbor'') d (w'\<lparr>ectx := Live\<rparr>)) = Inr [[7]]"
proof -
  have "length (frame_of (demo_store ''cbor'') [[7]]) = 12"
    by (simp add: frame_of_def demo_codec_def demo_ops_def encodeEnvelope_layout codecNameOf_def PutUvarint.simps)
  then show ?thesis
    using store_put_get [of "\<lparr>ectx = Live, est = mem_New 100\<rparr>" demo_hasher "\<lambda>b. 1 # b" "demo_codec ''cbor''" demo_ops "[[7]]"]
      demo_hasher_law demo_storable [of "''cbor''"] mem_inv_New [of 100]
    by (auto simp: mem_New_def MaxInt64_def maxPeekNameLen_def)
qed

text \<open>
  a put that reports an error, whether the object is nil or invalid, does not encode, hashes
  to an unusable digest, exceeds the cap or is cancelled at any point, leaves every stored
  object as it was.
\<close>

theorem store_put_failure_is_silent:
  assumes "mem_inv (est w)" "Store_Put (Store_New mem_backend c h ops) v w = (Inl e, w')"
  shows "map_of (objects (est w')) = map_of (objects (est w)) \<and> mem_inv (est w')"
  using mem_store.Store_Put_err [OF assms] .

theorem store_put_failure_is_silent_witness:
  "map_of (objects (est (snd (Store_Put (demo_store ''cbor'') [[7]]
     \<lparr>ectx = CancelAfter 0 ByCancel, est = mem_New 100\<rparr>)))) = map_of (objects (mem_New 100))"
proof -
  let ?w = "\<lparr>ectx = CancelAfter 0 ByCancel, est = mem_New 100\<rparr> :: mem_state env"
  have "Store_Put (demo_store ''cbor'') [[7]] ?w = (Inl Canceled, ?w)"
    by (simp add: Store_Put_def)
  from store_put_failure_is_silent [OF _ this] mem_inv_New [of 100] this show ?thesis
    by (simp add: MaxInt64_def)
qed

text \<open>
  a deduplicating put reports whether the content was already there, stores it exactly when it
  was not, and putting the same object again is always a duplicate.
\<close>

theorem store_put_dedup:
  assumes "mem_inv (est w)" "ectx w = Live" "hasher_law h H" "storable (Store_New mem_backend c h ops) v"
    and "Store_PutDedup (Store_New mem_backend c h ops) v w = (Inr (d, dup), w')"
  shows "d = H (frame_of (Store_New mem_backend c h ops) v) \<and>
    dup = (map_of (objects (est w)) d \<noteq> None) \<and> map_of (objects (est w')) d \<noteq> None \<and>
    (\<forall>w2 d2 dup2 w3. est w2 = est w' \<and> ectx w2 = Live \<and>
      Store_PutDedup (Store_New mem_backend c h ops) v w2 = (Inr (d2, dup2), w3) \<longrightarrow>
      d2 = d \<and> dup2 \<and> map_of (objects (est w3)) = map_of (objects (est w')))"
proof -
  let ?s = "Store_New mem_backend c h ops"
  have hl: "hasher_law (s_hasher ?s) H" using assms(3) by simp
  note first = mem_store.PutDedup_value [OF assms(1,2) hl assms(4,5)]
  have again: "d2 = d \<and> dup2 \<and> mem_abs (est w3) = mem_abs (est w')"
    if "est w2 = est w'" "ectx w2 = Live" "Store_PutDedup ?s v w2 = (Inr (d2, dup2), w3)" for w2 d2 dup2 w3
    using mem_store.PutDedup_value [OF _ that(2) hl assms(4) that(3)] first that(1)
    by (auto split: if_splits)
  show ?thesis using first again by (auto split: if_splits)
qed

theorem store_put_dedup_witness:
  "fst (Store_PutDedup (demo_store ''cbor'') [[7]] \<lparr>ectx = Live, est = mem_New 0\<rparr>) =
     Inr (1 # frame_of (demo_store ''cbor'') [[7]], False)"
proof -
  let ?w = "\<lparr>ectx = Live, est = mem_New 0\<rparr> :: mem_state env"
  let ?s = "demo_store ''cbor''"
  have st: "storable ?s [[7]]" by (simp add: demo_storable maxPeekNameLen_def)
  have enc: "Store_encoded ?s [[7]] = Inr (1 # frame_of ?s [[7]], frame_of ?s [[7]])"
    using Store_encoded_storable [OF _ st, of "\<lambda>b. 1 # b"] demo_hasher_law by simp
  have inv: "mem_inv (est ?w)" by (simp add: mem_inv_New MaxInt64_def)
  from mem_Put_live [of ?w "1 # frame_of ?s [[7]]" "bytes_reader (frame_of ?s [[7]])"] inv obtain w1 where
    "mem_Put (1 # frame_of ?s [[7]]) (bytes_reader (frame_of ?s [[7]])) ?w = (Inr (), w1)"
    by (auto simp: mem_New_def)
  then have run: "Store_PutDedup ?s [[7]] ?w = (Inr (1 # frame_of ?s [[7]], False), w1)"
    using enc by (simp add: Store_PutDedup_def bnd_def of_result_def ret_def mem_backend_def mem_live mem_New_def)
  from store_put_dedup [OF inv _ demo_hasher_law st run] run show ?thesis by simp
qed

section \<open>Reading what is there\<close>

text \<open>
  C6: the verdict of a typed read. On a live context and a digest the hasher accepts, a missing
  object is \<open>ErrNotFound\<close>; a stored frame that does not parse is \<open>ErrCorrupt\<close> and never a type or
  codec mismatch; a frame written under another codec tag is \<open>ErrCodecMismatch\<close> before any payload
  is decoded; a payload that does not decode is \<open>ErrCorrupt\<close>; an object of another type is
  \<open>ErrUnknownType\<close>; and an object is returned only if it is not nil, of the stored type and valid.
\<close>

theorem store_get_verdict:
  assumes "mem_inv (est w)" "ectx w = Live" "d \<noteq> []" "h_Validate h d = None"
  shows "case map_of (objects (est w)) d of
      None \<Rightarrow> \<exists>e. fst (Store_Get (Store_New mem_backend c h ops) d w) = Inl e \<and> errors_Is e ErrNotFound
    | Some data \<Rightarrow>
        (case decodeEnvelope data of
           Inl e \<Rightarrow> fst (Store_Get (Store_New mem_backend c h ops) d w) = Inl e \<and> errors_Is e ErrCorrupt \<and>
             \<not> errors_Is e ErrUnknownType \<and> \<not> errors_Is e ErrCodecMismatch
         | Inr env \<Rightarrow>
             if codecNameOf c \<noteq> '''' \<and> env_Codec env \<noteq> '''' \<and> env_Codec env \<noteq> codecNameOf c
             then \<exists>e. fst (Store_Get (Store_New mem_backend c h ops) d w) = Inl e \<and> errors_Is e ErrCodecMismatch
             else (case c_Decode c (env_Data env) of
                 Inl _ \<Rightarrow> \<exists>e. fst (Store_Get (Store_New mem_backend c h ops) d w) = Inl e \<and> errors_Is e ErrCorrupt
               | Inr v \<Rightarrow>
                   if o_isNil ops v
                   then \<exists>e. fst (Store_Get (Store_New mem_backend c h ops) d w) = Inl e \<and> errors_Is e ErrCorrupt
                   else if o_Type ops v \<noteq> env_Type env
                   then \<exists>e. fst (Store_Get (Store_New mem_backend c h ops) d w) = Inl e \<and> errors_Is e ErrUnknownType
                   else if validateObject ops v \<noteq> None
                   then \<exists>e. fst (Store_Get (Store_New mem_backend c h ops) d w) = Inl e \<and> errors_Is e ErrCorrupt
                   else fst (Store_Get (Store_New mem_backend c h ops) d w) = Inr v))"
proof (cases "map_of (objects (est w)) d")
  case None
  with mem_store.Store_Get_missing [OF assms(1,2) None assms(3), of c h ops] assms(4) show ?thesis by auto
next
  case (Some data)
  obtain w' where g: "Store_Get (Store_New mem_backend c h ops) d w = (Store_decode (Store_New mem_backend c h ops) data, w')"
    using mem_store.Store_Get_value [OF assms(1,2) Some, of c h ops] assms(4) by auto
  with Some show ?thesis
    by (auto simp: Store_decode_def Store_checkCodec_def validateDecoded_def validateObject_def
        dest: decodeEnvelope_error decodeEnvelope_error_only split: sum.splits option.splits)
qed

definition verdict_demo :: "mem_state env" where
  "verdict_demo = \<lparr>ectx = Live, est = \<lparr>objects = [([65], [2, 0, 3, 116, 64, 49, 1, 66]), ([9], [0])], maxBytes = 0, usedBytes = 9\<rparr>\<rparr>"

theorem store_get_verdict_witness:
  "(\<exists>e. fst (Store_Get (demo_store ''cbor'') [5] verdict_demo) = Inl e \<and> errors_Is e ErrNotFound) \<and>
   (\<exists>e. fst (Store_Get (demo_store ''cbor'') [9] verdict_demo) = Inl e \<and> errors_Is e ErrCorrupt) \<and>
   fst (Store_Get (demo_store ''cbor'') [65] verdict_demo) = Inr [[66]]"
proof -
  have inv: "mem_inv (est verdict_demo)" "ectx verdict_demo = Live" by (simp_all add: verdict_demo_def mem_inv_def MaxInt64_def)
  have valid: "h_Validate demo_hasher d = None" for d by (simp add: demo_hasher_def)
  have at: "map_of (objects (est verdict_demo)) [5] = None" "map_of (objects (est verdict_demo)) [9] = Some [0]"
    "map_of (objects (est verdict_demo)) [65] = Some [2, 0, 3, 116, 64, 49, 1, 66]" by (simp_all add: verdict_demo_def)
  have "\<not> is_ok (decodeEnvelope [0])" by code_simp
  then obtain e where bad: "decodeEnvelope [0] = Inl e" by (cases "decodeEnvelope [0]") auto
  have good: "decodeEnvelope [2, 0, 3, 116, 64, 49, 1, 66] = Inr \<lparr>env_Type = ''t@1'', env_Codec = [], env_Data = [66]\<rparr>"
    "c_Decode (demo_codec ''cbor'') [66] = Inr [[66]]" "\<not> o_isNil demo_ops [[66]]" "o_Type demo_ops [[66]] = ''t@1''"
    "validateObject demo_ops [[66]] = None" by code_simp+
  note verdict = store_get_verdict [OF inv _ valid, of _ "demo_codec ''cbor''" demo_ops]
  show ?thesis using verdict [of "[5]"] verdict [of "[9]"] verdict [of "[65]"] by (simp add: at bad good)
qed

text \<open>
  swapping the codec behind a type is detected. An object written through one store and read
  through another over the same backend whose codec declares a different tag is
  \<open>ErrCodecMismatch\<close>, whatever the second codec would make of the payload.
\<close>

theorem store_codec_swap_detected:
  assumes "mem_inv (est w)" "ectx w = Live" "hasher_law h H"
    and "storable (Store_New mem_backend c h ops) v"
    and "Store_Put (Store_New mem_backend c h ops) v w = (Inr d, w')" "est w2 = est w'" "ectx w2 = Live"
    and "codecNameOf c \<noteq> ''''" "codecNameOf c' \<noteq> ''''" "codecNameOf c' \<noteq> codecNameOf c"
    and "map_of (objects (est w)) d = None"
  shows "\<exists>e. fst (Store_Get (Store_New mem_backend c' h ops') d w2) = Inl e \<and> errors_Is e ErrCodecMismatch"
proof -
  let ?s = "Store_New mem_backend c h ops" and ?t = "Store_New mem_backend c' h ops'"
  have hl: "hasher_law (s_hasher ?s) H" using assms(3) by simp
  note put = mem_store.put_get [OF assms(1) hl assms(4,5) _ assms(6,7)]
  have inv2: "mem_inv (est w2)"
    using mem_store.Store_Put_ok [OF assms(1,5)] assms(6) by metis
  have "mem_abs (est w2) d = Some (frame_of ?s v)" "h_Validate (s_hasher ?t) d = None"
    using put assms(3,6,11) by (simp_all add: hasher_lawD)
  from mem_store.Store_Get_value [OF inv2 assms(7) this] Store_decode_other_codec [OF assms(4), of ?t] assms(8-10)
  show ?thesis by (metis Store_New_simps(5) fst_conv)
qed

theorem store_codec_swap_detected_witness:
  "\<exists>d w' e. Store_Put (demo_store ''cbor'') [[7]] \<lparr>ectx = Live, est = mem_New 0\<rparr> = (Inr d, w') \<and>
     fst (Store_Get (demo_store ''gob'') d (w'\<lparr>ectx := Live\<rparr>)) = Inl e \<and> errors_Is e ErrCodecMismatch"
proof -
  let ?w = "\<lparr>ectx = Live, est = mem_New 0\<rparr> :: mem_state env"
  let ?s = "demo_store ''cbor''"
  have st: "storable ?s [[7]]" by (simp add: demo_storable maxPeekNameLen_def)
  have inv: "mem_inv (est ?w)" by (simp add: mem_inv_New MaxInt64_def)
  have enc: "Store_encoded ?s [[7]] = Inr (1 # frame_of ?s [[7]], frame_of ?s [[7]])"
    using Store_encoded_storable [OF _ st, of "\<lambda>b. 1 # b"] demo_hasher_law by simp
  from mem_Put_live [of ?w "1 # frame_of ?s [[7]]" "bytes_reader (frame_of ?s [[7]])"] inv obtain w1 where
    "mem_Put (1 # frame_of ?s [[7]]) (bytes_reader (frame_of ?s [[7]])) ?w = (Inr (), w1)"
    by (auto simp: mem_New_def)
  then have run: "Store_Put ?s [[7]] ?w = (Inr (1 # frame_of ?s [[7]]), w1)"
    using enc by (simp add: Store_Put_def bnd_def of_result_def ret_def)
  from store_codec_swap_detected [OF inv _ demo_hasher_law st run, of "w1\<lparr>ectx := Live\<rparr>" "demo_codec ''gob''" demo_ops] run
  show ?thesis by (auto simp: demo_codec_def codecNameOf_def mem_New_def)
qed

section \<open>Streams and batches\<close>

text \<open>
  storing a raw stream answers the digest of the whole stream and whether it was already
  there, and afterwards the backend holds exactly that content under it; a stream that fails is
  never stored.
\<close>

theorem put_stream_stores_whole:
  assumes "mem_inv (est w)" "hasher_law h H"
    and "PutStream io (Some mem_backend) (Some h) r w = (Inr (d, dup), w')"
  shows "r_err r = None \<and> d = H (r_data r) \<and> dup = (map_of (objects (est w)) d \<noteq> None) \<and>
    map_of (objects (est w')) =
      (if dup then map_of (objects (est w)) else (map_of (objects (est w)))(d \<mapsto> r_data r)) \<and>
    mem_inv (est w')"
  using mem_stream.PutStream_ok [OF assms] .

theorem put_stream_stores_whole_witness:
  "\<exists>w'. PutStream \<lparr>sp_create = None, sp_write = (\<lambda>_. None), sp_seek1 = None, sp_seek2 = None\<rparr>
     (Some mem_backend) (Some demo_hasher) (bytes_reader [4, 2]) \<lparr>ectx = Live, est = mem_New 0\<rparr> =
     (Inr ([1, 4, 2], False), w') \<and> map_of (objects (est w')) [1, 4, 2] = Some [4, 2]"
proof -
  let ?w = "\<lparr>ectx = Live, est = mem_New 0\<rparr> :: mem_state env"
  let ?io = "\<lparr>sp_create = None, sp_write = (\<lambda>_. None), sp_seek1 = None, sp_seek2 = None\<rparr>"
  have inv: "mem_inv (est ?w)" by (simp add: mem_inv_New MaxInt64_def)
  from mem_Put_live [of ?w "[1, 4, 2]" "spool_reader [4, 2]"] inv obtain w1 where
    "mem_Put [1, 4, 2] (spool_reader [4, 2]) ?w = (Inr (), w1)" by (auto simp: mem_New_def)
  then have run: "PutStream ?io (Some mem_backend) (Some demo_hasher) (bytes_reader [4, 2]) ?w = (Inr ([1, 4, 2], False), w1)"
    by (simp add: PutStream_def monad_defs hasher_lawD [OF demo_hasher_law] mem_backend_def mem_live mem_New_def)
  from put_stream_stores_whole [OF inv demo_hasher_law run] run show ?thesis by simp
qed

section \<open>Garbage collection\<close>

text \<open>
  The graph the stored objects describe, and the reference lister a typed store provides
  (\<open>RefListerFunc\<close> over \<open>Store.Get\<close> and \<open>References\<close>).
\<close>

definition stored_object :: "('a, 'b) store \<Rightarrow> (digest \<Rightarrow> bytes option) \<Rightarrow> digest \<Rightarrow> 'a option" where
  "stored_object s m d =
     (case m d of
        None \<Rightarrow> None
      | Some b \<Rightarrow> (case Store_decode s b of Inl _ \<Rightarrow> None | Inr v \<Rightarrow> Some v))"

definition stored_refs :: "('a, 'b) store \<Rightarrow> (digest \<Rightarrow> bytes option) \<Rightarrow> digest \<Rightarrow> digest list" where
  "stored_refs s m d = (case stored_object s m d of None \<Rightarrow> [] | Some v \<Rightarrow> o_References (s_obj s) v)"

definition store_lister :: "('a, 'b) store \<Rightarrow> digest \<Rightarrow> ('b, digest list option) act" where
  "store_lister s d = bnd (Store_Get s d) (\<lambda>v. ret (Some (o_References (s_obj s) v)))"

text \<open>Every digest reachable from the roots is stored, decodes, and has a well-formed digest.\<close>

definition complete_graph :: "('a, 'b) store \<Rightarrow> (digest \<Rightarrow> bytes option) \<Rightarrow> digest list \<Rightarrow> bool" where
  "complete_graph s m roots \<longleftrightarrow>
     (\<forall>d \<in> reach (stored_refs s m) roots. stored_object s m d \<noteq> None \<and> h_Validate (s_hasher s) d = None)"

lemma complete_graph_reads:
  assumes "complete_graph (Store_New mem_backend c h ops) m roots"
    and "d \<in> reach (stored_refs (Store_New mem_backend c h ops) m) roots"
    and "mem_inv (est w)" "ectx w = Live" "mem_abs (est w) = m"
  shows "\<exists>w' v. Store_Get (Store_New mem_backend c h ops) d w = (Inr v, w') \<and>
    stored_object (Store_New mem_backend c h ops) m d = Some v \<and>
    mem_inv (est w') \<and> ectx w' = Live \<and> mem_abs (est w') = m"
proof -
  let ?s = "Store_New mem_backend c h ops"
  have "stored_object ?s m d \<noteq> None" and val: "h_Validate (s_hasher ?s) d = None"
    using assms(1,2) unfolding complete_graph_def by blast+
  then obtain v b where v: "m d = Some b" "Store_decode ?s b = Inr v"
    by (auto simp: stored_object_def split: option.splits sum.splits)
  have b: "mem_abs (est w) d = Some b" using v assms(5) by simp
  from mem_store.Store_Get_value [OF assms(3,4) b val] obtain w' where
    "Store_Get ?s d w = (Store_decode ?s b, w')" "ectx w' = Live" "mem_inv (est w')" "mem_abs (est w') = mem_abs (est w)" .
  with v assms(5) show ?thesis by (auto simp: stored_object_def)
qed

lemma complete_graph_finite:
  assumes "complete_graph s (map_of objs) roots"
  shows "finite (reach (stored_refs s (map_of objs)) roots)"
proof (rule finite_subset [OF _ finite_dom_map_of])
  show "reach (stored_refs s (map_of objs)) roots \<subseteq> dom (map_of objs)"
    using assms by (force simp: complete_graph_def stored_object_def split: option.splits)
qed

lemma Reachable_store:
  assumes "mem_inv (est w)" "ectx w = Live"
    and "complete_graph (Store_New mem_backend c h ops) (mem_abs (est w)) roots"
    and "walk_bound (stored_refs (Store_New mem_backend c h ops) (mem_abs (est w)))
      (reach (stored_refs (Store_New mem_backend c h ops) (mem_abs (est w))) roots) [] (walk_roots roots) \<le> fuel"
  shows "\<exists>m w'. Reachable fuel (store_lister (Store_New mem_backend c h ops)) roots w = Some (Inr m, w') \<and>
    mem_inv (est w') \<and> ectx w' = Live \<and> mem_abs (est w') = mem_abs (est w) \<and>
    (\<forall>d. map_lookup m (Digest_String d) \<longleftrightarrow>
      d \<in> reach (stored_refs (Store_New mem_backend c h ops) (mem_abs (est w))) roots)"
proof -
  let ?s = "Store_New mem_backend c h ops"
  let ?m = "mem_abs (est w)"
  let ?G = "stored_refs ?s ?m"
  let ?I = "\<lambda>w'. mem_inv (est w') \<and> ectx w' = Live \<and> mem_abs (est w') = ?m"
  have "\<exists>ro w2. store_lister ?s d w1 = (Inr ro, w2) \<and> (case ro of None \<Rightarrow> [] | Some rs \<Rightarrow> rs) = ?G d \<and> ?I w2"
    if "d \<in> reach ?G roots" "?I w1" for d w1
  proof -
    from complete_graph_reads [OF assms(3) that(1)] that(2) obtain w2 v where
      "Store_Get ?s d w1 = (Inr v, w2)" "stored_object ?s ?m d = Some v" "?I w2" by blast
    then show ?thesis
      by (intro exI [of _ "Some (o_References ops v)"] exI [of _ w2])
        (simp add: store_lister_def ret_def stored_refs_def)
  qed
  moreover have "\<And>w1. ?I w1 \<Longrightarrow> ectx w1 = Live" "?I w" using assms(1,2) by blast+
  ultimately show ?thesis
    using Reachable_total [of ?I ?G roots "store_lister ?s" w fuel, OF _ _ complete_graph_finite [OF assms(3)] _ assms(4)]
    by blast
qed

definition demo_heap :: mem_state where
  "demo_heap =
     \<lparr>objects = [([65], [2, 0, 3, 116, 64, 49, 1, 66]), ([66], [2, 0, 3, 116, 64, 49, 0]), ([67], [2, 0, 3, 116, 64, 49, 0])],
      maxBytes = 0, usedBytes = 22\<rparr>"

lemma demo_heap_inv: "mem_inv demo_heap"
  by (simp add: mem_inv_def demo_heap_def MaxInt64_def)

lemma demo_heap_frames:
  "decodeEnvelope [2, 0, 3, 116, 64, 49, 1, 66] = Inr \<lparr>env_Type = ''t@1'', env_Codec = '''', env_Data = [66]\<rparr>"
  "decodeEnvelope [2, 0, 3, 116, 64, 49, 0] = Inr \<lparr>env_Type = ''t@1'', env_Codec = '''', env_Data = []\<rparr>"
  by code_simp+

lemma demo_heap_objects:
  "stored_object (demo_store ''cbor'') (map_of (objects demo_heap)) [65] = Some [[66]]"
  "stored_object (demo_store ''cbor'') (map_of (objects demo_heap)) [66] = Some []"
  by (simp_all add: stored_object_def demo_heap_def Store_decode_def demo_heap_frames Store_checkCodec_def
      demo_codec_def demo_ops_def validateDecoded_def)

lemma demo_heap_reach:
  "reach (stored_refs (demo_store ''cbor'') (map_of (objects demo_heap))) [[65]] = {[65], [66]}"
proof
  let ?G = "stored_refs (demo_store ''cbor'') (map_of (objects demo_heap))"
  have G: "?G [65] = [[66]]" "?G [66] = []"
    by (simp_all add: stored_refs_def demo_heap_objects) (simp_all add: demo_ops_def)
  show "reach ?G [[65]] \<subseteq> {[65], [66]}"
    by (rule reach_least) (auto simp: edge_def G)
  have "[65] \<in> reach ?G [[65]]" by (simp add: reach_root)
  then show "{[65], [66]} \<subseteq> reach ?G [[65]]"
    using reach_step [of "[65]" ?G "[[65]]" "[66]"] by (simp add: edge_def G)
qed

lemma demo_heap_complete:
  "complete_graph (demo_store ''cbor'') (map_of (objects demo_heap)) [[65]]"
  "walk_bound (stored_refs (demo_store ''cbor'') (map_of (objects demo_heap)))
     (reach (stored_refs (demo_store ''cbor'') (map_of (objects demo_heap))) [[65]]) [] (walk_roots [[65]]) \<le> 3"
proof -
  have "h_Validate demo_hasher d = None" for d by (simp add: demo_hasher_def)
  then show "complete_graph (demo_store ''cbor'') (map_of (objects demo_heap)) [[65]]"
    by (auto simp: complete_graph_def demo_heap_reach demo_heap_objects)
  show "walk_bound (stored_refs (demo_store ''cbor'') (map_of (objects demo_heap)))
     (reach (stored_refs (demo_store ''cbor'') (map_of (objects demo_heap))) [[65]]) [] (walk_roots [[65]]) \<le> 3"
    unfolding demo_heap_reach
    by (simp add: walk_bound_def walk_roots_def stored_refs_def demo_heap_objects) (simp add: demo_ops_def)
qed

text \<open>
  C2: mark and sweep. When everything reachable from the roots is stored and readable, walking the
  references and sweeping with the resulting set removes exactly the objects that are not
  reachable: what is left is the old contents restricted to the reachable digests, and what is
  reported is the rest. The fuel bound is the number of root and reference entries to follow.
\<close>

theorem gc_keeps_exactly_reachable:
  assumes "mem_inv (est w)" "ectx w = Live"
    and "complete_graph (Store_New mem_backend c h ops) (map_of (objects (est w))) roots"
    and "walk_bound (stored_refs (Store_New mem_backend c h ops) (map_of (objects (est w))))
      (reach (stored_refs (Store_New mem_backend c h ops) (map_of (objects (est w)))) roots) []
      (walk_roots roots) \<le> fuel"
  shows "\<exists>live w1 doomed w2.
    Reachable fuel (store_lister (Store_New mem_backend c h ops)) roots w = Some (Inr live, w1) \<and>
    Sweep now (Some mem_backend) (map_lookup live) \<lparr>MinAge = 0, DryRun = False\<rparr> w1 = (Inr doomed, w2) \<and>
    mem_inv (est w2) \<and>
    map_of (objects (est w2)) = map_of (objects (est w)) |`
      reach (stored_refs (Store_New mem_backend c h ops) (map_of (objects (est w)))) roots \<and>
    set doomed = dom (map_of (objects (est w))) -
      reach (stored_refs (Store_New mem_backend c h ops) (map_of (objects (est w)))) roots"
proof -
  from Reachable_store [OF assms] obtain live w1 where
    mark: "Reachable fuel (store_lister (Store_New mem_backend c h ops)) roots w = Some (Inr live, w1)"
    "mem_inv (est w1)" "ectx w1 = Live" "mem_abs (est w1) = mem_abs (est w)"
    "\<forall>d. map_lookup live (Digest_String d) \<longleftrightarrow>
      d \<in> reach (stored_refs (Store_New mem_backend c h ops) (mem_abs (est w))) roots" by blast
  from mem_sweep.Sweep_exact [OF mark(2,3), of "\<lparr>MinAge = 0, DryRun = False\<rparr>" now "map_lookup live"]
  obtain doomed w2 where sw: "Sweep now (Some mem_backend) (map_lookup live) \<lparr>MinAge = 0, DryRun = False\<rparr> w1 = (Inr doomed, w2)"
    "set doomed = {d. mem_abs (est w1) d \<noteq> None \<and> \<not> map_lookup live (Digest_String d)}"
    "mem_abs (est w2) = (mem_abs (est w1)) |` {d. map_lookup live (Digest_String d)}" by auto
  have "mem_inv (est w2)" using mem_sweep.Sweep_safe(1) [OF mark(2) sw(1)] .
  with mark sw show ?thesis by (intro exI conjI) auto
qed

theorem gc_keeps_exactly_reachable_witness:
  "\<exists>live w1 doomed w2. Reachable 3 (store_lister (demo_store ''cbor'')) [[65]] \<lparr>ectx = Live, est = demo_heap\<rparr> = Some (Inr live, w1) \<and>
     Sweep 0 (Some mem_backend) (map_lookup live) \<lparr>MinAge = 0, DryRun = False\<rparr> w1 = (Inr doomed, w2) \<and> set doomed = {[67]}"
proof -
  let ?s = "demo_store ''cbor''" and ?m = "map_of (objects demo_heap)"
  have dom: "dom ?m - reach (stored_refs ?s ?m) [[65]] = {[67]}"
    unfolding demo_heap_reach by (auto simp: demo_heap_def split: if_splits)
  from gc_keeps_exactly_reachable [of "\<lparr>ectx = Live, est = demo_heap\<rparr>" "demo_codec ''cbor''" demo_hasher demo_ops "[[65]]" 3 0]
    demo_heap_complete demo_heap_inv dom
  show ?thesis by auto
qed

text \<open>
  C5: a sweep is safe whatever happens. Under any context, with any set of reachable keys and any
  options, and also when it stops on an error half-way, no reachable object is touched and no
  object is altered; a dry run changes nothing.
\<close>

theorem sweep_never_touches_reachable:
  assumes "mem_inv (est w)" "Sweep now (Some mem_backend) reachable opts w = (x, w')"
  shows "mem_inv (est w') \<and>
    (\<forall>d. reachable (Digest_String d) \<longrightarrow> map_of (objects (est w')) d = map_of (objects (est w)) d) \<and>
    (\<forall>d. map_of (objects (est w')) d = map_of (objects (est w)) d \<or> map_of (objects (est w')) d = None) \<and>
    (DryRun opts \<longrightarrow> map_of (objects (est w')) = map_of (objects (est w)))"
  using mem_sweep.Sweep_safe(1,2,3,6) [OF assms] by blast

theorem sweep_never_touches_reachable_witness:
  "map_of (objects (est (snd (Sweep 0 (Some mem_backend) (\<lambda>k. k = Digest_String [65]) \<lparr>MinAge = 0, DryRun = False\<rparr>
     \<lparr>ectx = CancelAfter 6 ByCancel, est = demo_heap\<rparr>)))) [65] = map_of (objects demo_heap) [65]"
  using sweep_never_touches_reachable [of "\<lparr>ectx = CancelAfter 6 ByCancel, est = demo_heap\<rparr>" 0
      "\<lambda>k. k = Digest_String [65]" "\<lparr>MinAge = 0, DryRun = False\<rparr>"] demo_heap_inv
  by (metis env.select_convs(2) prod.collapse)

text \<open>
  C31: the typed walk. From a root whose graph is stored and readable, \<open>Walker.Walk\<close> ends without
  error once it has the fuel for the references to follow, and has then called the visitor on
  exactly the reachable objects, each once, whatever cycles or sharing the graph has.
\<close>

theorem walker_visits_reachable_once:
  assumes "mem_inv (est w)" "ectx w = Live"
    and "complete_graph (Store_New mem_backend c h ops) (map_of (objects (est w))) [root]"
    and "walk_bound (stored_refs (Store_New mem_backend c h ops) (map_of (objects (est w))))
      (reach (stored_refs (Store_New mem_backend c h ops) (map_of (objects (est w)))) [root]) []
      (walk_roots [root]) \<le> fuel"
    and "\<And>v acc. fst (visit v acc) = None"
  shows "\<exists>order w'. Walker_Walk fuel (Store_New mem_backend c h ops) visit root acc w =
      Some ((Inr (), fold (\<lambda>d acc. snd (visit (the (stored_object (Store_New mem_backend c h ops)
        (map_of (objects (est w))) d)) acc)) order acc), w') \<and>
      distinct order \<and>
      set order = reach (stored_refs (Store_New mem_backend c h ops) (map_of (objects (est w)))) [root] \<and>
      map_of (objects (est w')) = map_of (objects (est w))"
proof -
  let ?s = "Store_New mem_backend c h ops"
  let ?m = "mem_abs (est w)"
  let ?G = "stored_refs ?s ?m"
  let ?ob = "\<lambda>d. the (stored_object ?s ?m d)"
  let ?I = "\<lambda>w'. mem_inv (est w') \<and> ectx w' = Live \<and> mem_abs (est w') = ?m"
  have get: "\<exists>w2. Store_Get ?s d w1 = (Inr (?ob d), w2) \<and> ?I w2" if "d \<in> reach ?G [root]" "?I w1" for d w1
    using complete_graph_reads [OF assms(3) that(1)] that(2) by force
  have refs: "o_References (s_obj ?s) (?ob d) = ?G d" if "d \<in> reach ?G [root]" for d
    using assms(3) that unfolding complete_graph_def stored_refs_def by force
  have live: "\<And>w1. ?I w1 \<Longrightarrow> ectx w1 = Live" and I: "?I w" using assms(1,2) by blast+
  from Walker_total [of ?I ?G root ?s ?ob visit w fuel acc,
      OF live get refs assms(5) complete_graph_finite [OF assms(3)] I assms(4)]
  show ?thesis by blast
qed

theorem walker_visits_reachable_once_witness:
  "\<exists>order w'. Walker_Walk 3 (demo_store ''cbor'') (\<lambda>v acc. (None, v # acc)) [65] [] \<lparr>ectx = Live, est = demo_heap\<rparr> =
     Some ((Inr (), fold (\<lambda>d acc. the (stored_object (demo_store ''cbor'') (map_of (objects demo_heap)) d) # acc) order []), w') \<and>
     distinct order \<and> set order = {[65], [66]}"
proof -
  let ?s = "demo_store ''cbor''" and ?m = "map_of (objects demo_heap)"
  from walker_visits_reachable_once [of "\<lparr>ectx = Live, est = demo_heap\<rparr>" "demo_codec ''cbor''" demo_hasher demo_ops
      "[65]" 3 "\<lambda>v acc. (None, v # acc)" "[]"] demo_heap_complete demo_heap_inv demo_heap_reach
  show ?thesis by auto
qed

section \<open>Verification and batches\<close>

text \<open>
  C32: verification finds exactly the damage. On a live context the report of \<open>VerifyAll\<close> counts
  every stored object and lists, each once, precisely the digests whose stored bytes do not hash to
  them; nothing is changed.
\<close>

theorem verify_all_finds_exactly_damage:
  assumes "hasher_law h H" "mem_inv (est w)" "ectx w = Live"
    and "\<forall>d. map_of (objects (est w)) d \<noteq> None \<longrightarrow> h_Validate h d = None"
  shows "\<exists>rep w'. VerifyAll (Some mem_backend) (Some h) w = (Inr (rep, None), w') \<and>
    map_of (objects (est w')) = map_of (objects (est w)) \<and>
    Checked rep = card (dom (map_of (objects (est w)))) \<and> distinct (Bad rep) \<and>
    set (Bad rep) = {d. \<exists>b. map_of (objects (est w)) d = Some b \<and> H b \<noteq> d}"
  using mem_audit.VerifyAll_exact [OF assms] .

theorem verify_all_finds_exactly_damage_witness:
  "\<exists>rep w'. VerifyAll (Some mem_backend) (Some demo_hasher)
     \<lparr>ectx = Live, est = \<lparr>objects = [([1, 5], [5]), ([1, 6], [9])], maxBytes = 0, usedBytes = 2\<rparr>\<rparr> = (Inr (rep, None), w') \<and>
     Checked rep = 2 \<and> set (Bad rep) = {[1, 6]}"
proof -
  let ?m = "\<lparr>objects = [([1, 5], [5]), ([1, 6], [9])], maxBytes = 0, usedBytes = 2\<rparr> :: mem_state"
  have inv: "mem_inv ?m" by (simp add: mem_inv_def MaxInt64_def)
  have bad: "{d. \<exists>b. map_of (objects ?m) d = Some b \<and> 1 # b \<noteq> d} = {[1, 6]}"
    by (auto split: if_splits)
  have two: "card (dom (map_of (objects ?m))) = 2"
    by (simp add: dom_map_of_conv_image_fst)
  have "\<forall>d. map_of (objects (est \<lparr>ectx = Live, est = ?m\<rparr>)) d \<noteq> None \<longrightarrow> h_Validate demo_hasher d = None"
    by (simp add: demo_hasher_def)
  from verify_all_finds_exactly_damage [OF demo_hasher_law _ _ this] inv bad two
  show ?thesis unfolding env.simps by metis
qed

text \<open>
  the default batch read serves every requested digest, in the order asked and once per
  appearance, with the bytes stored under it, and changes nothing.
\<close>

theorem get_many_serves_in_order:
  assumes "mem_inv (est w)" "ectx w = Live" "\<forall>d \<in> set ds. map_of (objects (est w)) d \<noteq> None"
  shows "\<exists>w'. GetMany None (Some mem_backend) ds (Some (\<lambda>d rc acc. (None, acc @ [(d, r_data rc)]))) [] w =
    ((Inr (), map (\<lambda>d. (d, the (map_of (objects (est w)) d))) ds), w') \<and>
    map_of (objects (est w')) = map_of (objects (est w))"
proof -
  let ?fn = "\<lambda>d rc acc. (None, acc @ [(d, r_data rc)]) :: err option \<times> (digest \<times> bytes) list"
  have "fold (\<lambda>d acc. acc @ [(d, the (mem_abs (est w) d))]) ds acc = acc @ map (\<lambda>d. (d, the (mem_abs (est w) d))) ds" for acc
    by (induction ds arbitrary: acc) simp_all
  moreover have "\<exists>w'. getManyEach mem_backend ds ?fn [] w =
      ((Inr (), fold (\<lambda>d c. snd (?fn d (nop_closer (the (mem_abs (est w) d))) c)) ds []), w') \<and>
      mem_abs (est w') = mem_abs (est w)"
    by (rule mem_audit.getManyEach_serves [OF assms]) simp_all
  ultimately show ?thesis by (simp add: GetMany_def)
qed

theorem get_many_serves_in_order_witness:
  "\<exists>w'. GetMany None (Some mem_backend) [[66], [65], [66]] (Some (\<lambda>d rc acc. (None, acc @ [(d, r_data rc)]))) []
      \<lparr>ectx = Live, est = demo_heap\<rparr> =
    ((Inr (), [([66], [2, 0, 3, 116, 64, 49, 0]), ([65], [2, 0, 3, 116, 64, 49, 1, 66]), ([66], [2, 0, 3, 116, 64, 49, 0])]), w')"
  using get_many_serves_in_order [of "\<lparr>ectx = Live, est = demo_heap\<rparr>" "[[66], [65], [66]]"] demo_heap_inv
  by (auto simp: demo_heap_def)

end
