(* ===== verification/Cache_Mem.thy ===== *)
theory Cache_Mem
  imports Mem_Store
begin

text \<open>
  \<open>src/cas/cache/mem/cached.go\<close>: the lazy-loading cache over a typed store. Cached objects are
  shared by pointer between the map, the recency list of the LRU cache and callers, so they live in
  an explicit heap (\<open>co_heap\<close>, addresses are positions) and the map holds addresses.

  The cache and the backend it reads through form one state; \<open>on_back\<close> runs a store operation on the
  backend part. Methods are one atomic action each. The worker pool of \<open>loadAll\<close> is not modelled.

  Shown: what the cache returns is what the store would decode from the stored bytes; how its answers
  compare with those of the store, memoized errors included; a load reaches the store at most once
  per cached object; and where the depth-limited preload stops short.
\<close>

section \<open>State\<close>

record 'a CachedObject =
  co_digest :: digest
  co_val :: "'a result option"

record ('a, 'b) cstate =
  co_heap :: "'a CachedObject list"
  cs_cache :: "(string \<times> nat) list"
  cs_Hits :: "64 word"
  cs_Misses :: "64 word"
  cs_Loads :: "64 word"
  cs_Evicts :: "64 word"
  cs_back :: 'b

definition cached_New :: "'b \<Rightarrow> ('a, 'b) cstate" where
  "cached_New b =
     \<lparr>co_heap = [], cs_cache = [], cs_Hits = 0, cs_Misses = 0, cs_Loads = 0, cs_Evicts = 0, cs_back = b\<rparr>"

text \<open>A store operation, run on the backend part of the state.\<close>

definition on_back :: "('b, 'c) act \<Rightarrow> (('a, 'b, 'z) cstate_scheme, 'c) act" where
  "on_back m w =
     (case m \<lparr>ectx = ectx w, est = cs_back (est w)\<rparr> of
        (x, w') \<Rightarrow> (x, \<lparr>ectx = ectx w', est = (est w)\<lparr>cs_back := est w'\<rparr>\<rparr>))"

section \<open>Methods\<close>

definition cached_Load ::
  "('a, 'b) store \<Rightarrow> nat \<Rightarrow> (('a, 'b, 'z) cstate_scheme, 'a) act" where
  "cached_Load st a =
     bnd get_st (\<lambda>c.
       case co_val (co_heap c ! a) of
         Some res \<Rightarrow> of_result res
       | None \<Rightarrow> (\<lambda>w.
           (case on_back (Store_Get st (co_digest (co_heap c ! a))) w of
              (res, w') \<Rightarrow>
                (res, w'\<lparr>est := (est w')\<lparr>co_heap := (co_heap (est w'))[a := (co_heap (est w') ! a)\<lparr>co_val := Some res\<rparr>],
                                       cs_Loads := cs_Loads (est w') + 1\<rparr>\<rparr>))))"

definition cached_IsLoaded :: "nat \<Rightarrow> ('a, 'b, 'z) cstate_scheme \<Rightarrow> bool" where
  "cached_IsLoaded a c \<longleftrightarrow> co_val (co_heap c ! a) \<noteq> None"

definition cached_Lookup :: "string \<Rightarrow> ('a, 'b, 'z) cstate_scheme \<Rightarrow> nat option" where
  "cached_Lookup key c = map_of (cs_cache c) key"

definition cached_EvictKey :: "string \<Rightarrow> ('a, 'b, 'z) cstate_scheme \<Rightarrow> ('a, 'b, 'z) cstate_scheme" where
  "cached_EvictKey key c = c\<lparr>cs_cache := AList.delete key (cs_cache c)\<rparr>"

definition cached_IncrEvicts :: "('a, 'b, 'z) cstate_scheme \<Rightarrow> ('a, 'b, 'z) cstate_scheme" where
  "cached_IncrEvicts c = c\<lparr>cs_Evicts := cs_Evicts c + 1\<rparr>"

definition cached_Evict :: "digest \<Rightarrow> ('a, 'b, 'z) cstate_scheme \<Rightarrow> ('a, 'b, 'z) cstate_scheme" where
  "cached_Evict d c =
     (if map_of (cs_cache c) (Digest_String d) \<noteq> None
      then cached_IncrEvicts (cached_EvictKey (Digest_String d) c) else c)"

definition cached_Clear :: "('a, 'b, 'z) cstate_scheme \<Rightarrow> ('a, 'b, 'z) cstate_scheme" where
  "cached_Clear c = c\<lparr>cs_cache := []\<rparr>"

text \<open>\<open>LoadOrStore\<close> of a fresh cached object, followed by the insert hook.\<close>

definition cached_insert ::
  "(string \<Rightarrow> ('a, 'b, 'z) cstate_scheme \<Rightarrow> ('a, 'b, 'z) cstate_scheme) option \<Rightarrow> digest \<Rightarrow>
   ('a, 'b, 'z) cstate_scheme \<Rightarrow> nat \<times> ('a, 'b, 'z) cstate_scheme" where
  "cached_insert onNew d c =
     (let key = Digest_String d; a = length (co_heap c);
          c1 = c\<lparr>co_heap := co_heap c @ [\<lparr>co_digest = d, co_val = None\<rparr>]\<rparr> in
      case map_of (cs_cache c1) key of
        Some actual \<Rightarrow> (actual, c1)
      | None \<Rightarrow>
          (let c2 = c1\<lparr>cs_cache := AList.update key a (cs_cache c1)\<rparr> in
           (a, case onNew of Some fn \<Rightarrow> fn key c2 | None \<Rightarrow> c2)))"

definition cached_Proxy ::
  "('a, 'b) store \<Rightarrow> (string \<Rightarrow> ('a, 'b, 'z) cstate_scheme \<Rightarrow> ('a, 'b, 'z) cstate_scheme) option \<Rightarrow> digest \<Rightarrow>
   (('a, 'b, 'z) cstate_scheme, nat) act" where
  "cached_Proxy st onNew d =
     bnd get_st (\<lambda>c.
       case map_of (cs_cache c) (Digest_String d) of
         Some a \<Rightarrow> bnd (put_st (c\<lparr>cs_Hits := cs_Hits c + 1\<rparr>)) (\<lambda>_. ret a)
       | None \<Rightarrow>
           bnd (put_st (c\<lparr>cs_Misses := cs_Misses c + 1\<rparr>)) (\<lambda>_.
           bnd (on_back (Store_Exists st d)) (\<lambda>exists1.
             if \<not> exists1 then fail (Errorf (''cache: '' @ Digest_String d) [ErrNotFound])
             else bnd get_st (\<lambda>c1.
               (case cached_insert onNew d c1 of (a, c2) \<Rightarrow> bnd (put_st c2) (\<lambda>_. ret a))))))"

definition cached_Get ::
  "('a, 'b) store \<Rightarrow> (string \<Rightarrow> ('a, 'b, 'z) cstate_scheme \<Rightarrow> ('a, 'b, 'z) cstate_scheme) option \<Rightarrow> digest \<Rightarrow>
   (('a, 'b, 'z) cstate_scheme, 'a) act" where
  "cached_Get st onNew d = bnd (cached_Proxy st onNew d) (\<lambda>a. cached_Load st a)"

record CacheStats =
  Hits :: "64 word"
  Misses :: "64 word"
  Loads :: "64 word"
  Evicts :: "64 word"
  Size :: nat

text \<open>The hit rate, a float derived from the first two counters, is left out.\<close>

definition cached_CacheStats :: "('a, 'b, 'z) cstate_scheme \<Rightarrow> CacheStats" where
  "cached_CacheStats c =
     \<lparr>Hits = cs_Hits c, Misses = cs_Misses c, Loads = cs_Loads c, Evicts = cs_Evicts c,
      Size = length (cs_cache c)\<rparr>"

text \<open>
  The recursive preload. The set of warmed digests is threaded through; the loop over the
  references tolerates a foreign and a missing one.
\<close>

function preloadRecursive ::
    "('a, 'b) store \<Rightarrow> digest \<Rightarrow> int \<Rightarrow> string list \<Rightarrow> ('a, 'b) cstate env \<Rightarrow>
     (unit result \<times> string list) \<times> ('a, 'b) cstate env"
  and preload_refs ::
    "('a, 'b) store \<Rightarrow> digest list \<Rightarrow> int \<Rightarrow> string list \<Rightarrow> ('a, 'b) cstate env \<Rightarrow>
     (unit result \<times> string list) \<times> ('a, 'b) cstate env" where
  "preloadRecursive st d depth seen w =
     (if IsZero d then ((Inr (), seen), w)
      else if Digest_String d \<in> set seen then ((Inr (), seen), w)
      else
        (let seen1 = Digest_String d # seen in
         case cached_Get st None d w of
           (Inl e, w1) \<Rightarrow> ((Inl e, seen1), w1)
         | (Inr obj, w1) \<Rightarrow>
             if depth \<le> 0 then ((Inr (), seen1), w1)
             else preload_refs st (o_References (s_obj st) obj) (depth - 1) seen1 w1))"
| "preload_refs st [] depth seen w = ((Inr (), seen), w)"
| "preload_refs st (ref # refs) depth seen w =
     (case preloadRecursive st ref depth seen w of
        ((Inl e, seen1), w1) \<Rightarrow>
          if \<not> errors_Is e ErrUnknownType \<and> \<not> errors_Is e ErrNotFound then ((Inl e, seen1), w1)
          else preload_refs st refs depth seen1 w1
      | ((Inr _, seen1), w1) \<Rightarrow> preload_refs st refs depth seen1 w1)"
  by pat_completeness auto
termination
  by (relation "measures [\<lambda>x. case x of Inl (st, d, depth, seen, w) \<Rightarrow> nat depth | Inr (st, refs, depth, seen, w) \<Rightarrow> nat depth + 0,
      \<lambda>x. case x of Inl _ \<Rightarrow> 0 | Inr (st, refs, depth, seen, w) \<Rightarrow> Suc (length refs)]") auto

declare preloadRecursive.simps [simp del]

definition PreloadRecursive ::
  "('a, 'b) store \<Rightarrow> digest \<Rightarrow> int \<Rightarrow> (('a, 'b) cstate, unit) act" where
  "PreloadRecursive st d depth w =
     (case preloadRecursive st d depth [] w of ((res, _), w') \<Rightarrow> (res, w'))"

section \<open>Coherence\<close>

text \<open>
  Content addressing gives every digest one content \<open>M d\<close>. A cache is coherent with it when its keys
  name their objects, what is loaded is what the content decodes to, and the backend holds only
  such contents.
\<close>

definition coherent ::
  "('b \<Rightarrow> digest \<Rightarrow> bytes option) \<Rightarrow> ('b \<Rightarrow> bool) \<Rightarrow> ('a, 'b) store \<Rightarrow> (digest \<Rightarrow> bytes option) \<Rightarrow>
   ('a, 'b, 'z) cstate_scheme \<Rightarrow> bool" where
  "coherent A I st M c \<longleftrightarrow>
     I (cs_back c) \<and> A (cs_back c) \<subseteq>\<^sub>m M \<and>
     (\<forall>k a. map_of (cs_cache c) k = Some a \<longrightarrow>
       a < length (co_heap c) \<and> k = Digest_String (co_digest (co_heap c ! a))) \<and>
     (\<forall>o1 \<in> set (co_heap c). \<forall>v. co_val o1 = Some (Inr v) \<longrightarrow>
       (\<exists>b. M (co_digest o1) = Some b \<and> Store_decode st b = Inr v))"

lemma coherent_New: "I b \<Longrightarrow> A b \<subseteq>\<^sub>m M \<Longrightarrow> coherent A I st M (cached_New b)"
  by (simp add: coherent_def cached_New_def)

lemma cached_Load_memo:
  "co_val (co_heap (est w) ! a) = Some res \<Longrightarrow> cached_Load st a w = (res, w)"
  by (simp add: cached_Load_def monad_defs)

text \<open>A load memoizes its answer: the next one gives the same and leaves the state alone.\<close>

lemma cached_Load_again:
  assumes "cached_Load st a w = (res, w')" "a < length (co_heap (est w))"
  shows "cached_Load st a (w'\<lparr>ectx := c\<rparr>) = (res, w'\<lparr>ectx := c\<rparr>)"
proof (cases "co_val (co_heap (est w) ! a)")
  case None
  with assms have "co_val (co_heap (est w') ! a) = Some res"
    by (auto simp: cached_Load_def monad_defs on_back_def split: prod.splits)
  then show ?thesis by (simp add: cached_Load_memo)
qed (use assms in \<open>simp add: cached_Load_memo\<close>)

locale cached_client = store_ops be abs inv st
  for be :: "'b backend" and abs :: "'b \<Rightarrow> digest \<Rightarrow> bytes option" and inv :: "'b \<Rightarrow> bool"
    and st :: "('a, 'b) store"
begin

lemma get_keeps: "keeps_objects inv abs (b_Get be d)"
  unfolding keeps_objects_def using get_frame by blast

lemma exists_keeps: "keeps_objects inv abs (b_Exists be d)"
  unfolding keeps_objects_def using exists_frame by blast

lemma Store_Get_keeps: "keeps_objects inv abs (Store_Get st d)"
  unfolding Store_Get_def Store_GetRaw_def Store_GetReader_def over_backend
  by (intro keeps_objects_intros get_keeps)

lemma Store_Exists_keeps: "keeps_objects inv abs (Store_Exists st d)"
  unfolding Store_Exists_def over_backend by (intro keeps_objects_intros exists_keeps)

lemma Store_Get_sound:
  assumes "inv (est w)" "Store_Get st d w = (Inr v, w')"
  shows "\<exists>b. abs (est w) d = Some b \<and> Store_decode st b = Inr v"
proof -
  from assms(2) obtain w1 rc b where c: "ctx_Err w = (Inr (), w1)" and g: "b_Get be d w1 = (Inr rc, w')"
    and r: "io_ReadAll rc = Inr b" and v: "Store_decode st b = Inr v"
    by (auto simp: Store_Get_def Store_GetRaw_def Store_GetReader_def over_backend bnd_ok readThenClose_ok)
  have "est w1 = est w" using c by (rule ctx_Err_estD)
  moreover have "r_err rc = None" "b = r_data rc" using r by (auto simp: io_ReadAll_def split: option.splits)
  ultimately show ?thesis using get_ok [of w1 d rc w'] g assms(1) v by auto
qed

lemma cached_Load_sound:
  assumes "coherent abs inv st M (est w)" "a < length (co_heap (est w))" "cached_Load st a w = (res, w')"
  shows "coherent abs inv st M (est w') \<and> cs_cache (est w') = cs_cache (est w) \<and>
    (\<forall>v. res = Inr v \<longrightarrow> (\<exists>b. M (co_digest (co_heap (est w) ! a)) = Some b \<and> Store_decode st b = Inr v))"
proof (cases "co_val (co_heap (est w) ! a)")
  case (Some r)
  with assms show ?thesis by (auto simp: cached_Load_memo coherent_def)
next
  case None
  let ?d = "co_digest (co_heap (est w) ! a)" and ?w = "\<lparr>ectx = ectx w, est = cs_back (est w)\<rparr>"
  obtain x w1 where g: "Store_Get st ?d ?w = (x, w1)" by fastforce
  have I: "inv (est ?w)" "abs (est ?w) \<subseteq>\<^sub>m M" using assms(1) by (simp_all add: coherent_def)
  have k: "inv (est w1)" "abs (est w1) = abs (est ?w)" using keeps_objectsD [OF Store_Get_keeps g I(1)] by simp_all
  have res: "res = x" "est w' = (est w)\<lparr>co_heap := (co_heap (est w))[a := (co_heap (est w) ! a)\<lparr>co_val := Some x\<rparr>],
      cs_Loads := cs_Loads (est w) + 1, cs_back := est w1\<rparr>"
    using assms(3) None g by (auto simp: cached_Load_def monad_defs on_back_def)
  have val: "\<exists>b. M ?d = Some b \<and> Store_decode st b = Inr v" if "x = Inr v" for v
    using Store_Get_sound [OF I(1)] g that I(2) by (fastforce simp: map_le_def dom_def)
  have heap: "\<exists>b. M (co_digest o1) = Some b \<and> Store_decode st b = Inr v"
    if "o1 \<in> set (co_heap (est w'))" "co_val o1 = Some (Inr v)" for o1 v
  proof -
    from that(1) consider "o1 \<in> set (co_heap (est w))" | "o1 = (co_heap (est w) ! a)\<lparr>co_val := Some x\<rparr>"
      using set_update_subset_insert [of "co_heap (est w)" a] by (auto simp: res(2))
    then show ?thesis
      using that(2) val assms(1) by cases (auto simp: coherent_def)
  qed
  have "coherent abs inv st M (est w')"
    using assms(1,2) heap k I by (auto simp: coherent_def res(2) nth_list_update)
  with res val show ?thesis by auto
qed

lemma cached_Proxy_sound:
  assumes "coherent abs inv st M (est w)" "cached_Proxy st None d w = (x, w')"
  shows "coherent abs inv st M (est w') \<and>
    (\<forall>a. x = Inr a \<longrightarrow> a < length (co_heap (est w')) \<and> co_digest (co_heap (est w') ! a) = d)"
proof (cases "map_of (cs_cache (est w)) (Digest_String d)")
  case (Some a)
  with assms show ?thesis
    by (auto simp: cached_Proxy_def monad_defs coherent_def) (metis Digest_String_inj)
next
  case None
  let ?w = "\<lparr>ectx = ectx w, est = cs_back (est w)\<rparr>"
  obtain y w1 where g: "Store_Exists st d ?w = (y, w1)" by fastforce
  have I: "inv (est ?w)" "abs (est ?w) \<subseteq>\<^sub>m M" using assms(1) by (simp_all add: coherent_def)
  have k: "inv (est w1)" "abs (est w1) = abs (est ?w)" using keeps_objectsD [OF Store_Exists_keeps g I(1)] by simp_all
  show ?thesis
    using assms None g k
    by (auto simp: cached_Proxy_def monad_defs on_back_def coherent_def cached_insert_def Let_def nth_append
        split: sum.splits prod.splits if_splits) (force dest: less_SucI)+
qed

lemma cached_Get_sound:
  assumes "coherent abs inv st M (est w)" "cached_Get st None d w = (x, w')"
  shows "coherent abs inv st M (est w') \<and>
    (\<forall>v. x = Inr v \<longrightarrow> (\<exists>b. M d = Some b \<and> Store_decode st b = Inr v))"
proof -
  obtain y w1 where p: "cached_Proxy st None d w = (y, w1)" by fastforce
  note s = cached_Proxy_sound [OF assms(1) p]
  show ?thesis
  proof (cases y)
    case (Inl e)
    with p assms(2) s show ?thesis by (auto simp: cached_Get_def)
  next
    case (Inr a)
    with p assms(2) have l: "cached_Load st a w1 = (x, w')" by (simp add: cached_Get_def)
    from s Inr have a: "a < length (co_heap (est w1))" "co_digest (co_heap (est w1) ! a) = d" by simp_all
    from s have c1: "coherent abs inv st M (est w1)" by simp
    from cached_Load_sound [OF c1 a(1) l] a(2) show ?thesis by simp
  qed
qed

end

text \<open>What the cache has memoized for a digest: the answer of the first load of its entry, an error included.\<close>

definition memo :: "digest \<Rightarrow> ('a, 'b, 'z) cstate_scheme \<Rightarrow> 'a result option" where
  "memo d c = (case map_of (cs_cache c) (Digest_String d) of None \<Rightarrow> None | Some a \<Rightarrow> co_val (co_heap c ! a))"

text \<open>The store's own answer in the state of its backend behind the cache.\<close>

definition store_answer :: "('a, 'b) store \<Rightarrow> digest \<Rightarrow> ('a, 'b, 'z) cstate_scheme env \<Rightarrow> 'a result" where
  "store_answer st d w = fst (Store_Get st d \<lparr>ectx = ectx w, est = cs_back (est w)\<rparr>)"

lemma cached_Load_first:
  assumes "co_val (co_heap (est w) ! a) = None" "co_digest (co_heap (est w) ! a) = d"
  shows "fst (cached_Load st a w) = store_answer st d w"
  using assms by (simp add: cached_Load_def monad_defs on_back_def store_answer_def split: prod.split)

lemma cached_Get_entry:
  assumes "map_of (cs_cache (est w)) (Digest_String d) = Some a"
  shows "cached_Get st onNew d w = cached_Load st a (w\<lparr>est := (est w)\<lparr>cs_Hits := cs_Hits (est w) + 1\<rparr>\<rparr>)"
  using assms by (simp add: cached_Get_def cached_Proxy_def monad_defs)

lemma cached_Get_entry_fst:
  assumes "map_of (cs_cache (est w)) (Digest_String d) = Some a" "co_digest (co_heap (est w) ! a) = d"
  shows "fst (cached_Get st onNew d w) = (case memo d (est w) of Some res \<Rightarrow> res | None \<Rightarrow> store_answer st d w)"
proof (cases "co_val (co_heap (est w) ! a)")
  case None
  with assms show ?thesis
    using cached_Load_first [of "w\<lparr>est := (est w)\<lparr>cs_Hits := cs_Hits (est w) + 1\<rparr>\<rparr>" a d st]
    by (simp add: cached_Get_entry memo_def store_answer_def)
qed (use assms in \<open>simp add: cached_Get_entry memo_def cached_Load_memo\<close>)

text \<open>Over a backend that answers in a live context, the answers of cache and store can be compared.\<close>

locale live_cache = cached_client be abs inv st + typed_store be abs inv st
  for be :: "'b backend" and abs :: "'b \<Rightarrow> digest \<Rightarrow> bytes option" and inv :: "'b \<Rightarrow> bool"
    and st :: "('a, 'b) store"
begin

lemma store_answer_value:
  assumes "inv (cs_back (est w))" "ectx w = Live" "d \<noteq> []" "h_Validate (s_hasher st) d = None"
  shows "case abs (cs_back (est w)) d of
      None \<Rightarrow> \<exists>e. store_answer st d w = Inl e \<and> errors_Is e ErrNotFound
    | Some b \<Rightarrow> store_answer st d w = Store_decode st b"
proof (cases "abs (cs_back (est w)) d")
  case None
  with Store_Get_missing [of "\<lparr>ectx = ectx w, est = cs_back (est w)\<rparr>" d] assms show ?thesis by (auto simp: store_answer_def)
next
  case (Some b)
  from Store_Get_value [of "\<lparr>ectx = ectx w, est = cs_back (est w)\<rparr>" d b] assms Some show ?thesis
    by (simp add: store_answer_def) (metis fst_conv)
qed

lemma cached_Get_miss:
  assumes "coherent abs inv st M (est w)" "ectx w = Live" "d \<noteq> []" "h_Validate (s_hasher st) d = None"
    and "map_of (cs_cache (est w)) (Digest_String d) = None"
  shows "if abs (cs_back (est w)) d = None then \<exists>e. fst (cached_Get st None d w) = Inl e \<and> errors_Is e ErrNotFound
    else fst (cached_Get st None d w) = store_answer st d w"
proof -
  let ?w = "\<lparr>ectx = ectx w, est = cs_back (est w)\<rparr>"
  have I: "inv (est ?w)" "ectx ?w = Live" using assms(1,2) by (simp_all add: coherent_def)
  from exists_value [OF I assms(3)] obtain w1 where
    b: "b_Exists be d ?w = (Inr (abs (cs_back (est w)) d \<noteq> None), w1)" "ectx w1 = Live" by auto
  have k: "inv (est w1)" "abs (est w1) = abs (cs_back (est w))"
    using keeps_objectsD [OF exists_keeps b(1) I(1)] by simp_all
  have chk: "Store_check st d what = None" for what using assms(3,4) by (simp add: Store_check_None)
  have ex: "Store_Exists st d ?w = (Inr (abs (cs_back (est w)) d \<noteq> None), w1)"
    using b(1) chk by (simp add: Store_Exists_def bnd_def when_err_def over_backend)
  show ?thesis
  proof (cases "abs (cs_back (est w)) d")
    case None
    with ex assms(5) show ?thesis by (simp add: cached_Get_def cached_Proxy_def monad_defs on_back_def)
  next
    case (Some c)
    obtain w2 where p: "cached_Proxy st None d w = (Inr (length (co_heap (est w))), w2)" and w2: "cs_back (est w2) = est w1" "ectx w2 = Live"
      "co_heap (est w2) = co_heap (est w) @ [\<lparr>co_digest = d, co_val = None\<rparr>]"
      using ex Some assms(5) b(2) by (simp add: cached_Proxy_def monad_defs on_back_def cached_insert_def Let_def)
    then have "fst (cached_Get st None d w) = store_answer st d w2"
      using cached_Load_first [of w2 "length (co_heap (est w))" d st] by (simp add: cached_Get_def bnd_def)
    also have "\<dots> = store_answer st d w"
      using store_answer_value [of w2 d] store_answer_value [of w d] w2 k assms(2-4) I Some by simp
    finally show ?thesis using Some by simp
  qed
qed

lemma cached_Get_live:
  assumes "coherent abs inv st M (est w)" "ectx w = Live" "d \<noteq> []" "h_Validate (s_hasher st) d = None"
  shows "case memo d (est w) of
      Some res \<Rightarrow> fst (cached_Get st None d w) = res \<and>
        (\<forall>v. res = Inr v \<and> abs (cs_back (est w)) d \<noteq> None \<longrightarrow> store_answer st d w = Inr v)
    | None \<Rightarrow> (if abs (cs_back (est w)) d = None
        then (\<exists>e. fst (cached_Get st None d w) = Inl e \<and> errors_Is e ErrNotFound) \<and> (\<exists>e. store_answer st d w = Inl e \<and> errors_Is e ErrNotFound)
        else fst (cached_Get st None d w) = store_answer st d w)"
proof (cases "map_of (cs_cache (est w)) (Digest_String d)")
  case None
  have "inv (cs_back (est w))" using assms(1) by (simp add: coherent_def)
  from cached_Get_miss [OF assms None] store_answer_value [OF this assms(2-4)] None show ?thesis
    by (cases "abs (cs_back (est w)) d") (simp_all add: memo_def)
next
  case (Some a)
  have I: "inv (cs_back (est w))" "abs (cs_back (est w)) \<subseteq>\<^sub>m M" using assms(1) by (simp_all add: coherent_def)
  note ans = store_answer_value [OF I(1) assms(2-4)]
  from Some assms(1) have a: "a < length (co_heap (est w))" "co_digest (co_heap (est w) ! a) = d"
    unfolding coherent_def by (blast, metis Digest_String_inj)
  note get = cached_Get_entry_fst [OF Some a(2), of st None]
  have "store_answer st d w = Inr v" if "memo d (est w) = Some (Inr v)" "abs (cs_back (est w)) d = Some b" for v b
  proof -
    have "co_val (co_heap (est w) ! a) = Some (Inr v)" using that(1) Some by (simp add: memo_def)
    with assms(1) a obtain c where "M d = Some c" "Store_decode st c = Inr v" unfolding coherent_def by (metis nth_mem)
    moreover have "M d = Some b" using I(2) that(2) by (metis map_le_def domI)
    ultimately show ?thesis using ans that(2) by simp
  qed
  with get ans show ?thesis by (cases "abs (cs_back (est w)) d") (auto split: option.split)
qed

end

section \<open>Properties\<close>

interpretation mem_cached: cached_client mem_backend mem_abs mem_inv "Store_New mem_backend c h ops"
  for c h ops
  by unfold_locales

interpretation mem_live_cache: live_cache mem_backend mem_abs mem_inv "Store_New mem_backend c h ops"
  for c h ops
  by unfold_locales

text \<open>
  C34: How a read through the cache relates to a read of the store. Whatever the context does, an object the cache returns is the
  one the content of its digest decodes to, also when the object has meanwhile been deleted from the backend, and
  the cache stays coherent. In a live context and for a digest the hasher accepts, compared with \<open>Store.Get\<close> in the same state: where nothing is memoized for
  the digest, the cache gives the store's answer for a stored object, be it an object or an error, and both answer \<open>ErrNotFound\<close> for one that is not stored; a memoized
  object is the store's answer as long as it is still stored; a memoized error is answered again, whatever the store would say now.
\<close>

theorem cached_get_transparent:
  assumes "coherent mem_abs mem_inv (Store_New mem_backend c h ops) M (est w)"
    and "cached_Get (Store_New mem_backend c h ops) None d w = (x, w')"
  shows "coherent mem_abs mem_inv (Store_New mem_backend c h ops) M (est w') \<and>
    (\<forall>v. x = Inr v \<longrightarrow> (\<exists>b. M d = Some b \<and> Store_decode (Store_New mem_backend c h ops) b = Inr v)) \<and>
    (ectx w = Live \<and> d \<noteq> [] \<and> h_Validate h d = None \<longrightarrow>
      (let stored = mem_abs (cs_back (est w)) d \<noteq> None;
           y = fst (Store_Get (Store_New mem_backend c h ops) d \<lparr>ectx = Live, est = cs_back (est w)\<rparr>) in
       case memo d (est w) of
         None \<Rightarrow> if stored then x = y
           else (\<exists>e. x = Inl e \<and> errors_Is e ErrNotFound) \<and> (\<exists>e. y = Inl e \<and> errors_Is e ErrNotFound)
       | Some (Inr v) \<Rightarrow> x = Inr v \<and> (stored \<longrightarrow> y = Inr v)
       | Some (Inl e) \<Rightarrow> x = Inl e))"
proof -
  note mem_cached.cached_Get_sound [OF assms]
  moreover note live = mem_live_cache.cached_Get_live [OF assms(1), of d, simplified assms(2) fst_conv store_answer_def]
  ultimately show ?thesis by (auto simp: Let_def split: option.splits sum.splits if_splits)
qed

theorem cached_get_transparent_witness:
  "\<exists>w1. cached_Get (demo_store ''cbor'') None [65] \<lparr>ectx = Live, est = cached_New demo_heap\<rparr> = (Inr [[66]], w1) \<and>
     fst (Store_Get (demo_store ''cbor'') [65] \<lparr>ectx = Live, est = demo_heap\<rparr>) = Inr [[66]] \<and>
     coherent mem_abs mem_inv (demo_store ''cbor'') (map_of (objects demo_heap)) (est w1)"
proof -
  let ?w = "\<lparr>ectx = Live, est = cached_New demo_heap\<rparr>"
  have "fst (cached_Get (demo_store ''cbor'') None [65] ?w) = Inr [[66]]" by code_simp
  then obtain w1 where run: "cached_Get (demo_store ''cbor'') None [65] ?w = (Inr [[66]], w1)" by (metis prod.collapse)
  have coh: "coherent mem_abs mem_inv (demo_store ''cbor'') (map_of (objects demo_heap)) (est ?w)"
    using demo_heap_inv by (simp add: coherent_New)
  have start: "memo [65] (cached_New demo_heap :: (digest list, mem_state) cstate) = None" "cs_back (cached_New demo_heap) = demo_heap"
    "map_of (objects demo_heap) [65] = Some [2, 0, 3, 116, 64, 49, 1, 66]" "h_Validate demo_hasher [65] = None"
    by (simp_all add: memo_def cached_New_def demo_heap_def demo_hasher_def)
  from cached_get_transparent [OF coh run] run show ?thesis by (simp add: Let_def start)
qed

text \<open>
  a memoized error outlives its cause: a first read under a cancelled context makes every later read of the stored object fail, until the
  entry is evicted.
\<close>

theorem cached_error_outlives_cancellation:
  "case cached_Get (demo_store ''cbor'') None [65] \<lparr>ectx = CancelAfter 1 ByCancel, est = cached_New demo_heap\<rparr> of (x, w1) \<Rightarrow>
     \<not> is_ok x \<and> fst (cached_Get (demo_store ''cbor'') None [65] (w1\<lparr>ectx := Live\<rparr>)) = x \<and>
     fst (Store_Get (demo_store ''cbor'') [65] \<lparr>ectx = Live, est = cs_back (est w1)\<rparr>) = Inr [[66]] \<and>
     fst (cached_Get (demo_store ''cbor'') None [65] (w1\<lparr>ectx := Live, est := cached_Evict [65] (est w1)\<rparr>)) = Inr [[66]]"
  by code_simp

lemma cached_Proxy_entry:
  assumes "cached_Proxy st None d w = (Inr a, w')"
  shows "map_of (cs_cache (est w')) (Digest_String d) = Some a"
  using assms
  by (auto simp: cached_Proxy_def monad_defs on_back_def cached_insert_def Let_def
      split: option.splits sum.splits prod.splits if_splits)

lemma cached_Load_cache: "cached_Load st a w = (x, w') \<Longrightarrow> cs_cache (est w') = cs_cache (est w)"
  by (auto simp: cached_Load_def monad_defs on_back_def split: option.splits prod.splits)

text \<open>
  a load is memoized. After a read through the cache has answered an object, every later read of
  the same digest answers it again without reaching the backend, whatever the context, and
  counts as a hit.
\<close>

theorem cached_get_memoizes:
  assumes "coherent mem_abs mem_inv (Store_New mem_backend c h ops) M (est w)"
    and "cached_Get (Store_New mem_backend c h ops) None d w = (Inr v, w')"
  shows "cached_Get (Store_New mem_backend c h ops) None d (w'\<lparr>ectx := x\<rparr>) =
    (Inr v, w'\<lparr>ectx := x, est := (est w')\<lparr>cs_Hits := cs_Hits (est w') + 1\<rparr>\<rparr>)"
proof -
  let ?s = "Store_New mem_backend c h ops"
  from assms(2) obtain a w1 where p: "cached_Proxy ?s None d w = (Inr a, w1)" and l: "cached_Load ?s a w1 = (Inr v, w')"
    by (auto simp: cached_Get_def bnd_ok)
  have a: "a < length (co_heap (est w1))" using mem_cached.cached_Proxy_sound [OF assms(1) p] by simp
  have val: "co_val (co_heap (est w') ! a) = Some (Inr v)"
    using l a by (auto simp: cached_Load_def monad_defs on_back_def split: option.splits prod.splits)
  have "map_of (cs_cache (est w')) (Digest_String d) = Some a"
    using cached_Proxy_entry [OF p] cached_Load_cache [OF l] by simp
  with val show ?thesis by (simp add: cached_Get_def cached_Proxy_def monad_defs cached_Load_def)
qed

theorem cached_get_memoizes_witness:
  "\<exists>w' :: (digest list, mem_state) cstate env.
     cached_Get (demo_store ''cbor'') None [65] (w'\<lparr>ectx := CancelAfter 0 ByCancel\<rparr>) =
     (Inr [[66]], w'\<lparr>ectx := CancelAfter 0 ByCancel, est := (est w')\<lparr>cs_Hits := cs_Hits (est w') + 1\<rparr>\<rparr>)"
proof -
  have "fst (cached_Get (demo_store ''cbor'') None [65] \<lparr>ectx = Live, est = cached_New demo_heap\<rparr>) = Inr [[66]]"
    by code_simp
  then obtain w' where run: "cached_Get (demo_store ''cbor'') None [65] \<lparr>ectx = Live, est = cached_New demo_heap\<rparr> = (Inr [[66]], w')"
    by (metis prod.collapse)
  have coh: "coherent mem_abs mem_inv (demo_store ''cbor'') (map_of (objects demo_heap))
      (est \<lparr>ectx = Live, est = cached_New demo_heap\<rparr>)"
    using demo_heap_inv by (simp add: coherent_New)
  show ?thesis
    by (rule exI, rule cached_get_memoizes [OF coh run, of "CancelAfter 0 ByCancel"])
qed

section \<open>The depth of a preload\<close>

text \<open>
  Four objects: the first refers to the second and the third, the second to the third, the third to
  the fourth.
\<close>

definition demo_diamond :: mem_state where
  "demo_diamond =
     \<lparr>objects = [([70], [2, 0, 3, 116, 64, 49, 2, 71, 72]), ([71], [2, 0, 3, 116, 64, 49, 1, 72]),
                 ([72], [2, 0, 3, 116, 64, 49, 1, 73]), ([73], [2, 0, 3, 116, 64, 49, 0])],
      maxBytes = 0, usedBytes = 32\<rparr>"

text \<open>
  the depth-limited preload can miss an object within its depth. The walk is depth first and marks
  a digest as warmed when it meets it at the depth limit; a shorter path to the same digest then
  no longer expands it. Here the fourth object is two references away from the root and a
  preload of depth two succeeds without warming it.
\<close>

theorem preload_misses_object_within_depth:
  "fst (PreloadRecursive (demo_store ''cbor'') [70] 2 \<lparr>ectx = Live, est = cached_New demo_diamond\<rparr>) = Inr () \<and>
   edge (stored_refs (demo_store ''cbor'') (map_of (objects demo_diamond))) [70] [72] \<and>
   edge (stored_refs (demo_store ''cbor'') (map_of (objects demo_diamond))) [72] [73] \<and>
   map_of (cs_cache (est (snd (PreloadRecursive (demo_store ''cbor'') [70] 2
     \<lparr>ectx = Live, est = cached_New demo_diamond\<rparr>)))) (Digest_String [73]) = None"
  by code_simp

end
