(* ===== verification/Cache_Lru.thy ===== *)
theory Cache_Lru
  imports Cache_Mem
begin

text \<open>
  \<open>src/cas/cache/lru/lru.go\<close> and \<open>src/cas/cache/validate.go\<close>: the size-bounded cache. The state
  extends that of the lazy cache with the bound, the recency list (most recent first, of addresses
  of cached objects) and its index by key.

  Shown: the bookkeeping invariant, the refinement of every operation to an operation on the list of
  keys by recency (a use moves the key to the front and cuts the list at the bound), and what the
  two unsynchronised halves of \<open>Clear\<close> allow.
\<close>

section \<open>State and methods\<close>

record ('a, 'b) lstate = "('a, 'b) cstate" +
  maxSize :: int
  lru_list :: "nat list"
  lru_index :: "(string \<times> nat) list"

definition ValidateMaxSize :: "int \<Rightarrow> string \<Rightarrow> err option" where
  "ValidateMaxSize sz name = (if sz \<le> 0 then Some (ErrorsNew (name @ '': maxSize must be > 0'')) else None)"

definition lru_New :: "'b \<Rightarrow> int \<Rightarrow> ('a, 'b) lstate result" where
  "lru_New b sz =
     (case ValidateMaxSize sz ''cache/lru'' of
        Some e \<Rightarrow> Inl e
      | None \<Rightarrow> Inr (cstate.extend (cached_New b) \<lparr>maxSize = sz, lru_list = [], lru_index = []\<rparr>))"

definition lru_Lookup :: "string \<Rightarrow> ('a, 'b) lstate \<Rightarrow> nat option" where
  "lru_Lookup key c = cached_Lookup key c"

text \<open>\<open>MoveToFront\<close> leaves the list alone when the element is not in it.\<close>

definition lru_touchLocked :: "string \<Rightarrow> nat option \<Rightarrow> ('a, 'b) lstate \<Rightarrow> ('a, 'b) lstate" where
  "lru_touchLocked key co c =
     (case map_of (lru_index c) key of
        Some el \<Rightarrow> if el \<in> set (lru_list c) then c\<lparr>lru_list := el # remove1 el (lru_list c)\<rparr> else c
      | None \<Rightarrow>
          (case (case co of Some a \<Rightarrow> Some a | None \<Rightarrow> lru_Lookup key c) of
             None \<Rightarrow> c
           | Some a \<Rightarrow> c\<lparr>lru_list := a # lru_list c, lru_index := AList.update key a (lru_index c)\<rparr>))"

text \<open>The key a cached object is stored under.\<close>

definition co_key :: "('a, 'b, 'z) cstate_scheme \<Rightarrow> nat \<Rightarrow> string" where
  "co_key c a = Digest_String (co_digest (co_heap c ! a))"

definition lru_evict_last :: "('a, 'b) lstate \<Rightarrow> ('a, 'b) lstate" where
  "lru_evict_last c =
     (let evictedKey = co_key c (last (lru_list c)) in
      cached_IncrEvicts (cached_EvictKey evictedKey
        (c\<lparr>lru_list := butlast (lru_list c), lru_index := AList.delete evictedKey (lru_index c)\<rparr>)))"

lemma lru_list_evict_last [simp]: "lru_list (lru_evict_last c) = butlast (lru_list c)"
  by (simp add: lru_evict_last_def Let_def cached_IncrEvicts_def cached_EvictKey_def)

function lru_evict_loop :: "('a, 'b) lstate \<Rightarrow> ('a, 'b) lstate" where
  "lru_evict_loop c =
     (if int (length (lru_list c)) > maxSize c
      then (if lru_list c = [] then c else lru_evict_loop (lru_evict_last c))
      else c)"
  by pat_completeness auto
termination
  by (relation "measure (\<lambda>c. length (lru_list c))") auto

declare lru_evict_loop.simps [simp del]

definition lru_note :: "string \<Rightarrow> ('a, 'b) lstate \<Rightarrow> ('a, 'b) lstate" where
  "lru_note key c = lru_evict_loop (lru_touchLocked key None c)"

definition lru_forget :: "string \<Rightarrow> ('a, 'b) lstate \<Rightarrow> ('a, 'b) lstate" where
  "lru_forget key c =
     (case map_of (lru_index c) key of
        None \<Rightarrow> c
      | Some el \<Rightarrow> c\<lparr>lru_list := remove1 el (lru_list c), lru_index := AList.delete key (lru_index c)\<rparr>)"

definition lru_Evict :: "digest \<Rightarrow> ('a, 'b) lstate \<Rightarrow> ('a, 'b) lstate" where
  "lru_Evict d c = lru_forget (Digest_String d) (cached_Evict d c)"

definition lru_EvictKey :: "string \<Rightarrow> ('a, 'b) lstate \<Rightarrow> ('a, 'b) lstate" where
  "lru_EvictKey key c = lru_forget key (cached_EvictKey key c)"

definition lru_reset :: "('a, 'b) lstate \<Rightarrow> ('a, 'b) lstate" where
  "lru_reset c = c\<lparr>lru_list := [], lru_index := []\<rparr>"

definition lru_Clear :: "('a, 'b) lstate \<Rightarrow> ('a, 'b) lstate" where
  "lru_Clear c = lru_reset (cached_Clear c)"

definition lru_Proxy :: "('a, 'b) store \<Rightarrow> digest \<Rightarrow> (('a, 'b) lstate, nat) act" where
  "lru_Proxy st d =
     bnd (cached_Proxy st (Some lru_note) d) (\<lambda>co.
     bnd get_st (\<lambda>c.
     bnd (put_st (lru_touchLocked (Digest_String d) (Some co) c)) (\<lambda>_. ret co)))"

definition lru_Get :: "('a, 'b) store \<Rightarrow> digest \<Rightarrow> (('a, 'b) lstate, 'a) act" where
  "lru_Get st d = bnd (lru_Proxy st d) (\<lambda>co. cached_Load st co)"

definition lru_CacheStats :: "('a, 'b) lstate \<Rightarrow> CacheStats" where
  "lru_CacheStats c = cached_CacheStats c"

section \<open>The bookkeeping invariant\<close>

text \<open>The keys by recency: the abstract state of the policy.\<close>

definition recency :: "('a, 'b) lstate \<Rightarrow> string list" where
  "recency c = map (co_key c) (lru_list c)"

text \<open>
  The map and the index agree, every entry is named by its own digest, and the recency list holds
  each entry once.
\<close>

definition lru_wf :: "('a, 'b) lstate \<Rightarrow> bool" where
  "lru_wf c \<longleftrightarrow>
     distinct (map fst (cs_cache c)) \<and> map_of (lru_index c) = map_of (cs_cache c) \<and>
     (\<forall>k a. map_of (cs_cache c) k = Some a \<longrightarrow> a < length (co_heap c) \<and> co_key c a = k) \<and>
     distinct (lru_list c) \<and> set (lru_list c) = ran (map_of (cs_cache c))"

definition lru_inv :: "('a, 'b) lstate \<Rightarrow> bool" where
  "lru_inv c \<longleftrightarrow> lru_wf c \<and> maxSize c > 0 \<and> int (length (lru_list c)) \<le> maxSize c"

lemma lru_inv_New: "lru_New b sz = Inr c \<Longrightarrow> lru_inv c \<and> recency c = []"
  by (auto simp: lru_New_def ValidateMaxSize_def lru_inv_def lru_wf_def recency_def cached_New_def
      cstate.defs split: if_splits)

lemma lru_wf_entry:
  assumes "lru_wf c"
  shows "a \<in> set (lru_list c) \<longleftrightarrow> map_of (cs_cache c) (co_key c a) = Some a"
  using assms unfolding lru_wf_def ran_def by auto

lemma recency_distinct: "lru_wf c \<Longrightarrow> distinct (recency c)"
  unfolding recency_def distinct_map inj_on_def
  using lru_wf_entry by (metis (no_types) lru_wf_def option.inject)

lemma recency_keys: "lru_wf c \<Longrightarrow> set (recency c) = dom (map_of (cs_cache c))"
  by (auto simp: recency_def lru_wf_entry) (metis lru_wf_def lru_wf_entry imageI domI)

lemma lru_size:
  assumes "lru_wf c"
  shows "length (cs_cache c) = length (lru_list c)"
proof -
  have "length (cs_cache c) = card (dom (map_of (cs_cache c)))"
    using assms distinct_card [of "map fst (cs_cache c)"] by (simp add: lru_wf_def dom_map_of_conv_image_fst)
  also have "\<dots> = length (recency c)"
    using recency_keys [OF assms] distinct_card [OF recency_distinct [OF assms]] by simp
  finally show ?thesis by (simp add: recency_def)
qed

section \<open>The bookkeeping steps\<close>

lemma co_key_frame [simp]:
  "co_key (c\<lparr>lru_list := l\<rparr>) = co_key c" "co_key (c\<lparr>lru_index := ix\<rparr>) = co_key c"
  "co_key (c'\<lparr>cs_cache := m\<rparr>) = co_key c'" "co_key (c'\<lparr>cs_Evicts := n\<rparr>) = co_key c'"
  by (simp_all add: co_key_def fun_eq_iff)

lemma ran_delete_entry:
  assumes "m k = Some a" "\<And>k' x. m k' = Some x \<Longrightarrow> f x = k'"
  shows "ran (m(k := None)) = ran m - {a}"
proof -
  have inj: "k' = k" if "m k' = Some a" for k' using assms(2) [OF that] assms(2) [OF assms(1)] by simp
  show ?thesis
  proof (intro set_eqI iffI)
    fix x assume "x \<in> ran (m(k := None))"
    then obtain k' where "k' \<noteq> k" "m k' = Some x" by (auto simp: ran_def split: if_splits)
    with inj show "x \<in> ran m - {a}" by (auto simp: ran_def)
  next
    fix x assume "x \<in> ran m - {a}"
    then obtain k' where "m k' = Some x" "x \<noteq> a" by (auto simp: ran_def)
    with assms(1) have "k' \<noteq> k" by auto
    with \<open>m k' = Some x\<close> show "x \<in> ran (m(k := None))" by (auto simp: ran_def)
  qed
qed

lemma recency_move:
  assumes "lru_wf c" "map_of (cs_cache c) k = Some a"
  shows "map (co_key c) (a # remove1 a (lru_list c)) = k # removeAll k (recency c)"
proof -
  have a: "co_key c a = k" "a \<in> set (lru_list c)" "distinct (lru_list c)"
    using assms by (auto simp: lru_wf_def ran_def)
  have "inj_on (co_key c) (insert a (set (lru_list c)))"
    using recency_distinct [OF assms(1)] a(2) by (simp add: recency_def distinct_map insert_absorb)
  then have "map (co_key c) (removeAll a (lru_list c)) = removeAll (co_key c a) (map (co_key c) (lru_list c))"
    by (rule map_removeAll_inj_on)
  with a show ?thesis by (simp add: recency_def distinct_remove1_removeAll)
qed

lemma touch_hit:
  assumes "lru_wf c" "map_of (cs_cache c) k = Some a"
  shows "lru_wf (lru_touchLocked k co c)" "recency (lru_touchLocked k co c) = k # removeAll k (recency c)"
    "maxSize (lru_touchLocked k co c) = maxSize c"
    "length (lru_list (lru_touchLocked k co c)) = length (lru_list c)"
proof -
  have ix: "map_of (lru_index c) k = Some a" using assms by (simp add: lru_wf_def)
  have a: "a \<in> set (lru_list c)" using assms by (auto simp: lru_wf_def ran_def)
  then show "lru_wf (lru_touchLocked k co c)" "maxSize (lru_touchLocked k co c) = maxSize c"
    "length (lru_list (lru_touchLocked k co c)) = length (lru_list c)"
    using assms ix length_pos_if_in_set [OF a]
    by (auto simp: lru_touchLocked_def lru_wf_def co_key_def length_remove1)
  show "recency (lru_touchLocked k co c) = k # removeAll k (recency c)"
    using recency_move [OF assms] ix a by (simp add: lru_touchLocked_def recency_def)
qed

lemma wf_evict_last:
  assumes "lru_wf c" "lru_list c \<noteq> []"
  shows "lru_wf (lru_evict_last c)" "recency (lru_evict_last c) = butlast (recency c)"
    "maxSize (lru_evict_last c) = maxSize c"
proof -
  let ?a = "last (lru_list c)" and ?k = "co_key c (last (lru_list c))"
  have split: "lru_list c = butlast (lru_list c) @ [?a]" using assms(2) by simp
  have d: "distinct (butlast (lru_list c) @ [?a])" using assms by (simp add: lru_wf_def)
  have k: "map_of (cs_cache c) ?k = Some ?a" using lru_wf_entry [OF assms(1), of ?a] assms(2) by simp
  have list: "set (butlast (lru_list c)) = set (lru_list c) - {?a}"
    using d by (subst (2) split) auto
  have "ran ((map_of (cs_cache c))(?k := None)) = ran (map_of (cs_cache c)) - {?a}"
  proof (rule ran_delete_entry [where f = "co_key c"])
    show "co_key c x = k'" if "map_of (cs_cache c) k' = Some x" for k' x
      using assms(1) that unfolding lru_wf_def by blast
  qed (rule k)
  then have ran: "ran ((map_of (cs_cache c))(?k := None)) = set (lru_list c) - {?a}"
    using assms(1) unfolding lru_wf_def by simp
  show "lru_wf (lru_evict_last c)"
    using assms(1) d list ran
    by (auto simp: lru_wf_def lru_evict_last_def Let_def cached_IncrEvicts_def cached_EvictKey_def
        distinct_delete split: if_splits)
  show "recency (lru_evict_last c) = butlast (recency c)" "maxSize (lru_evict_last c) = maxSize c"
    by (simp_all add: recency_def map_butlast lru_evict_last_def Let_def cached_IncrEvicts_def
        cached_EvictKey_def)
qed

lemma evict_loop_spec:
  assumes "lru_wf c" "maxSize c > 0"
  shows "lru_inv (lru_evict_loop c) \<and> maxSize (lru_evict_loop c) = maxSize c \<and>
    recency (lru_evict_loop c) = take (nat (maxSize c)) (recency c)"
  using assms
proof (induction c rule: lru_evict_loop.induct)
  case (1 c)
  show ?case
  proof (cases "int (length (lru_list c)) > maxSize c")
    case True
    then have ne: "lru_list c \<noteq> []" using "1.prems"(2) by auto
    note step = wf_evict_last [OF "1.prems"(1) ne]
    have "lru_inv (lru_evict_loop (lru_evict_last c)) \<and>
        maxSize (lru_evict_loop (lru_evict_last c)) = maxSize (lru_evict_last c) \<and>
        recency (lru_evict_loop (lru_evict_last c)) = take (nat (maxSize (lru_evict_last c))) (recency (lru_evict_last c))"
      using "1.IH" [OF True ne step(1)] step(3) "1.prems"(2) by simp
    moreover have "take (nat (maxSize c)) (butlast (recency c)) = take (nat (maxSize c)) (recency c)"
      using True "1.prems"(2) by (intro take_butlast) (simp add: recency_def nat_less_iff)
    moreover have "lru_evict_loop c = lru_evict_loop (lru_evict_last c)"
      using True ne by (subst lru_evict_loop.simps) simp
    ultimately show ?thesis using step by simp
  next
    case False
    then have "lru_evict_loop c = c" by (simp add: lru_evict_loop.simps)
    with False "1.prems" show ?thesis by (simp add: lru_inv_def recency_def)
  qed
qed

text \<open>Inserting a fresh entry, before the eviction.\<close>

lemma insert_wf:
  assumes "lru_wf c" "map_of (cs_cache c) (Digest_String d) = None"
  defines "c2 \<equiv> c\<lparr>co_heap := co_heap c @ [\<lparr>co_digest = d, co_val = None\<rparr>],
    cs_cache := AList.update (Digest_String d) (length (co_heap c)) (cs_cache c)\<rparr>"
  shows "lru_wf (lru_touchLocked (Digest_String d) None c2) \<and>
    recency (lru_touchLocked (Digest_String d) None c2) = Digest_String d # recency c \<and>
    maxSize (lru_touchLocked (Digest_String d) None c2) = maxSize c"
proof -
  let ?a = "length (co_heap c)" and ?k = "Digest_String d"
  have ix: "map_of (lru_index c) ?k = None" using assms(1,2) by (simp add: lru_wf_def)
  have t: "lru_touchLocked ?k None c2 = c2\<lparr>lru_list := ?a # lru_list c, lru_index := AList.update ?k ?a (lru_index c)\<rparr>"
    using ix by (simp add: lru_touchLocked_def c2_def lru_Lookup_def cached_Lookup_def)
  have old: "a < length (co_heap c)" if "a \<in> set (lru_list c)" for a
    using that assms(1) by (auto simp: lru_wf_def ran_def)
  have ran: "ran ((map_of (cs_cache c))(?k \<mapsto> ?a)) = insert ?a (ran (map_of (cs_cache c)))"
    using assms(2) by (rule ran_map_upd)
  have "lru_wf (lru_touchLocked ?k None c2)"
    unfolding t using assms(1) old ran
    by (auto simp: lru_wf_def c2_def co_key_def nth_append distinct_update split: if_splits) fastforce+
  moreover have "recency (lru_touchLocked ?k None c2) = ?k # recency c"
    unfolding t recency_def using old by (simp add: c2_def co_key_def nth_append)
  moreover have "maxSize (lru_touchLocked ?k None c2) = maxSize c"
    unfolding t by (simp add: c2_def)
  ultimately show ?thesis by blast
qed

lemma note_insert:
  assumes "lru_inv c" "cached_insert (Some lru_note) d c = (a, c')" "map_of (cs_cache c) (Digest_String d) = None"
  shows "lru_inv c' \<and> maxSize c' = maxSize c \<and>
    recency c' = take (nat (maxSize c)) (Digest_String d # recency c)"
proof -
  let ?c2 = "c\<lparr>co_heap := co_heap c @ [\<lparr>co_digest = d, co_val = None\<rparr>],
    cs_cache := AList.update (Digest_String d) (length (co_heap c)) (cs_cache c)\<rparr>"
  have c': "c' = lru_evict_loop (lru_touchLocked (Digest_String d) None ?c2)"
    using assms(2,3) by (auto simp: cached_insert_def Let_def lru_note_def)
  have wf: "lru_wf c" "maxSize c > 0" using assms(1) by (simp_all add: lru_inv_def)
  note i = insert_wf [OF wf(1) assms(3)]
  have "maxSize (lru_touchLocked (Digest_String d) None ?c2) > 0" using i wf(2) by simp
  with evict_loop_spec [of "lru_touchLocked (Digest_String d) None ?c2"] i c' show ?thesis by simp
qed

section \<open>The methods on the recency list\<close>

text \<open>Changing counters or the backend does not touch the bookkeeping.\<close>

lemma lru_frame [simp]:
  "lru_inv (c\<lparr>cs_Hits := h\<rparr>) = lru_inv c" "lru_inv (c\<lparr>cs_Misses := h\<rparr>) = lru_inv c" "lru_inv (c\<lparr>cs_back := b\<rparr>) = lru_inv c"
  "recency (c\<lparr>cs_Hits := h\<rparr>) = recency c" "recency (c\<lparr>cs_Misses := h\<rparr>) = recency c" "recency (c\<lparr>cs_back := b\<rparr>) = recency c"
  by (simp_all add: lru_inv_def lru_wf_def recency_def co_key_def)

lemma lru_inv_wf: "lru_inv c \<Longrightarrow> lru_wf c"
  by (simp add: lru_inv_def)

lemma touch_present:
  assumes "lru_inv c" "Digest_String d \<in> set (recency c)"
  shows "lru_inv (lru_touchLocked (Digest_String d) co c) \<and>
    recency (lru_touchLocked (Digest_String d) co c) = Digest_String d # removeAll (Digest_String d) (recency c) \<and>
    maxSize (lru_touchLocked (Digest_String d) co c) = maxSize c"
proof -
  from assms obtain a where "map_of (cs_cache c) (Digest_String d) = Some a"
    using recency_keys [OF lru_inv_wf [OF assms(1)]] by auto
  from touch_hit [OF lru_inv_wf [OF assms(1)] this] assms(1) show ?thesis by (simp add: lru_inv_def)
qed

lemma lru_Proxy_spec:
  assumes "lru_inv (est w)" "lru_Proxy st d w = (x, w')"
  shows "lru_inv (est w') \<and> maxSize (est w') = maxSize (est w) \<and>
    recency (est w') = (if is_ok x
      then take (nat (maxSize (est w))) (Digest_String d # removeAll (Digest_String d) (recency (est w)))
      else recency (est w))"
proof (cases "map_of (cs_cache (est w)) (Digest_String d)")
  case (Some a)
  let ?c = "(est w)\<lparr>cs_Hits := cs_Hits (est w) + 1\<rparr>"
  have inv: "lru_inv ?c" "Digest_String d \<in> set (recency ?c)"
    using assms(1) Some recency_keys [OF lru_inv_wf [OF assms(1)]] by auto
  have res: "x = Inr a" "est w' = lru_touchLocked (Digest_String d) (Some a) ?c"
    using assms(2) Some by (auto simp: lru_Proxy_def cached_Proxy_def monad_defs)
  have "length (recency (est w)) \<le> nat (maxSize (est w))" using assms(1) by (auto simp: lru_inv_def recency_def)
  moreover have "length (removeAll (Digest_String d) (recency (est w))) < length (recency (est w))"
    using inv(2) by (simp add: length_removeAll_less)
  ultimately have "take (nat (maxSize (est w))) (Digest_String d # removeAll (Digest_String d) (recency (est w))) =
      Digest_String d # removeAll (Digest_String d) (recency (est w))" by simp
  with touch_present [OF inv, of "Some a"] res show ?thesis by simp
next
  case None
  let ?c = "(est w)\<lparr>cs_Misses := cs_Misses (est w) + 1\<rparr>"
  have notin: "Digest_String d \<notin> set (recency (est w))"
    using None recency_keys [OF lru_inv_wf [OF assms(1)]] by auto
  obtain y w1 where g: "Store_Exists st d \<lparr>ectx = ectx w, est = cs_back (est w)\<rparr> = (y, w1)" by fastforce
  let ?c1 = "?c\<lparr>cs_back := est w1\<rparr>"
  show ?thesis
  proof (cases "y = Inr True")
    case False
    then have "est w' = ?c1 \<and> \<not> is_ok x"
      using assms(2) None g
      by (cases y) (auto simp: lru_Proxy_def cached_Proxy_def monad_defs on_back_def)
    with assms(1) show ?thesis by simp
  next
    case True
    obtain a c2 where i: "cached_insert (Some lru_note) d ?c1 = (a, c2)" by fastforce
    have inv1: "lru_inv ?c1" using assms(1) by simp
    note ni = note_insert [OF inv1 i]
    have ni': "lru_inv c2" "maxSize c2 = maxSize (est w)"
      "recency c2 = take (nat (maxSize (est w))) (Digest_String d # recency (est w))"
      using ni None by simp_all
    have res: "x = Inr a" "est w' = lru_touchLocked (Digest_String d) (Some a) c2"
      using assms(2) None g i True
      by (auto simp: lru_Proxy_def cached_Proxy_def monad_defs on_back_def)
    obtain n where n: "nat (maxSize (est w)) = Suc n"
      using assms(1) by (auto simp: lru_inv_def gr0_conv_Suc dest!: zero_less_nat_eq [THEN iffD2])
    have "Digest_String d \<in> set (recency c2)" using ni'(3) n by simp
    moreover have "Digest_String d \<notin> set (take n (recency (est w)))"
      using notin by (auto dest: in_set_takeD)
    ultimately show ?thesis
      using touch_present [OF ni'(1), of d "Some a"] res ni' notin n by simp
  qed
qed

text \<open>Dropping a key drops it from the map and from the recency list.\<close>

lemma lru_EvictKey_spec:
  assumes "lru_inv c"
  shows "lru_inv (lru_EvictKey k c) \<and> maxSize (lru_EvictKey k c) = maxSize c \<and>
    recency (lru_EvictKey k c) = removeAll k (recency c)"
proof (cases "map_of (cs_cache c) k")
  case None
  then have "k \<notin> set (recency c)" using recency_keys [OF lru_inv_wf [OF assms]] by auto
  moreover have "AList.delete k (cs_cache c) = cs_cache c"
    using None by (auto simp: map_of_eq_None_iff intro: delete_notin)
  moreover have "map_of (lru_index c) k = None" using assms None by (simp add: lru_inv_def lru_wf_def)
  ultimately show ?thesis using assms by (simp add: lru_EvictKey_def lru_forget_def cached_EvictKey_def)
next
  case (Some a)
  have wf: "lru_wf c" using assms by (rule lru_inv_wf)
  have ix: "map_of (lru_index c) k = Some a" using wf Some by (simp add: lru_wf_def)
  have move: "map (co_key c) (remove1 a (lru_list c)) = removeAll k (recency c)"
    using recency_move [OF wf Some] by simp
  have "ran ((map_of (cs_cache c))(k := None)) = ran (map_of (cs_cache c)) - {a}"
  proof (rule ran_delete_entry [where f = "co_key c"])
    show "co_key c x = k'" if "map_of (cs_cache c) k' = Some x" for k' x
      using wf that unfolding lru_wf_def by blast
  qed (rule Some)
  moreover have "set (remove1 a (lru_list c)) = set (lru_list c) - {a}"
    using wf by (simp add: lru_wf_def)
  ultimately have ran: "set (remove1 a (lru_list c)) = ran ((map_of (cs_cache c))(k := None))"
    using wf unfolding lru_wf_def by simp
  have c': "lru_EvictKey k c = c\<lparr>cs_cache := AList.delete k (cs_cache c), lru_list := remove1 a (lru_list c),
      lru_index := AList.delete k (lru_index c)\<rparr>"
    using ix by (simp add: lru_EvictKey_def lru_forget_def cached_EvictKey_def)
  have "length (remove1 a (lru_list c)) \<le> length (lru_list c)" by (simp add: length_remove1)
  then have "lru_inv (lru_EvictKey k c)"
    using assms ran unfolding c' lru_inv_def lru_wf_def by (auto simp: distinct_delete split: if_splits)
  then show ?thesis using move by (simp add: c' recency_def)
qed

lemma lru_Evict_EvictKey:
  "lru_Evict d c = (if map_of (cs_cache c) (Digest_String d) = None then lru_forget (Digest_String d) c
     else (lru_EvictKey (Digest_String d) c)\<lparr>cs_Evicts := cs_Evicts c + 1\<rparr>)"
  by (simp add: lru_Evict_def cached_Evict_def lru_EvictKey_def lru_forget_def cached_EvictKey_def
      cached_IncrEvicts_def split: option.split)

lemma lru_Evict_spec:
  assumes "lru_inv c"
  shows "lru_inv (lru_Evict d c) \<and> maxSize (lru_Evict d c) = maxSize c \<and>
    recency (lru_Evict d c) = removeAll (Digest_String d) (recency c)"
proof (cases "map_of (cs_cache c) (Digest_String d)")
  case None
  moreover have "map_of (lru_index c) (Digest_String d) = None" using assms None by (simp add: lru_inv_def lru_wf_def)
  moreover have "Digest_String d \<notin> set (recency c)"
    using None recency_keys [OF lru_inv_wf [OF assms]] by auto
  ultimately show ?thesis using assms by (simp add: lru_Evict_EvictKey lru_forget_def)
next
  case (Some a)
  let ?c = "lru_EvictKey (Digest_String d) c"
  have "lru_inv (?c\<lparr>cs_Evicts := n\<rparr>) = lru_inv ?c" "recency (?c\<lparr>cs_Evicts := n\<rparr>) = recency ?c" for n
    by (simp_all add: lru_inv_def lru_wf_def recency_def)
  with lru_EvictKey_spec [OF assms, of "Digest_String d"] Some show ?thesis by (simp add: lru_Evict_EvictKey)
qed

lemma lru_Clear_spec: "lru_inv c \<Longrightarrow> lru_inv (lru_Clear c) \<and> maxSize (lru_Clear c) = maxSize c \<and> recency (lru_Clear c) = []"
  by (simp add: lru_Clear_def lru_reset_def cached_Clear_def lru_inv_def lru_wf_def recency_def)

lemma cached_Load_frame:
  assumes "lru_inv (est w)" "cached_Load st a w = (x, w')"
  shows "lru_inv (est w') \<and> maxSize (est w') = maxSize (est w) \<and> recency (est w') = recency (est w)"
proof (cases "co_val (co_heap (est w) ! a)")
  case None
  let ?h = "\<lambda>res. (co_heap (est w))[a := (co_heap (est w) ! a)\<lparr>co_val := Some res\<rparr>]"
  from assms(2) None obtain b where e: "est w' = (est w)\<lparr>cs_back := b, co_heap := ?h x, cs_Loads := cs_Loads (est w) + 1\<rparr>"
    by (auto simp: cached_Load_def monad_defs on_back_def split: prod.splits)
  have "co_key (est w') k = co_key (est w) k" for k
    by (cases "a < length (co_heap (est w))"; cases "k = a") (auto simp: e co_key_def nth_list_update list_update_beyond)
  then have "co_key (est w') = co_key (est w)" by (simp add: fun_eq_iff)
  then show ?thesis using assms(1) by (simp add: lru_inv_def lru_wf_def recency_def) (simp add: e)
qed (use assms in \<open>simp add: cached_Load_memo\<close>)

lemma lru_Get_inv:
  assumes "lru_inv (est w)" "lru_Get st d w = (x, w')"
  shows "lru_inv (est w') \<and> maxSize (est w') = maxSize (est w)"
proof -
  obtain y w1 where p: "lru_Proxy st d w = (y, w1)" by fastforce
  note s = lru_Proxy_spec [OF assms(1) p]
  from assms(2) p have "w' = w1 \<or> (\<exists>a. cached_Load st a w1 = (x, w'))"
    by (cases y) (auto simp: lru_Get_def)
  with s cached_Load_frame [of w1 st _ x w'] show ?thesis by auto
qed

lemma cached_Proxy_note:
  assumes "lru_inv (est w)" "cached_Proxy st (Some lru_note) d w = (x, w')"
  shows "lru_inv (est w') \<and> maxSize (est w') = maxSize (est w)"
proof (cases "map_of (cs_cache (est w)) (Digest_String d)")
  case (Some a)
  with assms show ?thesis by (auto simp: cached_Proxy_def monad_defs)
next
  case None
  obtain y w1 where g: "Store_Exists st d \<lparr>ectx = ectx w, est = cs_back (est w)\<rparr> = (y, w1)" by fastforce
  let ?c1 = "(est w)\<lparr>cs_Misses := cs_Misses (est w) + 1, cs_back := est w1\<rparr>"
  obtain a c2 where i: "cached_insert (Some lru_note) d ?c1 = (a, c2)" by fastforce
  have "lru_inv ?c1" using assms(1) by simp
  from note_insert [OF this i] None assms(1) have "lru_inv c2 \<and> maxSize c2 = maxSize (est w)" by simp
  moreover have "est w' = ?c1 \<or> est w' = c2"
    using assms(2) None g i by (cases y) (auto simp: cached_Proxy_def monad_defs on_back_def split: if_splits)
  ultimately show ?thesis using \<open>lru_inv ?c1\<close> by auto
qed

lemma cached_Get_note:
  assumes "lru_inv (est w)" "cached_Get st (Some lru_note) d w = (x, w')"
  shows "lru_inv (est w') \<and> maxSize (est w') = maxSize (est w)"
proof -
  obtain y w1 where p: "cached_Proxy st (Some lru_note) d w = (y, w1)" by fastforce
  note s = cached_Proxy_note [OF assms(1) p]
  from assms(2) p have "w' = w1 \<or> (\<exists>a. cached_Load st a w1 = (x, w'))" by (cases y) (auto simp: cached_Get_def)
  with s cached_Load_frame [of w1 st _ x w'] show ?thesis by auto
qed

section \<open>Properties\<close>

text \<open>
  One call on the cache. \<open>Preload\<close>, \<open>PreloadRecursive\<close> and \<open>Warmup\<close> go through the wrapped store, whose reads run the
  insert hook; \<open>step_Fill\<close> is one such read.
\<close>

inductive lru_step :: "('a, 'b) store \<Rightarrow> ('a, 'b) lstate env \<Rightarrow> ('a, 'b) lstate env \<Rightarrow> bool" for st where
  step_Proxy: "lru_Proxy st d w = (x, w') \<Longrightarrow> lru_step st w w'"
| step_Get: "lru_Get st d w = (x, w') \<Longrightarrow> lru_step st w w'"
| step_Fill: "cached_Get st (Some lru_note) d w = (x, w') \<Longrightarrow> lru_step st w w'"
| step_Evict: "lru_step st w (w\<lparr>est := lru_Evict d (est w)\<rparr>)"
| step_EvictKey: "lru_step st w (w\<lparr>est := lru_EvictKey k (est w)\<rparr>)"
| step_Clear: "lru_step st w (w\<lparr>est := lru_Clear (est w)\<rparr>)"
| step_ctx: "lru_step st w (w\<lparr>ectx := c\<rparr>)"
| step_backend: "lru_step st w (w\<lparr>est := (est w)\<lparr>cs_back := b\<rparr>\<rparr>)"

lemma lru_step_inv:
  assumes "lru_step st w w'" "lru_inv (est w)"
  shows "lru_inv (est w') \<and> maxSize (est w') = maxSize (est w)"
  using assms(1)
proof (cases rule: lru_step.cases)
  case (step_Proxy d x)
  then show ?thesis using lru_Proxy_spec assms(2) by blast
next
  case (step_Get d x)
  then show ?thesis using lru_Get_inv assms(2) by blast
next
  case (step_Fill d x)
  then show ?thesis using cached_Get_note assms(2) by blast
qed (use assms(2) in \<open>simp_all add: lru_Evict_spec lru_EvictKey_spec lru_Clear_spec\<close>)

text \<open>
  C35: the size bound. After any sequence of calls on a new cache, interleaved with arbitrary changes
  of the backend and of the context, the number of cached entries is at most the bound, and the bookkeeping agrees: the recency list has one
  place for each cached entry, its keys are exactly the cached keys, each of them once, the index leads from each cached key, and from no other, to the
  entry the map holds under it, and the list holds exactly the entries the index leads to.
\<close>

theorem lru_size_bounded:
  assumes "lru_New b sz = Inr c0" "(lru_step st)\<^sup>*\<^sup>* \<lparr>ectx = x, est = c0\<rparr> w"
  shows "int (Size (lru_CacheStats (est w))) \<le> sz \<and> length (lru_list (est w)) = Size (lru_CacheStats (est w)) \<and>
    distinct (recency (est w)) \<and> set (recency (est w)) = dom (map_of (cs_cache (est w))) \<and>
    map_of (lru_index (est w)) = map_of (cs_cache (est w)) \<and> set (lru_list (est w)) = ran (map_of (lru_index (est w)))"
proof -
  have init: "lru_inv c0 \<and> maxSize c0 = sz"
    using lru_inv_New [OF assms(1)] assms(1)
    by (auto simp: lru_New_def ValidateMaxSize_def cstate.defs cached_New_def split: if_splits)
  from assms(2) init have "lru_inv (est w) \<and> maxSize (est w) = sz"
    by (induction rule: rtranclp_induct) (auto dest: lru_step_inv)
  then show ?thesis
    using lru_size [of "est w"] recency_distinct [of "est w"] recency_keys [of "est w"]
    by (simp add: lru_inv_def lru_wf_def lru_CacheStats_def cached_CacheStats_def)
qed

definition lru_demo :: "(digest list, mem_state) lstate env" where
  "lru_demo = \<lparr>ectx = Live, est = cstate.extend (cached_New demo_heap) \<lparr>maxSize = 1, lru_list = [], lru_index = []\<rparr>\<rparr>"

theorem lru_size_bounded_witness:
  "\<exists>w. (lru_step (demo_store ''cbor''))\<^sup>*\<^sup>* lru_demo w \<and> lru_New demo_heap 1 = Inr (est lru_demo) \<and>
     cs_cache (est w) = [(Digest_String [66], 1)] \<and> int (Size (lru_CacheStats (est w))) \<le> 1 \<and>
     map_of (lru_index (est w)) = [Digest_String [66] \<mapsto> 1] \<and> set (lru_list (est w)) = {1}"
proof -
  let ?s = "demo_store ''cbor''" and ?w = "snd (lru_Get (demo_store ''cbor'') [66] (snd (lru_Get (demo_store ''cbor'') [65] lru_demo)))"
  have new: "lru_New demo_heap 1 = Inr (est lru_demo)" by (simp add: lru_New_def ValidateMaxSize_def lru_demo_def)
  have step: "lru_step ?s w (snd (lru_Get ?s d w))" for w d by (rule step_Get [OF prod.collapse [symmetric]])
  from step [of lru_demo "[65]"] step have run: "(lru_step ?s)\<^sup>*\<^sup>* lru_demo ?w" by (meson converse_rtranclp_into_rtranclp r_into_rtranclp)
  moreover have demo: "lru_demo = \<lparr>ectx = Live, est = est lru_demo\<rparr>" by (simp add: lru_demo_def)
  have "cs_cache (est ?w) = [(Digest_String [66], 1)]" by code_simp
  ultimately show ?thesis using lru_size_bounded [OF new, of ?s Live ?w] demo new by (intro exI [of _ ?w]) auto
qed

text \<open>
  the eviction policy is least recently used. A successful access makes its key the most recent
  one, keeps the order of the others and drops the least recent keys beyond the bound; an access
  that fails (a missing object, a cancelled context) changes neither the order nor the contents.
\<close>

theorem lru_access_order:
  assumes "lru_inv (est w)" "lru_Proxy st d w = (x, w')"
  shows "recency (est w') = (if is_ok x
      then take (nat (maxSize (est w))) (Digest_String d # removeAll (Digest_String d) (recency (est w)))
      else recency (est w)) \<and>
    dom (map_of (cs_cache (est w'))) = set (recency (est w'))"
  using lru_Proxy_spec [OF assms] recency_keys [of "est w'"] by (simp add: lru_inv_def)

theorem lru_access_order_witness:
  "\<exists>w0 w' :: (digest list, mem_state) lstate env. \<exists>x. lru_Proxy (demo_store ''cbor'') [65] w0 = (x, w') \<and>
     recency (est w') = [Digest_String [65]]"
proof -
  obtain c0 :: "(digest list, mem_state) lstate" where c0: "lru_New demo_heap 1 = Inr c0"
    by (simp add: lru_New_def ValidateMaxSize_def)
  let ?w = "\<lparr>ectx = Live, est = c0\<rparr>"
  obtain x w' where run: "lru_Proxy (demo_store ''cbor'') [65] ?w = (x, w')" by fastforce
  have "cs_cache c0 = [] \<and> cs_back c0 = demo_heap \<and> maxSize c0 = 1"
    using c0 by (auto simp: lru_New_def ValidateMaxSize_def cstate.defs cached_New_def)
  then have "is_ok x"
    using run
    by (auto simp: lru_Proxy_def cached_Proxy_def monad_defs on_back_def Store_Exists_def Store_check_def
        demo_hasher_def mem_backend_def mem_live demo_heap_def split: prod.splits)
  with lru_access_order [OF _ run] lru_inv_New [OF c0] \<open>cs_cache c0 = [] \<and> cs_back c0 = demo_heap \<and> maxSize c0 = 1\<close> run
  show ?thesis by auto
qed

text \<open>
  the bound is not kept when a clear overlaps an insertion. \<open>Clear\<close> empties the map and then,
  separately, the recency bookkeeping; an entry inserted in between stays in the map without a place
  in the recency list and is never evicted. With a bound of one, the cache then holds two entries.
\<close>

theorem lru_clear_race_exceeds_bound:
  "\<exists>c0 :: (digest list, mem_state) lstate. lru_New demo_heap 1 = Inr c0 \<and>
     (\<exists>w1 w2. lru_Proxy (demo_store ''cbor'') [65] \<lparr>ectx = Live, est = cached_Clear c0\<rparr> = (Inr 0, w1) \<and>
       lru_Proxy (demo_store ''cbor'') [66] (w1\<lparr>est := lru_reset (est w1)\<rparr>) = (Inr 1, w2) \<and>
       maxSize (est w2) = 1 \<and> Size (lru_CacheStats (est w2)) = 2)"
proof -
  define c0 :: "(digest list, mem_state) lstate" where
    "c0 = cstate.extend (cached_New demo_heap) \<lparr>maxSize = 1, lru_list = [], lru_index = []\<rparr>"
  have new: "lru_New demo_heap 1 = Inr c0" by (simp add: lru_New_def ValidateMaxSize_def c0_def)
  note defs = lru_Proxy_def cached_Proxy_def monad_defs on_back_def Store_Exists_def Store_check_def
    demo_hasher_def mem_backend_def mem_live demo_heap_def cached_insert_def Let_def lru_note_def
    lru_touchLocked_def lru_Lookup_def cached_Lookup_def lru_evict_loop.simps lru_reset_def
  obtain w1 where w1: "lru_Proxy (demo_store ''cbor'') [65] \<lparr>ectx = Live, est = cached_Clear c0\<rparr> = (Inr 0, w1)"
    and e1: "ectx w1 = Live" "cs_cache (est w1) = [(Digest_String [65], 0)]" "cs_back (est w1) = demo_heap"
      "maxSize (est w1) = 1" "length (co_heap (est w1)) = 1"
    by (simp add: defs c0_def cached_Clear_def cstate.defs cached_New_def)
  obtain w2 where "lru_Proxy (demo_store ''cbor'') [66] (w1\<lparr>est := lru_reset (est w1)\<rparr>) = (Inr 1, w2)"
    "maxSize (est w2) = 1" "Size (lru_CacheStats (est w2)) = 2"
    using e1 by (simp add: defs lru_CacheStats_def cached_CacheStats_def)
  with new w1 show ?thesis by blast
qed

end
