(* ===== verification/Bloom_Filter.thy ===== *)
theory Bloom_Filter
  imports Cas_Digest "HOL-Library.Multiset"
begin

text \<open>
  \<open>src/cas/bloom/standard/filter.go\<close> and \<open>src/cas/bloom/counting/filter.go\<close>: the two in-memory
  membership filters. The index hash is the caller's (or a process-local one of the standard library)
  and the shape \<open>(m, k)\<close> comes from a floating-point formula, so both are parameters: the
  constructors take the outcome of \<open>Parameters\<close> as an argument. Bitmaps are lists of 64-bit words,
  packed counters lists of bytes, indexed as the source does.

  Shown: the standard filter has no false negative; reading a packed counter after writing one
  gives the written value and no neighbour is disturbed, for all three widths; the counting filter
  refines a multiset of slot hits as long as no counter saturates, hence has no false negative
  then; and what saturation and unbalanced removals do.
\<close>

unbundle bit_operations_syntax

type_synonym index_hash = "bytes \<Rightarrow> nat \<Rightarrow> 64 word"

section \<open>The standard filter\<close>

record std_filter =
  f_bits :: "64 word list"
  f_k :: nat
  f_m :: nat
  f_hash :: index_hash

text \<open>\<open>params\<close> is the outcome of \<open>bloom.Parameters\<close>, \<open>rateErr\<close> that of the rate check.\<close>

definition std_NewFilter :: "nat \<Rightarrow> err option \<Rightarrow> (nat \<times> nat) result \<Rightarrow> index_hash \<Rightarrow> std_filter result" where
  "std_NewFilter expectedItems rateErr params hash =
     (if expectedItems = 0 then Inl (ErrorsNew ''bloom/standard: expected items must be > 0'')
      else case rateErr of
          Some e \<Rightarrow> Inl e
        | None \<Rightarrow>
            (case params of
               Inl e \<Rightarrow> Inl (Errorf ''bloom/standard'' [e])
             | Inr (m, k) \<Rightarrow>
                 Inr \<lparr>f_bits = replicate ((m + 63) div 64) 0, f_k = k, f_m = m, f_hash = hash\<rparr>))"

definition probe :: "index_hash \<Rightarrow> nat \<Rightarrow> digest \<Rightarrow> nat \<Rightarrow> nat" where
  "probe hash m d i = unat (hash d i) mod m"

definition set_bit64 :: "nat \<Rightarrow> 64 word list \<Rightarrow> 64 word list" where
  "set_bit64 idx bits = bits[idx div 64 := bits ! (idx div 64) OR push_bit (idx mod 64) 1]"

fun std_add_loop :: "index_hash \<Rightarrow> nat \<Rightarrow> digest \<Rightarrow> nat list \<Rightarrow> 64 word list \<Rightarrow> 64 word list" where
  "std_add_loop hash m d [] bits = bits"
| "std_add_loop hash m d (i # is) bits = std_add_loop hash m d is (set_bit64 (probe hash m d i) bits)"

definition std_Add :: "digest \<Rightarrow> std_filter \<Rightarrow> std_filter" where
  "std_Add d f =
     (if IsZero d then f else f\<lparr>f_bits := std_add_loop (f_hash f) (f_m f) d [0..<f_k f] (f_bits f)\<rparr>)"

fun std_contains_loop :: "index_hash \<Rightarrow> nat \<Rightarrow> digest \<Rightarrow> nat list \<Rightarrow> 64 word list \<Rightarrow> bool" where
  "std_contains_loop hash m d [] bits = True"
| "std_contains_loop hash m d (i # is) bits =
     (let idx = probe hash m d i in
      if bits ! (idx div 64) AND push_bit (idx mod 64) 1 = 0 then False
      else std_contains_loop hash m d is bits)"

definition std_Contains :: "std_filter \<Rightarrow> digest \<Rightarrow> bool" where
  "std_Contains f d =
     (if IsZero d then False else std_contains_loop (f_hash f) (f_m f) d [0..<f_k f] (f_bits f))"

definition std_Reset :: "std_filter \<Rightarrow> std_filter" where
  "std_Reset f = f\<lparr>f_bits := map (\<lambda>_. 0) (f_bits f)\<rparr>"

section \<open>The bitmap as a set of positions\<close>

definition bits_set :: "64 word list \<Rightarrow> nat set" where
  "bits_set bits = {idx. idx div 64 < length bits \<and> bit (bits ! (idx div 64)) (idx mod 64)}"

definition std_wf :: "std_filter \<Rightarrow> bool" where
  "std_wf f \<longleftrightarrow> f_m f > 0 \<and> length (f_bits f) = (f_m f + 63) div 64"

lemma div_64_less: "y < m \<Longrightarrow> y div 64 < (m + 63) div (64 :: nat)"
  using div_mult_mod_eq [of y 64]
  by (simp add: Suc_le_eq [symmetric] less_eq_div_iff_mult_less_eq)

lemma index_in_range: "m > 0 \<Longrightarrow> (x mod m) div 64 < (m + 63) div (64 :: nat)"
  by (rule div_64_less) simp

lemma and_mask_zero_iff: "n < 64 \<Longrightarrow> (w :: 64 word) AND 2 ^ n = 0 \<longleftrightarrow> \<not> bit w n"
  by (simp add: and_exp_eq_0_iff_not_bit)

lemma bit_or_mask: "bit ((w :: 64 word) OR 2 ^ n) j \<longleftrightarrow> bit w j \<or> (j = n \<and> n < 64)"
  by (auto simp: bit_or_iff bit_exp_iff)

lemma bits_set_set_bit64:
  assumes "idx div 64 < length bits"
  shows "bits_set (set_bit64 idx bits) = insert idx (bits_set bits)"
proof (rule set_eqI)
  fix j
  have "j = idx \<longleftrightarrow> j div 64 = idx div 64 \<and> j mod 64 = idx mod 64"
    by (metis div_mult_mod_eq)
  moreover have "idx mod 64 < 64" by simp
  ultimately show "j \<in> bits_set (set_bit64 idx bits) \<longleftrightarrow> j \<in> insert idx (bits_set bits)"
    using assms by (auto simp: bits_set_def set_bit64_def nth_list_update bit_or_mask)
qed

lemma length_set_bit64 [simp]: "length (set_bit64 idx bits) = length bits"
  by (simp add: set_bit64_def)

lemma length_add_loop [simp]: "length (std_add_loop hash m d is bits) = length bits"
  by (induction hash m d "is" bits rule: std_add_loop.induct) simp_all

lemma bits_set_add_loop:
  "m > 0 \<Longrightarrow> length bits = (m + 63) div 64 \<Longrightarrow>
    bits_set (std_add_loop hash m d is bits) = bits_set bits \<union> probe hash m d ` set is"
proof (induction hash m d "is" bits rule: std_add_loop.induct)
  case (2 hash m d i "is" bits)
  have "probe hash m d i div 64 < length bits"
    using 2 index_in_range by (simp add: probe_def)
  with 2 show ?case by (simp add: bits_set_set_bit64)
qed simp

lemma contains_loop_iff:
  "m > 0 \<Longrightarrow> length bits = (m + 63) div 64 \<Longrightarrow>
    std_contains_loop hash m d is bits \<longleftrightarrow> probe hash m d ` set is \<subseteq> bits_set bits"
proof (induction "is")
  case (Cons i "is")
  have "probe hash m d i div 64 < length bits"
    using Cons.prems index_in_range by (simp add: probe_def)
  with Cons show ?case by (auto simp: Let_def and_mask_zero_iff bits_set_def)
qed simp

definition std_positions :: "std_filter \<Rightarrow> digest \<Rightarrow> nat set" where
  "std_positions f d = probe (f_hash f) (f_m f) d ` {0..<f_k f}"

lemma std_Contains_iff:
  "std_wf f \<Longrightarrow> std_Contains f d \<longleftrightarrow> d \<noteq> [] \<and> std_positions f d \<subseteq> bits_set (f_bits f)"
  by (simp add: std_Contains_def std_wf_def contains_loop_iff std_positions_def)

lemma std_Add_spec:
  assumes "std_wf f"
  shows "std_wf (std_Add d f)" "std_positions (std_Add d f) = std_positions f"
    "bits_set (f_bits (std_Add d f)) = bits_set (f_bits f) \<union> (if d = [] then {} else std_positions f d)"
  using assms by (auto simp: std_Add_def std_wf_def bits_set_add_loop std_positions_def fun_eq_iff)

lemma std_NewFilter_wf: "std_NewFilter n re (Inr (m, k)) hash = Inr f \<Longrightarrow> m > 0 \<Longrightarrow> std_wf f"
  by (auto simp: std_NewFilter_def std_wf_def split: if_splits option.splits)

lemma std_Reset_spec: "std_wf f \<Longrightarrow> std_wf (std_Reset f) \<and> bits_set (f_bits (std_Reset f)) = {}"
  by (auto simp: std_Reset_def std_wf_def bits_set_def)

text \<open>An addition never loses a member.\<close>

lemma std_Add_Contains:
  assumes "std_wf f"
  shows "std_Contains f d \<Longrightarrow> std_Contains (std_Add d' f) d" and "d \<noteq> [] \<Longrightarrow> std_Contains (std_Add d f) d"
  using assms std_Add_spec [OF assms] by (auto simp: std_Contains_iff)

section \<open>The counting filter\<close>

definition MaxBits :: nat where
  "MaxBits = 2 ^ 32"

definition MaxCounterBytes :: nat where
  "MaxCounterBytes = MaxBits div 2"

record cnt_filter =
  c_counts :: "8 word list"
  c_k :: nat
  c_m :: nat
  c_bits :: nat
  c_mask :: "32 word"
  c_hash :: index_hash

definition packedCounterBytes :: "nat \<Rightarrow> nat \<Rightarrow> nat" where
  "packedCounterBytes m counterBits = (m * counterBits + 7) div 8"

definition cnt_NewFilter ::
  "nat \<Rightarrow> err option \<Rightarrow> nat \<Rightarrow> (nat \<times> nat) result \<Rightarrow> index_hash \<Rightarrow> cnt_filter result" where
  "cnt_NewFilter expectedItems rateErr counterBits params hash =
     (if expectedItems = 0 then Inl (ErrorsNew ''bloom/counting: expected items must be > 0'')
      else case rateErr of
          Some e \<Rightarrow> Inl e
        | None \<Rightarrow>
            if counterBits \<noteq> 4 \<and> counterBits \<noteq> 8 \<and> counterBits \<noteq> 16
            then Inl (ErrorsNew ''bloom/counting: counter bits must be one of 4, 8, 16'')
            else (case params of
                Inl e \<Rightarrow> Inl (Errorf ''bloom/counting'' [e])
              | Inr (m, k) \<Rightarrow>
                  (let size = packedCounterBytes m counterBits in
                   if size > MaxCounterBytes
                   then Inl (Errorf ''bloom/counting: counter budget''
                     [ErrorsNew ''bloom/counting: filter exceeds the counter budget''])
                   else Inr \<lparr>c_counts = replicate size 0, c_k = k, c_m = m, c_bits = counterBits,
                             c_mask = push_bit counterBits 1 - 1, c_hash = hash\<rparr>)))"

definition counter :: "cnt_filter \<Rightarrow> nat \<Rightarrow> 32 word" where
  "counter f idx =
     (if c_bits f = 4 then
        (let b = c_counts f ! (idx div 2) in
         if idx mod 2 = 0 then ucast (b AND 15) else ucast (drop_bit 4 b))
      else if c_bits f = 8 then ucast (c_counts f ! idx)
      else (let pos = idx * 2 in
            ucast (c_counts f ! pos) OR push_bit 8 (ucast (c_counts f ! (pos + 1)))))"

definition setCounter :: "nat \<Rightarrow> 32 word \<Rightarrow> cnt_filter \<Rightarrow> cnt_filter" where
  "setCounter idx v f =
     (if c_bits f = 4 then
        (let pos = idx div 2; b = c_counts f ! pos in
         if idx mod 2 = 0 then f\<lparr>c_counts := (c_counts f)[pos := b AND 240 OR ucast v]\<rparr>
         else f\<lparr>c_counts := (c_counts f)[pos := b AND 15 OR push_bit 4 (ucast v)]\<rparr>)
      else if c_bits f = 8 then f\<lparr>c_counts := (c_counts f)[idx := ucast v]\<rparr>
      else (let pos = idx * 2 in
            f\<lparr>c_counts := (c_counts f)[pos := ucast v, pos + 1 := ucast (drop_bit 8 v)]\<rparr>))"

fun cnt_add_loop :: "digest \<Rightarrow> nat list \<Rightarrow> cnt_filter \<Rightarrow> cnt_filter" where
  "cnt_add_loop d [] f = f"
| "cnt_add_loop d (i # is) f =
     (let idx = probe (c_hash f) (c_m f) d i; v = counter f idx in
      cnt_add_loop d is (if v < c_mask f then setCounter idx (v + 1) f else f))"

definition cnt_Add :: "digest \<Rightarrow> cnt_filter \<Rightarrow> cnt_filter" where
  "cnt_Add d f = (if IsZero d then f else cnt_add_loop d [0..<c_k f] f)"

fun cnt_remove_loop :: "digest \<Rightarrow> nat list \<Rightarrow> cnt_filter \<Rightarrow> cnt_filter" where
  "cnt_remove_loop d [] f = f"
| "cnt_remove_loop d (i # is) f =
     (let idx = probe (c_hash f) (c_m f) d i; v = counter f idx in
      cnt_remove_loop d is (if v > 0 then setCounter idx (v - 1) f else f))"

definition cnt_Remove :: "digest \<Rightarrow> cnt_filter \<Rightarrow> cnt_filter" where
  "cnt_Remove d f = (if IsZero d then f else cnt_remove_loop d [0..<c_k f] f)"

definition cnt_Contains :: "cnt_filter \<Rightarrow> digest \<Rightarrow> bool" where
  "cnt_Contains f d =
     (if IsZero d then False
      else list_all (\<lambda>i. counter f (probe (c_hash f) (c_m f) d i) \<noteq> 0) [0..<c_k f])"

definition cnt_Reset :: "cnt_filter \<Rightarrow> cnt_filter" where
  "cnt_Reset f = f\<lparr>c_counts := map (\<lambda>_. 0) (c_counts f)\<rparr>"

section \<open>Packed counters\<close>

definition cnt_wf :: "cnt_filter \<Rightarrow> bool" where
  "cnt_wf f \<longleftrightarrow> c_m f > 0 \<and> c_bits f \<in> {4, 8, 16} \<and> c_mask f = push_bit (c_bits f) 1 - 1 \<and>
     length (c_counts f) = packedCounterBytes (c_m f) (c_bits f)"

text \<open>Half bytes: what is written in one half is read back, and the other half is untouched.\<close>

lemma low_half: "v \<le> 15 \<Longrightarrow> ucast ((b AND 240 OR ucast (v :: 32 word)) AND (15 :: 8 word)) = v"
  and low_keeps_high: "v \<le> 15 \<Longrightarrow> drop_bit 4 (b AND 240 OR ucast (v :: 32 word)) = drop_bit 4 (b :: 8 word)"
  and high_half: "v \<le> 15 \<Longrightarrow> ucast (drop_bit 4 (b AND 15 OR push_bit 4 (ucast (v :: 32 word))) :: 8 word) = v"
  and high_keeps_low: "(b AND 15 OR push_bit 4 (ucast (v :: 32 word))) AND 15 = (b :: 8 word) AND 15"
proof -
  have m: "(15 :: 8 word) = mask 4" "(240 :: 8 word) = push_bit 4 (mask 4)" by (simp_all add: mask_eq_exp_minus_1)
  have v: "\<not> bit v n" if "v \<le> 15" "4 \<le> n" for n
  proof -
    have "unat v < 2 ^ 4" using that(1) by (simp add: word_le_nat_alt)
    then have "v = take_bit 4 v" by (simp add: word_unat_eq_iff unsigned_take_bit_eq take_bit_nat_eq_self)
    with that(2) show ?thesis by (metis bit_take_bit_iff linorder_not_le)
  qed
  show "v \<le> 15 \<Longrightarrow> ucast ((b AND 240 OR ucast (v :: 32 word)) AND (15 :: 8 word)) = v"
    using v by (intro bit_word_eqI) (auto simp: m bit_simps not_le [symmetric])
  show "v \<le> 15 \<Longrightarrow> drop_bit 4 (b AND 240 OR ucast (v :: 32 word)) = drop_bit 4 (b :: 8 word)"
    using v by (intro bit_word_eqI) (auto simp: m bit_simps dest: bit_imp_le_length)
  show "v \<le> 15 \<Longrightarrow> ucast (drop_bit 4 (b AND 15 OR push_bit 4 (ucast (v :: 32 word))) :: 8 word) = v"
    using v by (intro bit_word_eqI) (auto simp: m bit_simps not_le [symmetric])
  show "(b AND 15 OR push_bit 4 (ucast (v :: 32 word))) AND 15 = (b :: 8 word) AND 15"
    by (intro bit_word_eqI) (auto simp: m bit_simps)
qed

lemma byte_roundtrip: "v \<le> 255 \<Longrightarrow> ucast (ucast (v :: 32 word) :: 8 word) = v"
  by (simp add: word_unat_eq_iff word_le_nat_alt unsigned_ucast_eq unsigned_take_bit_eq take_bit_nat_eq_self)

lemma two_byte_roundtrip:
  assumes "v \<le> 65535"
  shows "ucast (ucast (v :: 32 word) :: 8 word) OR push_bit 8 (ucast (ucast (drop_bit 8 v) :: 8 word)) = v"
proof -
  have "unat v < 2 ^ 16" using assms by (simp add: word_le_nat_alt)
  then have "v = take_bit 16 v" by (simp add: word_unat_eq_iff unsigned_take_bit_eq take_bit_nat_eq_self)
  then have v: "n < 16" if "bit v n" for n using that by (metis bit_take_bit_iff)
  show ?thesis
    by (rule bit_word_eqI) (auto simp: bit_simps dest: v)
qed

lemma mask_values: "cnt_wf f \<Longrightarrow> c_mask f = (if c_bits f = 4 then 15 else if c_bits f = 8 then 255 else 65535)"
  by (auto simp: cnt_wf_def)

lemma packed_range:
  assumes "cnt_wf f" "idx < c_m f"
  shows "c_bits f = 4 \<Longrightarrow> idx div 2 < length (c_counts f)" "c_bits f = 8 \<Longrightarrow> idx < length (c_counts f)"
    "c_bits f = 16 \<Longrightarrow> idx * 2 + 1 < length (c_counts f)"
  using assms by (auto simp: cnt_wf_def packedCounterBytes_def)

lemma half_index: "(i :: nat) div 2 = j div 2 \<Longrightarrow> i mod 2 = j mod 2 \<Longrightarrow> i = j"
  by (metis div_mult_mod_eq)

text \<open>Reading after writing: the written slot has the value, every other slot is as before.\<close>

lemma counter_setCounter:
  assumes "cnt_wf f" "idx < c_m f" "j < c_m f" "v \<le> c_mask f"
  shows "counter (setCounter idx v f) j = (if j = idx then v else counter f j)"
proof -
  from assms(1) consider (four) "c_bits f = 4" | (eight) "c_bits f = 8" | (sixteen) "c_bits f = 16"
    by (auto simp: cnt_wf_def)
  then show ?thesis
  proof cases
    case four
    have v: "v \<le> 15" using assms(1,4) four by (simp add: mask_values)
    have r: "idx div 2 < length (c_counts f)" using packed_range [OF assms(1,2)] four by simp
    show ?thesis
      using four r half_index [of j idx] low_half [OF v] low_keeps_high [OF v] high_half [OF v] high_keeps_low
      by (auto simp: counter_def setCounter_def Let_def nth_list_update)
  next
    case eight
    have "v \<le> 255" using assms(1,4) eight by (simp add: mask_values)
    with eight packed_range [OF assms(1,2)] show ?thesis
      by (auto simp: counter_def setCounter_def byte_roundtrip nth_list_update)
  next
    case sixteen
    have v: "v \<le> 65535" using assms(1,4) sixteen by (simp add: mask_values)
    have r: "idx * 2 < length (c_counts f)" "Suc (idx * 2) < length (c_counts f)"
      using packed_range(3) [OF assms(1,2) sixteen] by simp_all
    have "j * 2 \<noteq> Suc (idx * 2)" "Suc (j * 2) \<noteq> idx * 2" by presburger+
    with sixteen r two_byte_roundtrip [OF v] show ?thesis
      by (simp add: counter_def setCounter_def Let_def nth_list_update)
  qed
qed

lemma bits_bound:
  assumes "\<And>n. bit (w :: 32 word) n \<Longrightarrow> n < k"
  shows "unat w < 2 ^ k"
proof -
  have "take_bit k w = w" by (rule bit_word_eqI) (auto simp: bit_take_bit_iff dest: assms)
  then have "take_bit k (unat w) = unat w" by (metis unsigned_take_bit_eq)
  then show ?thesis by (metis take_bit_nat_less_exp)
qed

lemma low_mask: "(15 :: 8 word) = mask 4"
  by (simp add: mask_eq_exp_minus_1)

lemma counter_le_mask:
  assumes "cnt_wf f" "idx < c_m f"
  shows "counter f idx \<le> c_mask f"
proof -
  have byte: "n < 8" if "bit b n" for b :: "8 word" and n
    using bit_imp_le_length [OF that] by simp
  have "unat (ucast (b AND 15) :: 32 word) < 2 ^ 4" "unat (ucast (drop_bit 4 b) :: 32 word) < 2 ^ 4"
    "unat (ucast b :: 32 word) < 2 ^ 8" for b :: "8 word"
    by (rule bits_bound, force simp: low_mask bit_simps dest: byte)+
  then have half: "ucast (b AND 15) \<le> (15 :: 32 word)" "ucast (drop_bit 4 b) \<le> (15 :: 32 word)"
    "ucast b \<le> (255 :: 32 word)" for b :: "8 word"
    by (simp_all add: word_le_nat_alt less_Suc_eq_le [symmetric])
  have "unat (ucast b OR push_bit 8 (ucast c) :: 32 word) < 2 ^ 16" for b c :: "8 word"
    by (rule bits_bound) (force simp: bit_simps dest: byte)
  then have two: "ucast b OR push_bit 8 (ucast c) \<le> (65535 :: 32 word)" for b c :: "8 word"
    by (simp add: word_le_nat_alt less_Suc_eq_le [symmetric])
  show ?thesis using half two mask_values [OF assms(1)] by (auto simp: counter_def Let_def)
qed

lemma setCounter_frame:
  "cnt_wf f \<Longrightarrow> cnt_wf (setCounter idx v f)" "c_m (setCounter idx v f) = c_m f"
  "c_k (setCounter idx v f) = c_k f" "c_hash (setCounter idx v f) = c_hash f" "c_mask (setCounter idx v f) = c_mask f"
  by (auto simp: setCounter_def cnt_wf_def Let_def)

section \<open>The counting filter as a multiset of hits\<close>

definition hits :: "cnt_filter \<Rightarrow> digest \<Rightarrow> nat list \<Rightarrow> nat \<Rightarrow> nat" where
  "hits f d is idx = length (filter (\<lambda>i. probe (c_hash f) (c_m f) d i = idx) is)"

lemma hits_Cons: "hits f d (i # is) idx = (if probe (c_hash f) (c_m f) d i = idx then 1 else 0) + hits f d is idx"
  by (simp add: hits_def)

lemma probe_less: "m > 0 \<Longrightarrow> probe h m d i < m"
  by (simp add: probe_def)

definition same_shape :: "cnt_filter \<Rightarrow> cnt_filter \<Rightarrow> bool" where
  "same_shape f g \<longleftrightarrow> c_m g = c_m f \<and> c_k g = c_k f \<and> c_hash g = c_hash f \<and> c_mask g = c_mask f"

lemma hits_cong: "same_shape f g \<Longrightarrow> hits g d is idx = hits f d is idx"
  by (simp add: hits_def same_shape_def)

lemma add_loop_counts:
  assumes "cnt_wf f" "\<forall>idx < c_m f. unat (counter f idx) + hits f d is idx \<le> unat (c_mask f)"
  shows "cnt_wf (cnt_add_loop d is f) \<and> same_shape f (cnt_add_loop d is f) \<and>
    (\<forall>idx < c_m f. unat (counter (cnt_add_loop d is f) idx) = unat (counter f idx) + hits f d is idx)"
  using assms
proof (induction "is" arbitrary: f)
  case Nil
  then show ?case by (simp add: hits_def same_shape_def)
next
  case (Cons i "is")
  let ?idx = "probe (c_hash f) (c_m f) d i"
  let ?v = "counter f ?idx"
  let ?g = "setCounter ?idx (?v + 1) f"
  have m: "?idx < c_m f" using Cons.prems(1) by (simp add: cnt_wf_def probe_less)
  have "unat ?v + 1 \<le> unat (c_mask f)" using Cons.prems(2) m by (auto simp: hits_Cons dest!: spec [of _ ?idx])
  then have lt: "?v < c_mask f" and inc: "unat (?v + 1) = unat ?v + 1" "?v + 1 \<le> c_mask f"
    using unsigned_less [of "c_mask f", where ?'a = nat] by (simp_all add: word_less_nat_alt word_le_nat_alt unat_word_ariths)
  have shape: "same_shape f ?g" using Cons.prems(1) by (simp add: same_shape_def setCounter_frame)
  have cg: "unat (counter ?g j) = unat (counter f j) + (if j = ?idx then 1 else 0)" if "j < c_m f" for j
    using counter_setCounter [OF Cons.prems(1) m that inc(2)] inc(1) by simp
  have "\<forall>j < c_m ?g. unat (counter ?g j) + hits ?g d is j \<le> unat (c_mask ?g)"
    using Cons.prems(2) cg shape by (auto simp: hits_cong hits_Cons setCounter_frame)
  note IH = Cons.IH [OF setCounter_frame(1) [OF Cons.prems(1)] this]
  have step: "cnt_add_loop d (i # is) f = cnt_add_loop d is ?g" using lt by (simp add: Let_def)
  have "unat (counter (cnt_add_loop d is ?g) j) = unat (counter f j) + hits f d (i # is) j" if "j < c_m f" for j
    using IH that by (simp add: hits_cong [OF shape] hits_Cons cg setCounter_frame)
  moreover have "same_shape f (cnt_add_loop d is ?g)" using IH shape by (simp add: same_shape_def)
  ultimately show ?case using IH unfolding step by blast
qed

lemma remove_loop_counts:
  assumes "cnt_wf f" "\<forall>idx < c_m f. hits f d is idx \<le> unat (counter f idx)"
  shows "cnt_wf (cnt_remove_loop d is f) \<and> same_shape f (cnt_remove_loop d is f) \<and>
    (\<forall>idx < c_m f. unat (counter (cnt_remove_loop d is f) idx) = unat (counter f idx) - hits f d is idx)"
  using assms
proof (induction "is" arbitrary: f)
  case Nil
  then show ?case by (simp add: hits_def same_shape_def)
next
  case (Cons i "is")
  let ?idx = "probe (c_hash f) (c_m f) d i"
  let ?v = "counter f ?idx"
  let ?g = "setCounter ?idx (?v - 1) f"
  have m: "?idx < c_m f" using Cons.prems(1) by (simp add: cnt_wf_def probe_less)
  have "1 \<le> unat ?v" using Cons.prems(2) m by (auto simp: hits_Cons dest!: spec [of _ ?idx])
  then have gt: "0 < ?v" and dec: "unat (?v - 1) = unat ?v - 1"
    by (auto simp: word_less_nat_alt unat_sub word_le_nat_alt)
  have le: "?v - 1 \<le> c_mask f" using counter_le_mask [OF Cons.prems(1) m] dec by (simp add: word_le_nat_alt)
  have shape: "same_shape f ?g" using Cons.prems(1) by (simp add: same_shape_def setCounter_frame)
  have cg: "unat (counter ?g j) = unat (counter f j) - (if j = ?idx then 1 else 0)" if "j < c_m f" for j
    using counter_setCounter [OF Cons.prems(1) m that le] dec by simp
  have "\<forall>j < c_m ?g. hits ?g d is j \<le> unat (counter ?g j)"
  proof (intro allI impI)
    fix j assume "j < c_m ?g"
    then have "j < c_m f" by (simp add: setCounter_frame)
    moreover from this have "hits f d (i # is) j \<le> unat (counter f j)" using Cons.prems(2) by blast
    ultimately show "hits ?g d is j \<le> unat (counter ?g j)"
      by (auto simp: hits_cong [OF shape] hits_Cons cg)
  qed
  note IH = Cons.IH [OF setCounter_frame(1) [OF Cons.prems(1)] this]
  have step: "cnt_remove_loop d (i # is) f = cnt_remove_loop d is ?g" using gt by (simp add: Let_def)
  have "unat (counter (cnt_remove_loop d is ?g) j) = unat (counter f j) - hits f d (i # is) j" if "j < c_m f" for j
    using IH that by (simp add: hits_cong [OF shape] hits_Cons cg setCounter_frame)
  moreover have "same_shape f (cnt_remove_loop d is ?g)" using IH shape by (simp add: same_shape_def)
  ultimately show ?case using IH unfolding step by blast
qed

lemma hits_le: "hits f d is idx \<le> length is"
  by (simp add: hits_def)

lemma hits_probe: "i \<in> set is \<Longrightarrow> 0 < hits f d is (probe (c_hash f) (c_m f) d i)"
  by (auto simp: hits_def filter_empty_conv)

text \<open>
  What the filter should know: the multiset of digests added and not yet removed. \<open>load\<close> is the
  number of hits a slot has from it, and the counters represent it when each holds its load.
\<close>

definition load :: "cnt_filter \<Rightarrow> digest multiset \<Rightarrow> nat \<Rightarrow> nat" where
  "load f M idx = sum_mset (image_mset (\<lambda>d. hits f d [0..<c_k f] idx) M)"

definition cnt_rep :: "cnt_filter \<Rightarrow> digest multiset \<Rightarrow> bool" where
  "cnt_rep f M \<longleftrightarrow> cnt_wf f \<and> [] \<notin># M \<and> (\<forall>idx < c_m f. unat (counter f idx) = load f M idx)"

lemma load_cong: "same_shape f g \<Longrightarrow> load g M idx = load f M idx"
  by (simp add: load_def hits_cong) (simp add: same_shape_def)

lemma load_add [simp]: "load f (add_mset d M) idx = hits f d [0..<c_k f] idx + load f M idx"
  by (simp add: load_def)

lemma load_remove: "d \<in># M \<Longrightarrow> load f M idx = hits f d [0..<c_k f] idx + load f (M - {#d#}) idx"
  by (metis insert_DiffM load_add)

lemma cnt_Add_rep:
  assumes "cnt_rep f M" "\<forall>idx < c_m f. load f (add_mset d M) idx \<le> unat (c_mask f)" "d \<noteq> []"
  shows "cnt_rep (cnt_Add d f) (add_mset d M) \<and> same_shape f (cnt_Add d f)"
proof -
  have "cnt_wf f" "\<forall>idx < c_m f. unat (counter f idx) + hits f d [0..<c_k f] idx \<le> unat (c_mask f)"
    using assms by (simp_all add: cnt_rep_def add.commute)
  from add_loop_counts [OF this] have *: "cnt_wf (cnt_Add d f)" "same_shape f (cnt_Add d f)"
      "\<forall>idx < c_m f. unat (counter (cnt_Add d f) idx) = unat (counter f idx) + hits f d [0..<c_k f] idx"
    using assms(3) by (simp_all add: cnt_Add_def)
  have "c_m (cnt_Add d f) = c_m f" using *(2) by (simp add: same_shape_def)
  then show ?thesis
    using * assms(1,3) unfolding cnt_rep_def load_cong [OF *(2)] by simp
qed

lemma cnt_Remove_rep:
  assumes "cnt_rep f M" "d \<in># M"
  shows "cnt_rep (cnt_Remove d f) (M - {#d#}) \<and> same_shape f (cnt_Remove d f)"
proof -
  have "cnt_wf f" "\<forall>idx < c_m f. hits f d [0..<c_k f] idx \<le> unat (counter f idx)"
    using assms by (simp_all add: cnt_rep_def load_remove)
  from remove_loop_counts [OF this] have *: "cnt_wf (cnt_Remove d f)" "same_shape f (cnt_Remove d f)"
      "\<forall>idx < c_m f. unat (counter (cnt_Remove d f) idx) = unat (counter f idx) - hits f d [0..<c_k f] idx"
    using assms by (auto simp: cnt_Remove_def cnt_rep_def)
  have "c_m (cnt_Remove d f) = c_m f" using *(2) by (simp add: same_shape_def)
  then show ?thesis
    using * assms by (auto simp: cnt_rep_def load_cong [OF *(2)] load_remove [OF assms(2)] dest: in_diffD)
qed

lemma cnt_Contains_rep:
  assumes "cnt_rep f M" "d \<in># M"
  shows "cnt_Contains f d"
proof -
  have "counter f (probe (c_hash f) (c_m f) d i) \<noteq> 0" if "i \<in> set [0..<c_k f]" for i
  proof -
    let ?idx = "probe (c_hash f) (c_m f) d i"
    have "?idx < c_m f" using assms(1) by (simp add: cnt_rep_def cnt_wf_def probe_less)
    then have "unat (counter f ?idx) = load f M ?idx" using assms(1) by (simp add: cnt_rep_def)
    then show ?thesis using hits_probe [OF that] load_remove [OF assms(2)] by (metis add_is_0 less_irrefl unat_0)
  qed
  with assms show ?thesis by (auto simp: cnt_Contains_def cnt_rep_def list_all_iff)
qed

section \<open>Sequences of operations\<close>

datatype cnt_op = CAdd digest | CRemove digest

fun cnt_run :: "cnt_op list \<Rightarrow> cnt_filter \<Rightarrow> cnt_filter" where
  "cnt_run [] f = f"
| "cnt_run (CAdd d # ops) f = cnt_run ops (cnt_Add d f)"
| "cnt_run (CRemove d # ops) f = cnt_run ops (cnt_Remove d f)"

fun members :: "cnt_op list \<Rightarrow> digest multiset \<Rightarrow> digest multiset" where
  "members [] M = M"
| "members (CAdd d # ops) M = members ops (if d = [] then M else add_mset d M)"
| "members (CRemove d # ops) M = members ops (M - {#d#})"

text \<open>A sequence is balanced when it removes members only and no slot is ever loaded beyond its width.\<close>

fun balanced :: "cnt_filter \<Rightarrow> cnt_op list \<Rightarrow> digest multiset \<Rightarrow> bool" where
  "balanced f [] M = True"
| "balanced f (CAdd d # ops) M =
     (if d = [] then balanced f ops M
      else list_all (\<lambda>idx. load f (add_mset d M) idx \<le> unat (c_mask f)) [0..<c_m f] \<and>
           balanced f ops (add_mset d M))"
| "balanced f (CRemove d # ops) M = (d \<in># M \<and> balanced f ops (M - {#d#}))"

lemma balanced_cong: "same_shape f g \<Longrightarrow> balanced g ops M = balanced f ops M"
proof (induction f ops M rule: balanced.induct)
  case (2 f d ops M)
  then have "c_m g = c_m f" "c_mask g = c_mask f" by (simp_all add: same_shape_def)
  with 2 load_cong [OF 2(3)] show ?case by (simp del: load_add)
qed simp_all

lemma same_shape_trans: "same_shape f g \<Longrightarrow> same_shape g h \<Longrightarrow> same_shape f h"
  by (simp add: same_shape_def)

lemma cnt_run_rep:
  "cnt_rep f M \<Longrightarrow> balanced f ops M \<Longrightarrow> cnt_rep (cnt_run ops f) (members ops M) \<and> same_shape f (cnt_run ops f)"
proof (induction f ops M arbitrary: f rule: balanced.induct)
  case (2 f' d ops M f)
  show ?case
  proof (cases "d = []")
    case True
    with 2 show ?thesis by (simp add: cnt_Add_def)
  next
    case False
    with 2(3,4) cnt_Add_rep [of f M d] balanced_cong 2(2) show ?thesis
      by (auto simp: list_all_iff simp del: load_add intro: same_shape_trans)
  qed
next
  case (3 f' d ops M f)
  with cnt_Remove_rep [of f M d] balanced_cong show ?case by (auto intro: same_shape_trans)
qed (simp add: same_shape_def)

section \<open>Properties\<close>

lemma std_adds:
  assumes "std_wf f"
  shows "std_wf (fold std_Add ds f) \<and> std_positions (fold std_Add ds f) = std_positions f \<and>
    bits_set (f_bits (fold std_Add ds f)) = bits_set (f_bits f) \<union> (\<Union>d \<in> set ds - {[]}. std_positions f d)"
  using assms
proof (induction ds arbitrary: f)
  case (Cons d ds)
  from Cons.IH [OF std_Add_spec(1) [OF Cons.prems, of d]] std_Add_spec(2,3) [OF Cons.prems, of d]
  show ?case by auto
qed simp

lemma cnt_NewFilter_rep:
  assumes "cnt_NewFilter n re b (Inr (m, k)) hash = Inr f" "m > 0"
  shows "cnt_rep f {#}"
proof -
  have f: "f = \<lparr>c_counts = replicate (packedCounterBytes m b) 0, c_k = k, c_m = m, c_bits = b,
                c_mask = push_bit b 1 - 1, c_hash = hash\<rparr>" and b: "b \<in> {4, 8, 16}"
    using assms(1) by (auto simp: cnt_NewFilter_def Let_def split: if_splits option.splits)
  then have wf: "cnt_wf f" using assms(2) by (simp add: cnt_wf_def)
  have "counter f idx = 0" if "idx < c_m f" for idx
    using packed_range [OF wf that] b f by (auto simp: counter_def Let_def)
  with wf show ?thesis by (simp add: cnt_rep_def load_def)
qed

text \<open>
  C36: A fresh standard filter to which digests have been added answers \<open>true\<close> exactly when every bit
  position of the digest was set by one of them; in particular no added digest is ever reported absent,
  and before any addition nothing is reported present (as long as there is at least one probe).\<close>

theorem standard_filter_exact:
  assumes "std_NewFilter n rateErr (Inr (m, k)) hash = Inr f" "m > 0"
  shows "(std_Contains (fold std_Add ds f) d \<longleftrightarrow>
      d \<noteq> [] \<and> std_positions f d \<subseteq> (\<Union>d' \<in> set ds - {[]}. std_positions f d')) \<and>
    (d \<in> set ds \<longrightarrow> d \<noteq> [] \<longrightarrow> std_Contains (fold std_Add ds f) d)"
proof -
  have wf: "std_wf f" using assms by (rule std_NewFilter_wf)
  have "bits_set (f_bits f) = {}"
    using assms(1) by (auto simp: std_NewFilter_def bits_set_def split: if_splits option.splits)
  then have "std_Contains (fold std_Add ds f) d \<longleftrightarrow>
      d \<noteq> [] \<and> std_positions f d \<subseteq> (\<Union>d' \<in> set ds - {[]}. std_positions f d')"
    using std_adds [OF wf, of ds] by (simp add: std_Contains_iff)
  then show ?thesis by blast
qed

definition demo_index :: index_hash where
  "demo_index d i = of_nat (7 * i + 131 * length d + 29 * unat (hd d))"

theorem standard_filter_exact_witness:
  "std_Contains (fold std_Add [[5], [9, 1]] \<lparr>f_bits = [0, 0], f_k = 3, f_m = 100, f_hash = demo_index\<rparr>) [9, 1]"
  by (rule standard_filter_exact [of 10 None 100 3 demo_index, THEN conjunct2, rule_format])
    (simp_all add: std_NewFilter_def numeral_2_eq_2)

text \<open>
  Packed counters: for each of the three widths, after \<open>setCounter\<close> stores a value that fits the
  width the slot reads back that value, and every other slot, the ones that share its byte included,
  reads as before.\<close>

theorem packed_counter_read_after_write:
  assumes "cnt_wf f" "idx < c_m f" "j < c_m f" "v \<le> c_mask f"
  shows "counter (setCounter idx v f) j = (if j = idx then v else counter f j)"
  using assms by (rule counter_setCounter)

definition demo_counting :: "nat \<Rightarrow> nat \<Rightarrow> cnt_filter" where
  "demo_counting m b = \<lparr>c_counts = replicate (packedCounterBytes m b) 0, c_k = 2, c_m = m, c_bits = b,
     c_mask = push_bit b 1 - 1, c_hash = demo_index\<rparr>"

theorem packed_counter_read_after_write_witness:
  "counter (setCounter 3 15 (setCounter 2 7 (demo_counting 5 4))) 2 = 7"
proof -
  have wf: "cnt_wf (demo_counting 5 4)" by (simp add: cnt_wf_def demo_counting_def)
  then have "cnt_wf (setCounter 2 7 (demo_counting 5 4))" by (rule setCounter_frame)
  from packed_counter_read_after_write [OF this, of 3 2 15] packed_counter_read_after_write [OF wf, of 2 2 7]
  show ?thesis by (simp add: setCounter_frame) (simp add: demo_counting_def)
qed

lemma hits_card: "hits f d [0..<k] idx = card {i. i < k \<and> probe (c_hash f) (c_m f) d i = idx}"
proof -
  have "hits f d [0..<k] idx = card (set (filter (\<lambda>i. probe (c_hash f) (c_m f) d i = idx) [0..<k]))"
    unfolding hits_def by (rule distinct_card [symmetric]) simp
  then show ?thesis by simp
qed

lemma load_pos: "0 < load f M idx \<longleftrightarrow> (\<exists>x \<in># M. \<exists>j < c_k f. probe (c_hash f) (c_m f) x j = idx)"
proof -
  have "0 < hits f x [0..<c_k f] idx \<longleftrightarrow> (\<exists>j < c_k f. probe (c_hash f) (c_m f) x j = idx)" for x
    by (auto simp: hits_def filter_empty_conv)
  then show ?thesis by (induction M) (auto simp: load_def [of f "{#}"])
qed

lemma cnt_Contains_iff:
  assumes "cnt_rep f M"
  shows "cnt_Contains f d \<longleftrightarrow> d \<noteq> [] \<and>
    (\<forall>i < c_k f. \<exists>x \<in># M. \<exists>j < c_k f. probe (c_hash f) (c_m f) x j = probe (c_hash f) (c_m f) d i)"
proof -
  have "counter f (probe (c_hash f) (c_m f) d i) \<noteq> 0 \<longleftrightarrow> 0 < load f M (probe (c_hash f) (c_m f) d i)" for i
    using assms by (simp add: cnt_rep_def cnt_wf_def probe_less unat_gt_0 [symmetric])
  then show ?thesis by (auto simp: cnt_Contains_def list_all_iff load_pos)
qed

text \<open>
  C37: For any sequence of additions and removals that removes only digests that are present and loads no slot beyond its
  counter width, the counters of a fresh counting filter represent the multiset of the digests added and not removed: each counter is
  the number of probes that the present digests, with their multiplicities, make at its slot. So a digest is reported
  present exactly when each slot it probes is probed by a present digest, and a present digest is never reported absent.\<close>

theorem counting_filter_represents_members:
  assumes "cnt_NewFilter n rateErr b (Inr (m, k)) hash = Inr f" "m > 0" "balanced f ops {#}"
  shows "(\<forall>idx < m. unat (counter (cnt_run ops f) idx) = (\<Sum>x \<in># members ops {#}. card {i. i < k \<and> probe hash m x i = idx})) \<and>
    (cnt_Contains (cnt_run ops f) d \<longleftrightarrow>
      d \<noteq> [] \<and> (\<forall>i < k. \<exists>x \<in># members ops {#}. \<exists>j < k. probe hash m x j = probe hash m d i)) \<and>
    (d \<in># members ops {#} \<longrightarrow> cnt_Contains (cnt_run ops f) d)"
proof -
  have rep: "cnt_rep (cnt_run ops f) (members ops {#})" and shape: "same_shape f (cnt_run ops f)"
    using cnt_run_rep [OF cnt_NewFilter_rep [OF assms(1,2)] assms(3)] by simp_all
  have "c_m f = m" "c_k f = k" "c_hash f = hash"
    using assms(1) by (auto simp: cnt_NewFilter_def Let_def split: if_splits option.splits)
  then have sh: "c_m (cnt_run ops f) = m" "c_k (cnt_run ops f) = k" "c_hash (cnt_run ops f) = hash"
    using shape by (simp_all add: same_shape_def)
  have "unat (counter (cnt_run ops f) idx) = (\<Sum>x \<in># members ops {#}. card {i. i < k \<and> probe hash m x i = idx})" if "idx < m" for idx
    using rep that sh by (simp add: cnt_rep_def load_def hits_card)
  moreover note cnt_Contains_iff [OF rep, of d, unfolded sh] cnt_Contains_rep [OF rep, of d]
  ultimately show ?thesis by blast
qed

theorem counting_filter_represents_members_witness:
  "cnt_Contains (cnt_run [CAdd [5], CAdd [9], CAdd [9], CRemove [5]] (demo_counting 5 4)) [9] \<and>
   \<not> cnt_Contains (cnt_run [CAdd [5], CAdd [9], CAdd [9], CRemove [5]] (demo_counting 5 4)) [5] \<and>
   unat (counter (cnt_run [CAdd [5], CAdd [9], CAdd [9], CRemove [5]] (demo_counting 5 4)) (probe demo_index 5 [9] 0)) =
     2 * card {i. i < 2 \<and> probe demo_index 5 [9] i = probe demo_index 5 [9] 0}"
proof -
  let ?ops = "[CAdd [5], CAdd [9], CAdd [9], CRemove [5]]"
  have new: "cnt_NewFilter 3 None 4 (Inr (5, 2)) demo_index = Inr (demo_counting 5 4)"
    by (simp add: cnt_NewFilter_def demo_counting_def packedCounterBytes_def MaxCounterBytes_def MaxBits_def)
  have bal: "balanced (demo_counting 5 4) ?ops {#}" by code_simp
  have mem: "members ?ops {#} = {#[9], [9]#}" by simp
  have apart: "\<forall>j < 2. probe demo_index 5 [9] j \<noteq> probe demo_index 5 [5] 0" by code_simp
  have five: "(5 :: nat) > 0" by simp
  note filter = counting_filter_represents_members [OF new five bal, unfolded mem]
  have "cnt_Contains (cnt_run ?ops (demo_counting 5 4)) [9]" using filter [of "[9]", THEN conjunct2, THEN conjunct2] by simp
  moreover have "\<not> cnt_Contains (cnt_run ?ops (demo_counting 5 4)) [5]"
  proof
    assume "cnt_Contains (cnt_run ?ops (demo_counting 5 4)) [5]"
    then have "\<forall>i < 2. \<exists>x \<in># {#[9], [9]#}. \<exists>j < 2. probe demo_index 5 x j = probe demo_index 5 [5] i" using filter [of "[5]"] by blast
    from this [rule_format, of 0] apart show False by auto
  qed
  moreover have "probe demo_index 5 [9] 0 < 5" by (rule probe_less [OF five])
  with filter [of "[9]", THEN conjunct1] have "unat (counter (cnt_run ?ops (demo_counting 5 4)) (probe demo_index 5 [9] 0)) =
      (\<Sum>x \<in># {#[9], [9]#}. card {i. i < 2 \<and> probe demo_index 5 x i = probe demo_index 5 [9] 0})" by blast
  moreover have "(\<Sum>x \<in># {#[9], [9]#}. card {i. i < 2 \<and> probe demo_index 5 x i = probe demo_index 5 [9] 0}) =
      2 * card {i. i < 2 \<and> probe demo_index 5 [9] i = probe demo_index 5 [9] 0}" by simp
  ultimately show ?thesis by (intro conjI) (blast, blast, rule trans)
qed

text \<open>
  Saturation makes the counting filter forget: sixteen distinct digests that share a slot of a
  4-bit filter are added and fifteen of them removed again; the sixteenth was never removed and is
  reported absent.\<close>

theorem counting_filter_saturation_loses_member:
  "members (map (\<lambda>n. CAdd [of_nat n]) [0..<16] @ map (\<lambda>n. CRemove [of_nat n]) [0..<15]) {#} = {#[15]#} \<and>
   \<not> cnt_Contains (cnt_run (map (\<lambda>n. CAdd [of_nat n]) [0..<16] @ map (\<lambda>n. CRemove [of_nat n]) [0..<15])
      ((demo_counting 29 4)\<lparr>c_hash := \<lambda>d i. of_nat i\<rparr>)) [15]"
  by code_simp

end
