(* ===== verification/Bloom_Guard.thy ===== *)
theory Bloom_Guard
  imports Bloom_Filter Mem_Store
begin

text \<open>
  \<open>src/cas/bloom/guard.go\<close>: a backend wrapped with an advisory membership filter. The guard's state
  is the pair of the wrapped backend's state and the filter; a filter is a record of its operations,
  with \<open>Remove\<close> absent where the filter does not implement it. The guard offers the required methods
  of a backend and none of the optional ones.

  The locale \<open>guarded\<close> states what a guard relies on: a backend that keeps its contract and a filter
  without removal whose positive answers are never lost. Inside it the guard is shown to keep the
  contract of the backend it wraps, so that everything proved of the typed store, the sweep and the
  audit over a backend holds over a guarded one; the interpretation is the memory backend with the
  standard filter. With a counting filter the guard's invariant does not survive a deletion of an
  object that is not there.
\<close>

section \<open>State and methods\<close>

record 'f Filter =
  fl_Add :: "digest \<Rightarrow> 'f \<Rightarrow> 'f"
  fl_Contains :: "'f \<Rightarrow> digest \<Rightarrow> bool"
  fl_Remove :: "(digest \<Rightarrow> 'f \<Rightarrow> 'f) option"

record ('b, 'f) guard =
  g_backend :: 'b
  g_filter :: 'f

text \<open>A call of the wrapped backend: it runs on the guard's backend and leaves the filter alone.\<close>

definition on_backend :: "('b, 'a) act \<Rightarrow> (('b, 'f) guard, 'a) act" where
  "on_backend m w =
     (case m \<lparr>ectx = ectx w, est = g_backend (est w)\<rparr> of
        (x, w') \<Rightarrow> (x, \<lparr>ectx = ectx w', est = (est w)\<lparr>g_backend := est w'\<rparr>\<rparr>))"

definition on_filter :: "('f \<Rightarrow> 'f) \<Rightarrow> (('b, 'f) guard, unit) act" where
  "on_filter g w = (Inr (), w\<lparr>est := (est w)\<lparr>g_filter := g (g_filter (est w))\<rparr>\<rparr>)"

definition NewGuard :: "'b option \<Rightarrow> 'f option \<Rightarrow> ('b, 'f) guard result" where
  "NewGuard backend1 filter1 =
     (case backend1 of
        None \<Rightarrow> Inl (ErrorsNew ''bloom: backend is nil'')
      | Some b \<Rightarrow>
          (case filter1 of
             None \<Rightarrow> Inl (ErrorsNew ''bloom: filter is nil'')
           | Some f \<Rightarrow> Inr \<lparr>g_backend = b, g_filter = f\<rparr>))"

definition Guard_Put :: "'b backend \<Rightarrow> 'f Filter \<Rightarrow> digest \<Rightarrow> reader \<Rightarrow> (('b, 'f) guard, unit) act" where
  "Guard_Put be fl d r = bnd (on_backend (b_Put be d r)) (\<lambda>_. on_filter (fl_Add fl d))"

definition Guard_Get :: "'b backend \<Rightarrow> digest \<Rightarrow> (('b, 'f) guard, readcloser) act" where
  "Guard_Get be d = on_backend (b_Get be d)"

definition Guard_Exists :: "'b backend \<Rightarrow> 'f Filter \<Rightarrow> digest \<Rightarrow> (('b, 'f) guard, bool) act" where
  "Guard_Exists be fl d =
     bnd (when_err (CheckDigest d ''bloom: exists'')) (\<lambda>_.
     bnd get_st (\<lambda>g.
       if \<not> fl_Contains fl (g_filter g) d then ret False
       else on_backend (b_Exists be d)))"

definition Guard_Delete :: "'b backend \<Rightarrow> 'f Filter \<Rightarrow> digest \<Rightarrow> (('b, 'f) guard, unit) act" where
  "Guard_Delete be fl d =
     bnd (on_backend (b_Delete be d)) (\<lambda>_.
       case fl_Remove fl of
         Some remove \<Rightarrow> on_filter (remove d)
       | None \<Rightarrow> ret ())"

definition Guard_List :: "'b backend \<Rightarrow> (('b, 'f) guard, digest list) act" where
  "Guard_List be = on_backend (b_List be)"

definition Guard_Stats :: "'b backend \<Rightarrow> (('b, 'f) guard, Stats) act" where
  "Guard_Stats be = on_backend (b_Stats be)"

definition guard_backend :: "'b backend \<Rightarrow> 'f Filter \<Rightarrow> ('b, 'f) guard backend" where
  "guard_backend be fl =
     \<lparr>b_Put = Guard_Put be fl, b_Get = Guard_Get be, b_Exists = Guard_Exists be fl,
      b_Delete = Guard_Delete be fl, b_List = Guard_List be, b_Stats = Guard_Stats be,
      b_Size = None, b_ModTime = None, b_Clean = None, b_Close = None\<rparr>"

section \<open>The filters as guards see them\<close>

definition standard_Filter :: "std_filter Filter" where
  "standard_Filter = \<lparr>fl_Add = std_Add, fl_Contains = std_Contains, fl_Remove = None\<rparr>"

definition counting_Filter :: "cnt_filter Filter" where
  "counting_Filter = \<lparr>fl_Add = cnt_Add, fl_Contains = cnt_Contains, fl_Remove = Some cnt_Remove\<rparr>"

section \<open>What a guard relies on\<close>

abbreviation inner_env :: "('b, 'f) guard env \<Rightarrow> 'b env" where
  "inner_env w \<equiv> \<lparr>ectx = ectx w, est = g_backend (est w)\<rparr>"

lemma on_backend_result:
  "on_backend m w = (x, w') \<longleftrightarrow>
    (\<exists>v. m (inner_env w) = (x, v) \<and> w' = \<lparr>ectx = ectx v, est = (est w)\<lparr>g_backend := est v\<rparr>\<rparr>)"
  by (auto simp: on_backend_def split: prod.splits)

lemma Guard_Exists_result:
  "d \<noteq> [] \<Longrightarrow> Guard_Exists be fl d w =
    (if fl_Contains fl (g_filter (est w)) d then on_backend (b_Exists be d) w else (Inr False, w))"
  by (simp add: Guard_Exists_def bnd_def when_err_def CheckDigest_def get_st_def ret_def)

text \<open>The invariant of a guard: the filter answers yes for every stored object.\<close>

definition guard_inv ::
  "('b \<Rightarrow> digest \<Rightarrow> bytes option) \<Rightarrow> ('b \<Rightarrow> bool) \<Rightarrow> 'f Filter \<Rightarrow> ('f \<Rightarrow> bool) \<Rightarrow> ('b, 'f) guard \<Rightarrow> bool" where
  "guard_inv contents ok fl finv s \<longleftrightarrow> ok (g_backend s) \<and> finv (g_filter s) \<and>
     (\<forall>d. contents (g_backend s) d \<noteq> None \<longrightarrow> fl_Contains fl (g_filter s) d)"

definition guard_abs :: "('b \<Rightarrow> digest \<Rightarrow> bytes option) \<Rightarrow> ('b, 'f) guard \<Rightarrow> digest \<Rightarrow> bytes option" where
  "guard_abs contents s = contents (g_backend s)"

lemma guard_inv_shrink:
  assumes "guard_inv contents ok fl finv s" "ok b" "\<And>d. contents b d \<noteq> None \<Longrightarrow> contents (g_backend s) d \<noteq> None"
  shows "guard_inv contents ok fl finv (s\<lparr>g_backend := b\<rparr>)"
  using assms unfolding guard_inv_def by (metis guard.select_convs guard.surjective guard.update_convs(1))

locale guarded = reliable_backend be abs inv
  for be :: "'b backend" and abs :: "'b \<Rightarrow> digest \<Rightarrow> bytes option" and inv :: "'b \<Rightarrow> bool" +
  fixes fl :: "'f Filter" and finv :: "'f \<Rightarrow> bool"
  assumes put_dom: "inv (est v) \<Longrightarrow> b_Put be d r v = (Inr (), v') \<Longrightarrow>
      d \<noteq> [] \<and> (\<forall>d'. d' \<noteq> d \<longrightarrow> abs (est v') d' \<noteq> None \<longrightarrow> abs (est v) d' \<noteq> None)"
    and add_finv: "finv f \<Longrightarrow> finv (fl_Add fl d f)"
    and add_contains: "finv f \<Longrightarrow> d \<noteq> [] \<Longrightarrow> fl_Contains fl (fl_Add fl d f) d"
    and add_mono: "finv f \<Longrightarrow> fl_Contains fl f d \<Longrightarrow> fl_Contains fl (fl_Add fl d' f) d"
    and no_remove: "fl_Remove fl = None"
begin

abbreviation ginv :: "('b, 'f) guard \<Rightarrow> bool" where
  "ginv \<equiv> guard_inv abs inv fl finv"

abbreviation gabs :: "('b, 'f) guard \<Rightarrow> digest \<Rightarrow> bytes option" where
  "gabs \<equiv> guard_abs abs"

lemma ginvD: "ginv (est w) \<Longrightarrow> inv (est (inner_env w))"
  by (simp add: guard_inv_def)

lemma new_guard_inv:
  "NewGuard (Some b) (Some f) = Inr s \<Longrightarrow> inv b \<Longrightarrow> finv f \<Longrightarrow> (\<forall>d. abs b d \<noteq> None \<longrightarrow> fl_Contains fl f d) \<Longrightarrow> ginv s"
  by (auto simp: NewGuard_def guard_inv_def)

lemma put_guard_inv:
  assumes "ginv (est w)" "Guard_Put be fl d r w = (x, w')"
  shows "ginv (est w')"
proof -
  obtain y v where p: "b_Put be d r (inner_env w) = (y, v)" by fastforce
  have i: "inv (est v)" using put_inv [OF ginvD [OF assms(1)] p] .
  show ?thesis
  proof (cases y)
    case (Inl e)
    then have "abs (est v) = abs (g_backend (est w))"
      using put_err [OF ginvD [OF assms(1)] p [unfolded Inl]] by simp
    with guard_inv_shrink [OF assms(1) i] Inl p assms(2) show ?thesis
      by (auto simp: Guard_Put_def bnd_def on_backend_def)
  next
    case (Inr u)
    then have d: "d \<noteq> []" and old: "\<And>d'. d' \<noteq> d \<Longrightarrow> abs (est v) d' \<noteq> None \<Longrightarrow> abs (g_backend (est w)) d' \<noteq> None"
      using put_dom [OF ginvD [OF assms(1)], of d r v] p by auto
    have f: "finv (g_filter (est w))" using assms(1) by (simp add: guard_inv_def)
    have "fl_Contains fl (fl_Add fl d (g_filter (est w))) d'" if "abs (est v) d' \<noteq> None" for d'
      using add_contains [OF f d] add_mono [OF f] old that assms(1) unfolding guard_inv_def by metis
    with Inr p i f assms(2) show ?thesis
      by (auto simp: Guard_Put_def bnd_def on_backend_def on_filter_def guard_inv_def add_finv)
  qed
qed

lemma delete_guard_inv:
  assumes "ginv (est w)" "Guard_Delete be fl d w = (x, w')"
  shows "ginv (est w')"
proof -
  obtain y v where p: "b_Delete be d (inner_env w) = (y, v)" by fastforce
  have i: "inv (est v)" using delete_inv [OF ginvD [OF assms(1)] p] .
  have "abs (g_backend (est w)) d' \<noteq> None" if "abs (est v) d' \<noteq> None" for d'
    using delete_ok [OF ginvD [OF assms(1)], of d v] delete_err [OF ginvD [OF assms(1)], of d _ v] p that
    by (cases y) (auto split: if_splits)
  from guard_inv_shrink [OF assms(1) i this] p assms(2) no_remove show ?thesis
    by (auto simp: Guard_Delete_def bnd_def on_backend_def ret_def split: sum.splits)
qed

lemma read_guard_inv:
  assumes "ginv (est w)" "on_backend m w = (x, w')"
    and "\<And>v. m (inner_env w) = (x, v) \<Longrightarrow> inv (est v) \<and> abs (est v) = abs (g_backend (est w))"
  shows "ginv (est w') \<and> gabs (est w') = gabs (est w)"
proof -
  from assms(2) obtain v where "m (inner_env w) = (x, v)" and w': "w' = \<lparr>ectx = ectx v, est = (est w)\<lparr>g_backend := est v\<rparr>\<rparr>"
    by (auto simp: on_backend_result)
  then have v: "inv (est v)" "abs (est v) = abs (g_backend (est w))" using assms(3) by auto
  show ?thesis
    using guard_inv_shrink [OF assms(1) v(1)] v(2) w' by (simp add: guard_abs_def)
qed

lemmas guard_ops = guard_backend_def Guard_Get_def Guard_List_def Guard_Stats_def

lemma guard_put_ok:
  assumes "ginv (est w)" "Guard_Put be fl d r w = (Inr (), w')"
  shows "\<exists>v. b_Put be d r (inner_env w) = (Inr (), v) \<and> gabs (est w') = abs (est v)"
  using assms(2) by (auto simp: Guard_Put_def bnd_def on_backend_def on_filter_def guard_abs_def split: prod.splits sum.splits)

lemma guard_put_err:
  assumes "Guard_Put be fl d r w = (Inl e, w')"
  shows "\<exists>v. b_Put be d r (inner_env w) = (Inl e, v) \<and> gabs (est w') = abs (est v)"
  using assms by (auto simp: Guard_Put_def bnd_def on_backend_def on_filter_def guard_abs_def split: prod.splits sum.splits)

lemma guard_delete_result:
  assumes "Guard_Delete be fl d w = (x, w')"
  shows "\<exists>v. b_Delete be d (inner_env w) = (x, v) \<and> gabs (est w') = abs (est v) \<and> ectx w' = ectx v"
  using assms no_remove by (auto simp: Guard_Delete_def bnd_def on_backend_def ret_def guard_abs_def split: prod.splits sum.splits)

lemma guard_exists_cases:
  assumes "ginv (est w)" "Guard_Exists be fl d w = (x, w')"
  obtains (empty) e where "d = []" "x = Inl e" "w' = w"
    | (miss) "d \<noteq> []" "gabs (est w) d = None" "x = Inr False" "w' = w"
    | (ask) "d \<noteq> []" "on_backend (b_Exists be d) w = (x, w')"
proof (cases "d = []")
  case True
  with assms(2) that(1) show thesis by (auto simp: Guard_Exists_def bnd_def when_err_def CheckDigest_def)
next
  case False
  with assms that(2,3) show thesis
    by (fastforce simp: Guard_Exists_result guard_inv_def guard_abs_def split: if_splits)
qed

lemma guard_exists_frame:
  assumes "ginv (est w)" "Guard_Exists be fl d w = (x, w')"
  shows "ginv (est w') \<and> gabs (est w') = gabs (est w)"
  using assms
proof (cases rule: guard_exists_cases)
  case ask
  from read_guard_inv [OF assms(1) ask(2)] show ?thesis
    using exists_frame [OF ginvD [OF assms(1)]] by auto
qed (use assms in auto)

lemma guard_exists_ok:
  assumes "ginv (est w)" "Guard_Exists be fl d w = (Inr b, w')"
  shows "b = (gabs (est w) d \<noteq> None)"
  using assms
proof (cases rule: guard_exists_cases)
  case ask
  then show ?thesis
    using exists_ok [OF ginvD [OF assms(1)]] by (auto simp: on_backend_result guard_abs_def)
qed auto

end

sublocale guarded \<subseteq> g: reliable_backend "guard_backend be fl" "guard_abs abs" "guard_inv abs inv fl finv"
proof
  fix s :: "('b, 'f) guard" and w w' :: "('b, 'f) guard env" and d :: digest and r :: reader
  fix px dx ux :: "unit result" and e :: err and gx :: "readcloser result" and rc :: readcloser
  fix ex :: "bool result" and lx :: "digest list result" and sx :: "Stats result" and b :: bytes
  fix ds :: "digest list" and bo :: bool and mt mx
  show "ginv s \<Longrightarrow> gabs s [] = None"
    using absent_key by (simp add: guard_inv_def guard_abs_def)
  show "ginv s \<Longrightarrow> finite (dom (gabs s))"
    using finite_dom by (simp add: guard_inv_def guard_abs_def)
  show "b_ModTime (guard_backend be fl) = Some mt \<Longrightarrow> ginv (est w') \<and> gabs (est w') = gabs (est w)"
    by (simp add: guard_backend_def)
  assume I: "ginv (est w)"
  note i = ginvD [OF I]
  show "b_Put (guard_backend be fl) d r w = (px, w') \<Longrightarrow> ginv (est w')"
    using put_guard_inv [OF I] by (simp add: guard_backend_def)
  show "d \<noteq> [] \<and> r_err r = None \<and> (\<exists>b. gabs (est w') = (gabs (est w))(d \<mapsto> b) \<and> (b = r_data r \<or> gabs (est w) d = Some b))"
    if "b_Put (guard_backend be fl) d r w = (Inr (), w')" "clean_reader r"
    using guard_put_ok [of w d r w'] put_ok [OF i _ that(2)] that(1) I by (force simp: guard_backend_def guard_abs_def)
  show "b_Put (guard_backend be fl) d r w = (Inl e, w') \<Longrightarrow> gabs (est w') = gabs (est w)"
    using guard_put_err [of d r w e w'] put_err [OF i] by (force simp: guard_backend_def guard_abs_def)
  show "b_Get (guard_backend be fl) d w = (gx, w') \<Longrightarrow> ginv (est w') \<and> gabs (est w') = gabs (est w)"
    using read_guard_inv [OF I] get_frame [OF i] by (force simp: guard_ops)
  show "b_Get (guard_backend be fl) d w = (Inr rc, w') \<Longrightarrow> r_err rc = None \<longrightarrow> gabs (est w) d = Some (r_data rc)"
    using get_ok [OF i] by (auto simp: guard_ops on_backend_result guard_abs_def)
  show "b_Exists (guard_backend be fl) d w = (ex, w') \<Longrightarrow> ginv (est w') \<and> gabs (est w') = gabs (est w)"
    using guard_exists_frame [OF I] by (simp add: guard_backend_def)
  show "b_Exists (guard_backend be fl) d w = (Inr bo, w') \<Longrightarrow> bo = (gabs (est w) d \<noteq> None)"
    using guard_exists_ok [OF I] by (simp add: guard_backend_def)
  show "b_Delete (guard_backend be fl) d w = (dx, w') \<Longrightarrow> ginv (est w')"
    using delete_guard_inv [OF I] by (simp add: guard_backend_def)
  show "b_Delete (guard_backend be fl) d w = (Inr (), w') \<Longrightarrow> gabs (est w') = (gabs (est w))(d := None)"
    using guard_delete_result [of d w "Inr ()" w'] delete_ok [OF i] by (force simp: guard_backend_def guard_abs_def)
  show "b_Delete (guard_backend be fl) d w = (Inl e, w') \<Longrightarrow> gabs (est w') = gabs (est w)"
    using guard_delete_result [of d w "Inl e" w'] delete_err [OF i] by (force simp: guard_backend_def guard_abs_def)
  show "b_List (guard_backend be fl) w = (lx, w') \<Longrightarrow> ginv (est w') \<and> gabs (est w') = gabs (est w)"
    using read_guard_inv [OF I] list_frame [OF i] by (force simp: guard_ops)
  show "b_List (guard_backend be fl) w = (Inr ds, w') \<Longrightarrow> dom (gabs (est w)) \<subseteq> set ds"
    using list_ok [OF i] by (auto simp: guard_ops on_backend_result guard_abs_def)
  show "b_Stats (guard_backend be fl) w = (sx, w') \<Longrightarrow> ginv (est w') \<and> gabs (est w') = gabs (est w)"
    using read_guard_inv [OF I] stats_frame [OF i] by (force simp: guard_ops)
  assume L: "ectx w = Live"
  show "gabs (est w) d = Some b \<Longrightarrow>
      \<exists>rc w'. b_Get (guard_backend be fl) d w = (Inr rc, w') \<and> r_err rc = None \<and> rc_close rc = None \<and> ectx w' = Live"
    using get_live [OF i, of d b] L by (force simp: guard_ops on_backend_result guard_abs_def)
  show "gabs (est w) d = None \<Longrightarrow> d \<noteq> [] \<Longrightarrow>
      \<exists>e w'. b_Get (guard_backend be fl) d w = (Inl e, w') \<and> errors_Is e ErrNotFound"
    using get_missing [OF i, of d] L by (force simp: guard_ops on_backend_result guard_abs_def)
  show "d \<noteq> [] \<Longrightarrow> \<exists>b w'. b_Exists (guard_backend be fl) d w = (Inr b, w') \<and> ectx w' = Live"
    using exists_live [OF i, of d] L by (force simp: guard_backend_def Guard_Exists_result on_backend_result)
  show "d \<noteq> [] \<Longrightarrow> \<exists>w'. b_Delete (guard_backend be fl) d w = (Inr (), w') \<and> ectx w' = Live"
    using delete_live [OF i, of d] L no_remove
    by (force simp: guard_backend_def Guard_Delete_def bnd_def on_backend_def ret_def)
  show "\<exists>ds w'. b_List (guard_backend be fl) w = (Inr ds, w') \<and> set ds = dom (gabs (est w)) \<and> distinct ds \<and> ectx w' = Live"
    using list_live [OF i] L by (force simp: guard_ops on_backend_result guard_abs_def)
qed

section \<open>Runs of a guard\<close>

text \<open>Each call carries its own context; only its effect on the guard is kept.\<close>

datatype guard_op = GPut ctx digest reader | GGet ctx digest | GExists ctx digest | GDelete ctx digest | GList ctx

fun guard_step :: "'b backend \<Rightarrow> 'f Filter \<Rightarrow> guard_op \<Rightarrow> ('b, 'f) guard \<Rightarrow> ('b, 'f) guard" where
  "guard_step be fl (GPut c d r) g = est (snd (Guard_Put be fl d r \<lparr>ectx = c, est = g\<rparr>))"
| "guard_step be fl (GGet c d) g = est (snd (Guard_Get be d \<lparr>ectx = c, est = g\<rparr>))"
| "guard_step be fl (GExists c d) g = est (snd (Guard_Exists be fl d \<lparr>ectx = c, est = g\<rparr>))"
| "guard_step be fl (GDelete c d) g = est (snd (Guard_Delete be fl d \<lparr>ectx = c, est = g\<rparr>))"
| "guard_step be fl (GList c) g = est (snd (Guard_List be \<lparr>ectx = c, est = g\<rparr>))"

definition guard_run :: "'b backend \<Rightarrow> 'f Filter \<Rightarrow> guard_op list \<Rightarrow> ('b, 'f) guard \<Rightarrow> ('b, 'f) guard" where
  "guard_run be fl = fold (guard_step be fl)"

context guarded
begin

lemma guard_step_inv:
  assumes "ginv s"
  shows "ginv (guard_step be fl gop s)"
proof (cases gop)
  case (GPut c d r)
  then show ?thesis using put_guard_inv [of "\<lparr>ectx = c, est = s\<rparr>" d r] assms by (metis env.select_convs(2) guard_step.simps(1) prod.collapse)
next
  case (GGet c d)
  then show ?thesis using g.get_frame [of "\<lparr>ectx = c, est = s\<rparr>" d] assms
    by (simp add: guard_backend_def) (metis prod.collapse)
next
  case (GExists c d)
  then show ?thesis using guard_exists_frame [of "\<lparr>ectx = c, est = s\<rparr>" d] assms
    by (metis env.select_convs(2) guard_step.simps(3) prod.collapse)
next
  case (GDelete c d)
  then show ?thesis using delete_guard_inv [of "\<lparr>ectx = c, est = s\<rparr>" d] assms
    by (metis env.select_convs(2) guard_step.simps(4) prod.collapse)
next
  case (GList c)
  then show ?thesis using g.list_frame [of "\<lparr>ectx = c, est = s\<rparr>"] assms
    by (simp add: guard_backend_def) (metis prod.collapse)
qed

lemma guard_run_inv: "ginv s \<Longrightarrow> ginv (guard_run be fl gops s)"
  unfolding guard_run_def by (induction gops arbitrary: s) (simp_all add: guard_step_inv)

lemma guard_exists_exact:
  assumes "ginv s" "d \<noteq> []"
  shows "fst (Guard_Exists be fl d \<lparr>ectx = Live, est = guard_run be fl gops s\<rparr>) =
    Inr (abs (g_backend (guard_run be fl gops s)) d \<noteq> None)"
proof -
  let ?w = "\<lparr>ectx = Live, est = guard_run be fl gops s\<rparr>"
  have "ginv (est ?w)" using guard_run_inv [OF assms(1)] by simp
  then obtain w' where "b_Exists (guard_backend be fl) d ?w = (Inr (gabs (est ?w) d \<noteq> None), w')"
    using g.exists_value [of ?w d] assms(2) by (metis env.select_convs(1))
  then show ?thesis by (simp add: guard_backend_def guard_abs_def)
qed

end

section \<open>The memory backend behind the standard filter\<close>

lemma mem_Put_dom:
  assumes "b_Put mem_backend d r v = (Inr (), v')"
  shows "d \<noteq> [] \<and> (\<forall>d'. d' \<noteq> d \<longrightarrow> mem_abs (est v') d' \<noteq> None \<longrightarrow> mem_abs (est v) d' \<noteq> None)"
proof -
  from assms obtain w1 w2 data where d: "d \<noteq> []" and c: "ctx_Err v = (Inr (), w1)"
    and buf: "mem_buffer (mem_budget d (est w1)) r w1 = (Inr data, w2)"
    and st: "mem_store_act d data w2 = (Inr (), v')"
    by (auto simp: mem_backend_def mem_Put_def bnd_ok CheckDigest_None_iff)
  have "est w2 = est v" using ctx_Err_estD [OF c] mem_buffer_est [of _ r w1] buf by (metis snd_conv)
  with st d show ?thesis
    by (auto simp: mem_store_act_result mem_store_def Let_def update_conv' split: if_splits)
qed

interpretation guard_mem: guarded mem_backend mem_abs mem_inv standard_Filter std_wf
proof
  show "d \<noteq> [] \<and> (\<forall>d'. d' \<noteq> d \<longrightarrow> mem_abs (est v') d' \<noteq> None \<longrightarrow> mem_abs (est v) d' \<noteq> None)"
    if "b_Put mem_backend d r v = (Inr (), v')" for v v' :: "mem_state env" and d r
    using that by (rule mem_Put_dom)
qed (simp_all add: standard_Filter_def std_Add_spec std_Add_Contains)

interpretation guard_store: typed_store "guard_backend mem_backend standard_Filter" "guard_abs mem_abs"
    "guard_inv mem_abs mem_inv standard_Filter std_wf" "Store_New (guard_backend mem_backend standard_Filter) c h ops"
  for c h ops
  by unfold_locales (simp add: Store_New_def)

interpretation guard_sweep: reliable_sweeper "guard_backend mem_backend standard_Filter" "guard_abs mem_abs"
    "guard_inv mem_abs mem_inv standard_Filter std_wf"
  by unfold_locales

section \<open>Properties\<close>

lemma fresh_guard:
  assumes "std_NewFilter n rateErr (Inr (m, k)) hash = Inr f" "m > 0" "NewGuard (Some (mem_New cap)) (Some f) = Inr g"
    and "cap \<le> MaxInt64"
  shows "guard_inv mem_abs mem_inv standard_Filter std_wf g"
  using guard_mem.new_guard_inv [OF assms(3)] std_NewFilter_wf [OF assms(1,2)] assms(4)
  by (simp add: mem_New_def mem_inv_def)

text \<open>
  C38: The guard is transparent with a standard filter: after any sequence of calls on a fresh guard over
  the memory backend, under any contexts and with any readers, \<open>Exists\<close> of a digest answers exactly
  whether the backend holds it. A negative answer of the filter, which is given without asking the
  backend, is therefore never wrong.\<close>

theorem guard_exists_never_wrong:
  assumes "std_NewFilter n rateErr (Inr (m, k)) hash = Inr f" "m > 0" "NewGuard (Some (mem_New cap)) (Some f) = Inr g"
    and "cap \<le> MaxInt64" "d \<noteq> []"
  shows "fst (Guard_Exists mem_backend standard_Filter d
      \<lparr>ectx = Live, est = guard_run mem_backend standard_Filter gops g\<rparr>) =
    Inr (mem_abs (g_backend (guard_run mem_backend standard_Filter gops g)) d \<noteq> None)"
  using guard_mem.guard_exists_exact [OF fresh_guard [OF assms(1-4)] assms(5)] .

definition demo_guard :: "(mem_state, std_filter) guard" where
  "demo_guard = \<lparr>g_backend = mem_New 0, g_filter = \<lparr>f_bits = [0], f_k = 2, f_m = 50, f_hash = demo_index\<rparr>\<rparr>"

theorem guard_exists_never_wrong_witness:
  "fst (Guard_Exists mem_backend standard_Filter [7]
      \<lparr>ectx = Live, est = guard_run mem_backend standard_Filter [GPut Live [7] (bytes_reader [1, 2]), GDelete Live [8]] demo_guard\<rparr>) =
    Inr True"
proof -
  have "mem_abs (g_backend (guard_run mem_backend standard_Filter
      [GPut Live [7] (bytes_reader [1, 2]), GDelete Live [8]] demo_guard)) [7] \<noteq> None"
    by code_simp
  moreover have "fst (Guard_Exists mem_backend standard_Filter [7]
      \<lparr>ectx = Live, est = guard_run mem_backend standard_Filter [GPut Live [7] (bytes_reader [1, 2]), GDelete Live [8]] demo_guard\<rparr>) =
    Inr (mem_abs (g_backend (guard_run mem_backend standard_Filter
      [GPut Live [7] (bytes_reader [1, 2]), GDelete Live [8]] demo_guard)) [7] \<noteq> None)"
    by (rule guard_exists_never_wrong [of 5 None 50 2 demo_index "g_filter demo_guard" 0])
      (simp_all add: std_NewFilter_def NewGuard_def demo_guard_def MaxInt64_def)
  ultimately show ?thesis by (simp only: not_False_eq_True)
qed

text \<open>
  With a counting filter the guard does lie: deleting a digest that was never stored succeeds in the
  backend and still decrements the counters it shares with stored objects, after which \<open>Exists\<close> answers
  \<open>false\<close> for an object that \<open>Get\<close> returns.\<close>

theorem guard_counting_delete_absent_hides_object:
  "let g = guard_run mem_backend counting_Filter [GPut Live [7] (bytes_reader [1, 2]), GDelete Live [12]]
        \<lparr>g_backend = mem_New 0, g_filter = demo_counting 5 4\<rparr>
   in fst (Guard_Exists mem_backend counting_Filter [7] \<lparr>ectx = Live, est = g\<rparr>) = Inr False \<and>
      map_sum id r_data (fst (Guard_Get mem_backend [7] \<lparr>ectx = Live, est = g\<rparr>)) = Inr [1, 2]"
  by code_simp

end
