(* ===== verification/Bloom_Persistent.thy ===== *)
theory Bloom_Persistent
  imports Bloom_Filter
begin

text \<open>
  \<open>src/cas/bloom/persistent/header.go\<close>, \<open>filter.go\<close> and the heap fallback of \<open>mmap_platform.go\<close>: the
  filter whose bits live in a file. The file is its content, a byte list; what the operating system
  and the random source answer is a record of outcomes that the operations take as an argument. A mapped
  filter's writes reach the content at once, a heap filter's when it is flushed. CRC-64 is the standard
  library's table algorithm, written out.

  Shown: the header is accepted exactly when its bytes are those the writer produces; the index
  hash is the checksum of key, digest and probe number together; a filter that is closed and opened
  again with the same shape answers as before, on both backings; and a filter opened again with
  another shape keeps the bits, says so, and denies members.
\<close>

unbundle bit_operations_syntax

section \<open>CRC-64\<close>

definition ECMA :: "64 word" where
  "ECMA = 0xC96C5795D7870F42"

fun crc_shift :: "nat \<Rightarrow> 64 word \<Rightarrow> 64 word" where
  "crc_shift 0 crc = crc"
| "crc_shift (Suc n) crc = crc_shift n (if bit crc 0 then drop_bit 1 crc XOR ECMA else drop_bit 1 crc)"

definition indexTable :: "8 word \<Rightarrow> 64 word" where
  "indexTable b = crc_shift 8 (ucast b)"

definition crc_byte :: "8 word \<Rightarrow> 64 word \<Rightarrow> 64 word" where
  "crc_byte v crc = indexTable (ucast crc XOR v) XOR drop_bit 8 crc"

definition crc64_Update :: "64 word \<Rightarrow> bytes \<Rightarrow> 64 word" where
  "crc64_Update crc p = NOT (fold crc_byte p (NOT crc))"

definition PutUint64 :: "64 word \<Rightarrow> bytes" where
  "PutUint64 w = map (\<lambda>i. ucast (drop_bit (8 * i) w)) [0..<8]"

section \<open>The header\<close>

definition headerSize :: nat where
  "headerSize = 48"

definition keySize :: nat where
  "keySize = 32"

definition hashKindDefault :: "8 word" where
  "hashKindDefault = 0"

definition hashKindCustom :: "8 word" where
  "hashKindCustom = 1"

definition checksumSchemeCRC64 :: "8 word" where
  "checksumSchemeCRC64 = 1"

definition checksumSize :: nat where
  "checksumSize = 6"

definition magic :: bytes where
  "magic = bytes_of ''CASKBLM1''"

type_synonym indexKey = bytes

definition headerChecksum :: "8 word \<Rightarrow> indexKey \<Rightarrow> bytes" where
  "headerChecksum kind key = take checksumSize (PutUint64 (crc64_Update 0 (kind # key)))"

definition encodeHeader :: "8 word \<Rightarrow> indexKey \<Rightarrow> bytes" where
  "encodeHeader kind key = magic @ [kind, checksumSchemeCRC64] @ headerChecksum kind key @ key"

definition decodeHeader :: "bytes \<Rightarrow> (8 word \<times> indexKey) option" where
  "decodeHeader src =
     (if length src < headerSize \<or> take 8 src \<noteq> magic then None
      else let kind = src ! 8 in
        if kind \<noteq> hashKindDefault \<and> kind \<noteq> hashKindCustom then None
        else if src ! 9 \<noteq> checksumSchemeCRC64 then None
        else let key = take (headerSize - 16) (drop 16 src) in
          if headerChecksum kind key \<noteq> take 6 (drop 10 src) then None
          else Some (kind, key))"

definition keyedIndexHash :: "indexKey \<Rightarrow> index_hash" where
  "keyedIndexHash key data i =
     (let keySum = crc64_Update 0 key;
          sum1 = crc64_Update keySum data in
      crc64_Update sum1 (PutUint64 (of_nat i)))"

section \<open>State and operations\<close>

text \<open>What the operating system and the random source answer.\<close>

record outcomes =
  o_open :: "err option"
  o_stat :: "err option"
  o_truncate :: "err option"
  o_map :: "bool result"
  o_rand :: "indexKey result"
  o_flush :: "err option"
  o_fsync :: "err option"
  o_unmap :: "err option"
  o_close :: "err option"
  o_write :: "(err \<times> bytes) option"

record pfilter =
  p_disk :: bytes
  p_file :: bool
  p_raw :: bytes
  p_k :: nat
  p_m :: nat
  p_hash :: index_hash
  p_mapped :: bool
  p_rebuilt :: bool
  p_closed :: bool

definition p_data :: "pfilter \<Rightarrow> bytes" where
  "p_data f = drop headerSize (p_raw f)"

text \<open>A store through the view: a mapping is shared with the file, the heap buffer is not.\<close>

definition write_raw :: "bytes \<Rightarrow> pfilter \<Rightarrow> pfilter" where
  "write_raw raw f =
     f\<lparr>p_raw := raw,
       p_disk := (if p_mapped f then raw @ drop (length raw) (p_disk f) else p_disk f)\<rparr>"

definition readPadded :: "bytes \<Rightarrow> nat \<Rightarrow> bytes" where
  "readPadded buf size1 = take size1 buf @ replicate (size1 - length buf) 0"

definition initIndexHash :: "outcomes \<Rightarrow> index_hash option \<Rightarrow> pfilter \<Rightarrow> pfilter result" where
  "initIndexHash out custom f =
     (let kind = (if custom \<noteq> None then hashKindCustom else hashKindDefault);
          set_hash = (\<lambda>key g. g\<lparr>p_hash := (case custom of Some h \<Rightarrow> h | None \<Rightarrow> keyedIndexHash key)\<rparr>);
          rebuild = (case o_rand out of
              Inl e \<Rightarrow> Inl (Errorf ''bloom/persistent: read index key'' [e])
            | Inr key \<Rightarrow>
                Inr (set_hash key
                  ((write_raw (encodeHeader kind key @ map (\<lambda>_. 0) (p_data f)) f)\<lparr>p_rebuilt := True\<rparr>))) in
      case decodeHeader (take headerSize (p_raw f)) of
        None \<Rightarrow> rebuild
      | Some (gotKind, key) \<Rightarrow> if gotKind \<noteq> kind then rebuild else Inr (set_hash key f))"

definition syncLocked :: "outcomes \<Rightarrow> pfilter \<Rightarrow> err option \<times> pfilter" where
  "syncLocked out f =
     (if p_raw f = [] then (None, f)
      else if p_mapped f then
        (case o_flush out of
           Some e \<Rightarrow> (Some e, f)
         | None \<Rightarrow>
             (if p_file f then
                (case o_fsync out of
                   Some e \<Rightarrow> (Some (Errorf ''bloom/persistent: sync persistent file'' [e]), f)
                 | None \<Rightarrow> (None, f))
              else (None, f)))
      else (case o_write out of
              Some (e, junk) \<Rightarrow> (Some (Errorf ''bloom/persistent: write persistent file'' [e]), f\<lparr>p_disk := junk\<rparr>)
            | None \<Rightarrow> (None, f\<lparr>p_disk := p_raw f\<rparr>)))"

definition closeLocked :: "outcomes \<Rightarrow> pfilter \<Rightarrow> err option \<times> pfilter" where
  "closeLocked out f =
     (if p_closed f then (None, f)
      else
        (let (serr, f1) = syncLocked out (f\<lparr>p_closed := True\<rparr>);
             err1 = (if p_mapped f1 \<and> p_raw f1 \<noteq> [] \<and> serr = None then o_unmap out else serr);
             f2 = f1\<lparr>p_raw := []\<rparr>;
             err2 = (if p_file f2 \<and> err1 = None
                     then map_option (\<lambda>e. Errorf ''bloom/persistent: close persistent file'' [e]) (o_close out)
                     else err1) in
         (err2, f2\<lparr>p_file := False\<rparr>)))"

text \<open>
  \<open>newFilter\<close>: the file is \<open>None\<close> where there is none yet. The second component is the content left on
  disk, which a failed call changes too.
\<close>

definition newFilter ::
  "nat \<Rightarrow> err option \<Rightarrow> (nat \<times> nat) result \<Rightarrow> index_hash option \<Rightarrow> bytes option \<Rightarrow> outcomes \<Rightarrow>
    pfilter result \<times> bytes option" where
  "newFilter expectedItems rateErr params custom file out =
     (if expectedItems = 0 then (Inl (ErrorsNew ''bloom/persistent: expected items must be > 0''), file)
      else case rateErr of Some e \<Rightarrow> (Inl e, file)
      | None \<Rightarrow> (case params of Inl e \<Rightarrow> (Inl (Errorf ''bloom/persistent'' [e]), file)
      | Inr (m, k) \<Rightarrow> (case o_open out of
          Some e \<Rightarrow> (Inl (Errorf ''bloom/persistent: open persistent file'' [e]), file)
      | None \<Rightarrow>
         (let disk = (case file of None \<Rightarrow> [] | Some b \<Rightarrow> b);
              bytesLen = (m + 7) div 8;
              size1 = headerSize + bytesLen in
          case o_stat out of
            Some e \<Rightarrow> (Inl (Errorf ''bloom/persistent: stat persistent file'' [e]), Some disk)
          | None \<Rightarrow>
             if length disk < size1 \<and> o_truncate out \<noteq> None
             then (Inl (Errorf ''bloom/persistent: resize persistent file'' [the (o_truncate out)]), Some disk)
             else
               (let disk1 = (if length disk < size1 then disk @ replicate (size1 - length disk) 0 else disk) in
                case o_map out of
                  Inl e \<Rightarrow> (Inl (Errorf ''bloom/persistent: map persistent file'' [e]), Some disk1)
                | Inr mapped \<Rightarrow>
                   (let f = \<lparr>p_disk = disk1, p_file = True,
                             p_raw = (if mapped then take size1 disk1 else readPadded disk1 size1),
                             p_k = k, p_m = m, p_hash = (\<lambda>_ _. 0), p_mapped = mapped, p_rebuilt = False,
                             p_closed = False\<rparr> in
                    case initIndexHash out custom f of
                      Inl e \<Rightarrow> (Inl e, Some (p_disk (snd (closeLocked out f))))
                    | Inr g \<Rightarrow> (Inr g, Some (p_disk g))))))))"

definition pf_Rebuilt :: "pfilter option \<Rightarrow> bool" where
  "pf_Rebuilt fo = (case fo of None \<Rightarrow> False | Some f \<Rightarrow> p_rebuilt f)"

definition pf_IsMapped :: "pfilter option \<Rightarrow> bool" where
  "pf_IsMapped fo = (case fo of None \<Rightarrow> False | Some f \<Rightarrow> p_mapped f \<and> \<not> p_closed f)"

definition set_bit8 :: "nat \<Rightarrow> bytes \<Rightarrow> bytes" where
  "set_bit8 idx bits = bits[idx div 8 := bits ! (idx div 8) OR push_bit (idx mod 8) 1]"

fun pf_add_loop :: "index_hash \<Rightarrow> nat \<Rightarrow> digest \<Rightarrow> nat list \<Rightarrow> bytes \<Rightarrow> bytes" where
  "pf_add_loop hash m d [] bits = bits"
| "pf_add_loop hash m d (i # is) bits = pf_add_loop hash m d is (set_bit8 (probe hash m d i) bits)"

definition pf_Add :: "digest \<Rightarrow> pfilter option \<Rightarrow> pfilter option" where
  "pf_Add d fo =
     (case fo of
        None \<Rightarrow> None
      | Some f \<Rightarrow>
          if IsZero d \<or> p_closed f then Some f
          else Some (write_raw (take headerSize (p_raw f) @
                 pf_add_loop (p_hash f) (p_m f) d [0..<p_k f] (p_data f)) f))"

fun pf_contains_loop :: "index_hash \<Rightarrow> nat \<Rightarrow> digest \<Rightarrow> nat list \<Rightarrow> bytes \<Rightarrow> bool" where
  "pf_contains_loop hash m d [] bits = True"
| "pf_contains_loop hash m d (i # is) bits =
     (let idx = probe hash m d i in
      if bits ! (idx div 8) AND push_bit (idx mod 8) 1 = 0 then False
      else pf_contains_loop hash m d is bits)"

definition pf_Contains :: "pfilter option \<Rightarrow> digest \<Rightarrow> bool" where
  "pf_Contains fo d =
     (case fo of
        None \<Rightarrow> False
      | Some f \<Rightarrow>
          if IsZero d \<or> p_closed f then False
          else pf_contains_loop (p_hash f) (p_m f) d [0..<p_k f] (p_data f))"

definition pf_Reset :: "pfilter option \<Rightarrow> pfilter option" where
  "pf_Reset fo =
     (case fo of
        None \<Rightarrow> None
      | Some f \<Rightarrow>
          if p_closed f then Some f
          else Some (write_raw (take headerSize (p_raw f) @ map (\<lambda>_. 0) (p_data f)) f))"

definition pf_Close :: "outcomes \<Rightarrow> pfilter option \<Rightarrow> err option \<times> pfilter option" where
  "pf_Close out fo = (case fo of None \<Rightarrow> (None, None) | Some f \<Rightarrow> apsnd Some (closeLocked out f))"

definition pf_Sync :: "outcomes \<Rightarrow> pfilter option \<Rightarrow> err option \<times> pfilter option" where
  "pf_Sync out fo =
     (case fo of
        None \<Rightarrow> (None, None)
      | Some f \<Rightarrow> if p_closed f then (None, Some f) else apsnd Some (syncLocked out f))"

section \<open>Header lemmas\<close>

lemma crc64_Update_append: "crc64_Update (crc64_Update c p) q = crc64_Update c (p @ q)"
  by (simp add: crc64_Update_def)

lemma length_headerChecksum [simp]: "length (headerChecksum kind key) = 6"
  by (simp add: headerChecksum_def PutUint64_def checksumSize_def)

lemma length_magic [simp]: "length magic = 8"
  by (simp add: magic_def)

lemma length_encodeHeader [simp]: "length (encodeHeader kind key) = 16 + length key"
  by (simp add: encodeHeader_def)

lemma decode_encode:
  assumes "length key = keySize" "kind \<in> {hashKindDefault, hashKindCustom}"
  shows "decodeHeader (encodeHeader kind key @ rest) = Some (kind, key)"
proof -
  have "take 8 (encodeHeader kind key @ rest) = magic" by (simp add: encodeHeader_def)
  moreover have "(encodeHeader kind key @ rest) ! 8 = kind" "(encodeHeader kind key @ rest) ! 9 = checksumSchemeCRC64"
    by (simp_all add: encodeHeader_def nth_append)
  moreover have "drop 16 (encodeHeader kind key @ rest) = key @ rest"
    "take 6 (drop 10 (encodeHeader kind key @ rest)) = headerChecksum kind key"
    by (simp_all add: encodeHeader_def)
  ultimately show ?thesis
    using assms by (simp add: decodeHeader_def keySize_def headerSize_def Let_def)
qed

lemma decode_imp_encode:
  assumes "decodeHeader src = Some (kind, key)"
  shows "take headerSize src = encodeHeader kind key \<and> length key = keySize \<and> kind \<in> {hashKindDefault, hashKindCustom}"
proof -
  from assms have l: "48 \<le> length src" and m: "take 8 src = magic" and k: "kind = src ! 8" "src ! 9 = checksumSchemeCRC64"
    and key: "key = take 32 (drop 16 src)" and c: "headerChecksum kind key = take 6 (drop 10 src)"
    and kd: "kind \<in> {hashKindDefault, hashKindCustom}"
    by (auto simp: decodeHeader_def headerSize_def Let_def split: if_splits)
  have "take 48 src = take 8 src @ take 2 (drop 8 src) @ take 6 (drop 10 src) @ take 32 (drop 16 src)"
    using take_add [of 8 40 src] take_add [of 2 38 "drop 8 src"] take_add [of 6 32 "drop 10 src"] by simp
  moreover have "take 2 (drop 8 src) = [src ! 8, src ! 9]"
    using l by (simp add: numeral_2_eq_2 take_Suc_conv_app_nth nth_drop)
  ultimately show ?thesis
    using m k key c kd l by (simp add: encodeHeader_def headerSize_def keySize_def)
qed

section \<open>The bitset\<close>

definition bits8_set :: "bytes \<Rightarrow> nat set" where
  "bits8_set bits = {idx. idx div 8 < length bits \<and> bit (bits ! (idx div 8)) (idx mod 8)}"

lemma bits8_set_set_bit8:
  assumes "idx div 8 < length bits"
  shows "bits8_set (set_bit8 idx bits) = insert idx (bits8_set bits)"
proof (rule set_eqI)
  fix j
  have "j = idx \<longleftrightarrow> j div 8 = idx div 8 \<and> j mod 8 = idx mod 8" by (metis div_mult_mod_eq)
  moreover have "idx mod 8 < 8" by simp
  ultimately show "j \<in> bits8_set (set_bit8 idx bits) \<longleftrightarrow> j \<in> insert idx (bits8_set bits)"
    using assms by (auto simp: bits8_set_def set_bit8_def nth_list_update bit_or_iff bit_exp_iff)
qed

lemma length_set_bit8 [simp]: "length (set_bit8 idx bits) = length bits"
  by (simp add: set_bit8_def)

lemma length_pf_add_loop [simp]: "length (pf_add_loop hash m d is bits) = length bits"
  by (induction hash m d "is" bits rule: pf_add_loop.induct) simp_all

lemma probe_byte: "m > 0 \<Longrightarrow> probe h m d i div 8 < (m + 7) div 8"
  using probe_less [of m h d i] div_mult_mod_eq [of "probe h m d i" 8]
  by (simp add: Suc_le_eq [symmetric] less_eq_div_iff_mult_less_eq)

lemma bits8_add_loop:
  "m > 0 \<Longrightarrow> length bits = (m + 7) div 8 \<Longrightarrow>
    bits8_set (pf_add_loop hash m d is bits) = bits8_set bits \<union> probe hash m d ` set is"
  by (induction hash m d "is" bits rule: pf_add_loop.induct) (simp_all add: bits8_set_set_bit8 probe_byte)

lemma bits8_contains_loop:
  "m > 0 \<Longrightarrow> length bits = (m + 7) div 8 \<Longrightarrow>
    pf_contains_loop hash m d is bits \<longleftrightarrow> probe hash m d ` set is \<subseteq> bits8_set bits"
proof (induction "is")
  case (Cons i "is")
  have "bits ! (probe hash m d i div 8) AND 2 ^ (probe hash m d i mod 8) = 0 \<longleftrightarrow> probe hash m d i \<notin> bits8_set bits"
    using probe_byte [OF Cons.prems(1)] Cons.prems(2) by (simp add: bits8_set_def and_exp_eq_0_iff_not_bit)
  with Cons show ?case by (simp add: Let_def)
qed simp

section \<open>Open filters\<close>

definition kind_of :: "index_hash option \<Rightarrow> 8 word" where
  "kind_of custom = (if custom \<noteq> None then hashKindCustom else hashKindDefault)"

definition hash_of :: "index_hash option \<Rightarrow> indexKey \<Rightarrow> index_hash" where
  "hash_of custom key = (case custom of Some h \<Rightarrow> h | None \<Rightarrow> keyedIndexHash key)"

definition pf_inv :: "index_hash option \<Rightarrow> pfilter \<Rightarrow> bool" where
  "pf_inv custom f \<longleftrightarrow> \<not> p_closed f \<and> p_file f \<and> p_m f > 0 \<and> length (p_raw f) = headerSize + (p_m f + 7) div 8 \<and>
     (p_mapped f \<longrightarrow> take (length (p_raw f)) (p_disk f) = p_raw f) \<and>
     (\<exists>key. decodeHeader (take headerSize (p_raw f)) = Some (kind_of custom, key) \<and> p_hash f = hash_of custom key)"

lemma kind_of_valid: "kind_of custom \<in> {hashKindDefault, hashKindCustom}"
  by (simp add: kind_of_def)

lemma p_data_length: "pf_inv custom f \<Longrightarrow> length (p_data f) = (p_m f + 7) div 8"
  by (simp add: pf_inv_def p_data_def)

lemma write_raw_frame:
  "p_raw (write_raw raw f) = raw" "p_k (write_raw raw f) = p_k f" "p_m (write_raw raw f) = p_m f"
  "p_hash (write_raw raw f) = p_hash f" "p_mapped (write_raw raw f) = p_mapped f"
  "p_closed (write_raw raw f) = p_closed f" "p_file (write_raw raw f) = p_file f" "p_rebuilt (write_raw raw f) = p_rebuilt f"
  by (simp_all add: write_raw_def)

lemma write_raw_inv:
  assumes "pf_inv custom f" "length data = length (p_data f)"
  shows "pf_inv custom (write_raw (take headerSize (p_raw f) @ data) f)"
    and "p_data (write_raw (take headerSize (p_raw f) @ data) f) = data"
proof -
  have l: "headerSize \<le> length (p_raw f)" using assms(1) by (simp add: pf_inv_def)
  then show "p_data (write_raw (take headerSize (p_raw f) @ data) f) = data"
    by (simp add: p_data_def write_raw_frame)
  have "length (take headerSize (p_raw f) @ data) = length (p_raw f)" using l assms(2) by (simp add: p_data_def)
  with assms(1) l show "pf_inv custom (write_raw (take headerSize (p_raw f) @ data) f)"
    by (simp add: pf_inv_def write_raw_frame) (simp add: write_raw_def)
qed

definition pf_positions :: "pfilter \<Rightarrow> digest \<Rightarrow> nat set" where
  "pf_positions f d = probe (p_hash f) (p_m f) d ` {0..<p_k f}"

lemma pf_Contains_iff:
  assumes "pf_inv custom f"
  shows "pf_Contains (Some f) d \<longleftrightarrow> d \<noteq> [] \<and> pf_positions f d \<subseteq> bits8_set (p_data f)"
  using assms p_data_length [OF assms] by (simp add: pf_Contains_def bits8_contains_loop pf_positions_def pf_inv_def)

lemma pf_Add_spec:
  assumes "pf_inv custom f"
  obtains g where "pf_Add d (Some f) = Some g" "pf_inv custom g" "pf_positions g = pf_positions f"
    "p_m g = p_m f" "p_k g = p_k f"
    "bits8_set (p_data g) = bits8_set (p_data f) \<union> (if d = [] then {} else pf_positions f d)"
proof (cases "d = []")
  case True
  with assms that [of f] show thesis by (simp add: pf_Add_def)
next
  case False
  let ?data = "pf_add_loop (p_hash f) (p_m f) d [0..<p_k f] (p_data f)"
  let ?g = "write_raw (take headerSize (p_raw f) @ ?data) f"
  have "bits8_set (p_data ?g) = bits8_set (p_data f) \<union> pf_positions f d"
    using write_raw_inv(2) [OF assms, of ?data] p_data_length [OF assms] assms
    by (simp add: bits8_add_loop pf_positions_def pf_inv_def)
  moreover have "pf_positions ?g = pf_positions f" by (simp add: pf_positions_def write_raw_frame fun_eq_iff)
  ultimately show thesis
    using that [of ?g] write_raw_inv(1) [OF assms, of ?data] False assms
    by (simp add: pf_Add_def write_raw_frame) (simp add: pf_inv_def)
qed

section \<open>Opening and closing\<close>

lemma initIndexHash_inv:
  assumes "initIndexHash out custom f = Inr g" "\<And>key. o_rand out = Inr key \<Longrightarrow> length key = keySize"
    and "\<not> p_closed f" "p_file f" "p_m f > 0" "length (p_raw f) = headerSize + (p_m f + 7) div 8"
    and "p_mapped f \<longrightarrow> take (length (p_raw f)) (p_disk f) = p_raw f"
  shows "pf_inv custom g \<and> p_m g = p_m f \<and> p_k g = p_k f"
proof (cases "\<exists>key. decodeHeader (take headerSize (p_raw f)) = Some (kind_of custom, key)")
  case True
  then obtain key where k: "decodeHeader (take headerSize (p_raw f)) = Some (kind_of custom, key)" by blast
  with assms(1) have "g = f\<lparr>p_hash := hash_of custom key\<rparr>"
    by (simp add: initIndexHash_def hash_of_def kind_of_def Let_def)
  with assms k show ?thesis by (simp add: pf_inv_def)
next
  case False
  with assms(1) obtain key where key: "o_rand out = Inr key" and g: "g =
      (write_raw (encodeHeader (kind_of custom) key @ map (\<lambda>_. 0) (p_data f)) f)\<lparr>p_rebuilt := True, p_hash := hash_of custom key\<rparr>"
    by (auto simp: initIndexHash_def kind_of_def hash_of_def Let_def split: option.splits sum.splits if_splits)
  have k: "length key = keySize" using assms(2) key by simp
  then have "decodeHeader (encodeHeader (kind_of custom) key) = Some (kind_of custom, key)"
    using decode_encode [OF k kind_of_valid, of custom "[]"] by simp
  with assms(3-7) g k show ?thesis
    by (simp add: pf_inv_def write_raw_frame p_data_def headerSize_def keySize_def) (simp add: write_raw_def)
qed

text \<open>The content after a successful close starts with the bytes of the view.\<close>

lemma closeLocked_disk:
  assumes "pf_inv custom f" "closeLocked out f = (None, f')"
  shows "take (length (p_raw f)) (p_disk f') = p_raw f \<and> p_closed f'"
proof -
  have "p_raw f \<noteq> []" "\<not> p_closed f" using assms(1) by (auto simp: pf_inv_def headerSize_def)
  moreover obtain serr f1 where s: "syncLocked out (f\<lparr>p_closed := True\<rparr>) = (serr, f1)" by fastforce
  ultimately have n: "serr = None" "p_disk f' = p_disk f1" "p_closed f' = p_closed f1"
    using assms(2) by (auto simp: closeLocked_def Let_def split: if_splits)
  with s assms(1) \<open>p_raw f \<noteq> []\<close> show ?thesis
    by (auto simp: syncLocked_def pf_inv_def split: if_splits option.splits prod.splits)
qed

text \<open>Opening a content that starts with a usable header and is long enough.\<close>

lemma newFilter_reuses:
  assumes "n > 0" "o_open out = None" "o_stat out = None" "o_map out = Inr mapped"
    and "length raw = headerSize + (m + 7) div 8" "take (length raw) disk = raw"
    and "decodeHeader (take headerSize raw) = Some (kind_of custom, key)"
  shows "newFilter n None (Inr (m, k)) custom (Some disk) out =
    (Inr \<lparr>p_disk = disk, p_file = True, p_raw = raw, p_k = k, p_m = m, p_hash = hash_of custom key,
          p_mapped = mapped, p_rebuilt = False, p_closed = False\<rparr>, Some disk)"
proof -
  have l: "length raw \<le> length disk" using assms(6) by (metis length_take min.cobounded1)
  then have "readPadded disk (length raw) = raw" using assms(6) by (simp add: readPadded_def)
  with assms l show ?thesis
    by (simp add: newFilter_def initIndexHash_def kind_of_def hash_of_def Let_def)
qed

section \<open>Properties\<close>

text \<open>
  C39: The header codec of the persistent filter is canonical: \<open>decodeHeader\<close> accepts a content exactly when
  its first 48 bytes are what \<open>encodeHeader\<close> writes for one of the two kinds and a 32-byte key, and
  then returns that kind and key. A header with any other byte is rejected, so the file is rebuilt.\<close>

theorem header_accepted_iff_written:
  "decodeHeader src = Some (kind, key) \<longleftrightarrow>
    take headerSize src = encodeHeader kind key \<and> length key = keySize \<and> kind \<in> {hashKindDefault, hashKindCustom}"
proof
  assume r: "take headerSize src = encodeHeader kind key \<and> length key = keySize \<and> kind \<in> {hashKindDefault, hashKindCustom}"
  then have "src = encodeHeader kind key @ drop headerSize src" by (metis append_take_drop_id)
  with decode_encode [of key kind "drop headerSize src"] r show "decodeHeader src = Some (kind, key)" by metis
qed (rule decode_imp_encode)

text \<open>
  Folding the key into the starting checksum once gives the same bit positions as hashing the
  key, the digest and the probe number in one go, as the comment on \<open>keyedIndexHash\<close> says.\<close>

theorem keyed_hash_is_checksum_of_concatenation:
  "keyedIndexHash key data i = crc64_Update 0 (key @ data @ PutUint64 (of_nat i))"
  by (simp add: keyedIndexHash_def crc64_Update_append)

definition fine :: "bool \<Rightarrow> outcomes" where
  "fine mapped = \<lparr>o_open = None, o_stat = None, o_truncate = None, o_map = Inr mapped, o_rand = Inr (replicate 32 7),
     o_flush = None, o_fsync = None, o_unmap = None, o_close = None, o_write = None\<rparr>"

definition pf_adds :: "digest list \<Rightarrow> pfilter option \<Rightarrow> pfilter option" where
  "pf_adds ds fo = fold pf_Add ds fo"

lemma pf_adds_spec:
  assumes "pf_inv custom f"
  shows "\<exists>g. pf_adds ds (Some f) = Some g \<and> pf_inv custom g \<and> pf_positions g = pf_positions f \<and> p_m g = p_m f \<and> p_k g = p_k f \<and>
    bits8_set (p_data g) = bits8_set (p_data f) \<union> (\<Union>d \<in> set ds - {[]}. pf_positions f d)"
  using assms
proof (induction ds arbitrary: f)
  case Nil
  then show ?case by (simp add: pf_adds_def)
next
  case (Cons d ds)
  obtain g where g: "pf_Add d (Some f) = Some g" "pf_inv custom g" "pf_positions g = pf_positions f"
    "p_m g = p_m f" "p_k g = p_k f"
    "bits8_set (p_data g) = bits8_set (p_data f) \<union> (if d = [] then {} else pf_positions f d)"
    using pf_Add_spec [OF Cons.prems] by metis
  have "pf_adds (d # ds) (Some f) = pf_adds ds (Some g)" by (simp add: pf_adds_def g(1))
  with Cons.IH [OF g(2)] g(3-6) show ?case by auto
qed

lemma newFilter_inv:
  assumes "newFilter n re (Inr (m, k)) custom file out = (Inr f, file')" "m > 0"
    and "\<And>key. o_rand out = Inr key \<Longrightarrow> length key = keySize"
  shows "pf_inv custom f \<and> p_m f = m \<and> p_k f = k"
proof -
  define disk where "disk = (case file of None \<Rightarrow> [] | Some b \<Rightarrow> b)"
  let ?size = "headerSize + (m + 7) div 8"
  define disk1 where "disk1 = (if length disk < ?size then disk @ replicate (?size - length disk) 0 else disk)"
  define view where "view mapped = (if mapped then take ?size disk1 else readPadded disk1 ?size)" for mapped
  from assms(1) obtain mapped where "initIndexHash out custom
      \<lparr>p_disk = disk1, p_file = True, p_raw = view mapped,
       p_k = k, p_m = m, p_hash = (\<lambda>_ _. 0), p_mapped = mapped, p_rebuilt = False, p_closed = False\<rparr> = Inr f"
    unfolding newFilter_def disk_def [symmetric] Let_def prod.case sum.case disk1_def [symmetric] view_def [symmetric]
    by (cases "o_map out") (auto split: if_splits option.splits sum.splits)
  from initIndexHash_inv [OF this assms(3)] assms(2) show ?thesis by (auto simp: readPadded_def disk1_def view_def)
qed

text \<open>
  C40: A persistent filter survives a restart: a filter opened on any previous content, filled, and closed
  without an error, is opened again from the bytes it left with the same shape and kind of index
  hash, memory mapped or not. The second open succeeds, keeps the bits, and answers every query as the
  first filter did before it was closed; in particular every added digest is still reported present.\<close>

theorem persistent_filter_survives_restart:
  assumes "newFilter n rateErr (Inr (m, k)) custom file out = (Inr f, file1)" "m > 0"
    and "\<And>key. o_rand out = Inr key \<Longrightarrow> length key = keySize"
    and "pf_Close out2 (pf_adds ds (Some f)) = (None, Some f2)"
    and "n' > 0" "o_open out3 = None" "o_stat out3 = None" "o_map out3 = Inr mapped"
  shows "\<exists>g. newFilter n' None (Inr (m, k)) custom (Some (p_disk f2)) out3 = (Inr g, Some (p_disk f2)) \<and> \<not> p_rebuilt g \<and>
    (\<forall>d. pf_Contains (Some g) d = pf_Contains (pf_adds ds (Some f)) d) \<and>
    (\<forall>d \<in> set ds. d \<noteq> [] \<longrightarrow> pf_Contains (Some g) d)"
proof -
  have f: "pf_inv custom f" "p_m f = m" "p_k f = k" using newFilter_inv [OF assms(1,2,3)] by auto
  obtain h where h: "pf_adds ds (Some f) = Some h" "pf_inv custom h" "pf_positions h = pf_positions f" "p_m h = m" "p_k h = k"
    "bits8_set (p_data h) = bits8_set (p_data f) \<union> (\<Union>d \<in> set ds - {[]}. pf_positions f d)"
    using pf_adds_spec [OF f(1), of ds] f by auto
  obtain key where key: "decodeHeader (take headerSize (p_raw h)) = Some (kind_of custom, key)" "p_hash h = hash_of custom key"
    and len: "length (p_raw h) = headerSize + (m + 7) div 8"
    using h(2,4) by (auto simp: pf_inv_def)
  have "closeLocked out2 h = (None, f2)" using assms(4) h(1) by (cases "closeLocked out2 h") (simp add: pf_Close_def)
  then have "take (length (p_raw h)) (p_disk f2) = p_raw h" using closeLocked_disk [OF h(2)] by blast
  note re = newFilter_reuses [OF assms(5-8) len this key(1), of k]
  let ?g = "\<lparr>p_disk = p_disk f2, p_file = True, p_raw = p_raw h, p_k = k, p_m = m, p_hash = hash_of custom key,
          p_mapped = mapped, p_rebuilt = False, p_closed = False\<rparr>"
  have same: "pf_Contains (Some ?g) d = pf_Contains (Some h) d" for d
    using h(2,4,5) key(2) by (simp add: pf_Contains_def p_data_def pf_inv_def)
  moreover have "pf_Contains (Some h) d" if "d \<in> set ds" "d \<noteq> []" for d
    using pf_Contains_iff [OF h(2)] h(3,6) that by auto
  ultimately show ?thesis using re h(1) by (intro exI [of _ ?g]) simp
qed

definition demo_persistent :: pfilter where
  "demo_persistent = \<lparr>p_disk = encodeHeader hashKindCustom (replicate 32 7) @ [0, 0], p_file = True,
     p_raw = encodeHeader hashKindCustom (replicate 32 7) @ [0, 0], p_k = 1, p_m = 16, p_hash = demo_index,
     p_mapped = True, p_rebuilt = True, p_closed = False\<rparr>"

lemma demo_persistent_opened:
  "newFilter 11 None (Inr (16, 1)) (Some demo_index) None (fine True) = (Inr demo_persistent, Some (p_disk demo_persistent))"
proof -
  have "decodeHeader (replicate 48 0) = None" by code_simp
  then show ?thesis
    by (simp add: newFilter_def initIndexHash_def fine_def Let_def headerSize_def write_raw_def p_data_def
        demo_persistent_def numeral_2_eq_2)
qed

lemma closeLocked_fine: "\<exists>f2. closeLocked (fine mapped) f = (None, f2)"
  by (simp add: closeLocked_def syncLocked_def fine_def Let_def)

theorem persistent_filter_survives_restart_witness:
  "\<exists>f2 g. pf_Close (fine True) (pf_adds [[5], [9]] (Some demo_persistent)) = (None, Some f2) \<and>
    newFilter 11 None (Inr (16, 1)) (Some demo_index) (Some (p_disk f2)) (fine False) = (Inr g, Some (p_disk f2)) \<and>
    pf_Contains (Some g) [9]"
proof -
  have "pf_inv (Some demo_index) demo_persistent"
    using newFilter_inv [OF demo_persistent_opened] by (simp add: fine_def keySize_def)
  then obtain h where "pf_adds [[5], [9]] (Some demo_persistent) = Some h" using pf_adds_spec by blast
  then obtain f2 where c: "pf_Close (fine True) (pf_adds [[5], [9]] (Some demo_persistent)) = (None, Some f2)"
    using closeLocked_fine [of True h] by (auto simp: pf_Close_def)
  show ?thesis
    using persistent_filter_survives_restart [OF demo_persistent_opened _ _ c, of 11 "fine False" False] c
    by (auto simp: fine_def keySize_def)
qed

text \<open>
  The shape is not part of the file: a filter sized for 11 digests records one, is closed, and the file
  is opened again for 16 digests with the same index hash. The bits are kept, \<open>Rebuilt\<close> is false, and
  the recorded digest is reported absent.\<close>

theorem persistent_filter_resized_denies_member:
  "\<exists>f f2 g. newFilter 11 None (Inr (16, 1)) (Some demo_index) None (fine True) = (Inr f, Some (p_disk f)) \<and>
    pf_Contains (pf_Add [5] (Some f)) [5] \<and>
    pf_Close (fine True) (pf_Add [5] (Some f)) = (None, Some f2) \<and>
    newFilter 16 None (Inr (24, 1)) (Some demo_index) (Some (p_disk f2)) (fine True) = (Inr g, Some (p_disk g)) \<and>
    \<not> pf_Rebuilt (Some g) \<and> \<not> pf_Contains (Some g) [5]"
proof -
  let ?f = demo_persistent
  let ?hdr = "encodeHeader hashKindCustom (replicate 32 7)"
  let ?f1 = "?f\<lparr>p_raw := ?hdr @ [16, 0], p_disk := ?hdr @ [16, 0]\<rparr>"
  let ?f2 = "?f1\<lparr>p_raw := [], p_file := False, p_closed := True\<rparr>"
  let ?g = "\<lparr>p_disk = ?hdr @ [16, 0, 0], p_file = True, p_raw = ?hdr @ [16, 0, 0], p_k = 1, p_m = 24, p_hash = demo_index,
     p_mapped = True, p_rebuilt = False, p_closed = False\<rparr>"
  have dec: "decodeHeader ?hdr = Some (hashKindCustom, replicate 32 7)"
    using decode_encode [of "replicate 32 7" hashKindCustom "[]"] by (simp add: keySize_def)
  have add: "pf_Add [5] (Some ?f) = Some ?f1"
    by (simp add: pf_Add_def demo_persistent_def write_raw_def headerSize_def p_data_def set_bit8_def probe_def demo_index_def)
  have "pf_Contains (Some ?f1) [5]"
    by (simp add: pf_Contains_def demo_persistent_def p_data_def headerSize_def probe_def demo_index_def)
  moreover have "pf_Close (fine True) (Some ?f1) = (None, Some ?f2)"
    by (simp add: pf_Close_def closeLocked_def syncLocked_def fine_def demo_persistent_def Let_def)
  moreover have "newFilter 16 None (Inr (24, 1)) (Some demo_index) (Some (p_disk ?f2)) (fine True) = (Inr ?g, Some (p_disk ?g))"
    by (simp add: newFilter_def initIndexHash_def fine_def Let_def headerSize_def demo_persistent_def dec)
  moreover have "\<not> pf_Rebuilt (Some ?g)" "\<not> pf_Contains (Some ?g) [5]"
    by (simp_all add: pf_Rebuilt_def pf_Contains_def p_data_def headerSize_def probe_def demo_index_def)
  ultimately show ?thesis using demo_persistent_opened add by metis
qed

end
