(* ===== verification/Os_Files.thy ===== *)
theory Os_Files
  imports Backend_Stream
begin

text \<open>
  The part of the operating system the file-based components call: a tree of directories, regular
  files, symbolic links and other entries, keyed by the path components below a root directory.
  Every call takes its next outcome from a schedule: it runs, it fails with an error and no effect,
  or the process dies there, after which no call has an effect any more. A write accepts bytes as
  its own schedule says. A result that holds for every schedule therefore holds for a failure of any
  call and a crash between any two of them. Losing unsynchronised data in a crash is not modelled:
  what a call has written is in the tree.

  A call that would follow a symbolic link leaves the modelled tree. It is answered with an error and
  recorded in \<open>outside\<close>, so that "follows no link" is a property of the final state.
\<close>

section \<open>The tree\<close>

type_synonym path = "string list"

datatype node = Dir | Reg bytes int | Link string | Special

datatype fault = Go | Fail err | Crash

record osfs =
  nodes :: "(path \<times> node) list"
  os_now :: int
  faults :: "fault list"
  wplan :: "(nat \<times> err option) list"
  crashed :: bool
  outside :: bool

definition ErrNotExist :: err where
  "ErrNotExist = ErrorsNew ''file does not exist''"

definition ErrExist :: err where
  "ErrExist = ErrorsNew ''file already exists''"

definition ENOTDIR :: err where
  "ENOTDIR = ErrorsNew ''not a directory''"

definition EISDIR :: err where
  "EISDIR = ErrorsNew ''is a directory''"

definition ENOTEMPTY :: err where
  "ENOTEMPTY = ErrorsNew ''directory not empty''"

definition ECRASH :: err where
  "ECRASH = ErrorsNew ''process gone''"

definition EOUTSIDE :: err where
  "EOUTSIDE = ErrorsNew ''followed a symbolic link''"

lemmas os_errors = ErrNotExist_def ErrExist_def ENOTDIR_def EISDIR_def ENOTEMPTY_def ECRASH_def EOUTSIDE_def

definition node_at :: "'z osfs_scheme \<Rightarrow> path \<Rightarrow> node option" where
  "node_at s p = (if p = [] then Some Dir else map_of (nodes s) p)"

definition set_node :: "path \<Rightarrow> node \<Rightarrow> 'z osfs_scheme \<Rightarrow> 'z osfs_scheme" where
  "set_node p n s = s\<lparr>nodes := AList.update p n (nodes s)\<rparr>"

definition del_node :: "path \<Rightarrow> 'z osfs_scheme \<Rightarrow> 'z osfs_scheme" where
  "del_node p s = s\<lparr>nodes := AList.delete p (nodes s)\<rparr>"

section \<open>System calls\<close>

definition syscall :: "('z osfs_scheme \<Rightarrow> 'a result \<times> 'z osfs_scheme) \<Rightarrow> ('z osfs_scheme, 'a) act" where
  "syscall call w =
     (let s = est w in
      if crashed s then (Inl ECRASH, w)
      else case faults s of
          [] \<Rightarrow> (case call s of (x, s') \<Rightarrow> (x, w\<lparr>est := s'\<rparr>))
        | Go # fs \<Rightarrow> (case call (s\<lparr>faults := fs\<rparr>) of (x, s') \<Rightarrow> (x, w\<lparr>est := s'\<rparr>))
        | Fail e # fs \<Rightarrow> (Inl e, w\<lparr>est := s\<lparr>faults := fs\<rparr>\<rparr>)
        | Crash # fs \<Rightarrow> (Inl ECRASH, w\<lparr>est := s\<lparr>faults := fs, crashed := True\<rparr>\<rparr>))"

text \<open>The directories on the way to a path, outermost first, and what stands in the way.\<close>

definition parents :: "path \<Rightarrow> path list" where
  "parents p = map (\<lambda>n. take n p) [1..<length p]"

datatype verdict = Clear | Missing | NotDir | Linked

fun dirs_verdict :: "(path \<Rightarrow> node option) \<Rightarrow> path list \<Rightarrow> verdict" where
  "dirs_verdict m [] = Clear"
| "dirs_verdict m (q # qs) =
     (case m q of
        None \<Rightarrow> Missing
      | Some Dir \<Rightarrow> dirs_verdict m qs
      | Some (Link _) \<Rightarrow> Linked
      | Some _ \<Rightarrow> NotDir)"

definition follow_link :: "'z osfs_scheme \<Rightarrow> 'a result \<times> 'z osfs_scheme" where
  "follow_link s = (Inl EOUTSIDE, s\<lparr>outside := True\<rparr>)"

definition in_dir ::
  "path \<Rightarrow> ('z osfs_scheme \<Rightarrow> 'a result \<times> 'z osfs_scheme) \<Rightarrow> 'z osfs_scheme \<Rightarrow> 'a result \<times> 'z osfs_scheme" where
  "in_dir p k s =
     (case dirs_verdict (node_at s) (parents p) of
        Missing \<Rightarrow> (Inl ErrNotExist, s)
      | NotDir \<Rightarrow> (Inl ENOTDIR, s)
      | Linked \<Rightarrow> follow_link s
      | Clear \<Rightarrow> k s)"

definition os_Lstat :: "path \<Rightarrow> ('z osfs_scheme, node) act" where
  "os_Lstat p =
     syscall (in_dir p (\<lambda>s. case node_at s p of None \<Rightarrow> (Inl ErrNotExist, s) | Some n \<Rightarrow> (Inr n, s)))"

definition os_Stat :: "path \<Rightarrow> ('z osfs_scheme, node) act" where
  "os_Stat p =
     syscall (in_dir p (\<lambda>s. case node_at s p of
         None \<Rightarrow> (Inl ErrNotExist, s)
       | Some (Link _) \<Rightarrow> follow_link s
       | Some n \<Rightarrow> (Inr n, s)))"

definition os_Mkdir :: "path \<Rightarrow> ('z osfs_scheme, unit) act" where
  "os_Mkdir p =
     syscall (in_dir p (\<lambda>s. case node_at s p of
         None \<Rightarrow> (Inr (), set_node p Dir s)
       | Some Dir \<Rightarrow> (Inr (), s)
       | Some (Link _) \<Rightarrow> follow_link s
       | Some _ \<Rightarrow> (Inl ENOTDIR, s)))"

primrec mkdirs :: "path list \<Rightarrow> ('z osfs_scheme, unit) act" where
  "mkdirs [] = ret ()"
| "mkdirs (q # qs) = bnd (os_Mkdir q) (\<lambda>_. mkdirs qs)"

definition os_MkdirAll :: "path \<Rightarrow> ('z osfs_scheme, unit) act" where
  "os_MkdirAll p = mkdirs (if p = [] then [] else parents p @ [p])"

text \<open>\<open>os.OpenFile\<close> with \<open>O_CREATE|O_EXCL|O_WRONLY\<close>: the handle is the path it was opened at.\<close>

definition os_OpenExcl :: "path \<Rightarrow> ('z osfs_scheme, unit) act" where
  "os_OpenExcl p =
     syscall (in_dir p (\<lambda>s. case node_at s p of
         None \<Rightarrow> (Inr (), set_node p (Reg [] (os_now s)) s)
       | Some _ \<Rightarrow> (Inl ErrExist, s)))"

text \<open>\<open>os.OpenFile\<close> with \<open>O_CREATE|O_APPEND|O_WRONLY\<close>.\<close>

definition os_OpenAppend :: "path \<Rightarrow> ('z osfs_scheme, unit) act" where
  "os_OpenAppend p =
     syscall (in_dir p (\<lambda>s. case node_at s p of
         None \<Rightarrow> (Inr (), set_node p (Reg [] (os_now s)) s)
       | Some Dir \<Rightarrow> (Inl EISDIR, s)
       | Some (Link _) \<Rightarrow> follow_link s
       | Some _ \<Rightarrow> (Inr (), s)))"

definition append_at :: "path \<Rightarrow> bytes \<Rightarrow> 'z osfs_scheme \<Rightarrow> 'z osfs_scheme" where
  "append_at p b s =
     (case node_at s p of
        Some (Reg c t) \<Rightarrow> (if b = [] then s else set_node p (Reg (c @ b) (os_now s)) s)
      | _ \<Rightarrow> s)"

text \<open>\<open>io.Copy\<close> from a \<open>ContextReader\<close> into an open file, through \<open>ContextReader.WriteTo\<close>.\<close>

definition os_Copy :: "path \<Rightarrow> reader \<Rightarrow> ('z osfs_scheme, nat) act" where
  "os_Copy p r w =
     (if crashed (est w) then (Inl ECRASH, w)
      else case ContextReader_WriteTo r \<lparr>w_out = [], w_plan = wplan (est w)\<rparr> w of
          (Inl e, w') \<Rightarrow> (Inl e, w')
        | (Inr (n, eo, wr), w') \<Rightarrow>
            (let w'' = w'\<lparr>est := (append_at p (w_out wr) (est w'))\<lparr>wplan := w_plan wr\<rparr>\<rparr> in
             case eo of None \<Rightarrow> (Inr n, w'') | Some e \<Rightarrow> (Inl e, w'')))"

text \<open>One \<open>Write\<close> call on an open file; a short write without an error is \<open>io.ErrShortWrite\<close> in \<open>os.File\<close>.\<close>

definition os_Write :: "path \<Rightarrow> bytes \<Rightarrow> ('z osfs_scheme, unit) act" where
  "os_Write p b w =
     (if crashed (est w) then (Inl ECRASH, w)
      else case write_step b \<lparr>w_out = [], w_plan = wplan (est w)\<rparr> of
          ((n, eo), wr) \<Rightarrow>
            (let w' = w\<lparr>est := (append_at p (w_out wr) (est w))\<lparr>wplan := w_plan wr\<rparr>\<rparr> in
             case eo of
               Some e \<Rightarrow> (Inl e, w')
             | None \<Rightarrow> if n < length b then (Inl ErrShortWrite, w') else (Inr (), w')))"

definition os_Sync :: "path \<Rightarrow> ('z osfs_scheme, unit) act" where
  "os_Sync p = syscall (\<lambda>s. (Inr (), s))"

definition os_Close :: "path \<Rightarrow> ('z osfs_scheme, unit) act" where
  "os_Close p = syscall (\<lambda>s. (Inr (), s))"

definition has_child :: "path \<Rightarrow> 'z osfs_scheme \<Rightarrow> bool" where
  "has_child p s \<longleftrightarrow> list_ex (\<lambda>(q, _). take (length p) q = p \<and> length p < length q) (nodes s)"

definition os_Remove :: "path \<Rightarrow> ('z osfs_scheme, unit) act" where
  "os_Remove p =
     syscall (in_dir p (\<lambda>s. case node_at s p of
         None \<Rightarrow> (Inl ErrNotExist, s)
       | Some Dir \<Rightarrow> if p = [] \<or> has_child p s then (Inl ENOTEMPTY, s) else (Inr (), del_node p s)
       | Some _ \<Rightarrow> (Inr (), del_node p s)))"

text \<open>\<open>os.Rename\<close> of a file: the destination entry is replaced, a directory is not.\<close>

definition os_Rename :: "path \<Rightarrow> path \<Rightarrow> ('z osfs_scheme, unit) act" where
  "os_Rename old new =
     syscall (in_dir old (in_dir new (\<lambda>s. case node_at s old of
         None \<Rightarrow> (Inl ErrNotExist, s)
       | Some Dir \<Rightarrow> (Inl EISDIR, s)
       | Some n \<Rightarrow> if node_at s new = Some Dir then (Inl ErrExist, s)
                   else if old = new then (Inr (), s)
                   else (Inr (), del_node old (set_node new n s)))))"

text \<open>Opening for reading: the content, or, for what is no regular file, a stream that fails.\<close>

definition os_OpenRead :: "path \<Rightarrow> ('z osfs_scheme, readcloser) act" where
  "os_OpenRead p =
     syscall (in_dir p (\<lambda>s. case node_at s p of
         None \<Rightarrow> (Inl ErrNotExist, s)
       | Some (Link _) \<Rightarrow> follow_link s
       | Some (Reg c _) \<Rightarrow> (Inr (nop_closer c), s)
       | Some _ \<Rightarrow> (Inr ((nop_closer [])\<lparr>r_err := Some EISDIR\<rparr>), s)))"

definition os_ReadFile :: "path \<Rightarrow> ('z osfs_scheme, bytes) act" where
  "os_ReadFile p = bnd (os_OpenRead p) (\<lambda>rc. of_result (io_ReadAll rc))"

text \<open>
  \<open>filepath.WalkDir\<close>: the entries below a directory in the order of the walk, a directory before
  what it holds; the error is the one its callback gets for the root.
\<close>

definition os_WalkDir :: "path \<Rightarrow> ('z osfs_scheme, (path \<times> node) list) act" where
  "os_WalkDir p =
     syscall (in_dir p (\<lambda>s. case node_at s p of
         None \<Rightarrow> (Inl ErrNotExist, s)
       | Some n \<Rightarrow> (Inr ((p, n) # sort_key fst (filter (\<lambda>(q, _). take (length p) q = p \<and> length p < length q) (nodes s))), s)))"

text \<open>\<open>_ = f()\<close>: the outcome is dropped.\<close>

definition ignore :: "('b, 'a) act \<Rightarrow> ('b, unit) act" where
  "ignore m = catch (bnd m (\<lambda>_. ret ())) (\<lambda>_. ret ())"

text \<open>\<open>x, err := m\<close>: the outcome as a value.\<close>

definition attempt :: "('b, 'a) act \<Rightarrow> ('b, 'a result) act" where
  "attempt m w = (case m w of (x, w') \<Rightarrow> (Inr x, w'))"

definition time_now :: "('z osfs_scheme, int) act" where
  "time_now w = (Inr (os_now (est w)), w)"

section \<open>The tree under the calls\<close>

lemma node_at_set_node [simp]:
  "node_at (set_node p n s) q = (if q = p \<and> p \<noteq> [] then Some n else node_at s q)"
  by (auto simp: node_at_def set_node_def)

lemma node_at_del_node [simp]:
  "node_at (del_node p s) q = (if q = p \<and> p \<noteq> [] then None else node_at s q)"
  by (auto simp: node_at_def del_node_def)

lemma node_at_control [simp]:
  "node_at (s\<lparr>faults := fs\<rparr>) = node_at s" "node_at (s\<lparr>crashed := c\<rparr>) = node_at s"
  "node_at (s\<lparr>outside := b\<rparr>) = node_at s" "node_at (s\<lparr>wplan := pl\<rparr>) = node_at s"
  by (auto simp: node_at_def)

lemma node_at_Nil [simp]: "node_at s [] = Some Dir"
  by (simp add: node_at_def)

lemma set_node_control [simp]:
  "faults (set_node p n s) = faults s" "crashed (set_node p n s) = crashed s" "outside (set_node p n s) = outside s"
  "wplan (set_node p n s) = wplan s" "os_now (set_node p n s) = os_now s"
  by (simp_all add: set_node_def)

lemma del_node_control [simp]:
  "faults (del_node p s) = faults s" "crashed (del_node p s) = crashed s" "outside (del_node p s) = outside s"
  "wplan (del_node p s) = wplan s" "os_now (del_node p s) = os_now s"
  by (simp_all add: del_node_def)

lemma append_at_control [simp]:
  "faults (append_at p b s) = faults s" "crashed (append_at p b s) = crashed s" "outside (append_at p b s) = outside s"
  "wplan (append_at p b s) = wplan s" "os_now (append_at p b s) = os_now s"
  by (simp_all add: append_at_def split: option.splits node.splits)

lemma node_at_append_at:
  "node_at (append_at p b s) q =
    (case node_at s p of
       Some (Reg c t) \<Rightarrow> (if q = p \<and> b \<noteq> [] then Some (Reg (c @ b) (os_now s)) else node_at s q)
     | _ \<Rightarrow> node_at s q)"
  by (cases "p = []") (auto simp: append_at_def split: option.splits node.splits)

lemma node_at_append_other [simp]: "q \<noteq> p \<Longrightarrow> node_at (append_at p b s) q = node_at s q"
  by (simp add: node_at_append_at split: option.splits node.splits)

lemma dirs_verdict_Clear: "dirs_verdict m qs = Clear \<longleftrightarrow> (\<forall>q \<in> set qs. m q = Some Dir)"
  by (induction qs) (auto split: option.splits node.splits)

lemma dirs_verdict_not_Linked: "(\<And>q t. q \<in> set qs \<Longrightarrow> m q \<noteq> Some (Link t)) \<Longrightarrow> dirs_verdict m qs \<noteq> Linked"
  by (induction qs) (auto split: option.splits node.splits)

lemma set_parents: "set (parents p) = {q. q \<noteq> [] \<and> (\<exists>r. r \<noteq> [] \<and> p = q @ r)}"
proof -
  have "q \<in> set (parents p)" if "q \<noteq> []" "r \<noteq> []" "p = q @ r" for q r
    using that by (auto simp: parents_def image_iff Suc_le_eq intro!: bexI [of _ "length q"])
  moreover have "q \<noteq> [] \<and> (\<exists>r. r \<noteq> [] \<and> p = q @ r)" if "q \<in> set (parents p)" for q
    using that by (auto simp: parents_def) (metis append_take_drop_id drop_eq_Nil not_le)
  ultimately show ?thesis by blast
qed

lemma self_not_parent [simp]: "p \<notin> set (parents p)"
  by (simp add: set_parents)

lemma parents_Nil [simp]: "parents [] = []"
  by (simp add: parents_def)

lemma parents_snoc: "parents (p @ [x]) = (if p = [] then [] else parents p @ [p])"
  by (cases p) (auto simp: parents_def take_Cons' intro!: map_cong)

section \<open>Frames\<close>

text \<open>State properties that do not read the schedules and flags.\<close>

definition control_free :: "('z osfs_scheme \<Rightarrow> bool) \<Rightarrow> bool" where
  "control_free I \<longleftrightarrow> (\<forall>s. I s \<longrightarrow> (\<forall>x. I (s\<lparr>faults := x\<rparr>)) \<and> (\<forall>x. I (s\<lparr>crashed := x\<rparr>)) \<and>
     (\<forall>x. I (s\<lparr>outside := x\<rparr>)) \<and> (\<forall>x. I (s\<lparr>wplan := x\<rparr>)))"

lemma control_free_node_at [simp, intro]: "control_free (\<lambda>s. P (node_at s))"
  by (simp add: control_free_def)

lemma control_free_at [simp, intro]: "control_free (\<lambda>s. node_at s p = v)"
  by (simp add: control_free_def)

lemma keeps_syscall:
  assumes "control_free I" "\<And>s. I s \<Longrightarrow> I (snd (call s))"
  shows "keeps I (syscall call)"
proof (rule keepsI)
  fix w :: "'a osfs_scheme env"
  assume I: "I (est w)"
  show "I (est (snd (syscall call w)))"
  proof (cases "faults (est w)")
    case Nil
    with I assms(2) [OF I] show ?thesis by (cases "call (est w)") (simp add: syscall_def Let_def)
  next
    case (Cons x fs)
    have *: "I ((est w)\<lparr>faults := fs\<rparr>)" "I ((est w)\<lparr>faults := fs, crashed := True\<rparr>)"
      using I assms(1) unfolding control_free_def by blast+
    with I assms(2) [OF *(1)] Cons show ?thesis
      by (cases x; cases "call ((est w)\<lparr>faults := fs\<rparr>)") (simp_all add: syscall_def Let_def)
  qed
qed

lemma in_dir_keeps:
  assumes "control_free I" "\<And>s. I s \<Longrightarrow> I (snd (k s))" "I s"
  shows "I (snd (in_dir p k s))"
  using assms by (auto simp: in_dir_def follow_link_def control_free_def split: verdict.splits)

lemma in_dir_keeps_clear:
  assumes "control_free I" "\<And>s. I s \<Longrightarrow> \<forall>q \<in> set (parents p). node_at s q = Some Dir \<Longrightarrow> I (snd (k s))" "I s"
  shows "I (snd (in_dir p k s))"
  using assms by (auto simp: in_dir_def follow_link_def control_free_def dirs_verdict_Clear split: verdict.splits)

lemma follow_link_keeps: "control_free I \<Longrightarrow> I s \<Longrightarrow> I (snd (follow_link s))"
  by (simp add: follow_link_def control_free_def)

lemma keeps_reads [keeps_intros]:
  assumes "control_free I"
  shows "keeps I (os_Lstat p)" "keeps I (os_Stat p)" "keeps I (os_OpenRead p)" "keeps I (os_WalkDir p)"
    "keeps I (os_Sync p)" "keeps I (os_Close p)"
  unfolding os_Lstat_def os_Stat_def os_OpenRead_def os_WalkDir_def os_Sync_def os_Close_def
  by (rule keeps_syscall [OF assms], (rule in_dir_keeps [OF assms])?,
      auto simp: follow_link_keeps [OF assms] split: option.splits node.splits)+

lemma keeps_os_ReadFile [keeps_intros]: "control_free I \<Longrightarrow> keeps I (os_ReadFile p)"
  unfolding os_ReadFile_def by (intro keeps_intros)

lemma keeps_ignore [keeps_intros]: "keeps I m \<Longrightarrow> keeps I (ignore m)"
  unfolding ignore_def by (intro keeps_intros)

lemma keeps_attempt [keeps_intros]: "keeps I m \<Longrightarrow> keeps I (attempt m)"
  by (auto simp: keeps_def attempt_def split: prod.splits)

lemma keeps_time_now [keeps_intros]: "keeps I time_now"
  by (simp add: keeps_def time_now_def)

text \<open>The calls that change the tree, by what they may change.\<close>

lemma keeps_os_Mkdir:
  assumes "control_free I" "\<And>s. I s \<Longrightarrow> node_at s p = None \<Longrightarrow> I (set_node p Dir s)"
  shows "keeps I (os_Mkdir p)"
  unfolding os_Mkdir_def
  by (rule keeps_syscall [OF assms(1)], rule in_dir_keeps [OF assms(1)])
    (auto simp: assms follow_link_keeps [OF assms(1)] split: option.splits node.splits)

lemma keeps_mkdirs:
  assumes "control_free I" "\<And>p s. p \<in> set ps \<Longrightarrow> I s \<Longrightarrow> node_at s p = None \<Longrightarrow> I (set_node p Dir s)"
  shows "keeps I (mkdirs ps)"
  using assms(2) by (induction ps) (auto intro!: keeps_intros keeps_os_Mkdir [OF assms(1)])

lemma keeps_os_OpenExcl:
  assumes "control_free I" "\<And>s t. I s \<Longrightarrow> node_at s p = None \<Longrightarrow> I (set_node p (Reg [] t) s)"
  shows "keeps I (os_OpenExcl p)"
  unfolding os_OpenExcl_def
  by (rule keeps_syscall [OF assms(1)], rule in_dir_keeps [OF assms(1)])
    (auto simp: assms follow_link_keeps [OF assms(1)] split: option.splits node.splits)

lemma keeps_os_Remove:
  assumes "control_free I" "\<And>s. I s \<Longrightarrow> I (del_node p s)"
  shows "keeps I (os_Remove p)"
  unfolding os_Remove_def
  by (rule keeps_syscall [OF assms(1)], rule in_dir_keeps [OF assms(1)])
    (auto simp: assms follow_link_keeps [OF assms(1)] split: option.splits node.splits)

lemma keeps_os_OpenAppend:
  assumes "control_free I" "\<And>s t. I s \<Longrightarrow> node_at s p = None \<Longrightarrow> I (set_node p (Reg [] t) s)"
  shows "keeps I (os_OpenAppend p)"
  unfolding os_OpenAppend_def
  by (rule keeps_syscall [OF assms(1)], rule in_dir_keeps [OF assms(1)])
    (auto simp: assms follow_link_keeps [OF assms(1)] split: option.splits node.splits)

lemma keeps_os_Rename:
  assumes "control_free I"
    "\<And>s n. I s \<Longrightarrow> node_at s old = Some n \<Longrightarrow> n \<noteq> Dir \<Longrightarrow> old \<noteq> new \<Longrightarrow> node_at s new \<noteq> Some Dir \<Longrightarrow>
      \<forall>q \<in> set (parents new). node_at s q = Some Dir \<Longrightarrow> I (del_node old (set_node new n s))"
  shows "keeps I (os_Rename old new)"
  unfolding os_Rename_def
  by (rule keeps_syscall [OF assms(1)], rule in_dir_keeps [OF assms(1)], rule in_dir_keeps_clear [OF assms(1)])
    (auto simp: assms follow_link_keeps [OF assms(1)] split: option.splits node.splits)

section \<open>Copying into a file\<close>

lemma WriteTo_total: "\<exists>x. fst (WriteTo_loop n r wr w) = Inr x"
proof (induction n r wr w rule: WriteTo_loop.induct)
  case (1 n r wr w)
  then show ?case
    by (subst WriteTo_loop.simps) (auto split: prod.splits sum.splits option.splits)
qed

lemma WriteTo_loop_live:
  "ectx w = Live \<Longrightarrow> w_plan wr = [] \<Longrightarrow> r_err r = None \<Longrightarrow>
    WriteTo_loop n r wr w = (Inr (n + length (r_data r), None, wr\<lparr>w_out := w_out wr @ r_data r\<rparr>), w)"
proof (induction n r wr w rule: WriteTo_loop.induct)
  case (1 n r wr w)
  have c: "ctx_Err w = (Inr (), w)" using "1.prems"(1) by simp
  obtain b eo r' where s: "read_step copyBufSize r = ((b, eo), r')" by (metis prod.collapse)
  have data: "r_data r = b @ r_data r'" and rerr: "r_err r' = r_err r"
    using read_step_data [OF s] read_step_err [OF s] by simp_all
  have w: "write_step b wr = ((length b, None), wr\<lparr>w_out := w_out wr @ b\<rparr>)"
    using "1.prems"(2) by (simp add: write_step_def)
  show ?case
  proof (cases eo)
    case None
    show ?thesis
    proof (cases "b = []")
      case True
      from "1.IH"(1) [OF c [symmetric] refl s [symmetric] refl None True] "1.prems" rerr
      show ?thesis using c s None True data by (subst WriteTo_loop.simps) simp
    next
      case False
      from "1.IH"(2) [OF c [symmetric] refl s [symmetric] refl None False w [symmetric] refl refl] "1.prems" rerr
      show ?thesis using c s None False w data by (subst WriteTo_loop.simps) simp
    qed
  next
    case (Some e)
    then have "e = EOF" "b = []" "r_data r = []"
      using read_step_end [of copyBufSize r b e r'] s "1.prems"(3) by (auto simp: r_data_def)
    then show ?thesis using c s Some by (subst WriteTo_loop.simps) simp
  qed
qed

lemma WriteTo_loop_est: "est (snd (WriteTo_loop n r wr w)) = est w"
proof (induction n r wr w rule: WriteTo_loop.induct)
  case (1 n r wr w)
  then show ?case
    by (subst WriteTo_loop.simps) (auto dest!: ctx_Err_estD split: prod.splits sum.splits option.splits)
qed

lemma os_Copy_est:
  assumes "os_Copy p r w = (x, w')"
  shows "\<exists>b pl. est w' = (append_at p b (est w))\<lparr>wplan := pl\<rparr>"
proof -
  have crash: "\<exists>b pl. s = (append_at p b s)\<lparr>wplan := pl\<rparr>" for s :: "'a osfs_scheme"
    by (auto simp: append_at_def split: option.splits node.splits intro!: exI [of _ "[]"] exI [of _ "wplan s"])
  obtain y w1 where c: "ContextReader_WriteTo r \<lparr>w_out = [], w_plan = wplan (est w)\<rparr> w = (y, w1)" by fastforce
  then have "est w1 = est w"
    using WriteTo_loop_est [of 0 r _ w] unfolding ContextReader_WriteTo_def by (metis snd_conv)
  with assms c crash [of "est w"] show ?thesis
    by (auto simp: os_Copy_def Let_def split: if_splits sum.splits option.splits prod.splits) metis+
qed

text \<open>A reader that fails with something that is not exactly \<open>io.EOF\<close>.\<close>

definition proper_reader :: "reader \<Rightarrow> bool" where
  "proper_reader r \<longleftrightarrow> r_err r \<noteq> Some EOF"

lemma proper_bytes_reader [simp]: "proper_reader (bytes_reader b)"
  by (simp add: proper_reader_def)

lemma clean_proper: "clean_reader r \<Longrightarrow> proper_reader r"
  by (auto simp: clean_reader_def proper_reader_def split: option.splits)

lemma os_Copy_spec:
  assumes "os_Copy p r w = (x, w')" "proper_reader r"
  shows "\<exists>k pl. est w' = (append_at p (take k (r_data r)) (est w))\<lparr>wplan := pl\<rparr> \<and>
    (\<forall>n. x = Inr n \<longrightarrow> \<not> crashed (est w) \<and> k = length (r_data r) \<and> n = length (r_data r) \<and> r_err r = None)"
proof (cases "crashed (est w)")
  case True
  with assms(1) show ?thesis
    by (auto simp: os_Copy_def intro!: exI [of _ 0] exI [of _ "wplan (est w)"]) (simp add: append_at_def split: option.splits node.splits)
next
  case False
  obtain m eo wr w1 where c: "ContextReader_WriteTo r \<lparr>w_out = [], w_plan = wplan (est w)\<rparr> w = (Inr (m, eo, wr), w1)"
    using WriteTo_total [of 0 r "\<lparr>w_out = [], w_plan = wplan (est w)\<rparr>" w]
    unfolding ContextReader_WriteTo_def by (metis prod.collapse)
  have "case r_err r of None \<Rightarrow> True | Some e \<Rightarrow> e \<noteq> EOF"
    using assms(2) by (auto simp: proper_reader_def split: option.splits)
  from WriteTo_loop_out [OF c [unfolded ContextReader_WriteTo_def] this] obtain k where
    k: "est w1 = est w" "k \<le> length (r_data r)" "m = k" "w_out wr = take k (r_data r)"
      "eo = None \<longrightarrow> k = length (r_data r) \<and> r_err r = None"
    by auto
  with assms(1) c False show ?thesis
    by (intro exI [of _ k] exI [of _ "w_plan wr"]) (cases eo; auto simp: os_Copy_def Let_def)
qed

section \<open>A system without faults\<close>

definition healthy :: "'z osfs_scheme \<Rightarrow> bool" where
  "healthy s \<longleftrightarrow> faults s = [] \<and> wplan s = [] \<and> \<not> crashed s"

lemma healthy_simps [simp]:
  "healthy (set_node p n s) = healthy s" "healthy (del_node p s) = healthy s" "healthy (append_at p b s) = healthy s"
  "healthy (s\<lparr>outside := c\<rparr>) = healthy s"
  by (simp_all add: healthy_def)

lemma syscall_healthy:
  "healthy (est w) \<Longrightarrow> syscall call w = (case call (est w) of (x, s') \<Rightarrow> (x, w\<lparr>est := s'\<rparr>))"
  by (simp add: syscall_def healthy_def Let_def)

lemma in_dir_clear: "\<forall>q \<in> set (parents p). node_at s q = Some Dir \<Longrightarrow> in_dir p k s = k s"
  by (simp add: in_dir_def dirs_verdict_Clear [THEN iffD2])

text \<open>Every entry lies in a directory.\<close>

definition rooted :: "'z osfs_scheme \<Rightarrow> bool" where
  "rooted s \<longleftrightarrow> (\<forall>p n. node_at s p = Some n \<longrightarrow> (\<forall>q \<in> set (parents p). node_at s q = Some Dir))"

lemma os_ReadFile_healthy:
  assumes "healthy (est w)" "\<forall>q \<in> set (parents p). node_at (est w) q = Some Dir" "node_at (est w) p = Some (Reg c t)"
  shows "os_ReadFile p w = (Inr c, w)"
  using assms
  by (simp add: os_ReadFile_def os_OpenRead_def bnd_def syscall_healthy in_dir_clear of_result_def io_ReadAll_def nop_closer_def r_data_def)

lemma os_Copy_healthy:
  assumes "healthy (est w)" "ectx w = Live" "r_err r = None"
  shows "os_Copy p r w = (Inr (length (r_data r)), w\<lparr>est := append_at p (r_data r) (est w)\<rparr>)"
  using assms WriteTo_loop_live [of w "\<lparr>w_out = [], w_plan = []\<rparr>" r 0]
  by (simp add: os_Copy_def healthy_def ContextReader_WriteTo_def Let_def)

lemma os_Write_healthy: "healthy (est w) \<Longrightarrow> os_Write p v w = (Inr (), w\<lparr>est := append_at p v (est w)\<rparr>)"
  by (simp add: os_Write_def healthy_def write_step_def Let_def)

lemma os_Mkdir_healthy:
  assumes "healthy (est w)" "\<forall>q \<in> set (parents p). node_at (est w) q = Some Dir"
    "node_at (est w) p = None \<or> node_at (est w) p = Some Dir"
  shows "os_Mkdir p w = (Inr (), w\<lparr>est := (if node_at (est w) p = None then set_node p Dir (est w) else est w)\<rparr>)"
  using assms by (auto simp: os_Mkdir_def syscall_healthy in_dir_clear)

text \<open>\<open>MkdirAll\<close> where nothing but directories is in the way.\<close>

lemma mkdirs_healthy:
  assumes "healthy (est w)" "\<And>q. q \<in> set (parents p) \<union> {p} \<Longrightarrow> node_at (est w) q = None \<or> node_at (est w) q = Some Dir"
  shows "\<exists>s'. os_MkdirAll p w = (Inr (), w\<lparr>est := s'\<rparr>) \<and> healthy s' \<and> outside s' = outside (est w) \<and> os_now s' = os_now (est w) \<and>
    (\<forall>q. node_at s' q = (if q \<in> set (parents p) \<union> {p} then Some Dir else node_at (est w) q))"
  using assms
proof (induction p rule: rev_induct)
  case Nil
  then show ?case by (auto simp: os_MkdirAll_def parents_def ret_def intro!: exI [of _ "est w"])
next
  case (snoc x p)
  have sub: "set (parents p) \<union> {p} \<subseteq> insert [] (set (parents (p @ [x])))"
  proof (cases "p = []")
    case True
    then show ?thesis by (simp add: parents_def)
  next
    case False
    then show ?thesis unfolding parents_snoc by auto
  qed
  have "node_at (est w) q = None \<or> node_at (est w) q = Some Dir" if "q \<in> set (parents p) \<union> {p}" for q
    using snoc.prems(2) [of q] that sub by (cases "q = []") auto
  from snoc.IH [OF snoc.prems(1) this] obtain s' where s': "os_MkdirAll p w = (Inr (), w\<lparr>est := s'\<rparr>)" "healthy s'"
    "outside s' = outside (est w)" "os_now s' = os_now (est w)"
    "\<And>q. node_at s' q = (if q \<in> set (parents p) \<union> {p} then Some Dir else node_at (est w) q)" by blast
  have split: "os_MkdirAll (p @ [x]) w = bnd (os_MkdirAll p) (\<lambda>_. bnd (os_Mkdir (p @ [x])) (\<lambda>_. ret ())) w"
  proof -
    have "mkdirs (qs @ [q]) v = bnd (mkdirs qs) (\<lambda>_. bnd (os_Mkdir q) (\<lambda>_. ret ())) v" for qs q and v :: "'a osfs_scheme env"
      by (induction qs arbitrary: v) (auto simp: bnd_def ret_def split: prod.splits sum.splits)
    then show ?thesis by (simp add: os_MkdirAll_def parents_snoc)
  qed
  have x: "node_at s' (p @ [x]) = None \<or> node_at s' (p @ [x]) = Some Dir"
    using snoc.prems(2) [of "p @ [x]"] s'(5) by auto
  have "os_Mkdir (p @ [x]) (w\<lparr>est := s'\<rparr>) =
      (Inr (), w\<lparr>est := (if node_at s' (p @ [x]) = None then set_node (p @ [x]) Dir s' else s')\<rparr>)"
    using os_Mkdir_healthy [of "w\<lparr>est := s'\<rparr>" "p @ [x]"] s'(2,5) x by (simp add: parents_snoc)
  with split s'(1) have "os_MkdirAll (p @ [x]) w =
      (Inr (), w\<lparr>est := (if node_at s' (p @ [x]) = None then set_node (p @ [x]) Dir s' else s')\<rparr>)"
    by (simp add: bnd_def ret_def)
  moreover have "node_at (if node_at s' (p @ [x]) = None then set_node (p @ [x]) Dir s' else s') q =
      (if q \<in> set (parents (p @ [x])) \<union> {p @ [x]} then Some Dir else node_at (est w) q)" for q
    using s'(5) [of q] x by (cases "q = []") (auto simp: parents_snoc)
  ultimately show ?case using s'(2-4)
    by (intro exI [of _ "if node_at s' (p @ [x]) = None then set_node (p @ [x]) Dir s' else s'"]) simp
qed

end
