(* ===== verification/Go_Strings.thy ===== *)
theory Go_Strings
  imports Cask_Prelude
begin

text \<open>
  The parts of the standard library's \<open>strings\<close> and \<open>strconv\<close> the file-based components use: prefix and
  suffix tests, cutting and splitting at a separator, trimming of white space, lower case (ASCII),
  decimal rendering and parsing of 64-bit integers. The lemmas are the laws the components rely on:
  splitting and joining are inverse to each other, and so are rendering and parsing a number.
\<close>

section \<open>Prefixes, suffixes, membership\<close>

definition HasPrefix :: "string \<Rightarrow> string \<Rightarrow> bool" where
  "HasPrefix s pre \<longleftrightarrow> take (length pre) s = pre"

definition HasSuffix :: "string \<Rightarrow> string \<Rightarrow> bool" where
  "HasSuffix s suf \<longleftrightarrow> length suf \<le> length s \<and> drop (length s - length suf) s = suf"

definition ContainsAny :: "string \<Rightarrow> string \<Rightarrow> bool" where
  "ContainsAny s chars \<longleftrightarrow> list_ex (\<lambda>c. c \<in> set chars) s"

lemma HasPrefix_iff: "HasPrefix s pre \<longleftrightarrow> (\<exists>t. s = pre @ t)"
  by (auto simp: HasPrefix_def) (metis append_take_drop_id)

lemma HasSuffix_iff: "HasSuffix s suf \<longleftrightarrow> (\<exists>t. s = t @ suf)"
  by (auto simp: HasSuffix_def) (metis append_take_drop_id)

section \<open>Cutting and splitting\<close>

fun strings_Cut :: "string \<Rightarrow> string \<Rightarrow> (string \<times> string) option" where
  "strings_Cut [] sep = (if sep = [] then Some ([], []) else None)"
| "strings_Cut (c # s) sep =
     (if HasPrefix (c # s) sep then Some ([], drop (length sep) (c # s))
      else case strings_Cut s sep of None \<Rightarrow> None | Some (a, b) \<Rightarrow> Some (c # a, b))"

lemma strings_Cut_Some: "strings_Cut s sep = Some (a, b) \<Longrightarrow> s = a @ sep @ b"
  by (induction s sep arbitrary: a rule: strings_Cut.induct)
    (auto simp: HasPrefix_iff split: if_splits option.splits)

text \<open>Cutting at the first separator: the part before it contains no character the separator starts with.\<close>

lemma strings_Cut_append:
  "sep \<noteq> [] \<Longrightarrow> hd sep \<notin> set a \<Longrightarrow> strings_Cut (a @ sep @ b) sep = Some (a, b)"
proof (induction a)
  case Nil
  then show ?case by (cases sep) (auto simp: HasPrefix_def)
next
  case (Cons c a)
  have "\<not> HasPrefix (c # a @ sep @ b) sep"
    using Cons.prems by (cases sep) (auto simp: HasPrefix_def)
  with Cons show ?case by simp
qed

lemma strings_Cut_None: "sep \<noteq> [] \<Longrightarrow> hd sep \<notin> set s \<Longrightarrow> strings_Cut s sep = None"
proof (induction s)
  case (Cons c s)
  then have "\<not> HasPrefix (c # s) sep" by (cases sep) (auto simp: HasPrefix_def)
  with Cons show ?case by simp
qed simp

text \<open>\<open>strings.Split\<close> at a one-character separator.\<close>

fun strings_Split :: "char \<Rightarrow> string \<Rightarrow> string list" where
  "strings_Split sep [] = [[]]"
| "strings_Split sep (c # s) =
     (if c = sep then [] # strings_Split sep s
      else case strings_Split sep s of [] \<Rightarrow> [[c]] | p # ps \<Rightarrow> (c # p) # ps)"

fun strings_Join :: "string list \<Rightarrow> char \<Rightarrow> string" where
  "strings_Join [] sep = []"
| "strings_Join [p] sep = p"
| "strings_Join (p # q # ps) sep = p @ sep # strings_Join (q # ps) sep"

lemma strings_Split_ne [simp]: "strings_Split sep s \<noteq> []"
  by (induction sep s rule: strings_Split.induct) (auto split: list.splits)

lemma strings_Join_Cons: "ps \<noteq> [] \<Longrightarrow> strings_Join (p # ps) sep = p @ sep # strings_Join ps sep"
  by (cases ps) auto

lemma strings_Join_Cons_Cons: "strings_Join ((c # p) # ps) sep = c # strings_Join (p # ps) sep"
  by (cases ps) auto

lemma strings_Join_Split [simp]: "strings_Join (strings_Split sep s) sep = s"
  by (induction sep s rule: strings_Split.induct)
    (auto simp: strings_Join_Cons strings_Join_Cons_Cons split: list.splits)

lemma strings_Split_parts: "p \<in> set (strings_Split sep s) \<Longrightarrow> sep \<notin> set p"
  by (induction sep s arbitrary: p rule: strings_Split.induct) (auto split: list.splits if_splits)

lemma strings_Split_single: "sep \<notin> set s \<Longrightarrow> strings_Split sep s = [s]"
  by (induction sep s rule: strings_Split.induct) auto

lemma strings_Split_append: "sep \<notin> set p \<Longrightarrow> strings_Split sep (p @ sep # s) = p # strings_Split sep s"
  by (induction p) auto

lemma strings_Split_sep: "strings_Split sep (a @ sep # b) = strings_Split sep a @ strings_Split sep b"
proof (induction a)
  case (Cons c a)
  then show ?case by (cases "strings_Split sep a") auto
qed simp

lemma strings_Split_Join:
  "ps \<noteq> [] \<Longrightarrow> (\<forall>p \<in> set ps. sep \<notin> set p) \<Longrightarrow> strings_Split sep (strings_Join ps sep) = ps"
  by (induction ps sep rule: strings_Join.induct) (auto simp: strings_Split_single strings_Split_append)

text \<open>\<open>strings.SplitN\<close>: at most \<open>n\<close> parts, the last one unsplit.\<close>

fun strings_SplitN :: "char \<Rightarrow> nat \<Rightarrow> string \<Rightarrow> string list" where
  "strings_SplitN sep 0 s = []"
| "strings_SplitN sep (Suc 0) s = [s]"
| "strings_SplitN sep (Suc (Suc n)) s =
     (case strings_Cut s [sep] of
        None \<Rightarrow> [s]
      | Some (a, b) \<Rightarrow> a # strings_SplitN sep (Suc n) b)"

lemma strings_SplitN_append:
  "sep \<notin> set a \<Longrightarrow> strings_SplitN sep (Suc (Suc n)) (a @ sep # b) = a # strings_SplitN sep (Suc n) b"
  using strings_Cut_append [of "[sep]" a b] by simp

section \<open>White space and case\<close>

definition is_space :: "char \<Rightarrow> bool" where
  "is_space c \<longleftrightarrow> c \<in> {CHR '' '', CHR 0x09, CHR 0x0A, CHR 0x0B, CHR 0x0C, CHR 0x0D}"

definition TrimSpace :: "string \<Rightarrow> string" where
  "TrimSpace s = rev (dropWhile is_space (rev (dropWhile is_space s)))"

lemma dropWhile_space: "s = [] \<or> \<not> is_space (hd s) \<Longrightarrow> dropWhile is_space s = s"
  by (cases s) auto

lemma TrimSpace_newline:
  assumes "s \<noteq> []" "\<not> is_space (hd s)" "\<not> is_space (last s)"
  shows "TrimSpace (s @ [CHR 0x0A]) = s" "TrimSpace s = s"
proof -
  have "dropWhile is_space (s @ [CHR 0x0A]) = s @ [CHR 0x0A]" "dropWhile is_space s = s"
    using assms(1,2) dropWhile_space by auto
  moreover have "dropWhile is_space (rev s) = rev s" using assms(1,3) by (intro dropWhile_space) (simp add: hd_rev)
  moreover have "is_space (CHR 0x0A)" by (simp add: is_space_def)
  ultimately show "TrimSpace (s @ [CHR 0x0A]) = s" "TrimSpace s = s" by (simp_all add: TrimSpace_def)
qed

definition to_lower :: "char \<Rightarrow> char" where
  "to_lower c = (let n = of_char c :: nat in if 65 \<le> n \<and> n \<le> 90 then char_of (n + 32) else c)"

definition ToLower :: "string \<Rightarrow> string" where
  "ToLower s = map to_lower s"

section \<open>Decimal numbers\<close>

definition digit :: "nat \<Rightarrow> char" where
  "digit n = char_of (48 + n)"

fun dec :: "nat \<Rightarrow> string" where
  "dec n = (if n < 10 then [digit n] else dec (n div 10) @ [digit (n mod 10)])"

declare dec.simps [simp del]

definition Itoa :: "int \<Rightarrow> string" where
  "Itoa i = (if i < 0 then CHR ''-'' # dec (nat (- i)) else dec (nat i))"

definition digit_value :: "char \<Rightarrow> nat option" where
  "digit_value c = (let n = of_char c :: nat in if 48 \<le> n \<and> n \<le> 57 then Some (n - 48) else None)"

fun digits_value :: "nat \<Rightarrow> string \<Rightarrow> nat option" where
  "digits_value acc [] = Some acc"
| "digits_value acc (c # s) =
     (case digit_value c of None \<Rightarrow> None | Some v \<Rightarrow> digits_value (acc * 10 + v) s)"

text \<open>\<open>strconv.ParseInt(s, 10, 64)\<close>, and \<open>strconv.Atoi\<close> where \<open>int\<close> has 64 bits.\<close>

definition ParseInt :: "string \<Rightarrow> int option" where
  "ParseInt s =
     (let (neg, rest) = (case s of
          [] \<Rightarrow> (False, [])
        | c # t \<Rightarrow> if c = CHR ''+'' then (False, t) else if c = CHR ''-'' then (True, t) else (False, s)) in
      if rest = [] then None
      else case digits_value 0 rest of
          None \<Rightarrow> None
        | Some n \<Rightarrow>
            if \<not> neg \<and> int n \<ge> 2 ^ 63 then None
            else if neg \<and> int n > 2 ^ 63 then None
            else Some (if neg then - int n else int n))"

lemma digit_value_digit [simp]: "n < 10 \<Longrightarrow> digit_value (digit n) = Some n"
  by (simp add: digit_value_def digit_def)

lemma digits_value_append:
  "digits_value acc (s @ t) = (case digits_value acc s of None \<Rightarrow> None | Some a \<Rightarrow> digits_value a t)"
  by (induction acc s rule: digits_value.induct) (auto split: option.splits)

lemma digits_value_dec: "digits_value 0 (dec n) = Some n"
proof (induction n rule: dec.induct)
  case (1 n)
  show ?case
  proof (cases "n < 10")
    case True
    then show ?thesis by (subst dec.simps) simp
  next
    case False
    with 1 show ?thesis by (subst dec.simps) (simp add: digits_value_append)
  qed
qed

lemma dec_ne [simp]: "dec n \<noteq> []"
  by (subst dec.simps) simp

lemma dec_chars: "c \<in> set (dec n) \<Longrightarrow> digit_value c \<noteq> None"
proof (induction n rule: dec.induct)
  case (1 n)
  then show ?case by (subst (asm) dec.simps) (auto split: if_splits)
qed

lemma digit_value_plain:
  "digit_value c \<noteq> None \<Longrightarrow> c \<noteq> CHR ''+'' \<and> c \<noteq> CHR ''-'' \<and> c \<noteq> CHR 0x09 \<and> c \<noteq> CHR 0x0A \<and> c \<noteq> CHR ''.''"
  by (auto simp: digit_value_def)

lemma dec_hd: "hd (dec n) \<noteq> CHR ''+''" "hd (dec n) \<noteq> CHR ''-''"
  using digit_value_plain [OF dec_chars [of "hd (dec n)" n]] by simp_all

lemma ParseInt_Itoa:
  assumes "- (2 ^ 63) \<le> i" "i < 2 ^ 63"
  shows "ParseInt (Itoa i) = Some i"
proof (cases "i < 0")
  case True
  then show ?thesis using assms by (simp add: ParseInt_def Itoa_def digits_value_dec)
next
  case False
  obtain c t where d: "dec (nat i) = c # t" by (cases "dec (nat i)") simp_all
  with dec_hd [of "nat i"] have "c \<noteq> CHR ''+''" "c \<noteq> CHR ''-''" by simp_all
  moreover have "digits_value 0 (c # t) = Some (nat i)" using digits_value_dec [of "nat i"] d by simp
  moreover have "\<not> 2 ^ 63 \<le> int (nat i)" using assms(2) False by simp
  ultimately show ?thesis using False d by (simp add: ParseInt_def Itoa_def del: digits_value.simps)
qed

lemma Itoa_chars: "c \<in> set (Itoa i) \<Longrightarrow> c \<noteq> CHR 0x09 \<and> c \<noteq> CHR 0x0A \<and> c \<noteq> CHR ''.''"
  using digit_value_plain dec_chars by (fastforce simp: Itoa_def split: if_splits)

end
