(* ===== verification/Atomic_File.thy ===== *)
theory Atomic_File
  imports Os_Files Go_Strings
begin

text \<open>
  \<open>src/cas/internal/atomicfile/atomicfile.go\<close>: the publish that the file backend, the pack manifests
  and the refs share, step by step over the calls of \<open>Os_Files\<close>, with its temporary names and their
  recogniser. The platform is POSIX. A path is the list of its components.

  Shown: whatever call fails and wherever the process dies, the destination holds what it held before or
  the complete new content; a success means the new content (or, where the caller asks for it, an
  existing file); a reported failure leaves the destination alone, except for a failed directory
  synchronisation, which reports an error after the new file is in place; nothing but the
  destination, its temporary files and its directories is touched.
\<close>

record Options =
  Mode :: nat
  SyncDir :: bool
  ExistingIsSuccess :: bool

datatype Phase = PhaseDir | PhaseTemp | PhaseWrite | PhaseSync | PhaseClose | PhasePublish | PhaseDirSync

fun Phase_String :: "Phase \<Rightarrow> string" where
  "Phase_String PhaseDir = ''create directory''"
| "Phase_String PhaseTemp = ''create temp file''"
| "Phase_String PhaseWrite = ''write temp file''"
| "Phase_String PhaseSync = ''sync temp file''"
| "Phase_String PhaseClose = ''close temp file''"
| "Phase_String PhasePublish = ''publish''"
| "Phase_String PhaseDirSync = ''sync directory''"

text \<open>\<open>*atomicfile.Error\<close>: an error that wraps its cause and is recognised by its phase.\<close>

definition phase_error :: "Phase \<Rightarrow> err \<Rightarrow> err" where
  "phase_error ph e = Errorf (Phase_String ph) [e]"

definition phase_named :: "string \<Rightarrow> Phase option" where
  "phase_named m =
     List.find (\<lambda>ph. Phase_String ph = m)
       [PhaseDir, PhaseTemp, PhaseWrite, PhaseSync, PhaseClose, PhasePublish, PhaseDirSync]"

text \<open>\<open>errors.As\<close> over the wrapping chain.\<close>

fun FailedPhase :: "err \<Rightarrow> (Phase \<times> err) option" where
  "FailedPhase (Errorf m es) =
     (case (phase_named m, es) of
        (Some ph, [c]) \<Rightarrow> Some (ph, c)
      | _ \<Rightarrow> foldr (\<lambda>e acc. case FailedPhase e of None \<Rightarrow> acc | Some x \<Rightarrow> Some x) es None)"
| "FailedPhase _ = None"

lemma FailedPhase_error [simp]: "FailedPhase (phase_error ph e) = Some (ph, e)"
  by (cases ph) (simp_all add: phase_named_def phase_error_def)

lemma phase_named_String [simp]: "phase_named (Phase_String ph) = Some ph"
  by (cases ph) (simp_all add: phase_named_def)

section \<open>Temporary names\<close>

definition temp_suffix :: "nat \<Rightarrow> string" where
  "temp_suffix i = (if i = 0 then ''.tmp'' else ''.tmp.'' @ dec i)"

definition temp_name :: "path \<Rightarrow> nat \<Rightarrow> path" where
  "temp_name p i = butlast p @ [last p @ temp_suffix i]"

definition IsTempFile :: "string \<Rightarrow> bool" where
  "IsTempFile name =
     (case strings_Cut name ''.tmp'' of
        None \<Rightarrow> False
      | Some (_, rest) \<Rightarrow>
          if rest = [] then True
          else if hd rest \<noteq> CHR ''.'' then False
          else ParseInt (tl rest) \<noteq> None)"

function createTemp_from :: "path \<Rightarrow> nat \<Rightarrow> ('z osfs_scheme, path) act" where
  "createTemp_from p i =
     (if i < 10000
      then catch (bnd (os_OpenExcl (temp_name p i)) (\<lambda>_. ret (temp_name p i)))
             (\<lambda>e. if errors_Is e ErrExist then createTemp_from p (Suc i) else fail e)
      else fail (ErrorsNew ''temp name exhausted''))"
  by pat_completeness auto
termination
  by (relation "measure (\<lambda>(p, i). 10000 - i)") auto

declare createTemp_from.simps [simp del]

definition createTemp :: "path \<Rightarrow> ('z osfs_scheme, path) act" where
  "createTemp p = createTemp_from p 0"

section \<open>Publish\<close>

definition at_phase :: "Phase \<Rightarrow> ('b, 'a) act \<Rightarrow> ('b, 'a) act" where
  "at_phase ph m = catch m (\<lambda>e. fail (phase_error ph e))"

text \<open>\<open>if err := m; err != nil { cleanup; return err }\<close>\<close>

definition or_else :: "('b, 'a) act \<Rightarrow> ('b, unit) act \<Rightarrow> ('b, 'a) act" where
  "or_else m cleanup = catch m (\<lambda>e. bnd cleanup (\<lambda>_. fail e))"

definition discard :: "path \<Rightarrow> ('z osfs_scheme, unit) act" where
  "discard tmp = bnd (ignore (os_Close tmp)) (\<lambda>_. ignore (os_Remove tmp))"

definition SyncParentDir :: "path \<Rightarrow> ('z osfs_scheme, unit) act" where
  "SyncParentDir p =
     bnd (os_OpenRead (butlast p)) (\<lambda>_.
     bnd (or_else (os_Sync (butlast p)) (ignore (os_Close (butlast p)))) (\<lambda>_.
       ignore (os_Close (butlast p))))"

text \<open>The rename, and the rule for a destination that already holds a regular file.\<close>

definition publish_rename :: "Options \<Rightarrow> path \<Rightarrow> path \<Rightarrow> ('z osfs_scheme, bool) act" where
  "publish_rename opts tmp p =
     catch (bnd (os_Rename tmp p) (\<lambda>_. ret True))
       (\<lambda>e. bnd (if ExistingIsSuccess opts
                 then catch (bnd (os_Stat p) (\<lambda>n. ret (case n of Reg _ _ \<Rightarrow> True | _ \<Rightarrow> False))) (\<lambda>_. ret False)
                 else ret False)
            (\<lambda>existing. bnd (ignore (os_Remove tmp))
            (\<lambda>_. if existing then ret False else fail (phase_error PhasePublish e))))"

text \<open>Everything before the rename: directory, temporary file, content, synchronisation, close.\<close>

definition publish_fill :: "path \<Rightarrow> reader \<Rightarrow> ('z osfs_scheme, path) act" where
  "publish_fill p r =
     bnd ctx_Err (\<lambda>_.
     bnd (at_phase PhaseDir (os_MkdirAll (butlast p))) (\<lambda>_.
     bnd ctx_Err (\<lambda>_.
     bnd (at_phase PhaseTemp (createTemp p)) (\<lambda>tmp.
     bnd (or_else (at_phase PhaseWrite (os_Copy tmp r)) (discard tmp)) (\<lambda>_.
     bnd (or_else (at_phase PhaseSync (os_Sync tmp)) (discard tmp)) (\<lambda>_.
     bnd (or_else (at_phase PhaseClose (os_Close tmp)) (ignore (os_Remove tmp))) (\<lambda>_.
     bnd (or_else ctx_Err (ignore (os_Remove tmp))) (\<lambda>_.
       ret tmp))))))))"

definition Publish :: "path \<Rightarrow> reader \<Rightarrow> Options \<Rightarrow> ('z osfs_scheme, unit) act" where
  "Publish p r opts =
     bnd (publish_fill p r) (\<lambda>tmp.
     bnd (publish_rename opts tmp p) (\<lambda>renamed.
       if renamed \<and> SyncDir opts then at_phase PhaseDirSync (SyncParentDir p) else ret ()))"

section \<open>Names\<close>

lemma temp_name_ne [simp]: "temp_name p i \<noteq> []" "p \<noteq> [] \<Longrightarrow> temp_name p i \<noteq> p"
proof -
  show "temp_name p i \<noteq> []" by (simp add: temp_name_def)
  assume "p \<noteq> []"
  then have "p = butlast p @ [last p]" by simp
  then show "temp_name p i \<noteq> p" by (metis append1_eq_conv append_self_conv temp_name_def temp_suffix_def list.distinct(1) append_is_Nil_conv)
qed

text \<open>The names the publish creates are the names the predicate recognises, where the base has no dot.\<close>

lemma IsTempFile_temp: "CHR ''.'' \<notin> set name \<Longrightarrow> i < 2 ^ 63 \<Longrightarrow> IsTempFile (name @ temp_suffix i)"
  using strings_Cut_append [of "''.tmp''" name "[]"] strings_Cut_append [of "''.tmp''" name "CHR ''.'' # dec i"]
    ParseInt_Itoa [of "int i"]
  by (simp add: IsTempFile_def temp_suffix_def Itoa_def)

lemma IsTempFile_plain: "CHR ''.'' \<notin> set name \<Longrightarrow> \<not> IsTempFile name"
  using strings_Cut_None [of "''.tmp''" name] by (simp add: IsTempFile_def)

section \<open>What a publish may touch\<close>

lemma keeps_at_phase [keeps_intros]: "keeps I m \<Longrightarrow> keeps I (at_phase ph m)"
  unfolding at_phase_def by (intro keeps_intros)

lemma keeps_or_else [keeps_intros]: "keeps I m \<Longrightarrow> keeps I c \<Longrightarrow> keeps I (or_else m c)"
  unfolding or_else_def by (intro keeps_intros)

lemma or_else_ok [simp]: "or_else m c w = (Inr x, w') \<longleftrightarrow> m w = (Inr x, w')"
  by (auto simp: or_else_def catch_def bnd_def fail_def split: prod.splits sum.splits)

lemma at_phase_ok [simp]: "at_phase ph m w = (Inr x, w') \<longleftrightarrow> m w = (Inr x, w')"
  by (auto simp: at_phase_def catch_def fail_def split: prod.splits sum.splits)

lemma keeps_bnd_P:
  assumes "keeps I m" "\<And>w x w'. m w = (Inr x, w') \<Longrightarrow> P x" "\<And>x. P x \<Longrightarrow> keeps I (f x)"
  shows "keeps I (bnd m f)"
proof (rule keepsI)
  fix w :: "'a env"
  assume I: "I (est w)"
  obtain x w' where m: "m w = (x, w')" by fastforce
  have "I (est w')" using keepsD [OF assms(1) m I] .
  with m assms(2,3) show "I (est (snd (bnd m f w)))"
    by (cases x) (auto simp: keeps_def)
qed

lemma createTemp_from_name: "createTemp_from p i w = (Inr tmp, w') \<Longrightarrow> \<exists>j. tmp = temp_name p j"
proof (induction p i arbitrary: w rule: createTemp_from.induct)
  case (1 p i)
  then show ?case
    by (subst (asm) (2) createTemp_from.simps)
      (auto simp: catch_def bnd_def ret_def fail_def split: if_splits prod.splits sum.splits)
qed

lemma keeps_createTemp_from:
  assumes "\<And>i. keeps I (os_OpenExcl (temp_name p i))"
  shows "keeps I (createTemp_from p i)"
proof (induction "10000 - i" arbitrary: i rule: less_induct)
  case less
  show ?case
  proof (cases "i < 10000")
    case True
    then have "keeps I (createTemp_from p (Suc i))" by (intro less) simp
    with True assms show ?thesis
      by (subst createTemp_from.simps) (simp add: keeps_intros)
  next
    case False
    then show ?thesis by (subst createTemp_from.simps) (simp add: keeps_intros)
  qed
qed

lemma keeps_os_Copy:
  assumes "control_free I" "\<And>s c t b. I s \<Longrightarrow> node_at s p = Some (Reg c t) \<Longrightarrow> I (set_node p (Reg (c @ b) (os_now s)) s)"
  shows "keeps I (os_Copy p r)"
proof (rule keepsI)
  fix w :: "'a osfs_scheme env"
  assume I: "I (est w)"
  obtain x w' where c: "os_Copy p r w = (x, w')" by fastforce
  from os_Copy_est [OF c] obtain b pl where e: "est w' = (append_at p b (est w))\<lparr>wplan := pl\<rparr>" by blast
  have "I (append_at p b (est w))"
    using I assms(2) by (auto simp: append_at_def split: option.splits node.splits)
  with assms(1) e c show "I (est (snd (os_Copy p r w)))" by (simp add: control_free_def)
qed

lemma keeps_os_Write:
  assumes "control_free I" "\<And>st c t b. I st \<Longrightarrow> node_at st p = Some (Reg c t) \<Longrightarrow> I (set_node p (Reg (c @ b) (os_now st)) st)"
  shows "keeps I (os_Write p data)"
proof (rule keepsI)
  fix w :: "'a osfs_scheme env"
  assume "I (est w)"
  then have "I (append_at p b (est w))" for b
    using assms(2) by (auto simp: append_at_def split: option.splits node.splits)
  then show "I (est (snd (os_Write p data w)))"
    using \<open>I (est w)\<close> assms(1) by (auto simp: os_Write_def Let_def control_free_def split: prod.splits option.splits)
qed

text \<open>
  A state property survives a publish when it survives a new directory on the way, a new or longer
  temporary file, the removal of one, and the replacement of the destination by one.
\<close>

lemma keeps_publish_fill:
  assumes "control_free I" "p \<noteq> []"
    and mk: "\<And>q s. q \<in> set (parents p) \<Longrightarrow> I s \<Longrightarrow> node_at s q = None \<Longrightarrow> I (set_node q Dir s)"
    and new: "\<And>i t s. I s \<Longrightarrow> node_at s (temp_name p i) = None \<Longrightarrow> I (set_node (temp_name p i) (Reg [] t) s)"
    and grow: "\<And>i c b t s. I s \<Longrightarrow> node_at s (temp_name p i) = Some (Reg c t) \<Longrightarrow>
      I (set_node (temp_name p i) (Reg (c @ b) (os_now s)) s)"
    and del: "\<And>i s. I s \<Longrightarrow> I (del_node (temp_name p i) s)"
  shows "keeps I (publish_fill p r)"
proof -
  have "set (if butlast p = [] then [] else parents (butlast p) @ [butlast p]) \<subseteq> set (parents p)"
    using parents_snoc [of "butlast p" "last p"] assms(2) by simp
  then have dirs: "keeps I (os_MkdirAll (butlast p))"
    unfolding os_MkdirAll_def using mk by (intro keeps_mkdirs [OF assms(1)]) blast
  have temp: "keeps I (createTemp p)"
    unfolding createTemp_def by (intro keeps_createTemp_from keeps_os_OpenExcl [OF assms(1)] new)
  have "keeps I (bnd (or_else (at_phase PhaseWrite (os_Copy tmp r)) (discard tmp)) (\<lambda>_.
     bnd (or_else (at_phase PhaseSync (os_Sync tmp)) (discard tmp)) (\<lambda>_.
     bnd (or_else (at_phase PhaseClose (os_Close tmp)) (ignore (os_Remove tmp))) (\<lambda>_.
     bnd (or_else ctx_Err (ignore (os_Remove tmp))) (\<lambda>_. ret tmp)))))"
    if "\<exists>i. tmp = temp_name p i" for tmp
  proof -
    have "keeps I (os_Remove tmp)" "keeps I (os_Copy tmp r)"
      using that by (auto intro!: keeps_os_Remove keeps_os_Copy assms)
    then show ?thesis unfolding discard_def by (intro keeps_intros assms(1))
  qed
  note rest = keeps_bnd_P [OF keeps_at_phase [OF temp], where P = "\<lambda>tmp. \<exists>i. tmp = temp_name p i", OF _ this]
  show ?thesis
    unfolding publish_fill_def
    by (rule keeps_bnd [OF keeps_ctx_Err], rule keeps_bnd [OF keeps_at_phase [OF dirs]],
        rule keeps_bnd [OF keeps_ctx_Err], rule rest)
      (auto simp: createTemp_def dest: createTemp_from_name)
qed

lemma keeps_publish_rename:
  assumes "control_free I" "\<And>s. I s \<Longrightarrow> I (del_node tmp s)"
    and "\<And>n s. I s \<Longrightarrow> node_at s tmp = Some n \<Longrightarrow> n \<noteq> Dir \<Longrightarrow> tmp \<noteq> p \<Longrightarrow> node_at s p \<noteq> Some Dir \<Longrightarrow>
      \<forall>q \<in> set (parents p). node_at s q = Some Dir \<Longrightarrow> I (del_node tmp (set_node p n s))"
  shows "keeps I (publish_rename opts tmp p)"
proof -
  have "keeps I (os_Rename tmp p)" "keeps I (os_Remove tmp)"
    using assms by (auto intro!: keeps_os_Rename keeps_os_Remove)
  then show ?thesis
    unfolding publish_rename_def by (intro keeps_intros assms(1))
qed

lemma keeps_Publish:
  assumes "control_free I" "p \<noteq> []"
    and mk: "\<And>q s. q \<in> set (parents p) \<Longrightarrow> I s \<Longrightarrow> node_at s q = None \<Longrightarrow> I (set_node q Dir s)"
    and new: "\<And>i t s. I s \<Longrightarrow> node_at s (temp_name p i) = None \<Longrightarrow> I (set_node (temp_name p i) (Reg [] t) s)"
    and grow: "\<And>i c b t s. I s \<Longrightarrow> node_at s (temp_name p i) = Some (Reg c t) \<Longrightarrow>
      I (set_node (temp_name p i) (Reg (c @ b) (os_now s)) s)"
    and del: "\<And>i s. I s \<Longrightarrow> I (del_node (temp_name p i) s)"
    and ren: "\<And>i n s. I s \<Longrightarrow> node_at s (temp_name p i) = Some n \<Longrightarrow> n \<noteq> Dir \<Longrightarrow> node_at s p \<noteq> Some Dir \<Longrightarrow>
      \<forall>q \<in> set (parents p). node_at s q = Some Dir \<Longrightarrow> I (del_node (temp_name p i) (set_node p n s))"
  shows "keeps I (Publish p r opts)"
proof -
  have name: "\<exists>i. tmp = temp_name p i" if "publish_fill p r w = (Inr tmp, w')" for tmp w and w' :: "'a osfs_scheme env"
    using that by (auto simp: publish_fill_def bnd_ok createTemp_def dest: createTemp_from_name)
  have "keeps I (bnd (publish_rename opts tmp p) (\<lambda>renamed.
      if renamed \<and> SyncDir opts then at_phase PhaseDirSync (SyncParentDir p) else ret ()))"
    if "\<exists>i. tmp = temp_name p i" for tmp
    using that del ren unfolding SyncParentDir_def
    by (intro keeps_intros keeps_publish_rename assms(1)) auto
  with keeps_publish_fill [OF assms(1,2) mk new grow del] name show ?thesis
    unfolding Publish_def by (rule keeps_bnd_P)
qed

section \<open>What a publish does\<close>

lemma syscall_ok:
  assumes "syscall call w = (Inr x, w')"
  obtains fs where "call ((est w)\<lparr>faults := fs\<rparr>) = (Inr x, est w')" "ectx w' = ectx w"
proof (cases "faults (est w)")
  case Nil
  then have "(est w)\<lparr>faults := []\<rparr> = est w" by simp
  with Nil assms that [of "[]"] show thesis
    by (auto simp: syscall_def Let_def split: if_splits prod.splits)
next
  case (Cons f fs)
  with assms that [of fs] show thesis
    by (cases f) (auto simp: syscall_def Let_def split: if_splits prod.splits)
qed

lemma in_dir_ok: "in_dir p k s = (Inr x, s') \<Longrightarrow> k s = (Inr x, s')"
  by (auto simp: in_dir_def follow_link_def split: verdict.splits)

lemma os_OpenExcl_ok:
  assumes "os_OpenExcl p w = (Inr u, w')" "p \<noteq> []"
  shows "\<exists>t. node_at (est w') p = Some (Reg [] t)"
proof -
  from assms(1) obtain fs where "in_dir p (\<lambda>s. case node_at s p of
      None \<Rightarrow> (Inr (), set_node p (Reg [] (os_now s)) s) | Some _ \<Rightarrow> (Inl ErrExist, s)) ((est w)\<lparr>faults := fs\<rparr>) = (Inr u, est w')"
    unfolding os_OpenExcl_def by (rule syscall_ok)
  from in_dir_ok [OF this] have "est w' = set_node p (Reg [] (os_now (est w))) ((est w)\<lparr>faults := fs\<rparr>)"
    by (simp split: option.splits)
  with assms(2) show ?thesis by simp
qed

lemma os_Write_ok:
  assumes "os_Write p data w = (Inr (), w')" "node_at (est w) p = Some (Reg c t)" "p \<noteq> []"
  shows "\<exists>t'. node_at (est w') p = Some (Reg (c @ data) t')"
proof -
  obtain n eo wr where s: "write_step data \<lparr>w_out = [], w_plan = wplan (est w)\<rparr> = ((n, eo), wr)" by (metis prod.collapse)
  with assms(1) have "eo = None" "\<not> n < length data" and w': "est w' = (append_at p (w_out wr) (est w))\<lparr>wplan := w_plan wr\<rparr>"
    by (auto simp: os_Write_def Let_def split: if_splits option.splits)
  moreover have "w_out wr = data" using write_step_out [OF s] \<open>\<not> n < length data\<close> by simp
  ultimately show ?thesis using assms(2,3) by (auto simp: append_at_def node_at_append_at)
qed

lemma createTemp_from_ok: "createTemp_from p i w = (Inr tmp, w') \<Longrightarrow> \<exists>t. node_at (est w') tmp = Some (Reg [] t)"
proof (induction p i arbitrary: w rule: createTemp_from.induct)
  case (1 p i)
  show ?case
  proof (cases "os_OpenExcl (temp_name p i) w")
    case (Pair x w1)
    show ?thesis
    proof (cases x)
      case (Inl e)
      with "1.prems" Pair have "i < 10000" "errors_Is e ErrExist" "createTemp_from p (Suc i) w1 = (Inr tmp, w')"
        by (subst (asm) createTemp_from.simps, auto simp: catch_def bnd_def fail_def split: if_splits)+
      then show ?thesis using "1.IH" by blast
    next
      case (Inr u)
      with "1.prems" Pair have "tmp = temp_name p i" "w' = w1"
        by (subst (asm) createTemp_from.simps, auto simp: catch_def bnd_def fail_def ret_def split: if_splits)+
      then show ?thesis using os_OpenExcl_ok [of "temp_name p i" w u w1] Pair Inr by simp
    qed
  qed
qed

lemma publish_fill_ok:
  assumes "publish_fill p r w = (Inr tmp, w')" "proper_reader r"
  shows "(\<exists>i. tmp = temp_name p i) \<and> (\<exists>t. node_at (est w') tmp = Some (Reg (r_data r) t)) \<and> r_err r = None"
proof -
  from assms(1) obtain w1 w2 w3 w4 w5 n u where
    t: "createTemp_from p 0 w1 = (Inr tmp, w2)" and c: "os_Copy tmp r w2 = (Inr n, w3)"
    and s: "os_Sync tmp w3 = (Inr u, w4)" "os_Close tmp w4 = (Inr u, w5)" "ctx_Err w5 = (Inr u, w')"
    by (auto simp: publish_fill_def bnd_ok createTemp_def)
  obtain t where e: "node_at (est w2) tmp = Some (Reg [] t)" using createTemp_from_ok [OF t] by blast
  from os_Copy_spec [OF c assms(2)] obtain pl where
    "est w3 = (append_at tmp (r_data r) (est w2))\<lparr>wplan := pl\<rparr>" "r_err r = None" by auto
  with e have "\<exists>t. node_at (est w3) tmp = Some (Reg (r_data r) t)" and re: "r_err r = None"
    by (auto simp: node_at_append_at)
  then obtain t' where "node_at (est w3) tmp = Some (Reg (r_data r) t')" by blast
  then have "node_at (est w4) tmp = Some (Reg (r_data r) t')"
    using keepsD [OF keeps_reads(5) s(1), of "\<lambda>st. node_at st tmp = Some (Reg (r_data r) t')"] by auto
  then have "node_at (est w5) tmp = Some (Reg (r_data r) t')"
    using keepsD [OF keeps_reads(6) s(2), of "\<lambda>st. node_at st tmp = Some (Reg (r_data r) t')"] by auto
  then have "node_at (est w') tmp = Some (Reg (r_data r) t')" using ctx_Err_estD [OF s(3)] by simp
  with createTemp_from_name [OF t] re show ?thesis by blast
qed

lemma syscall_cases:
  assumes "syscall call w = (x, w')"
  obtains (run) fs where "(x, est w') = call ((est w)\<lparr>faults := fs\<rparr>)"
  | (stop) e where "x = Inl e" "nodes (est w') = nodes (est w)"
proof (cases "crashed (est w)")
  case True
  with assms stop [of ECRASH] show thesis by (auto simp: syscall_def)
next
  case False
  show thesis
  proof (cases "faults (est w)")
    case Nil
    then have "(est w)\<lparr>faults := []\<rparr> = est w" by simp
    with Nil False assms run [of "[]"] show thesis by (auto simp: syscall_def Let_def split: prod.splits)
  next
    case (Cons f fs)
    with False assms run [of fs] stop show thesis
      by (cases f) (auto simp: syscall_def Let_def split: prod.splits)
  qed
qed

lemma node_at_nodes: "nodes s = nodes s' \<Longrightarrow> node_at s = node_at s'"
  by (simp add: node_at_def fun_eq_iff)

definition rename_call :: "path \<Rightarrow> path \<Rightarrow> 'z osfs_scheme \<Rightarrow> unit result \<times> 'z osfs_scheme" where
  "rename_call old new = in_dir old (in_dir new (\<lambda>s. case node_at s old of
         None \<Rightarrow> (Inl ErrNotExist, s)
       | Some Dir \<Rightarrow> (Inl EISDIR, s)
       | Some n \<Rightarrow> if node_at s new = Some Dir then (Inl ErrExist, s)
                   else if old = new then (Inr (), s)
                   else (Inr (), del_node old (set_node new n s))))"

lemma rename_call_cases:
  assumes "tmp \<noteq> p" "p \<noteq> []"
  shows "case rename_call tmp p s of
      (Inr u, s') \<Rightarrow> (\<exists>n. node_at s tmp = Some n \<and> node_at s' p = Some n)
    | (Inl e, s') \<Rightarrow> node_at s' = node_at s"
  using assms
  by (auto simp: rename_call_def in_dir_def follow_link_def split: verdict.splits option.splits node.splits)

lemma os_Rename_cases:
  assumes "os_Rename tmp p w = (x, w')" "tmp \<noteq> p" "p \<noteq> []"
  shows "case x of
      Inr u \<Rightarrow> (\<exists>n. node_at (est w) tmp = Some n \<and> node_at (est w') p = Some n)
    | Inl e \<Rightarrow> node_at (est w') = node_at (est w)"
  using assms(1) unfolding os_Rename_def rename_call_def [symmetric]
proof (cases rule: syscall_cases)
  case (run fs)
  show ?thesis
    using rename_call_cases [OF assms(2,3), of "(est w)\<lparr>faults := fs\<rparr>", folded run]
    by (simp split: sum.splits)
next
  case (stop e)
  then show ?thesis using node_at_nodes [OF stop(2)] by simp
qed

text \<open>The destination through each part of a publish, for any outcome of any call.\<close>

lemma temp_parents: "temp_name p i \<notin> set (parents p)"
proof
  assume "temp_name p i \<in> set (parents p)"
  then obtain r where r: "r \<noteq> []" "p = temp_name p i @ r" by (auto simp: set_parents)
  then have "length (temp_name p i) < length p" by (metis length_append length_greater_0_conv less_add_same_cancel1)
  with r show False by (cases "p = []") (auto simp: temp_name_def)
qed

lemma parents_temp: "p \<noteq> [] \<Longrightarrow> parents (temp_name p i) = parents p"
  using parents_snoc [of "butlast p" "last p"] parents_snoc [of "butlast p" "last p @ temp_suffix i"]
  by (simp add: temp_name_def)

lemma parents_self: "p \<notin> set (parents p)"
  by (auto simp: set_parents)

lemma publish_fill_dest:
  assumes "p \<noteq> []"
  shows "keeps (\<lambda>s. node_at s p = d) (publish_fill p r)"
  by (rule keeps_publish_fill [OF control_free_at assms])
    (use assms temp_name_ne(2) [OF assms, symmetric] parents_self [of p] in auto)

lemma keeps_os_Remove_other: "p \<noteq> q \<Longrightarrow> keeps (\<lambda>s. node_at s p = d) (os_Remove q)"
  by (rule keeps_os_Remove [OF control_free_at]) auto

lemma os_Stat_ok: "os_Stat p w = (Inr n, w') \<Longrightarrow> node_at (est w) p = Some n \<and> node_at (est w') = node_at (est w)"
proof -
  assume "os_Stat p w = (Inr n, w')"
  then obtain fs where "in_dir p (\<lambda>s. case node_at s p of
         None \<Rightarrow> (Inl ErrNotExist, s)
       | Some (Link _) \<Rightarrow> follow_link s
       | Some n \<Rightarrow> (Inr n, s)) ((est w)\<lparr>faults := fs\<rparr>) = (Inr n, est w')"
    unfolding os_Stat_def by (rule syscall_ok)
  note in_dir_ok [OF this]
  then have "node_at (est w) p = Some n \<and> est w' = (est w)\<lparr>faults := fs\<rparr>"
    by (auto simp: follow_link_def split: option.splits node.splits)
  then show ?thesis by simp
qed

lemma stat_regular:
  assumes "catch (bnd (os_Stat p) (\<lambda>n. ret (case n of Reg _ _ \<Rightarrow> True | _ \<Rightarrow> False))) (\<lambda>_. ret False) w = (b, w')"
  shows "\<exists>b'. b = Inr b' \<and> (b' \<longrightarrow> (\<exists>c t. node_at (est w) p = Some (Reg c t)))"
proof (cases "os_Stat p w")
  case (Pair m w1)
  show ?thesis
  proof (cases m)
    case (Inl e)
    with assms Pair show ?thesis by (auto simp: catch_def bnd_def ret_def)
  next
    case (Inr n)
    with os_Stat_ok [of p w n w1] Pair have "node_at (est w) p = Some n" by simp
    with assms Pair Inr show ?thesis by (cases n) (auto simp: catch_def bnd_def ret_def)
  qed
qed

lemma publish_rename_cases:
  assumes "publish_rename opts tmp p w = (x, w')" "tmp \<noteq> p" "p \<noteq> []" "node_at (est w) tmp = Some n"
  shows "(x = Inr True \<and> node_at (est w') p = Some n)
    \<or> (x = Inr False \<and> node_at (est w') p = node_at (est w) p \<and> ExistingIsSuccess opts
        \<and> (\<exists>c t. node_at (est w) p = Some (Reg c t)))
    \<or> (\<exists>c. x = Inl (phase_error PhasePublish c) \<and> node_at (est w') p = node_at (est w) p)"
proof (cases "os_Rename tmp p w")
  case (Pair y w1)
  note ren = os_Rename_cases [OF Pair assms(2,3)]
  show ?thesis
  proof (cases y)
    case (Inr u)
    with assms(1,4) ren Pair show ?thesis by (auto simp: publish_rename_def catch_def bnd_def ret_def)
  next
    case (Inl e)
    define check :: "('a osfs_scheme, bool) act" where
      "check = (if ExistingIsSuccess opts
         then catch (bnd (os_Stat p) (\<lambda>n. ret (case n of Reg _ _ \<Rightarrow> True | _ \<Rightarrow> False))) (\<lambda>_. ret False)
         else ret False)"
    have "keeps (\<lambda>s. node_at s p = node_at (est w) p) check"
      unfolding check_def by (intro keeps_intros control_free_at)
    moreover obtain b w2 where c: "check w1 = (b, w2)" by fastforce
    ultimately have at2: "node_at (est w2) p = node_at (est w) p" using ren Inl by (auto dest: keepsD)
    have bok: "\<exists>b'. b = Inr b' \<and> (b' \<longrightarrow> ExistingIsSuccess opts \<and> (\<exists>c t. node_at (est w) p = Some (Reg c t)))"
    proof (cases "ExistingIsSuccess opts")
      case True
      with c stat_regular [of p w1 b w2] ren Inl show ?thesis by (simp add: check_def)
    next
      case False
      with c show ?thesis by (auto simp: check_def ret_def)
    qed
    obtain b' where b': "b = Inr b'" "b' \<longrightarrow> ExistingIsSuccess opts \<and> (\<exists>c t. node_at (est w) p = Some (Reg c t))"
      using bok by blast
    obtain z w4 where r: "ignore (os_Remove tmp) w2 = (z, w4)" by fastforce
    have "node_at (est w4) p = node_at (est w) p"
      by (rule keepsD [OF keeps_ignore [OF keeps_os_Remove_other [OF assms(2) [symmetric]]] r at2])
    moreover have "publish_rename opts tmp p w = (if b' then (Inr False, w4) else (Inl (phase_error PhasePublish e), w4))"
      using Pair Inl c b' r unfolding publish_rename_def check_def [symmetric]
      by (auto simp: catch_def bnd_def ret_def fail_def ignore_def split: sum.splits prod.splits)
    ultimately show ?thesis using assms(1) b' by (auto split: if_splits)
  qed
qed

lemma at_phase_err: "at_phase ph m w = (x, w') \<Longrightarrow> case x of Inr _ \<Rightarrow> True | Inl e \<Rightarrow> (\<exists>c. e = phase_error ph c)"
  by (auto simp: at_phase_def catch_def fail_def split: prod.splits sum.splits)

text \<open>The whole publish.\<close>

lemma SyncParentDir_dest: "keeps (\<lambda>s. node_at s p = d) (SyncParentDir q)"
  unfolding SyncParentDir_def by (intro keeps_intros control_free_at)

lemma Publish_cases:
  assumes "Publish p r opts w = (x, w')" "proper_reader r" "p \<noteq> []"
  shows "(node_at (est w') p = node_at (est w) p \<and>
           (case x of Inr _ \<Rightarrow> r_err r = None \<and> ExistingIsSuccess opts \<and> (\<exists>c t. node_at (est w) p = Some (Reg c t))
            | Inl e \<Rightarrow> True))
    \<or> ((\<exists>t. node_at (est w') p = Some (Reg (r_data r) t)) \<and> r_err r = None \<and>
           (case x of Inr _ \<Rightarrow> True | Inl e \<Rightarrow> SyncDir opts \<and> (\<exists>c. e = phase_error PhaseDirSync c)))"
proof (cases "publish_fill p r w")
  case (Pair y w1)
  have d1: "node_at (est w1) p = node_at (est w) p"
    by (rule keepsD [OF publish_fill_dest [OF assms(3)] Pair refl])
  show ?thesis
  proof (cases y)
    case (Inl e)
    with Pair assms(1) d1 show ?thesis by (auto simp: Publish_def bnd_def)
  next
    case (Inr tmp)
    with publish_fill_ok [of p r w tmp w1] Pair assms(2) obtain i t where
      tmp: "tmp = temp_name p i" "node_at (est w1) tmp = Some (Reg (r_data r) t)" "r_err r = None" by blast
    obtain z w2 where ren: "publish_rename opts tmp p w1 = (z, w2)" by fastforce
    have ne: "tmp \<noteq> p" using tmp(1) assms(3) by simp
    define rest :: "bool \<Rightarrow> ('a osfs_scheme, unit) act" where
      "rest = (\<lambda>renamed. if renamed \<and> SyncDir opts then at_phase PhaseDirSync (SyncParentDir p) else ret ())"
    have whole: "Publish p r opts w = (case z of Inl e \<Rightarrow> (Inl e, w2) | Inr b \<Rightarrow> rest b w2)"
      using Pair Inr ren by (auto simp: Publish_def rest_def bnd_def split: sum.splits)
    have last: "node_at (est w') p = node_at (est w2) p \<and>
        (case x of Inr _ \<Rightarrow> True | Inl e \<Rightarrow> SyncDir opts \<and> (\<exists>c. e = phase_error PhaseDirSync c))"
      if "rest True w2 = (x, w')"
    proof (cases "SyncDir opts")
      case True
      then have s: "at_phase PhaseDirSync (SyncParentDir p) w2 = (x, w')" using that by (simp add: rest_def)
      show ?thesis using True keepsD [OF keeps_at_phase [OF SyncParentDir_dest] s refl] at_phase_err [OF s]
        by (auto split: sum.splits)
    next
      case False
      with that show ?thesis by (auto simp: rest_def ret_def)
    qed
    show ?thesis
      using publish_rename_cases [OF ren ne assms(3) tmp(2)] whole assms(1) last d1 tmp(3)
      by (auto simp: rest_def ret_def)
  qed
qed

section \<open>A publish on a system without faults\<close>

lemma createTemp_from_healthy:
  assumes "healthy (est w)" "\<forall>q \<in> set (parents p). node_at (est w) q = Some Dir" "p \<noteq> []"
    and "j < 10000" "node_at (est w) (temp_name p j) = None" "\<forall>k. i \<le> k \<and> k < j \<longrightarrow> node_at (est w) (temp_name p k) \<noteq> None"
  shows "i \<le> j \<Longrightarrow> createTemp_from p i w =
    (Inr (temp_name p j), w\<lparr>est := set_node (temp_name p j) (Reg [] (os_now (est w))) (est w)\<rparr>)"
  using assms(6)
proof (induction "j - i" arbitrary: i)
  case 0
  then have "os_OpenExcl (temp_name p j) w =
      (Inr (), w\<lparr>est := set_node (temp_name p j) (Reg [] (os_now (est w))) (est w)\<rparr>)"
    using assms(1,2,3,5) by (simp add: os_OpenExcl_def syscall_healthy in_dir_clear parents_temp)
  with 0 assms(4) show ?case by (subst createTemp_from.simps) (simp add: catch_def bnd_def ret_def)
next
  case (Suc n)
  then have "i < j" by simp
  then have "node_at (est w) (temp_name p i) \<noteq> None" using Suc.prems by blast
  then have "os_OpenExcl (temp_name p i) w = (Inl ErrExist, w)"
    using assms(1,2,3) by (auto simp: os_OpenExcl_def syscall_healthy in_dir_clear parents_temp)
  moreover have "createTemp_from p (Suc i) w = (Inr (temp_name p j), w\<lparr>est := set_node (temp_name p j) (Reg [] (os_now (est w))) (est w)\<rparr>)"
    using Suc \<open>i < j\<close> by (intro Suc.hyps) auto
  ultimately show ?case using \<open>i < j\<close> assms(4) by (subst createTemp_from.simps) (simp add: catch_def bnd_def errors_Is_refl)
qed

lemma ok_steps:
  assumes "healthy (est w)"
  shows "os_Sync q w = (Inr (), w)" "os_Close q w = (Inr (), w)"
  using assms by (simp_all add: os_Sync_def os_Close_def syscall_healthy)

lemma publish_fill_healthy:
  assumes "healthy (est w)" "ectx w = Live" "r_err r = None" "p \<noteq> []"
    and dirs: "\<And>q. q \<in> set (parents p) \<Longrightarrow> node_at (est w) q = None \<or> node_at (est w) q = Some Dir"
    and temp: "\<exists>i < 10000. node_at (est w) (temp_name p i) = None"
  shows "\<exists>i s'. publish_fill p r w = (Inr (temp_name p i), w\<lparr>est := s'\<rparr>) \<and> healthy s' \<and>
    outside s' = outside (est w) \<and> os_now s' = os_now (est w) \<and> node_at (est w) (temp_name p i) = None \<and>
    (\<forall>q. node_at s' q =
       (if q = temp_name p i then Some (Reg (r_data r) (os_now (est w)))
        else if q \<in> set (parents p) then Some Dir else node_at (est w) q))"
proof -
  have up: "set (parents p) = set (parents (butlast p)) \<union> (if butlast p = [] then {} else {butlast p})"
    using parents_snoc [of "butlast p" "last p"] assms(4) by auto
  have "node_at (est w) q = None \<or> node_at (est w) q = Some Dir" if "q \<in> set (parents (butlast p)) \<union> {butlast p}" for q
    using dirs [of q] that up by (cases "butlast p = []") auto
  from mkdirs_healthy [OF assms(1) this] obtain s1 where
    mk: "os_MkdirAll (butlast p) w = (Inr (), w\<lparr>est := s1\<rparr>)" "healthy s1" "outside s1 = outside (est w)"
      "os_now s1 = os_now (est w)"
    and at1: "\<And>q. node_at s1 q = (if q \<in> set (parents (butlast p)) \<union> {butlast p} then Some Dir else node_at (est w) q)"
    by blast
  have at1': "node_at s1 q = (if q \<in> set (parents p) then Some Dir else node_at (est w) q)" for q
    using at1 [of q] up by auto
  define j where "j = (LEAST i. node_at (est w) (temp_name p i) = None)"
  have j: "node_at (est w) (temp_name p j) = None" "j < 10000" "\<forall>k < j. node_at (est w) (temp_name p k) \<noteq> None"
    using temp unfolding j_def by (auto intro: LeastI_ex dest: not_less_Least intro: le_less_trans [OF Least_le])
  have "createTemp p (w\<lparr>est := s1\<rparr>) =
      (Inr (temp_name p j), w\<lparr>est := set_node (temp_name p j) (Reg [] (os_now s1)) s1\<rparr>)"
    unfolding createTemp_def using createTemp_from_healthy [of "w\<lparr>est := s1\<rparr>" p j 0] mk(2) at1' j assms(4)
    by (simp add: temp_parents)
  moreover define s2 where "s2 = set_node (temp_name p j) (Reg [] (os_now s1)) s1"
  moreover have "os_Copy (temp_name p j) r (w\<lparr>est := s2\<rparr>) =
      (Inr (length (r_data r)), w\<lparr>est := append_at (temp_name p j) (r_data r) s2\<rparr>)"
    using os_Copy_healthy [of "w\<lparr>est := s2\<rparr>" r] mk(2) assms(2,3) by (simp add: s2_def)
  moreover define s3 where "s3 = append_at (temp_name p j) (r_data r) s2"
  moreover have h3: "healthy s3" using mk(2) by (simp add: s3_def s2_def)
  ultimately have "publish_fill p r w = (Inr (temp_name p j), w\<lparr>est := s3\<rparr>)"
    using mk(1) assms(2) ok_steps [of "w\<lparr>est := s3\<rparr>"]
    by (simp add: publish_fill_def bnd_def at_phase_def or_else_def catch_def ret_def)
  moreover have "node_at s3 q = (if q = temp_name p j then Some (Reg (r_data r) (os_now (est w)))
      else if q \<in> set (parents p) then Some Dir else node_at (est w) q)" for q
    using at1' [of q] mk(4) by (auto simp: s3_def s2_def node_at_append_at)
  ultimately show ?thesis
    using h3 mk(3,4) j(1) by (intro exI [of _ j] exI [of _ s3]) (simp add: s3_def s2_def)
qed

lemma Publish_healthy:
  assumes "healthy (est w)" "ectx w = Live" "r_err r = None" "p \<noteq> []"
    and "\<And>q. q \<in> set (parents p) \<Longrightarrow> node_at (est w) q = None \<or> node_at (est w) q = Some Dir"
    and "\<exists>i < 10000. node_at (est w) (temp_name p i) = None" "node_at (est w) p \<noteq> Some Dir"
  shows "\<exists>s'. Publish p r opts w = (Inr (), w\<lparr>est := s'\<rparr>) \<and> healthy s' \<and>
    outside s' = outside (est w) \<and> os_now s' = os_now (est w) \<and>
    (\<forall>q. node_at s' q = (if q = p then Some (Reg (r_data r) (os_now (est w)))
       else if q \<in> set (parents p) then Some Dir else node_at (est w) q))"
proof -
  from publish_fill_healthy [OF assms(1-6)] obtain i s1 where
    fill: "publish_fill p r w = (Inr (temp_name p i), w\<lparr>est := s1\<rparr>)" "healthy s1" "outside s1 = outside (est w)"
      "os_now s1 = os_now (est w)" "node_at (est w) (temp_name p i) = None"
    and at1: "\<And>q. node_at s1 q = (if q = temp_name p i then Some (Reg (r_data r) (os_now (est w)))
        else if q \<in> set (parents p) then Some Dir else node_at (est w) q)" by blast
  have ne: "temp_name p i \<noteq> p" using assms(4) by simp
  define s2 where "s2 = del_node (temp_name p i) (set_node p (Reg (r_data r) (os_now (est w))) s1)"
  have dirs: "\<forall>q \<in> set (parents p). node_at s1 q = Some Dir"
    using at1 temp_parents [of p i] by auto
  have p1: "node_at s1 p \<noteq> Some Dir" using at1 [of p] ne assms(7) by auto
  have "os_Rename (temp_name p i) p (w\<lparr>est := s1\<rparr>) = (Inr (), w\<lparr>est := s2\<rparr>)"
    using fill(2) ne p1 dirs assms(4) at1 [of "temp_name p i"]
    by (simp add: os_Rename_def syscall_healthy in_dir_clear parents_temp s2_def)
  then have "publish_rename opts (temp_name p i) p (w\<lparr>est := s1\<rparr>) = (Inr True, w\<lparr>est := s2\<rparr>)"
    by (simp add: publish_rename_def catch_def bnd_def ret_def)
  moreover have h2: "healthy s2" using fill(2) by (simp add: s2_def)
  moreover have at2: "node_at s2 q = (if q = p then Some (Reg (r_data r) (os_now (est w)))
       else if q \<in> set (parents p) then Some Dir else node_at (est w) q)" for q
    using at1 [of q] ne assms(4) fill(5) temp_parents [of p i] by (auto simp: s2_def)
  moreover have "SyncParentDir p (w\<lparr>est := s2\<rparr>) = (Inr (), w\<lparr>est := s2\<rparr>)"
  proof -
    have up: "set (parents p) = set (parents (butlast p)) \<union> (if butlast p = [] then {} else {butlast p})"
      using parents_snoc [of "butlast p" "last p"] assms(4) by auto
    have "node_at s2 q = Some Dir" if "q \<in> set (parents p)" for q
      using that at2 [of q] by auto
    then have "node_at s2 (butlast p) = Some Dir" "\<forall>q \<in> set (parents (butlast p)). node_at s2 q = Some Dir"
      using up by (cases "butlast p = []"; auto)+
    then show ?thesis
      using h2 ok_steps [of "w\<lparr>est := s2\<rparr>"]
      by (simp add: SyncParentDir_def bnd_def os_OpenRead_def syscall_healthy in_dir_clear or_else_def ignore_def catch_def ret_def)
  qed
  ultimately have "Publish p r opts w = (Inr (), w\<lparr>est := s2\<rparr>)"
    using fill(1) by (simp add: Publish_def bnd_def at_phase_def catch_def ret_def)
  with h2 at2 fill(3,4) show ?thesis
    by (intro exI [of _ s2]) (simp add: s2_def)
qed

section \<open>The contract\<close>

lemma Publish_frame:
  assumes "p \<noteq> []" "q \<noteq> p" "q \<notin> set (parents p)" "\<forall>i. q \<noteq> temp_name p i"
  shows "keeps (\<lambda>s. node_at s q = d) (Publish p r opts)"
  by (rule keeps_Publish [OF control_free_at assms(1)]) (use assms(2-) in auto)

text \<open>
  C9: For every schedule of failing calls, for a crash at any call and a cancellation at any check, a
  publish leaves at the destination what was there before or the complete content of a stream that
  ended without an error. Success means the complete content, or, when the caller accepts one, a
  regular file that was already there. A reported failure means the destination is untouched, with one
  exception: a failed synchronisation of the directory is reported after the new file is in place.
  Nothing but the destination, its directories and its temporary files is touched.
\<close>

theorem publish_atomic:
  assumes "proper_reader r" "p \<noteq> []"
  shows "case Publish p r opts w of (x, w') \<Rightarrow>
      (node_at (est w') p = node_at (est w) p \<and>
         (x = Inr () \<longrightarrow> r_err r = None \<and> ExistingIsSuccess opts \<and> (\<exists>c t. node_at (est w) p = Some (Reg c t)))
       \<or> r_err r = None \<and> (\<exists>t. node_at (est w') p = Some (Reg (r_data r) t)) \<and>
         (\<forall>e. x = Inl e \<longrightarrow> SyncDir opts \<and> (\<exists>c. e = phase_error PhaseDirSync c)))
      \<and> (\<forall>q. q \<noteq> p \<and> q \<notin> set (parents p) \<and> (\<forall>i. q \<noteq> temp_name p i) \<longrightarrow>
           node_at (est w') q = node_at (est w) q)"
proof (cases "Publish p r opts w")
  case (Pair x w')
  have "node_at (est w') q = node_at (est w) q"
    if "q \<noteq> p" "q \<notin> set (parents p)" "\<forall>i. q \<noteq> temp_name p i" for q
    by (rule keepsD [OF Publish_frame [OF assms(2) that] Pair refl])
  with Publish_cases [OF Pair assms] Pair show ?thesis by (cases x) auto
qed

definition demo_reader :: reader where
  "demo_reader = \<lparr>r_chunks = [[2], [3]], r_err = None, r_len = None\<rparr>"

definition demo_options :: Options where
  "demo_options = \<lparr>Mode = 420, SyncDir = True, ExistingIsSuccess = False\<rparr>"

definition publish_demo :: "fault list \<Rightarrow> osfs env" where
  "publish_demo fs =
     \<lparr>ectx = Live, est = \<lparr>nodes = [([''f''], Reg [1] 0)], os_now = 9, faults = fs, wplan = [], crashed = False, outside = False\<rparr>\<rparr>"

theorem publish_atomic_witness:
  "case Publish [''f''] demo_reader demo_options
      (publish_demo [Go, Go, Go, Crash]) of (x, w') \<Rightarrow>
     node_at (est w') [''f''] = node_at (est (publish_demo [])) [''f'']
     \<or> (\<exists>t. node_at (est w') [''f''] = Some (Reg [2, 3] t))"
  using publish_atomic [where r = demo_reader and p = "[''f'']" and opts = demo_options and w = "publish_demo [Go, Go, Go, Crash]"]
  by (auto simp: proper_reader_def demo_reader_def publish_demo_def node_at_def r_data_def)

text \<open>The exception is real: the new file is there and the caller gets an error.\<close>

lemma createTemp_hit: "os_OpenExcl (temp_name p 0) w = (Inr u, w') \<Longrightarrow> createTemp p w = (Inr (temp_name p 0), w')"
  unfolding createTemp_def by (subst createTemp_from.simps) (simp add: catch_def bnd_def ret_def)

lemma publish_fill_demo:
  "publish_fill [''f''] demo_reader (publish_demo (Go # Go # Go # fs)) =
     (Inr [''f.tmp''], (publish_demo fs)\<lparr>est := set_node [''f.tmp''] (Reg [2, 3] 9) (est (publish_demo fs))\<rparr>)"
proof -
  let ?w = "\<lambda>c fs. (publish_demo fs)\<lparr>est := set_node [''f.tmp''] (Reg c 9) (est (publish_demo fs))\<rparr>"
  have t: "temp_name [''f''] 0 = [''f.tmp'']" by (simp add: temp_name_def temp_suffix_def)
  have "os_OpenExcl [''f.tmp''] (publish_demo (Go # Go # Go # fs)) = (Inr (), ?w [] (Go # Go # fs))"
    by (simp add: os_OpenExcl_def syscall_def Let_def publish_demo_def in_dir_def parents_def node_at_def set_node_def)
  then have "createTemp [''f''] (publish_demo (Go # Go # Go # fs)) = (Inr [''f.tmp''], ?w [] (Go # Go # fs))"
    using createTemp_hit [of "[''f'']"] t by simp
  moreover have "os_Copy [''f.tmp''] demo_reader (?w [] (Go # Go # fs)) = (Inr 2, ?w [2, 3] (Go # Go # fs))"
    using WriteTo_loop_live [of "?w [] (Go # Go # fs)" "\<lparr>w_out = [], w_plan = []\<rparr>" demo_reader 0]
    by (simp add: os_Copy_def ContextReader_WriteTo_def publish_demo_def demo_reader_def r_data_def append_at_def set_node_def)
      (simp add: node_at_def set_node_def)
  ultimately show ?thesis
    by (simp add: publish_fill_def at_phase_def or_else_def catch_def bnd_def ret_def os_MkdirAll_def os_Sync_def os_Close_def
        syscall_def Let_def publish_demo_def set_node_def)
qed

lemma publish_dir_sync_failure:
  "case Publish [''f''] demo_reader demo_options (publish_demo [Go, Go, Go, Go, Go, Fail (ErrorsNew ''EIO'')]) of (x, w') \<Rightarrow>
     x = Inl (phase_error PhaseDirSync (ErrorsNew ''EIO'')) \<and> node_at (est w') [''f''] = Some (Reg [2, 3] 9)"
proof -
  have "publish_rename demo_options [''f.tmp''] [''f'']
      ((publish_demo (Go # fs))\<lparr>est := set_node [''f.tmp''] (Reg [2, 3] 9) (est (publish_demo (Go # fs)))\<rparr>) =
    (Inr True, (publish_demo fs)\<lparr>est := set_node [''f''] (Reg [2, 3] 9) (est (publish_demo fs))\<rparr>)" for fs
    by (simp add: publish_rename_def catch_def bnd_def ret_def os_Rename_def syscall_def Let_def publish_demo_def in_dir_def
        parents_def node_at_def set_node_def del_node_def)
  then show ?thesis
    by (simp add: Publish_def publish_fill_demo bnd_def)
      (simp add: demo_options_def at_phase_def catch_def SyncParentDir_def bnd_def os_OpenRead_def or_else_def os_Sync_def
        os_Close_def ignore_def syscall_def Let_def publish_demo_def in_dir_def set_node_def node_at_def ret_def fail_def)
qed

end
