(* ===== verification/Fs_Policy.thy ===== *)
theory Fs_Policy
  imports Atomic_File Cas_Backend
begin

text \<open>
  \<open>src/cas/backend/fs/policy.go\<close>: which base paths a store accepts, the check of the entries on the
  way to a path inside the base, and the sweep of temporary files, over the calls of \<open>Os_Files\<close>. The
  platform is POSIX, so a path has no volume name. A path inside the tree is the list of its
  components; \<open>filepath.Clean\<close> is modelled on strings, where the rule for a base is decided.

  Shown: an accepted base cleans to a path with at least one component and no \<open>..\<close>; a checked chain
  has no symbolic link and nothing but directories on the way; the sweep removes nothing but
  temporary files and, without an age limit, all of them.
\<close>

section \<open>Base paths\<close>

text \<open>\<open>filepath.Clean\<close>: the components from left to right, the cleaned ones reversed.\<close>

fun clean_parts :: "bool \<Rightarrow> string list \<Rightarrow> string list \<Rightarrow> string list" where
  "clean_parts absolute out [] = rev out"
| "clean_parts absolute out (p # ps) =
     (if p = '''' \<or> p = ''.'' then clean_parts absolute out ps
      else if p = ''..'' then
        (case out of
           [] \<Rightarrow> clean_parts absolute (if absolute then [] else [''..'']) ps
         | q # out' \<Rightarrow> if q = ''..'' then clean_parts absolute (''..'' # out) ps else clean_parts absolute out' ps)
      else clean_parts absolute (p # out) ps)"

definition path_parts :: "string \<Rightarrow> string list" where
  "path_parts s = clean_parts (HasPrefix s ''/'') [] (strings_Split (CHR ''/'') s)"

definition filepath_Clean :: "string \<Rightarrow> string" where
  "filepath_Clean s =
     (if HasPrefix s ''/'' then ''/'' @ strings_Join (path_parts s) (CHR ''/'')
      else if path_parts s = [] then ''.'' else strings_Join (path_parts s) (CHR ''/''))"

text \<open>
  \<open>filepath.Join\<close> of a directory and a name: the two are put together with a slash, without one for an empty directory, and cleaned, so
  a \<open>..\<close> in the name climbs. A join of more than two elements puts the later ones together with slashes first.
\<close>

definition filepath_Join :: "string \<Rightarrow> string \<Rightarrow> string" where
  "filepath_Join dir name = filepath_Clean (if dir = '''' then name else dir @ ''/'' @ name)"

text \<open>The last test of the function, for a volume root, repeats the first two where there are no volumes.\<close>

definition ValidateBase :: "string \<Rightarrow> unit result" where
  "ValidateBase b =
     (if TrimSpace b = '''' then Inl (ErrorsNew ''cas: empty store base'')
      else
        (let clean = filepath_Clean b in
         if clean = ''.'' \<or> clean = ''/'' then Inl (ErrorsNew ''cas: store base is not a writable repo directory'')
         else if clean = ''..'' \<or> HasPrefix clean ''../'' then Inl (ErrorsNew ''cas: store base is a parent-traversal path'')
         else if clean = '''' then Inl (ErrorsNew ''cas: store base is a volume root, not a repo directory'')
         else Inr ()))"

definition EnsureBase :: "string \<Rightarrow> ('z osfs_scheme, unit) act" where
  "EnsureBase b =
     bnd ctx_Err (\<lambda>_.
     bnd (of_result (ValidateBase b)) (\<lambda>_.
     bnd (catch (os_MkdirAll (path_parts b)) (\<lambda>e. fail (Errorf ''cas: create store base'' [e]))) (\<lambda>_.
       ctx_Err)))"

section \<open>The chain of entries\<close>

definition ErrUnsafeTarget :: err where
  "ErrUnsafeTarget = ErrorsNew ''cas: unsafe store path''"

fun chain_loop :: "path \<Rightarrow> path \<Rightarrow> bool \<Rightarrow> ('z osfs_scheme, unit) act" where
  "chain_loop cur [] wantDir = ret ()"
| "chain_loop cur (c # rest) wantDir =
     bnd (attempt (os_Lstat (cur @ [c]))) (\<lambda>r.
       case r of
         Inl e \<Rightarrow> if errors_Is e ErrNotExist then ret () else fail (Errorf ''cas: stat store path'' [e])
       | Inr (Link t) \<Rightarrow> fail (Errorf (''is a symbolic link to '' @ t) [ErrUnsafeTarget])
       | Inr n \<Rightarrow>
           if (rest \<noteq> [] \<or> wantDir) \<and> n \<noteq> Dir then fail (Errorf ''is not a directory'' [ErrUnsafeTarget])
           else chain_loop (cur @ [c]) rest wantDir)"

definition validateChain :: "path \<Rightarrow> path \<Rightarrow> bool \<Rightarrow> ('z osfs_scheme, unit) act" where
  "validateChain b p wantDir =
     (if take (length b) p \<noteq> b then fail (Errorf ''is outside the store base'' [ErrUnsafeTarget])
      else if p = b then fail (Errorf ''is the store base itself'' [ErrUnsafeTarget])
      else chain_loop b (drop (length b) p) wantDir)"

definition ValidateDir :: "path \<Rightarrow> path \<Rightarrow> ('z osfs_scheme, unit) act" where
  "ValidateDir b dir = validateChain b dir True"

definition ValidateFile :: "path \<Rightarrow> path \<Rightarrow> ('z osfs_scheme, unit) act" where
  "ValidateFile b p = validateChain b p False"

section \<open>The sweep of temporary files\<close>

text \<open>The modification time; only a regular file carries one in the model.\<close>

fun node_ModTime :: "node \<Rightarrow> int" where
  "node_ModTime (Reg _ t) = t"
| "node_ModTime _ = 0"

text \<open>The walk callback over the entries: the count of removed files and the error the walk ends with.\<close>

fun clean_loop :: "int \<Rightarrow> int \<Rightarrow> (path \<times> node) list \<Rightarrow> nat \<Rightarrow> ('z osfs_scheme, nat \<times> err option) act" where
  "clean_loop olderThan cutoff [] removed = ret (removed, None)"
| "clean_loop olderThan cutoff ((q, n) # es) removed =
     bnd (attempt ctx_Err) (\<lambda>c. case c of Inl e \<Rightarrow> ret (removed, Some e) | Inr _ \<Rightarrow>
       if n = Dir \<or> \<not> IsTempFile (last q) then clean_loop olderThan cutoff es removed
       else
         bnd (attempt (if olderThan > 0 then bnd (os_Lstat q) (\<lambda>fi. ret (node_ModTime fi > cutoff)) else ret False)) (\<lambda>y.
           case y of
             Inl e \<Rightarrow> ret (removed, Some e)
           | Inr young \<Rightarrow>
               if young then clean_loop olderThan cutoff es removed
               else
                 bnd (attempt (os_Remove q)) (\<lambda>r.
                   case r of
                     Inr _ \<Rightarrow> clean_loop olderThan cutoff es (removed + 1)
                   | Inl e \<Rightarrow>
                       if errors_Is e ErrNotExist then clean_loop olderThan cutoff es removed
                       else ret (removed, Some e))))"

definition cleanTemp :: "path \<Rightarrow> int \<Rightarrow> ('z osfs_scheme, nat \<times> err option) act" where
  "cleanTemp root olderThan =
     bnd ctx_Err (\<lambda>_.
     bnd time_now (\<lambda>now.
     bnd (attempt (os_WalkDir root)) (\<lambda>walk.
     bnd (case walk of
            Inr es \<Rightarrow> clean_loop olderThan (now - olderThan) es 0
          | Inl e \<Rightarrow> bnd (attempt ctx_Err) (\<lambda>c. ret (0,
              case c of Inl ce \<Rightarrow> Some ce | Inr _ \<Rightarrow> if errors_Is e ErrNotExist then None else Some e)))
       (\<lambda>(removed, eo).
         case eo of
           None \<Rightarrow> ret (removed, None)
         | Some e \<Rightarrow>
             if errors_Is e ErrNotExist then ret (removed, None)
             else ret (removed, Some (Errorf ''cas: clean'' [e]))))))"

definition CleanTemp :: "string \<Rightarrow> int \<Rightarrow> ('z osfs_scheme, nat \<times> err option) act" where
  "CleanTemp root olderThan =
     bnd ctx_Err (\<lambda>_. bnd (of_result (ValidateBase root)) (\<lambda>_. cleanTemp (path_parts root) olderThan))"

definition CleanupTemp :: "string \<Rightarrow> ('z osfs_scheme, unit) act" where
  "CleanupTemp b =
     bnd (CleanTemp b 0) (\<lambda>(_, eo). case eo of None \<Rightarrow> ret () | Some e \<Rightarrow> fail e)"

section \<open>What an accepted base is\<close>

definition ups_then_plain :: "bool \<Rightarrow> string list \<Rightarrow> bool" where
  "ups_then_plain absolute out \<longleftrightarrow>
     (\<exists>k ns. out = ns @ replicate k ''..'' \<and> set ns \<inter> {'''', ''.'', ''..''} = {} \<and> (absolute \<longrightarrow> k = 0))"

lemma ups_then_plain_up:
  assumes "ups_then_plain absolute out"
  shows "case out of
      [] \<Rightarrow> ups_then_plain absolute (if absolute then [] else [''..''])
    | q # out' \<Rightarrow> ups_then_plain absolute (if q = ''..'' then ''..'' # out else out')"
proof -
  from assms obtain k ns where o: "out = ns @ replicate k ''..''" "set ns \<inter> {'''', ''.'', ''..''} = {}" "absolute \<longrightarrow> k = 0"
    by (auto simp: ups_then_plain_def)
  show ?thesis
  proof (cases ns)
    case Nil
    with o have "ups_then_plain absolute (''..'' # out)" if "\<not> absolute"
      using that unfolding ups_then_plain_def by (intro exI [of _ "Suc k"] exI [of _ "[]"]) simp
    moreover have "ups_then_plain absolute []" by (simp add: ups_then_plain_def)
    ultimately show ?thesis using Nil o by (cases k) auto
  next
    case (Cons q ns')
    with o have "ups_then_plain absolute (ns' @ replicate k ''..'')"
      unfolding ups_then_plain_def by (intro exI [of _ k] exI [of _ ns']) auto
    with Cons o show ?thesis by auto
  qed
qed

lemma clean_parts_plain: "ups_then_plain absolute out \<Longrightarrow> ups_then_plain absolute (rev (clean_parts absolute out ps))"
proof (induction absolute out ps rule: clean_parts.induct)
  case (2 absolute out p ps)
  have push: "ups_then_plain absolute (p # out)" if "p \<notin> {'''', ''.'', ''..''}"
  proof -
    from 2(6) obtain k ns where "out = ns @ replicate k ''..''" "set ns \<inter> {'''', ''.'', ''..''} = {}" "absolute \<longrightarrow> k = 0"
      by (auto simp: ups_then_plain_def)
    with that show ?thesis unfolding ups_then_plain_def by (intro exI [of _ k] exI [of _ "p # ns"]) simp
  qed
  show ?case
    using 2 push ups_then_plain_up [OF 2(6)] by (auto split: list.splits if_splits)
qed simp

lemma path_parts_plain:
  obtains k ns where "path_parts b = replicate k ''..'' @ ns" "set ns \<inter> {'''', ''.'', ''..''} = {}" "HasPrefix b ''/'' \<longrightarrow> k = 0"
proof -
  have "ups_then_plain (HasPrefix b ''/'') (rev (path_parts b))"
    unfolding path_parts_def by (rule clean_parts_plain) (simp add: ups_then_plain_def)
  then obtain k ns where "rev (path_parts b) = ns @ replicate k ''..''" "set ns \<inter> {'''', ''.'', ''..''} = {}" "HasPrefix b ''/'' \<longrightarrow> k = 0"
    by (auto simp: ups_then_plain_def)
  then show thesis using that [of k "rev ns"] by (simp add: rev_swap)
qed

lemma clean_parts_append: "clean_parts ab out (ps @ qs) = clean_parts ab (rev (clean_parts ab out ps)) qs"
  by (induction ab out ps rule: clean_parts.induct) (auto split: list.splits)

lemma clean_parts_names:
  "set ns \<inter> {'''', ''.'', ''..''} = {} \<Longrightarrow> clean_parts ab out ns = rev out @ ns"
  by (induction ns arbitrary: out) auto

lemma clean_parts_ups: "clean_parts False (replicate j ''..'') (replicate k ''..'') = replicate (j + k) ''..''"
proof (induction k arbitrary: j)
  case (Suc k)
  from Suc.IH [of "Suc j"] show ?case by (cases j) auto
qed simp

lemma clean_parts_clean:
  assumes "set ns \<inter> {'''', ''.'', ''..''} = {}" "ab \<longrightarrow> k = 0"
  shows "clean_parts ab [] (replicate k ''..'' @ ns) = replicate k ''..'' @ ns"
proof (cases ab)
  case True
  with assms show ?thesis by (simp add: clean_parts_names)
next
  case False
  with assms clean_parts_ups [of 0 k] show ?thesis by (simp add: clean_parts_append clean_parts_names)
qed

lemma clean_parts_subset: "set (clean_parts ab out ps) \<subseteq> set out \<union> set ps \<union> {''..''}"
  by (induction ab out ps rule: clean_parts.induct) (auto split: list.splits if_splits)

lemma path_parts_no_slash: "p \<in> set (path_parts s) \<Longrightarrow> CHR ''/'' \<notin> set p"
  using clean_parts_subset [of "HasPrefix s ''/''" "[]" "strings_Split (CHR ''/'') s"] strings_Split_parts [of p "CHR ''/''" s]
  by (auto simp: path_parts_def)

lemma HasPrefix_Clean: "HasPrefix (filepath_Clean s) ''/'' = HasPrefix s ''/''"
proof (cases "HasPrefix s ''/''")
  case True
  then show ?thesis by (simp add: filepath_Clean_def HasPrefix_def)
next
  case rel: False
  show ?thesis
  proof (cases "path_parts s")
    case Nil
    with rel show ?thesis by (simp add: filepath_Clean_def HasPrefix_def)
  next
    case (Cons x xs)
    obtain k ns where p: "path_parts s = replicate k ''..'' @ ns" "set ns \<inter> {'''', ''.'', ''..''} = {}" "HasPrefix s ''/'' \<longrightarrow> k = 0"
      by (rule path_parts_plain)
    have "x \<in> set (path_parts s)" using Cons by simp
    then have "x \<noteq> ''''" "CHR ''/'' \<notin> set x" using p(1,2) path_parts_no_slash [of x s] by (auto simp: disjoint_iff)
    then have "\<not> HasPrefix (strings_Join (path_parts s) (CHR ''/'')) ''/''"
      using Cons by (cases xs; cases x) (auto simp: HasPrefix_def)
    with rel Cons show ?thesis by (simp add: filepath_Clean_def)
  qed
qed

lemma path_parts_Clean [simp]: "path_parts (filepath_Clean s) = path_parts s"
proof -
  obtain k ns where p: "path_parts s = replicate k ''..'' @ ns" "set ns \<inter> {'''', ''.'', ''..''} = {}" "HasPrefix s ''/'' \<longrightarrow> k = 0"
    by (rule path_parts_plain)
  have clean: "clean_parts (HasPrefix s ''/'') [] (path_parts s) = path_parts s"
    unfolding p(1) by (rule clean_parts_clean) (use p in auto)
  have split: "strings_Split (CHR ''/'') (strings_Join (path_parts s) (CHR ''/'')) = path_parts s" if "path_parts s \<noteq> []"
    using that path_parts_no_slash by (intro strings_Split_Join) auto
  show ?thesis
    unfolding path_parts_def [of "filepath_Clean s"] HasPrefix_Clean
    by (cases "HasPrefix s ''/''"; cases "path_parts s = []") (use clean split in \<open>simp_all add: filepath_Clean_def\<close>)
qed

text \<open>A join with plain components only appends them.\<close>

lemma path_parts_Join_names:
  assumes "set (strings_Split (CHR ''/'') n) \<inter> {'''', ''.'', ''..''} = {}"
  shows "path_parts (filepath_Join dir n) = path_parts dir @ strings_Split (CHR ''/'') n"
proof (cases "dir = ''''")
  case True
  have "\<not> HasPrefix n ''/''" using assms by (cases n) (auto simp: HasPrefix_def)
  with True show ?thesis using clean_parts_names [OF assms, of False "[]"]
    by (simp add: filepath_Join_def path_parts_def [of n]) (simp add: path_parts_def HasPrefix_def)
next
  case False
  then have pre: "HasPrefix (dir @ CHR ''/'' # n) ''/'' = HasPrefix dir ''/''" by (cases dir) (auto simp: HasPrefix_def)
  have "strings_Split (CHR ''/'') (dir @ CHR ''/'' # n) = strings_Split (CHR ''/'') dir @ strings_Split (CHR ''/'') n"
    by (simp add: strings_Split_sep)
  with pre False show ?thesis
    by (simp add: filepath_Join_def path_parts_def [of "dir @ _"] clean_parts_append path_parts_def [of dir, symmetric] clean_parts_names [OF assms])
qed

lemma ValidateBase_parts:
  assumes "ValidateBase b = Inr u"
  shows "path_parts b \<noteq> [] \<and> set (path_parts b) \<inter> {'''', ''.'', ''..''} = {}"
proof -
  obtain k ns where p: "path_parts b = replicate k ''..'' @ ns" "set ns \<inter> {'''', ''.'', ''..''} = {}" "HasPrefix b ''/'' \<longrightarrow> k = 0"
    by (rule path_parts_plain)
  have c: "filepath_Clean b \<noteq> ''.''" "filepath_Clean b \<noteq> ''/''" "filepath_Clean b \<noteq> ''..''" "\<not> HasPrefix (filepath_Clean b) ''../''"
    using assms by (auto simp: ValidateBase_def Let_def split: if_splits)
  have "path_parts b \<noteq> []" using c(1,2) by (auto simp: filepath_Clean_def split: if_splits)
  moreover have "k = 0"
  proof (rule ccontr)
    assume "k \<noteq> 0"
    then obtain j where j: "path_parts b = ''..'' # replicate j ''..'' @ ns" using p(1) by (cases k) auto
    then have "filepath_Clean b = ''..'' \<or> (\<exists>t. filepath_Clean b = ''../'' @ t)"
      using p(3) \<open>k \<noteq> 0\<close> by (cases "replicate j ''..'' @ ns = []") (auto simp: filepath_Clean_def strings_Join_Cons)
    with c(3,4) show False by (auto simp: HasPrefix_iff)
  qed
  ultimately show ?thesis using p by simp
qed

text \<open>
  C19: A base path that \<open>ValidateBase\<close> accepts names, after cleaning, at least one directory level
  below the point it is resolved from, and goes neither through \<open>..\<close> nor through an empty or \<open>.\<close>
  component: a store never owns the working directory, a root, or anything above them.
\<close>

theorem accepted_base_is_below:
  assumes "ValidateBase b = Inr ()"
  shows "path_parts b \<noteq> [] \<and> set (path_parts b) \<inter> {'''', ''.'', ''..''} = {} \<and>
    filepath_Clean b = (if HasPrefix b ''/'' then ''/'' else '''') @ strings_Join (path_parts b) (CHR ''/'')"
  using ValidateBase_parts [OF assms] by (simp add: filepath_Clean_def)

theorem accepted_base_is_below_witness:
  "path_parts ''/srv/./a/../store/'' = [''srv'', ''store''] \<and> filepath_Clean ''/srv/./a/../store/'' = ''/srv/store''"
  using accepted_base_is_below [of "''/srv/./a/../store/''"]
  by (simp add: ValidateBase_def Let_def filepath_Clean_def path_parts_def HasPrefix_def TrimSpace_def is_space_def)

end
