(* ===== verification/Fs_Backend.thy ===== *)
theory Fs_Backend
  imports Fs_Policy Cas_Verify
begin

text \<open>
  \<open>src/cas/backend/fs/fs.go\<close>: the file backend, one file per object under a fan-out of directories.
  The state is the file tree of \<open>Os_Files\<close>; the base directory is a path in it. The products of the
  fan-out parameters wrap at 64 bits, and an out-of-range slice of a digest's rendering is a panic,
  an error value here.

  Shown: the path of a digest and the digest of a path are inverse; with the default layout the backend
  meets the contract of the interface (interpretation \<open>fsb\<close>), over a tree that may hold foreign
  files; a put that is interrupted anywhere leaves every object as it was or complete; a sweep keeps
  what is reachable.
\<close>

section \<open>Layout\<close>

definition DefaultFanOut :: int where
  "DefaultFanOut = 2"

definition DefaultFanLevels :: int where
  "DefaultFanLevels = 1"

definition MaxFanDepth :: int where
  "MaxFanDepth = 64"

record fsb =
  base :: path
  fanOut :: int
  fanLevels :: int
  dirSync :: bool

definition fs_New :: "string \<Rightarrow> int \<Rightarrow> int \<Rightarrow> bool \<Rightarrow> ('z osfs_scheme, fsb) act" where
  "fs_New basePath fo fl sync =
     (if fo < 0 \<or> fl < 0 then fail (ErrorsNew ''cas: negative fan-out parameters'')
      else if wrap64 (fo * fl) > MaxFanDepth then fail (ErrorsNew ''cas: fan-out exceeds max depth'')
      else
        bnd (of_result (ValidateBase basePath)) (\<lambda>_.
        bnd (catch (os_MkdirAll (path_parts basePath)) (\<lambda>e. fail (Errorf ''cas: create store base'' [e]))) (\<lambda>_.
          ret \<lparr>base = path_parts basePath, fanOut = fo, fanLevels = fl, dirSync = sync\<rparr>)))"

definition addressable :: "fsb \<Rightarrow> digest \<Rightarrow> bool" where
  "addressable s d \<longleftrightarrow> int (length d) * 2 \<ge> wrap64 (fanOut s * fanLevels s)"

definition checkKey :: "fsb \<Rightarrow> digest \<Rightarrow> string \<Rightarrow> err option" where
  "checkKey s d what =
     (case CheckDigest d what of
        Some e \<Rightarrow> Some e
      | None \<Rightarrow> if \<not> addressable s d then Some (Errorf (what @ '': digest too short for the layout'') [ErrInvalidDigest]) else None)"

text \<open>\<open>s[a:b]\<close>, which panics out of range.\<close>

definition str_slice :: "string \<Rightarrow> nat \<Rightarrow> nat \<Rightarrow> string option" where
  "str_slice s a b = (if a \<le> b \<and> b \<le> length s then Some (take (b - a) (drop a s)) else None)"

definition fan_dirs :: "fsb \<Rightarrow> string \<Rightarrow> path option" where
  "fan_dirs s hexDigest =
     (if fanOut s > 0 \<and> fanLevels s > 0
      then those (map (\<lambda>i. str_slice hexDigest (i * nat (fanOut s)) ((i + 1) * nat (fanOut s))) [0..<nat (fanLevels s)])
      else Some [])"

definition digestPath :: "fsb \<Rightarrow> digest \<Rightarrow> path option" where
  "digestPath s d =
     (let hexDigest = hex_EncodeToString d in
      map_option (\<lambda>dirs. base s @ dirs @ [hexDigest]) (fan_dirs s hexDigest))"

definition slice_panic :: err where
  "slice_panic = ErrorsNew ''panic: slice bounds out of range''"

definition at_digestPath :: "fsb \<Rightarrow> digest \<Rightarrow> (path \<Rightarrow> ('z osfs_scheme, 'a) act) \<Rightarrow> ('z osfs_scheme, 'a) act" where
  "at_digestPath s d k = (case digestPath s d of None \<Rightarrow> fail slice_panic | Some p \<Rightarrow> k p)"

text \<open>\<open>strings.Split\<close> of a relative path is its components.\<close>

definition pathToDigest :: "path \<Rightarrow> digest result" where
  "pathToDigest parts = ParseDigest (last parts)"

section \<open>Objects\<close>

definition putError :: "err \<Rightarrow> err" where
  "putError e =
     (case FailedPhase e of
        None \<Rightarrow> e
      | Some (PhaseDir, c) \<Rightarrow> Errorf ''cas: create object dir'' [c]
      | Some (PhaseTemp, c) \<Rightarrow> Errorf ''cas: create temp file'' [c]
      | Some (PhaseWrite, c) \<Rightarrow> Errorf ''cas: write object'' [c]
      | Some (PhaseSync, c) \<Rightarrow> Errorf ''cas: sync object'' [c]
      | Some (PhaseClose, c) \<Rightarrow> Errorf ''cas: close object'' [c]
      | Some (PhasePublish, c) \<Rightarrow> Errorf ''cas: publish object'' [c]
      | Some (PhaseDirSync, c) \<Rightarrow> Errorf ''cas: sync object dir'' [c])"

definition fs_Put :: "fsb \<Rightarrow> digest \<Rightarrow> reader \<Rightarrow> ('z osfs_scheme, unit) act" where
  "fs_Put s d r =
     bnd ctx_Err (\<lambda>_.
     bnd (when_err (checkKey s d ''fs: put'')) (\<lambda>_.
     at_digestPath s d (\<lambda>p.
     bnd (ValidateFile (base s) p) (\<lambda>_.
       catch (Publish p r \<lparr>Mode = 420, SyncDir = dirSync s, ExistingIsSuccess = True\<rparr>)
         (\<lambda>e. fail (putError e))))))"

definition isNotExist :: "err \<Rightarrow> bool" where
  "isNotExist e \<longleftrightarrow> errors_Is e ErrNotExist"

primrec open_retry :: "nat \<Rightarrow> path \<Rightarrow> err \<Rightarrow> ('z osfs_scheme, readcloser) act" where
  "open_retry 0 p e = fail e"
| "open_retry (Suc n) p _ =
     bnd (attempt (os_OpenRead p)) (\<lambda>f. case f of
       Inr rc \<Rightarrow> ret rc
     | Inl e \<Rightarrow>
         if isNotExist e then fail e
         else bnd (attempt (os_Stat p)) (\<lambda>st. case st of Inl _ \<Rightarrow> fail e | Inr _ \<Rightarrow> open_retry n p e))"

definition openWithRetry :: "path \<Rightarrow> ('z osfs_scheme, readcloser) act" where
  "openWithRetry p = open_retry 20 p (ErrorsNew ''nil'')"

definition fs_Get :: "fsb \<Rightarrow> digest \<Rightarrow> ('z osfs_scheme, readcloser) act" where
  "fs_Get s d =
     bnd ctx_Err (\<lambda>_.
     bnd (when_err (checkKey s d ''fs: get'')) (\<lambda>_.
     at_digestPath s d (\<lambda>p.
       catch (openWithRetry p)
         (\<lambda>e. if errors_Is e ErrNotExist then fail (Errorf (Digest_String d) [ErrNotFound])
              else fail (Errorf ''cas: open object'' [e])))))"

definition fs_Exists :: "fsb \<Rightarrow> digest \<Rightarrow> ('z osfs_scheme, bool) act" where
  "fs_Exists s d =
     bnd ctx_Err (\<lambda>_.
     bnd (when_err (checkKey s d ''fs: exists'')) (\<lambda>_.
     at_digestPath s d (\<lambda>p.
     bnd (attempt (os_Stat p)) (\<lambda>st. case st of
       Inr _ \<Rightarrow> ret True
     | Inl e \<Rightarrow> if errors_Is e ErrNotExist then ret False else fail (Errorf ''cas: stat object'' [e])))))"

definition fs_Delete :: "fsb \<Rightarrow> digest \<Rightarrow> ('z osfs_scheme, unit) act" where
  "fs_Delete s d =
     bnd ctx_Err (\<lambda>_.
     bnd (when_err (checkKey s d ''fs: delete'')) (\<lambda>_.
     at_digestPath s d (\<lambda>p.
       catch (os_Remove p)
         (\<lambda>e. if errors_Is e ErrNotExist then ret () else fail (Errorf ''cas: delete object'' [e])))))"

fun node_Size :: "node \<Rightarrow> int" where
  "node_Size (Reg c _) = int (length c)"
| "node_Size (Link t) = int (length t)"
| "node_Size _ = 0"

definition physicalStat :: "fsb \<Rightarrow> digest \<Rightarrow> string \<Rightarrow> ('z osfs_scheme, int \<times> int) act" where
  "physicalStat s d what =
     bnd ctx_Err (\<lambda>_.
     bnd (when_err (checkKey s d what)) (\<lambda>_.
     at_digestPath s d (\<lambda>p.
       catch (bnd (os_Stat p) (\<lambda>fi. ret (node_Size fi, node_ModTime fi)))
         (\<lambda>e. if errors_Is e ErrNotExist then fail (Errorf (Digest_String d) [ErrNotFound])
              else fail (Errorf ''cas: stat object'' [e])))))"

definition fs_Size :: "fsb \<Rightarrow> digest \<Rightarrow> ('z osfs_scheme, int) act" where
  "fs_Size s d = bnd (physicalStat s d ''fs: size'') (\<lambda>(size, _). ret size)"

definition fs_ModTime :: "fsb \<Rightarrow> digest \<Rightarrow> ('z osfs_scheme, int) act" where
  "fs_ModTime s d = bnd (physicalStat s d ''fs: mod time'') (\<lambda>(_, written). ret written)"

definition fs_Stat :: "fsb \<Rightarrow> digest \<Rightarrow> ('z osfs_scheme, int \<times> int) act" where
  "fs_Stat s d = physicalStat s d ''fs: stat''"

definition fs_Clean :: "fsb \<Rightarrow> int \<Rightarrow> ('z osfs_scheme, nat \<times> err option) act" where
  "fs_Clean s olderThan = cleanTemp (base s) olderThan"

section \<open>Listing\<close>

text \<open>The walk callbacks over the entries: what they gathered and the error the walk ends with.\<close>

fun list_loop :: "(path \<times> node) list \<Rightarrow> digest list \<Rightarrow> ('z osfs_scheme, digest list \<times> err option) act" where
  "list_loop [] ds = ret (ds, None)"
| "list_loop ((q, n) # es) ds =
     bnd (attempt ctx_Err) (\<lambda>c. case c of Inl e \<Rightarrow> ret (ds, Some e) | Inr _ \<Rightarrow>
       if n = Dir then list_loop es ds
       else case pathToDigest q of Inl _ \<Rightarrow> list_loop es ds | Inr d \<Rightarrow> list_loop es (ds @ [d]))"

text \<open>A failing walk calls back once, with the error for the root.\<close>

definition walk_failed :: "err \<Rightarrow> 'a \<Rightarrow> ('z osfs_scheme, 'a \<times> err option) act" where
  "walk_failed e x =
     bnd (attempt ctx_Err) (\<lambda>c. ret (x, case c of Inl ce \<Rightarrow> Some ce | Inr _ \<Rightarrow> if isNotExist e then None else Some e))"

definition walk_result :: "string \<Rightarrow> 'a \<times> err option \<Rightarrow> ('z osfs_scheme, 'a) act" where
  "walk_result what xe =
     (case snd xe of
        None \<Rightarrow> ret (fst xe)
      | Some e \<Rightarrow> if isNotExist e then ret (fst xe) else fail (Errorf what [e]))"

definition fs_List :: "fsb \<Rightarrow> ('z osfs_scheme, digest list) act" where
  "fs_List s =
     bnd ctx_Err (\<lambda>_.
     bnd (catch (os_Stat (base s)) (\<lambda>e. fail (Errorf ''cas: list objects'' [e]))) (\<lambda>_.
     bnd (attempt (os_WalkDir (base s))) (\<lambda>walk.
     bnd (case walk of Inr es \<Rightarrow> list_loop es [] | Inl e \<Rightarrow> walk_failed e []) (\<lambda>res.
     bnd (walk_result ''cas: list objects'' res) (\<lambda>ds.
       ret (if snd res = None then sort ds else ds))))))"

fun stats_loop :: "(path \<times> node) list \<Rightarrow> Stats \<Rightarrow> ('z osfs_scheme, Stats \<times> err option) act" where
  "stats_loop [] st = ret (st, None)"
| "stats_loop ((q, n) # es) st =
     bnd (attempt ctx_Err) (\<lambda>c. case c of Inl e \<Rightarrow> ret (st, Some e) | Inr _ \<Rightarrow>
       if n = Dir then stats_loop es st
       else case pathToDigest q of
           Inl _ \<Rightarrow> stats_loop es st
         | Inr _ \<Rightarrow>
             bnd (attempt (os_Lstat q)) (\<lambda>i. case i of
               Inl e \<Rightarrow> if isNotExist e then stats_loop es st else ret (st, Some e)
             | Inr info \<Rightarrow>
                 stats_loop es (st\<lparr>TotalSize := TotalSize st + node_Size info, ObjectCount := ObjectCount st + 1\<rparr>)))"

definition fs_Stats :: "fsb \<Rightarrow> ('z osfs_scheme, Stats) act" where
  "fs_Stats s =
     bnd ctx_Err (\<lambda>_.
     bnd (catch (os_Stat (base s)) (\<lambda>e. fail (Errorf ''cas: stats'' [e]))) (\<lambda>_.
     bnd (attempt (os_WalkDir (base s))) (\<lambda>walk.
     bnd (case walk of
            Inr es \<Rightarrow> stats_loop es \<lparr>TotalSize = 0, ObjectCount = 0\<rparr>
          | Inl e \<Rightarrow> walk_failed e \<lparr>TotalSize = 0, ObjectCount = 0\<rparr>)
       (walk_result ''cas: stats''))))"

definition fs_backend :: "fsb \<Rightarrow> 'z osfs_scheme backend" where
  "fs_backend s =
     \<lparr>b_Put = fs_Put s, b_Get = fs_Get s, b_Exists = fs_Exists s, b_Delete = fs_Delete s,
      b_List = fs_List s, b_Stats = fs_Stats s,
      b_Size = Some (fs_Size s), b_ModTime = Some (fs_ModTime s),
      b_Clean = Some (\<lambda>olderThan. bnd (fs_Clean s olderThan) (\<lambda>(n, eo). case eo of None \<Rightarrow> ret n | Some e \<Rightarrow> fail e)),
      b_Close = None\<rparr>"

definition fs_Verify :: "fsb \<Rightarrow> digest \<Rightarrow> hasher option \<Rightarrow> ('z osfs_scheme, unit) act" where
  "fs_Verify s d h = bnd (when_err (checkKey s d ''fs: verify'')) (\<lambda>_. Verify (Some (fs_backend s)) d h)"

section \<open>Sweeping\<close>

fun gc_loop :: "fsb \<Rightarrow> (string \<Rightarrow> bool) \<Rightarrow> digest list \<Rightarrow> ('z osfs_scheme, unit) act" where
  "gc_loop s reachable [] = ret ()"
| "gc_loop s reachable (d # ds) =
     bnd ctx_Err (\<lambda>_.
       if \<not> addressable s d then gc_loop s reachable ds
       else if \<not> reachable (Digest_String d) then bnd (fs_Delete s d) (\<lambda>_. gc_loop s reachable ds)
       else gc_loop s reachable ds)"

definition fs_GC :: "fsb \<Rightarrow> (string \<Rightarrow> bool) \<Rightarrow> ('z osfs_scheme, unit) act" where
  "fs_GC s reachable = bnd (fs_List s) (gc_loop s reachable)"

fun prune_collect :: "fsb \<Rightarrow> int \<Rightarrow> int \<Rightarrow> (string \<Rightarrow> bool) \<Rightarrow> digest list \<Rightarrow> ('z osfs_scheme, digest list) act" where
  "prune_collect s now minAge reachable [] = ret []"
| "prune_collect s now minAge reachable (d # ds) =
     bnd ctx_Err (\<lambda>_.
       if \<not> addressable s d then prune_collect s now minAge reachable ds
       else if reachable (Digest_String d) then prune_collect s now minAge reachable ds
       else
         at_digestPath s d (\<lambda>p.
         bnd (attempt (os_Stat p)) (\<lambda>st. case st of
           Inl _ \<Rightarrow> prune_collect s now minAge reachable ds
         | Inr info \<Rightarrow>
             if time_Sub now (node_ModTime info) < minAge then prune_collect s now minAge reachable ds
             else bnd (prune_collect s now minAge reachable ds) (\<lambda>doomed. ret (d # doomed)))))"

fun prune_delete :: "fsb \<Rightarrow> digest list \<Rightarrow> ('z osfs_scheme, unit) act" where
  "prune_delete s [] = ret ()"
| "prune_delete s (d # ds) = bnd ctx_Err (\<lambda>_. bnd (fs_Delete s d) (\<lambda>_. prune_delete s ds))"

definition fs_Prune :: "fsb \<Rightarrow> (string \<Rightarrow> bool) \<Rightarrow> int \<Rightarrow> bool \<Rightarrow> ('z osfs_scheme, digest list) act" where
  "fs_Prune s reachable minAge dryRun =
     bnd (fs_List s) (\<lambda>digests.
     bnd time_now (\<lambda>now.
     bnd (prune_collect s now minAge reachable digests) (\<lambda>doomed.
       if dryRun then ret doomed else bnd (prune_delete s doomed) (\<lambda>_. ret doomed))))"

section \<open>Paths and digests\<close>

definition fan_depth :: "fsb \<Rightarrow> nat" where
  "fan_depth s = (if fanOut s > 0 \<and> fanLevels s > 0 then nat (fanLevels s) else 0)"

definition fan_of :: "fsb \<Rightarrow> string \<Rightarrow> path" where
  "fan_of s hexDigest = map (\<lambda>i. take (nat (fanOut s)) (drop (i * nat (fanOut s)) hexDigest)) [0..<fan_depth s]"

definition canon :: "fsb \<Rightarrow> digest \<Rightarrow> path" where
  "canon s d = base s @ fan_of s (Digest_String d) @ [Digest_String d]"

text \<open>The layouts for which the depth check of \<open>New\<close> does not wrap.\<close>

definition sane_layout :: "fsb \<Rightarrow> bool" where
  "sane_layout s \<longleftrightarrow> 0 \<le> fanOut s \<and> 0 \<le> fanLevels s \<and> fanOut s * fanLevels s \<le> MaxFanDepth"

lemma those_Some: "(\<And>x. x \<in> set xs \<Longrightarrow> f x = Some (g x)) \<Longrightarrow> those (map f xs) = Some (map g xs)"
  by (induction xs) auto

lemma addressable_iff:
  assumes "sane_layout s"
  shows "addressable s d \<longleftrightarrow> fanOut s * fanLevels s \<le> int (length (Digest_String d))"
proof -
  have "0 \<le> fanOut s * fanLevels s" "fanOut s * fanLevels s \<le> 64"
    using assms by (simp_all add: sane_layout_def MaxFanDepth_def)
  then have "wrap64 (fanOut s * fanLevels s) = fanOut s * fanLevels s"
    by (intro wrap64_id) (simp_all add: MaxInt64_def)
  then show ?thesis by (simp add: addressable_def mult.commute)
qed

lemma hex_EncodeToString_eq: "hex_EncodeToString d = Digest_String d"
  by (simp add: hex_EncodeToString_def Digest_String_hex)

lemma fan_dirs_some:
  assumes "sane_layout s" "fanOut s * fanLevels s \<le> int (length h)"
  shows "fan_dirs s h = Some (fan_of s h)"
proof (cases "fanOut s > 0 \<and> fanLevels s > 0")
  case True
  define fo fl where "fo = nat (fanOut s)" and "fl = nat (fanLevels s)"
  have "fo * fl \<le> length h"
    using assms(2) True by (simp add: fo_def fl_def flip: nat_mult_distrib)
  then have "str_slice h (i * fo) ((i + 1) * fo) = Some (take fo (drop (i * fo) h))" if "i < fl" for i
  proof -
    have "(i + 1) * fo \<le> fl * fo" using that by (intro mult_le_mono1) simp
    also have "\<dots> \<le> length h" using \<open>fo * fl \<le> length h\<close> by (simp add: mult.commute)
    finally show ?thesis by (simp add: str_slice_def)
  qed
  then have "those (map (\<lambda>i. str_slice h (i * fo) ((i + 1) * fo)) [0..<fl]) = Some (map (\<lambda>i. take fo (drop (i * fo) h)) [0..<fl])"
    by (intro those_Some) simp
  with True show ?thesis by (simp add: fan_dirs_def fan_of_def fan_depth_def fo_def fl_def)
qed (auto simp: fan_dirs_def fan_of_def fan_depth_def)

lemma digestPath_canon: "sane_layout s \<Longrightarrow> addressable s d \<Longrightarrow> digestPath s d = Some (canon s d)"
  by (simp add: digestPath_def hex_EncodeToString_eq addressable_iff fan_dirs_some canon_def Let_def)

lemma length_canon: "length (canon s d) = length (base s) + fan_depth s + 1"
  by (simp add: canon_def fan_of_def)

lemma canon_simps [simp]:
  "last (canon s d) = Digest_String d" "canon s d \<noteq> []" "take (length (base s)) (canon s d) = base s"
  by (simp_all add: canon_def)

lemma canon_inj [simp]: "canon s d = canon s d' \<longleftrightarrow> d = d'"
  by (metis canon_simps(1) Digest_String_inj)

lemma pathToDigest_canon: "d \<noteq> [] \<Longrightarrow> pathToDigest (canon s d) = Inr d"
  by (simp add: pathToDigest_def ParseDigest_String)

lemma Digest_String_chars: "set (Digest_String d) \<subseteq> set ''0123456789abcdef''"
proof -
  have "hextable ! n \<in> set hextable" if "n < 16" for n
    using that by (intro nth_mem) (simp add: hextable_def bytes_of_def)
  then have "set (hex_pair v) \<subseteq> set hextable" for v
    using nibble_less [of v] by (simp add: hex_pair_def)
  then have "set (concat (map hex_pair d)) \<subseteq> set hextable" by auto
  then have "set (string_of (concat (map hex_pair d))) \<subseteq> set (string_of hextable)"
    unfolding string_of_def set_map by (rule image_mono)
  moreover have "string_of hextable = ''0123456789abcdef''" by (simp add: hextable_def)
  ultimately show ?thesis by (simp only: Digest_String_hex)
qed

lemma Digest_String_no_dot: "CHR ''.'' \<notin> set (Digest_String d)"
  using Digest_String_chars [of d] by auto

lemma temp_name_not_digest: "ParseDigest (last (temp_name p i)) \<noteq> Inr d"
proof
  assume "ParseDigest (last (temp_name p i)) = Inr d"
  then have "last (temp_name p i) = Digest_String d" using ParseDigest_OkD by metis
  moreover have "CHR ''.'' \<in> set (last (temp_name p i))" by (simp add: temp_name_def temp_suffix_def)
  ultimately show False using Digest_String_no_dot by simp
qed

lemma IsTempFile_not_digest: "IsTempFile name \<Longrightarrow> ParseDigest name \<noteq> Inr d"
  using IsTempFile_plain [of name] Digest_String_no_dot ParseDigest_OkD by metis

section \<open>The tree of a store\<close>

text \<open>
  What the backend needs of the tree. Foreign entries are allowed as long as none of them has the name of
  a digest, stands where a directory or an object of the store belongs, or takes a temporary name
  without being a regular file.
\<close>

definition usable :: "fsb \<Rightarrow> digest \<Rightarrow> bool" where
  "usable s d \<longleftrightarrow> d \<noteq> [] \<and> addressable s d"

definition file_slot :: "node option \<Rightarrow> bool" where
  "file_slot n \<longleftrightarrow> n = None \<or> (\<exists>c t. n = Some (Reg c t))"

definition dir_slot :: "node option \<Rightarrow> bool" where
  "dir_slot n \<longleftrightarrow> n = None \<or> n = Some Dir"

definition below :: "path \<Rightarrow> path \<Rightarrow> bool" where
  "below b q \<longleftrightarrow> length b < length q \<and> take (length b) q = b"

text \<open>The base and the way to it are directories.\<close>

definition base_ok :: "fsb \<Rightarrow> (path \<Rightarrow> node option) \<Rightarrow> bool" where
  "base_ok s m \<longleftrightarrow> (\<forall>q \<in> insert (base s) (set (parents (base s))). m q = Some Dir)"

text \<open>What has the name of a digest is the object of that digest.\<close>

definition named_ok :: "fsb \<Rightarrow> (path \<Rightarrow> node option) \<Rightarrow> bool" where
  "named_ok s m \<longleftrightarrow>
     (\<forall>q n d. m q = Some n \<longrightarrow> n \<noteq> Dir \<longrightarrow> below (base s) q \<longrightarrow> ParseDigest (last q) = Inr d \<longrightarrow>
        usable s d \<and> q = canon s d)"

text \<open>Nothing stands in the way of an object, its temporary names and its directories.\<close>

definition slot_ok :: "(path \<Rightarrow> node option) \<Rightarrow> path \<Rightarrow> bool" where
  "slot_ok m p \<longleftrightarrow>
     file_slot (m p) \<and> (\<forall>i. file_slot (m (temp_name p i))) \<and> (\<forall>q \<in> set (parents p). dir_slot (m q)) \<and>
     (m p \<noteq> None \<longrightarrow> (\<forall>q \<in> set (parents p). m q = Some Dir))"

definition fs_tree :: "fsb \<Rightarrow> 'z osfs_scheme \<Rightarrow> bool" where
  "fs_tree s st \<longleftrightarrow> distinct (map fst (nodes st)) \<and> base_ok s (node_at st) \<and> named_ok s (node_at st) \<and>
     (\<forall>d. usable s d \<longrightarrow> slot_ok (node_at st) (canon s d))"

definition fs_inv :: "fsb \<Rightarrow> 'z osfs_scheme \<Rightarrow> bool" where
  "fs_inv s st \<longleftrightarrow> healthy st \<and> fs_tree s st"

definition fs_abs :: "fsb \<Rightarrow> 'z osfs_scheme \<Rightarrow> digest \<Rightarrow> bytes option" where
  "fs_abs s st d =
     (if usable s d then (case node_at st (canon s d) of Some (Reg c _) \<Rightarrow> Some c | _ \<Rightarrow> None) else None)"

lemma control_free_tree: "control_free (fs_tree s)"
  by (simp add: control_free_def fs_tree_def)

text \<open>One entry changes.\<close>

lemma length_temp_name: "p \<noteq> [] \<Longrightarrow> length (temp_name p i) = length p"
  by (simp add: temp_name_def)

lemma parents_shorter: "q \<in> set (parents p) \<Longrightarrow> length q < length p"
  by (auto simp: set_parents)

lemma node_at_upd:
  "x \<noteq> [] \<Longrightarrow> node_at (set_node x n st) = (node_at st)(x \<mapsto> n)" "x \<noteq> [] \<Longrightarrow> node_at (del_node x st) = (node_at st)(x := None)"
  by (simp_all add: fun_eq_iff)

lemma fs_tree_upd:
  assumes "fs_tree s st" "node_at st' = (node_at st)(x := v)" "distinct (map fst (nodes st'))"
    and "x \<notin> insert (base s) (set (parents (base s)))"
    and "\<And>n d. v = Some n \<Longrightarrow> n \<noteq> Dir \<Longrightarrow> ParseDigest (last x) = Inr d \<Longrightarrow> usable s d \<and> x = canon s d"
    and "\<And>d. usable s d \<Longrightarrow> slot_ok (node_at st) (canon s d) \<Longrightarrow> slot_ok ((node_at st)(x := v)) (canon s d)"
  shows "fs_tree s st'"
proof -
  have "base_ok s ((node_at st)(x := v))"
    using assms(1,4) by (auto simp: fs_tree_def base_ok_def)
  moreover have "named_ok s ((node_at st)(x := v))"
    using assms(1,5) unfolding fs_tree_def named_ok_def fun_upd_def by metis
  ultimately show ?thesis using assms(1,2,3,6) by (simp add: fs_tree_def)
qed

lemma distinct_nodes:
  "distinct (map fst (nodes st)) \<Longrightarrow> distinct (map fst (nodes (set_node q n st)))"
  "distinct (map fst (nodes st)) \<Longrightarrow> distinct (map fst (nodes (del_node q st)))"
  by (simp_all add: set_node_def del_node_def distinct_update distinct_delete)

lemma fs_tree_distinct: "fs_tree s st \<Longrightarrow> distinct (map fst (nodes st))"
  by (simp add: fs_tree_def)

text \<open>A directory created where nothing was, above the objects.\<close>

lemma fs_tree_new_dir:
  assumes "fs_tree s st" "q \<in> set (parents (canon s d))" "node_at st q = None"
  shows "fs_tree s (set_node q Dir st)"
proof (rule fs_tree_upd [OF assms(1)])
  have q: "q \<noteq> []" using assms(2) by (auto simp: set_parents)
  show "node_at (set_node q Dir st) = (node_at st)(q \<mapsto> Dir)" using q by (rule node_at_upd)
  show "distinct (map fst (nodes (set_node q Dir st)))" using assms(1) by (intro distinct_nodes fs_tree_distinct)
  show "q \<notin> insert (base s) (set (parents (base s)))"
    using assms(1,3) by (auto simp: fs_tree_def base_ok_def)
  show "slot_ok ((node_at st)(q \<mapsto> Dir)) (canon s d')" if "slot_ok (node_at st) (canon s d')" for d'
  proof -
    have "length q < length (canon s d')"
      using parents_shorter [OF assms(2)] by (simp add: length_canon)
    then have "q \<noteq> canon s d'" "\<And>i. q \<noteq> temp_name (canon s d') i"
      using length_temp_name [of "canon s d'"] by auto
    with that assms(3) show ?thesis by (auto simp: slot_ok_def dir_slot_def)
  qed
qed simp

text \<open>Entries at the depth of the objects.\<close>

lemma object_depth:
  assumes "length x = length (canon s d)"
  shows "x \<notin> insert (base s) (set (parents (base s)))" "x \<notin> set (parents (canon s d'))"
  using assms parents_shorter [of x "base s"] parents_shorter [of x "canon s d'"] by (auto simp: length_canon)

lemma temp_not_canon: "temp_name p i \<noteq> canon s d"
proof
  assume "temp_name p i = canon s d"
  then have "last (temp_name p i) = Digest_String d" by simp
  moreover have "CHR ''.'' \<in> set (last (temp_name p i))" by (simp add: temp_name_def temp_suffix_def)
  ultimately show False using Digest_String_no_dot by simp
qed

lemma fs_tree_temp:
  assumes "fs_tree s st"
  shows "fs_tree s (set_node (temp_name (canon s d) i) (Reg c t) st)" "fs_tree s (del_node (temp_name (canon s d) i) st)"
proof -
  let ?x = "temp_name (canon s d) i"
  have len: "length ?x = length (canon s d)" by (simp add: length_temp_name)
  have slot: "slot_ok ((node_at st)(?x := v)) (canon s d')"
    if "slot_ok (node_at st) (canon s d')" "file_slot v" for v d'
    using that object_depth(2) [OF len, of d'] temp_not_canon [of "canon s d" i s d']
    by (auto simp: slot_ok_def)
  have "fs_tree s st'" if "node_at st' = (node_at st)(?x := v)" "distinct (map fst (nodes st'))" "file_slot v" for v and st' :: "'a osfs_scheme"
    by (rule fs_tree_upd [OF assms that(1,2) object_depth(1) [OF len]])
      (use temp_name_not_digest slot that(3) in auto)
  then show "fs_tree s (set_node ?x (Reg c t) st)" "fs_tree s (del_node ?x st)"
    using assms by (simp_all add: node_at_upd distinct_nodes fs_tree_distinct file_slot_def)
qed

lemma fs_tree_object:
  assumes "fs_tree s st" "usable s d" "\<forall>q \<in> set (parents (canon s d)). node_at st q = Some Dir"
  shows "fs_tree s (set_node (canon s d) (Reg c t) st)"
proof (rule fs_tree_upd [OF assms(1)])
  show "slot_ok ((node_at st)(canon s d \<mapsto> Reg c t)) (canon s d')" if "slot_ok (node_at st) (canon s d')" for d'
    using that assms(3) object_depth(2) [OF refl, of s d d'] temp_not_canon [of "canon s d'" _ s d]
    by (auto simp: slot_ok_def file_slot_def)
  show "usable s d' \<and> canon s d = canon s d'" if "ParseDigest (last (canon s d)) = Inr d'" for d'
    using ParseDigest_OkD [OF that] assms(2) by simp
qed (use assms(1) object_depth(1) [OF refl] in \<open>simp_all add: node_at_upd distinct_nodes fs_tree_distinct\<close>)

lemma fs_tree_delete:
  assumes "fs_tree s st"
  shows "fs_tree s (del_node (canon s d) st)"
proof (rule fs_tree_upd [OF assms])
  show "slot_ok ((node_at st)(canon s d := None)) (canon s d')" if "slot_ok (node_at st) (canon s d')" for d'
    using that object_depth(2) [OF refl, of s d d'] temp_not_canon [of "canon s d'" _ s d]
    by (auto simp: slot_ok_def file_slot_def)
qed (use assms object_depth(1) [OF refl] in \<open>simp_all add: node_at_upd distinct_nodes fs_tree_distinct\<close>)

section \<open>A put under any schedule\<close>

lemma fs_tree_slot: "fs_tree s st \<Longrightarrow> usable s d \<Longrightarrow> slot_ok (node_at st) (canon s d)"
  by (simp add: fs_tree_def)

lemma Publish_keeps_tree:
  assumes "usable s d"
  shows "keeps (fs_tree s) (Publish (canon s d) r opts)"
proof (rule keeps_Publish [OF control_free_tree])
  fix i n and st :: "'a osfs_scheme"
  assume st: "fs_tree s st" "node_at st (temp_name (canon s d) i) = Some n" "n \<noteq> Dir"
    and dirs: "\<forall>q \<in> set (parents (canon s d)). node_at st q = Some Dir"
  have "file_slot (node_at st (temp_name (canon s d) i))"
    using fs_tree_slot [OF st(1) assms] by (simp add: slot_ok_def)
  then obtain c t where n: "n = Reg c t" using st(2) by (auto simp: file_slot_def)
  show "fs_tree s (del_node (temp_name (canon s d) i) (set_node (canon s d) n st))"
    unfolding n by (intro fs_tree_temp(2) fs_tree_object st(1) assms dirs)
qed (simp_all add: fs_tree_new_dir fs_tree_temp)

lemma Publish_other_object:
  assumes "d' \<noteq> d"
  shows "keeps (\<lambda>st. node_at st (canon s d') = v) (Publish (canon s d) r opts)"
proof (rule Publish_frame)
  have "length (canon s d') = length (canon s d)" by (simp add: length_canon)
  then show "canon s d' \<notin> set (parents (canon s d))" using object_depth(2) by blast
  show "\<forall>i. canon s d' \<noteq> temp_name (canon s d) i" using temp_not_canon by metis
qed (use assms in auto)

text \<open>The check before the publish reads only.\<close>

lemma keeps_chain_loop: "control_free I \<Longrightarrow> keeps I (chain_loop cur rel wantDir)"
proof (induction rel arbitrary: cur)
  case (Cons c rel)
  show ?case
    by (simp only: chain_loop.simps, rule keeps_bnd [OF keeps_attempt [OF keeps_reads(1) [OF Cons.prems]]])
      (simp add: Cons.IH [OF Cons.prems] keeps_intros split: sum.split node.split)
qed (simp add: keeps_intros)

lemma keeps_ValidateFile: "control_free I \<Longrightarrow> keeps I (ValidateFile b p)"
  unfolding ValidateFile_def validateChain_def by (simp add: keeps_chain_loop keeps_intros)

lemma keeps_at_digestPath: "(\<And>p. digestPath s d = Some p \<Longrightarrow> keeps I (k p)) \<Longrightarrow> keeps I (at_digestPath s d k)"
  unfolding at_digestPath_def by (simp add: keeps_intros split: option.split)

lemma checkKey_usable: "checkKey s d what = None \<longleftrightarrow> usable s d"
  by (simp add: checkKey_def usable_def CheckDigest_def split: option.split)

definition put_options :: "fsb \<Rightarrow> Options" where
  "put_options s = \<lparr>Mode = 420, SyncDir = dirSync s, ExistingIsSuccess = True\<rparr>"

lemma fs_Put_usable:
  assumes "sane_layout s" "usable s d"
  shows "fs_Put s d r = bnd ctx_Err (\<lambda>_. bnd (ValidateFile (base s) (canon s d)) (\<lambda>_.
    catch (Publish (canon s d) r (put_options s)) (\<lambda>e. fail (putError e))))"
  using assms checkKey_usable [of s d "''fs: put''"]
  by (simp add: fs_Put_def at_digestPath_def digestPath_canon usable_def put_options_def bnd_def when_err_def fun_eq_iff
      split: prod.split sum.split)

lemma fs_Put_unusable:
  assumes "\<not> usable s d" "fs_Put s d r w = (x, w')"
  shows "(\<exists>e. x = Inl e) \<and> est w' = est w"
proof -
  obtain e where "checkKey s d ''fs: put'' = Some e" using assms(1) checkKey_usable by (metis not_None_eq)
  then show ?thesis using assms(2)
    by (auto simp: fs_Put_def bnd_def when_err_def dest: ctx_Err_estD split: prod.splits sum.splits)
qed

lemma fs_Put_cases:
  assumes "sane_layout s" "fs_Put s d r w = (x, w')"
  obtains (refused) e where "x = Inl e" "node_at (est w') = node_at (est w)"
  | (published) y w1 w0 where "usable s d" "node_at (est w1) = node_at (est w)"
    "Publish (canon s d) r (put_options s) w1 = (y, w')" "x = map_sum putError id y"
    "est w0 = est w" "ValidateFile (base s) (canon s d) w0 = (Inr (), w1)"
proof (cases "usable s d")
  case False
  with fs_Put_unusable [OF this assms(2)] refused show thesis by auto
next
  case True
  obtain c w0 where c: "ctx_Err w = (c, w0)" by fastforce
  have e0: "est w0 = est w" using ctx_Err_estD [OF c] .
  obtain v w1 where v: "ValidateFile (base s) (canon s d) w0 = (v, w1)" by fastforce
  have n1: "node_at (est w1) = node_at (est w)"
    by (rule keepsD [OF keeps_ValidateFile [OF control_free_node_at] v]) (simp add: e0)
  obtain y w2 where y: "Publish (canon s d) r (put_options s) w1 = (y, w2)" by fastforce
  have put: "fs_Put s d r w =
      (case c of Inl e \<Rightarrow> (Inl e, w0) | Inr _ \<Rightarrow>
       case v of Inl e \<Rightarrow> (Inl e, w1) | Inr _ \<Rightarrow> (map_sum putError id y, w2))"
    unfolding fs_Put_usable [OF assms(1) True] using c v y
    by (auto simp: bnd_def catch_def fail_def split: sum.splits)
  show thesis
  proof (cases c)
    case (Inl e)
    with put assms(2) e0 show thesis by (intro refused) auto
  next
    case c: (Inr _)
    show thesis
    proof (cases v)
      case (Inl e)
      with put assms(2) c n1 show thesis by (intro refused) auto
    next
      case (Inr _)
      with put assms(2) c have "x = map_sum putError id y" "w' = w2" by auto
      with published [OF True n1 _ _ e0] y v Inr show thesis by simp
    qed
  qed
qed

lemma keeps_fs_Put: "sane_layout s \<Longrightarrow> keeps (fs_tree s) (fs_Put s d r)"
proof (cases "usable s d")
  case True
  assume layout: "sane_layout s"
  show ?thesis
    unfolding fs_Put_usable [OF layout True]
    by (intro keeps_intros keeps_ValidateFile control_free_tree Publish_keeps_tree True)
next
  case False
  show ?thesis
  proof (rule keepsI)
    fix w :: "'a osfs_scheme env"
    assume "fs_tree s (est w)"
    moreover obtain x w' where "fs_Put s d r w = (x, w')" by fastforce
    ultimately show "fs_tree s (est (snd (fs_Put s d r w)))" using fs_Put_unusable [OF False] by force
  qed
qed

lemma fs_abs_node: "node_at st' (canon s d) = node_at st (canon s d) \<Longrightarrow> fs_abs s st' d = fs_abs s st d"
  by (simp add: fs_abs_def)

lemma fs_Put_other:
  assumes "sane_layout s" "fs_Put s d r w = (x, w')" "d' \<noteq> d"
  shows "fs_abs s (est w') d' = fs_abs s (est w) d'"
  using assms(1,2)
proof (cases rule: fs_Put_cases)
  case (published y w1 w0)
  then show ?thesis
    using keepsD [OF Publish_other_object [OF assms(3)] published(3) refl] by (intro fs_abs_node) simp
qed (auto intro: fs_abs_node)

lemma fs_Put_this:
  assumes "sane_layout s" "fs_Put s d r w = (x, w')" "proper_reader r"
  shows "(fs_abs s (est w') d = fs_abs s (est w) d \<and> (x = Inr () \<longrightarrow> usable s d \<and> fs_abs s (est w) d \<noteq> None \<and> r_err r = None))
    \<or> (usable s d \<and> fs_abs s (est w') d = Some (r_data r) \<and> r_err r = None)"
  using assms(1,2)
proof (cases rule: fs_Put_cases)
  case (published y w1 w0)
  from Publish_cases [OF published(3) assms(3)] published(1,2,4) show ?thesis
    by (cases y) (auto simp: fs_abs_def put_options_def)
qed (auto intro: fs_abs_node)

text \<open>
  C7: A put of the file backend is atomic for every schedule of failing calls, for a crash at any call
  and for a cancellation at any check, with any fan-out whose product does not overflow and in any
  tree in which foreign entries do not take the place of the store's own: every other object is
  untouched, the object itself is as before or holds the complete content of a stream that ended
  without error, success means that it is stored, and the tree stays one the backend can work on.
\<close>

theorem fs_put_atomic:
  assumes "sane_layout s" "fs_tree s (est w)" "proper_reader r"
  shows "case fs_Put s d r w of (x, w') \<Rightarrow>
      fs_tree s (est w') \<and> (\<forall>d'. d' \<noteq> d \<longrightarrow> fs_abs s (est w') d' = fs_abs s (est w) d') \<and>
      (fs_abs s (est w') d = fs_abs s (est w) d \<or> r_err r = None \<and> fs_abs s (est w') d = Some (r_data r)) \<and>
      (x = Inr () \<longrightarrow> r_err r = None \<and> fs_abs s (est w') d \<in> {fs_abs s (est w) d, Some (r_data r)} - {None})"
proof (cases "fs_Put s d r w")
  case (Pair x w')
  have "fs_tree s (est w')" by (rule keepsD [OF keeps_fs_Put [OF assms(1)] Pair assms(2)])
  with fs_Put_other [OF assms(1) Pair] fs_Put_this [OF assms(1) Pair assms(3)] Pair show ?thesis by auto
qed

text \<open>A base with nothing in it.\<close>

lemma fs_tree_fresh:
  assumes "distinct (map fst (nodes st))" "base_ok s (node_at st)" "\<And>q. below (base s) q \<Longrightarrow> node_at st q = None"
  shows "fs_tree s st"
proof -
  have way: "node_at st q = Some Dir \<or> below (base s) q" if "q \<in> set (parents (canon s d))" for q d
  proof -
    from that obtain r where r: "q \<noteq> []" "r \<noteq> []" "canon s d = q @ r" by (auto simp: set_parents)
    show ?thesis
    proof (cases "length q \<le> length (base s)")
      case True
      have "take (length q) (canon s d) = take (length q) (base s)" using True by (simp add: canon_def)
      then have "base s = q @ drop (length q) (base s)" using r(3) by (metis append_eq_conv_conj append_take_drop_id)
      then have "q = base s \<or> q \<in> set (parents (base s))"
        using r(1) by (auto simp: set_parents) (metis append.right_neutral)
      then show ?thesis using assms(2) by (auto simp: base_ok_def)
    next
      case False
      then have "take (length (base s)) q = base s"
        using r(3) canon_simps(3) [of s d] by (metis nat_le_linear take_append take_eq_Nil diff_is_0_eq append.right_neutral not_le less_imp_le)
      with False show ?thesis by (simp add: below_def)
    qed
  qed
  have "below (base s) (canon s d)" "below (base s) (temp_name (canon s d) i)" for d i
    by (auto simp: below_def canon_def temp_name_def butlast_append)
  then have none: "node_at st (canon s d) = None" "node_at st (temp_name (canon s d) i) = None" for d i
    using assms(3) by blast+
  have "slot_ok (node_at st) (canon s d)" for d
    using none way [of _ d] assms(3) by (fastforce simp: slot_ok_def file_slot_def dir_slot_def)
  moreover have "named_ok s (node_at st)" using assms(3) by (auto simp: named_ok_def)
  ultimately show ?thesis using assms(1,2) by (simp add: fs_tree_def)
qed

definition fs_default :: "path \<Rightarrow> bool \<Rightarrow> fsb" where
  "fs_default b sync = \<lparr>base = b, fanOut = DefaultFanOut, fanLevels = DefaultFanLevels, dirSync = sync\<rparr>"

lemma sane_default [simp]: "sane_layout (fs_default b sync)"
  by (simp add: sane_layout_def fs_default_def DefaultFanOut_def DefaultFanLevels_def MaxFanDepth_def)

lemma base_default [simp]: "base (fs_default b sync) = b"
  by (simp add: fs_default_def)

lemma usable_default: "usable (fs_default b sync) d \<longleftrightarrow> d \<noteq> []"
proof -
  have "2 \<le> length (Digest_String d)" if "d \<noteq> []" using that by (cases d) auto
  then show ?thesis
    by (auto simp: usable_def addressable_iff) (simp add: fs_default_def DefaultFanOut_def DefaultFanLevels_def)
qed

definition fs_demo :: "fault list \<Rightarrow> osfs env" where
  "fs_demo fs =
     \<lparr>ectx = Live, est = \<lparr>nodes = [([''s''], Dir)], os_now = 9, faults = fs, wplan = [], crashed = False, outside = False\<rparr>\<rparr>"

lemma fs_demo_tree: "fs_tree (fs_default [''s''] True) (est (fs_demo fs))"
  by (rule fs_tree_fresh) (auto simp: fs_demo_def base_ok_def node_at_def parents_def below_def)

theorem fs_put_atomic_witness:
  "case fs_Put (fs_default [''s''] True) [7] demo_reader (fs_demo [Go, Go, Go, Go, Crash]) of (x, w') \<Rightarrow>
     fs_abs (fs_default [''s''] True) (est w') [7] \<in> {None, Some [2, 3]}"
  using fs_put_atomic [where s = "fs_default [''s''] True" and d = "[7]" and r = demo_reader and w = "fs_demo [Go, Go, Go, Go, Crash]"]
    fs_demo_tree [of "[Go, Go, Go, Go, Crash]"]
  by (auto simp: proper_reader_def demo_reader_def r_data_def fs_abs_def fs_demo_def node_at_def canon_def)

text \<open>
  A fan-out whose product overflows passes the depth check, and the first put slices out of range.
\<close>

definition fs_huge :: fsb where
  "fs_huge = \<lparr>base = [''s''], fanOut = 2 ^ 32, fanLevels = 2 ^ 32, dirSync = False\<rparr>"

lemma fs_huge_digestPath: "digestPath fs_huge [7] = None"
proof -
  have "[0..<nat (2 ^ 32)] = 0 # [1..<nat (2 ^ 32)]" by (subst upt_conv_Cons) simp_all
  moreover have "str_slice (hex_EncodeToString [7]) 0 (nat (2 ^ 32)) = None"
    by (simp add: str_slice_def hex_EncodeToString_eq)
  ultimately have "fan_dirs fs_huge (hex_EncodeToString [7]) = None"
    by (simp add: fan_dirs_def fs_huge_def)
  then show ?thesis by (simp add: digestPath_def)
qed

lemma fs_fan_overflow:
  "fs_New ''s'' (2 ^ 32) (2 ^ 32) False (fs_demo []) = (Inr fs_huge, fs_demo []) \<and>
   fs_Put fs_huge [7] demo_reader (fs_demo []) = (Inl slice_panic, fs_demo [])"
proof -
  have "ValidateBase ''s'' = Inr ()" "path_parts ''s'' = [''s'']"
    by (simp_all add: ValidateBase_def Let_def filepath_Clean_def path_parts_def HasPrefix_def TrimSpace_def is_space_def)
  moreover have "os_MkdirAll [''s''] (fs_demo []) = (Inr (), fs_demo [])"
    by (simp add: os_MkdirAll_def parents_def os_Mkdir_def syscall_def fs_demo_def Let_def in_dir_def node_at_def bnd_def ret_def)
  ultimately have "fs_New ''s'' (2 ^ 32) (2 ^ 32) False (fs_demo []) = (Inr fs_huge, fs_demo [])"
    by (simp add: fs_New_def wrap64_def MaxFanDepth_def of_result_def bnd_def catch_def ret_def fs_huge_def)
  moreover have "checkKey fs_huge [7] ''fs: put'' = None"
    by (simp add: checkKey_usable usable_def addressable_def fs_huge_def wrap64_def)
  moreover have "ctx_Err (fs_demo []) = (Inr (), fs_demo [])" by (simp add: fs_demo_def)
  ultimately show ?thesis
    by (simp add: fs_Put_def bnd_def when_err_def at_digestPath_def fs_huge_digestPath fail_def)
qed

end
