(* ===== verification/Fs_Contract.thy ===== *)
theory Fs_Contract
  imports Fs_Backend
begin

text \<open>
  The file backend on a system without faults: what each operation of \<open>src/cas/backend/fs/fs.go\<close>
  answers, and that with the default layout it provides the contract of the backend interface
  (interpretation \<open>fsb\<close>). The lemmas of the typed layer, the graph walk, the sweep and the
  verification then hold for it as they do for the memory backend.
\<close>

section \<open>No operation breaks the system\<close>

lemma keeps_healthy_syscall:
  assumes "\<And>st. healthy st \<Longrightarrow> healthy (snd (call st))"
  shows "keeps healthy (syscall call)"
  using assms by (force simp: keeps_def syscall_healthy split: prod.splits)

lemma in_dir_healthy:
  assumes "healthy st" "healthy (snd (k st))"
  shows "healthy (snd (in_dir p k st))"
  using assms by (auto simp: in_dir_def follow_link_def split: verdict.splits)

lemma keeps_healthy_calls [keeps_intros]:
  "keeps healthy (os_Lstat p)" "keeps healthy (os_Stat p)" "keeps healthy (os_Mkdir p)" "keeps healthy (os_OpenExcl p)"
  "keeps healthy (os_Remove p)" "keeps healthy (os_OpenRead p)" "keeps healthy (os_WalkDir p)"
  "keeps healthy (os_Sync p)" "keeps healthy (os_Close p)" "keeps healthy (os_OpenAppend p)"
  unfolding os_Lstat_def os_Stat_def os_Mkdir_def os_OpenExcl_def os_Remove_def os_OpenRead_def os_WalkDir_def
    os_Sync_def os_Close_def os_OpenAppend_def
  by (rule keeps_healthy_syscall, (rule in_dir_healthy)?, simp_all add: follow_link_def split: option.split node.split)+

lemma keeps_healthy_Rename [keeps_intros]: "keeps healthy (os_Rename old new)"
  unfolding os_Rename_def
  by (rule keeps_healthy_syscall, rule in_dir_healthy, assumption, rule in_dir_healthy)
    (simp_all split: option.split node.split)

lemma WriteTo_plan:
  "w_plan wr = [] \<Longrightarrow> WriteTo_loop n r wr w = (Inr (m, eo, wr'), w') \<Longrightarrow> w_plan wr' = []"
proof (induction n r wr w rule: WriteTo_loop.induct)
  case (1 n r wr w)
  have w: "write_step b wr = ((length b, None), wr\<lparr>w_out := w_out wr @ b\<rparr>)" for b
    using "1.prems"(1) by (simp add: write_step_def)
  obtain c w1 where c: "ctx_Err w = (c, w1)" by fastforce
  obtain b e1 r1 where s: "read_step copyBufSize r = ((b, e1), r1)" by (metis prod.collapse)
  show ?case
  proof (cases c)
    case (Inl e)
    with "1.prems" c show ?thesis by (subst (asm) WriteTo_loop.simps) auto
  next
    case (Inr u)
    show ?thesis
    proof (cases e1)
      case (Some e)
      with "1.prems" c Inr s show ?thesis by (subst (asm) WriteTo_loop.simps) auto
    next
      case None
      note IH = "1.IH" [OF c [symmetric] Inr s [symmetric] refl None]
      show ?thesis
      proof (cases "b = []")
        case True
        with IH(1) [OF True "1.prems"(1)] "1.prems"(2) c Inr s None show ?thesis
          by (subst (asm) WriteTo_loop.simps) simp
      next
        case False
        with IH(2) [OF False w [symmetric] refl refl] "1.prems" c Inr s None w show ?thesis
          by (subst (asm) WriteTo_loop.simps) simp
      qed
    qed
  qed
qed

lemma keeps_healthy_Copy [keeps_intros]: "keeps healthy (os_Copy p r)"
proof (rule keepsI)
  fix w :: "'a osfs_scheme env"
  assume h: "healthy (est w)"
  obtain y w1 where c: "ContextReader_WriteTo r \<lparr>w_out = [], w_plan = wplan (est w)\<rparr> w = (y, w1)" by fastforce
  have e: "est w1 = est w"
    using WriteTo_loop_est [of 0 r "\<lparr>w_out = [], w_plan = wplan (est w)\<rparr>" w] c unfolding ContextReader_WriteTo_def by simp
  show "healthy (est (snd (os_Copy p r w)))"
  proof (cases y)
    case (Inl e)
    with c h e show ?thesis by (simp add: os_Copy_def healthy_def)
  next
    case (Inr x)
    obtain m eo wr where x: "x = (m, eo, wr)" by (cases x)
    have "w_plan wr = []"
      using WriteTo_plan [of "\<lparr>w_out = [], w_plan = wplan (est w)\<rparr>" 0 r w m eo wr w1] c h Inr x
      unfolding ContextReader_WriteTo_def by (simp add: healthy_def)
    with c h e Inr x show ?thesis by (cases eo) (simp_all add: os_Copy_def healthy_def Let_def)
  qed
qed

lemma keeps_healthy_mkdirs [keeps_intros]: "keeps healthy (os_MkdirAll p)"
proof -
  have "keeps (healthy :: 'a osfs_scheme \<Rightarrow> bool) (mkdirs ps)" for ps
    by (induction ps) (simp_all add: keeps_intros)
  then show ?thesis by (simp add: os_MkdirAll_def)
qed

lemma keeps_healthy_createTemp [keeps_intros]: "keeps healthy (createTemp p)"
  unfolding createTemp_def by (intro keeps_createTemp_from keeps_intros)

lemma keeps_healthy_fill [keeps_intros]: "keeps healthy (publish_fill p r)"
  unfolding publish_fill_def discard_def by (intro keeps_intros)

lemma keeps_healthy_rename [keeps_intros]: "keeps healthy (publish_rename opts tmp p)"
  unfolding publish_rename_def by (intro keeps_intros)

lemma keeps_healthy_Publish [keeps_intros]: "keeps healthy (Publish p r opts)"
  unfolding Publish_def SyncParentDir_def by (intro keeps_intros)

lemma keeps_healthy_Validate [keeps_intros]: "keeps healthy (ValidateFile b p)"
proof -
  have "keeps (healthy :: 'a osfs_scheme \<Rightarrow> bool) (chain_loop cur rel wantDir)" for cur rel wantDir
  proof (induction rel arbitrary: cur)
    case (Cons c rel)
    then show ?case
      by (simp only: chain_loop.simps, intro keeps_bnd keeps_intros) (simp add: keeps_intros split: sum.split node.split)
  qed (simp add: keeps_intros)
  then show ?thesis by (simp add: ValidateFile_def validateChain_def keeps_intros)
qed

lemma keeps_healthy_Put: "keeps healthy (fs_Put s d r)"
  unfolding fs_Put_def at_digestPath_def
  by (intro keeps_intros) (simp add: keeps_intros split: option.split)

section \<open>A failed put changes nothing\<close>

lemma publish_fill_temp:
  assumes "publish_fill p r w = (Inr tmp, w')"
  shows "(\<exists>i. tmp = temp_name p i) \<and> (\<exists>c t. node_at (est w') tmp = Some (Reg c t))"
proof -
  from assms obtain w1 w2 w3 w4 w5 n u where
    t: "createTemp_from p 0 w1 = (Inr tmp, w2)" and c: "os_Copy tmp r w2 = (Inr n, w3)"
    and s: "os_Sync tmp w3 = (Inr u, w4)" "os_Close tmp w4 = (Inr u, w5)" "ctx_Err w5 = (Inr u, w')"
    by (auto simp: publish_fill_def bnd_ok createTemp_def)
  obtain t where "node_at (est w2) tmp = Some (Reg [] t)" using createTemp_from_ok [OF t] by blast
  moreover from os_Copy_est [OF c] obtain b pl where "est w3 = (append_at tmp b (est w2))\<lparr>wplan := pl\<rparr>" by blast
  ultimately obtain c' t' where "node_at (est w3) tmp = Some (Reg c' t')" by (cases "b = []") (auto simp: node_at_append_at)
  then have "node_at (est w4) tmp = Some (Reg c' t')" by (rule keepsD [OF keeps_reads(5) [OF control_free_at] s(1)])
  then have "node_at (est w5) tmp = Some (Reg c' t')" by (rule keepsD [OF keeps_reads(6) [OF control_free_at] s(2)])
  with createTemp_from_name [OF t] ctx_Err_estD [OF s(3)] show ?thesis by auto
qed

lemma in_dir_ok_clear: "in_dir p k st = (Inr x, st') \<Longrightarrow> \<forall>q \<in> set (parents p). node_at st q = Some Dir"
  by (auto simp: in_dir_def follow_link_def dirs_verdict_Clear split: verdict.splits)

lemma os_Rename_dirs:
  assumes "os_Rename tmp p w = (Inr u, w')" "tmp \<notin> set (parents p)"
  shows "\<forall>q \<in> set (parents p). node_at (est w') q = Some Dir"
  using assms(1) unfolding os_Rename_def
proof (cases rule: syscall_cases)
  case (run fs)
  note r1 = in_dir_ok [OF run [symmetric]]
  from in_dir_ok_clear [OF r1] have dirs: "\<forall>q \<in> set (parents p). node_at (est w) q = Some Dir" by simp
  from in_dir_ok [OF r1] have "est w' \<in> {(est w)\<lparr>faults := fs\<rparr>} \<union>
      {st. \<exists>n. st = del_node tmp (set_node p n ((est w)\<lparr>faults := fs\<rparr>))}"
    by (auto split: option.splits node.splits if_splits dest!: sym [where t = "est w'"])
  then show ?thesis using dirs assms(2) by (auto simp: node_at_upd)
qed simp

lemma publish_rename_True: "publish_rename opts tmp p w = (Inr True, w') \<Longrightarrow> \<exists>u. os_Rename tmp p w = (Inr u, w')"
  by (auto simp: publish_rename_def catch_def bnd_ok ret_def fail_def bnd_def split: prod.splits sum.splits if_splits)

lemma SyncParentDir_healthy:
  assumes "healthy (est w)" "p \<noteq> []" "\<forall>q \<in> set (parents p). node_at (est w) q = Some Dir"
  shows "SyncParentDir p w = (Inr (), w)"
proof -
  have "set (parents p) = set (parents (butlast p)) \<union> (if butlast p = [] then {} else {butlast p})"
    using parents_snoc [of "butlast p" "last p"] assms(2) by auto
  then have "node_at (est w) (butlast p) = Some Dir" "\<forall>q \<in> set (parents (butlast p)). node_at (est w) q = Some Dir"
    using assms(3) by (cases "butlast p = []"; auto)+
  then show ?thesis
    using assms(1) ok_steps [OF assms(1)]
    by (simp add: SyncParentDir_def bnd_def os_OpenRead_def syscall_healthy in_dir_clear or_else_def ignore_def catch_def ret_def)
qed

lemma Publish_err_healthy:
  assumes "healthy (est w)" "Publish p r opts w = (Inl e, w')" "p \<noteq> []"
  shows "node_at (est w') p = node_at (est w) p"
proof (cases "publish_fill p r w")
  case (Pair y w1)
  have d1: "node_at (est w1) p = node_at (est w) p"
    by (rule keepsD [OF publish_fill_dest [OF assms(3)] Pair refl])
  have h1: "healthy (est w1)" by (rule keepsD [OF keeps_healthy_fill Pair assms(1)])
  show ?thesis
  proof (cases y)
    case (Inl e)
    with Pair assms(2) d1 show ?thesis by (auto simp: Publish_def bnd_def)
  next
    case (Inr tmp)
    from publish_fill_temp Pair Inr obtain i c t where
      tmp: "tmp = temp_name p i" "node_at (est w1) tmp = Some (Reg c t)" by blast
    obtain z w2 where ren: "publish_rename opts tmp p w1 = (z, w2)" by fastforce
    have h2: "healthy (est w2)" by (rule keepsD [OF keeps_healthy_rename ren h1])
    have ne: "tmp \<noteq> p" using tmp(1) assms(3) by simp
    show ?thesis
    proof (cases z)
      case z: (Inl e')
      with publish_rename_cases [OF ren ne assms(3) tmp(2)] d1 Pair Inr ren assms(2) show ?thesis
        by (auto simp: Publish_def bnd_def)
    next
      case z: (Inr b)
      have "b"
        using Pair Inr ren assms(2) z by (cases b) (auto simp: Publish_def bnd_def ret_def)
      with publish_rename_True [of opts tmp p w1 w2] ren z obtain u where "os_Rename tmp p w1 = (Inr u, w2)" by auto
      then have "SyncParentDir p w2 = (Inr (), w2)"
        using os_Rename_dirs temp_parents tmp(1) by (intro SyncParentDir_healthy h2 assms(3)) blast
      then show ?thesis using Pair Inr ren assms(2) z \<open>b\<close>
        by (auto simp: Publish_def bnd_def at_phase_def catch_def ret_def split: if_splits)
    qed
  qed
qed

section \<open>Operations that only read\<close>

definition reads_ok :: "('z osfs_scheme \<Rightarrow> bool) \<Rightarrow> bool" where
  "reads_ok I \<longleftrightarrow> (\<forall>p. keeps I (os_Lstat p) \<and> keeps I (os_Stat p) \<and> keeps I (os_OpenRead p) \<and> keeps I (os_WalkDir p))"

lemma reads_okD [keeps_intros]:
  assumes "reads_ok I"
  shows "keeps I (os_Lstat p)" "keeps I (os_Stat p)" "keeps I (os_OpenRead p)" "keeps I (os_WalkDir p)"
  using assms by (auto simp: reads_ok_def)

lemma reads_ok_control_free: "control_free I \<Longrightarrow> reads_ok I"
  by (simp add: reads_ok_def keeps_reads)

lemma reads_ok_healthy: "reads_ok healthy"
  by (simp add: reads_ok_def keeps_healthy_calls)

lemma keeps_open_retry: "reads_ok I \<Longrightarrow> keeps I (open_retry n p e)"
proof (induction n arbitrary: e)
  case (Suc n)
  show ?case
    by (simp only: open_retry.simps, rule keeps_bnd [OF keeps_attempt [OF reads_okD(3) [OF Suc.prems]]])
      (simp add: Suc keeps_intros split: sum.split)
qed (simp add: keeps_intros)

lemma keeps_list_loop: "keeps I (list_loop es ds)"
proof (induction es arbitrary: ds)
  case (Cons e es)
  obtain q n where "e = (q, n)" by fastforce
  then show ?case
    by (simp only: list_loop.simps, intro keeps_bnd keeps_attempt keeps_ctx_Err) (simp add: Cons keeps_intros split: sum.split)
qed (simp add: keeps_intros)

lemma keeps_walk [keeps_intros]: "keeps I (walk_failed e x)" "keeps I (walk_result what xe)"
  unfolding walk_failed_def walk_result_def by (intro keeps_intros, simp add: keeps_intros split: option.split)

lemma keeps_stats_loop: "reads_ok I \<Longrightarrow> keeps I (stats_loop es st)"
proof (induction es arbitrary: st)
  case (Cons e es)
  obtain q n where e: "e = (q, n)" by fastforce
  have "keeps I (bnd (attempt (os_Lstat q)) (\<lambda>i. case i of
               Inl e \<Rightarrow> if isNotExist e then stats_loop es st else ret (st, Some e)
             | Inr info \<Rightarrow>
                 stats_loop es (st\<lparr>TotalSize := TotalSize st + node_Size info, ObjectCount := ObjectCount st + 1\<rparr>)))"
    by (rule keeps_bnd [OF keeps_attempt [OF reads_okD(1) [OF Cons.prems]]]) (simp add: Cons keeps_intros split: sum.split)
  with e show ?case
    by (simp only: stats_loop.simps, intro keeps_bnd keeps_attempt keeps_ctx_Err) (simp add: Cons keeps_intros split: sum.split)
qed (simp add: keeps_intros)

lemma keeps_fs_reads:
  assumes "reads_ok I"
  shows "keeps I (fs_Get s d)" "keeps I (fs_Exists s d)" "keeps I (physicalStat s d what)" "keeps I (fs_List s)" "keeps I (fs_Stats s)"
proof -
  show "keeps I (fs_Get s d)" "keeps I (fs_Exists s d)" "keeps I (physicalStat s d what)"
    unfolding fs_Get_def fs_Exists_def physicalStat_def at_digestPath_def openWithRetry_def
    by (intro keeps_bnd keeps_ctx_Err keeps_when_err,
        simp add: keeps_intros keeps_open_retry assms reads_okD [OF assms] split: option.split sum.split)+
  show "keeps I (fs_List s)" "keeps I (fs_Stats s)"
    unfolding fs_List_def fs_Stats_def
    by (intro keeps_bnd keeps_ctx_Err keeps_attempt keeps_catch reads_okD [OF assms] keeps_fail keeps_walk keeps_ret,
        simp add: keeps_list_loop keeps_stats_loop assms keeps_walk split: sum.split)+
qed

text \<open>Such an operation keeps the invariant and the objects.\<close>

lemma fs_abs_control [simp]:
  "fs_abs s (st\<lparr>faults := fs\<rparr>) = fs_abs s st" "fs_abs s (st\<lparr>crashed := c\<rparr>) = fs_abs s st"
  "fs_abs s (st\<lparr>outside := o1\<rparr>) = fs_abs s st" "fs_abs s (st\<lparr>wplan := pl\<rparr>) = fs_abs s st"
  by (simp_all add: fs_abs_def fun_eq_iff)

lemma fs_read_frame:
  assumes "fs_inv s (est w)" "m w = (x, w')" "\<And>I. reads_ok I \<Longrightarrow> keeps I m"
  shows "fs_inv s (est w') \<and> fs_abs s (est w') = fs_abs s (est w)"
proof -
  have "healthy (est w')"
    using assms(1) by (intro keepsD [OF assms(3) [OF reads_ok_healthy] assms(2)]) (simp add: fs_inv_def)
  moreover have "control_free (\<lambda>st. fs_tree s st \<and> fs_abs s st = fs_abs s (est w))"
    using control_free_tree [of s] by (auto simp: control_free_def)
  note keepsD [OF assms(3) [OF reads_ok_control_free [OF this]] assms(2)]
  with assms(1) have "fs_tree s (est w') \<and> fs_abs s (est w') = fs_abs s (est w)"
    by (simp add: fs_inv_def)
  ultimately show ?thesis by (simp add: fs_inv_def)
qed

section \<open>What they answer\<close>

lemma dirs_verdict_slots: "\<forall>q \<in> set qs. dir_slot (m q) \<Longrightarrow> dirs_verdict m qs \<in> {Clear, Missing}"
  by (induction qs) (auto simp: dir_slot_def)

lemma in_dir_slot:
  assumes "slot_ok (node_at st) p" "node_at st p = None \<Longrightarrow> k st = (Inl ErrNotExist, st)"
  shows "in_dir p k st = k st"
proof (cases "node_at st p")
  case None
  with assms dirs_verdict_slots [of "parents p" "node_at st"] show ?thesis
    by (auto simp: in_dir_def slot_ok_def)
next
  case (Some n)
  with assms(1) show ?thesis by (intro in_dir_clear) (simp add: slot_ok_def)
qed

lemma slot_calls:
  assumes "healthy (est w)" "slot_ok (node_at (est w)) p"
  shows "os_Stat p w = ((case node_at (est w) p of None \<Rightarrow> Inl ErrNotExist | Some n \<Rightarrow> Inr n), w)" (is ?stat)
    "os_OpenRead p w = ((case node_at (est w) p of Some (Reg c _) \<Rightarrow> Inr (nop_closer c) | _ \<Rightarrow> Inl ErrNotExist), w)" (is ?open)
    "os_Remove p w = (if node_at (est w) p = None then (Inl ErrNotExist, w) else (Inr (), w\<lparr>est := del_node p (est w)\<rparr>))" (is ?remove)
proof -
  have f: "file_slot (node_at (est w) p)" using assms(2) by (simp add: slot_ok_def)
  show ?stat ?open ?remove
    using f assms(1) unfolding os_Stat_def os_OpenRead_def os_Remove_def syscall_healthy [OF assms(1)]
    by (subst in_dir_slot [OF assms(2)]; force simp: file_slot_def)+
qed

lemma at_digestPath_usable: "sane_layout s \<Longrightarrow> usable s d \<Longrightarrow> at_digestPath s d k = k (canon s d)"
  by (simp add: at_digestPath_def digestPath_canon usable_def)

lemma inv_slot: "fs_inv s st \<Longrightarrow> usable s d \<Longrightarrow> slot_ok (node_at st) (canon s d)"
  by (simp add: fs_inv_def fs_tree_slot)

lemma inv_object:
  assumes "fs_inv s st" "usable s d"
  shows "case node_at st (canon s d) of None \<Rightarrow> fs_abs s st d = None | Some n \<Rightarrow> (\<exists>c t. n = Reg c t \<and> fs_abs s st d = Some c)"
  using inv_slot [OF assms] assms(2) by (auto simp: slot_ok_def file_slot_def fs_abs_def split: option.splits)

lemma errors_wrapped [simp]: "errors_Is (Errorf m [e]) e"
  by simp

lemma fs_Get_eval:
  assumes "sane_layout s" "usable s d" "fs_inv s (est w)"
  shows "fs_Get s d w = (case ctx_Err w of (Inl e, w1) \<Rightarrow> (Inl e, w1) | (Inr _, w1) \<Rightarrow>
    ((case fs_abs s (est w) d of None \<Rightarrow> Inl (Errorf (Digest_String d) [ErrNotFound]) | Some c \<Rightarrow> Inr (nop_closer c)), w1))"
proof -
  obtain c w1 where c: "ctx_Err w = (c, w1)" by fastforce
  have e: "est w1 = est w" using ctx_Err_estD [OF c] .
  have h: "healthy (est w1)" "slot_ok (node_at (est w1)) (canon s d)"
    using assms inv_slot by (simp_all add: e fs_inv_def)
  have "openWithRetry (canon s d) w1 = ((case fs_abs s (est w) d of None \<Rightarrow> Inl ErrNotExist | Some c \<Rightarrow> Inr (nop_closer c)), w1)"
    using slot_calls(2) [OF h] inv_object [OF assms(3,2)]
    by (auto simp: openWithRetry_def eval_nat_numeral bnd_def attempt_def isNotExist_def fail_def ret_def e split: option.splits)
  then show ?thesis
    using c checkKey_usable [of s d "''fs: get''"] assms(1,2)
    by (auto simp: fs_Get_def at_digestPath_usable bnd_def when_err_def catch_def fail_def split: sum.splits option.splits)
qed

lemma fs_Exists_eval:
  assumes "sane_layout s" "usable s d" "fs_inv s (est w)"
  shows "fs_Exists s d w = (case ctx_Err w of (Inl e, w1) \<Rightarrow> (Inl e, w1) | (Inr _, w1) \<Rightarrow> (Inr (fs_abs s (est w) d \<noteq> None), w1))"
proof -
  obtain c w1 where c: "ctx_Err w = (c, w1)" by fastforce
  have e: "est w1 = est w" using ctx_Err_estD [OF c] .
  have h: "healthy (est w1)" "slot_ok (node_at (est w1)) (canon s d)"
    using assms inv_slot by (simp_all add: e fs_inv_def)
  show ?thesis
    using c checkKey_usable [of s d "''fs: exists''"] assms(1,2) slot_calls(1) [OF h] inv_object [OF assms(3,2)]
    by (auto simp: fs_Exists_def at_digestPath_usable bnd_def when_err_def attempt_def ret_def fail_def e split: sum.splits option.splits)
qed

lemma fs_Delete_eval:
  assumes "sane_layout s" "usable s d" "fs_inv s (est w)"
  shows "fs_Delete s d w = (case ctx_Err w of (Inl e, w1) \<Rightarrow> (Inl e, w1) | (Inr _, w1) \<Rightarrow>
    (Inr (), if fs_abs s (est w) d = None then w1 else w1\<lparr>est := del_node (canon s d) (est w)\<rparr>))"
proof -
  obtain c w1 where c: "ctx_Err w = (c, w1)" by fastforce
  have e: "est w1 = est w" using ctx_Err_estD [OF c] .
  have h: "healthy (est w1)" "slot_ok (node_at (est w1)) (canon s d)"
    using assms inv_slot by (simp_all add: e fs_inv_def)
  show ?thesis
    using c checkKey_usable [of s d "''fs: delete''"] assms(1,2) slot_calls(3) [OF h] inv_object [OF assms(3,2)]
    by (auto simp: fs_Delete_def at_digestPath_usable bnd_def when_err_def catch_def ret_def e split: sum.splits option.splits)
qed

lemma fs_inv_delete: "fs_inv s st \<Longrightarrow> fs_inv s (del_node (canon s d) st)"
  by (simp add: fs_inv_def fs_tree_delete)

lemma fs_abs_delete: "fs_abs s (del_node (canon s d) st) = (fs_abs s st)(d := None)"
  by (auto simp: fs_abs_def fun_eq_iff)

section \<open>Listing\<close>

definition entry_digest :: "path \<times> node \<Rightarrow> digest option" where
  "entry_digest e =
     (if snd e = Dir then None else case pathToDigest (fst e) of Inl _ \<Rightarrow> None | Inr d \<Rightarrow> Some d)"

lemma ctx_Err_cases: "ctx_Err w = (Inl e, w') \<Longrightarrow> \<not> errors_Is e ErrNotExist"
  using ctx_Err_error [of w e w'] by (auto simp: os_errors)

lemma list_loop_cases:
  assumes "list_loop es ds w = (x, w')"
  shows "x = Inr (ds @ List.map_filter entry_digest es, None) \<or> (\<exists>ds' e. x = Inr (ds', Some e) \<and> \<not> errors_Is e ErrNotExist)"
  using assms
proof (induction es arbitrary: ds w)
  case (Cons a es)
  obtain q n where a: "a = (q, n)" by fastforce
  obtain c w1 where c: "ctx_Err w = (c, w1)" by fastforce
  show ?case
  proof (cases c)
    case (Inl e)
    with Cons.prems a c ctx_Err_cases [of w e w1] show ?thesis by (auto simp: bnd_def attempt_def ret_def)
  next
    case (Inr u)
    with Cons.prems a c have "list_loop es (ds @ (case entry_digest a of None \<Rightarrow> [] | Some d \<Rightarrow> [d])) w1 = (x, w')"
      by (auto simp: bnd_def attempt_def entry_digest_def split: if_splits sum.splits)
    from Cons.IH [OF this] show ?thesis
      by (auto simp: List.map_filter_simps split: option.splits)
  qed
qed (auto simp: ret_def List.map_filter_simps)

lemma list_loop_live:
  "ectx w = Live \<Longrightarrow> list_loop es ds w = (Inr (ds @ List.map_filter entry_digest es, None), w)"
  by (induction es arbitrary: ds)
    (auto simp: bnd_def attempt_def ret_def entry_digest_def List.map_filter_simps split: sum.splits option.splits)

definition entries_below :: "path \<Rightarrow> 'z osfs_scheme \<Rightarrow> (path \<times> node) list" where
  "entries_below b st = (b, Dir) # sort_key fst (filter (\<lambda>(q, _). take (length b) q = b \<and> length b < length q) (nodes st))"

lemma base_calls:
  assumes "fs_inv s (est w)"
  shows "os_Stat (base s) w = (Inr Dir, w)" "os_WalkDir (base s) w = (Inr (entries_below (base s) (est w)), w)"
proof -
  have "base_ok s (node_at (est w))" "healthy (est w)" using assms by (auto simp: fs_inv_def fs_tree_def)
  then show "os_Stat (base s) w = (Inr Dir, w)" "os_WalkDir (base s) w = (Inr (entries_below (base s) (est w)), w)"
    by (simp_all add: os_Stat_def os_WalkDir_def syscall_healthy in_dir_clear base_ok_def entries_below_def)
qed

lemma entry_digest_iff:
  assumes "fs_inv s st" "(q, n) \<in> set (entries_below (base s) st)"
  shows "entry_digest (q, n) = Some d \<longleftrightarrow> q = canon s d \<and> fs_abs s st d \<noteq> None"
proof -
  have tree: "distinct (map fst (nodes st))" "named_ok s (node_at st)" using assms(1) by (auto simp: fs_inv_def fs_tree_def)
  consider "n = Dir" "q = base s" | "below (base s) q" "(q, n) \<in> set (nodes st)"
    using assms(2) by (auto simp: entries_below_def below_def)
  then show ?thesis
  proof cases
    case 1
    then show ?thesis using length_canon [of s d] by (auto simp: entry_digest_def)
  next
    case 2
    then have at: "node_at st q = Some n" using tree(1) by (auto simp: node_at_def below_def)
    show ?thesis
    proof
      assume "entry_digest (q, n) = Some d"
      then have "n \<noteq> Dir" "ParseDigest (last q) = Inr d"
        by (auto simp: entry_digest_def pathToDigest_def split: if_splits sum.splits)
      with tree(2) at 2(1) have u: "usable s d" "q = canon s d" by (auto simp: named_ok_def)
      with inv_object [OF assms(1) u(1)] at show "q = canon s d \<and> fs_abs s st d \<noteq> None" by auto
    next
      assume q: "q = canon s d \<and> fs_abs s st d \<noteq> None"
      then have "usable s d" "n \<noteq> Dir" using at by (auto simp: fs_abs_def split: if_splits)
      with q show "entry_digest (q, n) = Some d" by (simp add: entry_digest_def pathToDigest_canon usable_def)
    qed
  qed
qed

lemma map_filter_set: "set (List.map_filter f xs) = {y. \<exists>x \<in> set xs. f x = Some y}"
  by (force simp: List.map_filter_def)

lemma listed_digests:
  assumes "fs_inv s st"
  shows "set (List.map_filter entry_digest (entries_below (base s) st)) = dom (fs_abs s st)"
    "distinct (List.map_filter entry_digest (entries_below (base s) st))"
proof -
  let ?es = "entries_below (base s) st"
  have "\<exists>n. (canon s d, n) \<in> set ?es" if "fs_abs s st d \<noteq> None" for d
  proof -
    from that obtain n where "node_at st (canon s d) = Some n"
      by (auto simp: fs_abs_def split: if_splits option.splits)
    then have "(canon s d, n) \<in> set (nodes st)" by (auto simp: node_at_def dest: map_of_SomeD)
    then show ?thesis by (auto simp: entries_below_def length_canon)
  qed
  then show "set (List.map_filter entry_digest ?es) = dom (fs_abs s st)"
    unfolding map_filter_set
  proof (intro set_eqI iffI)
    fix d
    assume "d \<in> {y. \<exists>x \<in> set ?es. entry_digest x = Some y}"
    then obtain q n where "(q, n) \<in> set ?es" "entry_digest (q, n) = Some d" by auto
    with entry_digest_iff [OF assms] show "d \<in> dom (fs_abs s st)" by auto
  next
    fix d
    assume "d \<in> dom (fs_abs s st)"
    then obtain n where "(canon s d, n) \<in> set ?es" "fs_abs s st d \<noteq> None"
      using \<open>\<And>d. fs_abs s st d \<noteq> None \<Longrightarrow> \<exists>n. (canon s d, n) \<in> set ?es\<close> by blast
    with entry_digest_iff [OF assms, of "canon s d" n d] show "d \<in> {y. \<exists>x \<in> set ?es. entry_digest x = Some y}" by blast
  qed
  have dist: "distinct (map fst ?es)"
  proof -
    have "distinct (map fst (filter P (nodes st)))" for P
      using assms by (simp add: fs_inv_def fs_tree_def distinct_map_filter)
    then show ?thesis by (auto simp: entries_below_def distinct_map)
  qed
  have "inj_on (the \<circ> entry_digest) {e \<in> set ?es. entry_digest e \<noteq> None}"
  proof (rule inj_onI)
    fix a b
    assume ab: "a \<in> {e \<in> set ?es. entry_digest e \<noteq> None}" "b \<in> {e \<in> set ?es. entry_digest e \<noteq> None}"
      "(the \<circ> entry_digest) a = (the \<circ> entry_digest) b"
    then obtain d where "entry_digest a = Some d" "entry_digest b = Some d" by auto
    then have "fst a = fst b" using ab entry_digest_iff [OF assms, of "fst a" "snd a" d] entry_digest_iff [OF assms, of "fst b" "snd b" d] by simp
    moreover have "inj_on fst (set ?es)" using dist by (simp only: distinct_map)
    ultimately show "a = b" using ab by (auto dest: inj_onD)
  qed
  with dist show "distinct (List.map_filter entry_digest ?es)"
    by (simp add: List.map_filter_def distinct_map distinct_filter)
qed

lemma fs_List_live:
  assumes "fs_inv s (est w)" "ectx w = Live"
  shows "fs_List s w = (Inr (sort (List.map_filter entry_digest (entries_below (base s) (est w)))), w)"
  using base_calls [OF assms(1)] list_loop_live [OF assms(2)] assms(2)
  by (simp add: fs_List_def bnd_def catch_def attempt_def walk_result_def ret_def)

lemma fs_List_ok:
  assumes "fs_inv s (est w)" "fs_List s w = (Inr ds, w')"
  shows "set ds = dom (fs_abs s (est w))"
proof -
  obtain c w1 where c: "ctx_Err w = (c, w1)" by fastforce
  have e: "est w1 = est w" using ctx_Err_estD [OF c] .
  then have calls: "os_Stat (base s) w1 = (Inr Dir, w1)" "os_WalkDir (base s) w1 = (Inr (entries_below (base s) (est w)), w1)"
    using base_calls [of s w1] assms(1) by simp_all
  obtain x w2 where x: "list_loop (entries_below (base s) (est w)) [] w1 = (x, w2)" by fastforce
  have "ds = sort (List.map_filter entry_digest (entries_below (base s) (est w)))"
    using assms(2) c calls x list_loop_cases [OF x]
    by (auto simp: fs_List_def bnd_def catch_def attempt_def walk_result_def ret_def fail_def isNotExist_def split: sum.splits)
  then show ?thesis using listed_digests(1) [OF assms(1)] by simp
qed

section \<open>The contract\<close>

lemma fs_Put_inv:
  assumes "sane_layout s" "fs_inv s (est w)" "fs_Put s d r w = (x, w')"
  shows "fs_inv s (est w')"
  using keepsD [OF keeps_healthy_Put assms(3)] keepsD [OF keeps_fs_Put [OF assms(1)] assms(3)] assms(2)
  by (simp add: fs_inv_def)

lemma fs_Put_ok:
  assumes "sane_layout s" "fs_Put s d r w = (Inr (), w')" "clean_reader r"
  shows "d \<noteq> [] \<and> r_err r = None \<and>
    (\<exists>b. fs_abs s (est w') = (fs_abs s (est w))(d \<mapsto> b) \<and> (b = r_data r \<or> fs_abs s (est w) d = Some b))"
proof -
  have other: "fs_abs s (est w') = (fs_abs s (est w))(d := fs_abs s (est w') d)"
    using fs_Put_other [OF assms(1,2)] by (auto simp: fun_eq_iff)
  from fs_Put_this [OF assms(1,2) clean_proper [OF assms(3)]] show ?thesis
  proof (elim disjE conjE)
    assume "fs_abs s (est w') d = fs_abs s (est w) d"
      "Inr () = Inr () \<longrightarrow> usable s d \<and> fs_abs s (est w) d \<noteq> None \<and> r_err r = None"
    then obtain b where "usable s d" "fs_abs s (est w) d = Some b" "fs_abs s (est w') d = Some b" "r_err r = None" by auto
    then show ?thesis using other by (intro conjI exI [of _ b]) (simp_all add: usable_def)
  qed (use other in \<open>auto simp: usable_def\<close>)
qed

lemma fs_Put_err:
  assumes "sane_layout s" "fs_inv s (est w)" "fs_Put s d r w = (Inl e, w')"
  shows "fs_abs s (est w') = fs_abs s (est w)"
proof
  fix d'
  show "fs_abs s (est w') d' = fs_abs s (est w) d'"
  proof (cases "d' = d")
    case True
    from assms(1,3) show ?thesis
    proof (cases rule: fs_Put_cases)
      case (published y w1 w0)
      have "healthy (est w1)"
        using assms(2) published(5) by (intro keepsD [OF keeps_healthy_Validate published(6)]) (simp add: fs_inv_def)
      with published True Publish_err_healthy [of w1 "canon s d" r "put_options s"] show ?thesis
        by (cases y) (auto intro: fs_abs_node)
    qed (auto intro: fs_abs_node)
  qed (rule fs_Put_other [OF assms(1,3)])
qed

lemma finite_fs_abs: "fs_inv s st \<Longrightarrow> finite (dom (fs_abs s st))"
  using listed_digests(1) [of s st] by (metis finite_set)

lemma fs_Get_unusable:
  "\<not> usable s d \<Longrightarrow> fs_Get s d w = (x, w') \<Longrightarrow> \<exists>e. x = Inl e"
  "\<not> usable s d \<Longrightarrow> fs_Exists s d w = (y, w') \<Longrightarrow> \<exists>e. y = Inl e"
  "\<not> usable s d \<Longrightarrow> fs_Delete s d w = (z, w') \<Longrightarrow> (\<exists>e. z = Inl e) \<and> est w' = est w"
  using checkKey_usable [of s d "''fs: get''"] checkKey_usable [of s d "''fs: exists''"] checkKey_usable [of s d "''fs: delete''"]
  by (auto simp: fs_Get_def fs_Exists_def fs_Delete_def bnd_def when_err_def dest: ctx_Err_estD split: prod.splits sum.splits)

lemma fs_Delete_inv:
  assumes "sane_layout s" "fs_inv s (est w)" "fs_Delete s d w = (x, w')"
  shows "fs_inv s (est w') \<and> (x = Inr () \<longrightarrow> fs_abs s (est w') = (fs_abs s (est w))(d := None)) \<and>
    (\<forall>e. x = Inl e \<longrightarrow> fs_abs s (est w') = fs_abs s (est w))"
proof (cases "usable s d")
  case True
  obtain c w1 where c: "ctx_Err w = (c, w1)" by fastforce
  have "(fs_abs s (est w))(d := None) = fs_abs s (est w)" if "fs_abs s (est w) d = None" using that by (auto simp: fun_eq_iff)
  then show ?thesis
    using fs_Delete_eval [OF assms(1) True assms(2)] assms(2,3) c ctx_Err_estD [OF c]
    by (auto simp: fs_inv_delete fs_abs_delete split: sum.splits if_splits)
next
  case False
  then show ?thesis using fs_Get_unusable(3) [OF False assms(3)] assms(2) by auto
qed

interpretation fsb: reliable_backend "fs_backend (fs_default b sync)" "fs_abs (fs_default b sync)" "fs_inv (fs_default b sync)"
  for b sync
proof
  let ?s = "fs_default b sync"
  fix st :: "'a osfs_scheme" and w w' :: "'a osfs_scheme env" and d :: digest and r :: reader
  fix px dx :: "unit result" and e :: err and gx :: "readcloser result" and rc :: readcloser
  fix ex :: "bool result" and lx :: "digest list result" and sx :: "Stats result" and c :: bytes
  fix ds :: "digest list" and bo :: bool and mt and mx :: "int result"
  have us: "usable ?s d \<longleftrightarrow> d \<noteq> []" for d by (rule usable_default)
  show "fs_abs ?s st [] = None" by (simp add: fs_abs_def us)
  show "fs_inv ?s st \<Longrightarrow> finite (dom (fs_abs ?s st))" by (rule finite_fs_abs)
  show "fs_inv ?s (est w) \<Longrightarrow> b_Put (fs_backend ?s) d r w = (px, w') \<Longrightarrow> fs_inv ?s (est w')"
    using fs_Put_inv [OF sane_default] by (simp add: fs_backend_def)
  show "b_Put (fs_backend ?s) d r w = (Inr (), w') \<Longrightarrow> clean_reader r \<Longrightarrow> d \<noteq> [] \<and> r_err r = None \<and>
      (\<exists>b. fs_abs ?s (est w') = (fs_abs ?s (est w))(d \<mapsto> b) \<and> (b = r_data r \<or> fs_abs ?s (est w) d = Some b))"
    using fs_Put_ok [OF sane_default] by (simp add: fs_backend_def)
  show "fs_inv ?s (est w) \<Longrightarrow> b_Put (fs_backend ?s) d r w = (Inl e, w') \<Longrightarrow> fs_abs ?s (est w') = fs_abs ?s (est w)"
    using fs_Put_err [OF sane_default] by (simp add: fs_backend_def)
  show "fs_inv ?s (est w') \<and> fs_abs ?s (est w') = fs_abs ?s (est w)"
    if "fs_inv ?s (est w)" "b_Get (fs_backend ?s) d w = (gx, w')"
    using fs_read_frame [OF that(1) _ keeps_fs_reads(1)] that(2) by (simp add: fs_backend_def)
  show "r_err rc = None \<longrightarrow> fs_abs ?s (est w) d = Some (r_data rc)"
    if "fs_inv ?s (est w)" "b_Get (fs_backend ?s) d w = (Inr rc, w')"
  proof (cases "usable ?s d")
    case True
    with that fs_Get_eval [OF sane_default True that(1)] show ?thesis
      by (auto simp: fs_backend_def split: prod.splits sum.splits option.splits)
  next
    case False
    with that fs_Get_unusable(1) [OF False] show ?thesis by (force simp: fs_backend_def)
  qed
  show "fs_inv ?s (est w') \<and> fs_abs ?s (est w') = fs_abs ?s (est w)"
    if "fs_inv ?s (est w)" "b_Exists (fs_backend ?s) d w = (ex, w')"
    using fs_read_frame [OF that(1) _ keeps_fs_reads(2)] that(2) by (simp add: fs_backend_def)
  show "bo = (fs_abs ?s (est w) d \<noteq> None)" if "fs_inv ?s (est w)" "b_Exists (fs_backend ?s) d w = (Inr bo, w')"
  proof (cases "usable ?s d")
    case True
    with that fs_Exists_eval [OF sane_default True that(1)] show ?thesis
      by (auto simp: fs_backend_def split: prod.splits sum.splits)
  next
    case False
    with that fs_Get_unusable(2) [OF False] show ?thesis by (force simp: fs_backend_def)
  qed
  note del = fs_Delete_inv [OF sane_default]
  show "fs_inv ?s (est w) \<Longrightarrow> b_Delete (fs_backend ?s) d w = (dx, w') \<Longrightarrow> fs_inv ?s (est w')"
    "fs_inv ?s (est w) \<Longrightarrow> b_Delete (fs_backend ?s) d w = (Inr (), w') \<Longrightarrow> fs_abs ?s (est w') = (fs_abs ?s (est w))(d := None)"
    "fs_inv ?s (est w) \<Longrightarrow> b_Delete (fs_backend ?s) d w = (Inl e, w') \<Longrightarrow> fs_abs ?s (est w') = fs_abs ?s (est w)"
    using del [of b sync w d dx w'] del [of b sync w d "Inr ()" w'] del [of b sync w d "Inl e" w'] by (simp_all add: fs_backend_def)
  show "fs_inv ?s (est w') \<and> fs_abs ?s (est w') = fs_abs ?s (est w)"
    if "fs_inv ?s (est w)" "b_List (fs_backend ?s) w = (lx, w')"
    using fs_read_frame [OF that(1) _ keeps_fs_reads(4)] that(2) by (simp add: fs_backend_def)
  show "dom (fs_abs ?s (est w)) \<subseteq> set ds" if "fs_inv ?s (est w)" "b_List (fs_backend ?s) w = (Inr ds, w')"
    using fs_List_ok [OF that(1)] that(2) by (simp add: fs_backend_def)
  show "fs_inv ?s (est w') \<and> fs_abs ?s (est w') = fs_abs ?s (est w)"
    if "fs_inv ?s (est w)" "b_Stats (fs_backend ?s) w = (sx, w')"
    using fs_read_frame [OF that(1) _ keeps_fs_reads(5)] that(2) by (simp add: fs_backend_def)
  show "fs_inv ?s (est w') \<and> fs_abs ?s (est w') = fs_abs ?s (est w)"
    if "b_ModTime (fs_backend ?s) = Some mt" "fs_inv ?s (est w)" "mt d w = (mx, w')"
  proof (rule fs_read_frame [where m = "mt d", OF that(2,3)])
    fix I :: "'a osfs_scheme \<Rightarrow> bool"
    assume "reads_ok I"
    then show "keeps I (mt d)"
      using that(1) keeps_fs_reads(3) by (auto simp: fs_backend_def fs_ModTime_def intro!: keeps_intros split: prod.split)
  qed
  show "\<exists>rc w'. b_Get (fs_backend ?s) d w = (Inr rc, w') \<and> r_err rc = None \<and> rc_close rc = None \<and> ectx w' = Live"
    if "fs_inv ?s (est w)" "ectx w = Live" "fs_abs ?s (est w) d = Some c"
  proof -
    have "usable ?s d" using that(3) by (simp add: fs_abs_def split: if_splits)
    with fs_Get_eval [OF sane_default this that(1)] that(2,3) show ?thesis by (simp add: fs_backend_def nop_closer_def)
  qed
  show "\<exists>e w'. b_Get (fs_backend ?s) d w = (Inl e, w') \<and> errors_Is e ErrNotFound"
    if "fs_inv ?s (est w)" "ectx w = Live" "d \<noteq> []" "fs_abs ?s (est w) d = None"
    using fs_Get_eval [OF sane_default _ that(1), of d] us that(2-4) by (simp add: fs_backend_def)
  show "\<exists>b w'. b_Exists (fs_backend ?s) d w = (Inr b, w') \<and> ectx w' = Live"
    if "fs_inv ?s (est w)" "ectx w = Live" "d \<noteq> []"
    using fs_Exists_eval [OF sane_default _ that(1), of d] us that(2,3) by (simp add: fs_backend_def)
  show "\<exists>w'. b_Delete (fs_backend ?s) d w = (Inr (), w') \<and> ectx w' = Live"
    if "fs_inv ?s (est w)" "ectx w = Live" "d \<noteq> []"
    using fs_Delete_eval [OF sane_default _ that(1), of d] us that(2,3) by (simp add: fs_backend_def)
  show "\<exists>ds w'. b_List (fs_backend ?s) w = (Inr ds, w') \<and> set ds = dom (fs_abs ?s (est w)) \<and> distinct ds \<and> ectx w' = Live"
    if "fs_inv ?s (est w)" "ectx w = Live"
    using fs_List_live [OF that] listed_digests [OF that(1)] that(2) by (simp add: fs_backend_def)
qed

section \<open>A put succeeds\<close>

lemma os_Lstat_healthy:
  assumes "healthy (est w)" "\<forall>q \<in> set (parents p). node_at (est w) q = Some Dir"
  shows "os_Lstat p w = ((case node_at (est w) p of None \<Rightarrow> Inl ErrNotExist | Some n \<Rightarrow> Inr n), w)"
  using assms by (simp add: os_Lstat_def syscall_healthy in_dir_clear split: option.split)

lemma chain_loop_healthy:
  assumes "healthy (est w)"
  shows "\<forall>q \<in> insert cur (set (parents cur)). node_at (est w) q = Some Dir \<Longrightarrow>
    \<forall>r1 r2. rel = r1 @ r2 \<and> r1 \<noteq> [] \<and> r2 \<noteq> [] \<longrightarrow> dir_slot (node_at (est w) (cur @ r1)) \<Longrightarrow>
    rel \<noteq> [] \<longrightarrow> file_slot (node_at (est w) (cur @ rel)) \<Longrightarrow> chain_loop cur rel False w = (Inr (), w)"
proof (induction rel arbitrary: cur)
  case (Cons c rest)
  have dirs: "\<forall>q \<in> set (parents (cur @ [c])). node_at (est w) q = Some Dir"
    using Cons.prems(1) by (auto simp: parents_snoc)
  have next1: "dir_slot (node_at (est w) ((cur @ [c]) @ r1))" if "rest = r1 @ r2" "r1 \<noteq> []" "r2 \<noteq> []" for r1 r2
    using Cons.prems(2) that by (metis Cons_eq_appendI append.assoc append_Cons append_Nil list.distinct(1))
  note lstat = os_Lstat_healthy [OF assms dirs]
  show ?case
  proof (cases "rest = []")
    case True
    with Cons.prems(3) lstat show ?thesis
      by (auto simp: bnd_def attempt_def ret_def file_slot_def split: option.splits)
  next
    case False
    then have slot: "dir_slot (node_at (est w) (cur @ [c]))" using Cons.prems(2) by (metis append_Cons append_Nil list.distinct(1))
    have "chain_loop (cur @ [c]) rest False w = (Inr (), w)" if "node_at (est w) (cur @ [c]) = Some Dir"
      by (rule Cons.IH) (use dirs that next1 Cons.prems(3) in auto)
    with slot lstat show ?thesis
      by (auto simp: bnd_def attempt_def ret_def dir_slot_def split: option.splits)
  qed
qed (simp add: ret_def)

lemma ValidateFile_healthy:
  assumes "fs_inv s (est w)" "usable s d"
  shows "ValidateFile (base s) (canon s d) w = (Inr (), w)"
proof -
  have slot: "slot_ok (node_at (est w)) (canon s d)" by (rule inv_slot [OF assms])
  have "canon s d \<noteq> base s" using length_canon [of s d] by auto
  moreover have "chain_loop (base s) (drop (length (base s)) (canon s d)) False w = (Inr (), w)"
  proof (rule chain_loop_healthy)
    show "healthy (est w)" using assms(1) by (simp add: fs_inv_def)
    show "\<forall>q \<in> insert (base s) (set (parents (base s))). node_at (est w) q = Some Dir"
      using assms(1) by (simp add: fs_inv_def fs_tree_def base_ok_def)
    have split: "base s @ drop (length (base s)) (canon s d) = canon s d" by (metis append_take_drop_id canon_simps(3))
    show "\<forall>r1 r2. drop (length (base s)) (canon s d) = r1 @ r2 \<and> r1 \<noteq> [] \<and> r2 \<noteq> [] \<longrightarrow> dir_slot (node_at (est w) (base s @ r1))"
    proof (intro allI impI)
      fix r1 r2
      assume r: "drop (length (base s)) (canon s d) = r1 @ r2 \<and> r1 \<noteq> [] \<and> r2 \<noteq> []"
      then have "canon s d = (base s @ r1) @ r2" using split by simp
      then have "base s @ r1 \<in> set (parents (canon s d))" using r by (simp add: set_parents)
      then show "dir_slot (node_at (est w) (base s @ r1))" using slot by (simp add: slot_ok_def)
    qed
    show "drop (length (base s)) (canon s d) \<noteq> [] \<longrightarrow> file_slot (node_at (est w) (base s @ drop (length (base s)) (canon s d)))"
      using slot unfolding split slot_ok_def by blast
  qed
  ultimately show ?thesis by (simp add: ValidateFile_def validateChain_def)
qed

lemma fs_Put_live:
  assumes "sane_layout s" "fs_inv s (est w)" "ectx w = Live" "usable s d" "r_err r = None"
    and "\<exists>i < 10000. node_at (est w) (temp_name (canon s d) i) = None"
  shows "\<exists>st'. fs_Put s d r w = (Inr (), w\<lparr>est := st'\<rparr>) \<and> fs_inv s st' \<and> fs_abs s st' = (fs_abs s (est w))(d \<mapsto> r_data r) \<and>
    (\<forall>d' i. node_at st' (temp_name (canon s d') i) = node_at (est w) (temp_name (canon s d') i))"
proof -
  have slot: "slot_ok (node_at (est w)) (canon s d)" by (rule inv_slot [OF assms(2,4)])
  have "\<exists>st'. Publish (canon s d) r (put_options s) w = (Inr (), w\<lparr>est := st'\<rparr>) \<and> healthy st' \<and>
    outside st' = outside (est w) \<and> os_now st' = os_now (est w) \<and>
    (\<forall>q. node_at st' q = (if q = canon s d then Some (Reg (r_data r) (os_now (est w)))
       else if q \<in> set (parents (canon s d)) then Some Dir else node_at (est w) q))"
    by (rule Publish_healthy)
      (use assms slot in \<open>auto simp: fs_inv_def slot_ok_def file_slot_def dir_slot_def\<close>)
  then obtain st' where p: "Publish (canon s d) r (put_options s) w = (Inr (), w\<lparr>est := st'\<rparr>)"
    and at: "node_at st' q = (if q = canon s d then Some (Reg (r_data r) (os_now (est w)))
       else if q \<in> set (parents (canon s d)) then Some Dir else node_at (est w) q)" for q by blast
  have put: "fs_Put s d r w = (Inr (), w\<lparr>est := st'\<rparr>)"
    unfolding fs_Put_usable [OF assms(1,4)] using ValidateFile_healthy [OF assms(2,4)] p assms(3)
    by (simp add: bnd_def catch_def)
  have "canon s d' \<notin> set (parents (canon s d))" for d'
    using object_depth(2) [of "canon s d'" s d d] by (simp add: length_canon)
  then have "fs_abs s st' = (fs_abs s (est w))(d \<mapsto> r_data r)"
    using assms(4) at by (auto simp: fs_abs_def fun_eq_iff)
  moreover have "fs_inv s st'" using fs_Put_inv [OF assms(1,2) put] by simp
  moreover have "node_at st' (temp_name (canon s d') i) = node_at (est w) (temp_name (canon s d') i)" for d' i
    using at [of "temp_name (canon s d') i"] temp_not_canon [of "canon s d'" i s d]
      object_depth(2) [of "temp_name (canon s d') i" s d' d] by (simp add: length_temp_name)
  ultimately show ?thesis using put by blast
qed

text \<open>
  C8: On a working system a put of the file backend succeeds whenever the key fits the layout and one of the
  temporary names is free; every later read of the same key returns exactly the stream's bytes, the
  key is reported as present and is listed, and every other object reads as before.
\<close>

theorem fs_put_get:
  assumes "sane_layout s" "fs_inv s (est w)" "ectx w = Live" "usable s d" "r_err r = None"
    and "\<exists>i < 10000. node_at (est w) (temp_name (canon s d) i) = None"
  shows "\<exists>w'. fs_Put s d r w = (Inr (), w') \<and> fs_inv s (est w') \<and>
    fs_Get s d w' = (Inr (nop_closer (r_data r)), w') \<and> fs_Exists s d w' = (Inr True, w') \<and>
    (\<exists>ds. fs_List s w' = (Inr ds, w') \<and> sorted ds \<and> distinct ds \<and> set ds = insert d (dom (fs_abs s (est w)))) \<and>
    (\<forall>d'. usable s d' \<longrightarrow> d' \<noteq> d \<longrightarrow> fst (fs_Get s d' w') = fst (fs_Get s d' w))"
proof -
  from fs_Put_live [OF assms] obtain st' where st: "fs_Put s d r w = (Inr (), w\<lparr>est := st'\<rparr>)" "fs_inv s st'"
    "fs_abs s st' = (fs_abs s (est w))(d \<mapsto> r_data r)" by blast
  let ?w = "w\<lparr>est := st'\<rparr>"
  have inv: "fs_inv s (est ?w)" and live: "ectx ?w = Live" using st assms(3) by simp_all
  have "fs_Get s d ?w = (Inr (nop_closer (r_data r)), ?w)" "fs_Exists s d ?w = (Inr True, ?w)"
    using fs_Get_eval [OF assms(1,4) inv] fs_Exists_eval [OF assms(1,4) inv] live st(3) by simp_all
  moreover have "\<exists>ds. fs_List s ?w = (Inr ds, ?w) \<and> sorted ds \<and> distinct ds \<and> set ds = insert d (dom (fs_abs s (est w)))"
    using fs_List_live [OF inv live] listed_digests [OF st(2)] st(3) by simp
  moreover have "fst (fs_Get s d' ?w) = fst (fs_Get s d' w)" if "usable s d'" "d' \<noteq> d" for d'
    using fs_Get_eval [OF assms(1) that(1) inv] fs_Get_eval [OF assms(1) that(1) assms(2)] live assms(3) st(3) that(2) by simp
  ultimately show ?thesis using st(1,2) by (intro exI [of _ ?w]) simp
qed

theorem fs_put_get_witness:
  "\<exists>w'. fs_Put (fs_default [''s''] True) [7] demo_reader (fs_demo []) = (Inr (), w') \<and>
     fs_Get (fs_default [''s''] True) [7] w' = (Inr (nop_closer [2, 3]), w')"
proof -
  have "fs_inv (fs_default [''s''] True) (est (fs_demo []))"
    using fs_demo_tree by (simp add: fs_inv_def healthy_def fs_demo_def)
  moreover have "\<exists>i < 10000. node_at (est (fs_demo [])) (temp_name (canon (fs_default [''s''] True) [7]) i) = None"
    by (intro exI [of _ 0]) (simp add: fs_demo_def node_at_def temp_name_def canon_def butlast_append)
  moreover have "ectx (fs_demo []) = Live" "r_err demo_reader = None" "r_data demo_reader = [2, 3]"
    by (simp_all add: fs_demo_def demo_reader_def r_data_def)
  ultimately show ?thesis
    using fs_put_get [of "fs_default [''s''] True" "fs_demo []" "[7]" demo_reader] usable_default [of "[''s'']" True "[7]"]
    by auto
qed

end
