(* ===== verification/Fs_Maintenance.thy ===== *)
theory Fs_Maintenance
  imports Fs_Contract
begin

text \<open>
  The maintenance operations of \<open>src/cas/backend/fs/fs.go\<close> and \<open>policy.go\<close>: \<open>GC\<close>, \<open>Prune\<close> and
  \<open>Clean\<close>. Safety is shown for every schedule of failures and cancellations, exactness for a working
  system and a live context.
\<close>

section \<open>Deleting spares the others\<close>

lemma keeps_fs_Delete:
  assumes "sane_layout s" "control_free I" "\<And>st. I st \<Longrightarrow> I (del_node (canon s d) st)"
  shows "keeps I (fs_Delete s d)"
proof (cases "usable s d")
  case True
  have eq: "fs_Delete s d = bnd ctx_Err (\<lambda>_. bnd (when_err None) (\<lambda>_. catch (os_Remove (canon s d))
      (\<lambda>e. if errors_Is e ErrNotExist then ret () else fail (Errorf ''cas: delete object'' [e]))))"
    using True checkKey_usable [of s d "''fs: delete''"] by (simp add: fs_Delete_def at_digestPath_usable assms(1))
  show ?thesis unfolding eq by (intro keeps_intros keeps_os_Remove assms)
next
  case False
  show ?thesis
  proof (rule keepsI)
    fix w :: "'a osfs_scheme env"
    assume "I (est w)"
    moreover obtain x w' where "fs_Delete s d w = (x, w')" by fastforce
    ultimately show "I (est (snd (fs_Delete s d w)))" using fs_Get_unusable(3) [OF False] by force
  qed
qed

lemma Delete_spares: "sane_layout s \<Longrightarrow> d' \<noteq> d \<Longrightarrow> keeps (\<lambda>st. node_at st (canon s d') = v) (fs_Delete s d)"
  by (intro keeps_fs_Delete control_free_at) auto

lemma Delete_keeps_tree: "sane_layout s \<Longrightarrow> keeps (fs_tree s) (fs_Delete s d)"
  by (intro keeps_fs_Delete control_free_tree fs_tree_delete)

section \<open>GC\<close>

lemma gc_loop_spares:
  assumes "sane_layout s" "reachable (Digest_String d')"
  shows "keeps (\<lambda>st. node_at st (canon s d') = v) (gc_loop s reachable ds)"
proof (induction ds)
  case (Cons d ds)
  have "keeps (\<lambda>st. node_at st (canon s d') = v) (fs_Delete s d)" if "\<not> reachable (Digest_String d)"
    using that assms by (intro Delete_spares) auto
  with Cons show ?case by (auto intro!: keeps_bnd keeps_ctx_Err)
qed (simp add: keeps_intros)

lemma gc_loop_tree: "sane_layout s \<Longrightarrow> keeps (fs_tree s) (gc_loop s reachable ds)"
  by (induction ds) (auto intro!: keeps_bnd keeps_ctx_Err keeps_ret Delete_keeps_tree)

lemma gc_loop_live:
  assumes "sane_layout s"
  shows "fs_inv s (est w) \<Longrightarrow> ectx w = Live \<Longrightarrow> [] \<notin> set ds \<Longrightarrow>
    \<exists>w'. gc_loop s reachable ds w = (Inr (), w') \<and> fs_inv s (est w') \<and>
      fs_abs s (est w') = (\<lambda>d. if d \<in> set ds \<and> \<not> reachable (Digest_String d) then None else fs_abs s (est w) d)"
proof (induction ds arbitrary: w)
  case (Cons d ds)
  have ds: "[] \<notin> set ds" and d: "usable s d \<longleftrightarrow> addressable s d" using Cons.prems(3) by (auto simp: usable_def)
  show ?case
  proof (cases "addressable s d \<and> \<not> reachable (Digest_String d)")
    case True
    define w1 where "w1 = (if fs_abs s (est w) d = None then w else w\<lparr>est := del_node (canon s d) (est w)\<rparr>)"
    have del: "fs_Delete s d w = (Inr (), w1)"
      using fs_Delete_eval [OF assms _ Cons.prems(1), of d] True d Cons.prems(2) by (simp add: w1_def)
    have w1: "fs_inv s (est w1)" "ectx w1 = Live" "fs_abs s (est w1) = (fs_abs s (est w))(d := None)"
      using Cons.prems by (auto simp: w1_def fs_inv_delete fs_abs_delete fun_eq_iff)
    from Cons.IH [OF w1(1,2) ds] obtain w' where "gc_loop s reachable ds w1 = (Inr (), w')" "fs_inv s (est w')"
      "fs_abs s (est w') = (\<lambda>d. if d \<in> set ds \<and> \<not> reachable (Digest_String d) then None else fs_abs s (est w1) d)" by blast
    then show ?thesis using True del w1(3) Cons.prems(2)
      by (intro exI [of _ w']) (auto simp: bnd_def fun_eq_iff)
  next
    case False
    from Cons.IH [OF Cons.prems(1,2) ds] obtain w' where IH: "gc_loop s reachable ds w = (Inr (), w')" "fs_inv s (est w')"
      "fs_abs s (est w') = (\<lambda>d. if d \<in> set ds \<and> \<not> reachable (Digest_String d) then None else fs_abs s (est w) d)" by blast
    have "fs_abs s (est w) d = None" if "\<not> addressable s d" using that by (simp add: fs_abs_def usable_def)
    then show ?thesis using False IH Cons.prems(2) by (intro exI [of _ w']) (auto simp: bnd_def fun_eq_iff)
  qed
qed (simp add: ret_def)

text \<open>
  C12: \<open>GC\<close> never touches a reachable object, whatever call fails, wherever the process dies or the
  context is cancelled. On a working system and a live context it succeeds and removes exactly the
  stored objects whose digests are not in the reachable set.
\<close>

theorem fs_gc_exact:
  assumes "sane_layout s" "fs_tree s (est w)"
  shows "(\<forall>d. reachable (Digest_String d) \<longrightarrow> fs_abs s (est (snd (fs_GC s reachable w))) d = fs_abs s (est w) d) \<and>
    fs_tree s (est (snd (fs_GC s reachable w))) \<and>
    (healthy (est w) \<and> ectx w = Live \<longrightarrow>
      fst (fs_GC s reachable w) = Inr () \<and>
      fs_abs s (est (snd (fs_GC s reachable w))) = (\<lambda>d. if reachable (Digest_String d) then fs_abs s (est w) d else None))"
proof (intro conjI allI impI)
  fix d
  assume r: "reachable (Digest_String d)"
  have "keeps (\<lambda>st. node_at st (canon s d) = node_at (est w) (canon s d)) (fs_GC s reachable)"
    unfolding fs_GC_def
    by (intro keeps_bnd keeps_fs_reads reads_ok_control_free control_free_at gc_loop_spares assms(1) r)
  then show "fs_abs s (est (snd (fs_GC s reachable w))) d = fs_abs s (est w) d"
    unfolding keeps_def by (intro fs_abs_node) blast
next
  have "keeps (fs_tree s :: 'a osfs_scheme \<Rightarrow> bool) (fs_GC s reachable)"
    unfolding fs_GC_def by (intro keeps_bnd keeps_fs_reads reads_ok_control_free control_free_tree gc_loop_tree assms(1))
  then show "fs_tree s (est (snd (fs_GC s reachable w)))" using assms(2) by (simp add: keeps_def)
next
  assume h: "healthy (est w) \<and> ectx w = Live"
  then have inv: "fs_inv s (est w)" and live: "ectx w = Live" using assms(2) by (simp_all add: fs_inv_def)
  define ds where "ds = sort (List.map_filter entry_digest (entries_below (base s) (est w)))"
  have set: "set ds = dom (fs_abs s (est w))" using listed_digests(1) [OF inv] by (simp add: ds_def)
  then have "[] \<notin> set ds" by (auto simp: fs_abs_def usable_def)
  from gc_loop_live [OF assms(1) inv live this] obtain w' where w': "gc_loop s reachable ds w = (Inr (), w')"
    "fs_abs s (est w') = (\<lambda>d. if d \<in> set ds \<and> \<not> reachable (Digest_String d) then None else fs_abs s (est w) d)" by blast
  then have "fs_GC s reachable w = (Inr (), w')"
    using fs_List_live [OF inv live] by (simp add: fs_GC_def bnd_def ds_def)
  then show "fst (fs_GC s reachable w) = Inr ()"
    "fs_abs s (est (snd (fs_GC s reachable w))) = (\<lambda>d. if reachable (Digest_String d) then fs_abs s (est w) d else None)"
    using w'(2) set by (auto simp: fun_eq_iff dom_def)
qed

text \<open>A store with one object.\<close>

lemma fs_demo_filled:
  obtains w :: "osfs env" where "fs_inv (fs_default [''s''] True) (est w)" "ectx w = Live"
    "fs_abs (fs_default [''s''] True) (est w) = [[7] \<mapsto> [2, 3]]"
proof -
  let ?s = "fs_default [''s''] True"
  have inv: "fs_inv ?s (est (fs_demo []))" using fs_demo_tree by (simp add: fs_inv_def healthy_def fs_demo_def)
  have live: "ectx (fs_demo []) = Live" by (simp add: fs_demo_def)
  have temp: "\<exists>i < 10000. node_at (est (fs_demo [])) (temp_name (canon ?s [7]) i) = None"
    by (intro exI [of _ 0]) (simp add: fs_demo_def node_at_def temp_name_def canon_def butlast_append)
  have "r_err demo_reader = None" "r_data demo_reader = [2, 3]" by (simp_all add: demo_reader_def r_data_def)
  moreover have "fs_abs ?s (est (fs_demo [])) = Map.empty"
    by (auto simp: fs_abs_def fs_demo_def node_at_def canon_def fun_eq_iff)
  ultimately obtain st' :: osfs where "fs_inv ?s st'" "fs_abs ?s st' = [[7] \<mapsto> [2, 3]]"
    using fs_Put_live [OF sane_default inv live, of "[7]" demo_reader] temp usable_default [of "[''s'']" True "[7]"] by auto
  then show thesis using that [of "(fs_demo [])\<lparr>est := st'\<rparr>"] live by simp
qed

theorem fs_gc_exact_witness:
  "\<exists>w :: osfs env. fs_abs (fs_default [''s''] True) (est w) [7] = Some [2, 3] \<and>
     fs_abs (fs_default [''s''] True) (est (snd (fs_GC (fs_default [''s''] True) (\<lambda>h. h = ''07'') w))) [7] = Some [2, 3] \<and>
     fs_abs (fs_default [''s''] True) (est (snd (fs_GC (fs_default [''s''] True) (\<lambda>h. False) w))) [7] = None"
proof -
  obtain w :: "osfs env" where w: "fs_inv (fs_default [''s''] True) (est w)" "ectx w = Live"
    "fs_abs (fs_default [''s''] True) (est w) = [[7] \<mapsto> [2, 3]]" by (rule fs_demo_filled)
  have "Digest_String [7] = ''07''" by code_simp
  with w fs_gc_exact [of "fs_default [''s''] True" w "\<lambda>h. h = ''07''"] fs_gc_exact [of "fs_default [''s''] True" w "\<lambda>h. False"]
  show ?thesis by (intro exI [of _ w]) (auto simp: fs_inv_def)
qed

section \<open>Prune\<close>

lemma keeps_prune_collect: "reads_ok I \<Longrightarrow> keeps I (prune_collect s now minAge reachable ds)"
proof (induction ds)
  case (Cons d ds)
  have "keeps I (at_digestPath s d (\<lambda>p.
         bnd (attempt (os_Stat p)) (\<lambda>st. case st of
           Inl _ \<Rightarrow> prune_collect s now minAge reachable ds
         | Inr info \<Rightarrow>
             if time_Sub now (node_ModTime info) < minAge then prune_collect s now minAge reachable ds
             else bnd (prune_collect s now minAge reachable ds) (\<lambda>doomed. ret (d # doomed)))))"
    using Cons by (intro keeps_at_digestPath keeps_bnd keeps_attempt reads_okD) (auto simp: keeps_intros split: sum.split)
  with Cons show ?case by (simp only: prune_collect.simps) (intro keeps_bnd keeps_ctx_Err keeps_if, auto)
qed (simp add: keeps_intros)

lemma prune_collect_sound:
  assumes "sane_layout s"
  shows "prune_collect s now minAge reachable ds w = (Inr doomed, w') \<Longrightarrow> d \<in> set doomed \<Longrightarrow>
    \<not> reachable (Digest_String d) \<and> (\<exists>n. node_at (est w) (canon s d) = Some n \<and> \<not> time_Sub now (node_ModTime n) < minAge)"
proof (induction ds arbitrary: w doomed)
  case (Cons a ds)
  let ?rest = "prune_collect s now minAge reachable ds"
  from Cons.prems(1) obtain w1 where c: "ctx_Err w = (Inr (), w1)" by (auto simp: bnd_ok)
  have e: "est w1 = est w" using ctx_Err_estD [OF c] .
  show ?case
  proof (cases "\<not> addressable s a \<or> reachable (Digest_String a)")
    case True
    with Cons.prems(1) c have "?rest w1 = (Inr doomed, w')" by (auto simp: bnd_def split: if_splits)
    from Cons.IH [OF this Cons.prems(2)] e show ?thesis by simp
  next
    case False
    obtain st w2 where st: "os_Stat (canon s a) w1 = (st, w2)" by fastforce
    have at2: "node_at (est w2) = node_at (est w)"
      by (rule keepsD [OF keeps_reads(2) [OF control_free_node_at] st]) (simp add: e)
    define step where "step = (case st of Inl _ \<Rightarrow> False | Inr n \<Rightarrow> \<not> time_Sub now (node_ModTime n) < minAge)"
    from False have eq: "prune_collect s now minAge reachable (a # ds) w = (if step then bnd ?rest (\<lambda>doomed. ret (a # doomed)) w2 else ?rest w2)"
      using c st by (auto simp: bnd_def at_digestPath_def digestPath_canon assms attempt_def step_def split: sum.splits)
    obtain rest where rest: "?rest w2 = (Inr rest, w')" "doomed = (if step then a # rest else rest)"
      using trans [OF eq [symmetric] Cons.prems(1)] by (cases step) (auto simp: bnd_ok)
    show ?thesis
    proof (cases "d \<in> set rest")
      case True
      from Cons.IH [OF rest(1) True] at2 show ?thesis by simp
    next
      case ne: False
      with rest(2) Cons.prems(2) have "step" "d = a" by (auto split: if_splits)
      then obtain n where n: "st = Inr n" "\<not> time_Sub now (node_ModTime n) < minAge" by (auto simp: step_def split: sum.splits)
      with os_Stat_ok [of "canon s a" w1 n w2] st e False \<open>d = a\<close> show ?thesis by auto
    qed
  qed
qed (simp add: ret_def)

lemma prune_delete_spares: "sane_layout s \<Longrightarrow> d \<notin> set ds \<Longrightarrow> keeps (\<lambda>st. node_at st (canon s d) = v) (prune_delete s ds)"
  by (induction ds) (auto intro!: keeps_bnd keeps_ctx_Err keeps_ret Delete_spares)

text \<open>
  C17: \<open>Prune\<close> leaves alone every object that is reachable or younger than the minimum age, and a dry
  run leaves every object alone, whatever call fails, wherever the process dies and whenever the
  context is cancelled; what it reports as removed is neither reachable nor younger.
\<close>

theorem fs_prune_spares:
  assumes "sane_layout s"
    and "dryRun \<or> reachable (Digest_String d) \<or>
      (\<exists>n. node_at (est w) (canon s d) = Some n \<and> time_Sub (os_now (est w)) (node_ModTime n) < minAge)"
  shows "case fs_Prune s reachable minAge dryRun w of (x, w') \<Rightarrow>
    fs_abs s (est w') d = fs_abs s (est w) d \<and> (\<forall>doomed. x = Inr doomed \<longrightarrow> dryRun \<or> d \<notin> set doomed)"
proof -
  let ?keep = "\<lambda>st :: 'a osfs_scheme. node_at st (canon s d) = node_at (est w) (canon s d)"
  have cf: "control_free ?keep" "control_free (\<lambda>st :: 'a osfs_scheme. ?keep st \<and> os_now st = os_now (est w))"
    by (simp_all add: control_free_def)
  obtain l w1 where l: "fs_List s w = (l, w1)" by fastforce
  have k1: "?keep (est w1)" "os_now (est w1) = os_now (est w)"
    using keepsD [OF keeps_fs_reads(4) [OF reads_ok_control_free [OF cf(2)]] l] by simp_all
  show ?thesis
  proof (cases l)
    case (Inl e)
    with l k1(1) show ?thesis by (auto simp: fs_Prune_def bnd_def intro: fs_abs_node)
  next
    case (Inr digests)
    let ?collect = "prune_collect s (os_now (est w)) minAge reachable digests"
    obtain c w2 where c: "?collect w1 = (c, w2)" by fastforce
    have k2: "?keep (est w2)" by (rule keepsD [OF keeps_prune_collect [OF reads_ok_control_free [OF cf(1)]] c k1(1)])
    have run: "fs_Prune s reachable minAge dryRun w = (case c of Inl e \<Rightarrow> (Inl e, w2) | Inr doomed \<Rightarrow>
        if dryRun then (Inr doomed, w2) else bnd (prune_delete s doomed) (\<lambda>_. ret doomed) w2)"
      using l Inr c k1(2) by (auto simp: fs_Prune_def bnd_def time_now_def ret_def split: sum.splits)
    have spared: "d \<notin> set doomed" if "c = Inr doomed" "\<not> dryRun" for doomed
      using prune_collect_sound [OF assms(1), of "os_now (est w)" minAge reachable digests w1 doomed w2 d] c that assms(2) k1(1) by auto
    obtain y w3 where d3: "prune_delete s doomed w2 = (y, w3)" if "c = Inr doomed" for doomed by (cases c) fastforce+
    have "?keep (est w3)" if "c = Inr doomed" "\<not> dryRun" for doomed
      by (rule keepsD [OF prune_delete_spares [OF assms(1) spared [OF that]] d3 [OF that(1)] k2])
    then show ?thesis
      using run k2 spared d3 by (auto simp: bnd_def ret_def intro!: fs_abs_node split: sum.splits if_splits)
  qed
qed

theorem fs_prune_spares_witness:
  "\<exists>w :: osfs env. fs_abs (fs_default [''s''] True) (est w) [7] = Some [2, 3] \<and>
     fs_abs (fs_default [''s''] True) (est (snd (fs_Prune (fs_default [''s''] True) (\<lambda>h. h = ''07'') 0 False w))) [7] = Some [2, 3]"
proof -
  obtain w :: "osfs env" where w: "fs_inv (fs_default [''s''] True) (est w)" "ectx w = Live"
    "fs_abs (fs_default [''s''] True) (est w) = [[7] \<mapsto> [2, 3]]" by (rule fs_demo_filled)
  have "Digest_String [7] = ''07''" by code_simp
  with w fs_prune_spares [of "fs_default [''s''] True" False "\<lambda>h. h = ''07''" "[7]" w 0]
  show ?thesis by (intro exI [of _ w]) (auto split: prod.splits)
qed

section \<open>Clean\<close>

lemma keeps_if_cases: "(b \<Longrightarrow> keeps I m) \<Longrightarrow> (\<not> b \<Longrightarrow> keeps I n) \<Longrightarrow> keeps I (if b then m else n)"
  by simp

lemma keeps_case_result: "(\<And>e. keeps I (f e)) \<Longrightarrow> (\<And>x. keeps I (g x)) \<Longrightarrow> keeps I (case r of Inl e \<Rightarrow> f e | Inr x \<Rightarrow> g x)"
  by (simp split: sum.split)

lemma keeps_clean_loop:
  assumes "\<And>q. keeps I (os_Lstat q)" "\<And>q. IsTempFile (last q) \<Longrightarrow> keeps I (os_Remove q)"
  shows "keeps I (clean_loop olderThan cutoff es removed)"
proof (induction es arbitrary: removed)
  case (Cons e es)
  obtain q n where e: "e = (q, n)" by fastforce
  show ?case
    unfolding e clean_loop.simps
    by (intro keeps_bnd keeps_attempt keeps_ctx_Err keeps_case_result keeps_ret keeps_if_cases Cons assms) blast
qed (simp add: keeps_intros)

lemma keeps_cleanTemp:
  assumes "reads_ok I" "\<And>q. IsTempFile (last q) \<Longrightarrow> keeps I (os_Remove q)"
  shows "keeps I (cleanTemp root olderThan)"
proof -
  have "keeps I (clean_loop olderThan cutoff es removed)" for cutoff es removed
    using assms by (intro keeps_clean_loop reads_okD)
  moreover have "keeps I time_now" by (simp add: keeps_def time_now_def)
  ultimately show ?thesis
    unfolding cleanTemp_def
    by (intro keeps_bnd keeps_ctx_Err keeps_attempt reads_okD(4) [OF assms(1)])
      (auto intro!: keeps_bnd keeps_attempt keeps_ctx_Err simp: keeps_intros split: sum.split option.split)
qed

text \<open>On a working system the loop removes the temporary files among the entries.\<close>

definition temp_entry :: "path \<times> node \<Rightarrow> bool" where
  "temp_entry e \<longleftrightarrow> snd e \<noteq> Dir \<and> IsTempFile (last (fst e))"

lemma os_Remove_file:
  assumes "healthy (est w)" "rooted (est w)" "node_at (est w) q = Some n" "n \<noteq> Dir"
  shows "os_Remove q w = (Inr (), w\<lparr>est := del_node q (est w)\<rparr>)"
  using assms by (cases n) (auto simp: os_Remove_def syscall_healthy in_dir_clear rooted_def)

lemma rooted_del_file: "rooted st \<Longrightarrow> node_at st q = Some n \<Longrightarrow> n \<noteq> Dir \<Longrightarrow> rooted (del_node q st)"
  by (auto simp: rooted_def split: if_splits)

lemma clean_loop_exact:
  assumes "olderThan \<le> 0"
  shows "healthy (est w) \<Longrightarrow> rooted (est w) \<Longrightarrow> ectx w = Live \<Longrightarrow> distinct (map fst es) \<Longrightarrow>
    \<forall>(q, n) \<in> set es. node_at (est w) q = Some n \<Longrightarrow>
    \<exists>st'. clean_loop olderThan cutoff es removed w = (Inr (removed + length (filter temp_entry es), None), w\<lparr>est := st'\<rparr>) \<and>
      (\<forall>q. node_at st' q = (if \<exists>n. (q, n) \<in> set es \<and> temp_entry (q, n) then None else node_at (est w) q))"
proof (induction es arbitrary: w removed)
  case Nil
  then show ?case by (auto simp: ret_def intro: exI [of _ "est w"])
next
  case (Cons e es)
  obtain q n where e: "e = (q, n)" by fastforce
  have at: "node_at (est w) q = Some n" using Cons.prems(5) e by simp
  show ?case
  proof (cases "temp_entry (q, n)")
    case False
    from Cons.IH [of w removed] Cons.prems obtain st' where
      "clean_loop olderThan cutoff es removed w = (Inr (removed + length (filter temp_entry es), None), w\<lparr>est := st'\<rparr>)"
      "\<forall>q. node_at st' q = (if \<exists>n. (q, n) \<in> set es \<and> temp_entry (q, n) then None else node_at (est w) q)" by auto
    moreover have "n = Dir \<or> \<not> IsTempFile (last q)" using False by (auto simp: temp_entry_def)
    ultimately show ?thesis using False e Cons.prems(3)
      by (intro exI [of _ st']) (auto simp: bnd_def attempt_def)
  next
    case True
    then have n: "n \<noteq> Dir" "IsTempFile (last q)" by (auto simp: temp_entry_def)
    let ?w = "w\<lparr>est := del_node q (est w)\<rparr>"
    have q: "q \<noteq> []" using at n(1) by (auto simp: node_at_def)
    have fresh: "(q, n') \<notin> set es" for n' using Cons.prems(4) e by (force simp: image_iff)
    have "\<forall>(q', n') \<in> set es. node_at (est ?w) q' = Some n'"
    proof (intro ballI, clarify)
      fix q' n'
      assume i: "(q', n') \<in> set es"
      then have "q' \<noteq> q" using fresh by blast
      then show "node_at (est ?w) q' = Some n'" using Cons.prems(5) i by auto
    qed
    with Cons.IH [of ?w "removed + 1"] Cons.prems rooted_del_file [OF _ at n(1)] obtain st' where
      IH: "clean_loop olderThan cutoff es (removed + 1) ?w =
        (Inr (removed + 1 + length (filter temp_entry es), None), ?w\<lparr>est := st'\<rparr>)"
      "\<forall>q'. node_at st' q' = (if \<exists>n. (q', n) \<in> set es \<and> temp_entry (q', n) then None else node_at (est ?w) q')" by auto
    have "clean_loop olderThan cutoff (e # es) removed w = clean_loop olderThan cutoff es (removed + 1) ?w"
      using e n assms Cons.prems(1-3) os_Remove_file [OF _ _ at n(1)] by (simp add: bnd_def attempt_def ret_def)
    with IH e True q show ?thesis by (intro exI [of _ st']) auto
  qed
qed

lemma fs_inv_without_temps:
  assumes "fs_inv s st" "healthy st'" "distinct (map fst (nodes st'))"
    and at: "\<And>q. node_at st' q = (if \<exists>n. node_at st q = Some n \<and> n \<noteq> Dir \<and> below (base s) q \<and> IsTempFile (last q) then None else node_at st q)"
  shows "fs_inv s st' \<and> fs_abs s st' = fs_abs s st"
proof -
  have dirs: "node_at st' q = Some Dir \<longleftrightarrow> node_at st q = Some Dir" for q using at [of q] by auto
  have sub: "node_at st' q = None \<or> node_at st' q = node_at st q" for q using at [of q] by auto
  have obj: "node_at st' (canon s d) = node_at st (canon s d)" for d
    using at [of "canon s d"] IsTempFile_plain [OF Digest_String_no_dot [of d]] by simp
  have tree: "fs_tree s st" using assms(1) by (simp add: fs_inv_def)
  have "slot_ok (node_at st') (canon s d)" if "usable s d" for d
    using fs_tree_slot [OF tree that] obj sub dirs unfolding slot_ok_def file_slot_def dir_slot_def by metis
  moreover have "base_ok s (node_at st')" using tree dirs by (simp add: fs_tree_def base_ok_def)
  moreover have "named_ok s (node_at st')" using tree sub unfolding fs_tree_def named_ok_def by (metis option.distinct(1))
  ultimately have "fs_tree s st'" using assms(3) by (simp add: fs_tree_def)
  then show ?thesis using assms(2) obj by (simp add: fs_inv_def fs_abs_def fun_eq_iff)
qed

lemma distinct_kept_cleanTemp: "keeps (\<lambda>st. distinct (map fst (nodes st))) (cleanTemp root olderThan)"
  by (rule keeps_cleanTemp [OF reads_ok_control_free])
    (auto simp: control_free_def intro!: keeps_os_Remove distinct_nodes(2))

text \<open>
  C16: The sweep of temporary files removes nothing that does not have a temporary name, for any age
  limit, schedule of failures and cancellation, so it never removes an object. On a working system, with a
  live context and no age limit, it removes exactly the files with a temporary name below the base,
  reports how many, and the objects and the tree of the store stay as they are.
\<close>

theorem fs_clean_exact:
  assumes "sane_layout s"
  shows "(\<forall>q. \<not> IsTempFile (last q) \<longrightarrow> node_at (est (snd (fs_Clean s olderThan w))) q = node_at (est w) q) \<and>
    (fs_inv s (est w) \<and> rooted (est w) \<and> ectx w = Live \<and> olderThan \<le> 0 \<longrightarrow>
      fst (fs_Clean s olderThan w) = Inr (length (filter temp_entry (entries_below (base s) (est w))), None) \<and>
      fs_abs s (est (snd (fs_Clean s olderThan w))) = fs_abs s (est w) \<and> fs_inv s (est (snd (fs_Clean s olderThan w))) \<and>
      (\<forall>q. node_at (est (snd (fs_Clean s olderThan w))) q =
        (if \<exists>n. node_at (est w) q = Some n \<and> n \<noteq> Dir \<and> below (base s) q \<and> IsTempFile (last q) then None
         else node_at (est w) q)))"
proof (intro conjI allI impI)
  fix q
  assume "\<not> IsTempFile (last q)"
  then have "keeps (\<lambda>st. node_at st q = node_at (est w) q) (fs_Clean s olderThan)"
    unfolding fs_Clean_def
    by (intro keeps_cleanTemp reads_ok_control_free control_free_at keeps_os_Remove) auto
  then show "node_at (est (snd (fs_Clean s olderThan w))) q = node_at (est w) q"
    unfolding keeps_def by blast
next
  let ?es = "entries_below (base s) (est w)"
  assume a: "fs_inv s (est w) \<and> rooted (est w) \<and> ectx w = Live \<and> olderThan \<le> 0"
  then have inv: "fs_inv s (est w)" and h: "healthy (est w)" and dist: "distinct (map fst (nodes (est w)))"
    and b: "node_at (est w) (base s) = Some Dir"
    by (auto simp: fs_inv_def fs_tree_def base_ok_def)
  have mem: "(q, n) \<in> set ?es \<longleftrightarrow> node_at (est w) q = Some n \<and> (q = base s \<or> below (base s) q)" for q n
  proof (cases "q = base s")
    case True
    then show ?thesis using b by (auto simp: entries_below_def)
  next
    case False
    then show ?thesis using dist by (auto simp: entries_below_def below_def node_at_def)
  qed
  have "distinct (map fst (filter P (nodes (est w))))" for P using dist by (simp add: distinct_map_filter)
  then have "distinct (map fst ?es)" by (auto simp: entries_below_def distinct_map)
  with clean_loop_exact [of olderThan w ?es "os_now (est w) - olderThan" 0] a h mem obtain st' where
    run: "clean_loop olderThan (os_now (est w) - olderThan) ?es 0 w = (Inr (length (filter temp_entry ?es), None), w\<lparr>est := st'\<rparr>)"
    and at: "\<forall>q. node_at st' q = (if \<exists>n. (q, n) \<in> set ?es \<and> temp_entry (q, n) then None else node_at (est w) q)" by auto
  then have clean: "fs_Clean s olderThan w = (Inr (length (filter temp_entry ?es), None), w\<lparr>est := st'\<rparr>)"
    using base_calls(2) [OF inv] a by (simp add: fs_Clean_def cleanTemp_def bnd_def attempt_def time_now_def ret_def)
  have at': "node_at st' q = (if \<exists>n. node_at (est w) q = Some n \<and> n \<noteq> Dir \<and> below (base s) q \<and> IsTempFile (last q) then None
         else node_at (est w) q)" for q
    using at [rule_format, of q] mem [of q] b by (auto simp: temp_entry_def)
  have "distinct (map fst (nodes st'))"
    using keepsD [OF distinct_kept_cleanTemp clean [unfolded fs_Clean_def]] dist by simp
  moreover have "healthy st'"
    using keepsD [OF keeps_cleanTemp [OF reads_ok_healthy keeps_healthy_calls(5)] clean [unfolded fs_Clean_def]] h by simp
  ultimately have final: "fs_inv s st' \<and> fs_abs s st' = fs_abs s (est w)"
    using at' by (intro fs_inv_without_temps [OF inv]) auto
  show "fst (fs_Clean s olderThan w) = Inr (length (filter temp_entry ?es), None)"
    "fs_abs s (est (snd (fs_Clean s olderThan w))) = fs_abs s (est w)" "fs_inv s (est (snd (fs_Clean s olderThan w)))"
    using clean final by simp_all
  show "node_at (est (snd (fs_Clean s olderThan w))) q =
        (if \<exists>n. node_at (est w) q = Some n \<and> n \<noteq> Dir \<and> below (base s) q \<and> IsTempFile (last q) then None
         else node_at (est w) q)" for q
    using clean at' by simp
qed

definition clean_demo :: "osfs env" where
  "clean_demo = \<lparr>ectx = Live, est = (est (fs_demo []))\<lparr>nodes := [([''s''], Dir), ([''s'', ''x.tmp''], Reg [1] 0)]\<rparr>\<rparr>"

lemma clean_demo_at: "node_at (est clean_demo) q = (if q = [''s'', ''x.tmp''] then Some (Reg [1] 0) else node_at (est (fs_demo [])) q)"
  by (simp add: clean_demo_def fs_demo_def node_at_def)

lemma fan_chars: "c \<in> set (fan_of s h @ [h]) \<Longrightarrow> set c \<subseteq> set h"
  by (auto simp: fan_of_def dest: in_set_takeD in_set_dropD)

lemma clean_demo_tree: "fs_tree (fs_default [''s''] True) (est clean_demo)"
proof -
  let ?s = "fs_default [''s''] True"
  have old: "base_ok ?s (node_at (est (fs_demo [])))" "named_ok ?s (node_at (est (fs_demo [])))"
    "usable ?s d \<Longrightarrow> slot_ok (node_at (est (fs_demo []))) (canon ?s d)" for d
    using fs_demo_tree [of "[]"] by (simp_all add: fs_tree_def)
  have "\<not> is_ok (ParseDigest ''x.tmp'')" by code_simp
  then have "named_ok ?s (node_at (est clean_demo))" using old(2) by (auto simp: named_ok_def clean_demo_at)
  moreover have "base_ok ?s (node_at (est clean_demo))" by (simp add: base_ok_def clean_demo_def node_at_def parents_def)
  moreover have "slot_ok (node_at (est clean_demo)) (canon ?s d)" if "usable ?s d" for d
  proof -
    have "[''s'', ''x.tmp''] \<notin> insert (canon ?s d) (set (parents (canon ?s d)))"
    proof
      assume "[''s'', ''x.tmp''] \<in> insert (canon ?s d) (set (parents (canon ?s d)))"
      then obtain r where "fan_of ?s (Digest_String d) @ [Digest_String d] = ''x.tmp'' # r" by (auto simp: set_parents canon_def)
      then have "''x.tmp'' \<in> set (fan_of ?s (Digest_String d) @ [Digest_String d])" by (metis list.set_intros(1))
      then have "set ''x.tmp'' \<subseteq> set (Digest_String d)" by (rule fan_chars)
      then show False using Digest_String_no_dot [of d] by simp
    qed
    with old(3) [OF that] show ?thesis unfolding slot_ok_def clean_demo_at
      by (auto simp: file_slot_def)
  qed
  ultimately show ?thesis by (simp add: fs_tree_def clean_demo_def)
qed

theorem fs_clean_exact_witness:
  "fst (fs_Clean (fs_default [''s''] True) 0 clean_demo) = Inr (1, None) \<and>
   node_at (est clean_demo) [''s'', ''x.tmp''] = Some (Reg [1] 0) \<and>
   node_at (est (snd (fs_Clean (fs_default [''s''] True) 0 clean_demo))) [''s'', ''x.tmp''] = None \<and>
   node_at (est (snd (fs_Clean (fs_default [''s''] True) 0 clean_demo))) [''s''] = Some Dir"
proof -
  have temp: "IsTempFile ''x.tmp''" "\<not> IsTempFile ''s''" by code_simp+
  have "fs_inv (fs_default [''s''] True) (est clean_demo)" "ectx clean_demo = Live"
    using clean_demo_tree by (simp_all add: fs_inv_def) (simp_all add: healthy_def clean_demo_def fs_demo_def)
  moreover have "rooted (est clean_demo)"
    by (auto simp: rooted_def clean_demo_def node_at_def set_parents Cons_eq_append_conv split: if_splits)
  moreover have "length (filter temp_entry (entries_below [''s''] (est clean_demo))) = 1"
    using temp by (simp add: entries_below_def clean_demo_def fs_demo_def temp_entry_def below_def)
  moreover have "node_at (est clean_demo) [''s''] = Some Dir" "node_at (est clean_demo) [''s'', ''x.tmp''] = Some (Reg [1] 0)"
    by (simp_all add: clean_demo_def node_at_def)
  ultimately show ?thesis
    using fs_clean_exact [of "fs_default [''s''] True" 0 clean_demo] temp by (simp add: below_def)
qed

end
