(* ===== verification/Refs_Store.thy ===== *)
theory Refs_Store
  imports Fs_Contract
begin

text \<open>
  \<open>src/cas/refs/refs.go\<close>: named mutable pointers to digests, one file each below a directory, with an
  append-only log per name. The state is the file tree of \<open>Os_Files\<close>, whose clock is the log's time
  source. Names are byte strings; the test for control characters reads bytes, which agrees with the
  source's runes because the rejected runes are one byte long, and lower-casing is ASCII, which agrees
  for the reserved names.

  Shown: the value file of a ref is replaced atomically under every schedule; a set ref reads back and
  its log gains the transition; the log format round-trips; prefix resolution; accepted names stay
  below the directory and away from the logs. Also what goes wrong: a torn log line can name a digest
  that never was, and swallows the entry written after it; a ref whose name ends in \<open>.tmp\<close> is
  accepted but never listed.
\<close>

section \<open>Names\<close>

definition refs_ErrNotFound :: err where
  "refs_ErrNotFound = ErrorsNew ''refs: not found''"

definition ErrAmbiguous :: err where
  "ErrAmbiguous = ErrorsNew ''refs: ambiguous name''"

definition ErrInvalidName :: err where
  "ErrInvalidName = ErrorsNew ''refs: invalid name''"

definition logSubdir :: string where
  "logSubdir = ''.log''"

definition windowsReservedChars :: string where
  "windowsReservedChars =
     [CHR ''<'', CHR ''>'', CHR '':'', CHR 0x22, CHR ''|'', CHR ''?'', CHR ''*'', CHR 0x5C]"

definition windowsReservedNames :: "string list" where
  "windowsReservedNames =
     [''con'', ''prn'', ''aux'', ''nul'',
      ''com0'', ''com1'', ''com2'', ''com3'', ''com4'', ''com5'', ''com6'', ''com7'', ''com8'', ''com9'',
      ''lpt0'', ''lpt1'', ''lpt2'', ''lpt3'', ''lpt4'', ''lpt5'', ''lpt6'', ''lpt7'', ''lpt8'', ''lpt9'']"

definition invalid_name :: "string \<Rightarrow> unit result" where
  "invalid_name why = Inl (Errorf why [ErrInvalidName])"

fun validate_parts :: "string list \<Rightarrow> unit result" where
  "validate_parts [] = Inr ()"
| "validate_parts (part # parts) =
     (if part = '''' then invalid_name ''empty path segment''
      else if part = ''.'' \<or> part = ''..'' then invalid_name ''dot segment''
      else if HasPrefix part ''.'' then invalid_name ''must not start with a dot''
      else if HasSuffix part ''.lock'' then invalid_name ''must not end with .lock''
      else if HasSuffix part '' '' \<or> HasSuffix part ''.'' then invalid_name ''must not end with a space or a dot''
      else if ContainsAny part windowsReservedChars then invalid_name ''contains a reserved character''
      else if ToLower (hd (strings_SplitN (CHR ''.'') 2 part)) \<in> set windowsReservedNames
        then invalid_name ''is a reserved device name''
      else validate_parts parts)"

definition ValidateName :: "string \<Rightarrow> unit result" where
  "ValidateName name =
     (if name = '''' then invalid_name ''empty name''
      else if list_ex (\<lambda>c. of_char c < (0x20 :: nat) \<or> of_char c = (0x7f :: nat)) name then invalid_name ''control character''
      else if HasPrefix name ''/'' then invalid_name ''absolute path''
      else validate_parts (strings_Split (CHR ''/'') name))"

section \<open>Values\<close>

record refs =
  refs_dir :: string

text \<open>The directory as a path of components.\<close>

abbreviation refs_base :: "refs \<Rightarrow> path" where
  "refs_base s \<equiv> path_parts (refs_dir s)"

definition refs_Open :: "string \<Rightarrow> ('z osfs_scheme, refs) act" where
  "refs_Open dir =
     (if dir = '''' then fail (ErrorsNew ''refs: open: empty directory'')
      else
        bnd (catch (os_MkdirAll (path_parts dir)) (\<lambda>e. fail (Errorf ''refs: open'' [e]))) (\<lambda>_.
          ret \<lparr>refs_dir = dir\<rparr>))"

text \<open>The joined paths are cleaned, so for a name that was not checked they may lead anywhere; \<open>FromSlash\<close> is the identity here.\<close>

definition valuePath :: "refs \<Rightarrow> string \<Rightarrow> path" where
  "valuePath s name = path_parts (filepath_Join (refs_dir s) name)"

definition logPath :: "refs \<Rightarrow> string \<Rightarrow> path" where
  "logPath s name = path_parts (filepath_Join (refs_dir s) (logSubdir @ ''/'' @ name))"

definition readValue :: "refs \<Rightarrow> string \<Rightarrow> ('z osfs_scheme, digest) act" where
  "readValue s name =
     bnd (attempt (os_ReadFile (valuePath s name))) (\<lambda>r. case r of
       Inl e \<Rightarrow>
         if errors_Is e ErrNotExist then fail (Errorf name [refs_ErrNotFound])
         else fail (Errorf (''refs: get '' @ name) [e])
     | Inr data \<Rightarrow>
         (case ParseDigest (TrimSpace (string_of data)) of
            Inl e \<Rightarrow> fail (Errorf (''refs: get '' @ name) [e])
          | Inr d \<Rightarrow> ret d))"

definition refs_Get :: "refs \<Rightarrow> string \<Rightarrow> ('z osfs_scheme, digest) act" where
  "refs_Get s name = bnd ctx_Err (\<lambda>_. bnd (of_result (ValidateName name)) (\<lambda>_. readValue s name))"

definition refs_options :: Options where
  "refs_options = \<lparr>Mode = 420, SyncDir = True, ExistingIsSuccess = False\<rparr>"

definition writeFileAtomic :: "path \<Rightarrow> bytes \<Rightarrow> ('z osfs_scheme, unit) act" where
  "writeFileAtomic p data = Publish p (bytes_reader data) refs_options"

section \<open>The log\<close>

definition tab :: char where
  "tab = CHR 0x09"

definition newline :: char where
  "newline = CHR 0x0A"

record Entry =
  e_Digest :: digest
  e_Old :: digest
  e_Time :: int

definition log_line :: "int \<Rightarrow> digest \<Rightarrow> digest \<Rightarrow> string" where
  "log_line ns next1 old = Itoa ns @ tab # Digest_String next1 @ tab # Digest_String old @ [newline]"

definition appendLog :: "refs \<Rightarrow> string \<Rightarrow> digest \<Rightarrow> digest \<Rightarrow> ('z osfs_scheme, unit) act" where
  "appendLog s name old next1 =
     (let p = logPath s name in
      bnd (os_MkdirAll (butlast p)) (\<lambda>_.
      bnd (os_OpenAppend p) (\<lambda>_.
      bnd (or_else
             (bnd time_now (\<lambda>ns.
              bnd (os_Write p (bytes_of (log_line ns next1 old))) (\<lambda>_.
              bnd (os_Sync p) (\<lambda>_.
                catch (os_Close p) (\<lambda>e. fail (Errorf ''refs: append log'' [e]))))))
             (ignore (os_Close p))) (\<lambda>_.
        ignore (os_Close p)))))"

definition parseLogDigest :: "string \<Rightarrow> digest result" where
  "parseLogDigest s = (if s = '''' then Inr [] else ParseDigest s)"

definition parse_line :: "string \<Rightarrow> Entry option" where
  "parse_line line =
     (if line = '''' then None
      else case strings_SplitN tab 3 line of
          [f0, f1, f2] \<Rightarrow>
            (case ParseInt f0 of None \<Rightarrow> None | Some ns \<Rightarrow>
             case parseLogDigest f1 of Inl _ \<Rightarrow> None | Inr next1 \<Rightarrow>
             case parseLogDigest f2 of Inl _ \<Rightarrow> None | Inr old \<Rightarrow>
               Some \<lparr>e_Digest = next1, e_Old = old, e_Time = ns\<rparr>)
        | _ \<Rightarrow> None)"

definition parseLog :: "bytes \<Rightarrow> Entry list" where
  "parseLog data = List.map_filter parse_line (strings_Split newline (string_of data))"

definition refs_Log :: "refs \<Rightarrow> string \<Rightarrow> int \<Rightarrow> ('z osfs_scheme, Entry list) act" where
  "refs_Log s name limit =
     bnd ctx_Err (\<lambda>_.
     bnd (of_result (ValidateName name)) (\<lambda>_.
     bnd (attempt (os_ReadFile (logPath s name))) (\<lambda>r. case r of
       Inl e \<Rightarrow> if errors_Is e ErrNotExist then ret [] else fail (Errorf (''refs: log '' @ name) [e])
     | Inr data \<Rightarrow>
         (let entries = rev (parseLog data) in
          ret (if limit > 0 \<and> int (length entries) > limit then take (nat limit) entries else entries)))))"

definition refs_Previous :: "refs \<Rightarrow> string \<Rightarrow> ('z osfs_scheme, digest) act" where
  "refs_Previous s name =
     bnd (refs_Log s name 1) (\<lambda>entries.
       if entries = [] \<or> IsZero (e_Old (hd entries)) then fail (Errorf (name @ '' has no previous revision'') [refs_ErrNotFound])
       else ret (e_Old (hd entries)))"

section \<open>Changing a ref\<close>

definition refs_Set :: "refs \<Rightarrow> string \<Rightarrow> digest \<Rightarrow> ('z osfs_scheme, unit) act" where
  "refs_Set s name d =
     bnd ctx_Err (\<lambda>_.
     bnd (of_result (ValidateName name)) (\<lambda>_.
     bnd (when_err (CheckDigest d ''refs: set'')) (\<lambda>_.
     bnd (catch (readValue s name) (\<lambda>e. if errors_Is e refs_ErrNotFound then ret [] else fail e)) (\<lambda>old.
     bnd (catch (writeFileAtomic (valuePath s name) (bytes_of (Digest_String d @ [newline])))
            (\<lambda>e. fail (Errorf (''refs: set '' @ name) [e]))) (\<lambda>_.
       catch (appendLog s name old d) (\<lambda>e. fail (Errorf (''refs: set '' @ name @ '': append log'') [e])))))))"

definition refs_Delete :: "refs \<Rightarrow> string \<Rightarrow> ('z osfs_scheme, unit) act" where
  "refs_Delete s name =
     bnd ctx_Err (\<lambda>_.
     bnd (of_result (ValidateName name)) (\<lambda>_.
     bnd (attempt (readValue s name)) (\<lambda>r. case r of
       Inl e \<Rightarrow> if errors_Is e refs_ErrNotFound then ret () else fail e
     | Inr old \<Rightarrow>
         bnd (catch (appendLog s name old []) (\<lambda>e. fail (Errorf (''refs: delete '' @ name @ '': append log'') [e]))) (\<lambda>_.
           catch (os_Remove (valuePath s name))
             (\<lambda>e. if errors_Is e ErrNotExist then ret () else fail (Errorf (''refs: delete '' @ name) [e]))))))"

section \<open>Listing and resolving\<close>

record Ref =
  Name :: string
  RefDigest :: digest

fun refs_walk :: "refs \<Rightarrow> (path \<times> node) list \<Rightarrow> ('z osfs_scheme, Ref list) act" where
  "refs_walk s [] = ret []"
| "refs_walk s ((q, n) # es) =
     (let rel = drop (length (refs_base s)) q in
      if rel = [] \<or> hd rel = logSubdir \<or> n = Dir \<or> IsTempFile (last q) then refs_walk s es
      else
        (let name = strings_Join rel (CHR ''/'') in
         bnd (catch (readValue s name) (\<lambda>e. fail (Errorf (''refs: list: '' @ name) [e]))) (\<lambda>d.
         bnd (refs_walk s es) (\<lambda>out. ret (\<lparr>Name = name, RefDigest = d\<rparr> # out)))))"

definition refs_List :: "refs \<Rightarrow> ('z osfs_scheme, Ref list) act" where
  "refs_List s =
     bnd ctx_Err (\<lambda>_.
     bnd (attempt (os_Stat (refs_base s))) (\<lambda>st.
       if (case st of Inl e \<Rightarrow> errors_Is e ErrNotExist | Inr _ \<Rightarrow> False) then ret []
       else
         bnd (os_WalkDir (refs_base s)) (\<lambda>es.
         bnd (refs_walk s es) (\<lambda>out.
           ret (sort_key Name out)))))"

definition resolve_in :: "Ref list \<Rightarrow> string \<Rightarrow> Ref result" where
  "resolve_in all1 nameOrPrefix =
     (case List.find (\<lambda>r. Name r = nameOrPrefix) all1 of
        Some r \<Rightarrow> Inr r
      | None \<Rightarrow>
          (case filter (\<lambda>r. HasPrefix (Name r) nameOrPrefix) all1 of
             [] \<Rightarrow> Inl (Errorf nameOrPrefix [refs_ErrNotFound])
           | [r] \<Rightarrow> Inr r
           | matches \<Rightarrow> Inl (Errorf (concat (map Name matches)) [ErrAmbiguous])))"

definition refs_Resolve :: "refs \<Rightarrow> string \<Rightarrow> ('z osfs_scheme, Ref) act" where
  "refs_Resolve s nameOrPrefix =
     bnd ctx_Err (\<lambda>_.
       if nameOrPrefix = '''' then fail (Errorf ''empty name'' [ErrInvalidName])
       else bnd (refs_List s) (\<lambda>all1. of_result (resolve_in all1 nameOrPrefix)))"

definition refs_Roots :: "refs \<Rightarrow> ('z osfs_scheme, digest list) act" where
  "refs_Roots s = bnd (refs_List s) (\<lambda>all1. ret (map RefDigest (filter (\<lambda>r. \<not> IsZero (RefDigest r)) all1)))"

section \<open>The log format\<close>

definition log_body :: "int \<Rightarrow> digest \<Rightarrow> digest \<Rightarrow> string" where
  "log_body ns next1 old = Itoa ns @ tab # Digest_String next1 @ tab # Digest_String old"

lemma log_line_body: "log_line ns next1 old = log_body ns next1 old @ [newline]"
  by (simp add: log_line_def log_body_def)

lemma Digest_String_plain: "tab \<notin> set (Digest_String d)" "newline \<notin> set (Digest_String d)" "CHR ''.'' \<notin> set (Digest_String d)"
  using Digest_String_chars [of d] by (auto simp: tab_def newline_def)

lemma Itoa_plain: "tab \<notin> set (Itoa i)" "newline \<notin> set (Itoa i)"
  using Itoa_chars by (auto simp: tab_def newline_def)

lemma log_body_plain: "newline \<notin> set (log_body ns next1 old)"
  using Digest_String_plain Itoa_plain by (simp add: log_body_def tab_def newline_def)

lemma parseLogDigest_String [simp]: "parseLogDigest (Digest_String d) = Inr d"
  by (cases "d = []") (simp_all add: parseLogDigest_def ParseDigest_String)

lemma SplitN_2: "tab \<notin> set a \<Longrightarrow> strings_SplitN tab 3 (a @ tab # b) = a # strings_SplitN tab 2 b"
  "tab \<notin> set a \<Longrightarrow> strings_SplitN tab 2 (a @ tab # b) = [a, b]"
  "tab \<notin> set a \<Longrightarrow> strings_SplitN tab 3 a = [a]" "tab \<notin> set a \<Longrightarrow> strings_SplitN tab 2 a = [a]"
  using strings_Cut_append [of "[tab]" a b] strings_Cut_None [of "[tab]" a] by (simp_all add: eval_nat_numeral)

lemma Itoa_ne [simp]: "Itoa i \<noteq> []"
  by (simp add: Itoa_def)

lemma parse_line_fields:
  "- (2 ^ 63) \<le> ns \<Longrightarrow> ns < 2 ^ 63 \<Longrightarrow> parse_line (Itoa ns @ tab # Digest_String next1 @ tab # rest) =
     (case parseLogDigest rest of Inl _ \<Rightarrow> None | Inr old \<Rightarrow> Some \<lparr>e_Digest = next1, e_Old = old, e_Time = ns\<rparr>)"
  by (simp add: parse_line_def SplitN_2 Itoa_plain Digest_String_plain ParseInt_Itoa)

text \<open>A line cut anywhere is dropped, or read with the old digest cut to a prefix.\<close>

lemma parse_torn_line:
  assumes "- (2 ^ 63) \<le> ns" "ns < 2 ^ 63"
  shows "case parse_line (take k (log_body ns next1 old)) of
      None \<Rightarrow> True
    | Some e \<Rightarrow> e_Digest e = next1 \<and> e_Time e = ns \<and> (\<exists>r. Digest_String old = Digest_String (e_Old e) @ r)"
proof -
  have no_tab: "tab \<notin> set (take j (Itoa ns))" "tab \<notin> set (take j (Digest_String next1))" for j
    using Itoa_plain(1) Digest_String_plain(1) by (meson in_set_takeD)+
  consider "k \<le> length (Itoa ns)" | j where "k = length (Itoa ns) + 1 + j" "j \<le> length (Digest_String next1)"
    | j where "k = length (Itoa ns) + 1 + length (Digest_String next1) + 1 + j"
  proof -
    assume a: "k \<le> length (Itoa ns) \<Longrightarrow> thesis"
      "\<And>j. k = length (Itoa ns) + 1 + j \<Longrightarrow> j \<le> length (Digest_String next1) \<Longrightarrow> thesis"
      "\<And>j. k = length (Itoa ns) + 1 + length (Digest_String next1) + 1 + j \<Longrightarrow> thesis"
    show thesis
      using a(1) a(2) [of "k - length (Itoa ns) - 1"] a(3) [of "k - length (Itoa ns) - 1 - length (Digest_String next1) - 1"]
      by linarith
  qed
  then show ?thesis
  proof cases
    case 1
    then have "take k (log_body ns next1 old) = take k (Itoa ns)" by (simp add: log_body_def)
    with no_tab(1) [of k] show ?thesis by (simp add: parse_line_def SplitN_2)
  next
    case (2 j)
    then have "take k (log_body ns next1 old) = Itoa ns @ tab # take j (Digest_String next1)" by (simp add: log_body_def)
    with no_tab(2) [of j] Itoa_plain(1) [of ns] show ?thesis by (simp add: parse_line_def SplitN_2)
  next
    case (3 j)
    then have "take k (log_body ns next1 old) = Itoa ns @ tab # Digest_String next1 @ tab # take j (Digest_String old)"
      by (simp add: log_body_def)
    with parse_line_fields [OF assms, of next1 "take j (Digest_String old)"] have
      p: "parse_line (take k (log_body ns next1 old)) = (case parseLogDigest (take j (Digest_String old)) of
        Inl _ \<Rightarrow> None | Inr o1 \<Rightarrow> Some \<lparr>e_Digest = next1, e_Old = o1, e_Time = ns\<rparr>)" by simp
    show ?thesis
    proof (cases "parseLogDigest (take j (Digest_String old))")
      case (Inr o1)
      then have "Digest_String o1 = take j (Digest_String old)"
        using ParseDigest_OkD [of "take j (Digest_String old)" o1] by (auto simp: parseLogDigest_def split: if_splits)
      then have "Digest_String old = Digest_String o1 @ drop j (Digest_String old)" by simp
      then show ?thesis unfolding p Inr by auto
    qed (simp add: p)
  qed
qed

definition log_text :: "Entry list \<Rightarrow> string" where
  "log_text es = concat (map (\<lambda>e. log_line (e_Time e) (e_Digest e) (e_Old e)) es)"

lemma split_log: "newline \<notin> set t \<Longrightarrow> strings_Split newline (log_text es @ t) =
    map (\<lambda>e. log_body (e_Time e) (e_Digest e) (e_Old e)) es @ [t]"
proof (induction es)
  case Nil
  then show ?case by (simp add: log_text_def strings_Split_single)
next
  case (Cons e es)
  let ?b = "log_body (e_Time e) (e_Digest e) (e_Old e)"
  have "log_text (e # es) @ t = ?b @ newline # (log_text es @ t)" by (simp add: log_text_def log_line_body)
  then show ?case using Cons strings_Split_append [OF log_body_plain, of "e_Time e" "e_Digest e" "e_Old e" "log_text es @ t"] by simp
qed

lemma parseLog_text:
  assumes "\<forall>e \<in> set es. - (2 ^ 63) \<le> e_Time e \<and> e_Time e < 2 ^ 63" "newline \<notin> set t"
  shows "parseLog (bytes_of (log_text es @ t)) = es @ List.map_filter parse_line [t]"
proof -
  have "List.map_filter parse_line (map (\<lambda>e. log_body (e_Time e) (e_Digest e) (e_Old e)) es) = es"
    using assms(1)
  proof (induction es)
    case (Cons e es)
    then show ?case
      using parse_line_fields [of "e_Time e" "e_Digest e" "Digest_String (e_Old e)"] by (simp add: log_body_def List.map_filter_simps)
  qed (simp add: List.map_filter_simps)
  then show ?thesis
    using split_log [OF assms(2), of es] by (simp add: parseLog_def List.map_filter_def)
qed

text \<open>
  C15: The log reads back what was appended: the lines written for a list of transitions parse to that
  list. When the last line was cut anywhere by a crash, the complete lines still parse in order, and at most one
  entry follows them: the true time and new digest, with an old digest whose text is a prefix of the
  true one.
\<close>

theorem refs_log_roundtrip:
  assumes "\<forall>e \<in> set (es @ [e]). - (2 ^ 63) \<le> e_Time e \<and> e_Time e < 2 ^ 63"
  shows "parseLog (bytes_of (log_text (es @ [e]))) = es @ [e] \<and>
    (\<exists>tail1. parseLog (bytes_of (log_text es @ take k (log_body (e_Time e) (e_Digest e) (e_Old e)))) = es @ tail1 \<and>
      (tail1 = [] \<or> (\<exists>t r. tail1 = [t] \<and> e_Digest t = e_Digest e \<and> e_Time t = e_Time e \<and>
         Digest_String (e_Old e) = Digest_String (e_Old t) @ r)))"
proof (intro conjI)
  show "parseLog (bytes_of (log_text (es @ [e]))) = es @ [e]"
    using parseLog_text [OF assms, of "[]"] by (simp add: List.map_filter_simps parse_line_def)
  let ?torn = "take k (log_body (e_Time e) (e_Digest e) (e_Old e))"
  have "newline \<notin> set ?torn" using log_body_plain in_set_takeD by metis
  then have "parseLog (bytes_of (log_text es @ ?torn)) = es @ List.map_filter parse_line [?torn]"
    using assms by (intro parseLog_text) auto
  moreover have "case parse_line ?torn of
      None \<Rightarrow> True
    | Some t \<Rightarrow> e_Digest t = e_Digest e \<and> e_Time t = e_Time e \<and> (\<exists>r. Digest_String (e_Old e) = Digest_String (e_Old t) @ r)"
    using assms by (intro parse_torn_line) auto
  ultimately show "\<exists>tail1. parseLog (bytes_of (log_text es @ ?torn)) = es @ tail1 \<and>
      (tail1 = [] \<or> (\<exists>t r. tail1 = [t] \<and> e_Digest t = e_Digest e \<and> e_Time t = e_Time e \<and>
         Digest_String (e_Old e) = Digest_String (e_Old t) @ r))"
    by (auto simp: List.map_filter_simps split: option.splits)
qed

theorem refs_log_roundtrip_witness:
  "parseLog (bytes_of (log_text [\<lparr>e_Digest = [1], e_Old = [], e_Time = 5\<rparr>, \<lparr>e_Digest = [2], e_Old = [1], e_Time = - 6\<rparr>])) =
     [\<lparr>e_Digest = [1], e_Old = [], e_Time = 5\<rparr>, \<lparr>e_Digest = [2], e_Old = [1], e_Time = - 6\<rparr>]"
  using refs_log_roundtrip [of "[\<lparr>e_Digest = [1], e_Old = [], e_Time = 5\<rparr>]" "\<lparr>e_Digest = [2], e_Old = [1], e_Time = - 6\<rparr>" 0] by simp

text \<open>
  A line cut by a crash is not always dropped: cut inside its last field it is read as a valid entry
  whose old digest is one the ref never had, and the complete line that the next change appends
  behind it is lost with it. The log then names a wrong previous revision.
\<close>

theorem refs_torn_log_misread:
  "parseLog (bytes_of (take 6 (log_line 5 [2] [1, 3]))) = [] \<and>
   parseLog (bytes_of (take 7 (log_line 5 [2] [1, 3]))) = [\<lparr>e_Digest = [2], e_Old = [1], e_Time = 5\<rparr>] \<and>
   parseLog (bytes_of (take 7 (log_line 5 [2] [1, 3]) @ log_line 6 [4] [2])) = []"
  by code_simp

section \<open>Resolving\<close>

lemmas refs_errors = refs_ErrNotFound_def ErrAmbiguous_def ErrInvalidName_def

text \<open>
  Resolving a name among refs with distinct names: a ref is returned exactly when it has that name, or no
  ref has it and it is the only one whose name starts with it; with no such name the error is the not-found one,
  with several and no exact match the ambiguity one.
\<close>

theorem resolve_unique_or_error:
  assumes "distinct (map Name all1)"
  shows "(resolve_in all1 p = Inr r \<longleftrightarrow> r \<in> set all1 \<and>
        (Name r = p \<or> (\<forall>r' \<in> set all1. Name r' \<noteq> p) \<and> (\<forall>r' \<in> set all1. HasPrefix (Name r') p \<longleftrightarrow> r' = r))) \<and>
    ((\<exists>e. resolve_in all1 p = Inl e \<and> errors_Is e refs_ErrNotFound) \<longleftrightarrow> (\<forall>r' \<in> set all1. \<not> HasPrefix (Name r') p)) \<and>
    ((\<exists>e. resolve_in all1 p = Inl e \<and> errors_Is e ErrAmbiguous) \<longleftrightarrow>
        (\<forall>r' \<in> set all1. Name r' \<noteq> p) \<and> (\<exists>a \<in> set all1. \<exists>b \<in> set all1. a \<noteq> b \<and> HasPrefix (Name a) p \<and> HasPrefix (Name b) p))"
proof -
  let ?m = "filter (\<lambda>r. HasPrefix (Name r) p) all1"
  have dist: "distinct all1" and inj: "\<And>a b. a \<in> set all1 \<Longrightarrow> b \<in> set all1 \<Longrightarrow> Name a = Name b \<Longrightarrow> a = b"
    using assms by (auto simp: distinct_map inj_on_def)
  have self: "HasPrefix p p" by (auto simp: HasPrefix_iff)
  show ?thesis
  proof (cases "List.find (\<lambda>r. Name r = p) all1")
    case (Some x)
    then have x: "x \<in> set all1" "Name x = p" by (auto simp: find_Some_iff)
    with Some self inj show ?thesis by (auto simp: resolve_in_def refs_errors)
  next
    case None
    then have none: "\<forall>r' \<in> set all1. Name r' \<noteq> p" by (auto simp: find_None_iff)
    have mem: "r' \<in> set ?m \<longleftrightarrow> r' \<in> set all1 \<and> HasPrefix (Name r') p" for r' by auto
    have dm: "distinct ?m" using dist by simp
    show ?thesis
    proof (cases ?m)
      case Nil
      then have "\<forall>r' \<in> set all1. \<not> HasPrefix (Name r') p" by (simp add: filter_empty_conv)
      with None Nil none show ?thesis by (auto simp: resolve_in_def refs_errors)
    next
      case (Cons a ms)
      show ?thesis
      proof (cases ms)
        case Nil
        then have "\<forall>r' \<in> set all1. HasPrefix (Name r') p \<longleftrightarrow> r' = a" "a \<in> set all1" using Cons mem by auto
        with None Cons Nil none show ?thesis by (auto simp: resolve_in_def refs_errors)
      next
        case 2: (Cons b ms')
        then have ab: "a \<in> set all1" "b \<in> set all1" "HasPrefix (Name a) p" "HasPrefix (Name b) p" "a \<noteq> b"
          using Cons mem [of a] mem [of b] dm by auto
        moreover have "\<not> (\<forall>r' \<in> set all1. HasPrefix (Name r') p \<longleftrightarrow> r' = r)" using ab by metis
        ultimately show ?thesis using None Cons 2 none by (simp add: resolve_in_def refs_errors) blast
      qed
    qed
  qed
qed

theorem resolve_unique_or_error_witness:
  "resolve_in [\<lparr>Name = ''main'', RefDigest = [1]\<rparr>, \<lparr>Name = ''max'', RefDigest = [2]\<rparr>] ''mai'' = Inr \<lparr>Name = ''main'', RefDigest = [1]\<rparr>"
  using resolve_unique_or_error [of "[\<lparr>Name = ''main'', RefDigest = [1]\<rparr>, \<lparr>Name = ''max'', RefDigest = [2]\<rparr>]" "''mai''" "\<lparr>Name = ''main'', RefDigest = [1]\<rparr>"]
  by (simp add: HasPrefix_def)

section \<open>Accepted names\<close>

lemma validate_parts_ok:
  "validate_parts ps = Inr u \<Longrightarrow> p \<in> set ps \<Longrightarrow> p \<noteq> [] \<and> hd p \<noteq> CHR ''.'' \<and> \<not> HasSuffix p ''.lock''"
  by (induction ps) (cases p; auto simp: invalid_name_def HasPrefix_iff split: if_splits)+

lemma ValidateName_parts:
  assumes "ValidateName name = Inr u" "p \<in> set (strings_Split (CHR ''/'') name)"
  shows "p \<noteq> [] \<and> hd p \<noteq> CHR ''.'' \<and> CHR ''/'' \<notin> set p"
proof -
  have "validate_parts (strings_Split (CHR ''/'') name) = Inr u"
    using assms(1) by (auto simp: ValidateName_def invalid_name_def split: if_splits)
  with validate_parts_ok assms(2) strings_Split_parts show ?thesis by blast
qed

lemma accepted_paths:
  assumes "ValidateName name = Inr ()"
  shows "valuePath s name = refs_base s @ strings_Split (CHR ''/'') name"
    "logPath s name = refs_base s @ logSubdir # strings_Split (CHR ''/'') name"
proof -
  have plain: "set (strings_Split (CHR ''/'') name) \<inter> {'''', ''.'', ''..''} = {}"
    using ValidateName_parts [OF assms] by (force simp: disjoint_iff)
  then show "valuePath s name = refs_base s @ strings_Split (CHR ''/'') name"
    by (simp add: valuePath_def path_parts_Join_names)
  have "strings_Split (CHR ''/'') (logSubdir @ ''/'' @ name) = logSubdir # strings_Split (CHR ''/'') name"
    using strings_Split_append [of "CHR ''/''" logSubdir name] by (simp add: logSubdir_def)
  with plain path_parts_Join_names [of "logSubdir @ ''/'' @ name" "refs_dir s"]
  show "logPath s name = refs_base s @ logSubdir # strings_Split (CHR ''/'') name"
    by (simp add: logPath_def logSubdir_def)
qed

lemma accepted_paths_ne [simp]: "ValidateName name = Inr () \<Longrightarrow> valuePath s name \<noteq> [] \<and> logPath s name \<noteq> []"
  by (simp add: accepted_paths)

lemma accepted_paths_inj:
  assumes "ValidateName a = Inr ()" "ValidateName b = Inr ()"
  shows "valuePath s a = valuePath s b \<longleftrightarrow> a = b" "logPath s a = logPath s b \<longleftrightarrow> a = b"
proof -
  have "strings_Split (CHR ''/'') a = strings_Split (CHR ''/'') b \<longleftrightarrow> a = b" by (metis strings_Join_Split)
  then show "valuePath s a = valuePath s b \<longleftrightarrow> a = b" "logPath s a = logPath s b \<longleftrightarrow> a = b"
    by (simp_all add: accepted_paths assms)
qed

text \<open>Nothing below the directory of the logs is a value file or on the way to one.\<close>

lemma log_not_value:
  assumes "ValidateName a = Inr ()"
  shows "refs_base s @ logSubdir # r \<notin> insert (valuePath s a) (set (parents (valuePath s a)))"
proof -
  obtain p ps where p: "strings_Split (CHR ''/'') a = p # ps" by (cases "strings_Split (CHR ''/'') a") auto
  with ValidateName_parts [OF assms, of p] have "p \<noteq> logSubdir" by (auto simp: logSubdir_def)
  then show ?thesis
    using p by (auto simp: accepted_paths assms set_parents append_eq_append_conv2 Cons_eq_append_conv)
qed

lemma value_not_log:
  assumes "ValidateName a = Inr ()" "ValidateName b = Inr ()"
  shows "valuePath s a \<noteq> logPath s b" "valuePath s a \<notin> set (parents (logPath s b))" "logPath s b \<notin> set (parents (valuePath s a))"
proof -
  obtain p ps where p: "strings_Split (CHR ''/'') a = p # ps" by (cases "strings_Split (CHR ''/'') a") auto
  with ValidateName_parts [OF assms(1), of p] have "p \<noteq> logSubdir" by (auto simp: logSubdir_def)
  then show "valuePath s a \<noteq> logPath s b" "valuePath s a \<notin> set (parents (logPath s b))"
    using p by (auto simp: accepted_paths assms set_parents append_eq_append_conv2 Cons_eq_append_conv)
  show "logPath s b \<notin> set (parents (valuePath s a))"
    using log_not_value [OF assms(1), of s "strings_Split (CHR ''/'') b"] by (simp add: accepted_paths assms)
qed

text \<open>A name that is not accepted is refused before a path is made of it: no operation on it looks at or changes the tree.\<close>

lemma refused_name_has_no_effect:
  assumes "ValidateName name = Inl e" "ectx w = Live"
  shows "refs_Get s name w = (Inl e, w)" "refs_Set s name d w = (Inl e, w)" "refs_Delete s name w = (Inl e, w)"
    "refs_Log s name limit w = (Inl e, w)"
  using assms by (simp_all add: refs_Get_def refs_Set_def refs_Delete_def refs_Log_def bnd_def of_result_def)

text \<open>The check is needed: by cleaning, unchecked names share files with each other and with the logs.\<close>

lemma unchecked_names_collide:
  "valuePath \<lparr>refs_dir = ''refs''\<rparr> ''heads//main'' = valuePath \<lparr>refs_dir = ''refs''\<rparr> ''heads/main''"
  "logPath \<lparr>refs_dir = ''refs''\<rparr> ''../heads/main'' = valuePath \<lparr>refs_dir = ''refs''\<rparr> ''heads/main''"
  "valuePath \<lparr>refs_dir = ''refs''\<rparr> ''../other'' = [''other'']"
  by code_simp+

text \<open>
  C18: An accepted name stays inside the directory of the refs: its path is that of the directory followed by the components of the
  name, each non-empty, not starting with a dot (so none of the two special ones) and without a separator. Among
  accepted names two never share a value file or a log, and no value file is a log file, lies on the way to one, or has one on its way.
\<close>

theorem accepted_name_is_contained:
  assumes "ValidateName name = Inr ()"
  shows "\<exists>ps. valuePath s name = path_parts (refs_dir s) @ ps \<and> ps \<noteq> [] \<and> strings_Join ps (CHR ''/'') = name \<and>
      (\<forall>p \<in> set ps. p \<noteq> [] \<and> hd p \<noteq> CHR ''.'' \<and> CHR ''/'' \<notin> set p) \<and>
      (\<forall>name'. ValidateName name' = Inr () \<and> name' \<noteq> name \<longrightarrow>
        valuePath s name' \<noteq> valuePath s name \<and> logPath s name' \<noteq> logPath s name) \<and>
      (\<forall>name'. ValidateName name' = Inr () \<longrightarrow> valuePath s name \<noteq> logPath s name' \<and>
        valuePath s name \<notin> set (parents (logPath s name')) \<and> logPath s name' \<notin> set (parents (valuePath s name)))"
proof (intro exI conjI ballI allI impI)
  show "valuePath s name = refs_base s @ strings_Split (CHR ''/'') name" by (rule accepted_paths [OF assms])
qed (use ValidateName_parts [OF assms] accepted_paths_inj [OF _ assms] value_not_log [OF assms] in auto)

theorem accepted_name_is_contained_witness:
  "ValidateName ''heads/main'' = Inr () \<and> ValidateName ''heads/dev'' = Inr () \<and>
   valuePath \<lparr>refs_dir = ''/srv/./refs/''\<rparr> ''heads/main'' = [''srv'', ''refs'', ''heads'', ''main''] \<and>
   valuePath \<lparr>refs_dir = ''/srv/./refs/''\<rparr> ''heads/dev'' \<noteq> valuePath \<lparr>refs_dir = ''/srv/./refs/''\<rparr> ''heads/main''"
proof -
  let ?s = "\<lparr>refs_dir = ''/srv/./refs/''\<rparr>"
  have v: "ValidateName ''heads/main'' = Inr ()" "ValidateName ''heads/dev'' = Inr ()" by code_simp+
  from accepted_name_is_contained [OF v(1), of ?s] v(2) have "valuePath ?s ''heads/dev'' \<noteq> valuePath ?s ''heads/main''" by auto
  moreover have "valuePath ?s ''heads/main'' = [''srv'', ''refs'', ''heads'', ''main'']" by code_simp
  ultimately show ?thesis using v by blast
qed

section \<open>What is listed\<close>

lemma refs_walk_names:
  "refs_walk s es w = (Inr out, w') \<Longrightarrow> r \<in> set out \<Longrightarrow>
    \<exists>q. Name r = strings_Join (drop (length (refs_base s)) q) (CHR ''/'') \<and> drop (length (refs_base s)) q \<noteq> [] \<and>
      hd (drop (length (refs_base s)) q) \<noteq> logSubdir \<and> \<not> IsTempFile (last q)"
proof (induction es arbitrary: out w)
  case (Cons e es)
  obtain q n where e: "e = (q, n)" by fastforce
  let ?rel = "drop (length (refs_base s)) q"
  show ?case
  proof (cases "?rel = [] \<or> hd ?rel = logSubdir \<or> n = Dir \<or> IsTempFile (last q)")
    case True
    with Cons.prems e have "refs_walk s es w = (Inr out, w')" by (simp add: Let_def)
    then show ?thesis using Cons.IH Cons.prems(2) by blast
  next
    case False
    then have "refs_walk s (e # es) w = bnd (catch (readValue s (strings_Join ?rel (CHR ''/''))) (\<lambda>e. fail (Errorf (''refs: list: '' @ strings_Join ?rel (CHR ''/'')) [e]))) (\<lambda>d.
         bnd (refs_walk s es) (\<lambda>out. ret (\<lparr>Name = strings_Join ?rel (CHR ''/''), RefDigest = d\<rparr> # out))) w"
      unfolding e by (simp only: refs_walk.simps Let_def if_False)
    with Cons.prems(1) obtain d w1 rest where rest: "refs_walk s es w1 = (Inr rest, w')"
      "out = \<lparr>Name = strings_Join ?rel (CHR ''/''), RefDigest = d\<rparr> # rest" by (auto simp: bnd_ok)
    then show ?thesis using Cons.IH [OF rest(1)] Cons.prems(2) False by auto
  qed
qed (simp add: ret_def)

lemma strings_Join_single: "strings_Join ps sep = s \<Longrightarrow> sep \<notin> set s \<Longrightarrow> ps \<noteq> [] \<Longrightarrow> ps = [s]"
  by (cases ps; cases "tl ps") (auto simp: strings_Join_Cons)

lemma refs_List_names:
  assumes "refs_List s w = (Inr rs, w')" "r \<in> set rs"
  shows "\<exists>q. Name r = strings_Join (drop (length (refs_base s)) q) (CHR ''/'') \<and> drop (length (refs_base s)) q \<noteq> [] \<and>
      hd (drop (length (refs_base s)) q) \<noteq> logSubdir \<and> \<not> IsTempFile (last q)"
proof -
  from assms obtain es out and w1 w2 :: "'a osfs_scheme env" where "refs_walk s es w1 = (Inr out, w2)" "r \<in> set out"
    by (auto simp: refs_List_def bnd_ok split: if_splits)
  then show ?thesis by (rule refs_walk_names)
qed

text \<open>
  A ref named \<open>release.tmp\<close> is accepted by the name check, so it can be set and read, but no listing
  ever reports it, and so it is never among the roots that garbage collection is given: the
  objects only it refers to are swept.
\<close>

theorem refs_tmp_name_never_listed:
  "ValidateName ''release.tmp'' = Inr () \<and>
   (case refs_List s w of (Inr rs, _) \<Rightarrow> ''release.tmp'' \<notin> Name ` set rs | _ \<Rightarrow> True)"
proof (intro conjI)
  show "ValidateName ''release.tmp'' = Inr ()" by code_simp
  have temp: "IsTempFile ''release.tmp''" by code_simp
  have "''release.tmp'' \<notin> Name ` set rs" if l: "refs_List s w = (Inr rs, w')" for rs w'
  proof
    assume "''release.tmp'' \<in> Name ` set rs"
    then obtain r where r: "r \<in> set rs" "Name r = ''release.tmp''" by force
    from refs_List_names [OF l r(1)] obtain q where
      q: "Name r = strings_Join (drop (length (refs_base s)) q) (CHR ''/'')" "drop (length (refs_base s)) q \<noteq> []" "\<not> IsTempFile (last q)" by blast
    then have "drop (length (refs_base s)) q = [''release.tmp'']"
      using strings_Join_single [OF trans [OF q(1) [symmetric] r(2)] _ q(2)] by simp
    then have "last q = ''release.tmp''" by (metis last_ConsL last_drop drop_eq_Nil not_le list.distinct(1))
    with q(3) temp show False by simp
  qed
  then show "case refs_List s w of (Inr rs, _) \<Rightarrow> ''release.tmp'' \<notin> Name ` set rs | _ \<Rightarrow> True"
    by (auto split: prod.splits sum.splits)
qed

section \<open>A set under any schedule\<close>

lemma keeps_readValue: "control_free I \<Longrightarrow> keeps I (readValue s name)"
  unfolding readValue_def
  by (intro keeps_bnd keeps_attempt keeps_os_ReadFile) (simp_all add: keeps_intros split: sum.split)

lemma keeps_appendLog:
  assumes "control_free I" "ValidateName name = Inr ()"
    and "\<And>q st. q \<in> set (parents (logPath s name)) \<Longrightarrow> I st \<Longrightarrow> node_at st q = None \<Longrightarrow> I (set_node q Dir st)"
    and "\<And>c t st. I st \<Longrightarrow> I (set_node (logPath s name) (Reg c t) st)"
  shows "keeps I (appendLog s name old next1)"
proof -
  have ne: "logPath s name \<noteq> []" using assms(2) by simp
  have "set (if butlast (logPath s name) = [] then [] else parents (butlast (logPath s name)) @ [butlast (logPath s name)]) \<subseteq> set (parents (logPath s name))"
    using parents_snoc [of "butlast (logPath s name)" "last (logPath s name)"] ne by simp
  then have "keeps I (os_MkdirAll (butlast (logPath s name)))"
    unfolding os_MkdirAll_def using assms(3) by (intro keeps_mkdirs [OF assms(1)]) blast
  moreover have "keeps I (os_OpenAppend (logPath s name))" by (intro keeps_os_OpenAppend assms(1,4))
  moreover have "keeps I (os_Write (logPath s name) data)" for data by (intro keeps_os_Write assms(1,4))
  ultimately show ?thesis
    unfolding appendLog_def Let_def by (intro keeps_intros assms(1))
qed

definition value_bytes :: "digest \<Rightarrow> bytes" where
  "value_bytes d = bytes_of (Digest_String d @ [newline])"

lemma value_log_frame:
  assumes "ValidateName name = Inr ()" "ValidateName name' = Inr ()"
  shows "keeps (\<lambda>st. node_at st (valuePath s name) = v) (appendLog s name' old next1)"
  by (rule keeps_appendLog [OF control_free_at]) (use value_not_log(1,2) [OF assms, of s] assms in auto)

text \<open>The part of \<open>Set\<close> before the value is published.\<close>

definition set_prepare :: "refs \<Rightarrow> string \<Rightarrow> digest \<Rightarrow> ('z osfs_scheme, digest) act" where
  "set_prepare s name d =
     bnd ctx_Err (\<lambda>_.
     bnd (of_result (ValidateName name)) (\<lambda>_.
     bnd (when_err (CheckDigest d ''refs: set'')) (\<lambda>_.
       catch (readValue s name) (\<lambda>e. if errors_Is e refs_ErrNotFound then ret [] else fail e))))"

lemma bnd_assoc: "bnd (bnd m f) g = bnd m (\<lambda>x. bnd (f x) g)"
  by (auto simp: bnd_def fun_eq_iff split: prod.splits sum.splits)

lemma refs_Set_eq:
  "refs_Set s name d =
     bnd (set_prepare s name d) (\<lambda>old.
     bnd (catch (Publish (valuePath s name) (bytes_reader (value_bytes d)) refs_options) (\<lambda>e. fail (Errorf (''refs: set '' @ name) [e]))) (\<lambda>_.
       catch (appendLog s name old d) (\<lambda>e. fail (Errorf (''refs: set '' @ name @ '': append log'') [e]))))"
  by (simp add: refs_Set_def set_prepare_def bnd_assoc writeFileAtomic_def value_bytes_def)

lemma keeps_set_prepare: "control_free I \<Longrightarrow> keeps I (set_prepare s name d)"
  unfolding set_prepare_def by (intro keeps_intros keeps_readValue)

lemma set_prepare_ok: "set_prepare s name d w = (Inr old, w') \<Longrightarrow> ValidateName name = Inr () \<and> d \<noteq> []"
  by (auto simp: set_prepare_def bnd_ok of_result_def CheckDigest_None_iff)

lemma refs_Set_cases:
  assumes "refs_Set s name d w = (x, w')"
  obtains (refused) e where "x = Inl e" "node_at (est w') = node_at (est w)"
  | (failed) e w1 where "ValidateName name = Inr ()" "d \<noteq> []" "node_at (est w1) = node_at (est w)"
      "Publish (valuePath s name) (bytes_reader (value_bytes d)) refs_options w1 = (Inl e, w')" "\<exists>e'. x = Inl e'"
  | (logged) w1 w2 old y where "ValidateName name = Inr ()" "d \<noteq> []" "node_at (est w1) = node_at (est w)"
      "set_prepare s name d w = (Inr old, w1)"
      "Publish (valuePath s name) (bytes_reader (value_bytes d)) refs_options w1 = (Inr (), w2)"
      "appendLog s name old d w2 = (y, w')" "x = map_sum (\<lambda>e. Errorf (''refs: set '' @ name @ '': append log'') [e]) id y"
proof (cases "set_prepare s name d w")
  case (Pair p w1)
  have n1: "node_at (est w1) = node_at (est w)"
    by (rule keepsD [OF keeps_set_prepare [OF control_free_node_at] Pair refl])
  show thesis
  proof (cases p)
    case (Inl e)
    with assms Pair n1 show thesis by (intro refused) (auto simp: refs_Set_eq bnd_def)
  next
    case (Inr old)
    note ok = set_prepare_ok [OF Pair [unfolded Inr]]
    obtain q w2 where q: "Publish (valuePath s name) (bytes_reader (value_bytes d)) refs_options w1 = (q, w2)" by fastforce
    show thesis
    proof (cases q)
      case q': (Inl e)
      with assms Pair Inr q have "w' = w2" "\<exists>e'. x = Inl e'" by (auto simp: refs_Set_eq bnd_def catch_def fail_def)
      with failed ok n1 q q' show thesis by blast
    next
      case q': (Inr u)
      obtain y w3 where y: "appendLog s name old d w2 = (y, w3)" by fastforce
      with assms Pair Inr q q' have "w' = w3" "x = map_sum (\<lambda>e. Errorf (''refs: set '' @ name @ '': append log'') [e]) id y"
        by (auto simp: refs_Set_eq bnd_def catch_def fail_def split: sum.splits)
      with logged [OF _ _ n1 Pair [unfolded Inr]] ok q q' y show thesis by auto
    qed
  qed
qed

text \<open>
  C14: Whatever call fails, wherever the process dies and whenever the context is cancelled, a \<open>Set\<close> leaves
  the ref's value file as it was or holding exactly the new digest, success means the new digest, and
  every other stored ref keeps its value file (the temporary names of this one apart).
\<close>

theorem refs_set_atomic:
  "case refs_Set s name d w of (x, w') \<Rightarrow>
     (node_at (est w') (valuePath s name) = node_at (est w) (valuePath s name)
      \<or> d \<noteq> [] \<and> (\<exists>t. node_at (est w') (valuePath s name) = Some (Reg (value_bytes d) t))) \<and>
     (x = Inr () \<longrightarrow> (\<exists>t. node_at (est w') (valuePath s name) = Some (Reg (value_bytes d) t))) \<and>
     (\<forall>name' v. name' \<noteq> name \<and> ValidateName name' = Inr () \<and> (\<forall>i. valuePath s name' \<noteq> temp_name (valuePath s name) i) \<and>
        node_at (est w) (valuePath s name') = Some v \<longrightarrow> node_at (est w') (valuePath s name') = Some v)"
proof -
  let ?p = "valuePath s name" and ?r = "bytes_reader (value_bytes d)"
  have frame: "node_at (est w2) (valuePath s name') = Some v"
    if "Publish ?p ?r refs_options w1 = (q, w2)" "name' \<noteq> name" "\<forall>i. valuePath s name' \<noteq> temp_name ?p i"
      "node_at (est w1) (valuePath s name') = Some v" "ValidateName name = Inr ()" "ValidateName name' = Inr ()" for w1 w2 :: "'a osfs_scheme env" and q name' v
  proof -
    have "keeps (\<lambda>st :: 'a osfs_scheme. node_at st (valuePath s name') = Some v) (Publish ?p ?r refs_options)"
      by (rule keeps_Publish [OF control_free_at]) (use that(2,3,5,6) accepted_paths_inj(1) [OF that(5,6), of s] in auto)
    from keepsD [OF this that(1,4)] show ?thesis .
  qed
  obtain x w' where run: "refs_Set s name d w = (x, w')" by fastforce
  then show ?thesis
  proof (cases rule: refs_Set_cases)
    case (refused e)
    with run show ?thesis by auto
  next
    case (failed e w1)
    from Publish_cases [OF failed(4)] failed(2,3,5) run frame [OF failed(4)] failed(1) show ?thesis by auto
  next
    case (logged w1 w2 old y)
    have new: "\<exists>t. node_at (est w2) ?p = Some (Reg (value_bytes d) t)"
      using Publish_cases [OF logged(5)] logged(1) by (auto simp: refs_options_def)
    then obtain t where "node_at (est w2) ?p = Some (Reg (value_bytes d) t)" ..
    then have "node_at (est w') ?p = Some (Reg (value_bytes d) t)"
      by (rule keepsD [OF value_log_frame [OF logged(1,1)] logged(6)])
    moreover have "node_at (est w') (valuePath s name') = Some v"
      if "name' \<noteq> name" "ValidateName name' = Inr ()" "\<forall>i. valuePath s name' \<noteq> temp_name ?p i"
        "node_at (est w) (valuePath s name') = Some v" for name' v
      by (rule keepsD [OF value_log_frame [OF that(2) logged(1)] logged(6) frame [OF logged(5) that(1,3) _ logged(1) that(2)]]) (simp add: logged(3) that(4))
    ultimately show ?thesis using run logged(2) by auto
  qed
qed

definition refs_demo :: "fault list \<Rightarrow> osfs env" where
  "refs_demo fs =
     \<lparr>ectx = Live, est = \<lparr>nodes = [([''r''], Dir), ([''r'', ''a''], Reg (value_bytes [1]) 0)], os_now = 9, faults = fs,
       wplan = [], crashed = False, outside = False\<rparr>\<rparr>"

theorem refs_set_atomic_witness:
  "case refs_Set \<lparr>refs_dir = ''r''\<rparr> ''b'' [2] (refs_demo [Go, Go, Go, Crash]) of (x, w') \<Rightarrow>
     node_at (est w') [''r'', ''a''] = Some (Reg (value_bytes [1]) 0)"
proof -
  have v: "ValidateName ''a'' = Inr ()" by code_simp
  have p: "valuePath \<lparr>refs_dir = ''r''\<rparr> ''a'' = [''r'', ''a'']" "valuePath \<lparr>refs_dir = ''r''\<rparr> ''b'' = [''r'', ''b'']"
    by code_simp+
  have t: "[''r'', ''a''] \<noteq> temp_name [''r'', ''b''] i" for i by (simp add: temp_name_def)
  have at: "node_at (est (refs_demo [Go, Go, Go, Crash])) [''r'', ''a''] = Some (Reg (value_bytes [1]) 0)"
    by (simp add: refs_demo_def node_at_def)
  obtain x w' where run: "refs_Set \<lparr>refs_dir = ''r''\<rparr> ''b'' [2] (refs_demo [Go, Go, Go, Crash]) = (x, w')" by fastforce
  note refs_set_atomic [where s = "\<lparr>refs_dir = ''r''\<rparr>" and name = "''b''" and d = "[2]" and w = "refs_demo [Go, Go, Go, Crash]",
    unfolded run prod.case, THEN conjunct2, THEN conjunct2, rule_format, of "''a''" "Reg (value_bytes [1]) 0"]
  with v p t at run show ?thesis by simp
qed

section \<open>Set, then read\<close>

lemma temp_logPath: "ValidateName b = Inr () \<Longrightarrow> \<exists>r. temp_name (logPath s b) i = refs_base s @ logSubdir # r"
  by (simp add: temp_name_def accepted_paths butlast_append)

lemma parse_value: "d \<noteq> [] \<Longrightarrow> ParseDigest (TrimSpace (string_of (value_bytes d))) = Inr d"
proof -
  assume d: "d \<noteq> []"
  have space: "\<not> is_space c" if "c \<in> set (Digest_String d)" for c
    using that Digest_String_chars [of d] by (auto simp: is_space_def)
  have "TrimSpace (Digest_String d @ [CHR 0x0A]) = Digest_String d"
    by (rule TrimSpace_newline) (use d space in auto)
  then show ?thesis using d by (simp add: value_bytes_def newline_def ParseDigest_String)
qed

lemma os_ReadFile_absent:
  assumes "healthy (est w)" "slot_ok (node_at (est w)) p" "node_at (est w) p = None"
  shows "os_ReadFile p w = (Inl ErrNotExist, w)"
  using slot_calls(2) [OF assms(1,2)] assms(3) by (simp add: os_ReadFile_def bnd_def)

text \<open>The value file of a ref that holds a digest, and of one that is not set.\<close>

definition ref_holds :: "'z osfs_scheme \<Rightarrow> path \<Rightarrow> digest \<Rightarrow> bool" where
  "ref_holds st p d \<longleftrightarrow> (if d = [] then node_at st p = None else \<exists>t. node_at st p = Some (Reg (value_bytes d) t))"

definition log_holds :: "'z osfs_scheme \<Rightarrow> path \<Rightarrow> Entry list \<Rightarrow> bool" where
  "log_holds st p es \<longleftrightarrow> (es = [] \<and> node_at st p = None) \<or> (\<exists>t. node_at st p = Some (Reg (bytes_of (log_text es)) t))"

lemma readValue_healthy:
  assumes "healthy (est w)" "slot_ok (node_at (est w)) (valuePath s name)" "ref_holds (est w) (valuePath s name) d"
  shows "readValue s name w = (if d = [] then Inl (Errorf name [refs_ErrNotFound]) else Inr d, w)"
proof (cases "d = []")
  case True
  then show ?thesis
    using os_ReadFile_absent [OF assms(1,2)] assms(3) by (simp add: readValue_def bnd_def attempt_def ref_holds_def fail_def)
next
  case False
  then obtain t where t: "node_at (est w) (valuePath s name) = Some (Reg (value_bytes d) t)" using assms(3) by (auto simp: ref_holds_def)
  with assms(2) have "os_ReadFile (valuePath s name) w = (Inr (value_bytes d), w)"
    by (intro os_ReadFile_healthy assms(1)) (simp_all add: slot_ok_def)
  with False parse_value [OF False] show ?thesis by (simp add: readValue_def bnd_def attempt_def ret_def)
qed

lemma appendLog_healthy:
  assumes "healthy (est w)" "slot_ok (node_at (est w)) (logPath s name)" "log_holds (est w) (logPath s name) es" "ValidateName name = Inr ()"
  shows "\<exists>st'. appendLog s name old next1 w = (Inr (), w\<lparr>est := st'\<rparr>) \<and> healthy st' \<and>
    (\<exists>t. node_at st' (logPath s name) = Some (Reg (bytes_of (log_text es @ log_line (os_now (est w)) next1 old)) t)) \<and>
    (\<forall>q \<in> set (parents (logPath s name)). node_at st' q = Some Dir) \<and>
    (\<forall>q. q \<notin> insert (logPath s name) (set (parents (logPath s name))) \<longrightarrow> node_at st' q = node_at (est w) q)"
proof -
  let ?p = "logPath s name" and ?line = "bytes_of (log_line (os_now (est w)) next1 old)"
  have ne: "?p \<noteq> []" using assms(4) by simp
  have up: "set (parents ?p) = set (parents (butlast ?p)) \<union> (if butlast ?p = [] then {} else {butlast ?p})"
    using parents_snoc [of "butlast ?p" "last ?p"] ne by auto
  have "node_at (est w) q = None \<or> node_at (est w) q = Some Dir" if "q \<in> set (parents (butlast ?p)) \<union> {butlast ?p}" for q
    using assms(2) that up by (cases "butlast ?p = []") (auto simp: slot_ok_def dir_slot_def)
  from mkdirs_healthy [OF assms(1) this] obtain s1 where
    mk: "os_MkdirAll (butlast ?p) w = (Inr (), w\<lparr>est := s1\<rparr>)" "healthy s1" "os_now s1 = os_now (est w)"
    and at: "\<And>q. node_at s1 q = (if q \<in> set (parents (butlast ?p)) \<union> {butlast ?p} then Some Dir else node_at (est w) q)" by blast
  have at1: "node_at s1 q = (if q \<in> set (parents ?p) then Some Dir else node_at (est w) q)" for q
    using at [of q] up by auto
  define s2 where "s2 = (if node_at (est w) ?p = None then set_node ?p (Reg [] (os_now (est w))) s1 else s1)"
  have op: "os_OpenAppend ?p (w\<lparr>est := s1\<rparr>) = (Inr (), w\<lparr>est := s2\<rparr>)"
    using mk(2,3) at1 assms(3)
    by (auto simp: os_OpenAppend_def syscall_healthy in_dir_clear s2_def log_holds_def)
  have h2: "healthy s2" "os_now s2 = os_now (est w)" using mk(2,3) by (simp_all add: s2_def)
  have l2: "\<exists>t. node_at s2 ?p = Some (Reg (bytes_of (log_text es)) t)"
    using assms(3) ne at1 [of ?p] by (auto simp: s2_def log_holds_def log_text_def)
  then obtain t2 where l2: "node_at s2 ?p = Some (Reg (bytes_of (log_text es)) t2)" ..
  define s3 where "s3 = append_at ?p ?line s2"
  have wr: "os_Write ?p ?line (w\<lparr>est := s2\<rparr>) = (Inr (), w\<lparr>est := s3\<rparr>)"
    using os_Write_healthy [of "w\<lparr>est := s2\<rparr>"] h2(1) by (simp add: s3_def)
  have h3: "healthy s3" using h2 by (simp add: s3_def)
  have "appendLog s name old next1 w = (Inr (), w\<lparr>est := s3\<rparr>)"
    using mk(1) op wr ok_steps [of "w\<lparr>est := s3\<rparr>"] h2(2) h3
    by (simp add: appendLog_def Let_def bnd_def or_else_def catch_def ignore_def ret_def time_now_def)
  moreover have "?line \<noteq> []" by (simp add: log_line_def bytes_of_def)
  then have "node_at s3 ?p = Some (Reg (bytes_of (log_text es @ log_line (os_now (est w)) next1 old)) (os_now s2))"
    using l2 by (simp add: s3_def node_at_append_at bytes_of_def)
  moreover have "node_at s3 q = node_at s1 q" if "q \<noteq> ?p" for q
    using that by (simp add: s3_def s2_def)
  moreover have "q \<noteq> ?p" if "q \<in> set (parents ?p)" for q using that by auto
  ultimately show ?thesis using h3 at1 by (intro exI [of _ s3]) simp
qed

text \<open>
  C13: On a working system, setting an accepted name to a present digest succeeds, and from then on the
  name reads as that digest and its log is, newest first, the new transition (the digest, what
  the name held before, the time) before the entries it had; the previous revision is what the name held,
  or not found when it held nothing.
\<close>

theorem refs_set_get:
  assumes "healthy (est w)" "ectx w = Live" "ValidateName name = Inr ()" "d \<noteq> []"
    and "slot_ok (node_at (est w)) (valuePath s name)" "slot_ok (node_at (est w)) (logPath s name)"
    and "ref_holds (est w) (valuePath s name) old" "log_holds (est w) (logPath s name) es"
    and "\<exists>i < 10000. node_at (est w) (temp_name (valuePath s name) i) = None"
    and "\<forall>t \<in> insert (os_now (est w)) (e_Time ` set es). - (2 ^ 63) \<le> t \<and> t < 2 ^ 63"
  shows "\<exists>w'. refs_Set s name d w = (Inr (), w') \<and> refs_Get s name w' = (Inr d, w') \<and>
    refs_Log s name 0 w' = (Inr (\<lparr>e_Digest = d, e_Old = old, e_Time = os_now (est w)\<rparr> # rev es), w') \<and>
    refs_Previous s name w' = (if old = [] then Inl (Errorf (name @ '' has no previous revision'') [refs_ErrNotFound]) else Inr old, w')"
proof -
  let ?v = "valuePath s name" and ?l = "logPath s name"
  have prep: "set_prepare s name d w = (Inr old, w)"
    using readValue_healthy [OF assms(1,5,7)] assms(2-4)
    by (simp add: set_prepare_def bnd_def of_result_def when_err_def catch_def ret_def)
  have "\<exists>st'. Publish ?v (bytes_reader (value_bytes d)) refs_options w = (Inr (), w\<lparr>est := st'\<rparr>) \<and> healthy st' \<and>
    outside st' = outside (est w) \<and> os_now st' = os_now (est w) \<and>
    (\<forall>q. node_at st' q = (if q = ?v then Some (Reg (r_data (bytes_reader (value_bytes d))) (os_now (est w)))
       else if q \<in> set (parents ?v) then Some Dir else node_at (est w) q))"
    by (rule Publish_healthy)
      (use assms(1,2,3,5,9) in \<open>auto simp: slot_ok_def file_slot_def dir_slot_def\<close>)
  then obtain s1 where pub: "Publish ?v (bytes_reader (value_bytes d)) refs_options w = (Inr (), w\<lparr>est := s1\<rparr>)"
    "healthy s1" "os_now s1 = os_now (est w)"
    and at1: "node_at s1 q = (if q = ?v then Some (Reg (value_bytes d) (os_now (est w)))
       else if q \<in> set (parents ?v) then Some Dir else node_at (est w) q)" for q by auto
  have lv: "?l \<noteq> ?v" "?l \<notin> set (parents ?v)" using value_not_log(1,3) [OF assms(3,3), of s] by auto
  have vl: "?v \<notin> set (parents ?l)" using value_not_log(2) [OF assms(3,3)] .
  have "temp_name ?l i \<noteq> ?v" "temp_name ?l i \<notin> set (parents ?v)" for i
    using temp_logPath [OF assms(3), of s i] log_not_value [OF assms(3), of s] by force+
  then have "slot_ok (node_at s1) ?l" "log_holds s1 ?l es"
    using assms(6,8) lv vl unfolding slot_ok_def log_holds_def at1 by (auto simp: dir_slot_def)
  with appendLog_healthy [of "w\<lparr>est := s1\<rparr>" s name es old d] pub(2,3) assms(3) obtain s2 t where
    log: "appendLog s name old d (w\<lparr>est := s1\<rparr>) = (Inr (), w\<lparr>est := s2\<rparr>)" "healthy s2"
    "node_at s2 ?l = Some (Reg (bytes_of (log_text es @ log_line (os_now (est w)) d old)) t)"
    "\<forall>q \<in> set (parents ?l). node_at s2 q = Some Dir"
    "\<forall>q. q \<notin> insert ?l (set (parents ?l)) \<longrightarrow> node_at s2 q = node_at s1 q" by auto
  let ?w = "w\<lparr>est := s2\<rparr>"
  have "refs_Set s name d w = (Inr (), ?w)"
    using prep pub(1) log(1) by (simp add: refs_Set_eq bnd_def catch_def)
  moreover have dirs: "node_at s2 q = Some Dir" if "q \<in> set (parents ?v)" for q
    using that log(4,5) at1 [of q] by (cases "q = ?v"; cases "q = ?l") (auto simp: lv)
  have "readValue s name ?w = (Inr d, ?w)"
  proof -
    have "node_at s2 ?v = Some (Reg (value_bytes d) (os_now (est w)))" using log(5) at1 [of ?v] lv vl by auto
    then have "os_ReadFile ?v ?w = (Inr (value_bytes d), ?w)" using log(2) dirs by (intro os_ReadFile_healthy) auto
    then show ?thesis using parse_value [OF assms(4)] by (simp add: readValue_def bnd_def attempt_def ret_def)
  qed
  then have "refs_Get s name ?w = (Inr d, ?w)" using assms(2,3) by (simp add: refs_Get_def bnd_def of_result_def)
  moreover have entries: "parseLog (bytes_of (log_text es @ log_line (os_now (est w)) d old)) =
      es @ [\<lparr>e_Digest = d, e_Old = old, e_Time = os_now (est w)\<rparr>]"
    using parseLog_text [of "es @ [\<lparr>e_Digest = d, e_Old = old, e_Time = os_now (est w)\<rparr>]" "[]"] assms(10)
    by (auto simp: log_text_def List.map_filter_simps parse_line_def)
  have run: "refs_Log s name k ?w = (Inr (if k > 0 \<and> int (length es) + 1 > k then take (nat k) (\<lparr>e_Digest = d, e_Old = old, e_Time = os_now (est w)\<rparr> # rev es)
      else \<lparr>e_Digest = d, e_Old = old, e_Time = os_now (est w)\<rparr> # rev es), ?w)" for k
  proof -
    have "os_ReadFile ?l ?w = (Inr (bytes_of (log_text es @ log_line (os_now (est w)) d old)), ?w)"
      using log(2-4) by (intro os_ReadFile_healthy) auto
    then show ?thesis using assms(2,3) entries by (simp add: refs_Log_def bnd_def of_result_def attempt_def ret_def Let_def)
  qed
  moreover have "refs_Previous s name ?w = (if old = [] then Inl (Errorf (name @ '' has no previous revision'') [refs_ErrNotFound]) else Inr old, ?w)"
    using run [of 1] by (auto simp: refs_Previous_def bnd_def ret_def fail_def)
  ultimately show ?thesis using run [of 0] by (intro exI [of _ ?w]) simp
qed

theorem refs_set_get_witness:
  "\<exists>w'. refs_Set \<lparr>refs_dir = ''r''\<rparr> ''a'' [2] (refs_demo []) = (Inr (), w') \<and>
     refs_Get \<lparr>refs_dir = ''r''\<rparr> ''a'' w' = (Inr [2], w') \<and> refs_Previous \<lparr>refs_dir = ''r''\<rparr> ''a'' w' = (Inr [1], w')"
proof -
  let ?s = "\<lparr>refs_dir = ''r''\<rparr>"
  have p: "valuePath ?s ''a'' = [''r'', ''a'']" "logPath ?s ''a'' = [''r'', ''.log'', ''a'']"
    by code_simp+
  have temp: "node_at (est (refs_demo [])) (temp_name [''r'', ''a''] i) = None"
    "node_at (est (refs_demo [])) (temp_name [''r'', ''.log'', ''a''] i) = None" for i
    by (auto simp: refs_demo_def node_at_def temp_name_def temp_suffix_def)
  have slots: "slot_ok (node_at (est (refs_demo []))) [''r'', ''a'']" "slot_ok (node_at (est (refs_demo []))) [''r'', ''.log'', ''a'']"
    unfolding slot_ok_def temp by (auto simp: file_slot_def dir_slot_def parents_def refs_demo_def node_at_def)
  have v: "ValidateName ''a'' = Inr ()" by code_simp
  have "\<exists>w'. refs_Set ?s ''a'' [2] (refs_demo []) = (Inr (), w') \<and> refs_Get ?s ''a'' w' = (Inr [2], w') \<and>
    refs_Log ?s ''a'' 0 w' = (Inr (\<lparr>e_Digest = [2], e_Old = [1], e_Time = os_now (est (refs_demo []))\<rparr> # rev []), w') \<and>
    refs_Previous ?s ''a'' w' = (if [1] = ([] :: digest) then Inl (Errorf (''a'' @ '' has no previous revision'') [refs_ErrNotFound]) else Inr [1], w')"
  proof (rule refs_set_get)
    show "\<exists>i < 10000. node_at (est (refs_demo [])) (temp_name (valuePath ?s ''a'') i) = None" unfolding p temp by (intro exI [of _ 0]) simp
    show "healthy (est (refs_demo []))" "ectx (refs_demo []) = Live"
      "\<forall>t \<in> insert (os_now (est (refs_demo []))) (e_Time ` set []). - (2 ^ 63) \<le> t \<and> t < 2 ^ 63"
      by (simp_all add: refs_demo_def healthy_def)
    show "ref_holds (est (refs_demo [])) (valuePath ?s ''a'') [1]" "log_holds (est (refs_demo [])) (logPath ?s ''a'') []"
      unfolding p by (simp_all add: ref_holds_def log_holds_def refs_demo_def node_at_def)
  qed (use v slots p in simp_all)
  then show ?thesis by auto
qed

end
