(* ===== verification/Snapshot_Archive.thy ===== *)
theory Snapshot_Archive
  imports Mem_Snapshot Fs_Contract
begin

text \<open>
  \<open>src/cas/backend/snapshot/snapshot.go\<close>: the transport archive of any backend. \<open>Export\<close> lists the
  source, sorts the digests and writes an 18-byte header (magic, version, object count) and one
  record per object (two 64-bit lengths, the digest, the payload); \<open>Import\<close> validates the archive
  record by record and puts each object into the destination as it is read.

  The two directions are proved once, in the locales \<open>archive_source\<close> (over the backend contract)
  and \<open>archive_target\<close> (a backend whose puts succeed), and interpreted on the memory backend and on
  the file backend. Shown: the archive is a function of the stored objects alone, an import of it
  adds exactly these objects, and no import, whatever the bytes and whenever it stops, removes an object.
\<close>

section \<open>The format\<close>

definition archive_magic :: bytes where
  "archive_magic = bytes_of ''CASKSNAP''"

definition archive_version :: nat where
  "archive_version = 1"

definition archive_headerSize :: nat where
  "archive_headerSize = 8 + 2 + 8"

definition recordHeaderSize :: nat where
  "recordHeaderSize = 16"

definition maxDigestSize :: nat where
  "maxDigestSize = 2 ^ 20"

definition archive_header :: "nat \<Rightarrow> bytes" where
  "archive_header count = archive_magic @ be_put 2 archive_version @ be_put 8 count"

section \<open>Export\<close>

text \<open>\<open>step_part wr m k\<close>: the step \<open>m\<close>, whose error ends the export with the writer as it is.\<close>

definition step_part ::
  "writer \<Rightarrow> ('b, 'a) act \<Rightarrow> ('a \<Rightarrow> ('b, err option \<times> writer) act) \<Rightarrow> ('b, err option \<times> writer) act" where
  "step_part wr m k w = (case m w of (Inl e, w') \<Rightarrow> (Inr (Some e, wr), w') | (Inr x, w') \<Rightarrow> k x w')"

definition payloadHint :: "'b backend \<Rightarrow> digest \<Rightarrow> ('b, int) act" where
  "payloadHint src d =
     (case b_Size src of
        None \<Rightarrow> ret 0
      | Some sz \<Rightarrow> catch (bnd (sz d) (\<lambda>n. ret (if n \<le> 0 then 0 else n))) (\<lambda>_. ret 0))"

definition export_read :: "'b backend \<Rightarrow> digest \<Rightarrow> ('b, bytes) act" where
  "export_read src d =
     bnd (catch (b_Get src d) (\<lambda>e. fail (Errorf ''snapshot: get'' [e]))) (\<lambda>rc.
     bnd (payloadHint src d) (\<lambda>hint.
     bnd (wrapping ''snapshot: read'' (ReadWhole (reader.truncate rc) hint)) (\<lambda>payload.
       (case rc_close rc of
          Some e \<Rightarrow> fail (Errorf ''snapshot: close'' [e])
        | None \<Rightarrow> ret payload))))"

fun export_records :: "'b backend \<Rightarrow> digest list \<Rightarrow> writer \<Rightarrow> ('b, err option \<times> writer) act" where
  "export_records src [] wr = ret (None, wr)"
| "export_records src (d # ds) wr =
     step_part wr ctx_Err (\<lambda>_.
     step_part wr (when_err (CheckDigest d ''snapshot: export'')) (\<lambda>_.
     step_part wr (export_read src d) (\<lambda>payload.
       write_part ''snapshot: write record lengths'' (record_lengths d payload) wr (\<lambda>wr1.
       write_part ''snapshot: write digest'' d wr1 (\<lambda>wr2.
       write_part ''snapshot: write payload'' payload wr2 (\<lambda>wr3.
         export_records src ds wr3))))))"

definition Export :: "'b backend option \<Rightarrow> writer option \<Rightarrow> ('b, err option \<times> writer option) act" where
  "Export srco wo w0 =
     (case ctx_Err w0 of
        (Inl e, w) \<Rightarrow> (Inr (Some e, wo), w)
      | (Inr _, w) \<Rightarrow>
          (case srco of
             None \<Rightarrow> (Inr (Some (ErrorsNew ''snapshot: source backend is nil''), wo), w)
           | Some src \<Rightarrow>
               (case wo of
                  None \<Rightarrow> (Inr (Some (ErrorsNew ''snapshot: writer is nil''), None), w)
                | Some wr \<Rightarrow>
                    bnd (step_part wr (wrapping ''snapshot: list source objects'' (b_List src)) (\<lambda>digests.
                           write_part ''snapshot: write header'' (archive_header (length digests)) wr
                             (export_records src (sort digests))))
                        (\<lambda>(eo, wr'). ret (eo, Some wr')) w)))"

section \<open>Import\<close>

fun import_loop :: "'b backend \<Rightarrow> nat \<Rightarrow> digest list \<Rightarrow> reader \<Rightarrow> ('b, reader) act" where
  "import_loop dst 0 seen r = ret r"
| "import_loop dst (Suc n) seen r =
     bnd ctx_Err (\<lambda>_.
     bnd (wrapping ''snapshot: read record lengths'' (ReadAll recordHeaderSize r)) (\<lambda>(lengths, r1).
       (let digestSize = be_get (take 8 lengths); payloadSize = be_get (drop 8 lengths) in
        if digestSize > maxDigestSize \<or> digestSize > MaxInt
        then fail (ErrorsNew ''snapshot: invalid digest size'')
        else if payloadSize > MaxInt then fail (ErrorsNew ''snapshot: payload is too large'')
        else
          bnd (wrapping ''snapshot: read digest'' (ReadAll digestSize r1)) (\<lambda>(digest1, r2).
          (let d = NewDigest digest1 in
           bnd (when_err (CheckDigest d ''snapshot: import'')) (\<lambda>_.
             if d \<in> set seen then fail (ErrorsNew ''snapshot: duplicate digest'')
             else
               bnd (wrapping ''snapshot: read payload'' (ReadPayload payloadSize r2)) (\<lambda>(payload, r3).
               bnd (wrapping ''snapshot: put'' (b_Put dst d (bytes_reader payload))) (\<lambda>_.
                 import_loop dst n (d # seen) r3))))))))"

definition import_trailing :: "reader \<Rightarrow> err option" where
  "import_trailing r =
     (let ((b, eo), _) = read_step 1 r in
      if b \<noteq> [] then Some (ErrorsNew ''snapshot: trailing data'')
      else (case eo of
          None \<Rightarrow> Some (ErrorsNew ''snapshot: trailing data'')
        | Some e \<Rightarrow> if e = EOF then None else Some (Errorf ''snapshot: check trailing data'' [e])))"

definition Import :: "'b backend option \<Rightarrow> reader option \<Rightarrow> ('b, unit) act" where
  "Import dsto ro =
     bnd ctx_Err (\<lambda>_.
       case dsto of
         None \<Rightarrow> fail (ErrorsNew ''snapshot: destination backend is nil'')
       | Some dst \<Rightarrow>
           (case ro of
              None \<Rightarrow> fail (ErrorsNew ''snapshot: reader is nil'')
            | Some r \<Rightarrow>
                bnd (wrapping ''snapshot: read header'' (ReadAll archive_headerSize r)) (\<lambda>(header, r1).
                  (let count = be_get (drop 10 header) in
                   if take 8 header \<noteq> archive_magic then fail (ErrorsNew ''snapshot: invalid magic'')
                   else if be_get (take 2 (drop 8 header)) \<noteq> archive_version
                   then fail (ErrorsNew ''snapshot: unsupported version'')
                   else if count > MaxInt then fail (ErrorsNew ''snapshot: object count is too large'')
                   else bnd (import_loop dst count [] r1) (\<lambda>r2. when_err (import_trailing r2))))))"

section \<open>The archive of a map of objects\<close>

definition archive_record :: "(digest \<Rightarrow> bytes option) \<Rightarrow> digest \<Rightarrow> bytes" where
  "archive_record m d = record_lengths d (the (m d)) @ d @ the (m d)"

definition archive_bytes :: "(digest \<Rightarrow> bytes option) \<Rightarrow> bytes" where
  "archive_bytes m =
     archive_header (card (dom m)) @ concat (map (archive_record m) (sorted_list_of_set (dom m)))"

lemma step_part_ok [simp]: "m w = (Inr x, w') \<Longrightarrow> step_part wr m k w = k x w'"
  by (simp add: step_part_def)

text \<open>A source: a reliable backend whose size query, where it has one, changes nothing.\<close>

locale archive_source = reliable_backend +
  assumes size_frame: "b_Size be = Some sz \<Longrightarrow> inv (est w) \<Longrightarrow> ectx w = Live \<Longrightarrow> sz d w = (zx, w') \<Longrightarrow>
      inv (est w') \<and> abs (est w') = abs (est w) \<and> ectx w' = Live"
begin

lemma hint_live:
  assumes "inv (est w)" "ectx w = Live"
  obtains n w' where "payloadHint be d w = (Inr n, w')" "inv (est w')" "ectx w' = Live" "abs (est w') = abs (est w)"
proof (cases "b_Size be")
  case None
  with assms that show thesis by (auto simp: payloadHint_def ret_def)
next
  case (Some sz)
  obtain x w' where x: "sz d w = (x, w')" by fastforce
  have "\<exists>n. payloadHint be d w = (Inr n, w')"
    using Some x by (cases x) (auto simp: payloadHint_def monad_defs)
  with size_frame [OF Some assms x] that show thesis by blast
qed

lemma read_value:
  assumes "inv (est w)" "ectx w = Live" "abs (est w) d = Some b"
  obtains w' where "export_read be d w = (Inr b, w')" "inv (est w')" "ectx w' = Live" "abs (est w') = abs (est w)"
proof -
  obtain rc w1 where g: "b_Get be d w = (Inr rc, w1)" "r_err rc = None" "rc_close rc = None" "r_data rc = b"
    "ectx w1 = Live" "inv (est w1)" "abs (est w1) = abs (est w)"
    using get_value [OF assms] .
  obtain n w2 where h: "payloadHint be d w1 = (Inr n, w2)" "inv (est w2)" "ectx w2 = Live" "abs (est w2) = abs (est w1)"
    using hint_live [OF g(6,5)] .
  have "export_read be d w = (Inr b, w2)"
    using g h ReadWhole_live [of w2 "reader.truncate rc" n]
    by (simp add: export_read_def bnd_def catch_def wrapping_def ret_def)
  with h g that show thesis by simp
qed

lemma records_live:
  assumes "inv (est w)" "ectx w = Live" "w_plan wr = []" "set ds \<subseteq> dom (abs (est w))"
  shows "\<exists>w'. export_records be ds wr w =
      (Inr (None, wr\<lparr>w_out := w_out wr @ concat (map (archive_record (abs (est w))) ds)\<rparr>), w') \<and>
    inv (est w') \<and> ectx w' = Live \<and> abs (est w') = abs (est w)"
  using assms
proof (induction ds arbitrary: w wr)
  case (Cons d ds)
  then obtain b where b: "abs (est w) d = Some b" by auto
  then have d: "d \<noteq> []" using absent_key [OF Cons.prems(1)] by auto
  obtain w1 where r: "export_read be d w = (Inr b, w1)" "inv (est w1)" "ectx w1 = Live" "abs (est w1) = abs (est w)"
    using read_value [OF Cons.prems(1,2) b] .
  let ?wr = "wr\<lparr>w_out := w_out wr @ archive_record (abs (est w)) d\<rparr>"
  have "export_records be (d # ds) wr w = export_records be ds ?wr w1"
    using r d b Cons.prems(2,3) by (simp add: when_err_def archive_record_def)
  with Cons.IH [OF r(2,3), of ?wr] Cons.prems r(4) show ?case by simp
qed (simp add: ret_def)

lemma export_live:
  assumes "inv (est w)" "ectx w = Live" "w_plan wr = []"
  obtains w' where "Export (Some be) (Some wr) w =
      (Inr (None, Some (wr\<lparr>w_out := w_out wr @ archive_bytes (abs (est w))\<rparr>)), w')"
    "inv (est w')" "ectx w' = Live" "abs (est w') = abs (est w)"
proof -
  obtain ds w1 where l: "b_List be w = (Inr ds, w1)" "set ds = dom (abs (est w))" "distinct ds" "ectx w1 = Live"
    using list_live [OF assms(1,2)] by blast
  have f: "inv (est w1)" "abs (est w1) = abs (est w)" using list_frame [OF assms(1) l(1)] by auto
  have sorted: "sort ds = sorted_list_of_set (dom (abs (est w)))" "length ds = card (dom (abs (est w)))"
    using l(2,3) by (simp_all add: l(2) [symmetric] sorted_list_of_set_sort_remdups distinct_remdups_id distinct_card)
  let ?wr = "wr\<lparr>w_out := w_out wr @ archive_header (length ds)\<rparr>"
  obtain w2 where e: "export_records be (sort ds) ?wr w1 =
      (Inr (None, ?wr\<lparr>w_out := w_out ?wr @ concat (map (archive_record (abs (est w1))) (sort ds))\<rparr>), w2)"
    "inv (est w2)" "ectx w2 = Live" "abs (est w2) = abs (est w1)"
    using records_live [OF f(1) l(4), of ?wr "sort ds"] assms(3) f(2) l(2) by auto
  have "Export (Some be) (Some wr) w =
      (Inr (None, Some (wr\<lparr>w_out := w_out wr @ archive_bytes (abs (est w))\<rparr>)), w2)"
    using assms l e f sorted by (simp add: Export_def bnd_def wrapping_def archive_bytes_def ret_def)
  with e f that show thesis by simp
qed

end

text \<open>A target: a backend that accepts every object on a live context.\<close>

locale archive_target =
  fixes tbe :: "'b backend"
    and tabs :: "'b \<Rightarrow> digest \<Rightarrow> bytes option"
    and tinv :: "'b \<Rightarrow> bool"
  assumes put_accepts: "tinv (est w) \<Longrightarrow> ectx w = Live \<Longrightarrow> d \<noteq> [] \<Longrightarrow>
      \<exists>w'. b_Put tbe d (bytes_reader v) w = (Inr (), w') \<and> ectx w' = Live \<and> tinv (est w') \<and>
        tabs (est w') = (tabs (est w))(d \<mapsto> v)"
begin

lemma import_one:
  assumes live: "ectx w = Live" "tinv (est w)" and data: "r_data r = record_lengths d v @ d @ v @ rest"
    and ne: "[] \<notin> set (r_chunks r)" and d: "d \<noteq> []" "length d \<le> maxDigestSize" "d \<notin> set seen" "length v \<le> MaxInt"
  obtains r' w' where "r_data r' = rest" "r_err r' = r_err r" "[] \<notin> set (r_chunks r')" "ectx w' = Live"
    "tinv (est w')" "tabs (est w') = (tabs (est w))(d \<mapsto> v)"
    "import_loop tbe (Suc n) seen r w = import_loop tbe n (d # seen) r' w'"
proof -
  have len: "length (record_lengths d v) = recordHeaderSize" by (simp add: record_lengths_def recordHeaderSize_def)
  obtain r1 where r1: "ReadAll recordHeaderSize r w = (Inr (record_lengths d v, r1), w)"
    "r_data r1 = d @ v @ rest" "r_err r1 = r_err r" "[] \<notin> set (r_chunks r1)"
    using read_live [of w recordHeaderSize r] data len ne live by auto
  obtain r2 where r2: "ReadAll (length d) r1 w = (Inr (d, r2), w)"
    "r_data r2 = v @ rest" "r_err r2 = r_err r" "[] \<notin> set (r_chunks r2)"
    using read_live [of w "length d" r1] r1 live by auto
  obtain r3 where r3: "ReadPayload (length v) r2 w = (Inr (v, r3), w)"
    "r_data r3 = rest" "r_err r3 = r_err r" "[] \<notin> set (r_chunks r3)"
    using read_live [of w "length v" r2] r2 live by auto
  obtain w' where p: "b_Put tbe d (bytes_reader v) w = (Inr (), w')" "ectx w' = Live" "tinv (est w')"
    "tabs (est w') = (tabs (est w))(d \<mapsto> v)"
    using put_accepts [OF live(2,1) d(1)] by blast
  have small: "length d \<le> MaxInt" using d(2) by (simp add: maxDigestSize_def MaxInt_def)
  have sz: "be_get (take 8 (record_lengths d v)) = length d" "be_get (drop 8 (record_lengths d v)) = length v"
    using d small by (simp_all add: record_lengths_def be_get_put_8)
  have "import_loop tbe (Suc n) seen r w = import_loop tbe n (d # seen) r3 w'"
    using live d small p by (simp add: bnd_def wrapping_def r1(1) r2(1) r3(1) sz Let_def when_err_def NewDigest_def)
  with r3 p that show thesis by blast
qed

lemma import_all:
  assumes "ectx w = Live" "tinv (est w)" "r_data r = concat (map (archive_record m) ds)" "r_err r = None"
    and "[] \<notin> set (r_chunks r)" "distinct ds" "set ds \<inter> set seen = {}" "set ds \<subseteq> dom m"
    and "\<forall>d \<in> set ds. d \<noteq> [] \<and> length d \<le> maxDigestSize \<and> length (the (m d)) \<le> MaxInt"
  shows "\<exists>r' w'. import_loop tbe (length ds) seen r w = (Inr r', w') \<and> r_chunks r' = [] \<and> r_err r' = None \<and>
    ectx w' = Live \<and> tinv (est w') \<and> tabs (est w') = (\<lambda>d. if d \<in> set ds then m d else tabs (est w) d)"
  using assms
proof (induction ds arbitrary: w r seen)
  case Nil
  then show ?case by (auto simp: ret_def no_chunks)
next
  case (Cons d ds)
  from Cons.prems(8) obtain v where v: "m d = Some v" by auto
  have data: "r_data r = record_lengths d v @ d @ v @ concat (map (archive_record m) ds)"
    using Cons.prems(3) v by (simp add: archive_record_def [of m d])
  obtain r' w' where s: "r_data r' = concat (map (archive_record m) ds)" "r_err r' = r_err r" "[] \<notin> set (r_chunks r')"
    "ectx w' = Live" "tinv (est w')" "tabs (est w') = (tabs (est w))(d \<mapsto> v)"
    "import_loop tbe (Suc (length ds)) seen r w = import_loop tbe (length ds) (d # seen) r' w'"
    using import_one [OF Cons.prems(1,2) data Cons.prems(5), of seen "length ds" thesis] Cons.prems(7,9) v
    by (auto simp del: import_loop.simps)
  have "\<exists>r'' w''. import_loop tbe (length ds) (d # seen) r' w' = (Inr r'', w'') \<and> r_chunks r'' = [] \<and> r_err r'' = None \<and>
    ectx w'' = Live \<and> tinv (est w'') \<and> tabs (est w'') = (\<lambda>d'. if d' \<in> set ds then m d' else tabs (est w') d')"
    using s Cons.prems by (intro Cons.IH) auto
  with s(6,7) v Cons.prems(6) show ?case by (auto simp del: import_loop.simps simp: fun_eq_iff)
qed

lemma import_live:
  assumes "ectx w = Live" "tinv (est w)" "r_data r = archive_bytes m" "r_err r = None" "[] \<notin> set (r_chunks r)"
    and "finite (dom m)" "card (dom m) \<le> MaxInt" "m [] = None"
    and "\<forall>d \<in> dom m. length d \<le> maxDigestSize \<and> length (the (m d)) \<le> MaxInt"
  obtains w' where "Import (Some tbe) (Some r) w = (Inr (), w')" "ectx w' = Live" "tinv (est w')"
    "tabs (est w') = tabs (est w) ++ m"
proof -
  let ?h = "archive_header (card (dom m))" and ?ds = "sorted_list_of_set (dom m)"
  have h: "length ?h = archive_headerSize"
    by (simp add: archive_header_def archive_magic_def archive_headerSize_def)
  obtain r1 where r1: "ReadAll archive_headerSize r w = (Inr (?h, r1), w)"
    "r_data r1 = concat (map (archive_record m) ?ds)" "r_err r1 = None" "[] \<notin> set (r_chunks r1)"
    using read_live [of w archive_headerSize r] assms(1,3,4,5) h by (auto simp: archive_bytes_def)
  obtain r2 w' where l: "import_loop tbe (length ?ds) [] r1 w = (Inr r2, w')" "r_chunks r2 = []" "r_err r2 = None"
    "ectx w' = Live" "tinv (est w')" "tabs (est w') = (\<lambda>d. if d \<in> set ?ds then m d else tabs (est w) d)"
    using import_all [OF assms(1,2) r1(2-4), of "[]"] assms(6,8,9) by auto
  have hd: "take 8 ?h = archive_magic" "be_get (take 2 (drop 8 ?h)) = archive_version" "be_get (drop 10 ?h) = card (dom m)"
    using assms(7) by (simp_all add: archive_header_def archive_magic_def archive_version_def be_get_put_8)
  have tr: "import_trailing r2 = None" using l by (simp add: import_trailing_def read_step_def)
  have "Import (Some tbe) (Some r) w = (Inr (), w')"
    using assms(1,6,7) l(1) by (simp add: Import_def bnd_def wrapping_def r1(1) hd tr when_err_def Let_def)
  moreover have "tabs (est w') = tabs (est w) ++ m"
    using l(6) assms(6) by (auto simp: fun_eq_iff map_add_def dom_def split: option.splits)
  ultimately show thesis using l that by blast
qed

end

text \<open>An import into any backend that keeps its contract: nothing stored is lost.\<close>

context backend_contract
begin

lemma import_loop_keeps:
  "keeps (\<lambda>s. inv s \<and> A \<subseteq> dom (abs s)) (import_loop be n seen r)"
proof (induction n arbitrary: seen r)
  case (Suc n)
  have put: "keeps (\<lambda>s. inv s \<and> A \<subseteq> dom (abs s)) (b_Put be d (bytes_reader p))" for d p
  proof (rule keepsI)
    fix w :: "'b env"
    assume I: "inv (est w) \<and> A \<subseteq> dom (abs (est w))"
    obtain x w' where x: "b_Put be d (bytes_reader p) w = (x, w')" by fastforce
    have "A \<subseteq> dom (abs (est w'))"
    proof (cases x)
      case (Inl e)
      with put_err [of w d _ e w'] x I show ?thesis by simp
    next
      case (Inr u)
      with put_ok [of w d "bytes_reader p" w'] x I show ?thesis by auto
    qed
    with put_inv [of w d _ x w'] x I show "inv (est (snd (b_Put be d (bytes_reader p) w))) \<and>
      A \<subseteq> dom (abs (est (snd (b_Put be d (bytes_reader p) w))))" by simp
  qed
  show ?case
    unfolding import_loop.simps Let_def
    by (intro keeps_intros) (auto intro!: keeps_intros put Suc split: prod.splits)
qed (simp add: keeps_intros)

lemma import_keeps:
  assumes "inv (est w)" "Import (Some be) ro w = (x, w')"
  shows "inv (est w') \<and> dom (abs (est w)) \<subseteq> dom (abs (est w'))"
proof -
  have "keeps (\<lambda>s. inv s \<and> dom (abs (est w)) \<subseteq> dom (abs s)) (Import (Some be) ro)"
    unfolding Import_def Let_def
    by (auto intro!: keeps_intros import_loop_keeps split: prod.splits option.splits)
  from keepsD [OF this assms(2)] assms(1) show ?thesis by simp
qed

end

section \<open>The two backends as sources and targets\<close>

interpretation mem_source: archive_source mem_backend mem_abs mem_inv
  by unfold_locales (simp add: mem_backend_def)

lemma os_Stat_ectx: "os_Stat p w = (x, w') \<Longrightarrow> ectx w' = ectx w"
  by (auto simp: os_Stat_def syscall_def Let_def split: list.splits fault.splits prod.splits if_splits)

lemma physicalStat_live: "physicalStat s d what w = (x, w') \<Longrightarrow> ectx w = Live \<Longrightarrow> ectx w' = Live"
  by (auto simp: physicalStat_def at_digestPath_def monad_defs dest!: os_Stat_ectx
      split: option.splits prod.splits sum.splits if_splits)

interpretation fs_source: archive_source "fs_backend (fs_default b sync)" "fs_abs (fs_default b sync)" "fs_inv (fs_default b sync)"
  for b sync
proof
  let ?s = "fs_default b sync"
  fix sz and w w' :: "'a osfs_scheme env" and d and zx :: "int result"
  assume sz: "b_Size (fs_backend ?s) = Some sz" and inv: "fs_inv ?s (est w)" and live: "ectx w = Live" and run: "sz d w = (zx, w')"
  have eq: "sz d = fs_Size ?s d" using sz by (simp add: fs_backend_def)
  have "keeps I (fs_Size ?s d)" if "reads_ok I" for I :: "'a osfs_scheme \<Rightarrow> bool"
    unfolding fs_Size_def using keeps_fs_reads(3) [OF that] by (auto intro!: keeps_intros split: prod.split)
  from fs_read_frame [OF inv _ this] run eq have "fs_inv ?s (est w') \<and> fs_abs ?s (est w') = fs_abs ?s (est w)" by simp
  moreover have "ectx w' = Live"
    using run eq live by (auto simp: fs_Size_def bnd_def ret_def dest: physicalStat_live split: prod.splits sum.splits)
  ultimately show "fs_inv ?s (est w') \<and> fs_abs ?s (est w') = fs_abs ?s (est w) \<and> ectx w' = Live" by simp
qed

interpretation mem_target: archive_target mem_backend mem_abs "\<lambda>m. mem_inv m \<and> maxBytes m \<le> 0"
proof
  fix w :: "mem_state env" and d :: digest and v
  assume w: "mem_inv (est w) \<and> maxBytes (est w) \<le> 0" "ectx w = Live" "d \<noteq> []"
  from mem_Put_live [of w d "bytes_reader v"] w obtain w' where p: "mem_Put d (bytes_reader v) w = (Inr (), w')"
    "ectx w' = Live" "mem_abs (est w') = (mem_abs (est w))(d \<mapsto> v)" "maxBytes (est w') = maxBytes (est w)" by auto
  with mem_Put_inv [OF _ p(1)] w show "\<exists>w'. b_Put mem_backend d (bytes_reader v) w = (Inr (), w') \<and> ectx w' = Live \<and>
    (mem_inv (est w') \<and> maxBytes (est w') \<le> 0) \<and> mem_abs (est w') = (mem_abs (est w))(d \<mapsto> v)"
    by (auto simp: mem_backend_def)
qed

text \<open>A file store with the first temporary name of every object free.\<close>

definition fs_tidy :: "fsb \<Rightarrow> 'z osfs_scheme \<Rightarrow> bool" where
  "fs_tidy s st \<longleftrightarrow> fs_inv s st \<and> (\<forall>d. usable s d \<longrightarrow> node_at st (temp_name (canon s d) 0) = None)"

interpretation fs_target: archive_target "fs_backend (fs_default b sync)" "fs_abs (fs_default b sync)" "fs_tidy (fs_default b sync)"
  for b sync
proof
  let ?s = "fs_default b sync"
  fix w :: "'a osfs_scheme env" and d :: digest and v
  assume w: "fs_tidy ?s (est w)" "ectx w = Live" "d \<noteq> []"
  then have u: "usable ?s d" by (simp add: usable_default)
  have "node_at (est w) (temp_name (canon ?s d) 0) = None" using w u by (simp add: fs_tidy_def)
  then have "\<exists>i < 10000. node_at (est w) (temp_name (canon ?s d) i) = None" by (intro exI [of _ 0]) simp
  from fs_Put_live [OF sane_default _ w(2) u r_err_bytes_reader [of v] this] w(1) obtain st' where
    p: "fs_Put ?s d (bytes_reader v) w = (Inr (), w\<lparr>est := st'\<rparr>)" "fs_inv ?s st'"
      "fs_abs ?s st' = (fs_abs ?s (est w))(d \<mapsto> v)"
      "\<forall>d' i. node_at st' (temp_name (canon ?s d') i) = node_at (est w) (temp_name (canon ?s d') i)"
    by (auto simp: fs_tidy_def)
  then show "\<exists>w'. b_Put (fs_backend ?s) d (bytes_reader v) w = (Inr (), w') \<and> ectx w' = Live \<and>
    fs_tidy ?s (est w') \<and> fs_abs ?s (est w') = (fs_abs ?s (est w))(d \<mapsto> v)"
    using w by (auto simp: fs_backend_def fs_tidy_def)
qed

section \<open>Properties\<close>

text \<open>What an archive can hold.\<close>

definition archivable :: "(digest \<Rightarrow> bytes option) \<Rightarrow> bool" where
  "archivable m \<longleftrightarrow> finite (dom m) \<and> card (dom m) \<le> MaxInt \<and>
     (\<forall>d \<in> dom m. length d \<le> maxDigestSize \<and> length (the (m d)) \<le> MaxInt)"

text \<open>
  C20: an archive moves a store between backends. Exporting a valid memory backend on a live context
  into a willing writer succeeds and changes nothing; importing the archive, delivered in any chunks,
  into a working file store succeeds and leaves there exactly the objects it had and the exported
  ones; exporting a file store that started empty gives the same bytes again.
\<close>

theorem archive_mem_to_fs:
  assumes "mem_inv (est w)" "ectx w = Live" "w_plan wr = []" "w_out wr = []" "archivable (mem_abs (est w))"
    and "fs_tidy (fs_default b sync) (est v)" "ectx v = Live"
  shows "\<exists>wr' w'. Export (Some mem_backend) (Some wr) w = (Inr (None, Some wr'), w') \<and> mem_abs (est w') = mem_abs (est w) \<and>
    (\<forall>r. r_data r = w_out wr' \<longrightarrow> r_err r = None \<longrightarrow> [] \<notin> set (r_chunks r) \<longrightarrow>
      (\<exists>v'. Import (Some (fs_backend (fs_default b sync))) (Some r) v = (Inr (), v') \<and> fs_tidy (fs_default b sync) (est v') \<and>
        fs_abs (fs_default b sync) (est v') = fs_abs (fs_default b sync) (est v) ++ mem_abs (est w) \<and>
        (fs_abs (fs_default b sync) (est v) = Map.empty \<longrightarrow>
          (\<exists>wr2 v2. Export (Some (fs_backend (fs_default b sync))) (Some wr) v' = (Inr (None, Some wr2), v2) \<and>
             w_out wr2 = w_out wr'))))"
proof -
  let ?s = "fs_default b sync" and ?m = "mem_abs (est w)"
  obtain w' where e: "Export (Some mem_backend) (Some wr) w = (Inr (None, Some (wr\<lparr>w_out := w_out wr @ archive_bytes ?m\<rparr>)), w')"
    "mem_abs (est w') = ?m"
    using mem_source.export_live [OF assms(1-3)] by metis
  have "\<exists>v'. Import (Some (fs_backend ?s)) (Some r) v = (Inr (), v') \<and> fs_tidy ?s (est v') \<and>
      fs_abs ?s (est v') = fs_abs ?s (est v) ++ ?m \<and> (fs_abs ?s (est v) = Map.empty \<longrightarrow>
        (\<exists>wr2 v2. Export (Some (fs_backend ?s)) (Some wr) v' = (Inr (None, Some wr2), v2) \<and> w_out wr2 = archive_bytes ?m))"
    if r: "r_data r = archive_bytes ?m" "r_err r = None" "[] \<notin> set (r_chunks r)" for r
  proof -
    obtain v' where i: "Import (Some (fs_backend ?s)) (Some r) v = (Inr (), v')" "ectx v' = Live" "fs_tidy ?s (est v')"
      "fs_abs ?s (est v') = fs_abs ?s (est v) ++ ?m"
      using fs_target.import_live [OF assms(7,6) r] assms(5) mem_inv_absent [OF assms(1)] by (auto simp: archivable_def)
    have inv: "fs_inv ?s (est v')" using i(3) by (simp add: fs_tidy_def)
    obtain v2 where "Export (Some (fs_backend ?s)) (Some wr) v' =
        (Inr (None, Some (wr\<lparr>w_out := w_out wr @ archive_bytes (fs_abs ?s (est v'))\<rparr>)), v2)"
      using fs_source.export_live [OF inv i(2) assms(3)] by metis
    then have "fs_abs ?s (est v) = Map.empty \<longrightarrow>
        (\<exists>wr2 v2. Export (Some (fs_backend ?s)) (Some wr) v' = (Inr (None, Some wr2), v2) \<and> w_out wr2 = archive_bytes ?m)"
      using i(4) assms(4) by auto
    with i show ?thesis by blast
  qed
  with e assms(4) show ?thesis by (intro exI [of _ "wr\<lparr>w_out := w_out wr @ archive_bytes ?m\<rparr>"] exI [of _ w']) simp
qed

theorem archive_mem_to_fs_witness:
  "\<exists>wr' w'. Export (Some mem_backend) (Some \<lparr>w_out = [], w_plan = []\<rparr>)
      \<lparr>ectx = Live, est = \<lparr>objects = [([1, 2], [7, 8, 9])], maxBytes = 0, usedBytes = 3\<rparr>\<rparr> = (Inr (None, Some wr'), w') \<and>
     (\<exists>v'. Import (Some (fs_backend (fs_default [''s''] True))) (Some \<lparr>r_chunks = [w_out wr'], r_err = None, r_len = None\<rparr>) (fs_demo []) = (Inr (), v') \<and>
        fs_abs (fs_default [''s''] True) (est v') [1, 2] = Some [7, 8, 9])"
proof -
  let ?w = "\<lparr>ectx = Live, est = \<lparr>objects = [([1, 2], [7, 8, 9])], maxBytes = 0, usedBytes = 3\<rparr>\<rparr> :: mem_state env"
  let ?wr = "\<lparr>w_out = [], w_plan = []\<rparr>" and ?s = "fs_default [''s''] True"
  have inv: "mem_inv (est ?w)" by (simp add: mem_inv_def MaxInt64_def)
  have ar: "archivable (mem_abs (est ?w))" by (simp add: archivable_def maxDigestSize_def MaxInt_def)
  have tidy: "fs_tidy ?s (est (fs_demo []))"
    using fs_demo_tree [of "[]"]
    by (auto simp: fs_tidy_def fs_inv_def healthy_def fs_demo_def node_at_def temp_name_def canon_def butlast_append)
  have live: "ectx ?w = Live" "w_plan ?wr = []" "w_out ?wr = []" "ectx (fs_demo []) = Live" by (simp_all add: fs_demo_def)
  obtain wr' w' where e: "Export (Some mem_backend) (Some ?wr) ?w = (Inr (None, Some wr'), w')"
    and i: "\<And>r. r_data r = w_out wr' \<Longrightarrow> r_err r = None \<Longrightarrow> [] \<notin> set (r_chunks r) \<Longrightarrow>
      \<exists>v'. Import (Some (fs_backend ?s)) (Some r) (fs_demo []) = (Inr (), v') \<and>
        fs_abs ?s (est v') = fs_abs ?s (est (fs_demo [])) ++ mem_abs (est ?w)"
    using archive_mem_to_fs [OF inv live(1-3) ar tidy live(4)] by blast
  obtain w1 where "Export (Some mem_backend) (Some ?wr) ?w =
      (Inr (None, Some (?wr\<lparr>w_out := w_out ?wr @ archive_bytes (mem_abs (est ?w))\<rparr>)), w1)"
    using mem_source.export_live [OF inv live(1,2)] by blast
  then have "wr' = ?wr\<lparr>w_out := w_out ?wr @ archive_bytes (mem_abs (est ?w))\<rparr>" using e by (simp only: prod.inject sum.inject option.inject)
  then have "[] \<notin> set (r_chunks \<lparr>r_chunks = [w_out wr'], r_err = None, r_len = None\<rparr>)"
    by (simp add: archive_bytes_def archive_header_def archive_magic_def)
  from i [OF _ _ this] obtain v' where v: "Import (Some (fs_backend ?s)) (Some \<lparr>r_chunks = [w_out wr'], r_err = None, r_len = None\<rparr>) (fs_demo []) = (Inr (), v')"
    "fs_abs ?s (est v') = fs_abs ?s (est (fs_demo [])) ++ mem_abs (est ?w)" by (auto simp: r_data_def)
  have "fs_abs ?s (est v') [1, 2] = Some [7, 8, 9]" unfolding v(2) by (simp add: map_add_def)
  with e v(1) show ?thesis by blast
qed

text \<open>
  An import never takes anything away. Whatever bytes it is given, whenever the context is cancelled,
  and whether it reports an error or not, every object of the destination is still there and the
  destination is valid, for the memory backend and for the file backend on a working file system.
\<close>

theorem import_never_removes:
  assumes "mem_inv (est w)" "Import (Some mem_backend) ro w = (x, w')"
    and "fs_inv (fs_default b sync) (est v)" "Import (Some (fs_backend (fs_default b sync))) ro v = (y, v')"
  shows "mem_inv (est w') \<and> dom (mem_abs (est w)) \<subseteq> dom (mem_abs (est w')) \<and>
    fs_inv (fs_default b sync) (est v') \<and>
    dom (fs_abs (fs_default b sync) (est v)) \<subseteq> dom (fs_abs (fs_default b sync) (est v'))"
  using mem.import_keeps [OF assms(1,2)] fsb.import_keeps [OF assms(3,4)] by blast

theorem import_never_removes_witness:
  "\<exists>w'. Import (Some mem_backend) None \<lparr>ectx = Live, est = \<lparr>objects = [([1], [2])], maxBytes = 0, usedBytes = 1\<rparr>\<rparr> =
      (Inl (ErrorsNew ''snapshot: reader is nil''), w') \<and> {[1]} \<subseteq> dom (mem_abs (est w'))"
proof -
  let ?w = "\<lparr>ectx = Live, est = \<lparr>objects = [([1], [2])], maxBytes = 0, usedBytes = 1\<rparr>\<rparr> :: mem_state env"
  have m: "Import (Some mem_backend) None ?w = (Inl (ErrorsNew ''snapshot: reader is nil''), ?w)"
    by (simp add: Import_def bnd_def fail_def)
  have f: "Import (Some (fs_backend (fs_default [''s''] True))) None (fs_demo []) =
      (Inl (ErrorsNew ''snapshot: reader is nil''), fs_demo [])"
    by (simp add: Import_def bnd_def fail_def fs_demo_def)
  have "mem_inv (est ?w)" by (simp add: mem_inv_def MaxInt64_def)
  moreover have "fs_inv (fs_default [''s''] True) (est (fs_demo []))"
    using fs_demo_tree by (simp add: fs_inv_def healthy_def fs_demo_def)
  ultimately show ?thesis using import_never_removes [OF _ m _ f] m by auto
qed

end
