(* ===== verification/Pack_Manifest.thy ===== *)
theory Pack_Manifest
  imports Atomic_File Cas_Store
begin

text \<open>
  \<open>src/cas/pack/pack.go\<close>: chunking of payloads and manifests kept in a file with a codec of the
  caller. Sizes are Go \<open>int\<close>s: every sum wraps at 64 bits, the quotient truncates, and a slice
  expression or an allocation out of range is a panic, which is an error value of its own.

  Shown: where the rounding sum does not wrap, \<open>Split\<close> cuts the payload into the announced number of
  chunks and \<open>Join\<close> inverts it; what happens where it wraps; a saved manifest is read back, and a save that
  fails or dies leaves the previous manifest.
\<close>

section \<open>Chunks\<close>

definition go_quot :: "int \<Rightarrow> int \<Rightarrow> int" where
  "go_quot a b = sgn a * sgn b * (\<bar>a\<bar> div \<bar>b\<bar>)"

definition makeslice_panic :: err where
  "makeslice_panic = ErrorsNew ''panic: makeslice: cap out of range''"

text \<open>
  The chunk loop from index \<open>i\<close>. For a positive 64-bit \<open>sz\<close> the sum \<open>i + sz\<close> is at most \<open>i\<close> exactly when it
  wraps, and then it is negative, so that the slice expression panics.
\<close>

function split_loop :: "bytes \<Rightarrow> int \<Rightarrow> int \<Rightarrow> bytes list result" where
  "split_loop data sz i =
     (if i < int (length data)
      then (if wrap64 (i + sz) \<le> i then Inl bounds_panic
            else (let e = min (wrap64 (i + sz)) (int (length data)) in
                  case split_loop data sz (wrap64 (i + sz)) of
                    Inl p \<Rightarrow> Inl p
                  | Inr cs \<Rightarrow> Inr (take (nat (e - i)) (drop (nat i) data) # cs)))
      else Inr [])"
  by pat_completeness auto
termination
  by (relation "measure (\<lambda>(data, sz, i). nat (int (length data) - i))") auto

declare split_loop.simps [simp del]

definition Split :: "bytes \<Rightarrow> int \<Rightarrow> bytes list result" where
  "Split data sz =
     (if sz \<le> 0 then Inr [data]
      else if data = [] then Inr []
      else if go_quot (wrap64 (wrap64 (int (length data) + sz) - 1)) sz < 0 then Inl makeslice_panic
      else split_loop data sz 0)"

definition Join :: "bytes list \<Rightarrow> bytes" where
  "Join chunks = (if chunks = [] then [] else foldl (\<lambda>buf c. buf @ c) [] chunks)"

definition Count :: "int \<Rightarrow> int \<Rightarrow> int" where
  "Count sz chunkSize =
     (if chunkSize \<le> 0 then 1
      else if sz \<le> 0 then 0
      else go_quot (wrap64 (wrap64 (sz + chunkSize) - 1)) chunkSize)"

section \<open>Manifests\<close>

definition ErrNilCodec :: err where
  "ErrNilCodec = ErrorsNew ''pack: nil codec''"

definition EncodeWith :: "'a \<Rightarrow> 'a codec option \<Rightarrow> bytes result" where
  "EncodeWith v co = (case co of None \<Rightarrow> Inl ErrNilCodec | Some c \<Rightarrow> c_Encode c v)"

definition DecodeWith :: "bytes \<Rightarrow> 'a codec option \<Rightarrow> 'a result" where
  "DecodeWith b co = (case co of None \<Rightarrow> Inl ErrNilCodec | Some c \<Rightarrow> c_Decode c b)"

definition LoadWith :: "path \<Rightarrow> 'a codec option \<Rightarrow> ('z osfs_scheme, 'a) act" where
  "LoadWith p co =
     bnd ctx_Err (\<lambda>_.
       case co of
         None \<Rightarrow> fail ErrNilCodec
       | Some c \<Rightarrow>
           bnd (wrapping ''pack: read manifest'' (os_ReadFile p)) (\<lambda>b. of_result (c_Decode c b)))"

definition manifest_options :: Options where
  "manifest_options = \<lparr>Mode = 420, SyncDir = True, ExistingIsSuccess = False\<rparr>"

definition SaveWith :: "path \<Rightarrow> 'a \<Rightarrow> 'a codec option \<Rightarrow> ('z osfs_scheme, unit) act" where
  "SaveWith p v co =
     bnd ctx_Err (\<lambda>_.
       case co of
         None \<Rightarrow> fail ErrNilCodec
       | Some c \<Rightarrow>
           bnd (of_result (c_Encode c v)) (\<lambda>b.
             wrapping ''pack: write manifest'' (Publish p (bytes_reader b) manifest_options)))"

record 'a manifest_store =
  ms_path :: path
  ms_codec :: "'a codec"

definition manifest_New :: "path \<Rightarrow> 'a codec option \<Rightarrow> 'a manifest_store result" where
  "manifest_New p co = (case co of None \<Rightarrow> Inl ErrNilCodec | Some c \<Rightarrow> Inr \<lparr>ms_path = p, ms_codec = c\<rparr>)"

definition manifest_Load :: "'a manifest_store \<Rightarrow> ('z osfs_scheme, 'a) act" where
  "manifest_Load s = LoadWith (ms_path s) (Some (ms_codec s))"

definition manifest_Save :: "'a manifest_store \<Rightarrow> 'a \<Rightarrow> ('z osfs_scheme, unit) act" where
  "manifest_Save s v = SaveWith (ms_path s) v (Some (ms_codec s))"

section \<open>Splitting and joining\<close>

lemma Join_concat: "Join chunks = concat chunks"
proof -
  have "foldl (\<lambda>buf c. buf @ c) b chunks = b @ concat chunks" for b :: bytes
    by (induction chunks arbitrary: b) simp_all
  then show ?thesis by (simp add: Join_def)
qed

text \<open>The chunks of a list, as a reference.\<close>

function chunks_of :: "nat \<Rightarrow> bytes \<Rightarrow> bytes list" where
  "chunks_of n data = (if data = [] \<or> n = 0 then [] else take n data # chunks_of n (drop n data))"
  by pat_completeness auto
termination
  by (relation "measure (\<lambda>(n, data). length data)") auto

declare chunks_of.simps [simp del]

lemma concat_chunks_of: "n > 0 \<Longrightarrow> concat (chunks_of n data) = data"
  by (induction n data rule: chunks_of.induct) (subst chunks_of.simps, auto)

lemma length_chunks_of: "n > 0 \<Longrightarrow> length (chunks_of n data) = (length data + n - 1) div n"
proof (induction n data rule: chunks_of.induct)
  case (1 n data)
  show ?case
  proof (cases "data = []")
    case True
    with 1 show ?thesis by (simp add: chunks_of.simps)
  next
    case False
    have "(length data + n - 1) div n = Suc ((length data - n + n - 1) div n)"
    proof (cases "length data < n")
      case True
      have eq: "length data + n - 1 = n + (length data - 1)" using False by (cases data) auto
      show ?thesis unfolding eq using True 1(2) by (simp add: div_add_self1)
    next
      case le: False
      then have "length data + n - 1 = n + (length data - n + n - 1)" using 1(2) by simp
      then show ?thesis using 1(2) by (metis div_add_self1 add.commute add_Suc_right neq0_conv plus_1_eq_Suc)
    qed
    with 1 False show ?thesis by (subst chunks_of.simps) simp
  qed
qed

lemma chunks_of_sizes:
  "n > 0 \<Longrightarrow> (\<forall>c \<in> set (butlast (chunks_of n data)). length c = n) \<and> (\<forall>c \<in> set (chunks_of n data). c \<noteq> [] \<and> length c \<le> n)"
proof (induction n data rule: chunks_of.induct)
  case (1 n data)
  show ?case
  proof (cases "data = []")
    case False
    define rest where "rest = chunks_of n (drop n data)"
    have eq: "chunks_of n data = take n data # rest"
      using chunks_of.simps [of n data] False 1(2) by (simp add: rest_def)
    have full: "length (take n data) = n" if "rest \<noteq> []"
      using that by (cases "n < length data") (simp_all add: rest_def chunks_of.simps [of n "[]"])
    have IH: "(\<forall>c \<in> set (butlast rest). length c = n) \<and> (\<forall>c \<in> set rest. c \<noteq> [] \<and> length c \<le> n)"
      unfolding rest_def using 1(1) False 1(2) by blast
    show ?thesis unfolding eq using IH full False 1(2) by auto
  qed (simp add: chunks_of.simps [of n "[]"])
qed

lemma split_loop_chunks:
  assumes "0 < sz" "int (length data) + sz - 1 \<le> MaxInt64" "0 \<le> i"
  shows "split_loop data sz i = Inr (chunks_of (nat sz) (drop (nat i) data))"
  using assms
proof (induction data sz i rule: split_loop.induct)
  case (1 data sz i)
  show ?case
  proof (cases "i < int (length data)")
    case True
    have w: "wrap64 (i + sz) = i + sz" using True 1(2-) by (intro wrap64_id) auto
    have ne: "drop (nat i) data \<noteq> []" using True 1(4) by simp
    have "split_loop data sz (i + sz) = Inr (chunks_of (nat sz) (drop (nat (i + sz)) data))"
      using 1(1) [OF True] w 1(2-) by simp
    moreover have "drop (nat sz) (drop (nat i) data) = drop (nat (i + sz)) data"
      using 1(2,4) by (simp add: nat_add_distrib add.commute)
    moreover have "take (nat (min (i + sz) (int (length data)) - i)) (drop (nat i) data) = take (nat sz) (drop (nat i) data)"
      using 1(2,4) True by (cases "i + sz \<le> int (length data)") (simp_all add: nat_diff_distrib)
    ultimately show ?thesis
      using True w 1(2) ne by (subst split_loop.simps, subst chunks_of.simps) (simp add: Let_def)
  next
    case False
    then show ?thesis by (subst split_loop.simps, subst chunks_of.simps) simp
  qed
qed

lemma quot_count:
  assumes "0 < sz" "0 < n" "n + sz - 1 \<le> MaxInt64"
  shows "go_quot (wrap64 (wrap64 (n + sz) - 1)) sz = (n + sz - 1) div sz"
proof -
  have "wrap64 (wrap64 (n + sz) - 1) = n + sz - 1"
    using assms by (simp add: wrap64_def MaxInt64_def mod_simps)
  then show ?thesis using assms by (simp add: go_quot_def)
qed

text \<open>
  Where the rounding sum fits a 64-bit integer, \<open>Split\<close> with a positive size gives non-empty chunks of
  exactly that size, the last one at most, as many as \<open>Count\<close> announces, and \<open>Join\<close> gives the payload back.
\<close>

theorem split_join:
  assumes "0 < sz" "int (length data) + sz - 1 \<le> MaxInt64"
  shows "\<exists>cs. Split data sz = Inr cs \<and> Join cs = data \<and> int (length cs) = Count (int (length data)) sz \<and>
    (\<forall>c \<in> set (butlast cs). int (length c) = sz) \<and> (\<forall>c \<in> set cs. c \<noteq> [] \<and> int (length c) \<le> sz)"
proof (cases "data = []")
  case True
  with assms show ?thesis by (simp add: Split_def Join_concat Count_def)
next
  case False
  let ?cs = "chunks_of (nat sz) data"
  have q: "go_quot (wrap64 (wrap64 (int (length data) + sz) - 1)) sz = (int (length data) + sz - 1) div sz"
    using quot_count [of sz "int (length data)"] assms False by simp
  have "Split data sz = Inr ?cs"
    using split_loop_chunks [OF assms, of 0] assms(1) False q
    by (auto simp: Split_def pos_imp_zdiv_neg_iff)
  moreover have "int (length ?cs) = Count (int (length data)) sz"
  proof -
    have "int ((length data + nat sz - 1) div nat sz) = (int (length data) + sz - 1) div sz"
      using assms(1) by (simp add: zdiv_int of_nat_diff)
    then show ?thesis using length_chunks_of [of "nat sz" data] assms(1) False q by (simp add: Count_def)
  qed
  ultimately show ?thesis
    using assms(1) concat_chunks_of [of "nat sz" data] chunks_of_sizes [of "nat sz" data]
    by (force simp: Join_concat)
qed

theorem split_join_witness:
  "\<exists>cs. Split [1, 2, 3, 4, 5] 2 = Inr cs \<and> Join cs = [1, 2, 3, 4, 5] \<and> int (length cs) = 3"
  using split_join [of 2 "[1, 2, 3, 4, 5]"] by (auto simp: MaxInt64_def Count_def go_quot_def wrap64_def)

text \<open>
  Where it does not fit, the announced count is negative: \<open>Split\<close> of two bytes into chunks of the largest size
  panics in its allocation.
\<close>

lemma split_huge_panics: "Split [a, b] MaxInt64 = Inl makeslice_panic" "Count 2 MaxInt64 = - 1"
  by (simp_all add: Split_def Count_def go_quot_def wrap64_def MaxInt64_def)

section \<open>Saving and loading\<close>

text \<open>
  A saved manifest is read back. On a working system with a free temporary name, \<open>SaveWith\<close> of a value
  the codec can encode succeeds and \<open>LoadWith\<close> then gives what the codec decodes from that encoding; under every other schedule of
  failures, at every point where the process may die and whenever the context is cancelled, the manifest file is as it
  was or holds the complete encoding, and success means the latter.
\<close>

theorem manifest_save_load:
  assumes "c_Encode c v = Inr b" "p \<noteq> []"
  shows "(case SaveWith p v (Some c) w of (x, w') \<Rightarrow>
      (node_at (est w') p = node_at (est w) p \<and> (\<exists>e. x = Inl e)) \<or> (\<exists>t. node_at (est w') p = Some (Reg b t))) \<and>
    (healthy (est w) \<and> ectx w = Live \<and> (\<forall>q \<in> set (parents p). node_at (est w) q \<in> {None, Some Dir}) \<and>
      (\<exists>i < 10000. node_at (est w) (temp_name p i) = None) \<and> node_at (est w) p \<noteq> Some Dir \<longrightarrow>
      (\<exists>w'. SaveWith p v (Some c) w = (Inr (), w') \<and> LoadWith p (Some c) w' = (c_Decode c b, w')))"
proof (intro conjI impI)
  show "case SaveWith p v (Some c) w of (x, w') \<Rightarrow>
      (node_at (est w') p = node_at (est w) p \<and> (\<exists>e. x = Inl e)) \<or> (\<exists>t. node_at (est w') p = Some (Reg b t))"
  proof (cases "ctx_Err w")
    case (Pair y w1)
    obtain z w2 where z: "Publish p (bytes_reader b) manifest_options w1 = (z, w2)" by fastforce
    show ?thesis
    proof (cases y)
      case (Inl e)
      with Pair ctx_Err_estD [OF Pair] show ?thesis by (simp add: SaveWith_def bnd_def)
    next
      case (Inr u)
      with Publish_cases [OF z proper_bytes_reader assms(2)] Pair ctx_Err_estD [OF Pair] z assms(1) show ?thesis
        by (cases z) (auto simp: SaveWith_def bnd_def of_result_def wrapping_def manifest_options_def)
    qed
  qed
  assume w: "healthy (est w) \<and> ectx w = Live \<and> (\<forall>q \<in> set (parents p). node_at (est w) q \<in> {None, Some Dir}) \<and>
    (\<exists>i < 10000. node_at (est w) (temp_name p i) = None) \<and> node_at (est w) p \<noteq> Some Dir"
  then obtain s' where s': "Publish p (bytes_reader b) manifest_options w = (Inr (), w\<lparr>est := s'\<rparr>)" "healthy s'"
    "\<And>q. node_at s' q = (if q = p then Some (Reg b (os_now (est w)))
       else if q \<in> set (parents p) then Some Dir else node_at (est w) q)"
    using Publish_healthy [of w "bytes_reader b" p manifest_options] assms(2) by auto
  have "SaveWith p v (Some c) w = (Inr (), w\<lparr>est := s'\<rparr>)"
    using s'(1) w assms(1) by (simp add: SaveWith_def bnd_def of_result_def wrapping_def)
  moreover have "os_ReadFile p (w\<lparr>est := s'\<rparr>) = (Inr b, w\<lparr>est := s'\<rparr>)"
    by (rule os_ReadFile_healthy) (use s' in auto)
  then have "LoadWith p (Some c) (w\<lparr>est := s'\<rparr>) = (c_Decode c b, w\<lparr>est := s'\<rparr>)"
    using w by (simp add: LoadWith_def bnd_def wrapping_def of_result_def)
  ultimately show "\<exists>w'. SaveWith p v (Some c) w = (Inr (), w') \<and> LoadWith p (Some c) w' = (c_Decode c b, w')" by blast
qed

theorem manifest_save_load_witness:
  "\<exists>w'. SaveWith [''f''] [4, 5] (Some \<lparr>c_Encode = Inr, c_Decode = Inr, c_CodecName = None\<rparr>) (publish_demo []) = (Inr (), w') \<and>
     LoadWith [''f''] (Some \<lparr>c_Encode = Inr, c_Decode = Inr, c_CodecName = None\<rparr>) w' = (Inr [4, 5], w')"
proof -
  let ?c = "\<lparr>c_Encode = Inr, c_Decode = Inr, c_CodecName = None\<rparr> :: bytes codec"
  have "\<exists>i < 10000. node_at (est (publish_demo [])) (temp_name [''f''] i) = None"
    by (intro exI [of _ 0]) (simp add: publish_demo_def node_at_def temp_name_def temp_suffix_def)
  moreover have "healthy (est (publish_demo []))" "ectx (publish_demo []) = Live"
    "\<forall>q \<in> set (parents [''f'']). node_at (est (publish_demo [])) q \<in> {None, Some Dir}"
    "node_at (est (publish_demo [])) [''f''] \<noteq> Some Dir"
    by (simp_all add: publish_demo_def healthy_def node_at_def parents_def)
  ultimately show ?thesis
    using manifest_save_load [of ?c "[4, 5]" "[4, 5]" "[''f'']" "publish_demo []"] by simp
qed

end
