(* ===== verification/Go_Json.thy ===== *)
theory Go_Json
  imports Go_Strings
begin

text \<open>
  What the sources use of the standard library's \<open>encoding/json\<close>: rendering a value (compact, as
  \<open>Marshal\<close>, or with two blanks per level, as \<open>MarshalIndent\<close>) and parsing a text into a value, with
  the rules of the Go package: strings are byte sequences, ill-formed UTF-8 becomes the replacement character in
  both directions, \<open><\<close>, \<open>>\<close>, \<open>&\<close> and the line separators are escaped, nesting is bounded by 10000.
  A number is kept as its literal.

  Shown: a rendered value parses back to itself where its strings are well-formed UTF-8 and its numbers are
  integers, for either layout; the parser's fuel is enough when it exceeds the length of the text.
\<close>

section \<open>UTF-8\<close>

definition code :: "char \<Rightarrow> nat" where
  "code c = of_char c"

definition continuation :: "char \<Rightarrow> bool" where
  "continuation c \<longleftrightarrow> 0x80 \<le> code c \<and> code c \<le> 0xBF"

text \<open>The length of the well-formed rune at the front of a byte string, zero where there is none.\<close>

fun utf8_size :: "string \<Rightarrow> nat" where
  "utf8_size [] = 0"
| "utf8_size (c # t) =
     (let b = code c in
      if b < 0x80 then 1
      else if 0xC2 \<le> b \<and> b \<le> 0xDF then (case t of c1 # _ \<Rightarrow> if continuation c1 then 2 else 0 | _ \<Rightarrow> 0)
      else if 0xE0 \<le> b \<and> b \<le> 0xEF
      then (case t of
          c1 # c2 # _ \<Rightarrow>
            if (if b = 0xE0 then 0xA0 \<le> code c1 else 0x80 \<le> code c1) \<and>
               (if b = 0xED then code c1 \<le> 0x9F else code c1 \<le> 0xBF) \<and> continuation c2 then 3 else 0
        | _ \<Rightarrow> 0)
      else if 0xF0 \<le> b \<and> b \<le> 0xF4
      then (case t of
          c1 # c2 # c3 # _ \<Rightarrow>
            if (if b = 0xF0 then 0x90 \<le> code c1 else 0x80 \<le> code c1) \<and>
               (if b = 0xF4 then code c1 \<le> 0x8F else code c1 \<le> 0xBF) \<and> continuation c2 \<and> continuation c3 then 4 else 0
        | _ \<Rightarrow> 0)
      else 0)"

definition utf8_Encode :: "nat \<Rightarrow> string" where
  "utf8_Encode r =
     map char_of
       (if r < 0x80 then [r]
        else if r < 0x800 then [0xC0 + r div 64, 0x80 + r mod 64]
        else if r < 0x10000 then [0xE0 + r div 4096, 0x80 + r div 64 mod 64, 0x80 + r mod 64]
        else [0xF0 + r div 262144, 0x80 + r div 4096 mod 64, 0x80 + r div 64 mod 64, 0x80 + r mod 64])"

definition replacement :: string where
  "replacement = utf8_Encode 0xFFFD"

lemma utf8_size_le: "utf8_size s \<le> length s"
  by (cases s) (auto simp: Let_def split: list.splits)

lemma utf8_size_prefix: "utf8_size s = n \<Longrightarrow> n > 0 \<Longrightarrow> utf8_size (take n s @ t) = n"
  by (cases s) (auto simp: Let_def split: list.splits if_splits)

text \<open>A byte string of well-formed runes.\<close>

function utf8_ok :: "string \<Rightarrow> bool" where
  "utf8_ok s = (if s = [] then True else if utf8_size s = 0 then False else utf8_ok (drop (utf8_size s) s))"
  by pat_completeness auto
termination
  by (relation "measure length") (auto simp: utf8_size_le Suc_le_eq)

declare utf8_ok.simps [simp del]

section \<open>Strings\<close>

definition hex_digit :: "nat \<Rightarrow> char" where
  "hex_digit n = char_of (if n < 10 then 48 + n else 87 + n)"

definition hex_val :: "char \<Rightarrow> nat option" where
  "hex_val c =
     (if 48 \<le> code c \<and> code c \<le> 57 then Some (code c - 48)
      else if 97 \<le> code c \<and> code c \<le> 102 then Some (code c - 87)
      else if 65 \<le> code c \<and> code c \<le> 70 then Some (code c - 55)
      else None)"

definition backslash :: char where
  "backslash = CHR 0x5C"

definition quotation :: char where
  "quotation = CHR 0x22"

text \<open>One byte below 0x80, as \<open>appendString\<close> renders it with HTML escaping on.\<close>

definition escape :: "char \<Rightarrow> string" where
  "escape c =
     (if c = quotation \<or> c = backslash then [backslash, c]
      else if c = CHR 0x08 then [backslash, CHR ''b'']
      else if c = CHR 0x0C then [backslash, CHR ''f'']
      else if c = CHR 0x0A then [backslash, CHR ''n'']
      else if c = CHR 0x0D then [backslash, CHR ''r'']
      else if c = CHR 0x09 then [backslash, CHR ''t'']
      else if code c < 0x20 \<or> c \<in> {CHR ''<'', CHR ''>'', CHR ''&''}
      then backslash # ''u00'' @ [hex_digit (code c div 16), hex_digit (code c mod 16)]
      else [c])"

function quote_chars :: "string \<Rightarrow> string" where
  "quote_chars s =
     (case s of
        [] \<Rightarrow> []
      | c # t \<Rightarrow>
          if code c < 0x80 then escape c @ quote_chars t
          else if utf8_size s = 0 then backslash # ''ufffd'' @ quote_chars t
          else if take 3 s = utf8_Encode 0x2028 then backslash # ''u2028'' @ quote_chars (drop 3 s)
          else if take 3 s = utf8_Encode 0x2029 then backslash # ''u2029'' @ quote_chars (drop 3 s)
          else take (utf8_size s) s @ quote_chars (drop (utf8_size s) s))"
  by pat_completeness auto
termination
  by (relation "measure length") auto

declare quote_chars.simps [simp del]

definition json_quote :: "string \<Rightarrow> string" where
  "json_quote s = quotation # quote_chars s @ [quotation]"

definition simple_escape :: "char \<Rightarrow> char option" where
  "simple_escape e =
     (if e = quotation \<or> e = backslash \<or> e = CHR ''/'' then Some e
      else if e = CHR ''b'' then Some (CHR 0x08)
      else if e = CHR ''f'' then Some (CHR 0x0C)
      else if e = CHR ''n'' then Some (CHR 0x0A)
      else if e = CHR ''r'' then Some (CHR 0x0D)
      else if e = CHR ''t'' then Some (CHR 0x09)
      else None)"

fun hex4 :: "string \<Rightarrow> (nat \<times> string) option" where
  "hex4 (a # b # c # d # t) =
     (case (hex_val a, hex_val b, hex_val c, hex_val d) of
        (Some p, Some q, Some r, Some v) \<Rightarrow> Some (((p * 16 + q) * 16 + r) * 16 + v, t)
      | _ \<Rightarrow> None)"
| "hex4 _ = None"

lemma hex4_shorter: "hex4 s = Some (r, t) \<Longrightarrow> length t < length s"
  by (cases s rule: hex4.cases) (auto split: option.splits)

definition prepend :: "string \<Rightarrow> (string \<times> string) option \<Rightarrow> (string \<times> string) option" where
  "prepend p x = (case x of None \<Rightarrow> None | Some (s, t) \<Rightarrow> Some (p @ s, t))"

text \<open>The body of a string literal up to its closing quotation mark: the decoded text and what follows.\<close>

function unquote :: "string \<Rightarrow> (string \<times> string) option" where
  "unquote s =
     (case s of
        [] \<Rightarrow> None
      | c # t \<Rightarrow>
          if c = quotation then Some ([], t)
          else if c = backslash
          then (case t of
              [] \<Rightarrow> None
            | e # t1 \<Rightarrow>
                if e = CHR ''u''
                then (case hex4 t1 of
                    None \<Rightarrow> None
                  | Some (r, t2) \<Rightarrow>
                      if 0xD800 \<le> r \<and> r \<le> 0xDFFF
                      then (case (if r < 0xDC00 \<and> take 2 t2 = [backslash, CHR ''u''] then hex4 (drop 2 t2) else None) of
                          Some (r2, t3) \<Rightarrow>
                            if 0xDC00 \<le> r2 \<and> r2 \<le> 0xDFFF
                            then prepend (utf8_Encode (0x10000 + (r - 0xD800) * 1024 + (r2 - 0xDC00))) (unquote t3)
                            else prepend replacement (unquote t2)
                        | None \<Rightarrow> prepend replacement (unquote t2))
                      else prepend (utf8_Encode r) (unquote t2))
                else (case simple_escape e of None \<Rightarrow> None | Some x \<Rightarrow> prepend [x] (unquote t1)))
          else if code c < 0x20 then None
          else if utf8_size s = 0 then prepend replacement (unquote t)
          else prepend (take (utf8_size s) s) (unquote (drop (utf8_size s) s)))"
  by pat_completeness auto
termination
  by (relation "measure length") (auto dest!: hex4_shorter split: if_splits)

declare unquote.simps [simp del]

section \<open>Values\<close>

datatype json =
    JNull | JBool bool | JNum string | JStr string
  | JArr "json list"
  | JObj "(string \<times> json) list"

text \<open>The layout: the white space in front of an element at a depth, and what stands between key and value.\<close>

record layout =
  lay_break :: "nat \<Rightarrow> string"
  lay_colon :: string

definition compact :: layout where
  "compact = \<lparr>lay_break = (\<lambda>_. []), lay_colon = '':''\<rparr>"

definition indented :: layout where
  "indented = \<lparr>lay_break = (\<lambda>d. CHR 0x0A # replicate (2 * d) (CHR '' '')), lay_colon = '': ''\<rparr>"

fun json_print :: "layout \<Rightarrow> nat \<Rightarrow> json \<Rightarrow> string"
  and print_elems :: "layout \<Rightarrow> nat \<Rightarrow> json list \<Rightarrow> string"
  and print_members :: "layout \<Rightarrow> nat \<Rightarrow> (string \<times> json) list \<Rightarrow> string" where
  "json_print l d JNull = ''null''"
| "json_print l d (JBool b) = (if b then ''true'' else ''false'')"
| "json_print l d (JNum n) = n"
| "json_print l d (JStr s) = json_quote s"
| "json_print l d (JArr vs) = (if vs = [] then ''[]'' else CHR ''['' # print_elems l (Suc d) vs @ lay_break l d @ '']'')"
| "json_print l d (JObj ms) = (if ms = [] then ''{}'' else CHR ''{'' # print_members l (Suc d) ms @ lay_break l d @ ''}'')"
| "print_elems l d [] = []"
| "print_elems l d (v # vs) = lay_break l d @ json_print l d v @ (if vs = [] then [] else CHR '','' # print_elems l d vs)"
| "print_members l d [] = []"
| "print_members l d ((k, v) # ms) =
     lay_break l d @ json_quote k @ lay_colon l @ json_print l d v @ (if ms = [] then [] else CHR '','' # print_members l d ms)"

definition json_Marshal :: "json \<Rightarrow> bytes" where
  "json_Marshal v = bytes_of (json_print compact 0 v)"

definition json_MarshalIndent :: "json \<Rightarrow> bytes" where
  "json_MarshalIndent v = bytes_of (json_print indented 0 v)"

section \<open>The parser\<close>

definition json_space :: "char \<Rightarrow> bool" where
  "json_space c \<longleftrightarrow> c \<in> {CHR '' '', CHR 0x09, CHR 0x0A, CHR 0x0D}"

definition skip_ws :: "string \<Rightarrow> string" where
  "skip_ws s = dropWhile json_space s"

definition is_digit :: "char \<Rightarrow> bool" where
  "is_digit c \<longleftrightarrow> digit_value c \<noteq> None"

definition scan_digits :: "string \<Rightarrow> (string \<times> string) option" where
  "scan_digits s = (let ds = takeWhile is_digit s in if ds = [] then None else Some (ds, drop (length ds) s))"

definition scan_int :: "string \<Rightarrow> (string \<times> string) option" where
  "scan_int s =
     (case s of
        [] \<Rightarrow> None
      | c # t \<Rightarrow> if c = CHR ''0'' then Some ([c], t) else scan_digits s)"

definition scan_frac :: "string \<Rightarrow> (string \<times> string) option" where
  "scan_frac s =
     (case s of
        [] \<Rightarrow> Some ([], s)
      | c # t \<Rightarrow> if c = CHR ''.'' then prepend [c] (scan_digits t) else Some ([], s))"

definition scan_exp :: "string \<Rightarrow> (string \<times> string) option" where
  "scan_exp s =
     (case s of
        [] \<Rightarrow> Some ([], s)
      | c # t \<Rightarrow>
          if c = CHR ''e'' \<or> c = CHR ''E''
          then (case t of
              [] \<Rightarrow> None
            | x # t' \<Rightarrow> if x = CHR ''+'' \<or> x = CHR ''-'' then prepend [c, x] (scan_digits t') else prepend [c] (scan_digits t))
          else Some ([], s))"

definition and_then :: "(string \<times> string) option \<Rightarrow> (string \<Rightarrow> (string \<times> string) option) \<Rightarrow> (string \<times> string) option" where
  "and_then x f = (case x of None \<Rightarrow> None | Some (p, t) \<Rightarrow> prepend p (f t))"

definition parse_number :: "string \<Rightarrow> (string \<times> string) option" where
  "parse_number s =
     (if take 1 s = ''-'' then prepend ''-'' (and_then (scan_int (drop 1 s)) (\<lambda>t. and_then (scan_frac t) scan_exp))
      else and_then (scan_int s) (\<lambda>t. and_then (scan_frac t) scan_exp))"

definition parse_word :: "string \<Rightarrow> json \<Rightarrow> string \<Rightarrow> (json \<times> string) option" where
  "parse_word kw v s = (if HasPrefix s kw then Some (v, drop (length kw) s) else None)"

text \<open>The fuel bounds the number of calls; the second argument is how many levels may still be opened.\<close>

fun parse_value :: "nat \<Rightarrow> nat \<Rightarrow> string \<Rightarrow> (json \<times> string) option"
  and parse_elems :: "nat \<Rightarrow> nat \<Rightarrow> string \<Rightarrow> (json list \<times> string) option"
  and parse_members :: "nat \<Rightarrow> nat \<Rightarrow> string \<Rightarrow> ((string \<times> json) list \<times> string) option" where
  "parse_value 0 k s = None"
| "parse_value (Suc n) k s =
     (case skip_ws s of
        [] \<Rightarrow> None
      | c # t \<Rightarrow>
          if c = CHR ''{''
          then (if k = 0 then None
                else if take 1 (skip_ws t) = ''}'' then Some (JObj [], drop 1 (skip_ws t))
                else map_option (\<lambda>(ms, r). (JObj ms, r)) (parse_members n (k - 1) t))
          else if c = CHR ''[''
          then (if k = 0 then None
                else if take 1 (skip_ws t) = '']'' then Some (JArr [], drop 1 (skip_ws t))
                else map_option (\<lambda>(vs, r). (JArr vs, r)) (parse_elems n (k - 1) t))
          else if c = quotation then map_option (\<lambda>(x, r). (JStr x, r)) (unquote t)
          else if c = CHR ''n'' then parse_word ''null'' JNull (c # t)
          else if c = CHR ''t'' then parse_word ''true'' (JBool True) (c # t)
          else if c = CHR ''f'' then parse_word ''false'' (JBool False) (c # t)
          else map_option (\<lambda>(x, r). (JNum x, r)) (parse_number (c # t)))"
| "parse_elems 0 k s = None"
| "parse_elems (Suc n) k s =
     (case parse_value n k s of
        None \<Rightarrow> None
      | Some (v, r) \<Rightarrow>
          (case skip_ws r of
             [] \<Rightarrow> None
           | c # t \<Rightarrow>
               if c = CHR '']'' then Some ([v], t)
               else if c = CHR '','' then map_option (\<lambda>(vs, r'). (v # vs, r')) (parse_elems n k t)
               else None))"
| "parse_members 0 k s = None"
| "parse_members (Suc n) k s =
     (case skip_ws s of
        [] \<Rightarrow> None
      | q # t \<Rightarrow>
          if q \<noteq> quotation then None
          else (case unquote t of
              None \<Rightarrow> None
            | Some (key, r0) \<Rightarrow>
                if take 1 (skip_ws r0) \<noteq> '':'' then None
                else (case parse_value n k (drop 1 (skip_ws r0)) of
                    None \<Rightarrow> None
                  | Some (v, r) \<Rightarrow>
                      (case skip_ws r of
                         [] \<Rightarrow> None
                       | c # t' \<Rightarrow>
                           if c = CHR ''}'' then Some ([(key, v)], t')
                           else if c = CHR '','' then map_option (\<lambda>(ms, r'). ((key, v) # ms, r')) (parse_members n k t')
                           else None))))"

definition maxNestingDepth :: nat where
  "maxNestingDepth = 10000"

definition json_Parse :: "bytes \<Rightarrow> json option" where
  "json_Parse b =
     (case parse_value (Suc (2 * length b)) maxNestingDepth (string_of b) of
        None \<Rightarrow> None
      | Some (v, r) \<Rightarrow> if skip_ws r = [] then Some v else None)"

section \<open>Enough fuel\<close>

lemma skip_ws_shorter: "skip_ws s = c # t \<Longrightarrow> length t < length s"
  unfolding skip_ws_def by (metis length_dropWhile_le length_Cons Suc_le_eq)

lemma skip_ws_le: "length (skip_ws s) \<le> length s"
  by (simp add: skip_ws_def length_dropWhile_le)

lemma prepend_Some: "prepend p x = Some (s, t) \<longleftrightarrow> (\<exists>s'. x = Some (s', t) \<and> s = p @ s')"
  by (auto simp: prepend_def split: option.splits)

lemma unquote_next:
  assumes "unquote s = Some (x, r)"
  shows "s = quotation # r \<or> (\<exists>s' x'. unquote s' = Some (x', r) \<and> length s' < length s)"
proof (cases s)
  case (Cons c t)
  show ?thesis
  proof (cases "c = backslash \<and> c \<noteq> quotation")
    case True
    with assms Cons show ?thesis
      by (subst (asm) unquote.simps)
        (fastforce simp: prepend_Some dest: hex4_shorter split: list.splits option.splits if_splits)
  next
    case False
    with assms Cons show ?thesis
      by (subst (asm) unquote.simps) (fastforce simp: prepend_Some split: if_splits)
  qed
qed (use assms in \<open>simp add: unquote.simps [of "[]"]\<close>)

lemma unquote_shorter: "unquote s = Some (x, r) \<Longrightarrow> length r < length s"
proof (induction s arbitrary: x rule: measure_induct_rule [where f = length])
  case (less s)
  from unquote_next [OF less.prems] show ?case using less.IH by fastforce
qed

lemma scan_digits_shorter: "scan_digits s = Some (x, r) \<Longrightarrow> length r < length s"
  by (cases s) (auto simp: scan_digits_def Let_def split: if_splits)

lemma scan_shorter:
  "scan_int s = Some (x, r) \<Longrightarrow> length r < length s"
  "scan_frac s = Some (x, r) \<Longrightarrow> length r \<le> length s"
  "scan_exp s = Some (x, r) \<Longrightarrow> length r \<le> length s"
  by (force simp: scan_int_def scan_frac_def scan_exp_def prepend_Some dest!: scan_digits_shorter split: list.splits if_splits)+

lemma and_then_Some: "and_then x f = Some (s, r) \<longleftrightarrow> (\<exists>p t s'. x = Some (p, t) \<and> f t = Some (s', r) \<and> s = p @ s')"
  by (auto simp: and_then_def prepend_Some split: option.splits)

lemma parse_number_shorter: "parse_number s = Some (x, r) \<Longrightarrow> length r < length s"
  by (cases s) (fastforce simp: parse_number_def and_then_Some prepend_Some dest!: scan_shorter split: if_splits)+

lemma parse_word_shorter: "kw \<noteq> [] \<Longrightarrow> parse_word kw v s = Some (x, r) \<Longrightarrow> length r < length s"
  by (auto simp: parse_word_def HasPrefix_iff split: if_splits)

lemma parse_shorter:
  "parse_value n k s = Some (v, r) \<Longrightarrow> length r < length s"
  "parse_elems n k s = Some (vs, r) \<Longrightarrow> length r < length s"
  "parse_members n k s = Some (ms, r) \<Longrightarrow> length r < length s"
proof (induction n k s and n k s and n k s arbitrary: v r and vs r and ms r rule: parse_value_parse_elems_parse_members.induct)
  case (2 n k s)
  from "2.prems" obtain c t where s: "skip_ws s = c # t" by (auto split: list.splits)
  have l: "length t < length s" by (rule skip_ws_shorter [OF s])
  have d: "length (drop 1 (skip_ws t)) \<le> length t" using skip_ws_le [of t] by simp
  show ?case
    using "2.prems" "2.IH"(1) [OF s] "2.IH"(2) [OF s] s l d
    by (auto dest!: unquote_shorter parse_number_shorter parse_word_shorter [rotated] split: if_splits)
next
  case (4 n k s)
  then show ?case by (fastforce dest: skip_ws_shorter split: option.splits list.splits if_splits)
next
  case (6 n k s)
  from "6.prems" obtain q t key r0 v r1 c t' where s: "skip_ws s = q # t" "q = quotation" "unquote t = Some (key, r0)"
    "take 1 (skip_ws r0) = '':''" "parse_value n k (drop 1 (skip_ws r0)) = Some (v, r1)" "skip_ws r1 = c # t'"
    by (auto split: option.splits list.splits if_splits)
  have l: "length t < length s" "length r0 < length t" "length t' < length r1"
    using skip_ws_shorter [OF s(1)] unquote_shorter [OF s(3)] skip_ws_shorter [OF s(6)] by auto
  have d: "length (drop 1 (skip_ws r0)) \<le> length r0" using skip_ws_le [of r0] by simp
  have "length r1 < length (drop 1 (skip_ws r0))"
    using "6.IH"(1) s by simp
  then have "length t' < length s" using l d by simp
  moreover have "length r \<le> length t'"
    using "6.prems" s "6.IH"(2) by (fastforce split: if_splits)
  ultimately show ?case by simp
qed simp_all

lemma parse_members_step:
  assumes "\<And>u. length u < length s \<Longrightarrow> parse_value n k u = parse_value m k u"
    and "\<And>u. length u < length s \<Longrightarrow> parse_members n k u = parse_members m k u"
  shows "parse_members (Suc n) k s = parse_members (Suc m) k s"
proof (cases "skip_ws s")
  case (Cons q t)
  show ?thesis
  proof (cases "unquote t")
    case (Some p)
    obtain key r0 where p: "p = (key, r0)" by fastforce
    have "length (drop 1 (skip_ws r0)) < length s"
      using skip_ws_shorter [OF Cons] unquote_shorter [of t key r0] Some p skip_ws_le [of r0] by simp
    note pv = assms(1) [OF this]
    have "parse_members n k t' = parse_members m k t'"
      if "parse_value m k (drop 1 (skip_ws r0)) = Some (v, r)" "skip_ws r = c # t'" for v r c t'
      using parse_shorter(1) [OF that(1)] skip_ws_shorter [OF that(2)] \<open>length (drop 1 (skip_ws r0)) < length s\<close>
      by (intro assms(2)) simp
    with Cons Some p pv show ?thesis by (auto split: option.split list.split)
  qed (use Cons in simp)
qed simp

lemma parse_elems_step:
  assumes "parse_value n k s = parse_value m k s"
    and "\<And>u. length u < length s \<Longrightarrow> parse_elems n k u = parse_elems m k u"
  shows "parse_elems (Suc n) k s = parse_elems (Suc m) k s"
proof -
  have "parse_elems n k t = parse_elems m k t" if "parse_value m k s = Some (v, r)" "skip_ws r = c # t" for v r c t
    using parse_shorter(1) [OF that(1)] skip_ws_shorter [OF that(2)] by (intro assms(2)) simp
  with assms(1) show ?thesis by (auto split: option.split list.split)
qed

lemma parse_value_step:
  assumes "\<And>u. length u < length s \<Longrightarrow> parse_elems n (k - 1) u = parse_elems m (k - 1) u"
    and "\<And>u. length u < length s \<Longrightarrow> parse_members n (k - 1) u = parse_members m (k - 1) u"
  shows "parse_value (Suc n) k s = parse_value (Suc m) k s"
  using assms skip_ws_shorter [of s] by (auto split: list.split)

text \<open>
  More fuel than twice the text is long changes nothing; the extra element is for the value call of
  a sequence, which reads the same text as its caller.
\<close>

lemma parse_fuel:
  "2 * length s < n \<Longrightarrow> 2 * length s < m \<Longrightarrow> parse_value n k s = parse_value m k s"
  "2 * length s + 1 < n \<Longrightarrow> 2 * length s + 1 < m \<Longrightarrow> parse_elems n k s = parse_elems m k s"
  "2 * length s < n \<Longrightarrow> 2 * length s < m \<Longrightarrow> parse_members n k s = parse_members m k s"
proof (induction n arbitrary: m k s)
  case (Suc n)
  {
    case 1
    then obtain m' where m: "m = Suc m'" by (cases m) auto
    show ?case unfolding m by (rule parse_value_step) (use 1 m in \<open>auto intro!: Suc.IH\<close>)
  next
    case 2
    then obtain m' where m: "m = Suc m'" by (cases m) auto
    show ?case unfolding m by (rule parse_elems_step) (use 2 m in \<open>auto intro!: Suc.IH\<close>)
  next
    case 3
    then obtain m' where m: "m = Suc m'" by (cases m) auto
    show ?case unfolding m by (rule parse_members_step) (use 3 m in \<open>auto intro!: Suc.IH\<close>)
  }
qed simp_all

section \<open>Strings read back\<close>

lemma code_char_of [simp]: "n < 256 \<Longrightarrow> code (char_of n) = n"
  by (simp add: code_def)

lemma code_less: "code c < 256"
  by (simp add: code_def)

lemma hex_val_digit [simp]: "n < 16 \<Longrightarrow> hex_val (hex_digit n) = Some n"
  by (simp add: hex_val_def hex_digit_def)

lemma hex_val_literals [simp]: "hex_val (CHR ''0'') = Some 0" "hex_val (CHR ''2'') = Some 2" "hex_val (CHR ''8'') = Some 8" "hex_val (CHR ''9'') = Some 9"
  by (simp_all add: hex_val_def code_def)

lemma code_literals [simp]: "code quotation = 0x22" "code backslash = 0x5C"
  by (simp_all add: code_def quotation_def backslash_def)

lemma quotation_backslash [simp]: "quotation \<noteq> backslash" "backslash \<noteq> quotation"
  by (simp_all add: quotation_def backslash_def)

lemma utf8_Encode_code: "code c < 0x80 \<Longrightarrow> utf8_Encode (code c) = [c]"
  by (simp add: utf8_Encode_def code_def)

lemma unquote_simple:
  "simple_escape e = Some x \<Longrightarrow> unquote (backslash # e # s) = prepend [x] (unquote s)"
  by (subst unquote.simps) (auto simp: simple_escape_def quotation_def backslash_def)

lemma unquote_hex:
  assumes "hex4 h = Some (r, s)" "r < 0xD800"
  shows "unquote (backslash # CHR ''u'' # h) = prepend (utf8_Encode r) (unquote s)"
  using assms by (subst unquote.simps) simp

lemma unquote_plain:
  assumes "c \<noteq> quotation" "c \<noteq> backslash" "0x20 \<le> code c" "utf8_size (c # t) = n" "n > 0"
  shows "unquote (c # t) = prepend (take n (c # t)) (unquote (drop n (c # t)))"
  using assms by (subst unquote.simps) (simp del: utf8_size.simps)

lemma simple_escape_values:
  "simple_escape quotation = Some quotation" "simple_escape backslash = Some backslash"
  "simple_escape (CHR ''b'') = Some (CHR 0x08)" "simple_escape (CHR ''f'') = Some (CHR 0x0C)"
  "simple_escape (CHR ''n'') = Some (CHR 0x0A)" "simple_escape (CHR ''r'') = Some (CHR 0x0D)"
  "simple_escape (CHR ''t'') = Some (CHR 0x09)"
  by (simp_all add: simple_escape_def quotation_def backslash_def)

lemma escape_cases:
  "escape c = [c] \<or> (\<exists>e. escape c = [backslash, e] \<and> simple_escape e = Some c) \<or>
    escape c = backslash # ''u00'' @ [hex_digit (code c div 16), hex_digit (code c mod 16)]"
proof -
  define P where "P x \<longleftrightarrow> x = [c] \<or> (\<exists>e. x = [backslash, e] \<and> simple_escape e = Some c) \<or>
    x = backslash # ''u00'' @ [hex_digit (code c div 16), hex_digit (code c mod 16)]" for x
  have p: "P [c]" "P (backslash # ''u00'' @ [hex_digit (code c div 16), hex_digit (code c mod 16)])"
    "simple_escape e = Some c \<Longrightarrow> P [backslash, e]" for e by (auto simp: P_def)
  have "P (escape c)"
    unfolding escape_def by (simp only: if_split [of P] p(1,2)) (auto intro: p(3) simp: simple_escape_values)
  then show ?thesis by (simp only: P_def)
qed

lemma escape_self: "escape c = [c] \<Longrightarrow> c \<noteq> quotation \<and> c \<noteq> backslash \<and> 0x20 \<le> code c"
  by (simp add: escape_def split: if_splits)

lemma unquote_escape:
  assumes "code c < 0x80"
  shows "unquote (escape c @ s) = prepend [c] (unquote s)"
proof -
  have "hex4 (''00'' @ [hex_digit (code c div 16), hex_digit (code c mod 16)] @ s) = Some (code c, s)"
    using assms by simp
  from unquote_hex [OF this] assms
  have h: "unquote (backslash # ''u00'' @ [hex_digit (code c div 16), hex_digit (code c mod 16)] @ s) = prepend [c] (unquote s)"
    by (simp add: utf8_Encode_code)
  have p: "unquote (c # s) = prepend [c] (unquote s)" if "escape c = [c]"
    using unquote_plain [of c s 1] escape_self [OF that] assms by (simp add: Let_def)
  from escape_cases [of c] h p unquote_simple show ?thesis by auto
qed

lemma take3_size:
  assumes "take 3 s = utf8_Encode r" "r = 0x2028 \<or> r = 0x2029"
  shows "utf8_size s = 3"
proof -
  have "utf8_Encode r = [char_of (0xE2 :: nat), char_of (0x80 :: nat), char_of (if r = 0x2028 then 0xA8 else 0xA9 :: nat)]"
    using assms(2) by (auto simp: utf8_Encode_def)
  then obtain t where "s = char_of (0xE2 :: nat) # char_of (0x80 :: nat) # char_of (if r = 0x2028 then 0xA8 else 0xA9 :: nat) # t"
    using assms(1) by (cases s; cases "tl s"; cases "tl (tl s)") auto
  then show ?thesis by (auto simp: Let_def continuation_def)
qed

lemma unquote_quote: "utf8_ok s \<Longrightarrow> unquote (quote_chars s @ quotation # t) = Some (s, t)"
proof (induction s rule: utf8_ok.induct)
  case (1 s)
  show ?case
  proof (cases s)
    case Nil
    then show ?thesis by (simp add: quote_chars.simps [of "[]"] unquote.simps [of "quotation # t"])
  next
    case (Cons c u)
    let ?n = "utf8_size s"
    have n: "?n > 0" "utf8_ok (drop ?n s)" using "1.prems" Cons by (subst (asm) utf8_ok.simps, simp split: if_splits)+
    have IH: "unquote (quote_chars (drop ?n s) @ quotation # t) = Some (drop ?n s, t)"
      using "1.IH" Cons n by simp
    have le: "?n \<le> length s" by (rule utf8_size_le)
    consider (ascii) "code c < 0x80" | (ls) "\<not> code c < 0x80" "take 3 s = utf8_Encode 0x2028"
      | (ps) "\<not> code c < 0x80" "take 3 s \<noteq> utf8_Encode 0x2028" "take 3 s = utf8_Encode 0x2029"
      | (rune) "\<not> code c < 0x80" "take 3 s \<noteq> utf8_Encode 0x2028" "take 3 s \<noteq> utf8_Encode 0x2029" by blast
    then show ?thesis
    proof cases
      case ascii
      then have "?n = 1" using Cons by (simp add: Let_def)
      with ascii IH Cons show ?thesis
        by (simp add: quote_chars.simps [of "c # u"] unquote_escape prepend_def del: utf8_size.simps)
    next
      case ls
      have "hex4 (''2028'' @ x) = Some (0x2028, x)" for x by simp
      note u = unquote_hex [OF this]
      have "?n = 3" using take3_size [OF ls(2)] by simp
      have q: "quote_chars s = backslash # CHR ''u'' # ''2028'' @ quote_chars (drop 3 s)"
        using ls n Cons by (subst quote_chars.simps) (simp del: utf8_size.simps)
      have "utf8_Encode 0x2028 @ drop 3 s = s" using ls(2) by (metis append_take_drop_id)
      with u IH \<open>?n = 3\<close> show ?thesis by (simp add: q prepend_def)
    next
      case ps
      have "hex4 (''2029'' @ x) = Some (0x2029, x)" for x by simp
      note u = unquote_hex [OF this]
      have "?n = 3" using take3_size [OF ps(3)] by simp
      have q: "quote_chars s = backslash # CHR ''u'' # ''2029'' @ quote_chars (drop 3 s)"
        using ps n Cons by (subst quote_chars.simps) (simp del: utf8_size.simps)
      have "utf8_Encode 0x2029 @ drop 3 s = s" using ps(3) by (metis append_take_drop_id)
      with u IH \<open>?n = 3\<close> show ?thesis by (simp add: q prepend_def)
    next
      case rune
      have q: "quote_chars s = take ?n s @ quote_chars (drop ?n s)"
        using rune n Cons by (subst quote_chars.simps) (simp del: utf8_size.simps)
      obtain v where v: "take ?n s = c # v" using Cons n by (cases ?n) auto
      have sz: "utf8_size (take ?n s @ x) = ?n" for x using utf8_size_prefix [OF refl n(1)] .
      have "unquote (take ?n s @ x) = prepend (take ?n (take ?n s @ x)) (unquote (drop ?n (take ?n s @ x)))" for x
        unfolding v append_Cons
        by (rule unquote_plain) (use rune sz [of x] v n in \<open>auto simp del: utf8_size.simps\<close>)
      then show ?thesis using le IH by (simp add: q prepend_def)
    qed
  qed
qed

section \<open>Values read back\<close>

text \<open>The values whose rendering is faithful, how deep they nest, and what may follow a number.\<close>

fun json_ok :: "json \<Rightarrow> bool"
  and members_ok :: "(string \<times> json) list \<Rightarrow> bool" where
  "json_ok JNull = True"
| "json_ok (JBool b) = True"
| "json_ok (JNum n) = (\<exists>i. n = Itoa i)"
| "json_ok (JStr s) = utf8_ok s"
| "json_ok (JArr vs) = list_all json_ok vs"
| "json_ok (JObj ms) = members_ok ms"
| "members_ok [] = True"
| "members_ok ((k, v) # ms) = (utf8_ok k \<and> json_ok v \<and> members_ok ms)"

fun json_depth :: "json \<Rightarrow> nat"
  and elems_depth :: "json list \<Rightarrow> nat"
  and members_depth :: "(string \<times> json) list \<Rightarrow> nat" where
  "json_depth (JArr vs) = Suc (elems_depth vs)"
| "json_depth (JObj ms) = Suc (members_depth ms)"
| "json_depth _ = 0"
| "elems_depth [] = 0"
| "elems_depth (v # vs) = max (json_depth v) (elems_depth vs)"
| "members_depth [] = 0"
| "members_depth ((k, v) # ms) = max (json_depth v) (members_depth ms)"

definition stops :: "string \<Rightarrow> bool" where
  "stops r \<longleftrightarrow> r = [] \<or> \<not> is_digit (hd r) \<and> hd r \<notin> {CHR ''.'', CHR ''e'', CHR ''E''}"

definition good_layout :: "layout \<Rightarrow> bool" where
  "good_layout l \<longleftrightarrow> (\<forall>d. list_all json_space (lay_break l d)) \<and> (\<exists>w. lay_colon l = CHR '':'' # w \<and> list_all json_space w)"

lemma good_layouts [simp]: "good_layout compact" "good_layout indented"
  by (simp_all add: good_layout_def compact_def indented_def json_space_def list_all_iff)

lemma skip_ws_append [simp]: "list_all json_space w \<Longrightarrow> skip_ws (w @ s) = skip_ws s"
  by (induction w) (simp_all add: skip_ws_def)

lemma skip_ws_id [simp]: "\<not> json_space c \<Longrightarrow> skip_ws (c # s) = c # s"
  by (simp add: skip_ws_def)

lemma parse_value_ws: "list_all json_space w \<Longrightarrow> parse_value n k (w @ s) = parse_value n k s"
  by (cases n) simp_all

lemma parse_members_ws: "list_all json_space w \<Longrightarrow> parse_members n k (w @ s) = parse_members n k s"
  by (cases n) simp_all

lemma parse_elems_ws: "list_all json_space w \<Longrightarrow> parse_elems n k (w @ s) = parse_elems n k s"
  by (cases n) (simp_all add: parse_value_ws)

lemma dec_no_zero: "n > 0 \<Longrightarrow> hd (dec n) \<noteq> CHR ''0''"
proof (induction n rule: dec.induct)
  case (1 n)
  show ?case
  proof (cases "n < 10")
    case True
    then have "digit_value (digit n) = Some n" by simp
    then show ?thesis using True 1(2) by (subst dec.simps) (auto simp: digit_value_def)
  next
    case False
    with 1 show ?thesis by (subst dec.simps) simp
  qed
qed

lemma scan_tail: "stops r \<Longrightarrow> and_then (scan_frac r) scan_exp = Some ([], r)"
  by (cases r) (auto simp: scan_frac_def scan_exp_def and_then_def prepend_def stops_def)

lemma scan_int_dec: "stops r \<Longrightarrow> scan_int (dec n @ r) = Some (dec n, r)"
proof (cases "n = 0")
  case True
  moreover have "digit 0 = CHR ''0''" by code_simp
  ultimately show ?thesis by (simp add: scan_int_def dec.simps [of 0])
next
  case False
  assume r: "stops r"
  obtain c t where d: "dec n = c # t" by (cases "dec n") auto
  have "list_all is_digit (dec n)" using dec_chars by (auto simp: list_all_iff is_digit_def)
  then have "takeWhile is_digit (dec n @ r) = dec n @ takeWhile is_digit r"
    by (simp add: takeWhile_append2 list_all_iff)
  moreover have "takeWhile is_digit r = []" using r by (cases r) (auto simp: stops_def)
  ultimately have "scan_digits (dec n @ r) = Some (dec n, r)" by (simp add: scan_digits_def Let_def)
  with d dec_no_zero [of n] False show ?thesis by (simp add: scan_int_def)
qed

lemma parse_number_Itoa: "stops r \<Longrightarrow> parse_number (Itoa i @ r) = Some (Itoa i, r)"
proof -
  assume r: "stops r"
  obtain c t where d: "dec (nat i) = c # t" by (cases "dec (nat i)") auto
  have "c \<noteq> CHR ''-''" using dec_hd(2) [of "nat i"] d by simp
  then have "take 1 (dec (nat i) @ r) \<noteq> ''-''" using d by simp
  with scan_int_dec [OF r] scan_tail [OF r] show ?thesis
    by (simp add: parse_number_def Itoa_def and_then_def prepend_def)
qed

lemma Itoa_start: "\<exists>c t. Itoa i = c # t \<and> (is_digit c \<or> c = CHR ''-'')"
  using dec_chars [of "hd (dec (nat i))" "nat i"]
  by (cases "dec (nat i)") (auto simp: Itoa_def is_digit_def)

lemma number_start:
  assumes "is_digit c \<or> c = CHR ''-''"
  shows "\<not> json_space c" "c \<notin> {CHR ''{'', CHR ''['', quotation, CHR ''n'', CHR ''t'', CHR ''f'', CHR '']'', CHR ''}''}"
  using assms by (auto simp: is_digit_def json_space_def digit_value_def quotation_def)

lemma parse_value_number:
  assumes "stops r"
  shows "parse_value (Suc n) k (Itoa i @ r) = Some (JNum (Itoa i), r)"
proof -
  obtain c t where i: "Itoa i = c # t" "is_digit c \<or> c = CHR ''-''" using Itoa_start by blast
  show ?thesis using parse_number_Itoa [OF assms, of i] number_start [OF i(2)] i(1) by simp
qed

lemma punctuation:
  "\<not> json_space quotation" "\<not> json_space (CHR ''{'')" "\<not> json_space (CHR ''}'')" "\<not> json_space (CHR ''['')"
  "\<not> json_space (CHR '']'')" "\<not> json_space (CHR '','')" "\<not> json_space (CHR '':'')" "\<not> json_space (CHR ''n'')"
  "\<not> json_space (CHR ''t'')" "\<not> json_space (CHR ''f'')"
  by (simp_all add: json_space_def quotation_def)

lemma quotation_plain: "quotation \<notin> {CHR ''{'', CHR ''['', CHR ''}'', CHR '']''}"
  by (simp add: quotation_def)

lemma quotation_ne [simp]: "CHR ''n'' \<noteq> quotation" "CHR ''t'' \<noteq> quotation" "CHR ''f'' \<noteq> quotation"
  "CHR ''{'' \<noteq> quotation" "CHR ''['' \<noteq> quotation"
  by (simp_all add: quotation_def)

lemma stops_break: "list_all json_space w \<Longrightarrow> c \<in> {CHR '','', CHR ''}'', CHR '']''} \<Longrightarrow> stops (w @ c # r)"
  by (cases w) (auto simp: stops_def is_digit_def json_space_def digit_value_def)

text \<open>What a rendered value starts with, so that an opening bracket is not taken for an empty sequence.\<close>

lemma print_start:
  assumes "json_ok v"
  shows "\<exists>c t. json_print l d v = c # t \<and> \<not> json_space c \<and> c \<notin> {CHR ''}'', CHR '']''}"
proof (cases v)
  case (JNum n)
  then obtain i where "n = Itoa i" using assms by auto
  with Itoa_start [of i] number_start JNum show ?thesis by fastforce
qed (use punctuation quotation_plain in \<open>auto simp: json_quote_def\<close>)

lemma parse_print:
  fixes w r :: string
  assumes l: "good_layout l"
  shows "json_ok v \<Longrightarrow> json_depth v \<le> k \<Longrightarrow> stops r \<Longrightarrow> 2 * length (json_print l d v @ r) < n \<Longrightarrow>
      parse_value n k (json_print l d v @ r) = Some (v, r)"
    and "list_all json_ok vs \<Longrightarrow> vs \<noteq> [] \<Longrightarrow> elems_depth vs \<le> k \<Longrightarrow> list_all json_space w \<Longrightarrow>
      2 * length (print_elems l d vs @ w @ CHR '']'' # r) + 1 < n \<Longrightarrow>
      parse_elems n k (print_elems l d vs @ w @ CHR '']'' # r) = Some (vs, r)"
    and "members_ok ms \<Longrightarrow> ms \<noteq> [] \<Longrightarrow> members_depth ms \<le> k \<Longrightarrow> list_all json_space w \<Longrightarrow>
      2 * length (print_members l d ms @ w @ CHR ''}'' # r) < n \<Longrightarrow>
      parse_members n k (print_members l d ms @ w @ CHR ''}'' # r) = Some (ms, r)"
  using l
proof (induction l d v and l d vs and l d ms arbitrary: n k r and n k r w and n k r w
    rule: json_print_print_elems_print_members.induct)
  case (1 l d)
  then obtain n' where "n = Suc n'" by (cases n) auto
  then show ?case by (simp add: punctuation parse_word_def HasPrefix_def)
next
  case (2 l d b)
  then obtain n' where "n = Suc n'" by (cases n) auto
  then show ?case by (simp add: punctuation parse_word_def HasPrefix_def)
next
  case (3 l d m)
  then obtain n' i where "n = Suc n'" "m = Itoa i" by (cases n) auto
  with 3 show ?case using parse_value_number [of r n' k i] by simp
next
  case (4 l d s)
  then obtain n' where "n = Suc n'" by (cases n) auto
  with 4 unquote_quote [of s r] quotation_plain show ?case by (simp add: json_quote_def punctuation)
next
  case (5 l d vs)
  then obtain n' where n: "n = Suc n'" by (cases n) auto
  show ?case
  proof (cases vs)
    case Nil
    with 5 n show ?thesis by (simp add: punctuation)
  next
    case (Cons v vs')
    let ?t = "print_elems l (Suc d) vs @ lay_break l d @ CHR '']'' # r"
    have k: "k > 0" "elems_depth vs \<le> k - 1" using "5.prems"(2) by auto
    have b: "list_all json_space (lay_break l d)" "list_all json_space (lay_break l (Suc d))"
      using "5.prems"(5) by (auto simp: good_layout_def)
    have "parse_elems n' (k - 1) ?t = Some (vs, r)"
      by (rule "5.IH") (use "5.prems" k b n Cons in auto)
    moreover obtain c u where c: "json_print l (Suc d) v = c # u" "\<not> json_space c" "c \<notin> {CHR ''}'', CHR '']''}"
      using print_start [of v l "Suc d"] "5.prems"(1) Cons by auto
    then have "take 1 (skip_ws ?t) \<noteq> '']''" using Cons b by simp
    ultimately show ?thesis using n k Cons by (simp add: punctuation del: print_elems.simps)
  qed
next
  case (6 l d ms)
  then obtain n' where n: "n = Suc n'" by (cases n) auto
  show ?case
  proof (cases ms)
    case Nil
    with 6 n show ?thesis by (simp add: punctuation)
  next
    case (Cons kv ms')
    obtain key v where kv: "kv = (key, v)" by fastforce
    let ?t = "print_members l (Suc d) ms @ lay_break l d @ CHR ''}'' # r"
    have k: "k > 0" "members_depth ms \<le> k - 1" using "6.prems"(2) by auto
    have b: "list_all json_space (lay_break l d)" "list_all json_space (lay_break l (Suc d))"
      using "6.prems"(5) by (auto simp: good_layout_def)
    have "parse_members n' (k - 1) ?t = Some (ms, r)"
      by (rule "6.IH") (use "6.prems" k b n Cons in auto)
    moreover have "take 1 (skip_ws ?t) \<noteq> ''}''"
      using Cons kv b quotation_plain by (simp add: json_quote_def punctuation)
    ultimately show ?thesis using n k Cons by (simp add: punctuation del: print_members.simps)
  qed
next
  case (8 l d v vs)
  then obtain n' where n: "n = Suc n'" by (cases n) auto
  have b: "list_all json_space (lay_break l d)" using "8.prems"(6) by (auto simp: good_layout_def)
  let ?rest = "if vs = [] then w @ CHR '']'' # r else CHR '','' # print_elems l d vs @ w @ CHR '']'' # r"
  have txt1: "print_elems l d (v # vs) @ w @ CHR '']'' # r = lay_break l d @ json_print l d v @ ?rest" by simp
  have st: "stops ?rest" using stops_break [of w "CHR '']''" r] stops_break [of "[]" "CHR '',''"] "8.prems"(4) by auto
  have v: "parse_value n' k (json_print l d v @ ?rest) = Some (v, ?rest)"
    by (rule "8.IH"(1)) (use "8.prems" n st in auto)
  have vs: "parse_elems n' k (print_elems l d vs @ w @ CHR '']'' # r) = Some (vs, r)" if "vs \<noteq> []"
    by (rule "8.IH"(2)) (use that "8.prems" n in auto)
  show ?case unfolding txt1 n
    using v vs "8.prems"(4) by (auto simp: parse_value_ws [OF b] punctuation simp del: print_elems.simps)
next
  case (10 l d key v ms)
  then obtain n' where n: "n = Suc n'" by (cases n) auto
  obtain u where u: "lay_colon l = CHR '':'' # u" "list_all json_space u" using "10.prems"(6) by (auto simp: good_layout_def)
  have b: "list_all json_space (lay_break l d)" using "10.prems"(6) by (auto simp: good_layout_def)
  let ?rest = "if ms = [] then w @ CHR ''}'' # r else CHR '','' # print_members l d ms @ w @ CHR ''}'' # r"
  have txt1: "print_members l d ((key, v) # ms) @ w @ CHR ''}'' # r =
      lay_break l d @ quotation # quote_chars key @ quotation # CHR '':'' # u @ json_print l d v @ ?rest"
    using u(1) by (simp add: json_quote_def)
  have st: "stops ?rest" using stops_break [of w "CHR ''}''" r] stops_break [of "[]" "CHR '',''"] "10.prems"(4) by auto
  have v: "parse_value n' k (json_print l d v @ ?rest) = Some (v, ?rest)"
    by (rule "10.IH"(1)) (use "10.prems" n st u in \<open>auto simp: json_quote_def\<close>)
  have ms: "parse_members n' k (print_members l d ms @ w @ CHR ''}'' # r) = Some (ms, r)" if "ms \<noteq> []"
    by (rule "10.IH"(2)) (use that "10.prems" n u in \<open>auto simp: json_quote_def\<close>)
  have key: "unquote (quote_chars key @ quotation # x) = Some (key, x)" for x
    using unquote_quote "10.prems"(1) by simp
  show ?case unfolding txt1 n parse_members_ws [OF b]
    using v ms key "10.prems"(4) by (auto simp: parse_value_ws [OF u(2)] punctuation simp del: print_members.simps)
qed simp_all

text \<open>A rendered value is read back, in either layout.\<close>

lemma json_roundtrip:
  assumes "json_ok v" "json_depth v \<le> maxNestingDepth"
  shows "json_Parse (json_Marshal v) = Some v" "json_Parse (json_MarshalIndent v) = Some v"
proof -
  have "json_Parse (bytes_of (json_print l 0 v)) = Some v" if "good_layout l" for l
    using parse_print(1) [OF that assms, of "[]" 0 "Suc (2 * length (json_print l 0 v))"]
    by (simp add: json_Parse_def stops_def skip_ws_def)
  then show "json_Parse (json_Marshal v) = Some v" "json_Parse (json_MarshalIndent v) = Some v"
    by (simp_all add: json_Marshal_def json_MarshalIndent_def)
qed

end
