(* ===== verification/Pack_Backend.thy ===== *)
theory Pack_Backend
  imports Go_Json Fs_Contract Cas_Verify
begin

text \<open>
  \<open>src/cas/backend/packfs/packfs.go\<close>: the packed backend. Every object goes to a loose file store; with
  packing on it is also appended to a pack file, and an index from digests to the place of the
  payload in a pack is kept in memory and in a JSON manifest that is replaced by rename.

  The record \<open>packst\<close> extends the file tree by the mutable fields of the Go struct and by the schedule
  of the random numbers \<open>os.CreateTemp\<close> draws; \<open>packb\<close> holds the fixed fields. The operation seams of the
  struct are the calls of \<open>Os_Files\<close> and the operations of the loose store, as \<open>New\<close> installs them. A method runs under
  the struct's mutex and is one action.
\<close>

section \<open>State\<close>

record packRecord =
  Pack :: string
  Offset :: int
  Size :: int

record pack_config =
  enabled :: bool
  packMaxBytes :: int
  packMaxEntries :: int

definition default_config :: pack_config where
  "default_config = \<lparr>enabled = False, packMaxBytes = 64 * 2 ^ 20, packMaxEntries = 10000\<rparr>"

definition WithEnabled :: "pack_config \<Rightarrow> pack_config" where
  "WithEnabled c = c\<lparr>enabled := True\<rparr>"

definition WithPackMaxBytes :: "int \<Rightarrow> pack_config \<Rightarrow> pack_config" where
  "WithPackMaxBytes n c = c\<lparr>packMaxBytes := n\<rparr>"

definition WithPackMaxEntries :: "int \<Rightarrow> pack_config \<Rightarrow> pack_config" where
  "WithPackMaxEntries n c = c\<lparr>packMaxEntries := n\<rparr>"

record packb =
  pk_base :: string
  pk_loose :: fsb
  packDir :: string
  pk_cfg :: pack_config

record packst = osfs +
  pk_index :: "(digest \<times> packRecord) list"
  packFile :: "path option"
  packFilePath :: string
  packBytes :: int
  packEntries :: int
  pk_random :: "nat list"

definition errInvalidPackRecord :: err where
  "errInvalidPackRecord = ErrorsNew ''invalid pack record''"

definition manifestPath :: "packb \<Rightarrow> string" where
  "manifestPath b = filepath_Join (packDir b) ''index.json''"

section \<open>The manifest\<close>

definition record_json :: "packRecord \<Rightarrow> json" where
  "record_json r = JObj [(''pack'', JStr (Pack r)), (''offset'', JNum (Itoa (Offset r))), (''size'', JNum (Itoa (Size r)))]"

definition manifest_entries :: "(digest \<times> packRecord) list \<Rightarrow> (string \<times> packRecord) list" where
  "manifest_entries idx = sort_key fst (map (\<lambda>(key, r). (Digest_String key, r)) idx)"

definition manifest_json :: "(digest \<times> packRecord) list \<Rightarrow> json" where
  "manifest_json idx = JObj [(''entries'', JObj (map (\<lambda>(k, r). (k, record_json r)) (manifest_entries idx)))]"

text \<open>
  Decoding into the struct: a field is found by its name, or by its name up to case (the two non-ASCII runes
  that fold to an ASCII letter included); an unknown field is skipped; \<open>null\<close> leaves a field as it is
  and empties a map; any other kind than the field's is an error of the whole document.
\<close>

definition to_upper :: "char \<Rightarrow> char" where
  "to_upper c = (let n = code c in if 97 \<le> n \<and> n \<le> 122 then char_of (n - 32) else c)"

fun fold_name :: "string \<Rightarrow> string" where
  "fold_name [] = []"
| "fold_name (c # s) =
     (if c = CHR 0xC5 \<and> take 1 s = [CHR 0xBF] then CHR ''S'' # fold_name (drop 1 s)
      else if c = CHR 0xE2 \<and> take 2 s = [CHR 0x84, CHR 0xAA] then CHR ''K'' # fold_name (drop 2 s)
      else to_upper c # fold_name s)"

definition field_is :: "string \<Rightarrow> string \<Rightarrow> bool" where
  "field_is key name \<longleftrightarrow> key = name \<or> fold_name key = fold_name name"

definition set_string :: "json \<Rightarrow> string \<Rightarrow> string option" where
  "set_string v old = (case v of JStr x \<Rightarrow> Some x | JNull \<Rightarrow> Some old | _ \<Rightarrow> None)"

definition set_int :: "json \<Rightarrow> int \<Rightarrow> int option" where
  "set_int v old = (case v of JNum l \<Rightarrow> ParseInt l | JNull \<Rightarrow> Some old | _ \<Rightarrow> None)"

fun decode_record :: "packRecord \<Rightarrow> (string \<times> json) list \<Rightarrow> packRecord option" where
  "decode_record r [] = Some r"
| "decode_record r ((k, v) # ms) =
     (if field_is k ''pack'' then (case set_string v (Pack r) of None \<Rightarrow> None | Some x \<Rightarrow> decode_record (r\<lparr>Pack := x\<rparr>) ms)
      else if field_is k ''offset'' then (case set_int v (Offset r) of None \<Rightarrow> None | Some x \<Rightarrow> decode_record (r\<lparr>Offset := x\<rparr>) ms)
      else if field_is k ''size'' then (case set_int v (Size r) of None \<Rightarrow> None | Some x \<Rightarrow> decode_record (r\<lparr>Size := x\<rparr>) ms)
      else decode_record r ms)"

definition zero_record :: packRecord where
  "zero_record = \<lparr>Pack = '''', Offset = 0, Size = 0\<rparr>"

definition decode_entry :: "json \<Rightarrow> packRecord option" where
  "decode_entry v = (case v of JObj ms \<Rightarrow> decode_record zero_record ms | JNull \<Rightarrow> Some zero_record | _ \<Rightarrow> None)"

fun decode_entries :: "(string \<times> packRecord) list \<Rightarrow> (string \<times> json) list \<Rightarrow> (string \<times> packRecord) list option" where
  "decode_entries m [] = Some m"
| "decode_entries m ((k, v) # ms) =
     (case decode_entry v of None \<Rightarrow> None | Some r \<Rightarrow> decode_entries (AList.update k r m) ms)"

fun decode_fields :: "(string \<times> packRecord) list \<Rightarrow> (string \<times> json) list \<Rightarrow> (string \<times> packRecord) list option" where
  "decode_fields m [] = Some m"
| "decode_fields m ((k, v) # ms) =
     (if field_is k ''entries''
      then (case (case v of JObj es \<Rightarrow> decode_entries m es | JNull \<Rightarrow> Some [] | _ \<Rightarrow> None) of
          None \<Rightarrow> None
        | Some m' \<Rightarrow> decode_fields m' ms)
      else decode_fields m ms)"

definition decode_manifest :: "bytes \<Rightarrow> (string \<times> packRecord) list option" where
  "decode_manifest data =
     (case json_Parse data of
        Some (JObj ms) \<Rightarrow> decode_fields [] ms
      | Some JNull \<Rightarrow> Some []
      | _ \<Rightarrow> None)"

section \<open>Records\<close>

text \<open>\<open>filepath.Rel\<close>: the components of the relative path, none for the same path; nothing where there is no such path.\<close>

fun common_prefix :: "string list \<Rightarrow> string list \<Rightarrow> nat" where
  "common_prefix (x # xs) (y # ys) = (if x = y then Suc (common_prefix xs ys) else 0)"
| "common_prefix _ _ = 0"

definition filepath_Rel :: "string \<Rightarrow> string \<Rightarrow> string list option" where
  "filepath_Rel b t =
     (let bs = path_parts b; ts = path_parts t; n = common_prefix bs ts in
      if filepath_Clean b = filepath_Clean t then Some []
      else if HasPrefix b ''/'' \<noteq> HasPrefix t ''/'' then None
      else if take 1 (drop n bs) = [''..''] then None
      else Some (replicate (length bs - n) ''..'' @ drop n ts))"

definition validPackRecord :: "packb \<Rightarrow> packRecord \<Rightarrow> ('z packst_scheme, bool) act" where
  "validPackRecord b r =
     (if Offset r < 0 \<or> Size r < 0 \<or> Offset r > MaxInt64 - Size r then fail errInvalidPackRecord
      else case filepath_Rel (packDir b) (Pack r) of
          None \<Rightarrow> fail errInvalidPackRecord
        | Some rel \<Rightarrow>
            if take 1 rel = [''..''] then fail errInvalidPackRecord
            else
              bnd (catch (ValidateFile (path_parts (packDir b)) (path_parts (Pack r)))
                     (\<lambda>e. if errors_Is e ErrUnsafeTarget then fail (Errorf '''' [errInvalidPackRecord, e]) else fail e)) (\<lambda>_.
              bnd (attempt (os_Lstat (path_parts (Pack r)))) (\<lambda>x.
                case x of
                  Inl e \<Rightarrow> if errors_Is e ErrNotExist then ret False else fail e
                | Inr n \<Rightarrow>
                    (case n of
                       Reg c t \<Rightarrow> if node_Size n < Offset r + Size r then fail errInvalidPackRecord else ret True
                     | _ \<Rightarrow> fail errInvalidPackRecord))))"

section \<open>Files\<close>

definition next_random :: "('z packst_scheme, nat) act" where
  "next_random =
     bnd get_st (\<lambda>s.
       case pk_random s of
         [] \<Rightarrow> ret 0
       | x # xs \<Rightarrow> bnd (put_st (s\<lparr>pk_random := xs\<rparr>)) (\<lambda>_. ret x))"

text \<open>\<open>os.CreateTemp\<close>: a random name that does not exist, at most 10000 tries.\<close>

fun create_temp :: "nat \<Rightarrow> path \<Rightarrow> string \<Rightarrow> ('z packst_scheme, path) act" where
  "create_temp 0 dir pre = fail ErrExist"
| "create_temp (Suc n) dir pre =
     bnd next_random (\<lambda>x.
       (let p = dir @ [pre @ dec x @ ''.tmp''] in
        catch (bnd (os_OpenExcl p) (\<lambda>_. ret p))
          (\<lambda>e. if errors_Is e ErrExist then create_temp n dir pre else fail e)))"

definition os_CreateTemp :: "path \<Rightarrow> string \<Rightarrow> ('z packst_scheme, path) act" where
  "os_CreateTemp dir pre = create_temp 10000 dir pre"

text \<open>\<open>Stat\<close> and \<open>Seek\<close> to the end on an open file, \<open>Seek\<close> to its start, and the file as a stream from there.\<close>

definition os_FileSize :: "path \<Rightarrow> ('z osfs_scheme, int) act" where
  "os_FileSize p = syscall (\<lambda>s. (Inr (case node_at s p of Some n \<Rightarrow> node_Size n | None \<Rightarrow> 0), s))"

definition os_Rewind :: "path \<Rightarrow> ('z osfs_scheme, unit) act" where
  "os_Rewind p = syscall (\<lambda>s. (Inr (), s))"

definition file_stream :: "path \<Rightarrow> ('z osfs_scheme, reader) act" where
  "file_stream p w =
     (Inr (case node_at (est w) p of
        Some (Reg c _) \<Rightarrow> \<lparr>r_chunks = (if c = [] then [] else [c]), r_err = None, r_len = None\<rparr>
      | _ \<Rightarrow> \<lparr>r_chunks = [], r_err = Some EISDIR, r_len = None\<rparr>), w)"

text \<open>\<open>backend.WriteAll\<close> into an open file.\<close>

definition os_WriteAll :: "path \<Rightarrow> bytes \<Rightarrow> ('z osfs_scheme, unit) act" where
  "os_WriteAll p b w =
     (if crashed (est w) then (Inl ECRASH, w)
      else case WriteAll b \<lparr>w_out = [], w_plan = wplan (est w)\<rparr> w of
          (Inl e, w') \<Rightarrow> (Inl e, w')
        | (Inr (eo, wr), w') \<Rightarrow>
            (let w'' = w'\<lparr>est := (append_at p (w_out wr) (est w'))\<lparr>wplan := w_plan wr\<rparr>\<rparr> in
             case eo of None \<Rightarrow> (Inr (), w'') | Some e \<Rightarrow> (Inl e, w'')))"

text \<open>\<open>defer\<close>: the cleanup runs whatever the outcome, and its own outcome is dropped.\<close>

definition deferring :: "('b, 'a) act \<Rightarrow> ('b, unit) act \<Rightarrow> ('b, 'a) act" where
  "deferring m cleanup w = (case m w of (x, w1) \<Rightarrow> (case cleanup w1 of (_, w2) \<Rightarrow> (x, w2)))"

section \<open>The index\<close>

fun load_entries ::
  "packb \<Rightarrow> (string \<times> packRecord) list \<Rightarrow> (digest \<times> packRecord) list \<Rightarrow> ('z packst_scheme, (digest \<times> packRecord) list) act" where
  "load_entries b [] filtered = ret filtered"
| "load_entries b ((key, r) # es) filtered =
     (case ParseDigest key of
        Inl _ \<Rightarrow> load_entries b es filtered
      | Inr d \<Rightarrow>
          bnd (attempt (validPackRecord b r)) (\<lambda>v.
            load_entries b es (if v = Inr True then AList.update d r filtered else filtered)))"

definition set_index :: "(digest \<times> packRecord) list \<Rightarrow> ('z packst_scheme, unit) act" where
  "set_index idx = bnd get_st (\<lambda>s. put_st (s\<lparr>pk_index := idx\<rparr>))"

definition loadIndex :: "packb \<Rightarrow> ('z packst_scheme, unit) act" where
  "loadIndex b =
     bnd (attempt (os_ReadFile (path_parts (manifestPath b)))) (\<lambda>x.
       case x of
         Inl e \<Rightarrow> if errors_Is e ErrNotExist then ret () else fail (Errorf ''cas: read pack manifest'' [e])
       | Inr data \<Rightarrow>
           (case decode_manifest data of
              None \<Rightarrow> fail (ErrorsNew ''cas: decode pack manifest'')
            | Some m \<Rightarrow> bnd (load_entries b m []) set_index))"

fun prune_entries :: "packb \<Rightarrow> (digest \<times> packRecord) list \<Rightarrow> ('z packst_scheme, (digest \<times> packRecord) list) act" where
  "prune_entries b [] = ret []"
| "prune_entries b ((key, r) # es) =
     bnd (attempt (validPackRecord b r)) (\<lambda>v.
     bnd (prune_entries b es) (\<lambda>kept. ret (if v = Inr True then (key, r) # kept else kept)))"

definition pruneMissingPackEntriesLocked :: "packb \<Rightarrow> ('z packst_scheme, unit) act" where
  "pruneMissingPackEntriesLocked b = bnd get_st (\<lambda>s. bnd (prune_entries b (pk_index s)) set_index)"

fun rename_retry :: "nat \<Rightarrow> path \<Rightarrow> path \<Rightarrow> err \<Rightarrow> ('z osfs_scheme, unit) act" where
  "rename_retry 0 tmp p e = fail e"
| "rename_retry (Suc n) tmp p _ =
     bnd (attempt (os_Rename tmp p)) (\<lambda>r.
       case r of
         Inr _ \<Rightarrow> ret ()
       | Inl e \<Rightarrow> bnd (attempt (os_Stat tmp)) (\<lambda>s. case s of Inl _ \<Rightarrow> fail e | Inr _ \<Rightarrow> rename_retry n tmp p e))"

definition renameWithRetry :: "path \<Rightarrow> path \<Rightarrow> ('z osfs_scheme, unit) act" where
  "renameWithRetry tmp p = rename_retry 20 tmp p (ErrorsNew ''nil'')"

text \<open>The scratch file, once it exists: filled, closed, renamed; discarded on every failure.\<close>

definition rename_manifest :: "packb \<Rightarrow> path \<Rightarrow> ('z packst_scheme, unit) act" where
  "rename_manifest b tmp =
     bnd (or_else (wrapping ''cas: write pack manifest'' (os_Close tmp)) (ignore (os_Remove tmp))) (\<lambda>_.
       or_else (wrapping ''cas: rename pack manifest'' (renameWithRetry tmp (path_parts (manifestPath b))))
         (ignore (os_Remove tmp)))"

definition write_manifest :: "packb \<Rightarrow> bytes \<Rightarrow> path \<Rightarrow> ('z packst_scheme, unit) act" where
  "write_manifest b data tmp =
     bnd (or_else (wrapping ''cas: write pack manifest'' (os_Write tmp data)) (discard tmp)) (\<lambda>_. rename_manifest b tmp)"

definition persistIndex :: "packb \<Rightarrow> ('z packst_scheme, unit) act" where
  "persistIndex b =
     bnd get_st (\<lambda>s.
       (let data = json_MarshalIndent (manifest_json (pk_index s)); dir = path_parts (packDir b) in
        bnd (wrapping ''cas: write pack manifest'' (ValidateDir (path_parts (pk_base b)) dir)) (\<lambda>_.
        bnd (wrapping ''cas: write pack manifest'' (os_CreateTemp dir ''index-'')) (\<lambda>tmp.
          write_manifest b data tmp))))"

section \<open>Pack files\<close>

definition open_pack :: "packb \<Rightarrow> string \<Rightarrow> string \<Rightarrow> ('z packst_scheme, unit) act" where
  "open_pack b p msg =
     bnd (wrapping msg (ValidateFile (path_parts (pk_base b)) (path_parts p))) (\<lambda>_.
     bnd (wrapping msg (os_OpenAppend (path_parts p))) (\<lambda>_.
     bnd get_st (\<lambda>s. put_st (s\<lparr>packFile := Some (path_parts p), packFilePath := p\<rparr>))))"

definition ensurePackFile :: "packb \<Rightarrow> ('z packst_scheme, unit) act" where
  "ensurePackFile b =
     bnd get_st (\<lambda>s.
       if packFile s \<noteq> None then ret ()
       else
         (let p = filepath_Join (packDir b) ''current.pack'' in
          bnd (open_pack b p ''cas: open pack file'') (\<lambda>_.
          bnd (attempt (os_FileSize (path_parts p))) (\<lambda>x.
            case x of
              Inl _ \<Rightarrow> ret ()
            | Inr n \<Rightarrow> bnd get_st (\<lambda>s'. put_st (s'\<lparr>packBytes := n\<rparr>))))))"

definition rotatePackFile :: "packb \<Rightarrow> ('z packst_scheme, unit) act" where
  "rotatePackFile b =
     bnd get_st (\<lambda>s.
     bnd (case packFile s of
            None \<Rightarrow> ret ()
          | Some f \<Rightarrow> bnd (os_Close f) (\<lambda>_. bnd get_st (\<lambda>s1. put_st (s1\<lparr>packFile := None\<rparr>)))) (\<lambda>_.
     bnd time_now (\<lambda>ns.
     bnd (open_pack b (filepath_Join (packDir b) (''pack-'' @ Itoa ns @ ''.pack'')) ''cas: rotate pack file'') (\<lambda>_.
     bnd get_st (\<lambda>s2. put_st (s2\<lparr>packBytes := 0, packEntries := 0\<rparr>))))))"

definition pack_header :: "digest \<Rightarrow> nat \<Rightarrow> bytes" where
  "pack_header d n = be_put 4 (length d) @ d @ be_put 8 n"

definition write_record :: "digest \<Rightarrow> reader \<Rightarrow> nat \<Rightarrow> path \<Rightarrow> ('z packst_scheme, int) act" where
  "write_record d r n f =
     bnd (wrapping ''cas: seek pack file'' (os_FileSize f)) (\<lambda>off.
     bnd (wrapping ''cas: write pack header'' (os_WriteAll f (pack_header d n))) (\<lambda>_.
     bnd (wrapping ''cas: write pack payload'' (os_Copy f (io_LimitReader r (int n)))) (\<lambda>_.
       ret off)))"

definition rotate_if :: "packb \<Rightarrow> ('z packst_scheme \<Rightarrow> bool) \<Rightarrow> ('z packst_scheme, unit) act" where
  "rotate_if b full = bnd get_st (\<lambda>s. if full s then rotatePackFile b else ret ())"

text \<open>The record itself: header, payload, counters, index, manifest.\<close>

definition index_record :: "packb \<Rightarrow> digest \<Rightarrow> nat \<Rightarrow> int \<Rightarrow> ('z packst_scheme, unit) act" where
  "index_record b d n off =
     bnd get_st (\<lambda>s.
       (let hdr = int (length (pack_header d n)) in
        bnd (put_st (s\<lparr>packBytes := packBytes s + hdr + int n, packEntries := packEntries s + 1,
               pk_index := AList.update d \<lparr>Pack = packFilePath s, Offset = off + hdr, Size = int n\<rparr> (pk_index s)\<rparr>))
          (\<lambda>_. persistIndex b)))"

definition add_record :: "packb \<Rightarrow> digest \<Rightarrow> reader \<Rightarrow> nat \<Rightarrow> ('z packst_scheme, unit) act" where
  "add_record b d r n = bnd get_st (\<lambda>s. bnd (write_record d r n (the (packFile s))) (index_record b d n))"

definition appendPackRecord :: "packb \<Rightarrow> digest \<Rightarrow> reader \<Rightarrow> nat \<Rightarrow> ('z packst_scheme, unit) act" where
  "appendPackRecord b d r n =
     (if \<not> enabled (pk_cfg b) then ret ()
      else
        bnd (ensurePackFile b) (\<lambda>_.
        bnd (rotate_if b (\<lambda>s. packMaxEntries (pk_cfg b) > 0 \<and> packEntries s \<ge> packMaxEntries (pk_cfg b))) (\<lambda>_.
        bnd (rotate_if b (\<lambda>s. packMaxBytes (pk_cfg b) > 0 \<and> packBytes s \<ge> packMaxBytes (pk_cfg b))) (\<lambda>_.
        bnd (ensurePackFile b) (\<lambda>_.
          add_record b d r n)))))"

section \<open>Objects\<close>

definition spoolObject :: "packb \<Rightarrow> reader \<Rightarrow> ('z packst_scheme, path \<times> nat) act" where
  "spoolObject b r =
     bnd (wrapping ''cas: create spool file'' (os_CreateTemp (path_parts (packDir b)) ''.put-'')) (\<lambda>f.
     bnd (or_else (wrapping ''cas: spool object'' (os_Copy f r)) (discard f)) (\<lambda>n.
       ret (f, n)))"

definition put_spooled :: "packb \<Rightarrow> digest \<Rightarrow> path \<Rightarrow> nat \<Rightarrow> ('z packst_scheme, unit) act" where
  "put_spooled b d f n =
     bnd (wrapping ''cas: rewind spool file'' (os_Rewind f)) (\<lambda>_.
     bnd (file_stream f) (\<lambda>r.
     bnd (fs_Put (pk_loose b) d r) (\<lambda>_.
     bnd (wrapping ''cas: rewind spool file'' (os_Rewind f)) (\<lambda>_.
     bnd (file_stream f) (\<lambda>r'.
       appendPackRecord b d r' n)))))"

definition pk_Put :: "packb \<Rightarrow> digest \<Rightarrow> reader \<Rightarrow> ('z packst_scheme, unit) act" where
  "pk_Put b d r =
     bnd ctx_Err (\<lambda>_.
     bnd (when_err (CheckDigest d ''pack: put'')) (\<lambda>_.
       if \<not> enabled (pk_cfg b) then fs_Put (pk_loose b) d r
       else bnd (spoolObject b r) (\<lambda>(f, n). deferring (put_spooled b d f n) (discard f))))"

text \<open>
  The lookup all readers share: the record of a digest if it is live, nothing if there is none; a
  record whose pack is gone is dropped and the manifest rewritten.
\<close>

definition live_record :: "packb \<Rightarrow> digest \<Rightarrow> ('z packst_scheme, packRecord option) act" where
  "live_record b d =
     bnd get_st (\<lambda>s.
       case map_of (pk_index s) d of
         None \<Rightarrow> ret None
       | Some r \<Rightarrow>
           bnd (wrapping ''cas: validate pack record'' (validPackRecord b r)) (\<lambda>valid.
             if valid then ret (Some r)
             else bnd (set_index (AList.delete d (pk_index s))) (\<lambda>_. bnd (persistIndex b) (\<lambda>_. ret None))))"

definition section_of :: "readcloser \<Rightarrow> int \<Rightarrow> int \<Rightarrow> readcloser" where
  "section_of rc off n =
     (let c = take (nat n) (drop (nat off) (r_data rc)) in rc\<lparr>r_chunks := (if c = [] then [] else [c]), r_len := None\<rparr>)"

definition pk_Get :: "packb \<Rightarrow> digest \<Rightarrow> ('z packst_scheme, readcloser) act" where
  "pk_Get b d =
     bnd ctx_Err (\<lambda>_.
     bnd (when_err (CheckDigest d ''pack: get'')) (\<lambda>_.
     bnd (live_record b d) (\<lambda>ro.
       case ro of
         None \<Rightarrow> fs_Get (pk_loose b) d
       | Some r \<Rightarrow>
           bnd (wrapping ''cas: open pack file'' (os_OpenRead (path_parts (Pack r)))) (\<lambda>f.
             ret (section_of f (Offset r) (Size r))))))"

definition pk_Exists :: "packb \<Rightarrow> digest \<Rightarrow> ('z packst_scheme, bool) act" where
  "pk_Exists b d =
     bnd ctx_Err (\<lambda>_.
     bnd (when_err (CheckDigest d ''pack: exists'')) (\<lambda>_.
     bnd (live_record b d) (\<lambda>ro.
       case ro of None \<Rightarrow> fs_Exists (pk_loose b) d | Some _ \<Rightarrow> ret True)))"

definition pk_Delete :: "packb \<Rightarrow> digest \<Rightarrow> ('z packst_scheme, unit) act" where
  "pk_Delete b d =
     bnd ctx_Err (\<lambda>_.
     bnd (when_err (CheckDigest d ''pack: delete'')) (\<lambda>_.
     bnd (fs_Delete (pk_loose b) d) (\<lambda>_.
     bnd get_st (\<lambda>s.
     bnd (set_index (AList.delete d (pk_index s))) (\<lambda>_. persistIndex b)))))"

definition pk_List :: "packb \<Rightarrow> ('z packst_scheme, digest list) act" where
  "pk_List b =
     bnd ctx_Err (\<lambda>_.
     bnd (fs_List (pk_loose b)) (\<lambda>ls.
     bnd get_st (\<lambda>s.
       ret (sort (ls @ filter (\<lambda>key. key \<notin> set ls) (map fst (pk_index s)))))))"

definition pk_Stats :: "packb \<Rightarrow> ('z packst_scheme, Stats) act" where
  "pk_Stats b =
     bnd ctx_Err (\<lambda>_.
     bnd (pruneMissingPackEntriesLocked b) (\<lambda>_.
     bnd (fs_Stats (pk_loose b)) (\<lambda>st.
     bnd (fs_List (pk_loose b)) (\<lambda>ls.
     bnd get_st (\<lambda>s.
       (let extra = filter (\<lambda>(key, r). Size r > 0 \<and> key \<notin> set ls) (pk_index s) in
        ret \<lparr>TotalSize = TotalSize st + sum_list (map (\<lambda>(_, r). Size r) extra),
             ObjectCount = ObjectCount st + int (length extra)\<rparr>))))))"

definition pk_Size :: "packb \<Rightarrow> digest \<Rightarrow> ('z packst_scheme, int) act" where
  "pk_Size b d =
     bnd ctx_Err (\<lambda>_.
     bnd (when_err (CheckDigest d ''pack: size'')) (\<lambda>_.
     bnd (live_record b d) (\<lambda>ro.
       case ro of None \<Rightarrow> fs_Size (pk_loose b) d | Some r \<Rightarrow> ret (Size r))))"

definition pack_time :: "packRecord \<Rightarrow> digest \<Rightarrow> ('z packst_scheme, int) act" where
  "pack_time r d =
     catch (bnd (os_Stat (path_parts (Pack r))) (\<lambda>fi. ret (node_ModTime fi)))
       (\<lambda>e. if errors_Is e ErrNotExist then fail (Errorf (Digest_String d) [ErrNotFound])
            else fail (Errorf ''cas: stat pack file'' [e]))"

definition pk_ModTime :: "packb \<Rightarrow> digest \<Rightarrow> ('z packst_scheme, int) act" where
  "pk_ModTime b d =
     bnd ctx_Err (\<lambda>_.
     bnd (when_err (CheckDigest d ''pack: mod time'')) (\<lambda>_.
     bnd (live_record b d) (\<lambda>ro.
       case ro of None \<Rightarrow> fs_ModTime (pk_loose b) d | Some r \<Rightarrow> pack_time r d)))"

definition pk_Stat :: "packb \<Rightarrow> digest \<Rightarrow> ('z packst_scheme, int \<times> int) act" where
  "pk_Stat b d =
     bnd ctx_Err (\<lambda>_.
     bnd (when_err (CheckDigest d ''pack: stat'')) (\<lambda>_.
     bnd (live_record b d) (\<lambda>ro.
       case ro of
         None \<Rightarrow> fs_Stat (pk_loose b) d
       | Some r \<Rightarrow> bnd (pack_time r d) (\<lambda>t. ret (Size r, t)))))"

definition pk_Clean :: "packb \<Rightarrow> int \<Rightarrow> ('z packst_scheme, nat \<times> err option) act" where
  "pk_Clean b olderThan =
     bnd ctx_Err (\<lambda>_.
     bnd (fs_Clean (pk_loose b) olderThan) (\<lambda>(removed, eo).
       case eo of
         Some e \<Rightarrow> ret (removed, Some e)
       | None \<Rightarrow>
           bnd (attempt (CleanTemp (packDir b) olderThan)) (\<lambda>x.
             case x of Inl e \<Rightarrow> ret (removed, Some e) | Inr (packed, eo') \<Rightarrow> ret (removed + packed, eo'))))"

definition pk_Close :: "('z packst_scheme, unit) act" where
  "pk_Close =
     bnd get_st (\<lambda>s.
       case packFile s of
         None \<Rightarrow> ret ()
       | Some f \<Rightarrow>
           bnd (attempt (os_Close f)) (\<lambda>x.
           bnd get_st (\<lambda>s1.
           bnd (put_st (s1\<lparr>packFile := None, packFilePath := ''''\<rparr>)) (\<lambda>_. of_result x))))"

section \<open>Batches\<close>

record packRequest =
  rq_digest :: digest
  rq_offset :: int
  rq_size :: int

type_synonym packGroup = "string \<times> packRequest list"

text \<open>The groups in the order their pack first occurs, each request at the end of its group.\<close>

fun add_request :: "string \<Rightarrow> packRequest \<Rightarrow> packGroup list \<Rightarrow> packGroup list" where
  "add_request p q [] = [(p, [q])]"
| "add_request p q ((p', qs) # gs) = (if p' = p then (p', qs @ [q]) # gs else (p', qs) # add_request p q gs)"

fun plan_loop ::
  "packb \<Rightarrow> digest list \<Rightarrow> packGroup list \<Rightarrow> digest list \<Rightarrow> bool \<Rightarrow> ('z packst_scheme, packGroup list \<times> digest list \<times> bool) act" where
  "plan_loop b [] groups loose stale = ret (groups, loose, stale)"
| "plan_loop b (d # ds) groups loose stale =
     bnd (when_err (CheckDigest d ''pack: get many'')) (\<lambda>_.
     bnd get_st (\<lambda>s.
       case map_of (pk_index s) d of
         None \<Rightarrow> plan_loop b ds groups (loose @ [d]) stale
       | Some r \<Rightarrow>
           bnd (wrapping ''cas: validate pack record'' (validPackRecord b r)) (\<lambda>valid.
             if valid
             then plan_loop b ds (add_request (Pack r) \<lparr>rq_digest = d, rq_offset = Offset r, rq_size = Size r\<rparr> groups) loose stale
             else bnd (set_index (AList.delete d (pk_index s))) (\<lambda>_. plan_loop b ds groups (loose @ [d]) True))))"

definition planGetMany :: "packb \<Rightarrow> digest list \<Rightarrow> ('z packst_scheme, packGroup list \<times> digest list) act" where
  "planGetMany b ds =
     bnd (plan_loop b ds [] [] False) (\<lambda>(groups, loose, stale).
       if stale then bnd (persistIndex b) (\<lambda>_. ret (groups, loose)) else ret (groups, loose))"

fun serve_requests ::
  "readcloser \<Rightarrow> packRequest list \<Rightarrow> 'c batch_fn \<Rightarrow> 'c \<Rightarrow> 'b env \<Rightarrow> (unit result \<times> 'c) \<times> 'b env" where
  "serve_requests f [] fn c w = ((Inr (), c), w)"
| "serve_requests f (q # qs) fn c w =
     (case ctx_Err w of
        (Inl e, w1) \<Rightarrow> ((Inl e, c), w1)
      | (Inr _, w1) \<Rightarrow>
          (case fn (rq_digest q) ((section_of f (rq_offset q) (rq_size q))\<lparr>rc_close := None\<rparr>) c of
             (Some e, c') \<Rightarrow> ((Inl e, c'), w1)
           | (None, c') \<Rightarrow> serve_requests f qs fn c' w1))"

definition servePackGroup ::
  "packGroup \<Rightarrow> 'c batch_fn \<Rightarrow> 'c \<Rightarrow> ('z packst_scheme) env \<Rightarrow> (unit result \<times> 'c) \<times> ('z packst_scheme) env" where
  "servePackGroup g fn c w =
     (case os_OpenRead (path_parts (fst g)) w of
        (Inl e, w1) \<Rightarrow> ((Inl (Errorf ''cas: open pack file'' [e]), c), w1)
      | (Inr f, w1) \<Rightarrow>
          (case serve_requests f (snd g) fn c w1 of
             ((x, c'), w2) \<Rightarrow>
               (((case (rc_close f, x) of
                    (Some ce, Inr _) \<Rightarrow> Inl (Errorf ''cas: close pack file'' [ce])
                  | _ \<Rightarrow> x), c'), w2)))"

fun serve_groups ::
  "packGroup list \<Rightarrow> 'c batch_fn \<Rightarrow> 'c \<Rightarrow> ('z packst_scheme) env \<Rightarrow> (unit result \<times> 'c) \<times> ('z packst_scheme) env" where
  "serve_groups [] fn c w = ((Inr (), c), w)"
| "serve_groups (g # gs) fn c w =
     (case servePackGroup g fn c w of
        ((Inl e, c'), w1) \<Rightarrow> ((Inl e, c'), w1)
      | ((Inr _, c'), w1) \<Rightarrow> serve_groups gs fn c' w1)"

definition callBatchFn :: "'c batch_fn \<Rightarrow> digest \<Rightarrow> readcloser \<Rightarrow> 'c \<Rightarrow> err option \<times> 'c" where
  "callBatchFn fn d rc c =
     (case fn d rc c of
        (Some e, c') \<Rightarrow> (Some e, c')
      | (None, c') \<Rightarrow>
          (case rc_close rc of
             None \<Rightarrow> (None, c')
           | Some ce \<Rightarrow> (Some (Errorf (''cas: get many: close '' @ Digest_String d) [ce]), c')))"

fun serve_loose ::
  "packb \<Rightarrow> digest list \<Rightarrow> 'c batch_fn \<Rightarrow> 'c \<Rightarrow> ('z packst_scheme) env \<Rightarrow> (unit result \<times> 'c) \<times> ('z packst_scheme) env" where
  "serve_loose b [] fn c w = ((Inr (), c), w)"
| "serve_loose b (d # ds) fn c w =
     (case ctx_Err w of
        (Inl e, w1) \<Rightarrow> ((Inl e, c), w1)
      | (Inr _, w1) \<Rightarrow>
          (case fs_Get (pk_loose b) d w1 of
             (Inl e, w2) \<Rightarrow> ((Inl (Errorf (''cas: get many: '' @ Digest_String d) [e]), c), w2)
           | (Inr rc, w2) \<Rightarrow>
               (case callBatchFn fn d rc c of
                  (Some e, c') \<Rightarrow> ((Inl e, c'), w2)
                | (None, c') \<Rightarrow> serve_loose b ds fn c' w2)))"

definition pk_GetMany ::
  "packb \<Rightarrow> digest list \<Rightarrow> 'c batch_fn option \<Rightarrow> 'c \<Rightarrow> ('z packst_scheme) env \<Rightarrow> (unit result \<times> 'c) \<times> ('z packst_scheme) env" where
  "pk_GetMany b ds fno c w =
     (case fno of
        None \<Rightarrow> ((Inl (ErrorsNew ''cas: get many: nil fn''), c), w)
      | Some fn \<Rightarrow>
          (case bnd ctx_Err (\<lambda>_. planGetMany b ds) w of
             (Inl e, w1) \<Rightarrow> ((Inl e, c), w1)
           | (Inr (groups, loose), w1) \<Rightarrow>
               (case serve_groups groups fn c w1 of
                  ((Inl e, c'), w2) \<Rightarrow> ((Inl e, c'), w2)
                | ((Inr _, c'), w2) \<Rightarrow> serve_loose b loose fn c' w2)))"

section \<open>Construction\<close>

definition pk_New :: "string \<Rightarrow> (pack_config \<Rightarrow> pack_config) list \<Rightarrow> ('z packst_scheme, packb) act" where
  "pk_New basePath opts =
     bnd (of_result (ValidateBase basePath)) (\<lambda>_.
     bnd (wrapping ''cas: create pack base'' (os_MkdirAll (path_parts basePath))) (\<lambda>_.
       (let pd = filepath_Join basePath ''packs''; ld = filepath_Join basePath ''loose'' in
        bnd (wrapping ''cas: create pack dir'' (ValidateDir (path_parts basePath) (path_parts pd))) (\<lambda>_.
        bnd (wrapping ''cas: create pack dir'' (os_MkdirAll (path_parts pd))) (\<lambda>_.
        bnd (wrapping ''cas: create loose backend'' (ValidateDir (path_parts basePath) (path_parts ld))) (\<lambda>_.
        bnd (wrapping ''cas: create loose backend'' (fs_New ld DefaultFanOut DefaultFanLevels False)) (\<lambda>loose.
          (let b = \<lparr>pk_base = basePath, pk_loose = loose, packDir = pd, pk_cfg = fold (\<lambda>o1. o1) opts default_config\<rparr> in
           bnd get_st (\<lambda>s.
           bnd (put_st (s\<lparr>pk_index := [], packFile := None, packFilePath := '''', packBytes := 0, packEntries := 0\<rparr>)) (\<lambda>_.
           bnd (loadIndex b) (\<lambda>_.
           bnd (ensurePackFile b) (\<lambda>_.
             ret b))))))))))))"

end
