(* ===== verification/Pack_Index.thy ===== *)
theory Pack_Index
  imports Pack_Backend
begin

text \<open>
  The pure part of the packed backend: where its paths point, and what its manifest carries.

  Shown: a joined path is the path of the directory and the name; the record check accepts only paths
  inside the pack directory; a manifest that was written decodes to the index it was written from.
\<close>

section \<open>Paths\<close>

definition plain_name :: "string \<Rightarrow> bool" where
  "plain_name n \<longleftrightarrow> n \<noteq> '''' \<and> n \<noteq> ''.'' \<and> n \<noteq> ''..'' \<and> CHR ''/'' \<notin> set n"

lemma path_parts_Join:
  assumes "plain_name n" "dir \<noteq> ''''"
  shows "path_parts (filepath_Join dir n) = path_parts dir @ [n]"
proof -
  have pre: "HasPrefix (dir @ CHR ''/'' # n) ''/'' = HasPrefix dir ''/''" using assms(2) by (cases dir) (auto simp: HasPrefix_def)
  have "strings_Split (CHR ''/'') (dir @ CHR ''/'' # n) = strings_Split (CHR ''/'') dir @ [n]"
    using assms(1) by (simp add: strings_Split_sep strings_Split_single plain_name_def)
  with pre assms show ?thesis
    by (simp add: filepath_Join_def path_parts_def [of "dir @ _"] clean_parts_append path_parts_def [of dir, symmetric] plain_name_def)
qed

lemma filepath_Join_ne: "filepath_Join dir n \<noteq> ''''"
proof
  assume e: "filepath_Join dir n = ''''"
  define s where "s = (if dir = '''' then n else dir @ ''/'' @ n)"
  have "filepath_Clean s = ''''" using e by (simp add: filepath_Join_def s_def)
  moreover obtain k ns where "path_parts s = replicate k ''..'' @ ns" "set ns \<inter> {'''', ''.'', ''..''} = {}" "HasPrefix s ''/'' \<longrightarrow> k = 0"
    by (rule path_parts_plain)
  then have "'''' \<notin> set (path_parts s)" by (auto split: if_splits)
  ultimately show False
    by (cases "path_parts s" rule: list.exhaust; cases "tl (path_parts s)") (auto simp: filepath_Clean_def split: if_splits)
qed

section \<open>The manifest carries the index\<close>

lemma utf8_ok_ascii: "(\<And>c. c \<in> set s \<Longrightarrow> code c < 0x80) \<Longrightarrow> utf8_ok s"
  by (induction s) (simp add: utf8_ok.simps, subst utf8_ok.simps, simp add: Let_def)

lemma utf8_ok_Digest: "utf8_ok (Digest_String d)"
proof (rule utf8_ok_ascii)
  fix c
  assume "c \<in> set (Digest_String d)"
  then have "c \<in> set ''0123456789abcdef''" using Digest_String_chars by blast
  then show "code c < 0x80" by (auto simp: code_def)
qed

text \<open>The names of the manifest's fields tell each other apart up to case.\<close>

lemma utf8_ok_field [simp]: "utf8_ok ''pack''" "utf8_ok ''offset''" "utf8_ok ''size''" "utf8_ok ''entries''"
  by (rule utf8_ok_ascii, auto simp: code_def)+

lemma field_names [simp]:
  "field_is ''pack'' ''pack''" "field_is ''offset'' ''offset''" "field_is ''size'' ''size''" "field_is ''entries'' ''entries''"
  "\<not> field_is ''offset'' ''pack''" "\<not> field_is ''size'' ''pack''" "\<not> field_is ''size'' ''offset''"
  by (simp_all add: field_is_def to_upper_def Let_def code_def)

text \<open>What the manifest can carry: a path of well-formed runes, numbers of 64 bits, one record for a digest.\<close>

definition record_fits :: "packRecord \<Rightarrow> bool" where
  "record_fits r \<longleftrightarrow> utf8_ok (Pack r) \<and> - (2 ^ 63) \<le> Offset r \<and> Offset r < 2 ^ 63 \<and> - (2 ^ 63) \<le> Size r \<and> Size r < 2 ^ 63"

definition index_fits :: "(digest \<times> packRecord) list \<Rightarrow> bool" where
  "index_fits idx \<longleftrightarrow> distinct (map fst idx) \<and> list_all (\<lambda>(d, r). record_fits r) idx"

lemma decode_record_json: "record_fits r \<Longrightarrow> decode_entry (record_json r) = Some r"
  by (simp add: decode_entry_def record_json_def set_string_def set_int_def record_fits_def ParseInt_Itoa)

lemma decode_entries_json:
  "distinct (map fst es) \<Longrightarrow> fst ` set es \<inter> fst ` set m = {} \<Longrightarrow> list_all (\<lambda>(k, r). record_fits r) es \<Longrightarrow>
    decode_entries m (map (\<lambda>(k, r). (k, record_json r)) es) = Some (m @ es)"
proof (induction es arbitrary: m)
  case (Cons e es)
  obtain k r where e: "e = (k, r)" by fastforce
  have "k \<notin> fst ` set m" using Cons.prems(2) e by auto
  then have "AList.update k r m = m @ [(k, r)]" by (induction m) auto
  with Cons e show ?case by (auto simp: decode_record_json)
qed simp

lemma manifest_entries_keys:
  assumes "distinct (map fst idx)"
  shows "distinct (map fst (manifest_entries idx))"
proof -
  have "distinct (map fst (map (\<lambda>(key, r). (Digest_String key, r)) idx))"
    using assms by (auto simp: distinct_map inj_on_def case_prod_beta)
  then show ?thesis unfolding manifest_entries_def by (rule distinct_sort_key)
qed

lemma manifest_entries_set: "set (manifest_entries idx) = (\<lambda>(key, r). (Digest_String key, r)) ` set idx"
  by (simp add: manifest_entries_def)

lemma record_json_ok: "record_fits r \<Longrightarrow> json_ok (record_json r)"
  by (auto simp: record_json_def record_fits_def)

lemma manifest_json_ok:
  assumes "index_fits idx"
  shows "json_ok (manifest_json idx)"
proof -
  have "members_ok (map (\<lambda>(k, r). (k, record_json r)) es)" if "set es \<subseteq> set (manifest_entries idx)" for es
    using that assms
    by (induction es) (auto simp: manifest_entries_set index_fits_def list_all_iff utf8_ok_Digest record_json_ok)
  then show ?thesis by (simp add: manifest_json_def)
qed

lemma manifest_json_depth: "json_depth (manifest_json idx) \<le> 3"
proof -
  have "members_depth (map (\<lambda>(k, r). (k, record_json r)) es) \<le> 1" for es
    by (induction es) (auto simp: record_json_def)
  then show ?thesis by (simp add: manifest_json_def)
qed

lemma decode_manifest_written:
  assumes "index_fits idx"
  shows "decode_manifest (json_MarshalIndent (manifest_json idx)) = Some (manifest_entries idx)"
proof -
  have "json_Parse (json_MarshalIndent (manifest_json idx)) = Some (manifest_json idx)"
    using json_roundtrip(2) [OF manifest_json_ok [OF assms]] manifest_json_depth [of idx]
    by (simp add: maxNestingDepth_def)
  moreover have "list_all (\<lambda>(k, r). record_fits r) (manifest_entries idx)"
    using assms by (auto simp: list_all_iff manifest_entries_set index_fits_def)
  then have "decode_entries [] (map (\<lambda>(k, r). (k, record_json r)) (manifest_entries idx)) = Some (manifest_entries idx)"
    using decode_entries_json [of "manifest_entries idx" "[]"] manifest_entries_keys assms by (simp add: index_fits_def)
  ultimately show ?thesis
    by (simp add: decode_manifest_def manifest_json_def)
qed

text \<open>
  Numbers of any size: a manifest with one that has no 64 bits does not decode, so what decodes is what was written.
\<close>

lemma ParseInt_Itoa_only: "ParseInt (Itoa i) = Some j \<Longrightarrow> j = i"
proof (cases "i < 0")
  case True
  then have "Itoa i = CHR ''-'' # dec (nat (- i))" "digits_value 0 (dec (nat (- i))) = Some (nat (- i))"
    by (simp_all add: Itoa_def digits_value_dec)
  then show "ParseInt (Itoa i) = Some j \<Longrightarrow> j = i" using True by (auto simp: ParseInt_def split: if_splits)
next
  case False
  obtain c t where d: "dec (nat i) = c # t" by (cases "dec (nat i)") simp_all
  have "digits_value 0 (c # t) = Some (nat i)" using digits_value_dec [of "nat i"] d by simp
  moreover have "c \<noteq> CHR ''+''" "c \<noteq> CHR ''-''" using dec_hd [of "nat i"] d by simp_all
  ultimately show "ParseInt (Itoa i) = Some j \<Longrightarrow> j = i" using False d
    by (auto simp: ParseInt_def Itoa_def simp del: digits_value.simps split: if_splits)
qed

lemma decode_record_only: "decode_entry (record_json r) = Some r' \<Longrightarrow> r' = r"
  by (auto simp: decode_entry_def record_json_def set_string_def set_int_def dest!: ParseInt_Itoa_only split: option.splits)

lemma decode_entries_only:
  "distinct (map fst es) \<Longrightarrow> fst ` set es \<inter> fst ` set m = {} \<Longrightarrow>
    decode_entries m (map (\<lambda>(k, r). (k, record_json r)) es) = Some m' \<Longrightarrow> m' = m @ es"
proof (induction es arbitrary: m)
  case (Cons e es)
  obtain k r where e: "e = (k, r)" by fastforce
  have "k \<notin> fst ` set m" using Cons.prems(2) e by auto
  then have upd: "AList.update k r m = m @ [(k, r)]" by (induction m) auto
  from Cons.prems(3) e obtain r' where r': "decode_entry (record_json r) = Some r'"
    "decode_entries (AList.update k r' m) (map (\<lambda>(k, r). (k, record_json r)) es) = Some m'" by (auto split: option.splits)
  have "r' = r" by (rule decode_record_only [OF r'(1)])
  with r'(2) upd have "decode_entries (m @ [(k, r)]) (map (\<lambda>(k, r). (k, record_json r)) es) = Some m'" by simp
  then have "m' = (m @ [(k, r)]) @ es" by (rule Cons.IH [rotated 2]) (use Cons.prems e in auto)
  then show ?case using e by simp
qed simp

lemma decode_manifest_only:
  assumes "distinct (map fst idx)" "\<forall>e \<in> set idx. utf8_ok (Pack (snd e))"
    "decode_manifest (json_MarshalIndent (manifest_json idx)) = Some m"
  shows "m = manifest_entries idx"
proof -
  have "json_ok (record_json r)" if "utf8_ok (Pack r)" for r using that by (auto simp: record_json_def)
  then have "members_ok (map (\<lambda>(k, r). (k, record_json r)) es)" if "set es \<subseteq> set (manifest_entries idx)" for es
    using that assms(2) by (induction es) (auto simp: manifest_entries_set utf8_ok_Digest)
  then have "json_ok (manifest_json idx)" by (simp add: manifest_json_def)
  then have "json_Parse (json_MarshalIndent (manifest_json idx)) = Some (manifest_json idx)"
    using json_roundtrip(2) manifest_json_depth [of idx] by (simp add: maxNestingDepth_def)
  with assms(3) have "decode_entries [] (map (\<lambda>(k, r). (k, record_json r)) (manifest_entries idx)) = Some m"
    by (auto simp: decode_manifest_def manifest_json_def split: option.splits)
  from decode_entries_only [OF manifest_entries_keys [OF assms(1)] _ this] show ?thesis by simp
qed

section \<open>Well-formed paths\<close>

lemma utf8_ok_append: "utf8_ok s \<Longrightarrow> utf8_ok t \<Longrightarrow> utf8_ok (s @ t)"
proof (induction s rule: utf8_ok.induct)
  case (1 s)
  show ?case
  proof (cases "s = []")
    case False
    with "1.prems"(1) have n: "utf8_size s \<noteq> 0" "utf8_ok (drop (utf8_size s) s)" by (simp_all add: utf8_ok.simps [of s] split: if_splits)
    then have IH: "utf8_ok (drop (utf8_size s) s @ t)" using "1.IH" False "1.prems"(2) by blast
    have "utf8_size (take (utf8_size s) s @ drop (utf8_size s) s @ t) = utf8_size s" using n(1) by (intro utf8_size_prefix) auto
    then have "utf8_size (s @ t) = utf8_size s" by (metis append.assoc append_take_drop_id)
    with IH n False show ?thesis by (simp add: utf8_ok.simps [of "s @ t"] utf8_size_le)
  qed (use "1.prems" in simp)
qed

lemma strings_Join_snoc: "ps \<noteq> [] \<Longrightarrow> strings_Join (ps @ [p]) sep = strings_Join ps sep @ sep # p"
  by (induction ps sep rule: strings_Join.induct) (auto simp: strings_Join_Cons)

lemma filepath_Join_Clean:
  assumes "plain_name n" "path_parts s \<noteq> []"
  shows "filepath_Join (filepath_Clean s) n = filepath_Clean s @ ''/'' @ n"
proof -
  let ?d = "filepath_Clean s"
  have "?d \<noteq> ''''"
  proof
    assume "?d = ''''"
    then have "path_parts ?d = []" by (simp add: path_parts_def HasPrefix_def)
    with assms(2) show False by simp
  qed
  have "path_parts (?d @ ''/'' @ n) = path_parts s @ [n]"
    using path_parts_Join [OF assms(1) \<open>?d \<noteq> ''''\<close>] \<open>?d \<noteq> ''''\<close> by (simp add: filepath_Join_def)
  moreover have "HasPrefix (?d @ ''/'' @ n) ''/'' = HasPrefix s ''/''"
    using HasPrefix_Clean [of s] \<open>?d \<noteq> ''''\<close> by (cases ?d) (auto simp: HasPrefix_def)
  moreover have "filepath_Clean t = filepath_Clean s @ ''/'' @ n"
    if "path_parts t = path_parts s @ [n]" "HasPrefix t ''/'' = HasPrefix s ''/''" for t
    using that assms(2) by (simp add: filepath_Clean_def strings_Join_snoc)
  ultimately have "filepath_Clean (?d @ ''/'' @ n) = filepath_Clean s @ ''/'' @ n" by blast
  then show ?thesis using \<open>?d \<noteq> ''''\<close> by (simp add: filepath_Join_def)
qed

lemma utf8_ok_Join:
  assumes "plain_name n" "path_parts s \<noteq> []" "utf8_ok (filepath_Clean s)" "utf8_ok n"
  shows "utf8_ok (filepath_Join (filepath_Clean s) n)"
proof -
  have "utf8_ok ''/''" by (rule utf8_ok_ascii) (simp add: code_def)
  then show ?thesis unfolding filepath_Join_Clean [OF assms(1,2)] by (intro utf8_ok_append assms)
qed

end
