(* ===== verification/Pack_Safety.thy ===== *)
theory Pack_Safety
  imports Pack_Index Fs_Maintenance
begin

text \<open>
  Safety of the packed backend under every schedule. The invariant \<open>pack_inv H E b\<close> ties the tree and the
  in-memory index to a history \<open>H\<close> of the contents that were ever put under each digest: a record of the
  index, of the manifest on disk or of the set \<open>E\<close> of records a caller holds on to points into a pack file at
  content of the history, and so does every loose object. Pack files only grow, so a record once right stays right.
\<close>

section \<open>The backend a constructor returns\<close>

definition wf_packb :: "packb \<Rightarrow> bool" where
  "wf_packb b \<longleftrightarrow> ValidateBase (pk_base b) = Inr () \<and> packDir b = filepath_Join (pk_base b) ''packs'' \<and>
     pk_loose b = fs_default (path_parts (pk_base b) @ [''loose'']) False"

definition pack_path :: "packb \<Rightarrow> string \<Rightarrow> path" where
  "pack_path b x = path_parts (packDir b) @ [x]"

definition is_pack :: "string \<Rightarrow> bool" where
  "is_pack x \<longleftrightarrow> HasSuffix x ''.pack'' \<and> CHR ''/'' \<notin> set x \<and> utf8_ok x"

lemma is_pack_plain: "is_pack x \<Longrightarrow> plain_name x"
  by (auto simp: is_pack_def plain_name_def HasSuffix_def)

lemma last_pack: "is_pack x \<Longrightarrow> last x = CHR ''k''"
  by (auto simp: is_pack_def HasSuffix_iff)

lemma ValidateBase_ne: "ValidateBase s = Inr () \<Longrightarrow> s \<noteq> ''''"
  by (auto simp: ValidateBase_def TrimSpace_def)

lemma plain_dirs [simp]: "plain_name ''packs''" "plain_name ''loose''" "plain_name ''index.json''" "is_pack ''current.pack''"
proof -
  have "utf8_ok ''current.pack''" by (rule utf8_ok_ascii) (auto simp: code_def)
  then show "plain_name ''packs''" "plain_name ''loose''" "plain_name ''index.json''" "is_pack ''current.pack''"
    by (simp_all add: plain_name_def is_pack_def HasSuffix_def)
qed

lemma wf_dirs:
  assumes "wf_packb b"
  shows "path_parts (packDir b) = path_parts (pk_base b) @ [''packs'']" "base (pk_loose b) = path_parts (pk_base b) @ [''loose'']"
    "sane_layout (pk_loose b)" "packDir b \<noteq> ''''"
  using assms ValidateBase_ne by (auto simp: wf_packb_def path_parts_Join filepath_Join_ne)

lemma join_path: "wf_packb b \<Longrightarrow> plain_name x \<Longrightarrow> path_parts (filepath_Join (packDir b) x) = pack_path b x"
  by (simp add: path_parts_Join wf_dirs pack_path_def)

lemma manifest_path: "wf_packb b \<Longrightarrow> path_parts (manifestPath b) = pack_path b ''index.json''"
  by (simp add: manifestPath_def join_path)

lemma pack_path_simps [simp]: "pack_path b x \<noteq> []" "pack_path b x = pack_path b y \<longleftrightarrow> x = y" "last (pack_path b x) = x"
  "butlast (pack_path b x) = path_parts (packDir b)"
  by (simp_all add: pack_path_def)

text \<open>The two halves of the base are disjoint.\<close>

lemma pack_not_loose:
  assumes "wf_packb b"
  shows "pack_path b x \<noteq> canon (pk_loose b) d" "pack_path b x \<noteq> temp_name (canon (pk_loose b) d) i"
    "pack_path b x \<notin> set (parents (canon (pk_loose b) d))"
proof -
  let ?n = "length (path_parts (pk_base b))"
  have x: "length (pack_path b x) = ?n + 2" "pack_path b x ! ?n = ''packs''"
    using wf_dirs(1) [OF assms] by (simp_all add: pack_path_def nth_append)
  obtain rest where c: "canon (pk_loose b) d = path_parts (pk_base b) @ ''loose'' # rest @ [Digest_String d]"
    using wf_dirs(2) [OF assms] by (auto simp: canon_def)
  then have "canon (pk_loose b) d ! ?n = ''loose''" "temp_name (canon (pk_loose b) d) i ! ?n = ''loose''"
    by (simp_all add: temp_name_def butlast_append nth_append)
  moreover have "''packs'' \<noteq> ''loose''" by simp
  ultimately show "pack_path b x \<noteq> canon (pk_loose b) d" "pack_path b x \<noteq> temp_name (canon (pk_loose b) d) i"
    using x(2) by metis+
  show "pack_path b x \<notin> set (parents (canon (pk_loose b) d))"
  proof
    assume "pack_path b x \<in> set (parents (canon (pk_loose b) d))"
    then obtain r where "canon (pk_loose b) d = pack_path b x @ r" by (auto simp: set_parents)
    then have "canon (pk_loose b) d ! ?n = pack_path b x ! ?n" using x(1) by (simp add: nth_append)
    with x(2) c show False by (simp add: nth_append)
  qed
qed

section \<open>The invariant\<close>

type_synonym history = "digest \<Rightarrow> bytes set"

definition record_slice :: "packRecord \<Rightarrow> bytes \<Rightarrow> bytes" where
  "record_slice r c = take (nat (Size r)) (drop (nat (Offset r)) c)"

definition sound_record :: "history \<Rightarrow> packb \<Rightarrow> 'z osfs_scheme \<Rightarrow> digest \<times> packRecord \<Rightarrow> bool" where
  "sound_record H b s e \<longleftrightarrow>
     (\<exists>x c t. is_pack x \<and> Pack (snd e) = filepath_Join (packDir b) x \<and> node_at s (pack_path b x) = Some (Reg c t) \<and>
        0 \<le> Offset (snd e) \<and> 0 \<le> Size (snd e) \<and> Offset (snd e) + Size (snd e) \<le> int (length c) \<and>
        record_slice (snd e) c \<in> H (fst e))"

definition handle_ok :: "packb \<Rightarrow> 'z packst_scheme \<Rightarrow> bool" where
  "handle_ok b s \<longleftrightarrow>
     (\<forall>f. packFile s = Some f \<longrightarrow>
        (\<exists>x c t. is_pack x \<and> f = pack_path b x \<and> packFilePath s = filepath_Join (packDir b) x \<and> node_at s f = Some (Reg c t)))"

text \<open>Nobody put a device or a pipe in the place of a pack: the path check of the code lets those through.\<close>

definition no_special :: "packb \<Rightarrow> 'z osfs_scheme \<Rightarrow> bool" where
  "no_special b s \<longleftrightarrow> (\<forall>x. is_pack x \<longrightarrow> node_at s (pack_path b x) \<noteq> Some Special)"

definition manifest_ok :: "history \<Rightarrow> packb \<Rightarrow> 'z osfs_scheme \<Rightarrow> bool" where
  "manifest_ok H b s \<longleftrightarrow>
     (\<forall>c t. node_at s (pack_path b ''index.json'') = Some (Reg c t) \<longrightarrow>
        (\<exists>idx. c = json_MarshalIndent (manifest_json idx) \<and> distinct (map fst idx) \<and> (\<forall>e \<in> set idx. sound_record H b s e)))"

definition loose_ok :: "history \<Rightarrow> packb \<Rightarrow> 'z osfs_scheme \<Rightarrow> bool" where
  "loose_ok H b s \<longleftrightarrow> (\<forall>d c. fs_abs (pk_loose b) s d = Some c \<longrightarrow> c \<in> H d)"

definition pack_inv :: "history \<Rightarrow> (digest \<times> packRecord) set \<Rightarrow> packb \<Rightarrow> 'z packst_scheme \<Rightarrow> bool" where
  "pack_inv H E b s \<longleftrightarrow> handle_ok b s \<and> no_special b s \<and> distinct (map fst (pk_index s)) \<and> (\<forall>e \<in> set (pk_index s) \<union> E. sound_record H b s e) \<and>
     manifest_ok H b s \<and> loose_ok H b s"

text \<open>Pack files that grow keep every record.\<close>

definition packs_grow :: "packb \<Rightarrow> 'z osfs_scheme \<Rightarrow> 'z osfs_scheme \<Rightarrow> bool" where
  "packs_grow b s s' \<longleftrightarrow>
     (\<forall>x. is_pack x \<longrightarrow>
        (\<forall>c t. node_at s (pack_path b x) = Some (Reg c t) \<longrightarrow> (\<exists>c' t'. node_at s' (pack_path b x) = Some (Reg (c @ c') t'))) \<and>
        (node_at s' (pack_path b x) = Some Special \<longrightarrow> node_at s (pack_path b x) = Some Special))"

lemma sound_record_grow:
  assumes "sound_record H b s e" "packs_grow b s s'"
  shows "sound_record H b s' e"
proof -
  from assms(1) obtain x c t where x: "is_pack x" "Pack (snd e) = filepath_Join (packDir b) x" "node_at s (pack_path b x) = Some (Reg c t)"
    "0 \<le> Offset (snd e)" "0 \<le> Size (snd e)" "Offset (snd e) + Size (snd e) \<le> int (length c)" "record_slice (snd e) c \<in> H (fst e)"
    by (auto simp: sound_record_def)
  from assms(2) x(1,3) obtain c' t' where c': "node_at s' (pack_path b x) = Some (Reg (c @ c') t')"
    unfolding packs_grow_def by blast
  have "nat (Size (snd e)) \<le> length c - nat (Offset (snd e))" using x(4-6) by linarith
  then have "record_slice (snd e) (c @ c') = record_slice (snd e) c" by (simp add: record_slice_def)
  with x c' show ?thesis unfolding sound_record_def
    by (intro exI [of _ x] exI [of _ "c @ c'"] exI [of _ t']) simp
qed

lemma packst_more:
  assumes "osfs.more s' = osfs.more s"
  shows "pk_index s' = pk_index s" "packFile s' = packFile s" "packFilePath s' = packFilePath s" "packBytes s' = packBytes s"
    "packEntries s' = packEntries s" "pk_random s' = pk_random s"
  using assms by (cases s; cases s'; simp)+

lemma pack_inv_grow:
  assumes "pack_inv H E b s" "packs_grow b s s'" "osfs.more s' = osfs.more s" "manifest_ok H b s'" "loose_ok H b s'"
  shows "pack_inv H E b s'"
proof -
  have "handle_ok b s'"
    unfolding handle_ok_def packst_more [OF assms(3)]
  proof (intro allI impI)
    fix f
    assume "packFile s = Some f"
    then obtain x c t where x: "is_pack x" "f = pack_path b x" "packFilePath s = filepath_Join (packDir b) x" "node_at s f = Some (Reg c t)"
      using assms(1) by (auto simp: pack_inv_def handle_ok_def)
    moreover obtain c' t' where "node_at s' f = Some (Reg (c @ c') t')"
      using assms(2) x(1,2,4) unfolding packs_grow_def by blast
    ultimately show "\<exists>x c t. is_pack x \<and> f = pack_path b x \<and> packFilePath s = filepath_Join (packDir b) x \<and> node_at s' f = Some (Reg c t)"
      by blast
  qed
  moreover have "no_special b s'" using assms(1,2) unfolding pack_inv_def no_special_def packs_grow_def by blast
  ultimately show ?thesis
    using assms sound_record_grow [OF _ assms(2)] packst_more(1) [OF assms(3)] unfolding pack_inv_def by simp
qed

lemma pack_inv_tree:
  assumes "pack_inv H E b s" "packs_grow b s s'" "osfs.more s' = osfs.more s"
    "node_at s' (pack_path b ''index.json'') = node_at s (pack_path b ''index.json'')"
    "loose_ok H b s'"
  shows "pack_inv H E b s'"
proof (rule pack_inv_grow [OF assms(1-3) _ assms(5)])
  show "manifest_ok H b s'"
    using assms(1,4) sound_record_grow [OF _ assms(2)] unfolding pack_inv_def manifest_ok_def by metis
qed

lemma packs_grow_same: "(\<And>x. is_pack x \<Longrightarrow> node_at s' (pack_path b x) = node_at s (pack_path b x)) \<Longrightarrow> packs_grow b s s'"
  by (fastforce simp: packs_grow_def intro: exI [of _ "[]"])

lemma control_free_pack [simp, intro]: "control_free (pack_inv H E b)"
proof -
  have *: "pack_inv H E b s'" if "pack_inv H E b s" "node_at s' = node_at s" "osfs.more s' = osfs.more s" for s s' :: "'a packst_scheme"
  proof (rule pack_inv_tree [OF that(1) _ that(3)])
    show "packs_grow b s s'" by (rule packs_grow_same) (simp add: that)
    show "loose_ok H b s'" using that(1,2) by (simp add: pack_inv_def loose_ok_def fs_abs_def)
  qed (simp add: that)
  show ?thesis unfolding control_free_def by (auto elim!: *)
qed

text \<open>A path of the pack directory that is neither a pack nor the manifest.\<close>

definition neutral :: "packb \<Rightarrow> path \<Rightarrow> bool" where
  "neutral b p \<longleftrightarrow> (\<exists>x. p = pack_path b x \<and> \<not> is_pack x \<and> x \<noteq> ''index.json'')"

lemma neutral_temp: "neutral b (path_parts (packDir b) @ [pre @ dec n @ ''.tmp''])"
  using last_pack [of "pre @ dec n @ ''.tmp''"]
  by (auto simp: neutral_def pack_path_def append_eq_append_conv2 dest: arg_cong [where f = last])

lemma loose_frame:
  assumes "loose_ok H b s" "\<And>d. node_at s' (canon (pk_loose b) d) = node_at s (canon (pk_loose b) d)"
  shows "loose_ok H b s'"
  using assms by (simp add: loose_ok_def fs_abs_def)

lemma set_more [simp]: "osfs.more (set_node p n s) = osfs.more s" "osfs.more (del_node p s) = osfs.more s" "osfs.more (append_at p c s) = osfs.more s"
  by (simp_all add: set_node_def del_node_def append_at_def split: option.split node.split)

lemma pack_inv_neutral:
  assumes "wf_packb b" "pack_inv H E b s" "neutral b p"
  shows "pack_inv H E b (set_node p n s)" "pack_inv H E b (del_node p s)"
proof -
  obtain x where x: "p = pack_path b x" "\<not> is_pack x" "x \<noteq> ''index.json''" using assms(3) by (auto simp: neutral_def)
  have loose: "loose_ok H b s" using assms(2) by (simp add: pack_inv_def)
  have "canon (pk_loose b) d \<noteq> p" for d using pack_not_loose(1) [OF assms(1)] x(1) by metis
  then show "pack_inv H E b (set_node p n s)" "pack_inv H E b (del_node p s)"
    by (auto intro!: pack_inv_tree [OF assms(2)] packs_grow_same loose_frame [OF loose] simp: x)
qed

section \<open>Calls\<close>

lemma keeps_modify: "(\<And>s. I s \<Longrightarrow> I (f s)) \<Longrightarrow> keeps I (bnd get_st (\<lambda>s. put_st (f s)))"
  by (simp add: keeps_def bnd_def get_st_def put_st_def)

lemma keeps_bnd_get:
  assumes "\<And>s. I s \<Longrightarrow> J s s" "\<And>s0. I s0 \<Longrightarrow> keeps (J s0) (f s0)" "\<And>s0 s. J s0 s \<Longrightarrow> I s"
  shows "keeps I (bnd get_st f)"
  using assms unfolding keeps_def bnd_def get_st_def by simp metis

lemma keeps_deferring: "keeps I m \<Longrightarrow> keeps I c \<Longrightarrow> keeps I (deferring m c)"
  by (auto simp: keeps_def deferring_def split: prod.splits)

lemma keeps_plain_call: "control_free I \<Longrightarrow> keeps I (syscall (\<lambda>s. (x s, s)))"
  by (rule keeps_syscall) simp_all

lemma keeps_os_FileSize [keeps_intros]: "control_free I \<Longrightarrow> keeps I (os_FileSize p)"
  unfolding os_FileSize_def by (rule keeps_plain_call)

lemma keeps_os_Rewind [keeps_intros]: "control_free I \<Longrightarrow> keeps I (os_Rewind p)"
  unfolding os_Rewind_def by (rule keeps_plain_call)

lemma keeps_file_stream [keeps_intros]: "keeps I (file_stream p)"
  by (simp add: keeps_def file_stream_def)

lemma os_WriteAll_spec:
  assumes "os_WriteAll p c w = (x, w')"
  shows "\<exists>k pl. est w' = (append_at p (take k c) (est w))\<lparr>wplan := pl\<rparr> \<and> (x = Inr () \<longrightarrow> k = length c)"
proof (cases "crashed (est w)")
  case True
  with assms show ?thesis
    by (auto simp: os_WriteAll_def intro!: exI [of _ 0] exI [of _ "wplan (est w)"]) (simp add: append_at_def split: option.splits node.splits)
next
  case False
  obtain eo wr w1 where c: "WriteAll c \<lparr>w_out = [], w_plan = wplan (est w)\<rparr> w = (Inr (eo, wr), w1)"
    using WriteAll_total [of c "\<lparr>w_out = [], w_plan = wplan (est w)\<rparr>" w] by (metis prod.collapse)
  from WriteAll_out [OF c] obtain n where n: "est w1 = est w" "w_out wr = take n c" "eo = None \<longrightarrow> n = length c" by auto
  show ?thesis
    using assms False c n by (intro exI [of _ n] exI [of _ "w_plan wr"]) (cases eo; auto simp: os_WriteAll_def Let_def)
qed

lemma keeps_os_WriteAll:
  assumes "control_free I" "\<And>s c t b. I s \<Longrightarrow> node_at s p = Some (Reg c t) \<Longrightarrow> I (set_node p (Reg (c @ b) (os_now s)) s)"
  shows "keeps I (os_WriteAll p data)"
proof (rule keepsI)
  fix w :: "'a osfs_scheme env"
  assume I: "I (est w)"
  obtain x w' where c: "os_WriteAll p data w = (x, w')" by fastforce
  from os_WriteAll_spec [OF c] obtain k pl where e: "est w' = (append_at p (take k data) (est w))\<lparr>wplan := pl\<rparr>" by blast
  have "I (append_at p (take k data) (est w))"
    using I assms(2) by (auto simp: append_at_def split: option.splits node.splits)
  with assms(1) e c show "I (est (snd (os_WriteAll p data w)))" by (simp add: control_free_def)
qed

text \<open>Temporary files of the pack directory.\<close>

lemma keeps_next_random: "(\<And>s xs. I s \<Longrightarrow> I (s\<lparr>pk_random := xs\<rparr>)) \<Longrightarrow> keeps I next_random"
  by (auto simp: keeps_def next_random_def bnd_def get_st_def put_st_def ret_def split: list.splits)

lemma keeps_create_temp:
  assumes "\<And>s xs. I s \<Longrightarrow> I (s\<lparr>pk_random := xs\<rparr>)" "\<And>x. keeps I (os_OpenExcl (dir @ [pre @ dec x @ ''.tmp'']))"
  shows "keeps I (create_temp n dir pre)"
proof (induction n)
  case (Suc n)
  show ?case
    unfolding create_temp.simps Let_def by (intro keeps_bnd keeps_next_random assms keeps_catch keeps_ret keeps_if Suc keeps_fail)
qed (simp add: keeps_fail)

lemma create_temp_ok:
  "create_temp n dir pre w = (Inr p, w') \<Longrightarrow> (\<exists>x. p = dir @ [pre @ dec x @ ''.tmp'']) \<and> (\<exists>t. node_at (est w') p = Some (Reg [] t))"
proof (induction n arbitrary: w)
  case (Suc n)
  then obtain x w1 where x: "next_random w = (Inr x, w1)"
    "catch (bnd (os_OpenExcl (dir @ [pre @ dec x @ ''.tmp''])) (\<lambda>_. ret (dir @ [pre @ dec x @ ''.tmp''])))
       (\<lambda>e. if errors_Is e ErrExist then create_temp n dir pre else fail e) w1 = (Inr p, w')"
    by (auto simp: bnd_ok Let_def)
  obtain y w2 where y: "os_OpenExcl (dir @ [pre @ dec x @ ''.tmp'']) w1 = (y, w2)" by fastforce
  show ?case
  proof (cases y)
    case (Inr u)
    with x(2) y have "p = dir @ [pre @ dec x @ ''.tmp'']" "w' = w2" by (auto simp: catch_def bnd_def ret_def)
    with os_OpenExcl_ok [of p w1 u w2] y Inr show ?thesis by auto
  next
    case (Inl e)
    with x(2) y have "create_temp n dir pre w2 = (Inr p, w')" by (auto simp: catch_def bnd_def fail_def split: if_splits)
    then show ?thesis by (rule Suc.IH)
  qed
qed (simp add: fail_def)

lemma node_at_fields [simp]:
  "node_at (s\<lparr>pk_index := idx\<rparr>) = node_at s" "node_at (s\<lparr>packFile := f\<rparr>) = node_at s" "node_at (s\<lparr>packFilePath := p\<rparr>) = node_at s"
  "node_at (s\<lparr>packBytes := n\<rparr>) = node_at s" "node_at (s\<lparr>packEntries := n\<rparr>) = node_at s" "node_at (s\<lparr>pk_random := xs\<rparr>) = node_at s"
  by (simp_all add: node_at_def fun_eq_iff)

lemma tree_cong:
  assumes "node_at s' = node_at s"
  shows "sound_record H b s' = sound_record H b s" "manifest_ok H b s' = manifest_ok H b s" "loose_ok H b s' = loose_ok H b s"
    "no_special b s' = no_special b s"
  using assms by (simp_all add: no_special_def sound_record_def [abs_def] manifest_ok_def loose_ok_def fs_abs_def [abs_def])

lemma pack_inv_fields [simp]:
  "pack_inv H E b (s\<lparr>pk_random := xs\<rparr>) = pack_inv H E b s" "pack_inv H E b (s\<lparr>packBytes := n\<rparr>) = pack_inv H E b s"
  "pack_inv H E b (s\<lparr>packBytes := n, packEntries := m\<rparr>) = pack_inv H E b s"
  by (simp_all add: pack_inv_def handle_ok_def tree_cong [of "s\<lparr>pk_random := xs\<rparr>" s] tree_cong [of "s\<lparr>packBytes := n\<rparr>" s]
      tree_cong [of "s\<lparr>packBytes := n, packEntries := m\<rparr>" s])

lemma neutral_calls:
  assumes "wf_packb b" "neutral b p"
  shows "keeps (pack_inv H E b) (os_OpenExcl p)" "keeps (pack_inv H E b) (os_Remove p)" "keeps (pack_inv H E b) (os_Write p c)"
    "keeps (pack_inv H E b) (os_Copy p r)" "keeps (pack_inv H E b) (discard p)"
proof -
  show "keeps (pack_inv H E b) (os_Remove p)"
    by (intro keeps_os_Remove control_free_pack pack_inv_neutral(2) assms)
  then show "keeps (pack_inv H E b) (discard p)" unfolding discard_def by (intro keeps_intros control_free_pack)
qed (intro keeps_os_OpenExcl keeps_os_Write keeps_os_Copy control_free_pack pack_inv_neutral(1) assms; assumption)+

lemma keeps_CreateTemp: "wf_packb b \<Longrightarrow> keeps (pack_inv H E b) (os_CreateTemp (path_parts (packDir b)) pre)"
  unfolding os_CreateTemp_def by (intro keeps_create_temp neutral_calls(1) neutral_temp) simp_all

lemma CreateTemp_ok:
  assumes "os_CreateTemp (path_parts (packDir b)) pre w = (Inr p, w')"
  shows "neutral b p \<and> (\<exists>t. node_at (est w') p = Some (Reg [] t))"
  using create_temp_ok [OF assms [unfolded os_CreateTemp_def]] neutral_temp by blast

section \<open>The manifest is replaced whole\<close>

text \<open>A written temporary file, renamed onto the manifest.\<close>

lemma pack_inv_publish:
  assumes "wf_packb b" "pack_inv H E b s" "neutral b tmp" "distinct (map fst idx)" "\<forall>e \<in> set idx. sound_record H b s e"
  shows "pack_inv H E b (del_node tmp (set_node (pack_path b ''index.json'') (Reg (json_MarshalIndent (manifest_json idx)) t) s))"
    (is "pack_inv H E b (del_node tmp ?s)")
proof (rule pack_inv_neutral(2) [OF assms(1) _ assms(3)])
  have grow: "packs_grow b s ?s" by (rule packs_grow_same) (auto simp: is_pack_def HasSuffix_def)
  have "loose_ok H b s" using assms(2) by (simp add: pack_inv_def)
  then have "loose_ok H b ?s" by (rule loose_frame) (use pack_not_loose(1) [OF assms(1), symmetric] in auto)
  moreover have "manifest_ok H b ?s"
    using assms(4,5) sound_record_grow [OF _ grow] by (auto simp: manifest_ok_def intro!: exI [of _ idx])
  ultimately show "pack_inv H E b ?s" by (intro pack_inv_grow [OF assms(2) grow]) simp_all
qed

lemma keeps_rename_retry: "keeps I (os_Rename tmp p) \<Longrightarrow> keeps I (os_Stat tmp) \<Longrightarrow> keeps I (rename_retry n tmp p e)"
proof (induction n arbitrary: e)
  case (Suc n)
  show ?case
    by (simp only: rename_retry.simps, rule keeps_bnd [OF keeps_attempt [OF Suc.prems(1)]])
      (auto intro!: keeps_ret keeps_bnd [OF keeps_attempt [OF Suc.prems(2)]] Suc keeps_fail split: sum.split)
qed (simp add: keeps_fail)

text \<open>While it is being written and renamed the temporary file is what was written, or gone.\<close>

definition staged :: "path \<Rightarrow> bytes \<Rightarrow> 'z osfs_scheme \<Rightarrow> bool" where
  "staged tmp data s \<longleftrightarrow> (\<forall>n. node_at s tmp = Some n \<longrightarrow> (\<exists>t. n = Reg data t))"

text \<open>What a step establishes carries the steps after it.\<close>

definition leads :: "('b \<Rightarrow> bool) \<Rightarrow> ('b \<Rightarrow> bool) \<Rightarrow> ('b, 'a) act \<Rightarrow> bool" where
  "leads K I m \<longleftrightarrow> (\<forall>w. K (est w) \<longrightarrow> I (est (snd (m w))))"

lemma leads_keeps: "keeps J m \<Longrightarrow> (\<And>s. K s \<Longrightarrow> J s) \<Longrightarrow> (\<And>s. J s \<Longrightarrow> I s) \<Longrightarrow> leads K I m"
  by (simp add: leads_def keeps_def)

lemma keeps_leads: "leads I I m \<Longrightarrow> keeps I m"
  by (simp add: leads_def keeps_def)

lemma leads_bnd:
  assumes "leads K I m" "\<And>w x w'. m w = (Inr x, w') \<Longrightarrow> K (est w) \<Longrightarrow> J x (est w')" "\<And>x. leads (J x) I (f x)"
  shows "leads K I (bnd m f)"
  unfolding leads_def
proof (intro allI impI)
  fix w :: "'a env"
  assume K: "K (est w)"
  obtain x w' where m: "m w = (x, w')" by fastforce
  show "I (est (snd (bnd m f w)))"
  proof (cases x)
    case (Inl e)
    with m K assms(1) show ?thesis by (force simp: bnd_def leads_def)
  next
    case (Inr y)
    then have "J y (est w')" using assms(2) m K by simp
    with m Inr assms(3) show ?thesis by (simp add: bnd_def leads_def)
  qed
qed

lemma control_free_staged: "control_free (\<lambda>s. pack_inv H E b s \<and> staged p c s)"
  using control_free_pack [of H E b] by (auto simp: control_free_def staged_def)

lemma keeps_validateChain [keeps_intros]:
  assumes "control_free I"
  shows "keeps I (ValidateDir p q)" "keeps I (ValidateFile p q)"
  unfolding ValidateDir_def ValidateFile_def validateChain_def
  by (intro keeps_if keeps_fail keeps_chain_loop assms)+

lemma keeps_rename_manifest:
  assumes "wf_packb b" "neutral b tmp" "distinct (map fst idx)" "set idx \<subseteq> E" "data = json_MarshalIndent (manifest_json idx)"
  shows "keeps (\<lambda>s. pack_inv H E b s \<and> staged tmp data s) (rename_manifest b tmp)"
proof -
  let ?I = "\<lambda>s. pack_inv H E b s \<and> staged tmp data s"
  have tmp: "tmp \<noteq> []" using assms(2) by (auto simp: neutral_def)
  have del: "keeps ?I (os_Remove tmp)"
    by (rule keeps_os_Remove [OF control_free_staged]) (use pack_inv_neutral(2) [OF assms(1) _ assms(2)] tmp in \<open>auto simp: staged_def\<close>)
  have "?I (del_node tmp (set_node (pack_path b ''index.json'') n s))" if "?I s" "node_at s tmp = Some n" for s n
  proof -
    from that obtain t where "n = Reg data t" by (auto simp: staged_def)
    moreover have "\<forall>e \<in> set idx. sound_record H b s e" using that(1) assms(4) by (auto simp: pack_inv_def)
    ultimately show ?thesis
      using pack_inv_publish [OF assms(1) _ assms(2,3), of H E s t] that(1) assms(5) tmp by (auto simp: staged_def)
  qed
  then have "keeps ?I (os_Rename tmp (pack_path b ''index.json''))"
    by (intro keeps_os_Rename control_free_staged) auto
  then have "keeps ?I (renameWithRetry tmp (path_parts (manifestPath b)))"
    unfolding renameWithRetry_def manifest_path [OF assms(1)] by (intro keeps_rename_retry keeps_reads control_free_staged)
  with del show ?thesis unfolding rename_manifest_def by (intro keeps_intros control_free_staged)
qed

lemma write_manifest_inv:
  assumes "wf_packb b" "neutral b tmp" "distinct (map fst idx)" "set idx \<subseteq> E" "data = json_MarshalIndent (manifest_json idx)"
  shows "leads (\<lambda>s. pack_inv H E b s \<and> (\<exists>t. node_at s tmp = Some (Reg [] t))) (pack_inv H E b) (write_manifest b data tmp)"
  unfolding write_manifest_def
proof (rule leads_bnd [where J = "\<lambda>_ s. pack_inv H E b s \<and> staged tmp data s"])
  show "leads (\<lambda>s. pack_inv H E b s \<and> (\<exists>t. node_at s tmp = Some (Reg [] t))) (pack_inv H E b)
      (or_else (wrapping ''cas: write pack manifest'' (os_Write tmp data)) (discard tmp))"
    by (rule leads_keeps [where J = "pack_inv H E b"]) (intro keeps_intros neutral_calls assms, simp_all)
  fix w :: "'a packst_scheme env" and x w'
  assume w: "or_else (wrapping ''cas: write pack manifest'' (os_Write tmp data)) (discard tmp) w = (Inr x, w')"
    and K: "pack_inv H E b (est w) \<and> (\<exists>t. node_at (est w) tmp = Some (Reg [] t))"
  then obtain t where ok: "os_Write tmp data w = (Inr (), w')" and t: "node_at (est w) tmp = Some (Reg [] t)" by auto
  have "tmp \<noteq> []" using assms(2) by (auto simp: neutral_def)
  from os_Write_ok [OF ok t this] have "staged tmp data (est w')" by (auto simp: staged_def)
  moreover have "pack_inv H E b (est w')" using K by (intro keepsD [OF neutral_calls(3) [OF assms(1,2)] ok]) simp
  ultimately show "pack_inv H E b (est w') \<and> staged tmp data (est w')" by simp
qed (rule leads_keeps [OF keeps_rename_manifest [OF assms, of H]], simp_all)

lemma keeps_persistIndex:
  assumes "wf_packb b"
  shows "keeps (pack_inv H E b) (persistIndex b)"
  unfolding persistIndex_def Let_def
proof (rule keeps_bnd_get [where J = "\<lambda>s0. pack_inv H (E \<union> set (pk_index s0)) b"])
  fix s0 :: "'a packst_scheme"
  assume s0: "pack_inv H E b s0"
  let ?J = "pack_inv H (E \<union> set (pk_index s0)) b" and ?data = "json_MarshalIndent (manifest_json (pk_index s0))"
  let ?dir = "path_parts (packDir b)"
  have fill: "leads (\<lambda>s. neutral b tmp \<and> ?J s \<and> (\<exists>t. node_at s tmp = Some (Reg [] t))) ?J (write_manifest b ?data tmp)" for tmp
  proof (cases "neutral b tmp")
    case True
    have "distinct (map fst (pk_index s0))" using s0 by (simp add: pack_inv_def)
    from write_manifest_inv [OF assms True this, of "E \<union> set (pk_index s0)" ?data H] True show ?thesis by simp
  qed (simp add: leads_def)
  have "leads ?J ?J (bnd (wrapping ''cas: write pack manifest'' (os_CreateTemp ?dir ''index-'')) (write_manifest b ?data))"
  proof (rule leads_bnd [where J = "\<lambda>tmp s. neutral b tmp \<and> ?J s \<and> (\<exists>t. node_at s tmp = Some (Reg [] t))"])
    show "leads ?J ?J (wrapping ''cas: write pack manifest'' (os_CreateTemp ?dir ''index-''))"
      by (rule leads_keeps [OF keeps_wrapping [OF keeps_CreateTemp [OF assms]]]) assumption+
  next
    fix w tmp w'
    assume "wrapping ''cas: write pack manifest'' (os_CreateTemp ?dir ''index-'') w = (Inr tmp, w')" "?J (est w)"
    then have "os_CreateTemp ?dir ''index-'' w = (Inr tmp, w')" "?J (est w)" by simp_all
    with CreateTemp_ok [OF this(1)] keepsD [OF keeps_CreateTemp [OF assms] this]
    show "neutral b tmp \<and> ?J (est w') \<and> (\<exists>t. node_at (est w') tmp = Some (Reg [] t))" by blast
  qed (rule fill)
  then show "keeps ?J (bnd (wrapping ''cas: write pack manifest'' (ValidateDir (path_parts (pk_base b)) ?dir)) (\<lambda>_.
        bnd (wrapping ''cas: write pack manifest'' (os_CreateTemp ?dir ''index-'')) (\<lambda>tmp. write_manifest b ?data tmp)))"
    by (intro keeps_bnd [OF keeps_wrapping [OF keeps_validateChain(1) [OF control_free_pack]]] keeps_leads)
qed (auto simp: pack_inv_def)

section \<open>Other changes of the tree\<close>

lemma pack_inv_del:
  assumes "pack_inv H E b s" "\<And>x. is_pack x \<or> x = ''index.json'' \<Longrightarrow> q \<noteq> pack_path b x"
  shows "pack_inv H E b (del_node q s)"
proof (rule pack_inv_tree [OF assms(1)])
  show "packs_grow b s (del_node q s)" by (rule packs_grow_same) (use assms(2) in auto)
  show "node_at (del_node q s) (pack_path b ''index.json'') = node_at s (pack_path b ''index.json'')" using assms(2) by auto
  have "loose_ok H b s" using assms(1) by (simp add: pack_inv_def)
  then show "loose_ok H b (del_node q s)" by (auto simp: loose_ok_def fs_abs_def split: if_splits)
qed simp

lemma pack_inv_mkdir:
  assumes "pack_inv H E b s" "node_at s q = None"
  shows "pack_inv H E b (set_node q Dir s)"
proof -
  let ?s = "set_node q Dir s"
  have grow: "packs_grow b s ?s" using assms(2) unfolding packs_grow_def by (auto intro!: exI [of _ "[]"])
  have "manifest_ok H b ?s"
    unfolding manifest_ok_def
  proof (intro allI impI)
    fix c t
    assume "node_at ?s (pack_path b ''index.json'') = Some (Reg c t)"
    then have "node_at s (pack_path b ''index.json'') = Some (Reg c t)" by (auto split: if_splits)
    with assms(1) sound_record_grow [OF _ grow] show "\<exists>idx. c = json_MarshalIndent (manifest_json idx) \<and> distinct (map fst idx) \<and>
        (\<forall>e \<in> set idx. sound_record H b ?s e)"
      unfolding pack_inv_def manifest_ok_def by blast
  qed
  moreover have "loose_ok H b ?s" using assms(1) by (auto simp: pack_inv_def loose_ok_def fs_abs_def split: if_splits)
  ultimately show ?thesis by (intro pack_inv_grow [OF assms(1) grow]) simp_all
qed

lemma keeps_MkdirAll_pack: "keeps (pack_inv H E b) (os_MkdirAll p)"
  unfolding os_MkdirAll_def by (intro keeps_mkdirs control_free_pack pack_inv_mkdir)

lemma pack_inv_at_pack:
  assumes "wf_packb b" "pack_inv H E b s" "is_pack x"
    "node_at s (pack_path b x) = None \<or> (\<exists>c c' t'. node_at s (pack_path b x) = Some (Reg c t') \<and> n = Reg (c @ c') t)" "n = Reg v t"
  shows "pack_inv H E b (set_node (pack_path b x) n s)"
proof (rule pack_inv_tree [OF assms(2)])
  show "packs_grow b s (set_node (pack_path b x) n s)"
    unfolding packs_grow_def
  proof (intro allI impI conjI)
    fix y c t0
    assume y: "is_pack y" "node_at s (pack_path b y) = Some (Reg c t0)"
    then show "\<exists>c' t'. node_at (set_node (pack_path b x) n s) (pack_path b y) = Some (Reg (c @ c') t')"
      using assms(4) by (cases "y = x") (auto intro: exI [of _ "[]"])
  qed (auto simp: assms(5) split: if_splits)
  show "node_at (set_node (pack_path b x) n s) (pack_path b ''index.json'') = node_at s (pack_path b ''index.json'')"
    using assms(3) by (auto simp: is_pack_def HasSuffix_def)
  have "loose_ok H b s" using assms(2) by (simp add: pack_inv_def)
  then show "loose_ok H b (set_node (pack_path b x) n s)"
    by (rule loose_frame) (use pack_not_loose(1) [OF assms(1), symmetric] in auto)
qed simp

lemma pack_calls:
  assumes "wf_packb b" "is_pack x"
  shows "keeps (pack_inv H E b) (os_OpenAppend (pack_path b x))" "keeps (pack_inv H E b) (os_WriteAll (pack_path b x) c)"
    "keeps (pack_inv H E b) (os_Copy (pack_path b x) r)"
  by (rule keeps_os_OpenAppend [OF control_free_pack], rule pack_inv_at_pack [OF assms(1) _ assms(2)]; auto)
    (rule keeps_os_WriteAll [OF control_free_pack] keeps_os_Copy [OF control_free_pack], rule pack_inv_at_pack [OF assms(1) _ assms(2)]; auto)+

lemma digits_value_chars: "digits_value acc s = Some n \<Longrightarrow> c \<in> set s \<Longrightarrow> digit_value c \<noteq> None"
  by (induction acc s rule: digits_value.induct) (auto split: option.splits if_splits)

lemma temp_not_pack:
  assumes "IsTempFile (last q)" "is_pack x \<or> x = ''index.json''"
  shows "q \<noteq> pack_path b x"
proof
  assume q: "q = pack_path b x"
  from assms(1) obtain a rest where cut: "strings_Cut x ''.tmp'' = Some (a, rest)" and rest: "rest = [] \<or> (\<exists>r. rest = CHR ''.'' # r \<and> ParseInt r \<noteq> None)"
    by (cases "strings_Cut x ''.tmp''"; force simp: q IsTempFile_def neq_Nil_conv split: if_splits)
  have x: "x = a @ ''.tmp'' @ rest" by (rule strings_Cut_Some [OF cut])
  have last: "last x \<in> {CHR ''k'', CHR ''n''}" using assms(2) last_pack by auto
  from rest show False
  proof (elim disjE exE conjE)
    assume "rest = []"
    with x last show False by simp
  next
    fix r
    assume r: "rest = CHR ''.'' # r" "ParseInt r \<noteq> None"
    then have "r \<noteq> [] \<and> digit_value (last r) \<noteq> None"
      using digits_value_chars by (auto simp: ParseInt_def Let_def split: list.splits if_splits option.splits)
    moreover have "last r = last x" using x r calculation by simp
    ultimately show False using last by (auto simp: digit_value_def)
  qed
qed

section \<open>Reading and dropping records\<close>

lemma keeps_case_option [keeps_intros]:
  "keeps I m \<Longrightarrow> (\<And>x. keeps I (f x)) \<Longrightarrow> keeps I (case z of None \<Rightarrow> m | Some x \<Rightarrow> f x)"
  by (simp split: option.split)

lemma keeps_case_node: "keeps I m \<Longrightarrow> (\<And>c t. keeps I (f c t)) \<Longrightarrow> keeps I (case n of Reg c t \<Rightarrow> f c t | _ \<Rightarrow> m)"
  by (simp split: node.split)

lemma keeps_validPackRecord [keeps_intros]: "control_free I \<Longrightarrow> keeps I (validPackRecord b r)"
  unfolding validPackRecord_def
  by (intro keeps_intros keeps_case_node keeps_case_result)

lemma pack_inv_index:
  assumes "pack_inv H E b s" "set idx \<subseteq> set (pk_index s) \<union> E" "distinct (map fst idx)"
  shows "pack_inv H E b (s\<lparr>pk_index := idx\<rparr>)"
  using assms tree_cong [of "s\<lparr>pk_index := idx\<rparr>" s] by (auto simp: pack_inv_def handle_ok_def)

lemma pack_inv_extra: "pack_inv H (E \<union> E') b s \<Longrightarrow> pack_inv H E b s"
  by (auto simp: pack_inv_def)

lemma pack_inv_hold: "pack_inv H E b s \<Longrightarrow> pack_inv H (E \<union> set (pk_index s)) b s"
  by (auto simp: pack_inv_def)

lemma keeps_get_pack:
  assumes "\<And>s0. pack_inv H E b s0 \<Longrightarrow> keeps (pack_inv H (E \<union> set (pk_index s0)) b) (f s0)"
  shows "keeps (pack_inv H E b) (bnd get_st f)"
  by (rule keeps_bnd_get [where J = "\<lambda>s0. pack_inv H (E \<union> set (pk_index s0)) b"])
    (auto intro: pack_inv_hold pack_inv_extra assms)

lemma keeps_set_index: "set idx \<subseteq> E \<Longrightarrow> distinct (map fst idx) \<Longrightarrow> keeps (pack_inv H E b) (set_index idx)"
  unfolding set_index_def by (intro keeps_modify pack_inv_index) auto

lemma keeps_drop_record:
  assumes "pack_inv H E b s0"
  shows "keeps (pack_inv H (E \<union> set (pk_index s0)) b) (set_index (AList.delete d (pk_index s0)))"
  using assms by (intro keeps_set_index) (auto simp: pack_inv_def AList.delete_eq intro: distinct_map_filter)

lemma keeps_live_record:
  assumes "wf_packb b"
  shows "keeps (pack_inv H E b) (live_record b d)"
  unfolding live_record_def
  by (intro keeps_get_pack keeps_intros keeps_drop_record keeps_persistIndex assms control_free_pack)

lemma live_record_Some:
  assumes "live_record b d w = (Inr (Some r), w')"
  shows "map_of (pk_index (est w)) d = Some r \<and> node_at (est w') = node_at (est w) \<and> osfs.more (est w') = osfs.more (est w)"
proof -
  have cf: "control_free (\<lambda>s. node_at s = node_at (est w) \<and> osfs.more s = osfs.more (est w))" by (simp add: control_free_def)
  have "keeps (\<lambda>s. node_at s = node_at (est w) \<and> osfs.more s = osfs.more (est w)) (wrapping msg (validPackRecord b r))" for msg r
    by (intro keeps_intros cf)
  note valid = keepsD [OF this]
  from assms obtain msg where "map_of (pk_index (est w)) d = Some r" "wrapping msg (validPackRecord b r) w = (Inr True, w')"
    by (auto simp: live_record_def bnd_ok get_st_def ret_def split: option.splits if_splits)
  with valid [OF this(2)] show ?thesis by simp
qed

end
