(* ===== verification/Pack_Machine.thy ===== *)
theory Pack_Machine
  imports Pack_Safety
begin

text \<open>
  The packed backend as a state machine: every operation keeps the invariant of \<open>Pack_Safety\<close> under every
  schedule, so that a sequence of operations, crashes and restarts never makes \<open>Get\<close> return bytes that were
  not put under the digest.
\<close>

section \<open>The active pack\<close>

lemma digit_ascii: "digit_value c \<noteq> None \<Longrightarrow> c \<noteq> CHR ''/'' \<and> code c < 0x80"
  by (auto simp: digit_value_def code_def Let_def split: if_splits)

lemma Itoa_ascii: "c \<in> set (Itoa i) \<Longrightarrow> c \<noteq> CHR ''/'' \<and> code c < 0x80"
  using digit_ascii [OF dec_chars [of c]] by (auto simp: Itoa_def code_def split: if_splits)

lemma is_pack_rotated [simp]: "is_pack (''pack-'' @ Itoa ns @ ''.pack'')"
proof -
  have "HasSuffix (''pack-'' @ Itoa ns @ ''.pack'') ''.pack''" unfolding HasSuffix_iff by (metis append.assoc)
  moreover have "utf8_ok (''pack-'' @ Itoa ns @ ''.pack'')"
    by (rule utf8_ok_ascii) (use Itoa_ascii in \<open>auto simp: code_def\<close>)
  ultimately show ?thesis using Itoa_ascii [of "CHR ''/''" ns] by (auto simp: is_pack_def)
qed

lemma pack_inv_handle:
  assumes "pack_inv H E b s" "is_pack x" "node_at s (pack_path b x) = Some (Reg c t)"
  shows "pack_inv H E b (s\<lparr>packFile := Some (pack_path b x), packFilePath := filepath_Join (packDir b) x\<rparr>)"
  using assms tree_cong [of "s\<lparr>packFile := Some (pack_path b x), packFilePath := filepath_Join (packDir b) x\<rparr>" s]
  by (auto simp: pack_inv_def handle_ok_def)

lemma pack_inv_no_handle: "pack_inv H E b s \<Longrightarrow> pack_inv H E b (s\<lparr>packFile := None\<rparr>)"
  "pack_inv H E b s \<Longrightarrow> pack_inv H E b (s\<lparr>packFile := None, packFilePath := p\<rparr>)"
  using tree_cong [of "s\<lparr>packFile := None\<rparr>" s] tree_cong [of "s\<lparr>packFile := None, packFilePath := p\<rparr>" s]
  by (simp_all add: pack_inv_def handle_ok_def)

lemma os_OpenAppend_ok:
  assumes "os_OpenAppend p w = (Inr u, w')" "node_at (est w) p \<noteq> Some Special" "p \<noteq> []"
  shows "\<exists>c t. node_at (est w') p = Some (Reg c t)"
proof -
  from assms(1) obtain fs where "in_dir p (\<lambda>s. case node_at s p of
      None \<Rightarrow> (Inr (), set_node p (Reg [] (os_now s)) s) | Some Dir \<Rightarrow> (Inl EISDIR, s) | Some (Link _) \<Rightarrow> follow_link s
    | Some _ \<Rightarrow> (Inr (), s)) ((est w)\<lparr>faults := fs\<rparr>) = (Inr u, est w')"
    unfolding os_OpenAppend_def by (rule syscall_ok)
  from in_dir_ok [OF this] have "est w' = (case node_at (est w) p of None \<Rightarrow> set_node p (Reg [] (os_now (est w))) ((est w)\<lparr>faults := fs\<rparr>)
      | _ \<Rightarrow> (est w)\<lparr>faults := fs\<rparr>) \<and> node_at (est w) p \<notin> {Some Dir} \<union> range (Some \<circ> Link)"
    by (auto simp: follow_link_def split: option.splits node.splits)
  with assms(2,3) show ?thesis by (cases "node_at (est w) p"; cases "the (node_at (est w) p)") auto
qed

lemma keeps_open_pack:
  assumes "wf_packb b" "is_pack x"
  shows "keeps (pack_inv H E b) (open_pack b (filepath_Join (packDir b) x) msg)"
proof -
  let ?I = "pack_inv H E b" and ?open = "wrapping msg (os_OpenAppend (pack_path b x))"
  have "leads ?I ?I (bnd ?open (\<lambda>_. bnd get_st (\<lambda>s.
      put_st (s\<lparr>packFile := Some (pack_path b x), packFilePath := filepath_Join (packDir b) x\<rparr>))))"
  proof (rule leads_bnd [where J = "\<lambda>_ s. ?I s \<and> (\<exists>c t. node_at s (pack_path b x) = Some (Reg c t))"])
    show "leads ?I ?I ?open" by (rule leads_keeps [OF keeps_wrapping [OF pack_calls(1) [OF assms]]]) assumption+
  next
    fix w u w'
    assume w: "?open w = (Inr u, w')" "?I (est w)"
    then have "node_at (est w) (pack_path b x) \<noteq> Some Special" using assms(2) by (auto simp: pack_inv_def no_special_def)
    moreover have open1: "os_OpenAppend (pack_path b x) w = (Inr u, w')" using w(1) by simp
    ultimately show "?I (est w') \<and> (\<exists>c t. node_at (est w') (pack_path b x) = Some (Reg c t))"
      using os_OpenAppend_ok [OF open1] keepsD [OF pack_calls(1) [OF assms] open1 w(2)] by simp
  qed (auto simp: leads_def bnd_def get_st_def put_st_def intro: pack_inv_handle assms(2))
  then show ?thesis
    unfolding open_pack_def join_path [OF assms(1) is_pack_plain [OF assms(2)]]
    by (intro keeps_bnd [OF keeps_wrapping [OF keeps_validateChain(2) [OF control_free_pack]]] keeps_leads)
qed

lemma keeps_ensurePackFile:
  assumes "wf_packb b"
  shows "keeps (pack_inv H E b) (ensurePackFile b)"
  unfolding ensurePackFile_def Let_def
  by (intro keeps_bnd keeps_get_st keeps_if keeps_ret keeps_open_pack assms keeps_attempt keeps_os_FileSize control_free_pack
      keeps_case_result keeps_modify) simp_all

lemma ensurePackFile_ok:
  assumes "ensurePackFile b w = (Inr u, w')"
  shows "packFile (est w') \<noteq> None"
proof (cases "packFile (est w)")
  case None
  let ?p = "filepath_Join (packDir b) ''current.pack''" and ?I = "\<lambda>s. packFile s \<noteq> None"
  from None assms obtain v w1 where w1: "open_pack b ?p ''cas: open pack file'' w = (Inr v, w1)"
    "bnd (attempt (os_FileSize (path_parts ?p))) (\<lambda>x. case x of Inl _ \<Rightarrow> ret ()
       | Inr n \<Rightarrow> bnd get_st (\<lambda>s'. put_st (s'\<lparr>packBytes := n\<rparr>))) w1 = (Inr u, w')"
    by (auto simp: ensurePackFile_def Let_def bnd_def [of get_st] get_st_def bnd_ok [of "open_pack _ _ _"])
  have I: "?I (est w1)" using w1(1) by (auto simp: open_pack_def bnd_ok get_st_def put_st_def)
  have "keeps ?I (bnd (attempt (os_FileSize (path_parts ?p))) (\<lambda>x. case x of Inl _ \<Rightarrow> ret ()
       | Inr n \<Rightarrow> bnd get_st (\<lambda>s'. put_st (s'\<lparr>packBytes := n\<rparr>))))"
    by (intro keeps_bnd keeps_attempt keeps_os_FileSize keeps_case_result keeps_ret keeps_modify) (auto simp: control_free_def)
  from keepsD [OF this w1(2) I] show ?thesis .
next
  case (Some f)
  with assms show ?thesis by (auto simp: ensurePackFile_def bnd_def get_st_def ret_def)
qed

lemma keeps_rotatePackFile:
  assumes "wf_packb b"
  shows "keeps (pack_inv H E b) (rotatePackFile b)"
  unfolding rotatePackFile_def
  by (intro keeps_bnd keeps_get_st keeps_case_option keeps_ret keeps_reads control_free_pack keeps_modify keeps_time_now
      keeps_open_pack assms is_pack_rotated pack_inv_no_handle) simp_all

lemma keeps_rotate_if: "wf_packb b \<Longrightarrow> keeps (pack_inv H E b) (rotate_if b full)"
  unfolding rotate_if_def by (intro keeps_bnd keeps_get_st keeps_if keeps_ret keeps_rotatePackFile)

section \<open>One record\<close>

lemma os_FileSize_ok:
  assumes "os_FileSize p w = (Inr n, w')"
  shows "node_at (est w') = node_at (est w) \<and> osfs.more (est w') = osfs.more (est w) \<and>
    (\<forall>c t. node_at (est w) p = Some (Reg c t) \<longrightarrow> n = int (length c))"
proof -
  from assms obtain fs where "(Inr (case node_at ((est w)\<lparr>faults := fs\<rparr>) p of Some n \<Rightarrow> node_Size n | None \<Rightarrow> 0), (est w)\<lparr>faults := fs\<rparr>) = (Inr n :: int result, est w')"
    unfolding os_FileSize_def by (rule syscall_ok)
  then have "est w' = (est w)\<lparr>faults := fs\<rparr>" "n = (case node_at (est w) p of Some n \<Rightarrow> node_Size n | None \<Rightarrow> 0)"
    by (simp_all add: eq_commute)
  then show ?thesis by simp
qed

lemma append_at_reg:
  assumes "node_at s p = Some (Reg c t)" "p \<noteq> []"
  shows "\<exists>t'. node_at (append_at p d s) p = Some (Reg (c @ d) t')"
  using assms by (cases "d = []") (auto simp: node_at_append_at append_at_def)

lemma write_record_ok:
  assumes "write_record d r n f w = (Inr off, w')" "node_at (est w) f = Some (Reg c t)" "f \<noteq> []" "proper_reader (io_LimitReader r (int n))"
  shows "off = int (length c) \<and> osfs.more (est w') = osfs.more (est w) \<and>
    (\<exists>t'. node_at (est w') f = Some (Reg (c @ pack_header d n @ take n (r_data r)) t'))"
proof -
  from assms(1) obtain w1 w2 m where s: "os_FileSize f w = (Inr off, w1)" "os_WriteAll f (pack_header d n) w1 = (Inr (), w2)"
    "os_Copy f (io_LimitReader r (int n)) w2 = (Inr m, w')"
    by (auto simp: write_record_def bnd_ok ret_def)
  have 1: "node_at (est w1) f = Some (Reg c t)" "off = int (length c)" "osfs.more (est w1) = osfs.more (est w)"
    using os_FileSize_ok [OF s(1)] assms(2) by auto
  from os_WriteAll_spec [OF s(2)] obtain pl where "est w2 = (append_at f (pack_header d n) (est w1))\<lparr>wplan := pl\<rparr>" by auto
  then obtain t2 where 2: "node_at (est w2) f = Some (Reg (c @ pack_header d n) t2)" "osfs.more (est w2) = osfs.more (est w)"
    using append_at_reg [OF 1(1) assms(3), of "pack_header d n"] 1(3) set_more(3) [of f "pack_header d n" "est w1"] by auto
  from os_Copy_spec [OF s(3) assms(4)] obtain k pl' where k: "est w' = (append_at f (take k (take n (r_data r))) (est w2))\<lparr>wplan := pl'\<rparr>"
    "k = length (take n (r_data r))" by auto
  from k have "est w' = (append_at f (take n (r_data r)) (est w2))\<lparr>wplan := pl'\<rparr>" by (simp only: take_all order_refl)
  with append_at_reg [OF 2(1) assms(3), of "take n (r_data r)"] 1(2) 2(2) set_more(3) [of f "take n (r_data r)" "est w2"]
  show ?thesis by auto
qed

lemma keeps_write_record:
  assumes "wf_packb b" "is_pack x"
  shows "keeps (pack_inv H E b) (write_record d r n (pack_path b x))"
  unfolding write_record_def
  by (intro keeps_bnd keeps_wrapping keeps_os_FileSize control_free_pack pack_calls assms keeps_ret)

lemma keeps_run: "keeps I m \<Longrightarrow> I (est w) \<Longrightarrow> I (est (snd (m w)))"
  by (simp add: keeps_def)

text \<open>The record that is written describes the payload.\<close>

lemma written_record_sound:
  assumes "is_pack x" "node_at s (pack_path b x) = Some (Reg (c @ pack_header d n @ data) t)" "length data = n" "data \<in> H d"
  shows "sound_record H b s (d, \<lparr>Pack = filepath_Join (packDir b) x, Offset = int (length c) + int (length (pack_header d n)), Size = int n\<rparr>)"
proof -
  have "nat (int (length c) + int (length (pack_header d n))) = length (c @ pack_header d n)" by simp
  then show ?thesis
    unfolding sound_record_def record_slice_def using assms
    by (intro exI [of _ x] exI [of _ "c @ pack_header d n @ data"] exI [of _ t]) simp
qed

lemma keeps_index_record:
  assumes "wf_packb b"
  shows "leads (\<lambda>s. pack_inv H E b s \<and>
      sound_record H b s (d, \<lparr>Pack = packFilePath s, Offset = off + int (length (pack_header d n)), Size = int n\<rparr>))
    (pack_inv H E b) (index_record b d n off)"
  unfolding leads_def
proof (intro allI impI)
  fix w :: "'a packst_scheme env"
  let ?e = "(d, \<lparr>Pack = packFilePath (est w), Offset = off + int (length (pack_header d n)), Size = int n\<rparr>)"
  let ?idx = "AList.update d (snd ?e) (pk_index (est w))"
  let ?s = "(est w)\<lparr>packBytes := packBytes (est w) + int (length (pack_header d n)) + int n, packEntries := packEntries (est w) + 1\<rparr>"
  assume "pack_inv H E b (est w) \<and> sound_record H b (est w) ?e"
  then have "pack_inv H (E \<union> {?e}) b ?s" unfolding pack_inv_fields by (auto simp: pack_inv_def)
  moreover have "set ?idx \<subseteq> set (pk_index ?s) \<union> (E \<union> {?e})" using set_update_subset [of d "snd ?e" "pk_index (est w)"] by auto
  moreover have "distinct (map fst ?idx)" using \<open>pack_inv H E b (est w) \<and> _\<close> by (auto simp: pack_inv_def intro: distinct_update)
  ultimately have "pack_inv H (E \<union> {?e}) b (?s\<lparr>pk_index := ?idx\<rparr>)" by (rule pack_inv_index)
  then have "pack_inv H E b (?s\<lparr>pk_index := ?idx\<rparr>)" by (rule pack_inv_extra)
  then have "pack_inv H E b (est (snd (persistIndex b (w\<lparr>est := ?s\<lparr>pk_index := ?idx\<rparr>\<rparr>))))"
    by (intro keeps_run [OF keeps_persistIndex [OF assms]]) simp
  then show "pack_inv H E b (est (snd (index_record b d n off w)))"
    by (simp add: index_record_def Let_def bnd_def get_st_def put_st_def)
qed

lemma add_record_inv:
  assumes "wf_packb b" "r_err r = None" "length (r_data r) = n" "r_data r \<in> H d"
  shows "leads (\<lambda>s. pack_inv H E b s \<and> packFile s \<noteq> None) (pack_inv H E b) (add_record b d r n)"
  unfolding leads_def
proof (intro allI impI)
  fix w :: "'a packst_scheme env"
  assume w: "pack_inv H E b (est w) \<and> packFile (est w) \<noteq> None"
  then obtain x c t where x: "is_pack x" "packFile (est w) = Some (pack_path b x)" "packFilePath (est w) = filepath_Join (packDir b) x"
    "node_at (est w) (pack_path b x) = Some (Reg c t)" unfolding pack_inv_def handle_ok_def by blast
  obtain y w1 where y: "write_record d r n (pack_path b x) w = (y, w1)" by fastforce
  have inv: "pack_inv H E b (est w1)" using keepsD [OF keeps_write_record [OF assms(1) x(1)] y] w by blast
  show "pack_inv H E b (est (snd (add_record b d r n w)))"
  proof (cases y)
    case (Inl e)
    with y x(2) inv show ?thesis by (simp add: add_record_def bnd_def get_st_def)
  next
    case (Inr off)
    have "proper_reader (io_LimitReader r (int n))" using assms(2) by (simp add: proper_reader_def)
    from write_record_ok [OF y [unfolded Inr] x(4) _ this] assms(3) obtain t' where t': "off = int (length c)"
      "osfs.more (est w1) = osfs.more (est w)" "node_at (est w1) (pack_path b x) = Some (Reg (c @ pack_header d n @ r_data r) t')"
      by auto
    from written_record_sound [OF x(1) t'(3) assms(3), of H] assms(4)
    have "sound_record H b (est w1) (d, \<lparr>Pack = packFilePath (est w1), Offset = off + int (length (pack_header d n)), Size = int n\<rparr>)"
      using t'(1) x(3) packst_more(3) [OF t'(2)] by simp
    with inv keeps_index_record [OF assms(1), of H E d off n] have "pack_inv H E b (est (snd (index_record b d n off w1)))"
      unfolding leads_def by blast
    with y Inr x(2) show ?thesis by (simp add: add_record_def bnd_def get_st_def)
  qed
qed

lemma keeps_appendPackRecord:
  assumes "wf_packb b" "r_err r = None" "length (r_data r) = n" "r_data r \<in> H d"
  shows "keeps (pack_inv H E b) (appendPackRecord b d r n)"
proof -
  have "leads (pack_inv H E b) (pack_inv H E b) (bnd (ensurePackFile b) (\<lambda>_. add_record b d r n))"
  proof (rule leads_bnd [where J = "\<lambda>_ s. pack_inv H E b s \<and> packFile s \<noteq> None"])
    show "leads (pack_inv H E b) (pack_inv H E b) (ensurePackFile b)"
      by (rule leads_keeps [OF keeps_ensurePackFile [OF assms(1)]]) assumption+
  qed (use ensurePackFile_ok keepsD [OF keeps_ensurePackFile [OF assms(1)]] add_record_inv [OF assms(1-3), of H d] assms(4) in blast)+
  then show ?thesis
    unfolding appendPackRecord_def
    by (intro keeps_if keeps_ret keeps_bnd [OF keeps_ensurePackFile] keeps_bnd [OF keeps_rotate_if] assms(1) keeps_leads)
qed

section \<open>Objects\<close>

lemma fs_Put_more: "sane_layout s \<Longrightarrow> keeps (\<lambda>st. osfs.more st = m) (fs_Put s d r)"
proof (cases "usable s d")
  case True
  assume "sane_layout s"
  moreover have "control_free (\<lambda>st. osfs.more st = m)" by (simp add: control_free_def)
  moreover have "keeps (\<lambda>st. osfs.more st = m) (Publish (canon s d) r (put_options s))"
    by (rule keeps_Publish [OF \<open>control_free _\<close>]) simp_all
  ultimately show ?thesis unfolding fs_Put_usable [OF \<open>sane_layout s\<close> True] by (intro keeps_intros)
next
  case False
  show ?thesis by (rule keepsI) (metis False fs_Put_unusable prod.collapse)
qed

lemma fs_Put_frame:
  assumes "sane_layout s" "q \<noteq> canon s d" "q \<notin> set (parents (canon s d))" "\<And>i. q \<noteq> temp_name (canon s d) i"
    "fs_Put s d r w = (x, w')"
  shows "node_at (est w') q = node_at (est w) q"
  using assms(1,5)
proof (cases rule: fs_Put_cases)
  case (published y w1 w0)
  have "keeps (\<lambda>st. node_at st q = node_at (est w) q) (Publish (canon s d) r (put_options s))"
    by (rule Publish_frame) (use assms in auto)
  from keepsD [OF this published(3)] published(2) show ?thesis by simp
qed simp

lemma keeps_loose_Put:
  assumes "wf_packb b" "proper_reader r" "r_err r = None \<Longrightarrow> r_data r \<in> H d"
  shows "keeps (pack_inv H E b) (fs_Put (pk_loose b) d r)"
proof (rule keepsI)
  fix w :: "'a packst_scheme env"
  assume inv: "pack_inv H E b (est w)"
  obtain x w' where put: "fs_Put (pk_loose b) d r w = (x, w')" by fastforce
  note layout = wf_dirs(3) [OF assms(1)]
  have at: "node_at (est w') (pack_path b y) = node_at (est w) (pack_path b y)" for y
    by (rule fs_Put_frame [OF layout _ _ _ put]) (simp_all add: pack_not_loose [OF assms(1)])
  have "loose_ok H b (est w')"
    unfolding loose_ok_def
  proof (intro allI impI)
    fix d' c
    assume c: "fs_abs (pk_loose b) (est w') d' = Some c"
    show "c \<in> H d'"
    proof (cases "fs_abs (pk_loose b) (est w') d' = fs_abs (pk_loose b) (est w) d'")
      case True
      with c inv show ?thesis by (simp add: pack_inv_def loose_ok_def)
    next
      case False
      then have "d' = d" using fs_Put_other [OF layout put] by metis
      with False c fs_Put_this [OF layout put assms(2)] assms(3) show ?thesis by auto
    qed
  qed
  moreover have "osfs.more (est w') = osfs.more (est w)" by (rule keepsD [OF fs_Put_more [OF layout] put]) simp
  ultimately have "pack_inv H E b (est w')" by (intro pack_inv_tree [OF inv]) (simp_all add: at packs_grow_same)
  then show "pack_inv H E b (est (snd (fs_Put (pk_loose b) d r w)))" using put by simp
qed

text \<open>The spool file holds the whole stream, and only its owner changes it.\<close>

definition spooled :: "path \<Rightarrow> bytes \<Rightarrow> 'z osfs_scheme \<Rightarrow> bool" where
  "spooled f c s \<longleftrightarrow> (\<exists>t. node_at s f = Some (Reg c t))"

lemma control_free_spooled: "control_free (\<lambda>s. pack_inv H E b s \<and> spooled f c s)"
  using control_free_pack [of H E b] by (auto simp: control_free_def spooled_def)

lemma spoolObject_ok:
  assumes "spoolObject b r w = (Inr (f, n), w')" "proper_reader r"
  shows "neutral b f \<and> r_err r = None \<and> n = length (r_data r) \<and> spooled f (r_data r) (est w')"
proof -
  from assms(1) obtain w1 where s: "os_CreateTemp (path_parts (packDir b)) ''.put-'' w = (Inr f, w1)" "os_Copy f r w1 = (Inr n, w')"
    by (auto simp: spoolObject_def bnd_ok ret_def)
  from CreateTemp_ok [OF s(1)] obtain t where f: "neutral b f" "node_at (est w1) f = Some (Reg [] t)" by blast
  then have "f \<noteq> []" by (auto simp: neutral_def)
  from os_Copy_spec [OF s(2) assms(2)] obtain pl where
    c: "est w' = (append_at f (take (length (r_data r)) (r_data r)) (est w1))\<lparr>wplan := pl\<rparr>" "n = length (r_data r)" "r_err r = None" by auto
  with append_at_reg [OF f(2) \<open>f \<noteq> []\<close>, of "r_data r"] f(1) show ?thesis by (auto simp: spooled_def)
qed

lemma keeps_spoolObject:
  assumes "wf_packb b"
  shows "keeps (pack_inv H E b) (spoolObject b r)"
proof -
  have "keeps (pack_inv H E b) (bnd (or_else (wrapping ''cas: spool object'' (os_Copy f r)) (discard f)) (\<lambda>n. ret (f, n)))"
    if "neutral b f" for f by (intro keeps_intros neutral_calls assms that)
  then show ?thesis
    unfolding spoolObject_def
    by (intro keeps_bnd_P [where P = "neutral b"] keeps_wrapping keeps_CreateTemp assms) (auto dest: CreateTemp_ok)
qed

lemma file_stream_spooled:
  assumes "spooled f c (est w)" "file_stream f w = (Inr r, w')"
  shows "r_data r = c \<and> r_err r = None \<and> w' = w"
  using assms by (auto simp: spooled_def file_stream_def r_data_def)

lemma keeps_conj: "keeps I m \<Longrightarrow> keeps J m \<Longrightarrow> keeps (\<lambda>s. I s \<and> J s) m"
  by (simp add: keeps_def)

lemma loose_Put_spooled:
  assumes "wf_packb b" "neutral b f"
  shows "keeps (spooled f c) (fs_Put (pk_loose b) d r)"
proof (rule keepsI)
  fix w :: "'a osfs_scheme env"
  assume "spooled f c (est w)"
  moreover obtain x w' where put: "fs_Put (pk_loose b) d r w = (x, w')" by fastforce
  moreover have "node_at (est w') f = node_at (est w) f"
    using assms(2) by (intro fs_Put_frame [OF wf_dirs(3) [OF assms(1)] _ _ _ put]) (auto simp: neutral_def pack_not_loose [OF assms(1)])
  ultimately show "spooled f c (est (snd (fs_Put (pk_loose b) d r w)))" by (simp add: spooled_def)
qed

lemma leads_bnd_keeps:
  assumes "keeps K m" "\<And>s. K s \<Longrightarrow> I s" "\<And>x. leads K I (f x)"
  shows "leads K I (bnd m f)"
  by (rule leads_bnd [where J = "\<lambda>_. K"]) (use assms keepsD [OF assms(1)] in \<open>auto simp: leads_def keeps_def\<close>)

lemma put_spooled_inv:
  assumes "wf_packb b" "neutral b f" "c \<in> H d" "length c = n"
  shows "leads (\<lambda>s. pack_inv H E b s \<and> spooled f c s) (pack_inv H E b) (put_spooled b d f n :: ('z packst_scheme, unit) act)"
proof -
  let ?I = "pack_inv H E b :: 'z packst_scheme \<Rightarrow> bool" and ?K = "\<lambda>s :: 'z packst_scheme. pack_inv H E b s \<and> spooled f c s"
  have rewind: "keeps ?K (wrapping ''cas: rewind spool file'' (os_Rewind f))" by (intro keeps_intros control_free_spooled)
  have stream: "leads ?K ?I (bnd (file_stream f) g)"
    if "\<And>r. r_data r = c \<Longrightarrow> r_err r = None \<Longrightarrow> leads ?K ?I (g r)" for g :: "reader \<Rightarrow> ('z packst_scheme, unit) act"
  proof (rule leads_bnd [where J = "\<lambda>r s. ?K s \<and> r_data r = c \<and> r_err r = None"])
    show "leads (\<lambda>s. ?K s \<and> r_data r = c \<and> r_err r = None) ?I (g r)" for r using that by (auto simp: leads_def)
  qed (use file_stream_spooled in \<open>auto simp: leads_def file_stream_def\<close>)
  have app: "leads ?K ?I (appendPackRecord b d r n)" if "r_data r = c" "r_err r = None" for r
    by (rule leads_keeps [OF keeps_appendPackRecord]) (use assms that in auto)
  have put: "keeps ?K (fs_Put (pk_loose b) d r)" if "r_data r = c" "r_err r = None" for r
    by (intro keeps_conj keeps_loose_Put loose_Put_spooled assms) (use that assms(3) in \<open>auto simp: proper_reader_def\<close>)
  show ?thesis
    unfolding put_spooled_def
    by (intro leads_bnd_keeps [OF rewind] leads_bnd_keeps [OF put] stream app) auto
qed

lemma leads_deferring: "leads K I m \<Longrightarrow> keeps I c \<Longrightarrow> leads K I (deferring m c)"
  by (fastforce simp: leads_def keeps_def deferring_def split: prod.splits)

lemma keeps_pk_Put:
  assumes "wf_packb b" "proper_reader r" "r_err r = None \<Longrightarrow> r_data r \<in> H d"
  shows "keeps (pack_inv H E b) (pk_Put b d r :: ('z packst_scheme, unit) act)"
proof -
  let ?I = "pack_inv H E b :: 'z packst_scheme \<Rightarrow> bool"
  let ?J = "\<lambda>f n. neutral b f \<and> r_err r = None \<and> n = length (r_data r)"
  have "leads (\<lambda>s. ?I s \<and> ?J f n \<and> spooled f (r_data r) s) ?I (deferring (put_spooled b d f n) (discard f))" for f n
  proof (cases "?J f n")
    case True
    then have "keeps ?I (discard f)" "leads (\<lambda>s. ?I s \<and> spooled f (r_data r) s) ?I (put_spooled b d f n)"
      using assms by (auto intro!: neutral_calls put_spooled_inv)
    from leads_deferring [OF this(2,1)] True show ?thesis by simp
  qed (auto simp: leads_def)
  then have "leads ?I ?I (bnd (spoolObject b r) (\<lambda>(f, n). deferring (put_spooled b d f n) (discard f)))"
    by (intro leads_bnd [where J = "\<lambda>x s. ?I s \<and> ?J (fst x) (snd x) \<and> spooled (fst x) (r_data r) s"])
      (auto intro: leads_keeps [OF keeps_spoolObject [OF assms(1)]] keepsD [OF keeps_spoolObject [OF assms(1)]]
        dest: spoolObject_ok [OF _ assms(2)])
  then show ?thesis
    unfolding pk_Put_def
    by (intro keeps_bnd keeps_ctx_Err keeps_when_err keeps_if keeps_loose_Put assms keeps_leads)
qed

lemma reads_ok_pack: "reads_ok (pack_inv H E b)"
  by (rule reads_ok_control_free [OF control_free_pack])

lemma keeps_loose_reads:
  "keeps (pack_inv H E b) (fs_Get s d)" "keeps (pack_inv H E b) (fs_Exists s d)" "keeps (pack_inv H E b) (fs_List s)"
  "keeps (pack_inv H E b) (fs_Stats s)" "keeps (pack_inv H E b) (fs_Size s d)" "keeps (pack_inv H E b) (fs_ModTime s d)"
  "keeps (pack_inv H E b) (fs_Stat s d)"
  using keeps_fs_reads [OF reads_ok_pack, of H E b]
  by (auto simp: fs_Size_def fs_ModTime_def fs_Stat_def intro!: keeps_bnd keeps_ret)

lemma keeps_case_prod: "(\<And>x y. keeps I (f x y)) \<Longrightarrow> keeps I (case z of (x, y) \<Rightarrow> f x y)"
  by (cases z) simp

lemma keeps_pack_time: "keeps (pack_inv H E b) (pack_time r d)"
  unfolding pack_time_def by (intro keeps_intros control_free_pack)

lemma keeps_pk_reads:
  assumes "wf_packb b"
  shows "keeps (pack_inv H E b) (pk_Get b d)" "keeps (pack_inv H E b) (pk_Exists b d)" "keeps (pack_inv H E b) (pk_Size b d)"
    "keeps (pack_inv H E b) (pk_ModTime b d)" "keeps (pack_inv H E b) (pk_Stat b d)"
  unfolding pk_Get_def pk_Exists_def pk_Size_def pk_ModTime_def pk_Stat_def
  by (intro keeps_bnd keeps_ctx_Err keeps_when_err keeps_live_record keeps_case_option keeps_loose_reads keeps_pack_time
      keeps_ret keeps_wrapping keeps_reads control_free_pack assms)+

lemma keeps_pk_List: "keeps (pack_inv H E b) (pk_List b)"
  unfolding pk_List_def by (intro keeps_bnd keeps_ctx_Err keeps_loose_reads keeps_get_st keeps_ret)

lemma keeps_pk_Delete:
  assumes "wf_packb b"
  shows "keeps (pack_inv H E b) (pk_Delete b d)"
proof -
  have "keeps (pack_inv H E b) (fs_Delete (pk_loose b) d)"
    by (rule keeps_fs_Delete [OF wf_dirs(3) [OF assms] control_free_pack], rule pack_inv_del)
      (use pack_not_loose(1) [OF assms] in \<open>metis+\<close>)
  moreover have "keeps (pack_inv H E b) (bnd get_st (\<lambda>s. bnd (set_index (AList.delete d (pk_index s))) (\<lambda>_. persistIndex b)))"
    by (intro keeps_get_pack keeps_bnd keeps_drop_record keeps_persistIndex assms)
  ultimately show ?thesis
    unfolding pk_Delete_def by (intro keeps_bnd [OF keeps_ctx_Err] keeps_bnd [OF keeps_when_err] keeps_bnd [of _ "fs_Delete _ _"])
qed

lemma prune_entries_subset:
  fixes w :: "'z packst_scheme env"
  shows "prune_entries b es w = (Inr kept, w') \<Longrightarrow> set kept \<subseteq> set es \<and> (distinct (map fst es) \<longrightarrow> distinct (map fst kept))"
proof (induction es arbitrary: w kept w')
  case (Cons e es)
  obtain k r where e: "e = (k, r)" by fastforce
  from Cons.prems e obtain v :: "bool result" and kept' and w1 w2 :: "'z packst_scheme env" where v: "prune_entries b es w1 = (Inr kept', w2)" "kept = (if v = Inr True then (k, r) # kept' else kept')"
    by (auto simp: bnd_ok ret_def)
  have "set kept' \<subseteq> set es" "distinct (map fst es) \<longrightarrow> distinct (map fst kept')" using Cons.IH [OF v(1)] by auto
  with v(2) e show ?case by (auto; force)
qed (simp add: ret_def)

lemma keeps_prune: "keeps (pack_inv H E b) (pruneMissingPackEntriesLocked b)"
proof -
  have entries: "keeps (pack_inv H E' b) (prune_entries b es)" for E' es
  proof (induction es)
    case (Cons e es)
    then show ?case
      by (cases e) (simp, intro keeps_bnd keeps_attempt keeps_validPackRecord control_free_pack keeps_ret)
  qed (simp add: keeps_ret)
  show ?thesis
    unfolding pruneMissingPackEntriesLocked_def
  proof (rule keeps_get_pack)
    fix s0
    assume inv: "pack_inv H E b s0"
    let ?P = "\<lambda>kept. set kept \<subseteq> set (pk_index s0) \<and> distinct (map fst kept)"
    show "keeps (pack_inv H (E \<union> set (pk_index s0)) b) (bnd (prune_entries b (pk_index s0)) set_index)"
    proof (rule keeps_bnd_P [where P = ?P, OF entries])
      show "?P kept" if "prune_entries b (pk_index s0) w = (Inr kept, w')" for w kept w'
        using prune_entries_subset [OF that] inv by (simp add: pack_inv_def)
    qed (intro keeps_set_index, auto)
  qed
qed

lemma keeps_pk_Stats: "keeps (pack_inv H E b) (pk_Stats b)"
  unfolding pk_Stats_def Let_def by (intro keeps_bnd keeps_ctx_Err keeps_prune keeps_loose_reads keeps_get_st keeps_ret)

lemma keeps_pk_Clean: "keeps (pack_inv H E b) (pk_Clean b olderThan)"
proof -
  have "keeps (pack_inv H E b) (cleanTemp p olderThan)" for p
    by (intro keeps_cleanTemp reads_ok_pack keeps_os_Remove control_free_pack pack_inv_del) (auto dest: temp_not_pack)
  then show ?thesis
    unfolding pk_Clean_def fs_Clean_def CleanTemp_def
    by (intro keeps_bnd keeps_ctx_Err keeps_case_prod keeps_case_option keeps_ret keeps_attempt keeps_of_result keeps_case_result)
qed

lemma keeps_modify_then:
  assumes "\<And>s. I s \<Longrightarrow> I (f s)" "keeps I m"
  shows "keeps I (bnd get_st (\<lambda>s. bnd (put_st (f s)) (\<lambda>_. m)))"
  using assms by (simp add: keeps_def bnd_def get_st_def put_st_def)

lemma keeps_pk_Close: "keeps (pack_inv H E b) pk_Close"
  unfolding pk_Close_def
  by (intro keeps_bnd [of _ "attempt _"] keeps_bnd [OF keeps_get_st, of _ "case_option _ _ \<circ> _", unfolded comp_def] keeps_case_option keeps_ret
      keeps_attempt keeps_reads control_free_pack keeps_modify_then keeps_of_result pack_inv_no_handle)

section \<open>Opening\<close>

lemma os_OpenRead_ok:
  assumes "os_OpenRead p w = (Inr rc, w')"
  shows "node_at (est w') = node_at (est w) \<and> (r_err rc = None \<longrightarrow> p \<noteq> [] \<and> (\<exists>c t. node_at (est w) p = Some (Reg c t) \<and> rc = nop_closer c))"
proof -
  have "keeps (\<lambda>s. node_at s = node_at (est w)) (os_OpenRead p)" by (intro keeps_reads) auto
  from keepsD [OF this assms] have "node_at (est w') = node_at (est w)" by simp
  moreover from assms obtain fs where "in_dir p (\<lambda>s. case node_at s p of
         None \<Rightarrow> (Inl ErrNotExist, s)
       | Some (Link _) \<Rightarrow> follow_link s
       | Some (Reg c _) \<Rightarrow> (Inr (nop_closer c), s)
       | Some _ \<Rightarrow> (Inr ((nop_closer [])\<lparr>r_err := Some EISDIR\<rparr>), s)) ((est w)\<lparr>faults := fs\<rparr>) = (Inr rc, est w')"
    unfolding os_OpenRead_def by (rule syscall_ok)
  from in_dir_ok [OF this] have "r_err rc = None \<longrightarrow> p \<noteq> [] \<and> (\<exists>c t. node_at (est w) p = Some (Reg c t) \<and> rc = nop_closer c)"
    by (auto simp: follow_link_def split: option.splits node.splits if_splits)
  ultimately show ?thesis by blast
qed

lemma os_ReadFile_ok:
  assumes "os_ReadFile p w = (Inr c, w')"
  shows "\<exists>t. node_at (est w') p = Some (Reg c t)"
proof -
  from assms obtain rc where rc: "os_OpenRead p w = (Inr rc, w')" "io_ReadAll rc = Inr c"
    by (auto simp: os_ReadFile_def bnd_ok of_result_def)
  then have "r_err rc = None" "r_data rc = c" by (auto simp: io_ReadAll_def split: option.splits)
  with os_OpenRead_ok [OF rc(1)] show ?thesis by (auto simp: nop_closer_def r_data_def)
qed

lemma load_entries_subset:
  fixes w :: "'z packst_scheme env"
  shows "load_entries b m filtered w = (Inr f, w') \<Longrightarrow> (\<And>k r. (k, r) \<in> set m \<Longrightarrow> \<exists>d. k = Digest_String d \<and> (d, r) \<in> S) \<Longrightarrow>
    set filtered \<subseteq> S \<Longrightarrow> distinct (map fst filtered) \<Longrightarrow> set f \<subseteq> S \<and> distinct (map fst f)"
proof (induction m arbitrary: filtered w)
  case (Cons e m)
  obtain k r where e: "e = (k, r)" by fastforce
  obtain d0 where d0: "k = Digest_String d0" "(d0, r) \<in> S" using Cons.prems(2) [of k r] e by auto
  show ?case
  proof (cases "ParseDigest k")
    case (Inl x)
    with Cons.prems(1) e have "load_entries b m filtered w = (Inr f, w')" by simp
    then show ?thesis by (rule Cons.IH) (use Cons.prems in auto)
  next
    case (Inr d)
    then have "d = d0" using ParseDigest_OkD [OF Inr] d0(1) by simp
    from Cons.prems(1) e Inr obtain v :: "bool result" and w1 :: "'z packst_scheme env" where
      l: "load_entries b m (if v = Inr True then AList.update d r filtered else filtered) w1 = (Inr f, w')"
      by (auto simp: bnd_ok)
    have "set (AList.update d r filtered) \<subseteq> S" using set_update_subset [of d r filtered] Cons.prems(3) d0 \<open>d = d0\<close> by auto
    then show ?thesis by (intro Cons.IH [OF l]) (use Cons.prems in \<open>auto intro: distinct_update\<close>)
  qed
qed (simp add: ret_def)

lemma keeps_load_entries: "keeps (pack_inv H E b) (load_entries b m filtered)"
proof (induction m arbitrary: filtered)
  case (Cons e m)
  obtain k r where "e = (k, r)" by fastforce
  then show ?case
    by (simp, intro keeps_case_result keeps_bnd keeps_attempt keeps_validPackRecord control_free_pack Cons)
qed (simp add: keeps_ret)

lemma utf8_ok_pack:
  assumes "wf_packb b" "utf8_ok (packDir b)" "sound_record H b s e"
  shows "utf8_ok (Pack (snd e))"
proof -
  from assms(3) obtain x where x: "is_pack x" "Pack (snd e) = filepath_Join (packDir b) x" by (auto simp: sound_record_def)
  have d: "packDir b = filepath_Clean (pk_base b @ ''/'' @ ''packs'')"
    using assms(1) ValidateBase_ne [of "pk_base b"] by (simp add: wf_packb_def filepath_Join_def)
  have "path_parts (pk_base b @ ''/'' @ ''packs'') \<noteq> []"
    using wf_dirs(1) [OF assms(1)] unfolding d by simp
  with x assms(2) show ?thesis unfolding x(2) d by (intro utf8_ok_Join is_pack_plain) (auto simp: is_pack_def)
qed

lemma keeps_loadIndex:
  assumes "wf_packb b" "utf8_ok (packDir b)"
  shows "keeps (pack_inv H E b) (loadIndex b :: ('z packst_scheme, unit) act)"
proof (rule keepsI)
  fix w :: "'z packst_scheme env"
  assume I: "pack_inv H E b (est w)"
  let ?p = "path_parts (manifestPath b)"
  obtain x w1 where x: "os_ReadFile ?p w = (x, w1)" by fastforce
  have I1: "pack_inv H E b (est w1)" by (rule keepsD [OF keeps_os_ReadFile [OF control_free_pack] x I])
  show "pack_inv H E b (est (snd (loadIndex b w)))"
  proof (cases "\<exists>data m. x = Inr data \<and> decode_manifest data = Some m")
    case False
    with x I1 show ?thesis
      by (cases x) (auto simp: loadIndex_def bnd_def attempt_def ret_def fail_def split: option.split)
  next
    case True
    then obtain data m where d: "x = Inr data" "decode_manifest data = Some m" by blast
    from os_ReadFile_ok [OF x [unfolded d(1)]] I1 obtain idx where idx: "data = json_MarshalIndent (manifest_json idx)"
      "distinct (map fst idx)" "\<forall>e \<in> set idx. sound_record H b (est w1) e"
      unfolding manifest_path [OF assms(1)] pack_inv_def manifest_ok_def by blast
    have "\<forall>e \<in> set idx. utf8_ok (Pack (snd e))" using idx(3) utf8_ok_pack [OF assms] by blast
    then have m: "m = manifest_entries idx" using d(2) idx(1,2) by (intro decode_manifest_only) simp_all
    have hold: "pack_inv H (E \<union> set idx) b (est w1)" using I1 idx(3) by (auto simp: pack_inv_def)
    let ?P = "\<lambda>f. set f \<subseteq> set idx \<and> distinct (map fst f)"
    have "keeps (pack_inv H (E \<union> set idx) b) (bnd (load_entries b m []) set_index :: ('z packst_scheme, unit) act)"
    proof (rule keeps_bnd_P [where P = ?P, OF keeps_load_entries])
      show "?P f" if "load_entries b m [] w = (Inr f, w')" for f and w w' :: "'z packst_scheme env"
        by (rule load_entries_subset [OF that]) (auto simp: m manifest_entries_set)
    qed (intro keeps_set_index, auto)
    from keeps_run [OF this hold] have "pack_inv H E b (est (snd (bnd (load_entries b m []) set_index w1)))"
      by (rule pack_inv_extra)
    with x d show ?thesis by (simp add: loadIndex_def bnd_def [of "attempt _"] attempt_def)
  qed
qed

lemma pack_inv_same: "packDir b' = packDir b \<Longrightarrow> pk_loose b' = pk_loose b \<Longrightarrow> pack_inv H E b' = pack_inv H E b"
  by (simp add: fun_eq_iff pack_inv_def handle_ok_def no_special_def manifest_ok_def loose_ok_def sound_record_def pack_path_def)

lemma pack_inv_reset:
  "pack_inv H E b s \<Longrightarrow> pack_inv H E b (s\<lparr>pk_index := [], packFile := None, packFilePath := p, packBytes := 0, packEntries := 0\<rparr>)"
  using tree_cong [of "s\<lparr>pk_index := [], packFile := None, packFilePath := p, packBytes := 0, packEntries := 0\<rparr>" s]
  by (simp add: pack_inv_def handle_ok_def)

lemma fs_New_ok: "fs_New p fo fl sync w = (Inr l, w') \<Longrightarrow> l = \<lparr>base = path_parts p, fanOut = fo, fanLevels = fl, dirSync = sync\<rparr>"
  by (auto simp: fs_New_def bnd_ok ret_def fail_def split: if_splits)

lemma keeps_fs_New: "keeps (pack_inv H E b) (fs_New p fo fl sync)"
  unfolding fs_New_def by (intro keeps_intros keeps_MkdirAll_pack)

lemma pk_New_wf:
  fixes w :: "'z packst_scheme env"
  assumes "pk_New p opts w = (Inr b, w')"
  shows "wf_packb b \<and> pk_base b = p \<and> packDir b = filepath_Join p ''packs'' \<and> pk_cfg b = fold (\<lambda>o1. o1) opts default_config"
proof -
  from assms obtain l and w1 w2 :: "'z packst_scheme env" where l: "ValidateBase p = Inr ()" "fs_New (filepath_Join p ''loose'') DefaultFanOut DefaultFanLevels False w1 = (Inr l, w2)"
    and b: "b = \<lparr>pk_base = p, pk_loose = l, packDir = filepath_Join p ''packs'', pk_cfg = fold (\<lambda>o1. o1) opts default_config\<rparr>"
    by (auto simp: pk_New_def Let_def bnd_ok of_result_def ret_def)
  have "l = fs_default (path_parts p @ [''loose'']) False"
    using fs_New_ok [OF l(2)] ValidateBase_ne [OF l(1)] by (simp add: fs_default_def path_parts_Join)
  with b l(1) show ?thesis by (simp add: wf_packb_def)
qed

lemma keeps_pk_New:
  assumes "wf_packb b" "utf8_ok (packDir b)"
  shows "keeps (pack_inv H E b) (pk_New (pk_base b) opts :: ('z packst_scheme, packb) act)"
proof -
  let ?I = "pack_inv H E b :: 'z packst_scheme \<Rightarrow> bool" and ?p = "pk_base b"
  have loose: "pk_loose b = fs_default (path_parts (filepath_Join ?p ''loose'')) False" "packDir b = filepath_Join ?p ''packs''"
    using assms(1) ValidateBase_ne [of ?p] by (simp_all add: wf_packb_def path_parts_Join)
  have rest: "keeps ?I (let b' = \<lparr>pk_base = ?p, pk_loose = l, packDir = filepath_Join ?p ''packs'', pk_cfg = fold (\<lambda>o1. o1) opts default_config\<rparr> in
      bnd get_st (\<lambda>s. bnd (put_st (s\<lparr>pk_index := [], packFile := None, packFilePath := '''', packBytes := 0, packEntries := 0\<rparr>)) (\<lambda>_.
      bnd (loadIndex b') (\<lambda>_. bnd (ensurePackFile b') (\<lambda>_. ret b')))))" (is "keeps ?I (let b' = ?b l in _)")
    if "l = pk_loose b" for l
  proof -
    have wf: "wf_packb (?b l)" "pack_inv H E (?b l) = (pack_inv H E b :: 'z packst_scheme \<Rightarrow> bool)" "utf8_ok (packDir (?b l))"
      using assms that loose(2) pack_inv_same [of "?b l" b] by (simp_all add: wf_packb_def)
    have l: "keeps ?I (loadIndex (?b l))" unfolding wf(2) [symmetric] by (rule keeps_loadIndex [OF wf(1,3)])
    have e: "keeps ?I (ensurePackFile (?b l))" unfolding wf(2) [symmetric] by (rule keeps_ensurePackFile [OF wf(1)])
    show ?thesis unfolding Let_def by (intro keeps_modify_then pack_inv_reset keeps_bnd [OF l] keeps_bnd [OF e] keeps_ret)
  qed
  show ?thesis
    unfolding pk_New_def Let_def
    by (intro keeps_bnd keeps_of_result keeps_wrapping keeps_MkdirAll_pack keeps_validateChain control_free_pack
        keeps_bnd_P [where P = "\<lambda>l. l = pk_loose b", OF _ _ rest [unfolded Let_def]] keeps_fs_New)
      (auto dest!: fs_New_ok simp: loose(1) fs_default_def)
qed

section \<open>What is served was put\<close>

lemma open_retry_ok:
  "open_retry n p e w = (Inr rc, w') \<Longrightarrow> \<exists>w1. node_at (est w1) = node_at (est w) \<and> os_OpenRead p w1 = (Inr rc, w')"
proof (induction n arbitrary: e w)
  case (Suc n)
  obtain x w1 where x: "os_OpenRead p w = (x, w1)" by fastforce
  show ?case
  proof (cases x)
    case (Inl f)
    have "keeps (\<lambda>s. node_at s = node_at (est w)) (os_OpenRead p)" by (intro keeps_reads) auto
    from keepsD [OF this x] have same: "node_at (est w1) = node_at (est w)" by simp
    obtain y w2 where y: "os_Stat p w1 = (y, w2)" by fastforce
    have "keeps (\<lambda>s. node_at s = node_at (est w)) (os_Stat p)" by (intro keeps_reads) auto
    from keepsD [OF this y] same have "node_at (est w2) = node_at (est w)" by simp
    moreover from Suc.prems x Inl y have "open_retry n p f w2 = (Inr rc, w')"
      by (auto simp: bnd_def attempt_def fail_def split: if_splits sum.splits)
    ultimately show ?thesis using Suc.IH by metis
  next
    case (Inr y)
    with Suc.prems x show ?thesis by (auto simp: bnd_def attempt_def ret_def)
  qed
qed (simp add: fail_def)

lemma fs_Get_sound:
  assumes "sane_layout s" "fs_Get s d w = (Inr rc, w')" "r_err rc = None"
  shows "fs_abs s (est w) d = Some (r_data rc)"
proof -
  have us: "usable s d" using fs_Get_unusable(1) [OF _ assms(2)] by auto
  obtain c w1 where c: "ctx_Err w = (c, w1)" by fastforce
  obtain y w2 where y: "openWithRetry (canon s d) w1 = (y, w2)" by fastforce
  from assms(2) c y have "openWithRetry (canon s d) w1 = (Inr rc, w')"
    using checkKey_usable [of s d "''fs: get''"] us
    by (cases c; cases y) (auto simp: fs_Get_def at_digestPath_usable [OF assms(1) us] bnd_def catch_def fail_def when_err_def split: if_splits)
  then have w1: "est w1 = est w" "openWithRetry (canon s d) w1 = (Inr rc, w')" using ctx_Err_estD [OF c] by simp_all
  from open_retry_ok [OF w1(2) [unfolded openWithRetry_def]] obtain w2 where
    w2: "node_at (est w2) = node_at (est w)" "os_OpenRead (canon s d) w2 = (Inr rc, w')" using w1(1) by auto
  with os_OpenRead_ok [OF w2(2)] assms(3) us show ?thesis by (auto simp: fs_abs_def nop_closer_def r_data_def)
qed

lemma section_sound:
  assumes "wf_packb b" "sound_record H b (est w) (d, r)" "os_OpenRead (path_parts (Pack r)) w = (Inr f, w')"
  shows "r_err f = None \<longrightarrow> r_data (section_of f (Offset r) (Size r)) \<in> H d"
proof
  assume err: "r_err f = None"
  from assms(2) obtain x c t where x: "is_pack x" "Pack r = filepath_Join (packDir b) x" "node_at (est w) (pack_path b x) = Some (Reg c t)"
    "record_slice r c \<in> H d" by (auto simp: sound_record_def)
  have "path_parts (Pack r) = pack_path b x" using x(1,2) join_path [OF assms(1) is_pack_plain] by simp
  with os_OpenRead_ok [OF assms(3)] err x(3) have "f = nop_closer c" by auto
  then have "r_data (section_of f (Offset r) (Size r)) = record_slice r c"
    by (simp add: section_of_def record_slice_def Let_def nop_closer_def r_data_def)
  with x(4) show "r_data (section_of f (Offset r) (Size r)) \<in> H d" by simp
qed

lemma section_err [simp]: "r_err (section_of f off n) = r_err f"
  by (simp add: section_of_def Let_def)

lemma pk_Get_sound:
  assumes "wf_packb b" "pack_inv H E b (est w)" "pk_Get b d w = (Inr rc, w')" "r_err rc = None"
  shows "r_data rc \<in> H d"
proof -
  from assms(3) obtain w0 ro w1 where g: "est w0 = est w" "live_record b d w0 = (Inr ro, w1)"
    "(case ro of None \<Rightarrow> fs_Get (pk_loose b) d | Some r \<Rightarrow>
       bnd (wrapping ''cas: open pack file'' (os_OpenRead (path_parts (Pack r)))) (\<lambda>f. ret (section_of f (Offset r) (Size r)))) w1 = (Inr rc, w')"
    by (auto simp: pk_Get_def bnd_ok [of ctx_Err] bnd_ok [of "when_err _"] bnd_ok [of "live_record _ _"] when_err_def
        dest!: ctx_Err_estD split: option.splits)
  have inv: "pack_inv H E b (est w1)" using keepsD [OF keeps_live_record [OF assms(1)] g(2)] g(1) assms(2) by simp
  show ?thesis
  proof (cases ro)
    case None
    with g(3) have "fs_abs (pk_loose b) (est w1) d = Some (r_data rc)"
      using fs_Get_sound [OF wf_dirs(3) [OF assms(1)] _ assms(4)] by simp
    with inv show ?thesis by (simp add: pack_inv_def loose_ok_def)
  next
    case (Some r)
    with g(3) obtain f where f: "os_OpenRead (path_parts (Pack r)) w1 = (Inr f, w')" "rc = section_of f (Offset r) (Size r)"
      by (auto simp: bnd_ok ret_def)
    note l = live_record_Some [OF g(2) [unfolded Some]]
    have "(d, r) \<in> set (pk_index (est w1))" using l packst_more(1) [of "est w1" "est w0"] map_of_SomeD by metis
    then have "sound_record H b (est w1) (d, r)" using inv by (simp add: pack_inv_def)
    from section_sound [OF assms(1) this f(1)] f(2) assms(4) show ?thesis by simp
  qed
qed

section \<open>Batches\<close>

definition request_record :: "string \<Rightarrow> packRequest \<Rightarrow> digest \<times> packRecord" where
  "request_record p q = (rq_digest q, \<lparr>Pack = p, Offset = rq_offset q, Size = rq_size q\<rparr>)"

definition groups_in :: "(digest \<times> packRecord) set \<Rightarrow> packGroup list \<Rightarrow> bool" where
  "groups_in S gs \<longleftrightarrow> (\<forall>g \<in> set gs. \<forall>q \<in> set (snd g). request_record (fst g) q \<in> S)"

lemma add_request_in: "groups_in S gs \<Longrightarrow> request_record p q \<in> S \<Longrightarrow> groups_in S (add_request p q gs)"
  by (induction p q gs rule: add_request.induct) (auto simp: groups_in_def)

lemma plan_loop_in:
  fixes w :: "'z packst_scheme env"
  shows "plan_loop b ds gs l st w = (Inr (gs', l', st'), w') \<Longrightarrow> set (pk_index (est w)) \<subseteq> S \<Longrightarrow> groups_in S gs \<Longrightarrow> groups_in S gs'"
proof (induction ds arbitrary: gs l st w)
  case (Cons d ds)
  show ?case
  proof (cases "map_of (pk_index (est w)) d")
    case None
    with Cons.prems(1) have "plan_loop b ds gs (l @ [d]) st w = (Inr (gs', l', st'), w')"
      by (auto simp: bnd_def when_err_def get_st_def split: option.splits)
    then show ?thesis by (rule Cons.IH) (use Cons.prems in auto)
  next
    case (Some r)
    let ?M = "\<lambda>s. osfs.more s = osfs.more (est w)"
    have "keeps ?M (wrapping ''cas: validate pack record'' (validPackRecord b r))"
      by (intro keeps_intros) (simp add: control_free_def)
    note more = keepsD [OF this]
    from Cons.prems(1) Some obtain valid and w1 :: "'z packst_scheme env" where
      v: "wrapping ''cas: validate pack record'' (validPackRecord b r) w = (Inr valid, w1)"
      "(if valid then plan_loop b ds (add_request (Pack r) \<lparr>rq_digest = d, rq_offset = Offset r, rq_size = Size r\<rparr> gs) l st
        else bnd (set_index (AList.delete d (pk_index (est w)))) (\<lambda>_. plan_loop b ds gs (l @ [d]) True)) w1 = (Inr (gs', l', st'), w')"
      by (auto simp: bnd_def [of "when_err _"] when_err_def bnd_def [of get_st] get_st_def bnd_ok [of "wrapping _ _"] split: option.splits)
    have idx: "pk_index (est w1) = pk_index (est w)" using more [OF v(1)] packst_more(1) [of "est w1" "est w"] by simp
    have "request_record (Pack r) \<lparr>rq_digest = d, rq_offset = Offset r, rq_size = Size r\<rparr> = (d, r)"
      by (cases r) (simp add: request_record_def)
    then have dr: "request_record (Pack r) \<lparr>rq_digest = d, rq_offset = Offset r, rq_size = Size r\<rparr> \<in> S"
      using Some Cons.prems(2) map_of_SomeD by fastforce
    show ?thesis
    proof (cases valid)
      case True
      with v(2) have "plan_loop b ds (add_request (Pack r) \<lparr>rq_digest = d, rq_offset = Offset r, rq_size = Size r\<rparr> gs) l st w1 = (Inr (gs', l', st'), w')"
        by simp
      then show ?thesis by (rule Cons.IH) (use Cons.prems idx dr in \<open>auto intro!: add_request_in\<close>)
    next
      case False
      with v(2) have "plan_loop b ds gs (l @ [d]) True (w1\<lparr>est := (est w1)\<lparr>pk_index := AList.delete d (pk_index (est w))\<rparr>\<rparr>) = (Inr (gs', l', st'), w')"
        by (simp add: set_index_def bnd_def get_st_def put_st_def)
      then show ?thesis by (rule Cons.IH) (use Cons.prems in \<open>auto simp: AList.delete_eq\<close>)
    qed
  qed
qed (simp add: ret_def)

lemma keeps_plan_loop: "keeps (pack_inv H E b) (plan_loop b ds gs l st)"
proof (induction ds arbitrary: gs l st E)
  case (Cons d ds)
  show ?case
    by (simp only: plan_loop.simps)
      (intro keeps_bnd [OF keeps_when_err] keeps_get_pack keeps_case_option keeps_bnd [OF keeps_wrapping [OF keeps_validPackRecord]]
        control_free_pack keeps_if keeps_bnd [OF keeps_drop_record] Cons)
qed (simp add: keeps_ret)

lemma keeps_planGetMany: "wf_packb b \<Longrightarrow> keeps (pack_inv H E b) (planGetMany b ds)"
  unfolding planGetMany_def by (intro keeps_bnd keeps_plan_loop keeps_case_prod keeps_if keeps_ret keeps_persistIndex)

lemma planGetMany_in:
  assumes "planGetMany b ds w = (Inr (gs, l), w')"
  shows "groups_in (set (pk_index (est w))) gs"
proof -
  from assms obtain st w1 where "plan_loop b ds [] [] False w = (Inr (gs, l, st), w1)"
    by (auto simp: planGetMany_def bnd_ok ret_def split: if_splits)
  then show ?thesis by (rule plan_loop_in) (simp_all add: groups_in_def)
qed

text \<open>The callback's state, as long as the callback keeps a property of it on streams that carry content of the history.\<close>

definition serves :: "history \<Rightarrow> 'c batch_fn \<Rightarrow> ('c \<Rightarrow> bool) \<Rightarrow> bool" where
  "serves H fn P \<longleftrightarrow> (\<forall>d rc c. P c \<longrightarrow> (r_err rc = None \<longrightarrow> r_data rc \<in> H d) \<longrightarrow> P (snd (fn d rc c)))"

lemma servesD: "serves H fn P \<Longrightarrow> P c \<Longrightarrow> r_err rc = None \<longrightarrow> r_data rc \<in> H d \<Longrightarrow> P (snd (fn d rc c))"
  by (simp add: serves_def)

lemma serve_requests_ok:
  assumes "serves H fn P" "\<And>q. q \<in> set qs \<Longrightarrow> r_err f = None \<longrightarrow> r_data (section_of f (rq_offset q) (rq_size q)) \<in> H (rq_digest q)" "P c"
  shows "P (snd (fst (serve_requests f qs fn c w))) \<and> est (snd (serve_requests f qs fn c w)) = est w"
  using assms(2,3)
proof (induction qs arbitrary: c w)
  case (Cons q qs)
  obtain x w1 where x: "ctx_Err w = (x, w1)" by fastforce
  let ?rc = "(section_of f (rq_offset q) (rq_size q))\<lparr>rc_close := None\<rparr>"
  have "r_data ?rc = r_data (section_of f (rq_offset q) (rq_size q))" by (simp add: r_data_def)
  then have "r_err ?rc = None \<longrightarrow> r_data ?rc \<in> H (rq_digest q)" using Cons.prems(1) [of q] by simp
  then have "P (snd (fn (rq_digest q) ?rc c))" by (rule servesD [OF assms(1) Cons.prems(2)])
  with Cons x ctx_Err_estD [OF x] show ?case
    by (auto split: sum.splits prod.splits option.splits)
qed simp

lemma serve_groups_ok:
  assumes "wf_packb b" "serves H fn P"
  shows "groups_in S gs \<Longrightarrow> pack_inv H S b (est w) \<Longrightarrow> P c \<Longrightarrow>
    P (snd (fst (serve_groups gs fn c w))) \<and> pack_inv H S b (est (snd (serve_groups gs fn c w)))"
proof (induction gs arbitrary: c w)
  case (Cons g gs)
  obtain x w1 where x: "os_OpenRead (path_parts (fst g)) w = (x, w1)" by fastforce
  have I: "pack_inv H S b (est w1)" using keepsD [OF keeps_reads(3) [OF control_free_pack] x] Cons.prems(2) by simp
  have "P (snd (fst (servePackGroup g fn c w))) \<and> pack_inv H S b (est (snd (servePackGroup g fn c w)))"
  proof (cases x)
    case (Inl e)
    with x I Cons.prems show ?thesis by (simp add: servePackGroup_def)
  next
    case (Inr f)
    have "r_err f = None \<longrightarrow> r_data (section_of f (rq_offset q) (rq_size q)) \<in> H (rq_digest q)" if "q \<in> set (snd g)" for q
    proof -
      have "request_record (fst g) q \<in> S" using Cons.prems(1) that by (simp add: groups_in_def)
      then have "sound_record H b (est w) (request_record (fst g) q)" using Cons.prems(2) by (simp add: pack_inv_def)
      from section_sound [OF assms(1) this [unfolded request_record_def], of f w1] x Inr show ?thesis by simp
    qed
    from serve_requests_ok [OF assms(2) this Cons.prems(3), of "snd g" w1] x I Inr show ?thesis
      by (auto simp: servePackGroup_def split: prod.splits)
  qed
  with Cons show ?case by (auto simp: groups_in_def split: prod.splits sum.splits)
qed simp

lemma serve_loose_ok:
  assumes "wf_packb b" "serves H fn P"
  shows "pack_inv H S b (est w) \<Longrightarrow> P c \<Longrightarrow>
    P (snd (fst (serve_loose b ds fn c w))) \<and> pack_inv H S b (est (snd (serve_loose b ds fn c w)))"
proof (induction ds arbitrary: c w)
  case (Cons d ds)
  obtain x w1 where x: "ctx_Err w = (x, w1)" by fastforce
  have I1: "pack_inv H S b (est w1)" using ctx_Err_estD [OF x] Cons.prems(1) by simp
  obtain y w2 where y: "fs_Get (pk_loose b) d w1 = (y, w2)" by fastforce
  have I2: "pack_inv H S b (est w2)" by (rule keepsD [OF keeps_loose_reads(1) y I1])
  have "P (snd (callBatchFn fn d rc c))" if "y = Inr rc" for rc
  proof -
    have "r_err rc = None \<longrightarrow> r_data rc \<in> H d"
      using fs_Get_sound [OF wf_dirs(3) [OF assms(1)] y [unfolded that]] I1 by (auto simp: pack_inv_def loose_ok_def)
    then have "P (snd (fn d rc c))" by (rule servesD [OF assms(2) Cons.prems(2)])
    then show ?thesis by (auto simp: callBatchFn_def split: prod.splits option.splits)
  qed
  with Cons x y I1 I2 show ?case by (auto split: prod.splits sum.splits option.splits)
qed simp

lemma pk_GetMany_ok:
  assumes "wf_packb b" "serves H fn P" "pack_inv H E b (est w)" "P c"
  shows "P (snd (fst (pk_GetMany b ds (Some fn) c w))) \<and> pack_inv H E b (est (snd (pk_GetMany b ds (Some fn) c w)))"
proof -
  obtain x w0 where x: "ctx_Err w = (x, w0)" by fastforce
  have e0: "est w0 = est w" by (rule ctx_Err_estD [OF x])
  obtain y w1 where y: "planGetMany b ds w0 = (y, w1)" by fastforce
  let ?S = "E \<union> set (pk_index (est w))"
  have I1: "pack_inv H ?S b (est w1)"
    using keepsD [OF keeps_planGetMany [OF assms(1)] y] pack_inv_hold [OF assms(3)] e0 by simp
  have "P (snd (fst (case serve_groups gs fn c w1 of ((Inl e, c'), w2) \<Rightarrow> ((Inl e, c'), w2)
      | ((Inr _, c'), w2) \<Rightarrow> serve_loose b l fn c' w2))) \<and>
    pack_inv H ?S b (est (snd (case serve_groups gs fn c w1 of ((Inl e, c'), w2) \<Rightarrow> ((Inl e, c'), w2)
      | ((Inr _, c'), w2) \<Rightarrow> serve_loose b l fn c' w2)))" if "y = Inr (gs, l)" for gs l
  proof -
    have "groups_in ?S gs" using planGetMany_in [OF y [unfolded that]] e0 by (auto simp: groups_in_def)
    from serve_groups_ok [OF assms(1,2) this I1 assms(4)]
    show ?thesis by (auto intro: serve_loose_ok [OF assms(1,2), THEN conjunct1] serve_loose_ok [OF assms(1,2), THEN conjunct2]
        split: prod.splits sum.splits)
  qed
  with x y I1 e0 assms(3,4) show ?thesis
    by (auto simp: pk_GetMany_def bnd_def intro: pack_inv_extra split: prod.splits sum.splits)
qed

section \<open>Runs\<close>

text \<open>
  One process after the other works on the store. Each operation comes with what the environment decides for it:
  its context, which calls fail or end the process, what writes accept, the clock, the random names. After a crash
  nothing has an effect until a new process opens the store.
\<close>

record schedule =
  sch_ctx :: ctx
  sch_faults :: "fault list"
  sch_wplan :: "(nat \<times> err option) list"
  sch_now :: int
  sch_random :: "nat list"

datatype pack_op =
  POpen "(pack_config \<Rightarrow> pack_config) list"
| PPut digest reader
| PGet digest
| PGetMany "digest list" "unit batch_fn option"
| PExists digest
| PDelete digest
| PList
| PStats
| PSize digest
| PModTime digest
| PStat digest
| PClean int
| PClose

definition under :: "schedule \<Rightarrow> 'z packst_scheme env \<Rightarrow> 'z packst_scheme env" where
  "under sch w = w\<lparr>ectx := sch_ctx sch,
     est := (est w)\<lparr>faults := sch_faults sch, wplan := sch_wplan sch, os_now := sch_now sch, pk_random := sch_random sch\<rparr>\<rparr>"

definition reborn :: "'z packst_scheme env \<Rightarrow> 'z packst_scheme env" where
  "reborn w = w\<lparr>est := (est w)\<lparr>crashed := False\<rparr>\<rparr>"

fun pack_do :: "packb \<Rightarrow> pack_op \<Rightarrow> 'z packst_scheme env \<Rightarrow> 'z packst_scheme env" where
  "pack_do b (POpen opts) w = w"
| "pack_do b (PPut d r) w = snd (pk_Put b d r w)"
| "pack_do b (PGet d) w = snd (pk_Get b d w)"
| "pack_do b (PGetMany ds fno) w = snd (pk_GetMany b ds fno () w)"
| "pack_do b (PExists d) w = snd (pk_Exists b d w)"
| "pack_do b (PDelete d) w = snd (pk_Delete b d w)"
| "pack_do b PList w = snd (pk_List b w)"
| "pack_do b PStats w = snd (pk_Stats b w)"
| "pack_do b (PSize d) w = snd (pk_Size b d w)"
| "pack_do b (PModTime d) w = snd (pk_ModTime b d w)"
| "pack_do b (PStat d) w = snd (pk_Stat b d w)"
| "pack_do b (PClean n) w = snd (pk_Clean b n w)"
| "pack_do b PClose w = snd (pk_Close w)"

fun pack_step :: "string \<Rightarrow> schedule \<times> pack_op \<Rightarrow> packb option \<times> 'z packst_scheme env \<Rightarrow> packb option \<times> 'z packst_scheme env" where
  "pack_step p (sch, POpen opts) (bo, w) =
     (case pk_New p opts (reborn (under sch w)) of (Inr b, w') \<Rightarrow> (Some b, w') | (Inl _, w') \<Rightarrow> (None, w'))"
| "pack_step p (sch, op1) (Some b, w) = (Some b, pack_do b op1 (under sch w))"
| "pack_step p (sch, op1) (None, w) = (None, w)"

definition pack_run :: "string \<Rightarrow> (schedule \<times> pack_op) list \<Rightarrow> packb option \<times> 'z packst_scheme env \<Rightarrow> packb option \<times> 'z packst_scheme env" where
  "pack_run p steps st = fold (pack_step p) steps st"

text \<open>The contents of the complete streams that were put under a digest.\<close>

definition puts_of :: "(schedule \<times> pack_op) list \<Rightarrow> history" where
  "puts_of steps d = {c. \<exists>sch r. (sch, PPut d r) \<in> set steps \<and> r_err r = None \<and> r_data r = c}"

definition proper_steps :: "(schedule \<times> pack_op) list \<Rightarrow> bool" where
  "proper_steps steps \<longleftrightarrow> list_all (\<lambda>(sch, op1). case op1 of PPut d r \<Rightarrow> proper_reader r | _ \<Rightarrow> True) steps"

definition fresh_base :: "string \<Rightarrow> 'z packst_scheme \<Rightarrow> bool" where
  "fresh_base p s \<longleftrightarrow> (\<forall>q. below (path_parts p) q \<longrightarrow> node_at s q = None) \<and> pk_index s = [] \<and> packFile s = None"

text \<open>A callback that collects what it is served.\<close>

definition collect :: "(digest \<times> bytes) list batch_fn" where
  "collect d rc acc = (None, if r_err rc = None then acc @ [(d, r_data rc)] else acc)"

definition plain_packb :: "string \<Rightarrow> packb" where
  "plain_packb p = \<lparr>pk_base = p, pk_loose = fs_default (path_parts p @ [''loose'']) False, packDir = filepath_Join p ''packs'',
     pk_cfg = default_config\<rparr>"

lemma pack_inv_under: "pack_inv H E b (est (under sch w)) = pack_inv H E b (est w)" "pack_inv H E b (est (reborn w)) = pack_inv H E b (est w)"
proof -
  have *: "pack_inv H E b s' = pack_inv H E b s"
    if "node_at s' = node_at s" "pk_index s' = pk_index s" "packFile s' = packFile s" "packFilePath s' = packFilePath s" for s s' :: "'a packst_scheme"
    using that tree_cong [of s' s] by (simp add: pack_inv_def handle_ok_def)
  show "pack_inv H E b (est (under sch w)) = pack_inv H E b (est w)" "pack_inv H E b (est (reborn w)) = pack_inv H E b (est w)"
    by (rule *; simp add: under_def reborn_def node_at_def fun_eq_iff)+
qed

lemma pack_do_inv:
  assumes "wf_packb b" "pack_inv H {} b (est w)" "\<And>d r. op1 = PPut d r \<Longrightarrow> proper_reader r \<and> (r_err r = None \<longrightarrow> r_data r \<in> H d)"
  shows "pack_inv H {} b (est (pack_do b op1 w))"
proof (cases op1)
  case (PPut d r)
  then show ?thesis using assms(3) by (auto intro!: keeps_run [OF keeps_pk_Put [OF assms(1)] assms(2)])
next
  case (PGetMany ds fno)
  have "serves H fn (\<lambda>_ :: unit. True)" for fn by (simp add: serves_def)
  from pk_GetMany_ok [OF assms(1) this assms(2) TrueI] PGetMany assms(2) show ?thesis
    by (cases fno) (simp_all add: pk_GetMany_def [of _ _ None])
qed (auto intro!: keeps_run [where I = "pack_inv H {} b" and w = w] keeps_pk_reads keeps_pk_Delete keeps_pk_List keeps_pk_Stats keeps_pk_Clean keeps_pk_Close assms(1,2))

lemma plain_wf: "ValidateBase p = Inr () \<Longrightarrow> wf_packb (plain_packb p)"
  by (simp add: wf_packb_def plain_packb_def)

lemma wf_plain:
  assumes "wf_packb b"
  shows "pack_inv H E (plain_packb (pk_base b)) s = pack_inv H E b s"
proof -
  have "pack_inv H E (plain_packb (pk_base b)) = pack_inv H E b"
    using assms by (intro pack_inv_same) (simp_all add: wf_packb_def plain_packb_def)
  then show ?thesis by (rule fun_cong)
qed

lemma pack_step_inv:
  assumes "ValidateBase p = Inr ()" "utf8_ok (filepath_Join p ''packs'')"
    "\<And>b. bo = Some b \<Longrightarrow> wf_packb b \<and> pk_base b = p" "pack_inv H {} (plain_packb p) (est w)"
    "\<And>d r. snd s = PPut d r \<Longrightarrow> proper_reader r \<and> (r_err r = None \<longrightarrow> r_data r \<in> H d)"
    "pack_step p s (bo, w) = (bo', w')"
  shows "(\<forall>b. bo' = Some b \<longrightarrow> wf_packb b \<and> pk_base b = p) \<and> pack_inv H {} (plain_packb p) (est w')"
proof -
  obtain sch op1 where s: "s = (sch, op1)" by fastforce
  consider (starts) opts where "op1 = POpen opts" | (none) "bo = None" "\<And>opts. op1 \<noteq> POpen opts"
    | (running) b where "bo = Some b" "\<And>opts. op1 \<noteq> POpen opts" by (cases bo; cases op1) auto
  then show ?thesis
  proof cases
    case (starts opts)
    let ?w = "reborn (under sch w)"
    obtain x w1 where x: "pk_New p opts ?w = (x, w1)" by fastforce
    have "pack_inv H {} (plain_packb p) (est ?w)" using assms(4) by (simp add: pack_inv_under)
    moreover have "keeps (pack_inv H {} (plain_packb p)) (pk_New p opts)"
      using keeps_pk_New [OF plain_wf [OF assms(1)], of H "{}" opts] assms(2) by (simp add: plain_packb_def)
    ultimately have "pack_inv H {} (plain_packb p) (est w1)" using keepsD x by blast
    with starts s x assms(6) pk_New_wf [of p opts ?w] show ?thesis by (auto split: sum.splits)
  next
    case none
    with s assms(4,6) show ?thesis by (cases op1) auto
  next
    case (running b)
    have b: "wf_packb b" "pk_base b = p" using assms(3) running(1) by auto
    have inv: "pack_inv H {} b (est (under sch w))" using assms(4) by (simp add: pack_inv_under wf_plain [OF b(1), symmetric] b(2))
    have "pack_inv H {} b (est (pack_do b op1 (under sch w)))"
      by (rule pack_do_inv [OF b(1) inv]) (use assms(5) s in auto)
    moreover have "bo' = Some b" "w' = pack_do b op1 (under sch w)" using running s assms(6) by (cases op1; auto)+
    ultimately show ?thesis using b by (simp add: wf_plain [OF b(1), symmetric])
  qed
qed

lemma pack_run_inv:
  assumes "ValidateBase p = Inr ()" "utf8_ok (filepath_Join p ''packs'')"
  shows "(\<forall>b. bo = Some b \<longrightarrow> wf_packb b \<and> pk_base b = p) \<Longrightarrow> pack_inv H {} (plain_packb p) (est w) \<Longrightarrow>
    (\<And>s d r. s \<in> set steps \<Longrightarrow> snd s = PPut d r \<Longrightarrow> proper_reader r \<and> (r_err r = None \<longrightarrow> r_data r \<in> H d)) \<Longrightarrow>
    pack_run p steps (bo, w) = (bo', w') \<Longrightarrow>
    (\<forall>b. bo' = Some b \<longrightarrow> wf_packb b \<and> pk_base b = p) \<and> pack_inv H {} (plain_packb p) (est w')"
proof (induction steps arbitrary: bo w)
  case (Cons s steps)
  obtain bo1 w1 where s1: "pack_step p s (bo, w) = (bo1, w1)" by fastforce
  have "(\<forall>b. bo1 = Some b \<longrightarrow> wf_packb b \<and> pk_base b = p) \<and> pack_inv H {} (plain_packb p) (est w1)"
  proof (rule pack_step_inv [OF assms _ Cons.prems(2) _ s1])
    show "proper_reader r \<and> (r_err r = None \<longrightarrow> r_data r \<in> H d)" if "snd s = PPut d r" for d r
      using that by (intro Cons.prems(3)) auto
  qed (use Cons.prems(1) in blast)
  moreover have "pack_run p steps (bo1, w1) = (bo', w')" using Cons.prems(4) s1 by (simp add: pack_run_def)
  ultimately show ?case by (intro Cons.IH [of bo1 w1]) (use Cons.prems(3) in auto)
qed (simp add: pack_run_def)

lemma fresh_inv:
  assumes "ValidateBase p = Inr ()" "fresh_base p s"
  shows "pack_inv H {} (plain_packb p) s"
proof -
  let ?b = "plain_packb p"
  note dirs = wf_dirs(1,2) [OF plain_wf [OF assms(1)]]
  have "node_at s (pack_path ?b x) = None" for x
    using assms(2) dirs(1) by (auto simp: fresh_base_def pack_path_def below_def plain_packb_def)
  moreover have "node_at s (canon (pk_loose ?b) d) = None" for d
    using assms(2) dirs(2) by (auto simp: fresh_base_def canon_def below_def plain_packb_def)
  ultimately show ?thesis using assms(2)
    by (auto simp: pack_inv_def handle_ok_def no_special_def manifest_ok_def loose_ok_def fs_abs_def fresh_base_def)
qed

end
