(* ===== verification/Pack_Live.thy ===== *)
theory Pack_Live
  imports Pack_Machine
begin

text \<open>
  The packed backend on a working system: \<open>works K J m\<close> says that under a live context \<open>m\<close> succeeds from every state in
  \<open>K\<close> and ends in \<open>J\<close>. The state \<open>working\<close> is a healthy tree in which the directories of the store exist and nothing but the
  store's own files stands in the pack directory.
\<close>

section \<open>Success\<close>

definition works :: "('b \<Rightarrow> bool) \<Rightarrow> ('a \<Rightarrow> 'b \<Rightarrow> bool) \<Rightarrow> ('b, 'a) act \<Rightarrow> bool" where
  "works K J m \<longleftrightarrow> (\<forall>w. ectx w = Live \<longrightarrow> K (est w) \<longrightarrow> (\<exists>x s'. m w = (Inr x, w\<lparr>est := s'\<rparr>) \<and> J x s'))"

lemma worksI: "(\<And>w. ectx w = Live \<Longrightarrow> K (est w) \<Longrightarrow> \<exists>x s'. m w = (Inr x, w\<lparr>est := s'\<rparr>) \<and> J x s') \<Longrightarrow> works K J m"
  by (simp add: works_def)

lemma works_runI:
  assumes "\<And>w. ectx w = Live \<Longrightarrow> K (est w) \<Longrightarrow> \<exists>x w'. m w = (Inr x, w') \<and> ectx w' = Live \<and> J x (est w')"
  shows "works K J m"
proof (rule worksI)
  fix w :: "'a env"
  assume w: "ectx w = Live" "K (est w)"
  from assms [OF this] obtain x w' where x: "m w = (Inr x, w')" "ectx w' = Live" "J x (est w')" by blast
  have "w' = w\<lparr>est := est w'\<rparr>" using x(2) w(1) by (cases w; cases w') simp
  with x show "\<exists>x s'. m w = (Inr x, w\<lparr>est := s'\<rparr>) \<and> J x s'" by metis
qed

lemma worksE:
  assumes "works K J m" "ectx w = Live" "K (est w)"
  obtains x s' where "m w = (Inr x, w\<lparr>est := s'\<rparr>)" "J x s'"
  using assms unfolding works_def by blast

lemma works_bnd:
  assumes "works K J m" "\<And>x. works (J x) L (f x)"
  shows "works K L (bnd m f)"
proof (rule worksI)
  fix w :: "'a env"
  assume w: "ectx w = Live" "K (est w)"
  from worksE [OF assms(1) w] obtain x s' where m: "m w = (Inr x, w\<lparr>est := s'\<rparr>)" "J x s'" .
  from worksE [OF assms(2), of "w\<lparr>est := s'\<rparr>" x] m(2) w(1) obtain y s'' where "f x (w\<lparr>est := s'\<rparr>) = (Inr y, w\<lparr>est := s''\<rparr>)" "L y s''"
    by auto
  with m(1) show "\<exists>y s''. bnd m f w = (Inr y, w\<lparr>est := s''\<rparr>) \<and> L y s''" by (auto simp: bnd_def)
qed

lemma works_ret: "(\<And>s. K s \<Longrightarrow> J x s) \<Longrightarrow> works K J (ret x)"
  unfolding works_def by (auto simp: ret_def intro!: exI [of _ "est _"])

lemma works_weaken: "works K J m \<Longrightarrow> (\<And>s. K' s \<Longrightarrow> K s) \<Longrightarrow> (\<And>x s. J x s \<Longrightarrow> J' x s) \<Longrightarrow> works K' J' m"
  unfolding works_def by blast

lemma works_wrapping: "works K J m \<Longrightarrow> works K J (wrapping msg m)"
  unfolding works_def wrapping_def by fastforce

lemma works_or_else: "works K J m \<Longrightarrow> works K J (or_else m c)"
  unfolding works_def or_else_def catch_def by fastforce

lemma works_ctx: "works K (\<lambda>_. K) ctx_Err"
  unfolding works_def by (auto intro!: exI [of _ "est _"])

lemma works_get: "(\<And>s0. K s0 \<Longrightarrow> works (\<lambda>s. s = s0) J (f s0)) \<Longrightarrow> works K J (bnd get_st f)"
  unfolding works_def by (simp add: bnd_def get_st_def)

lemma works_put_st: "J () s' \<Longrightarrow> works K J (put_st s')"
  unfolding works_def by (auto simp: put_st_def)

lemma works_from: "works K J m \<Longrightarrow> K s0 \<Longrightarrow> works (\<lambda>s. s = s0) J m"
  by (erule works_weaken) auto

lemma works_keeps: "works K J m \<Longrightarrow> keeps I m \<Longrightarrow> works (\<lambda>s. K s \<and> I s) (\<lambda>x s. J x s \<and> I s) m"
  unfolding works_def keeps_def by fastforce

lemma works_attempt: "works K (\<lambda>x s. J (Inr x) s) m \<Longrightarrow> works K J (attempt m)"
  unfolding works_def attempt_def by fastforce

text \<open>A call on a healthy tree.\<close>

lemma works_syscall:
  assumes "\<And>s. K s \<Longrightarrow> healthy s \<and> (\<exists>x s'. call s = (Inr x, s') \<and> J x s')"
  shows "works K J (syscall call)"
proof (rule worksI)
  fix w :: "'a osfs_scheme env"
  assume "K (est w)"
  with assms obtain x s' where "healthy (est w)" "call (est w) = (Inr x, s')" "J x s'" by blast
  then show "\<exists>x s'. syscall call w = (Inr x, w\<lparr>est := s'\<rparr>) \<and> J x s'" by (auto simp: syscall_healthy)
qed

section \<open>The working store\<close>

definition pack_dirs :: "packb \<Rightarrow> 'z osfs_scheme \<Rightarrow> bool" where
  "pack_dirs b s \<longleftrightarrow> (\<forall>q \<in> insert (path_parts (packDir b)) (set (parents (path_parts (packDir b)))). node_at s q = Some Dir)"

definition working :: "packb \<Rightarrow> path set \<Rightarrow> 'z osfs_scheme \<Rightarrow> bool" where
  "working b F s \<longleftrightarrow> healthy s \<and> fs_tree (pk_loose b) s \<and> pack_dirs b s \<and> (\<forall>x. file_slot (node_at s (pack_path b x))) \<and>
     (\<forall>x. HasSuffix x ''.tmp'' \<longrightarrow> pack_path b x \<in> F \<or> node_at s (pack_path b x) = None) \<and>
     (\<forall>d i. node_at s (temp_name (canon (pk_loose b) d) i) = None)"

lemma working_control: "working b F s \<Longrightarrow> healthy s" "working b F s \<Longrightarrow> pack_dirs b s"
  by (simp_all add: working_def)

lemma parents_pack: "pack_dirs b s \<Longrightarrow> \<forall>q \<in> set (parents (pack_path b x)). node_at s q = Some Dir"
  by (auto simp: pack_dirs_def pack_path_def parents_snoc split: if_splits)

lemma pack_not_dir:
  assumes "wf_packb b"
  shows "pack_path b x \<notin> insert (base (pk_loose b)) (set (parents (base (pk_loose b))))"
    "pack_path b x \<notin> insert (path_parts (packDir b)) (set (parents (path_parts (packDir b))))"
  using wf_dirs(1,2) [OF assms] parents_shorter [of "pack_path b x"] by (fastforce simp: pack_path_def)+

lemma fs_tree_pack:
  assumes "wf_packb b" "fs_tree (pk_loose b) s" "CHR ''.'' \<in> set x"
  shows "fs_tree (pk_loose b) (set_node (pack_path b x) n s)" "fs_tree (pk_loose b) (del_node (pack_path b x) s)"
proof -
  have slot: "slot_ok ((node_at s)(pack_path b x := v)) (canon (pk_loose b) d)" if "slot_ok (node_at s) (canon (pk_loose b) d)" for v d
    using that pack_not_loose [OF assms(1), of x d] pack_not_loose(2) [OF assms(1), of x d, symmetric] by (auto simp: slot_ok_def)
  have named: "ParseDigest (last (pack_path b x)) \<noteq> Inr d" for d
    using ParseDigest_OkD [of x d] Digest_String_no_dot [of d] assms(3) by auto
  have "fs_tree (pk_loose b) s'" if "node_at s' = (node_at s)(pack_path b x := v)" "distinct (map fst (nodes s'))" for v and s' :: "'a osfs_scheme"
    by (rule fs_tree_upd [OF assms(2) that pack_not_dir(1) [OF assms(1)]]) (use named slot in auto)
  then show "fs_tree (pk_loose b) (set_node (pack_path b x) n s)" "fs_tree (pk_loose b) (del_node (pack_path b x) s)"
    using assms(2) by (simp_all add: node_at_upd distinct_nodes fs_tree_distinct)
qed

lemma working_set:
  assumes "wf_packb b" "working b F s" "CHR ''.'' \<in> set x" "HasSuffix x ''.tmp'' \<longrightarrow> pack_path b x \<in> F"
  shows "working b F (set_node (pack_path b x) (Reg c t) s)"
  using assms fs_tree_pack(1) [OF assms(1) _ assms(3)] pack_not_loose(2) [OF assms(1), symmetric] pack_not_dir(2) [OF assms(1), of x]
  by (auto simp: working_def pack_dirs_def file_slot_def)

lemma working_del:
  assumes "wf_packb b" "working b F s" "CHR ''.'' \<in> set x"
  shows "working b (F - {pack_path b x}) (del_node (pack_path b x) s)"
  using assms fs_tree_pack(2) [OF assms(1) _ assms(3)] pack_not_loose(2) [OF assms(1), symmetric] pack_not_dir(2) [OF assms(1), of x]
  by (auto simp: working_def pack_dirs_def file_slot_def)

section \<open>Calls on the pack directory\<close>

lemma dot_in_temp [simp]: "CHR ''.'' \<in> set (pre @ dec n @ ''.tmp'')"
  by simp

lemma HasSuffix_temp [simp]: "HasSuffix (pre @ dec n @ ''.tmp'') ''.tmp''"
  unfolding HasSuffix_iff by (metis append.assoc)

lemma working_random [simp]: "working b F (s\<lparr>pk_random := xs\<rparr>) = working b F s"
  by (simp add: working_def fs_tree_def healthy_def pack_dirs_def)

lemma works_next_random: "(\<And>s xs. K s \<Longrightarrow> K (s\<lparr>pk_random := xs\<rparr>)) \<Longrightarrow> works K (\<lambda>_. K) next_random"
  by (rule works_runI) (auto simp: next_random_def bnd_def get_st_def put_st_def ret_def split: list.split)

lemma in_dir_pack: "working b F s \<Longrightarrow> in_dir (pack_path b x) k s = k s"
  by (rule in_dir_clear [OF parents_pack [OF working_control(2)]])

lemma works_OpenExcl:
  "works (\<lambda>s. working b F s \<and> node_at s (pack_path b x) = None) (\<lambda>_ s'. \<exists>s t. working b F s \<and> s' = set_node (pack_path b x) (Reg [] t) s)
    (os_OpenExcl (pack_path b x))"
  unfolding os_OpenExcl_def
proof (rule works_syscall)
  fix s
  assume s: "working b F s \<and> node_at s (pack_path b x) = None"
  let ?call = "\<lambda>s. case node_at s (pack_path b x) of None \<Rightarrow> (Inr (), set_node (pack_path b x) (Reg [] (os_now s)) s) | Some _ \<Rightarrow> (Inl ErrExist, s)"
  have "in_dir (pack_path b x) ?call s = (Inr (), set_node (pack_path b x) (Reg [] (os_now s)) s)"
    using s by (simp add: in_dir_pack [OF conjunct1 [OF s]])
  with s show "healthy s \<and> (\<exists>y s'. in_dir (pack_path b x) ?call s = (Inr y, s') \<and>
      (\<exists>s t. working b F s \<and> s' = set_node (pack_path b x) (Reg [] t) s))"
    using working_control(1) by blast
qed

lemma works_CreateTemp:
  assumes "wf_packb b" "\<And>x. pack_path b (pre @ dec x @ ''.tmp'') \<notin> F"
  shows "works (working b F) (\<lambda>f s. working b (insert f F) s \<and> (\<exists>x. f = pack_path b (pre @ dec x @ ''.tmp'')) \<and> spooled f [] s)
    (os_CreateTemp (path_parts (packDir b)) pre)"
proof -
  let ?J = "\<lambda>f s. working b (insert f F) s \<and> (\<exists>x. f = pack_path b (pre @ dec x @ ''.tmp'')) \<and> spooled f [] s"
  have "works (working b F) ?J (catch (bnd (os_OpenExcl p) (\<lambda>_. ret p)) h)" if p: "p = pack_path b (pre @ dec x @ ''.tmp'')" for p h x
  proof -
    have free: "node_at s p = None" if "working b F s" for s using that assms(2) [of x] p unfolding working_def by (metis HasSuffix_temp)
    have "?J p (set_node p (Reg [] t) s)" if "working b F s" for s t
    proof -
      have "working b (insert p F) s" using that by (auto simp: working_def)
      from working_set [OF assms(1) this, of "pre @ dec x @ ''.tmp''" "[]" t] show ?thesis using p by (auto simp: spooled_def)
    qed
    then have "works (working b F) ?J (bnd (os_OpenExcl p) (\<lambda>_. ret p))"
      unfolding p by (intro works_bnd [OF works_weaken [OF works_OpenExcl] works_ret]) (use free p in auto)
    then show ?thesis unfolding works_def catch_def by fastforce
  qed
  note step = this
  have eq: "create_temp (Suc n) (path_parts (packDir b)) pre = bnd next_random (\<lambda>x. catch (bnd (os_OpenExcl (pack_path b (pre @ dec x @ ''.tmp'')))
      (\<lambda>_. ret (pack_path b (pre @ dec x @ ''.tmp'')))) (\<lambda>e. if errors_Is e ErrExist then create_temp n (path_parts (packDir b)) pre else fail e))" for n
    by (simp add: Let_def pack_path_def)
  have "works (working b F) ?J (bnd next_random (\<lambda>x. catch (bnd (os_OpenExcl (pack_path b (pre @ dec x @ ''.tmp'')))
      (\<lambda>_. ret (pack_path b (pre @ dec x @ ''.tmp'')))) (h x)))" for h
    by (rule works_bnd [OF works_next_random step [OF refl]]) simp
  then have "works (working b F) ?J (create_temp (Suc 9999) (path_parts (packDir b)) pre)" unfolding eq .
  then show ?thesis by (simp del: create_temp.simps add: os_CreateTemp_def)
qed

text \<open>Filling, removing and renaming the temporary file.\<close>

lemma append_set: "node_at s p = Some (Reg c t) \<Longrightarrow> append_at p v s = (if v = [] then s else set_node p (Reg (c @ v) (os_now s)) s)"
  by (simp add: append_at_def)

lemma working_append:
  assumes "wf_packb b" "working b F s" "CHR ''.'' \<in> set x" "HasSuffix x ''.tmp'' \<longrightarrow> pack_path b x \<in> F" "spooled (pack_path b x) c s"
  shows "working b F (append_at (pack_path b x) v s) \<and> spooled (pack_path b x) (c @ v) (append_at (pack_path b x) v s)"
proof -
  from assms(5) obtain t where t: "node_at s (pack_path b x) = Some (Reg c t)" by (auto simp: spooled_def)
  show ?thesis using assms(2) working_set [OF assms(1-4)] by (auto simp: append_set [OF t] spooled_def t)
qed

lemma works_Copy:
  assumes "wf_packb b" "CHR ''.'' \<in> set x" "HasSuffix x ''.tmp'' \<longrightarrow> pack_path b x \<in> F" "r_err r = None"
  shows "works (\<lambda>s. working b F s \<and> spooled (pack_path b x) c s)
    (\<lambda>n s. working b F s \<and> spooled (pack_path b x) (c @ r_data r) s \<and> n = length (r_data r)) (os_Copy (pack_path b x) r)"
  by (rule works_runI)
    (use os_Copy_healthy [OF _ _ assms(4)] working_append [OF assms(1) _ assms(2,3)] working_control(1) in fastforce)

lemma os_WriteAll_healthy:
  assumes "healthy (est w)" "ectx w = Live"
  shows "os_WriteAll p v w = (Inr (), w\<lparr>est := append_at p v (est w)\<rparr>)"
  using WriteAll_live [of w "\<lparr>w_out = [], w_plan = []\<rparr>" v] assms by (simp add: os_WriteAll_def healthy_def Let_def)

lemma works_Write:
  assumes "wf_packb b" "CHR ''.'' \<in> set x" "HasSuffix x ''.tmp'' \<longrightarrow> pack_path b x \<in> F"
  shows "works (\<lambda>s. working b F s \<and> spooled (pack_path b x) c s)
    (\<lambda>_ s. working b F s \<and> spooled (pack_path b x) (c @ v) s) (os_Write (pack_path b x) v)"
    "works (\<lambda>s. working b F s \<and> spooled (pack_path b x) c s)
    (\<lambda>_ s. working b F s \<and> spooled (pack_path b x) (c @ v) s) (os_WriteAll (pack_path b x) v)"
  by (rule works_runI, use os_Write_healthy os_WriteAll_healthy working_append [OF assms(1) _ assms(2,3)] working_control(1) in fastforce)+

lemma works_in_dir:
  assumes "\<And>s. K s \<Longrightarrow> working b F s" "\<And>s. K s \<Longrightarrow> \<exists>y s'. k s = (Inr y, s') \<and> J y s'"
  shows "works K J (syscall (in_dir (pack_path b x) k))"
proof (rule works_syscall)
  fix s
  assume K: "K s"
  have "in_dir (pack_path b x) k s = k s" by (rule in_dir_pack [OF assms(1) [OF K]])
  with assms K working_control(1) show "healthy s \<and> (\<exists>y s'. in_dir (pack_path b x) k s = (Inr y, s') \<and> J y s')" by metis
qed

lemma works_plain: "(\<And>s. K s \<Longrightarrow> healthy s) \<Longrightarrow> works K (\<lambda>_. K) (os_Close p)" "(\<And>s. K s \<Longrightarrow> healthy s) \<Longrightarrow> works K (\<lambda>_. K) (os_Rewind p)"
  unfolding os_Close_def os_Rewind_def by (intro works_syscall; auto)+

lemma works_Remove:
  assumes "wf_packb b" "CHR ''.'' \<in> set x"
  shows "works (\<lambda>s. working b F s \<and> spooled (pack_path b x) c s) (\<lambda>_ s. working b (F - {pack_path b x}) s) (os_Remove (pack_path b x))"
  unfolding os_Remove_def
  by (rule works_in_dir) (use working_del [OF assms(1) _ assms(2)] in \<open>auto simp: spooled_def\<close>)

lemma works_Rename:
  assumes "wf_packb b" "CHR ''.'' \<in> set x" "x \<noteq> ''index.json''"
  shows "works (\<lambda>s. working b F s \<and> spooled (pack_path b x) c s)
    (\<lambda>_ s. working b (F - {pack_path b x}) s \<and> spooled (pack_path b ''index.json'') c s)
    (os_Rename (pack_path b x) (pack_path b ''index.json''))"
  unfolding os_Rename_def
proof (rule works_in_dir)
  fix s
  assume s: "working b F s \<and> spooled (pack_path b x) c s"
  then obtain t where t: "node_at s (pack_path b x) = Some (Reg c t)" by (auto simp: spooled_def)
  let ?s = "del_node (pack_path b x) (set_node (pack_path b ''index.json'') (Reg c t) s)"
  have "file_slot (node_at s (pack_path b ''index.json''))" using s by (simp add: working_def)
  then have "node_at s (pack_path b ''index.json'') \<noteq> Some Dir" by (auto simp: file_slot_def)
  moreover have "working b (F - {pack_path b x}) ?s"
    by (intro working_del working_set assms) (use s in \<open>auto simp: HasSuffix_def\<close>)
  moreover have "spooled (pack_path b ''index.json'') c ?s" using assms(3) by (auto simp: spooled_def)
  ultimately show "\<exists>y s'. in_dir (pack_path b ''index.json'') (\<lambda>s. case node_at s (pack_path b x) of
         None \<Rightarrow> (Inl ErrNotExist, s)
       | Some Dir \<Rightarrow> (Inl EISDIR, s)
       | Some n \<Rightarrow> if node_at s (pack_path b ''index.json'') = Some Dir then (Inl ErrExist, s)
                   else if pack_path b x = pack_path b ''index.json'' then (Inr (), s)
                   else (Inr (), del_node (pack_path b x) (set_node (pack_path b ''index.json'') n s))) s = (Inr y, s') \<and>
      working b (F - {pack_path b x}) s' \<and> spooled (pack_path b ''index.json'') c s'"
    using t assms(3) by (simp add: in_dir_pack [OF conjunct1 [OF s]])
qed auto

lemma works_OpenAppend:
  assumes "wf_packb b" "is_pack x"
  shows "works (working b F) (\<lambda>_ s. working b F s) (os_OpenAppend (pack_path b x))"
  unfolding os_OpenAppend_def
proof (rule works_in_dir)
  fix s
  assume s: "working b F s"
  have x: "CHR ''.'' \<in> set x" "\<not> HasSuffix x ''.tmp''"
    using assms(2) last_pack [OF assms(2)] by (auto simp: is_pack_def HasSuffix_iff)
  from s have "file_slot (node_at s (pack_path b x))" by (simp add: working_def)
  then show "\<exists>y s'. (case node_at s (pack_path b x) of
         None \<Rightarrow> (Inr (), set_node (pack_path b x) (Reg [] (os_now s)) s)
       | Some Dir \<Rightarrow> (Inl EISDIR, s)
       | Some (Link _) \<Rightarrow> follow_link s
       | Some _ \<Rightarrow> (Inr (), s)) = (Inr y, s') \<and> working b F s'"
    using working_set [OF assms(1) s x(1)] x(2) s by (auto simp: file_slot_def)
qed

text \<open>The checks of the way to a file of the pack directory.\<close>

lemma chain_dir:
  assumes "healthy (est w)" "\<forall>q \<in> insert (cur @ [c]) (set (parents (cur @ [c]))). node_at (est w) q = Some Dir"
  shows "chain_loop cur [c] True w = (Inr (), w)"
  using assms os_Lstat_healthy [of w "cur @ [c]"] by (simp add: bnd_def attempt_def ret_def)

lemma chain_file:
  assumes "healthy (est w)" "\<forall>q \<in> insert (cur @ [c]) (set (parents (cur @ [c]))). node_at (est w) q = Some Dir"
    "file_slot (node_at (est w) (cur @ [c, x]))"
  shows "chain_loop cur [c, x] False w = (Inr (), w)"
proof -
  have "\<forall>q \<in> set (parents (cur @ [c, x])). node_at (est w) q = Some Dir"
    using assms(2) parents_snoc [of "cur @ [c]" x] by auto
  then show ?thesis
    using assms os_Lstat_healthy [of w "cur @ [c]"] os_Lstat_healthy [of w "cur @ [c, x]"]
    by (auto simp: bnd_def attempt_def ret_def file_slot_def)
qed

lemma Validate_works:
  assumes "wf_packb b" "working b F (est w)"
  shows "ValidateDir (path_parts (pk_base b)) (path_parts (packDir b)) w = (Inr (), w)"
    "ValidateFile (path_parts (pk_base b)) (pack_path b x) w = (Inr (), w)"
    "ValidateFile (path_parts (packDir b)) (pack_path b x) w = (Inr (), w)"
proof -
  note d = wf_dirs(1) [OF assms(1)]
  have h: "healthy (est w)" using assms(2) by (rule working_control)
  have dirs: "\<forall>q \<in> insert (path_parts (packDir b)) (set (parents (path_parts (packDir b)))). node_at (est w) q = Some Dir"
    using working_control(2) [OF assms(2)] by (simp add: pack_dirs_def)
  have slot: "file_slot (node_at (est w) (pack_path b x))" using assms(2) by (simp add: working_def)
  show "ValidateDir (path_parts (pk_base b)) (path_parts (packDir b)) w = (Inr (), w)"
    using chain_dir [OF h] dirs by (simp add: ValidateDir_def validateChain_def d)
  show "ValidateFile (path_parts (pk_base b)) (pack_path b x) w = (Inr (), w)"
    using chain_file [OF h] dirs slot by (simp add: ValidateFile_def validateChain_def pack_path_def d)
  have "os_Lstat (pack_path b x) w = ((case node_at (est w) (pack_path b x) of None \<Rightarrow> Inl ErrNotExist | Some n \<Rightarrow> Inr n), w)"
    by (rule os_Lstat_healthy [OF h parents_pack [OF working_control(2) [OF assms(2)]]])
  with slot show "ValidateFile (path_parts (packDir b)) (pack_path b x) w = (Inr (), w)"
    by (auto simp: ValidateFile_def validateChain_def pack_path_def bnd_def attempt_def ret_def file_slot_def)
qed

lemma works_same: "(\<And>w. K (est w) \<Longrightarrow> m w = (Inr x, w)) \<Longrightarrow> (\<And>s. K s \<Longrightarrow> J x s) \<Longrightarrow> works K J m"
  by (rule works_runI) auto

lemma works_Validate:
  assumes "wf_packb b" "\<And>s. K s \<Longrightarrow> working b F s"
  shows "works K (\<lambda>_. K) (ValidateDir (path_parts (pk_base b)) (path_parts (packDir b)))"
    "works K (\<lambda>_. K) (ValidateFile (path_parts (pk_base b)) (pack_path b x))"
    "works K (\<lambda>_. K) (ValidateFile (path_parts (packDir b)) (pack_path b x))"
  by (rule works_same, rule Validate_works [OF assms(1)], erule assms(2), assumption)+

lemma working_forget: "working b F s \<Longrightarrow> node_at s p = None \<Longrightarrow> working b (F - {p}) s"
  unfolding working_def by auto

lemma works_discard:
  assumes "wf_packb b" "CHR ''.'' \<in> set x"
  shows "works (working b F) (\<lambda>_. working b (F - {pack_path b x})) (discard (pack_path b x))"
proof (rule works_runI)
  fix w :: "'a osfs_scheme env"
  assume w: "ectx w = Live" "working b F (est w)"
  let ?p = "pack_path b x"
  have h: "healthy (est w)" by (rule working_control(1) [OF w(2)])
  have close1: "os_Close ?p w = (Inr (), w)" using h by (simp add: os_Close_def syscall_healthy)
  have "file_slot (node_at (est w) ?p)" using w(2) by (simp add: working_def)
  then consider "node_at (est w) ?p = None" | c t where "node_at (est w) ?p = Some (Reg c t)" by (auto simp: file_slot_def)
  then show "\<exists>y w'. discard ?p w = (Inr y, w') \<and> ectx w' = Live \<and> working b (F - {?p}) (est w')"
  proof cases
    case 1
    then have "os_Remove ?p w = (Inl ErrNotExist, w)"
      using h by (simp add: os_Remove_def syscall_healthy in_dir_pack [OF w(2)])
    with close1 w working_forget [OF w(2) 1] show ?thesis
      by (simp add: discard_def ignore_def bnd_def catch_def ret_def)
  next
    case 2
    then have "os_Remove ?p w = (Inr (), w\<lparr>est := del_node ?p (est w)\<rparr>)"
      using h by (simp add: os_Remove_def syscall_healthy in_dir_pack [OF w(2)])
    with close1 w working_del [OF assms(1) w(2) assms(2)] show ?thesis
      by (simp add: discard_def ignore_def bnd_def catch_def ret_def)
  qed
qed

section \<open>The manifest\<close>

lemma works_renameWithRetry: "works K J (os_Rename tmp p) \<Longrightarrow> works K (\<lambda>_. J ()) (renameWithRetry tmp p)"
  unfolding renameWithRetry_def works_def
  by (fastforce simp: numeral_eq_Suc bnd_def attempt_def ret_def)

lemma works_persistIndex:
  assumes "wf_packb b" "\<And>x. pack_path b (''index-'' @ dec x @ ''.tmp'') \<notin> F"
  shows "works (\<lambda>s. working b F s \<and> pk_index s = idx)
    (\<lambda>_ s. working b F s \<and> spooled (pack_path b ''index.json'') (json_MarshalIndent (manifest_json idx)) s)
    (persistIndex b :: ('z packst_scheme, unit) act)"
proof -
  let ?data = "json_MarshalIndent (manifest_json idx)" and ?K = "working b F :: 'z packst_scheme \<Rightarrow> bool"
  let ?J = "\<lambda>s :: 'z packst_scheme. working b F s \<and> spooled (pack_path b ''index.json'') ?data s"
  have rename1: "works (\<lambda>s. working b (insert (pack_path b x) F) s \<and> spooled (pack_path b x) ?data s) (\<lambda>_. ?J) (rename_manifest b (pack_path b x))"
    if x: "pack_path b x \<notin> F" "CHR ''.'' \<in> set x" "x \<noteq> ''index.json''" for x
  proof -
    have "works (\<lambda>s. working b (insert (pack_path b x) F) s \<and> spooled (pack_path b x) ?data s) (\<lambda>_. ?J)
        (os_Rename (pack_path b x) (pack_path b ''index.json''))"
      using x(1) by (intro works_weaken [OF works_Rename [OF assms(1) x(2,3)]]) auto
    then show ?thesis
      unfolding rename_manifest_def manifest_path [OF assms(1)]
      by (intro works_bnd [where J = "\<lambda>_ s. working b (insert (pack_path b x) F) s \<and> spooled (pack_path b x) ?data s"]
          works_or_else works_wrapping works_plain works_renameWithRetry) (auto intro: working_control(1))
  qed
  have write1: "works (\<lambda>s. working b (insert f F) s \<and> (\<exists>x. f = pack_path b (''index-'' @ dec x @ ''.tmp'')) \<and> spooled f [] s) (\<lambda>_. ?J)
      (write_manifest b ?data f)" for f
  proof (cases "\<exists>x. f = pack_path b (''index-'' @ dec x @ ''.tmp'')")
    case True
    then obtain x where f: "f = pack_path b (''index-'' @ dec x @ ''.tmp'')" by blast
    have "works (\<lambda>s. working b (insert f F) s \<and> spooled f [] s) (\<lambda>_ s. working b (insert f F) s \<and> spooled f ?data s)
        (os_Write f ?data :: ('z packst_scheme, unit) act)"
      using works_Write(1) [OF assms(1), of "''index-'' @ dec x @ ''.tmp''" "insert f F" "[]" ?data] f by simp
    then have "works (\<lambda>s. working b (insert f F) s \<and> spooled f [] s) (\<lambda>_. ?J) (write_manifest b ?data f)"
      unfolding write_manifest_def
      by (intro works_bnd [OF works_or_else [OF works_wrapping]]) (use rename1 assms(2) f in auto)
    then show ?thesis by (rule works_weaken) auto
  qed (auto simp: works_def)
  show ?thesis
    unfolding persistIndex_def Let_def
  proof (rule works_get)
    fix s0 :: "'z packst_scheme"
    assume s0: "working b F s0 \<and> pk_index s0 = idx"
    have "works ?K (\<lambda>_. ?J) (bnd (wrapping ''cas: write pack manifest'' (ValidateDir (path_parts (pk_base b)) (path_parts (packDir b)))) (\<lambda>_.
        bnd (wrapping ''cas: write pack manifest'' (os_CreateTemp (path_parts (packDir b)) ''index-'')) (write_manifest b ?data)))"
      by (intro works_bnd [OF works_wrapping [OF works_Validate(1) [OF assms(1)]]]
          works_bnd [OF works_wrapping [OF works_CreateTemp [OF assms]]] write1) assumption
    with s0 show "works (\<lambda>s. s = s0) (\<lambda>_. ?J) (bnd (wrapping ''cas: write pack manifest'' (ValidateDir (path_parts (pk_base b)) (path_parts (packDir b)))) (\<lambda>_.
        bnd (wrapping ''cas: write pack manifest'' (os_CreateTemp (path_parts (packDir b)) ''index-''))
          (\<lambda>tmp. write_manifest b (json_MarshalIndent (manifest_json (pk_index s0))) tmp)))"
      by (intro works_from [of ?K]) simp_all
  qed
qed

section \<open>The loose object\<close>

lemma parents_siblings: "set (parents (p @ [x])) = set (parents (p @ [y]))"
  by (simp add: parents_snoc)

lemma works_loose_Put:
  assumes "wf_packb b" "d \<noteq> []" "r_err r = None"
  shows "works (working b F) (\<lambda>_. working b F) (fs_Put (pk_loose b) d r)"
proof (rule worksI)
  fix w :: "'a osfs_scheme env"
  assume w: "ectx w = Live" "working b F (est w)"
  note layout = wf_dirs(3) [OF assms(1)]
  have inv: "fs_inv (pk_loose b) (est w)" using w(2) by (simp add: working_def fs_inv_def)
  have us: "usable (pk_loose b) d" using assms(1,2) usable_default by (simp add: wf_packb_def)
  have free: "\<exists>i < 10000. node_at (est w) (temp_name (canon (pk_loose b) d) i) = None"
    using w(2) by (auto simp: working_def intro!: exI [of _ 0])
  from fs_Put_live [OF layout inv w(1) us assms(3) free] obtain s' where s': "fs_Put (pk_loose b) d r w = (Inr (), w\<lparr>est := s'\<rparr>)"
    "fs_inv (pk_loose b) s'" "\<forall>d' i. node_at s' (temp_name (canon (pk_loose b) d') i) = node_at (est w) (temp_name (canon (pk_loose b) d') i)" by blast
  have at: "node_at s' (pack_path b x) = node_at (est w) (pack_path b x)" for x
    using fs_Put_frame [OF layout _ _ _ s'(1), of "pack_path b x"] pack_not_loose [OF assms(1)] by simp
  have pd: "node_at s' (path_parts (packDir b)) = node_at (est w) (path_parts (packDir b))"
  proof -
    let ?n = "length (path_parts (pk_base b))"
    have x: "length (path_parts (packDir b)) = Suc ?n" "path_parts (packDir b) ! ?n = ''packs''"
      using wf_dirs(1) [OF assms(1)] by (simp_all add: nth_append)
    have c: "canon (pk_loose b) d' ! ?n = ''loose''" "temp_name (canon (pk_loose b) d') i ! ?n = ''loose''" for d' i
      using wf_dirs(2) [OF assms(1)] by (simp_all add: canon_def temp_name_def butlast_append nth_append)
    have "path_parts (packDir b) \<notin> set (parents (canon (pk_loose b) d))"
    proof
      assume "path_parts (packDir b) \<in> set (parents (canon (pk_loose b) d))"
      then obtain q where "canon (pk_loose b) d = path_parts (packDir b) @ q" by (auto simp: set_parents)
      then have "canon (pk_loose b) d ! ?n = path_parts (packDir b) ! ?n" using x(1) by (simp add: nth_append)
      with x(2) c(1) show False by simp
    qed
    moreover have "path_parts (packDir b) \<noteq> canon (pk_loose b) d" using x(2) c(1) [of d] by auto
    moreover have "path_parts (packDir b) \<noteq> temp_name (canon (pk_loose b) d) i" for i using x(2) c(2) [of d i] by auto
    ultimately show ?thesis using fs_Put_frame [OF layout _ _ _ s'(1)] by simp
  qed
  have "set (parents (path_parts (packDir b))) = set (parents (base (pk_loose b)))"
    using wf_dirs(1,2) [OF assms(1)] parents_siblings by metis
  then have "pack_dirs b s'"
    using s'(2) pd w(2) by (auto simp: pack_dirs_def working_def fs_inv_def fs_tree_def base_ok_def)
  then have "working b F s'" using w(2) s'(2,3) at by (simp add: working_def fs_inv_def)
  with s'(1) show "\<exists>x s'. fs_Put (pk_loose b) d r w = (Inr x, w\<lparr>est := s'\<rparr>) \<and> working b F s'" by blast
qed

section \<open>The active pack\<close>

lemma working_fields [simp]:
  "working b F (s\<lparr>pk_index := idx\<rparr>) = working b F s" "working b F (s\<lparr>packFile := h, packFilePath := p\<rparr>) = working b F s"
  "working b F (s\<lparr>packFile := h\<rparr>) = working b F s" "working b F (s\<lparr>packBytes := n\<rparr>) = working b F s"
  "working b F (s\<lparr>packBytes := n, packEntries := m\<rparr>) = working b F s"
  "working b F (s\<lparr>packBytes := n, packEntries := m, pk_index := idx\<rparr>) = working b F s"
  by (simp_all add: working_def fs_tree_def healthy_def pack_dirs_def)

lemma works_modify: "(\<And>s. K s \<Longrightarrow> J () (f s)) \<Longrightarrow> works K J (bnd get_st (\<lambda>s. put_st (f s)))"
  by (rule works_runI) (simp add: bnd_def get_st_def put_st_def)

lemma works_case_option: "(z = None \<Longrightarrow> works K J m) \<Longrightarrow> (\<And>x. z = Some x \<Longrightarrow> works K J (f x)) \<Longrightarrow> works K J (case z of None \<Rightarrow> m | Some x \<Rightarrow> f x)"
  by (simp split: option.split)

lemma works_case_result: "(\<And>e. works K J (f e)) \<Longrightarrow> (\<And>x. works K J (g x)) \<Longrightarrow> works K J (case z of Inl e \<Rightarrow> f e | Inr x \<Rightarrow> g x)"
  by (simp split: sum.split)

lemma works_if: "works K J m \<Longrightarrow> works K J n \<Longrightarrow> works K J (if c then m else n)"
  by simp

lemma works_get_st: "(\<And>s0. works K J (f s0)) \<Longrightarrow> works K J (bnd get_st f)"
  by (rule works_get) (erule works_from [rotated], blast)

lemma works_FileSize: "(\<And>s. K s \<Longrightarrow> healthy s) \<Longrightarrow> works K (\<lambda>_. K) (os_FileSize p)"
  unfolding os_FileSize_def by (rule works_syscall) auto

lemma works_time: "works K (\<lambda>_. K) time_now"
  by (rule works_runI) (simp add: time_now_def)

lemma works_open_pack:
  assumes "wf_packb b" "is_pack x"
  shows "works (working b F) (\<lambda>_. working b F) (open_pack b (filepath_Join (packDir b) x) msg)"
  unfolding open_pack_def join_path [OF assms(1) is_pack_plain [OF assms(2)]]
  by (intro works_bnd [OF works_wrapping [OF works_Validate(2) [OF assms(1)]]] works_bnd [OF works_wrapping [OF works_OpenAppend [OF assms]]]
      works_modify) simp_all

lemma works_ensurePackFile:
  assumes "wf_packb b"
  shows "works (working b F) (\<lambda>_. working b F) (ensurePackFile b)"
  unfolding ensurePackFile_def Let_def
  by (intro works_get_st works_if works_ret works_bnd [OF works_open_pack [OF assms plain_dirs(4)]]
      works_bnd [OF works_attempt [OF works_FileSize]] works_case_result works_modify) (auto intro: working_control(1))

lemma works_rotatePackFile:
  assumes "wf_packb b"
  shows "works (working b F) (\<lambda>_. working b F) (rotatePackFile b)"
  unfolding rotatePackFile_def
  by (intro works_get_st works_bnd [where J = "\<lambda>_. working b F"] works_case_option works_ret works_plain works_modify works_time
      works_open_pack assms is_pack_rotated) (auto intro: working_control(1))

lemma works_rotate_if: "wf_packb b \<Longrightarrow> works (working b F) (\<lambda>_. working b F) (rotate_if b full)"
  unfolding rotate_if_def by (intro works_get_st works_if works_rotatePackFile works_ret) simp_all

section \<open>A put\<close>

text \<open>What a rewrite of the manifest does not touch.\<close>

definition stable :: "packb \<Rightarrow> ('z packst_scheme \<Rightarrow> bool) \<Rightarrow> bool" where
  "stable b I \<longleftrightarrow> control_free I \<and> (\<forall>s xs. I s \<longrightarrow> I (s\<lparr>pk_random := xs\<rparr>)) \<and>
     (\<forall>x n s. \<not> is_pack x \<longrightarrow> I s \<longrightarrow> I (set_node (pack_path b x) n s) \<and> I (del_node (pack_path b x) s))"

lemma stable_calls:
  assumes "stable b I" "\<not> is_pack x"
  shows "keeps I (os_OpenExcl (pack_path b x))" "keeps I (os_Write (pack_path b x) c)" "keeps I (os_Remove (pack_path b x))"
    "\<not> is_pack y \<Longrightarrow> keeps I (os_Rename (pack_path b x) (pack_path b y))"
  using assms unfolding stable_def
  by (intro keeps_os_OpenExcl keeps_os_Write keeps_os_Remove keeps_os_Rename; blast)+

lemma not_pack_temp: "\<not> is_pack (pre @ dec n @ ''.tmp'')" "\<not> is_pack ''index.json''"
  using last_pack [of "pre @ dec n @ ''.tmp''"] last_pack [of "''index.json''"] by auto

lemma CreateTemp_name:
  assumes "os_CreateTemp (path_parts (packDir b)) pre w = (Inr p, w')"
  shows "\<exists>x. p = pack_path b (pre @ dec x @ ''.tmp'')"
  using create_temp_ok [OF assms [unfolded os_CreateTemp_def]] unfolding pack_path_def by blast

lemma keeps_stable_persistIndex:
  assumes "wf_packb b" "stable b I"
  shows "keeps I (persistIndex b)"
proof -
  have cf: "control_free I" using assms(2) by (simp add: stable_def)
  have "keeps I (write_manifest b v f)" if "\<exists>x. f = pack_path b (''index-'' @ dec x @ ''.tmp'')" for f v
  proof -
    from that obtain x where f: "f = pack_path b (''index-'' @ dec x @ ''.tmp'')" by blast
    note calls = stable_calls [OF assms(2) not_pack_temp(1) [of "''index-''" x], folded f]
    show ?thesis
      unfolding write_manifest_def rename_manifest_def discard_def renameWithRetry_def manifest_path [OF assms(1)]
      by (intro keeps_intros keeps_rename_retry calls not_pack_temp(2) cf)
  qed
  then have "keeps I (bnd (wrapping msg (os_CreateTemp (path_parts (packDir b)) ''index-'')) (write_manifest b v))" for msg v
  proof (rule keeps_bnd_P [where P = "\<lambda>f. \<exists>x. f = pack_path b (''index-'' @ dec x @ ''.tmp'')", rotated 2])
    show "keeps I (wrapping msg (os_CreateTemp (path_parts (packDir b)) ''index-''))"
      unfolding os_CreateTemp_def
      using assms(2) stable_calls(1) [OF assms(2) not_pack_temp(1) [of "''index-''"]]
      by (intro keeps_wrapping keeps_create_temp) (auto simp: stable_def pack_path_def)
  next
    fix w x w'
    assume "wrapping msg (os_CreateTemp (path_parts (packDir b)) ''index-'') w = (Inr x, w')"
    then show "\<exists>y. x = pack_path b (''index-'' @ dec y @ ''.tmp'')" unfolding wrapping_ok by (rule CreateTemp_name)
  qed
  then show ?thesis
    unfolding persistIndex_def Let_def
    by (intro keeps_bnd [OF keeps_get_st] keeps_bnd [OF keeps_wrapping [OF keeps_validateChain(1) [OF cf]]])
qed

lemma stable_index: "stable b (\<lambda>s. pk_index s = idx)"
  using packst_more(1) [OF set_more(1)] packst_more(1) [OF set_more(2)] by (auto simp: stable_def control_free_def)

definition persisted :: "packb \<Rightarrow> 'z packst_scheme \<Rightarrow> bool" where
  "persisted b s \<longleftrightarrow> spooled (pack_path b ''index.json'') (json_MarshalIndent (manifest_json (pk_index s))) s"

lemma works_persisted:
  assumes "wf_packb b" "\<And>x. pack_path b (''index-'' @ dec x @ ''.tmp'') \<notin> F"
  shows "works (\<lambda>s. working b F s \<and> pk_index s = idx) (\<lambda>_ s. working b F s \<and> persisted b s \<and> pk_index s = idx) (persistIndex b)"
  by (rule works_weaken [OF works_keeps [OF works_persistIndex [OF assms] keeps_stable_persistIndex [OF assms(1) stable_index]]])
    (auto simp: persisted_def)

lemma works_index_record:
  assumes "wf_packb b" "\<And>x. pack_path b (''index-'' @ dec x @ ''.tmp'') \<notin> F"
  shows "works (working b F) (\<lambda>_ s. working b F s \<and> persisted b s \<and> d \<in> fst ` set (pk_index s))
    (index_record b d n off :: ('z packst_scheme, unit) act)"
  unfolding index_record_def Let_def
proof (rule works_get)
  fix s0 :: "'z packst_scheme"
  assume s0: "working b F s0"
  let ?idx = "AList.update d \<lparr>Pack = packFilePath s0, Offset = off + int (length (pack_header d n)), Size = int n\<rparr> (pk_index s0)"
  let ?s = "s0\<lparr>packBytes := packBytes s0 + int (length (pack_header d n)) + int n, packEntries := packEntries s0 + 1, pk_index := ?idx\<rparr>"
  have "works (\<lambda>s. s = s0) (\<lambda>_ s. working b F s \<and> pk_index s = ?idx) (put_st ?s)"
    using s0 by (intro works_put_st) simp
  moreover have "works (\<lambda>s. working b F s \<and> pk_index s = ?idx) (\<lambda>_ s. working b F s \<and> persisted b s \<and> d \<in> fst ` set (pk_index s)) (persistIndex b)"
    by (rule works_weaken [OF works_persisted [OF assms]]) (auto simp: dom_update)
  ultimately show "works (\<lambda>s. s = s0) (\<lambda>_ s. working b F s \<and> persisted b s \<and> d \<in> fst ` set (pk_index s)) (bnd (put_st ?s) (\<lambda>_. persistIndex b))"
    by (rule works_bnd)
qed

lemma works_write_record:
  assumes "wf_packb b" "is_pack x" "r_err r = None"
  shows "works (\<lambda>s. working b F s \<and> spooled (pack_path b x) c s) (\<lambda>_. working b F) (write_record d r n (pack_path b x))"
proof -
  have x: "CHR ''.'' \<in> set x" "HasSuffix x ''.tmp'' \<longrightarrow> pack_path b x \<in> F"
    using assms(2) last_pack [OF assms(2)] by (auto simp: is_pack_def HasSuffix_iff)
  have limit: "r_err (io_LimitReader r (int n)) = None" using assms(3) by simp
  show ?thesis
    unfolding write_record_def
    by (intro works_bnd [OF works_wrapping [OF works_FileSize]] works_bnd [OF works_wrapping [OF works_Write(2) [OF assms(1) x]]]
        works_bnd [OF works_wrapping [OF works_Copy [OF assms(1) x limit]]] works_ret) (auto intro: working_control(1))
qed

lemma works_add_record:
  assumes "wf_packb b" "r_err r = None" "\<And>x. pack_path b (''index-'' @ dec x @ ''.tmp'') \<notin> F"
  shows "works (\<lambda>s. working b F s \<and> pack_inv H E b s \<and> packFile s \<noteq> None)
    (\<lambda>_ s. working b F s \<and> persisted b s \<and> d \<in> fst ` set (pk_index s)) (add_record b d r n)"
  unfolding add_record_def
proof (rule works_get)
  fix s0
  assume s0: "working b F s0 \<and> pack_inv H E b s0 \<and> packFile s0 \<noteq> None"
  then obtain x c t where x: "is_pack x" "packFile s0 = Some (pack_path b x)" "node_at s0 (pack_path b x) = Some (Reg c t)"
    unfolding pack_inv_def handle_ok_def by blast
  have "works (\<lambda>s. s = s0) (\<lambda>_. working b F) (write_record d r n (pack_path b x))"
    by (rule works_from [OF works_write_record [OF assms(1) x(1) assms(2)]]) (use s0 x(3) in \<open>auto simp: spooled_def\<close>)
  with x(2) show "works (\<lambda>s. s = s0) (\<lambda>_ s. working b F s \<and> persisted b s \<and> d \<in> fst ` set (pk_index s))
      (bnd (write_record d r n (the (packFile s0))) (index_record b d n))"
    by (intro works_bnd [OF _ works_index_record [OF assms(1,3)]]) simp
qed

lemma works_post:
  assumes "works K J m" "\<And>w x w'. m w = (Inr x, w') \<Longrightarrow> P x (est w')"
  shows "works K (\<lambda>x s. J x s \<and> P x s) m"
proof (rule works_runI)
  fix w :: "'a env"
  assume w: "ectx w = Live" "K (est w)"
  from worksE [OF assms(1) w] obtain x s' where x: "m w = (Inr x, w\<lparr>est := s'\<rparr>)" "J x s'" .
  with assms(2) [OF x(1)] w(1) show "\<exists>x w'. m w = (Inr x, w') \<and> ectx w' = Live \<and> (J x (est w') \<and> P x (est w'))" by auto
qed

lemma works_appendPackRecord:
  assumes "wf_packb b" "r_err r = None" "\<And>x. pack_path b (''index-'' @ dec x @ ''.tmp'') \<notin> F" "enabled (pk_cfg b)"
  shows "works (\<lambda>s. working b F s \<and> pack_inv H E b s)
    (\<lambda>_ s. working b F s \<and> persisted b s \<and> d \<in> fst ` set (pk_index s)) (appendPackRecord b d r n)"
proof -
  let ?K = "\<lambda>s. working b F s \<and> pack_inv H E b s"
  have ensure: "works ?K (\<lambda>_. ?K) (ensurePackFile b)"
    by (rule works_keeps [OF works_ensurePackFile keeps_ensurePackFile]) (rule assms(1))+
  have rotate: "works ?K (\<lambda>_. ?K) (rotate_if b full)" for full
    by (rule works_keeps [OF works_rotate_if keeps_rotate_if]) (rule assms(1))+
  have last1: "works (\<lambda>s. working b F s \<and> pack_inv H E b s) (\<lambda>_ s. working b F s \<and> pack_inv H E b s \<and> packFile s \<noteq> None) (ensurePackFile b)"
    by (rule works_weaken [OF works_post [OF ensure, of "\<lambda>_ s. packFile s \<noteq> None"]]) (use ensurePackFile_ok in auto)
  have "works ?K (\<lambda>_ s. working b F s \<and> persisted b s \<and> d \<in> fst ` set (pk_index s))
      (bnd (ensurePackFile b) (\<lambda>_. bnd (rotate_if b f1) (\<lambda>_. bnd (rotate_if b f2) (\<lambda>_. bnd (ensurePackFile b) (\<lambda>_. add_record b d r n)))))" for f1 f2
    by (intro works_bnd [OF ensure] works_bnd [OF rotate] works_bnd [OF last1] works_add_record assms)
  then show ?thesis using assms(4) by (simp add: appendPackRecord_def)
qed

lemma works_spoolObject:
  assumes "wf_packb b" "r_err r = None"
  shows "works (working b {}) (\<lambda>x s. working b {fst x} s \<and> (\<exists>y. fst x = pack_path b (''.put-'' @ dec y @ ''.tmp'')) \<and>
      spooled (fst x) (r_data r) s \<and> snd x = length (r_data r)) (spoolObject b r)"
  unfolding spoolObject_def
proof (rule works_bnd [OF works_wrapping [OF works_CreateTemp [OF assms(1)]]])
  fix f
  show "works (\<lambda>s. working b (insert f {}) s \<and> (\<exists>x. f = pack_path b (''.put-'' @ dec x @ ''.tmp'')) \<and> spooled f [] s)
    (\<lambda>x s. working b {fst x} s \<and> (\<exists>y. fst x = pack_path b (''.put-'' @ dec y @ ''.tmp'')) \<and> spooled (fst x) (r_data r) s \<and> snd x = length (r_data r))
    (bnd (or_else (wrapping ''cas: spool object'' (os_Copy f r)) (discard f)) (\<lambda>n. ret (f, n)))"
  proof (cases "\<exists>x. f = pack_path b (''.put-'' @ dec x @ ''.tmp'')")
    case True
    then obtain x where f: "f = pack_path b (''.put-'' @ dec x @ ''.tmp'')" by blast
    have "works (\<lambda>s. working b {f} s \<and> spooled f [] s) (\<lambda>n s. working b {f} s \<and> spooled f ([] @ r_data r) s \<and> n = length (r_data r)) (os_Copy f r)"
      unfolding f by (rule works_Copy [OF assms(1) _ _ assms(2)]) auto
    then have "works (\<lambda>s. working b {f} s \<and> spooled f [] s)
        (\<lambda>x s. working b {fst x} s \<and> (\<exists>y. fst x = pack_path b (''.put-'' @ dec y @ ''.tmp'')) \<and> spooled (fst x) (r_data r) s \<and> snd x = length (r_data r))
        (bnd (or_else (wrapping ''cas: spool object'' (os_Copy f r)) (discard f)) (\<lambda>n. ret (f, n)))"
      by (intro works_bnd [OF works_or_else [OF works_wrapping]] works_ret) (use True in auto)
    then show ?thesis by (rule works_weaken) auto
  qed (auto simp: works_def)
qed simp

lemma works_put_spooled:
  assumes "wf_packb b" "d \<noteq> []" "enabled (pk_cfg b)" "c \<in> H d" "length c = n" "f = pack_path b (''.put-'' @ dec y @ ''.tmp'')"
  shows "works (\<lambda>s. working b {f} s \<and> pack_inv H E b s \<and> spooled f c s)
    (\<lambda>_ s. working b {f} s \<and> persisted b s \<and> d \<in> fst ` set (pk_index s)) (put_spooled b d f n :: ('z packst_scheme, unit) act)"
proof -
  let ?K = "\<lambda>s :: 'z packst_scheme. working b {f} s \<and> pack_inv H E b s \<and> spooled f c s"
  let ?J = "\<lambda>s :: 'z packst_scheme. working b {f} s \<and> persisted b s \<and> d \<in> fst ` set (pk_index s)"
  have neutral1: "neutral b f" using assms(6) neutral_temp [of b "''.put-''" y] by (simp add: pack_path_def)
  have other: "pack_path b (''index-'' @ dec x @ ''.tmp'') \<notin> {f}" for x using assms(6) by simp
  have rewind: "works ?K (\<lambda>_. ?K) (wrapping ''cas: rewind spool file'' (os_Rewind f))"
    by (intro works_wrapping works_plain) (auto intro: working_control(1))
  have stream: "works ?K (\<lambda>_. J) (bnd (file_stream f) g)" if "\<And>r. r_data r = c \<Longrightarrow> r_err r = None \<Longrightarrow> works ?K (\<lambda>_. J) (g r)"
    for g :: "reader \<Rightarrow> ('z packst_scheme, unit) act" and J
  proof (rule works_bnd [where J = "\<lambda>r s. ?K s \<and> r_data r = c \<and> r_err r = None"])
    show "works ?K (\<lambda>r s. ?K s \<and> r_data r = c \<and> r_err r = None) (file_stream f)"
      by (rule works_runI) (auto simp: file_stream_def spooled_def r_data_def)
    show "works (\<lambda>s. ?K s \<and> r_data r = c \<and> r_err r = None) (\<lambda>_. J) (g r)" for r
      by (cases "r_data r = c \<and> r_err r = None") (use that in \<open>auto simp: works_def\<close>)
  qed
  have app: "works ?K (\<lambda>_. ?J) (appendPackRecord b d r n)" if "r_data r = c" "r_err r = None" for r
    by (rule works_weaken [OF works_appendPackRecord [OF assms(1) that(2) other assms(3)]]) auto
  have put: "works ?K (\<lambda>_. ?K) (fs_Put (pk_loose b) d r)" if "r_data r = c" "r_err r = None" for r
  proof -
    have "keeps (\<lambda>s. pack_inv H E b s \<and> spooled f c s) (fs_Put (pk_loose b) d r :: ('z packst_scheme, unit) act)"
      by (intro keeps_conj keeps_loose_Put loose_Put_spooled assms neutral1) (use that assms(4) in \<open>auto simp: proper_reader_def\<close>)
    from works_keeps [OF works_loose_Put [OF assms(1,2) that(2)] this] show ?thesis by (rule works_weaken) auto
  qed
  show ?thesis
    unfolding put_spooled_def by (intro works_bnd [OF rewind] works_bnd [OF put] stream app)
qed

lemma works_deferring:
  assumes "works K J m" "\<And>x. works (J x) (\<lambda>_. L x) c"
  shows "works K L (deferring m c)"
proof (rule works_runI)
  fix w :: "'a env"
  assume w: "ectx w = Live" "K (est w)"
  from worksE [OF assms(1) w] obtain x s' where m: "m w = (Inr x, w\<lparr>est := s'\<rparr>)" "J x s'" .
  from worksE [OF assms(2), of "w\<lparr>est := s'\<rparr>" x] m(2) w(1) obtain y s'' where "c (w\<lparr>est := s'\<rparr>) = (Inr y, w\<lparr>est := s''\<rparr>)" "L x s''"
    by auto
  with m(1) w(1) show "\<exists>x w'. deferring m c w = (Inr x, w') \<and> ectx w' = Live \<and> L x (est w')" by (auto simp: deferring_def)
qed

lemma keeps_discard_persisted:
  assumes "x \<noteq> ''index.json''"
  shows "keeps (\<lambda>s. persisted b s \<and> d \<in> fst ` set (pk_index s)) (discard (pack_path b x))"
proof -
  let ?I = "\<lambda>s. persisted b s \<and> d \<in> fst ` set (pk_index s)"
  have cf: "control_free ?I" by (auto simp: control_free_def persisted_def spooled_def)
  have "keeps ?I (os_Remove (pack_path b x))"
    using assms by (intro keeps_os_Remove cf) (auto simp: persisted_def spooled_def packst_more(1) [OF set_more(2)])
  then show ?thesis unfolding discard_def by (intro keeps_intros cf)
qed

lemma works_pk_Put:
  assumes "wf_packb b" "d \<noteq> []" "enabled (pk_cfg b)" "r_err r = None" "r_data r \<in> H d"
  shows "works (\<lambda>s. working b {} s \<and> pack_inv H E b s) (\<lambda>_ s. working b {} s \<and> persisted b s \<and> d \<in> fst ` set (pk_index s))
    (pk_Put b d r :: ('z packst_scheme, unit) act)"
proof -
  let ?K = "\<lambda>s :: 'z packst_scheme. working b {} s \<and> pack_inv H E b s"
  let ?J = "\<lambda>s :: 'z packst_scheme. working b {} s \<and> persisted b s \<and> d \<in> fst ` set (pk_index s)"
  let ?spool = "\<lambda>x s :: 'z packst_scheme. working b {fst x} s \<and> (\<exists>y. fst x = pack_path b (''.put-'' @ dec y @ ''.tmp'')) \<and>
      spooled (fst x) (r_data r) s \<and> snd x = length (r_data r)"
  have step: "works (\<lambda>s. ?spool x s \<and> pack_inv H E b s) (\<lambda>_. ?J) (case x of (f, n) \<Rightarrow> deferring (put_spooled b d f n) (discard f))" for x
  proof (cases "(\<exists>y. fst x = pack_path b (''.put-'' @ dec y @ ''.tmp'')) \<and> snd x = length (r_data r)")
    case True
    then obtain f n y where x: "x = (f, n)" "f = pack_path b (''.put-'' @ dec y @ ''.tmp'')" "n = length (r_data r)" by (cases x) auto
    have "works (\<lambda>s. working b {f} s \<and> persisted b s \<and> d \<in> fst ` set (pk_index s)) (\<lambda>_. ?J) (discard f)"
      unfolding x(2)
      by (rule works_weaken [OF works_keeps [OF works_discard [OF assms(1) dot_in_temp] keeps_discard_persisted [of _ b d]]]) auto
    then have "works (\<lambda>s. working b {f} s \<and> pack_inv H E b s \<and> spooled f (r_data r) s) (\<lambda>_. ?J) (deferring (put_spooled b d f n) (discard f))"
      by (rule works_deferring [OF works_put_spooled [where H = H, OF assms(1-3,5) x(3) [symmetric] x(2)]])
    then show ?thesis unfolding x(1) by (auto intro: works_weaken)
  qed (auto simp: works_def)
  have "works ?K (\<lambda>x s. ?spool x s \<and> pack_inv H E b s) (spoolObject b r)"
    by (rule works_keeps [OF works_spoolObject [OF assms(1,4)] keeps_spoolObject [OF assms(1)]])
  then have put: "works ?K (\<lambda>_. ?J) (bnd (spoolObject b r) (\<lambda>(f, n). deferring (put_spooled b d f n) (discard f)))"
    by (rule works_bnd) (rule step)
  have "works ?K (\<lambda>_. ?K) (when_err (CheckDigest d ''pack: put''))"
    using assms(2) by (intro works_same) (auto simp: when_err_def CheckDigest_def)
  then have "works ?K (\<lambda>_. ?J) (bnd ctx_Err (\<lambda>_. bnd (when_err (CheckDigest d ''pack: put'')) (\<lambda>_.
      bnd (spoolObject b r) (\<lambda>(f, n). deferring (put_spooled b d f n) (discard f)))))"
    by (rule works_bnd [OF works_ctx works_bnd [OF _ put]])
  then show ?thesis using assms(3) by (simp add: pk_Put_def)
qed

section \<open>A get\<close>

lemma common_prefix_self: "common_prefix ps (ps @ qs) = length ps"
  by (induction ps) auto

lemma HasPrefix_Join: "dir \<noteq> '''' \<Longrightarrow> HasPrefix (filepath_Join dir n) ''/'' = HasPrefix dir ''/''"
  unfolding filepath_Join_def using HasPrefix_Clean [of "dir @ ''/'' @ n"] by (cases dir) (auto simp: HasPrefix_def)

lemma Rel_pack:
  assumes "wf_packb b" "is_pack x"
  shows "filepath_Rel (packDir b) (filepath_Join (packDir b) x) = Some [x]"
proof -
  let ?p = "filepath_Join (packDir b) x"
  have parts: "path_parts ?p = path_parts (packDir b) @ [x]"
    using join_path [OF assms(1) is_pack_plain [OF assms(2)]] by (simp add: pack_path_def)
  have "filepath_Clean (packDir b) \<noteq> filepath_Clean ?p"
  proof
    assume "filepath_Clean (packDir b) = filepath_Clean ?p"
    then have "path_parts (packDir b) = path_parts ?p" by (metis path_parts_Clean)
    with parts show False by simp
  qed
  with parts show ?thesis
    using wf_dirs(4) [OF assms(1)] by (simp add: filepath_Rel_def Let_def common_prefix_self HasPrefix_Join)
qed

text \<open>No pack is longer than an offset can say.\<close>

definition packs_fit :: "packb \<Rightarrow> 'z osfs_scheme \<Rightarrow> bool" where
  "packs_fit b s \<longleftrightarrow> (\<forall>x c t. is_pack x \<longrightarrow> node_at s (pack_path b x) = Some (Reg c t) \<longrightarrow> int (length c) \<le> MaxInt64)"

lemma valid_sound:
  assumes "wf_packb b" "working b F (est w)" "sound_record H b (est w) (d, r)" "packs_fit b (est w)"
  shows "validPackRecord b r w = (Inr True, w)"
proof -
  from assms(3) obtain x c t where x: "is_pack x" "Pack r = filepath_Join (packDir b) x" "node_at (est w) (pack_path b x) = Some (Reg c t)"
    "0 \<le> Offset r" "0 \<le> Size r" "Offset r + Size r \<le> int (length c)" by (auto simp: sound_record_def)
  have path: "path_parts (Pack r) = pack_path b x" using join_path [OF assms(1) is_pack_plain [OF x(1)]] x(2) by simp
  have "int (length c) \<le> MaxInt64" using assms(4) x(1,3) by (auto simp: packs_fit_def)
  then have range: "\<not> (Offset r < 0 \<or> Size r < 0 \<or> Offset r > MaxInt64 - Size r)" using x(4-6) by linarith
  have rel: "filepath_Rel (packDir b) (Pack r) = Some [x]" "x \<noteq> ''..''"
    using Rel_pack [OF assms(1) x(1)] x(2) is_pack_plain [OF x(1)] by (simp_all add: plain_name_def)
  have "os_Lstat (pack_path b x) w = (Inr (Reg c t), w)"
    using os_Lstat_healthy [OF working_control(1) [OF assms(2)] parents_pack [OF working_control(2) [OF assms(2)]]] x(3) by simp
  with range rel Validate_works(3) [OF assms(1,2), of x] x(6) show ?thesis
    by (simp add: validPackRecord_def path bnd_def catch_def attempt_def ret_def)
qed

lemma live_record_live:
  assumes "wf_packb b" "working b F (est w)" "pack_inv H E b (est w)" "packs_fit b (est w)" "d \<in> fst ` set (pk_index (est w))"
  obtains r where "live_record b d w = (Inr (Some r), w)" "sound_record H b (est w) (d, r)"
proof -
  from assms(5) obtain r where r: "map_of (pk_index (est w)) d = Some r" by (metis map_of_eq_None_iff not_None_eq)
  then have sound: "sound_record H b (est w) (d, r)" using assms(3) map_of_SomeD by (fastforce simp: pack_inv_def)
  from valid_sound [OF assms(1,2) sound assms(4)] r have "live_record b d w = (Inr (Some r), w)"
    by (simp add: live_record_def bnd_def get_st_def wrapping_def ret_def)
  with sound that show thesis by blast
qed

lemma pk_Get_live:
  assumes "wf_packb b" "working b F (est w)" "pack_inv H E b (est w)" "packs_fit b (est w)" "ectx w = Live"
    "d \<noteq> []" "d \<in> fst ` set (pk_index (est w))"
  obtains rc where "pk_Get b d w = (Inr rc, w)" "r_err rc = None" "r_data rc \<in> H d"
proof -
  from live_record_live [OF assms(1-4,7)] obtain r where r: "live_record b d w = (Inr (Some r), w)" "sound_record H b (est w) (d, r)" .
  from r(2) obtain x c t where x: "is_pack x" "Pack r = filepath_Join (packDir b) x" "node_at (est w) (pack_path b x) = Some (Reg c t)"
    by (auto simp: sound_record_def)
  have path: "path_parts (Pack r) = pack_path b x" using join_path [OF assms(1) is_pack_plain [OF x(1)]] x(2) by simp
  have "os_OpenRead (pack_path b x) w = (Inr (nop_closer c), w)"
    using working_control(1) [OF assms(2)] x(3) by (simp add: os_OpenRead_def syscall_healthy in_dir_pack [OF assms(2)])
  then have get: "pk_Get b d w = (Inr (section_of (nop_closer c) (Offset r) (Size r)), w)"
    using r(1) assms(5,6) path by (simp add: pk_Get_def bnd_def when_err_def CheckDigest_def wrapping_def ret_def)
  moreover have "r_err (section_of (nop_closer c) (Offset r) (Size r)) = None" by (simp add: nop_closer_def)
  ultimately show thesis using that pk_Get_sound [OF assms(1,3) get] by blast
qed

section \<open>Reopening\<close>

lemma filepath_Clean_idem: "filepath_Clean (filepath_Clean s) = filepath_Clean s"
  unfolding filepath_Clean_def [of "filepath_Clean s"] HasPrefix_Clean path_parts_Clean by (simp add: filepath_Clean_def)

lemma TrimSpace_ne: "c \<in> set s \<Longrightarrow> \<not> is_space c \<Longrightarrow> TrimSpace s \<noteq> ''''"
proof -
  assume "c \<in> set s" "\<not> is_space c"
  then have "dropWhile is_space s \<noteq> []" by (auto simp: dropWhile_eq_Nil_conv)
  then have "\<not> is_space (hd (dropWhile is_space s)) \<and> hd (dropWhile is_space s) \<in> set (dropWhile is_space s)"
    using hd_dropWhile [of is_space s] by simp
  then have "dropWhile is_space (rev (dropWhile is_space s)) \<noteq> []" unfolding dropWhile_eq_Nil_conv by auto
  then show "TrimSpace s \<noteq> ''''" by (simp add: TrimSpace_def)
qed

lemma Join_not_up:
  assumes "CHR ''/'' \<notin> set x" "x \<noteq> ''..''" "x \<noteq> ''''"
  shows "\<not> HasPrefix (strings_Join (x # xs) (CHR ''/'')) ''../''"
proof -
  obtain a y where x: "x = a # y" using assms(3) by (cases x) auto
  show ?thesis
  proof (cases xs)
    case Nil
    with assms(1) show ?thesis by (auto simp: HasPrefix_iff)
  next
    case (Cons z zs)
    then obtain t where "strings_Join (x # xs) (CHR ''/'') = x @ CHR ''/'' # t" by (simp add: strings_Join_Cons)
    with assms x show ?thesis by (cases y; cases "tl y") (auto simp: HasPrefix_def)
  qed
qed

lemma ValidateBase_Join:
  assumes "ValidateBase p = Inr ()" "plain_name n" "c \<in> set n" "\<not> is_space c"
  shows "ValidateBase (filepath_Join p n) = Inr ()"
proof -
  let ?q = "filepath_Join p n"
  note base = ValidateBase_parts [OF assms(1)]
  have parts: "path_parts ?q = path_parts p @ [n]" by (rule path_parts_Join [OF assms(2) ValidateBase_ne [OF assms(1)]])
  have clean: "filepath_Clean ?q = ?q" unfolding filepath_Join_def by (rule filepath_Clean_idem)
  have shape: "?q = (if HasPrefix ?q ''/'' then ''/'' else '''') @ strings_Join (path_parts p @ [n]) (CHR ''/'')"
    using clean parts by (metis append_Nil filepath_Clean_def snoc_eq_iff_butlast)
  obtain x xs where x: "path_parts p @ [n] = x # xs" "x \<in> set (path_parts p)" using base by (cases "path_parts p") auto
  have not: "path_parts t \<noteq> path_parts p @ [n]" if "t = ''.'' \<or> t = ''/'' \<or> t = ''..'' \<or> t = ''''" for t
    using that base by (auto simp: path_parts_def HasPrefix_def neq_Nil_conv)
  have "x \<noteq> ''..''" "x \<noteq> ''''" "CHR ''/'' \<notin> set x" using base x(2) path_parts_no_slash by auto
  then have "\<not> HasPrefix ?q ''../''"
    using Join_not_up [of x xs] x(1) shape by (cases "HasPrefix ?q ''/''") (auto simp: HasPrefix_def)
  moreover have "c \<in> set ?q"
    using assms(3) shape base by (metis Un_iff set_append strings_Join_snoc list.set_intros(2))
  then have "TrimSpace ?q \<noteq> ''''" using assms(4) by (rule TrimSpace_ne)
  moreover have "?q \<noteq> ''.''" "?q \<noteq> ''/''" "?q \<noteq> ''..''" "?q \<noteq> ''''" using not [of ?q] parts by metis+
  ultimately show ?thesis by (simp add: ValidateBase_def clean Let_def)
qed

lemma MkdirAll_exists:
  assumes "healthy (est w)" "\<forall>q \<in> insert p (set (parents p)). node_at (est w) q = Some Dir"
  shows "os_MkdirAll p w = (Inr (), w)"
proof -
  have "mkdirs qs w = (Inr (), w)" if "set qs \<subseteq> insert p (set (parents p))" for qs
    using that
  proof (induction qs)
    case (Cons q qs)
    have "set (parents q) \<subseteq> set (parents p)" using Cons.prems by (auto simp: set_parents)
    then have "os_Mkdir q w = (Inr (), w)" using Cons.prems assms by (subst os_Mkdir_healthy) auto
    with Cons show ?case by (simp add: bnd_def)
  qed (simp add: ret_def)
  then show ?thesis by (simp add: os_MkdirAll_def ret_def)
qed

lemma map_of_manifest: "distinct (map fst idx) \<Longrightarrow> map_of (manifest_entries idx) (Digest_String d) = map_of idx d"
proof -
  assume d: "distinct (map fst idx)"
  have "distinct (map fst (map (\<lambda>(key, r). (Digest_String key, r)) idx))"
    using d by (auto simp: distinct_map inj_on_def case_prod_beta)
  then have "map_of (manifest_entries idx) = map_of (map (\<lambda>(key, r). (Digest_String key, r)) idx)"
    unfolding manifest_entries_def by (rule map_of_sort_key)
  moreover have "map_of (map (\<lambda>(key, r). (Digest_String key, r)) idx) (Digest_String d) = map_of idx d"
    by (induction idx) auto
  ultimately show ?thesis by simp
qed

lemma load_entries_all:
  assumes "\<And>k r. (k, r) \<in> set es \<Longrightarrow> validPackRecord b r w = (Inr True, w)" "\<And>k r. (k, r) \<in> set es \<Longrightarrow> \<exists>d. k = Digest_String d"
    "distinct (map fst es)"
  shows "\<exists>f. load_entries b es flt w = (Inr f, w) \<and>
    (\<forall>d. d \<noteq> [] \<longrightarrow> map_of f d = (case map_of es (Digest_String d) of Some r \<Rightarrow> Some r | None \<Rightarrow> map_of flt d))"
  using assms
proof (induction es arbitrary: flt)
  case (Cons e es)
  obtain k r where e: "e = (k, r)" by fastforce
  obtain d0 where d0: "k = Digest_String d0" using Cons.prems(2) e by fastforce
  have valid: "validPackRecord b r w = (Inr True, w)" using Cons.prems(1) e by auto
  have notin: "map_of es k = None" using Cons.prems(3) e by (auto simp: map_of_eq_None_iff)
  have p1: "validPackRecord b r w = (Inr True, w)" if "(k, r) \<in> set es" for k r using Cons.prems(1) [of k r] that by simp
  have p2: "\<exists>d. k = Digest_String d" if "(k, r) \<in> set es" for k r using Cons.prems(2) [of k r] that by simp
  have p3: "distinct (map fst es)" using Cons.prems(3) by simp
  note IH = Cons.IH [OF p1 p2 p3]
  show ?case
  proof (cases "d0 = []")
    case True
    then have "\<exists>x. ParseDigest k = Inl x" using d0 by (simp add: ParseDigest_def UnmarshalText_def)
    then obtain x where x: "ParseDigest k = Inl x" by blast
    have "\<exists>f. load_entries b es flt w = (Inr f, w) \<and>
      (\<forall>d. d \<noteq> [] \<longrightarrow> map_of f d = (case map_of es (Digest_String d) of Some r \<Rightarrow> Some r | None \<Rightarrow> map_of flt d))"
      by (rule IH)
    with x e d0 True show ?thesis by auto
  next
    case False
    let ?f = "AList.update d0 r flt"
    have "\<exists>f. load_entries b es ?f w = (Inr f, w) \<and>
      (\<forall>d. d \<noteq> [] \<longrightarrow> map_of f d = (case map_of es (Digest_String d) of Some r \<Rightarrow> Some r | None \<Rightarrow> map_of ?f d))"
      by (rule IH)
    then obtain f where f: "load_entries b es ?f w = (Inr f, w)"
      "\<And>d. d \<noteq> [] \<Longrightarrow> map_of f d = (case map_of es (Digest_String d) of Some r \<Rightarrow> Some r | None \<Rightarrow> map_of ?f d)" by blast
    have "load_entries b (e # es) flt w = (Inr f, w)"
      using f(1) valid e ParseDigest_String [OF False] d0 by (simp add: bnd_def attempt_def)
    moreover have "map_of f d = (case map_of (e # es) (Digest_String d) of Some r \<Rightarrow> Some r | None \<Rightarrow> map_of flt d)" if "d \<noteq> []" for d
      using f(2) [OF that] notin e d0 by (cases "d = d0") (auto split: option.splits)
    ultimately show ?thesis by blast
  qed
qed (simp add: ret_def)

lemma pk_New_dirs:
  fixes w :: "'z packst_scheme env"
  assumes "wf_packb b" "working b {} (est w)"
    and b': "b' = b\<lparr>pk_cfg := fold (\<lambda>o1. o1) opts default_config\<rparr>"
  shows "pk_New (pk_base b) opts w = bnd (loadIndex b') (\<lambda>_. bnd (ensurePackFile b') (\<lambda>_. ret b'))
    (w\<lparr>est := (est w)\<lparr>pk_index := [], packFile := None, packFilePath := '''', packBytes := 0, packEntries := 0\<rparr>\<rparr>)"
proof -
  let ?p = "pk_base b"
  have base: "ValidateBase ?p = Inr ()" "packDir b = filepath_Join ?p ''packs''" using assms(1) by (simp_all add: wf_packb_def)
  note dirs = wf_dirs(1,2) [OF assms(1)]
  have ld: "path_parts (filepath_Join ?p ''loose'') = base (pk_loose b)"
    using dirs(2) path_parts_Join ValidateBase_ne [OF base(1)] by simp
  have h: "healthy (est w)" by (rule working_control(1) [OF assms(2)])
  have pd: "\<forall>q \<in> insert (path_parts (packDir b)) (set (parents (path_parts (packDir b)))). node_at (est w) q = Some Dir"
    using working_control(2) [OF assms(2)] by (simp add: pack_dirs_def)
  have lb: "\<forall>q \<in> insert (base (pk_loose b)) (set (parents (base (pk_loose b)))). node_at (est w) q = Some Dir"
    using assms(2) by (simp add: working_def fs_tree_def base_ok_def)
  have "insert (path_parts ?p) (set (parents (path_parts ?p))) \<subseteq> insert [] (set (parents (path_parts (packDir b))))"
    unfolding dirs(1) parents_snoc by auto
  then have "\<forall>q \<in> insert (path_parts ?p) (set (parents (path_parts ?p))). node_at (est w) q = Some Dir" using pd by auto
  note mk = MkdirAll_exists [OF h this] MkdirAll_exists [OF h pd] MkdirAll_exists [OF h lb]
  have vd: "ValidateDir (path_parts ?p) (path_parts (packDir b)) w = (Inr (), w)" by (rule Validate_works(1) [OF assms(1,2)])
  have vl: "ValidateDir (path_parts ?p) (base (pk_loose b)) w = (Inr (), w)"
    using chain_dir [OF h] lb by (simp add: ValidateDir_def validateChain_def dirs(2))
  have "ValidateBase (filepath_Join ?p ''loose'') = Inr ()"
    by (rule ValidateBase_Join [OF base(1), of _ "CHR ''l''"]) (simp_all add: is_space_def)
  then have fsn: "fs_New (filepath_Join ?p ''loose'') DefaultFanOut DefaultFanLevels False w = (Inr (pk_loose b), w)"
    using mk(3) assms(1) ld
    by (simp add: fs_New_def bnd_def of_result_def catch_def ret_def DefaultFanOut_def DefaultFanLevels_def MaxFanDepth_def
        wf_packb_def fs_default_def wrap64_def)
  have "b' = \<lparr>pk_base = ?p, pk_loose = pk_loose b, packDir = filepath_Join ?p ''packs'', pk_cfg = fold (\<lambda>o1. o1) opts default_config\<rparr>"
    unfolding b' by (cases b) (use base(2) in simp)
  then show ?thesis
    using mk(1,2) vd vl fsn base(1) unfolding base(2)
    by (simp add: pk_New_def bnd_def [of "of_result _"] bnd_def [of "wrapping _ _"] bnd_def [of get_st] bnd_def [of "put_st _"]
        of_result_def wrapping_def get_st_def put_st_def Let_def ld)
qed

lemma spooled_fields [simp]:
  "spooled f c (s\<lparr>pk_index := idx, packFile := h, packFilePath := p, packBytes := n, packEntries := m\<rparr>) = spooled f c s"
  by (simp add: spooled_def)

lemma loadIndex_live:
  assumes "wf_packb b" "utf8_ok (packDir b)" "working b F (est w)" "packs_fit b (est w)" "distinct (map fst idx)"
    "\<forall>e \<in> set idx. sound_record H b (est w) e" "spooled (pack_path b ''index.json'') (json_MarshalIndent (manifest_json idx)) (est w)"
  obtains f where "loadIndex b w = (Inr (), w\<lparr>est := (est w)\<lparr>pk_index := f\<rparr>\<rparr>)" "\<And>d. d \<noteq> [] \<Longrightarrow> map_of f d = map_of idx d"
proof -
  have "record_fits r" if "(d, r) \<in> set idx" for d r
  proof -
    from that assms(6) have sound: "sound_record H b (est w) (d, r)" by blast
    then obtain x c t where x: "is_pack x" "node_at (est w) (pack_path b x) = Some (Reg c t)" "0 \<le> Offset r" "0 \<le> Size r"
      "Offset r + Size r \<le> int (length c)" by (auto simp: sound_record_def)
    moreover have "int (length c) \<le> MaxInt64" using assms(4) x(1,2) by (auto simp: packs_fit_def)
    ultimately show ?thesis using utf8_ok_pack [OF assms(1,2) sound] by (simp add: record_fits_def MaxInt64_def)
  qed
  then have "index_fits idx" using assms(5) by (auto simp: index_fits_def list_all_iff)
  note decode = decode_manifest_written [OF this]
  from assms(7) obtain t where "node_at (est w) (pack_path b ''index.json'') = Some (Reg (json_MarshalIndent (manifest_json idx)) t)"
    by (auto simp: spooled_def)
  then have read: "os_ReadFile (path_parts (manifestPath b)) w = (Inr (json_MarshalIndent (manifest_json idx)), w)"
    unfolding manifest_path [OF assms(1)]
    by (intro os_ReadFile_healthy working_control(1) [OF assms(3)] parents_pack working_control(2) [OF assms(3)])
  have "\<exists>f. load_entries b (manifest_entries idx) [] w = (Inr f, w) \<and>
    (\<forall>d. d \<noteq> [] \<longrightarrow> map_of f d = (case map_of (manifest_entries idx) (Digest_String d) of Some r \<Rightarrow> Some r | None \<Rightarrow> map_of [] d))"
  proof (rule load_entries_all)
    show "validPackRecord b r w = (Inr True, w)" if "(k, r) \<in> set (manifest_entries idx)" for k r
      using that assms(6) valid_sound [OF assms(1,3) _ assms(4)] by (auto simp: manifest_entries_set)
    show "\<exists>d. k = Digest_String d" if "(k, r) \<in> set (manifest_entries idx)" for k r using that by (auto simp: manifest_entries_set)
  qed (rule manifest_entries_keys [OF assms(5)])
  then obtain f where f1: "load_entries b (manifest_entries idx) [] w = (Inr f, w)"
    "\<forall>d. d \<noteq> [] \<longrightarrow> map_of f d = (case map_of (manifest_entries idx) (Digest_String d) of Some r \<Rightarrow> Some r | None \<Rightarrow> map_of [] d)"
    by blast
  have f: "load_entries b (manifest_entries idx) [] w = (Inr f, w)" "map_of f d = map_of idx d" if "d \<noteq> []" for d
    using f1 that by (simp_all add: map_of_manifest [OF assms(5)] split: option.split)
  have "loadIndex b w = (Inr (), w\<lparr>est := (est w)\<lparr>pk_index := f\<rparr>\<rparr>)"
    using read decode f1(1) by (simp add: loadIndex_def bnd_def attempt_def set_index_def get_st_def put_st_def)
  then show thesis by (rule that) (rule f(2))
qed

lemma packs_fit_fields [simp]: "packs_fit b (s\<lparr>pk_index := idx\<rparr>) = packs_fit b s" "packs_fit b (s\<lparr>packFile := h\<rparr>) = packs_fit b s"
  "packs_fit b (s\<lparr>packFilePath := p\<rparr>) = packs_fit b s" "packs_fit b (s\<lparr>packBytes := n\<rparr>) = packs_fit b s" "packs_fit b (s\<lparr>packEntries := n\<rparr>) = packs_fit b s"
  by (simp_all add: packs_fit_def)

lemma keeps_fit_ensure:
  assumes "wf_packb b"
  shows "keeps (\<lambda>s. packs_fit b s \<and> pk_index s = idx) (ensurePackFile b)"
proof -
  let ?I = "\<lambda>s. packs_fit b s \<and> pk_index s = idx"
  have cf: "control_free ?I" by (auto simp: control_free_def packs_fit_def)
  have "keeps ?I (os_OpenAppend (pack_path b ''current.pack''))"
    by (rule keeps_os_OpenAppend [OF cf]) (auto simp: packs_fit_def packst_more(1) [OF set_more(1)] MaxInt64_def split: if_splits)
  then show ?thesis
    unfolding ensurePackFile_def open_pack_def Let_def join_path [OF assms is_pack_plain [OF plain_dirs(4)]]
    by (intro keeps_bnd keeps_get_st keeps_if keeps_ret keeps_wrapping keeps_validateChain cf keeps_attempt keeps_os_FileSize
        keeps_case_result keeps_modify) auto
qed

lemma working_cfg: "working (b\<lparr>pk_cfg := cfg\<rparr>) F s = working b F s" "packs_fit (b\<lparr>pk_cfg := cfg\<rparr>) s = packs_fit b s"
  "pack_inv H E (b\<lparr>pk_cfg := cfg\<rparr>) s' = pack_inv H E b s'" "wf_packb (b\<lparr>pk_cfg := cfg\<rparr>) = wf_packb b"
  "sound_record H (b\<lparr>pk_cfg := cfg\<rparr>) s e = sound_record H b s e"
  by (simp_all add: working_def pack_dirs_def packs_fit_def pack_path_def wf_packb_def sound_record_def
      pack_inv_same [of "b\<lparr>pk_cfg := cfg\<rparr>" b] no_special_def)

lemma pk_New_live:
  fixes w :: "'z packst_scheme env"
  assumes "wf_packb b" "utf8_ok (packDir b)" "working b {} (est w)" "pack_inv H {} b (est w)" "persisted b (est w)"
    "packs_fit b (est w)" "ectx w = Live"
  obtains b' s' where "pk_New (pk_base b) opts w = (Inr b', w\<lparr>est := s'\<rparr>)" "b' = b\<lparr>pk_cfg := fold (\<lambda>o1. o1) opts default_config\<rparr>"
    "working b' {} s'" "pack_inv H {} b' s'" "packs_fit b' s'"
    "\<And>d. d \<noteq> [] \<Longrightarrow> map_of (pk_index s') d = map_of (pk_index (est w)) d"
proof -
  define b' where "b' = b\<lparr>pk_cfg := fold (\<lambda>o1. o1) opts default_config\<rparr>"
  let ?s = "(est w)\<lparr>pk_index := [], packFile := None, packFilePath := '''', packBytes := 0, packEntries := 0\<rparr>"
  have b: "wf_packb b'" "utf8_ok (packDir b')" "path_parts (packDir b') = path_parts (packDir b)"
    using assms(1,2) by (simp_all add: b'_def working_cfg)
  have s: "working b' {} ?s" "packs_fit b' ?s" "pack_inv H {} b' ?s"
    using assms(3,6) pack_inv_reset [OF assms(4)] unfolding b'_def working_cfg
    by (simp_all add: working_def pack_dirs_def fs_tree_def healthy_def packs_fit_def)
  have idx: "distinct (map fst (pk_index (est w)))" "\<forall>e \<in> set (pk_index (est w)). sound_record H b' ?s e"
    using assms(4) tree_cong(1) [of ?s "est w"] unfolding pack_inv_def b'_def working_cfg by auto
  have man: "spooled (pack_path b' ''index.json'') (json_MarshalIndent (manifest_json (pk_index (est w)))) ?s"
    using assms(5) by (simp add: persisted_def b'_def pack_path_def)
  from loadIndex_live [OF b(1,2), of "{}" "w\<lparr>est := ?s\<rparr>" "pk_index (est w)" H] s idx man
  obtain f where f: "loadIndex b' (w\<lparr>est := ?s\<rparr>) = (Inr (), w\<lparr>est := ?s\<lparr>pk_index := f\<rparr>\<rparr>)" "\<And>d. d \<noteq> [] \<Longrightarrow> map_of f d = map_of (pk_index (est w)) d"
    by auto
  have "pack_inv H {} b' (?s\<lparr>pk_index := f\<rparr>)" using keepsD [OF keeps_loadIndex [OF b(1,2)] f(1)] s(3) by simp
  then have K: "working b' {} (?s\<lparr>pk_index := f\<rparr>) \<and> (pack_inv H {} b' (?s\<lparr>pk_index := f\<rparr>) \<and> (packs_fit b' (?s\<lparr>pk_index := f\<rparr>) \<and> pk_index (?s\<lparr>pk_index := f\<rparr>) = f))"
    using s(1,2) by simp
  have "works (\<lambda>s. working b' {} s \<and> (pack_inv H {} b' s \<and> (packs_fit b' s \<and> pk_index s = f)))
      (\<lambda>_ s. working b' {} s \<and> (pack_inv H {} b' s \<and> (packs_fit b' s \<and> pk_index s = f))) (ensurePackFile b')"
    by (intro works_keeps works_ensurePackFile keeps_conj keeps_ensurePackFile keeps_fit_ensure b(1))
  from worksE [OF this, of "w\<lparr>est := ?s\<lparr>pk_index := f\<rparr>\<rparr>"] K assms(7) obtain s' where
    "ensurePackFile b' (w\<lparr>est := ?s\<lparr>pk_index := f\<rparr>\<rparr>) = (Inr (), w\<lparr>est := s'\<rparr>)" "working b' {} s'" "pack_inv H {} b' s'" "packs_fit b' s'" "pk_index s' = f"
    by auto
  with f pk_New_dirs [OF assms(1,3) b'_def] show thesis
    by (intro that [of b' s']) (simp_all add: bnd_def ret_def b'_def)
qed

end
