(* ===== verification/Pack_Room.thy ===== *)
theory Pack_Room
  imports Pack_Live
begin

text \<open>
  How far a put makes the pack files of \<open>src/cas/backend/packfs/packfs.go\<close> grow: by one header and one
  payload at most, whatever fails on the way.
\<close>

definition packs_within :: "packb \<Rightarrow> nat \<Rightarrow> 'z osfs_scheme \<Rightarrow> bool" where
  "packs_within b N s \<longleftrightarrow> (\<forall>x c t. is_pack x \<longrightarrow> node_at s (pack_path b x) = Some (Reg c t) \<longrightarrow> length c \<le> N)"

lemma packs_within_mono: "packs_within b N s \<Longrightarrow> N \<le> M \<Longrightarrow> packs_within b M s"
  unfolding packs_within_def by (meson le_trans)

lemma packs_within_fit: "packs_within b N s \<Longrightarrow> int N \<le> MaxInt64 \<Longrightarrow> packs_fit b s"
  unfolding packs_within_def packs_fit_def by (meson of_nat_mono order_trans)

lemma packs_within_append:
  assumes "packs_within b N s" "length v \<le> m"
  shows "packs_within b (N + m) (append_at p v s)"
  unfolding packs_within_def
proof (intro allI impI)
  fix x c t
  assume x: "is_pack x" "node_at (append_at p v s) (pack_path b x) = Some (Reg c t)"
  then obtain c' t' where "node_at s (pack_path b x) = Some (Reg c' t')" "length c \<le> length c' + length v"
    by (auto simp: node_at_append_at split: if_splits option.splits node.splits)
  with assms x(1) show "length c \<le> N + m" unfolding packs_within_def by fastforce
qed

lemma stable_within: "stable b (packs_within b N)"
  by (auto simp: stable_def control_free_def packs_within_def pack_path_def split: if_splits)

lemma within_control_free: "control_free (packs_within b N)"
  by (auto simp: control_free_def packs_within_def)

lemma within_fields [simp]:
  "packs_within b N (s\<lparr>pk_index := idx\<rparr>) = packs_within b N s" "packs_within b N (s\<lparr>packFile := h\<rparr>) = packs_within b N s"
  "packs_within b N (s\<lparr>packFilePath := q\<rparr>) = packs_within b N s" "packs_within b N (s\<lparr>packBytes := i\<rparr>) = packs_within b N s"
  "packs_within b N (s\<lparr>packEntries := i\<rparr>) = packs_within b N s" "packs_within b N (s\<lparr>pk_random := xs\<rparr>) = packs_within b N s"
  "packs_within b N (s\<lparr>wplan := pl\<rparr>) = packs_within b N s"
  by (simp_all add: packs_within_def)

lemma keeps_within_open_pack:
  assumes "wf_packb b" "is_pack x"
  shows "keeps (packs_within b N) (open_pack b (filepath_Join (packDir b) x) msg)"
proof -
  have "keeps (packs_within b N) (os_OpenAppend (pack_path b x))"
    by (rule keeps_os_OpenAppend [OF within_control_free]) (auto simp: packs_within_def split: if_splits)
  then show ?thesis
    unfolding open_pack_def join_path [OF assms(1) is_pack_plain [OF assms(2)]]
    by (intro keeps_bnd keeps_get_st keeps_wrapping keeps_validateChain within_control_free keeps_modify) auto
qed

lemma keeps_within_ensure: "wf_packb b \<Longrightarrow> keeps (packs_within b N) (ensurePackFile b)"
  unfolding ensurePackFile_def Let_def
  by (intro keeps_bnd keeps_get_st keeps_if keeps_ret keeps_within_open_pack keeps_attempt keeps_os_FileSize within_control_free
      keeps_case_result keeps_modify) simp_all

lemma keeps_within_rotate: "wf_packb b \<Longrightarrow> keeps (packs_within b N) (rotate_if b full)"
  unfolding rotate_if_def rotatePackFile_def
  by (intro keeps_bnd keeps_get_st keeps_if keeps_case_option keeps_ret keeps_reads within_control_free keeps_modify keeps_time_now
      keeps_within_open_pack is_pack_rotated) simp_all

lemma leads_trans: "leads K J m \<Longrightarrow> (\<And>s. J s \<Longrightarrow> I s) \<Longrightarrow> leads K I m"
  by (simp add: leads_def)

lemma leads_seq:
  assumes "leads K J m" "\<And>s. J s \<Longrightarrow> I s" "\<And>x. leads J I (f x)"
  shows "leads K I (bnd m f)"
  by (rule leads_bnd [where J = "\<lambda>_. J"]) (use assms in \<open>auto simp: leads_def dest: spec\<close>)

lemma within_writes:
  "leads (packs_within b N) (packs_within b (N + length v)) (os_WriteAll p v)"
  "proper_reader r \<Longrightarrow> length (r_data r) \<le> n \<Longrightarrow> leads (packs_within b N) (packs_within b (N + n)) (os_Copy p r)"
  unfolding leads_def
proof (intro allI impI)
  fix w :: "'a osfs_scheme env"
  assume w: "packs_within b N (est w)"
  obtain x w' where c: "os_WriteAll p v w = (x, w')" by fastforce
  from os_WriteAll_spec [OF c] obtain k pl where "est w' = (append_at p (take k v) (est w))\<lparr>wplan := pl\<rparr>" by blast
  with c packs_within_append [OF w, of "take k v" "length v" p] show "packs_within b (N + length v) (est (snd (os_WriteAll p v w)))"
    by (simp add: packs_within_def)
next
  assume r: "proper_reader r" "length (r_data r) \<le> n"
  show "\<forall>w :: 'b osfs_scheme env. packs_within b N (est w) \<longrightarrow> packs_within b (N + n) (est (snd (os_Copy p r w)))"
  proof (intro allI impI)
    fix w :: "'b osfs_scheme env"
    assume w: "packs_within b N (est w)"
    obtain x w' where c: "os_Copy p r w = (x, w')" by fastforce
    from os_Copy_spec [OF c r(1)] obtain k pl where "est w' = (append_at p (take k (r_data r)) (est w))\<lparr>wplan := pl\<rparr>" by blast
    with c packs_within_append [OF w, of "take k (r_data r)" n p] r(2) show "packs_within b (N + n) (est (snd (os_Copy p r w)))"
      by (simp add: packs_within_def)
  qed
qed

definition record_room :: "digest \<Rightarrow> nat \<Rightarrow> nat" where
  "record_room d n = 12 + length d + n"

lemma leads_wrapping: "leads K I m \<Longrightarrow> leads K I (wrapping msg m)"
  by (auto simp: leads_def wrapping_def catch_def fail_def split: prod.splits sum.splits)

lemma within_write_record:
  assumes "proper_reader r"
  shows "leads (packs_within b N) (packs_within b (N + record_room d n)) (write_record d r n f)"
proof -
  let ?h = "N + length (pack_header d n)"
  have r: "proper_reader (io_LimitReader r (int n))" "length (r_data (io_LimitReader r (int n))) \<le> n"
    using assms by (simp_all add: proper_reader_def)
  have "leads (packs_within b ?h) (packs_within b (?h + n)) (bnd (wrapping m2 (os_Copy f (io_LimitReader r (int n)))) (\<lambda>_. ret off))" for m2 off
    by (rule leads_seq [OF leads_wrapping [OF within_writes(2) [OF r]]]) (auto simp: leads_def ret_def)
  then have "leads (packs_within b N) (packs_within b (?h + n))
      (bnd (wrapping m1 (os_WriteAll f (pack_header d n))) (\<lambda>_. bnd (wrapping m2 (os_Copy f (io_LimitReader r (int n)))) (\<lambda>_. ret off)))" for m1 m2 off
    by (rule leads_seq [OF leads_wrapping [OF within_writes(1)], rotated]) (auto elim: packs_within_mono)
  then have "leads (packs_within b N) (packs_within b (?h + n)) (write_record d r n f)"
    unfolding write_record_def
    by (intro leads_bnd_keeps [OF keeps_wrapping [OF keeps_os_FileSize [OF within_control_free]]]) (auto elim: packs_within_mono)
  moreover have "?h + n = N + record_room d n" by (simp add: record_room_def pack_header_def)
  ultimately show ?thesis by simp
qed

lemma keeps_update:
  "(\<And>s. I s \<Longrightarrow> I (f s)) \<Longrightarrow> (\<And>s. keeps I (g s)) \<Longrightarrow> keeps I (bnd get_st (\<lambda>s. bnd (put_st (f s)) (\<lambda>_. g s)))"
  by (simp add: keeps_def bnd_def get_st_def put_st_def)

lemma within_appendPackRecord:
  assumes "wf_packb b" "proper_reader r"
  shows "leads (packs_within b N) (packs_within b (N + record_room d n)) (appendPackRecord b d r n :: ('z packst_scheme, unit) act)"
proof -
  let ?K = "packs_within b N :: 'z packst_scheme \<Rightarrow> bool" and ?I = "packs_within b (N + record_room d n) :: 'z packst_scheme \<Rightarrow> bool"
  have mono: "?I s" if "?K s" for s using that by (rule packs_within_mono) simp
  have "keeps ?I (index_record b d n off)" for off
    unfolding index_record_def Let_def
    by (intro keeps_update keeps_stable_persistIndex [OF assms(1) stable_within]) simp_all
  then have "leads ?I ?I (index_record b d n off)" for off by (rule leads_keeps) simp_all
  then have add: "leads ?K ?I (add_record b d r n)"
    unfolding add_record_def
    by (intro leads_bnd_keeps [OF keeps_get_st mono] leads_seq [OF within_write_record [OF assms(2)]])
  show ?thesis
    unfolding appendPackRecord_def
    by (auto intro!: leads_bnd_keeps [OF keeps_within_ensure [OF assms(1)]] leads_bnd_keeps [OF keeps_within_rotate [OF assms(1)]] mono add
        intro: leads_keeps [OF keeps_ret])
qed

lemma keeps_within_loose: "wf_packb b \<Longrightarrow> keeps (packs_within b N) (fs_Put (pk_loose b) d r)"
proof (rule keepsI)
  fix w :: "'a osfs_scheme env"
  assume b: "wf_packb b" and w: "packs_within b N (est w)"
  obtain x w' where put: "fs_Put (pk_loose b) d r w = (x, w')" by fastforce
  have "node_at (est w') (pack_path b y) = node_at (est w) (pack_path b y)" for y
    by (rule fs_Put_frame [OF wf_dirs(3) [OF b] _ _ _ put]) (simp_all add: pack_not_loose [OF b])
  with w put show "packs_within b N (est (snd (fs_Put (pk_loose b) d r w)))" by (simp add: packs_within_def)
qed

lemma file_stream_proper: "file_stream f w = (Inr r, w') \<Longrightarrow> w' = w \<and> proper_reader r"
  by (auto simp: file_stream_def proper_reader_def EISDIR_def split: option.splits node.splits)

lemma within_put_spooled:
  assumes "wf_packb b"
  shows "leads (packs_within b N) (packs_within b (N + record_room d n)) (put_spooled b d f n :: ('z packst_scheme, unit) act)"
proof -
  let ?K = "packs_within b N :: 'z packst_scheme \<Rightarrow> bool" and ?I = "packs_within b (N + record_room d n) :: 'z packst_scheme \<Rightarrow> bool"
  have mono: "?I s" if "?K s" for s using that by (rule packs_within_mono) simp
  have stream: "leads ?K ?I (bnd (file_stream f) g)" if "\<And>r. proper_reader r \<Longrightarrow> leads ?K ?I (g r)" for g :: "reader \<Rightarrow> ('z packst_scheme, unit) act"
  proof (rule leads_bnd [where J = "\<lambda>r s. ?K s \<and> proper_reader r"])
    show "leads (\<lambda>s. ?K s \<and> proper_reader r) ?I (g r)" for r using that by (cases "proper_reader r") (auto simp: leads_def)
  qed (use mono file_stream_proper in \<open>auto simp: leads_def file_stream_def\<close>)
  show ?thesis
    unfolding put_spooled_def
    by (intro leads_bnd_keeps [OF keeps_wrapping [OF keeps_os_Rewind [OF within_control_free]]] stream leads_bnd_keeps [OF keeps_within_loose]
        within_appendPackRecord assms mono)
qed

lemma within_temp:
  assumes "f = pack_path b (pre @ dec y @ ''.tmp'')"
  shows "keeps (packs_within b N) (os_OpenExcl f)" "keeps (packs_within b N) (os_Copy f r)" "keeps (packs_within b N) (discard f)"
proof -
  have set1: "packs_within b N (set_node f n s)" if "packs_within b N s" for n and s :: "'x osfs_scheme"
    using that not_pack_temp(1) [of pre y] assms by (auto simp: packs_within_def pack_path_def split: if_splits)
  have del1: "packs_within b N (del_node f s)" if "packs_within b N s" for s :: "'x osfs_scheme"
    using that by (auto simp: packs_within_def split: if_splits)
  show "keeps (packs_within b N) (os_OpenExcl f)" "keeps (packs_within b N) (os_Copy f r)"
    by (intro keeps_os_OpenExcl keeps_os_Copy within_control_free set1; assumption)+
  have "keeps (packs_within b N) (os_Remove f)" by (intro keeps_os_Remove within_control_free del1)
  then show "keeps (packs_within b N) (discard f)" unfolding discard_def by (intro keeps_intros within_control_free)
qed

definition spool_name :: "packb \<Rightarrow> path \<Rightarrow> bool" where
  "spool_name b f \<longleftrightarrow> (\<exists>y. f = pack_path b (''.put-'' @ dec y @ ''.tmp''))"

lemma CreateTemp_spool: "os_CreateTemp (path_parts (packDir b)) ''.put-'' w = (Inr f, w') \<Longrightarrow> spool_name b f"
  unfolding spool_name_def by (rule CreateTemp_name)

lemma within_spool_name:
  assumes "spool_name b f"
  shows "keeps (packs_within b N) (os_Copy f r)" "keeps (packs_within b N) (discard f)"
  using assms within_temp(2,3) unfolding spool_name_def by blast+

lemma keeps_within_spool:
  assumes "wf_packb b"
  shows "keeps (packs_within b N) (spoolObject b r :: ('z packst_scheme, path \<times> nat) act)"
proof -
  let ?I = "packs_within b N :: 'z packst_scheme \<Rightarrow> bool"
  have "keeps ?I (bnd (or_else (wrapping msg (os_Copy f r)) (discard f)) (\<lambda>n. ret (f, n)))" if "spool_name b f" for f msg
    by (intro keeps_intros within_spool_name within_control_free that)
  moreover have "keeps ?I (wrapping msg (os_CreateTemp (path_parts (packDir b)) ''.put-''))" for msg
    unfolding os_CreateTemp_def
    using within_temp(1) [OF refl, of b N "''.put-''"] by (intro keeps_wrapping keeps_create_temp) (auto simp: pack_path_def)
  ultimately show ?thesis
    unfolding spoolObject_def
    by (intro keeps_bnd_P [where P = "spool_name b"]) (auto intro: CreateTemp_spool)
qed

lemma spoolObject_name:
  assumes "spoolObject b r w = (Inr (f, n), w')" "proper_reader r"
  shows "spool_name b f \<and> n = length (r_data r)"
  using assms(1) spoolObject_ok [OF assms] by (auto simp: spoolObject_def bnd_ok ret_def intro: CreateTemp_spool)

lemma within_pk_Put:
  assumes "wf_packb b" "proper_reader r"
  shows "leads (packs_within b N) (packs_within b (N + record_room d (length (r_data r)))) (pk_Put b d r :: ('z packst_scheme, unit) act)"
proof -
  let ?K = "packs_within b N :: 'z packst_scheme \<Rightarrow> bool" and ?n = "length (r_data r)"
  let ?I = "packs_within b (N + record_room d ?n) :: 'z packst_scheme \<Rightarrow> bool"
  have mono: "?I s" if "?K s" for s using that by (rule packs_within_mono) simp
  have step: "leads (\<lambda>s. ?K s \<and> spool_name b (fst x) \<and> snd x = ?n) ?I (case x of (f, n) \<Rightarrow> deferring (put_spooled b d f n) (discard f))" for x
  proof (cases "spool_name b (fst x) \<and> snd x = ?n")
    case True
    then have "leads ?K ?I (deferring (put_spooled b d (fst x) (snd x)) (discard (fst x)))"
      using within_put_spooled [OF assms(1), of N d ?n "fst x"] by (intro leads_deferring within_spool_name) simp_all
    with True show ?thesis by (simp add: case_prod_beta)
  qed (auto simp: leads_def)
  have "leads ?K ?I (bnd (spoolObject b r) (\<lambda>(f, n). deferring (put_spooled b d f n) (discard f)))"
  proof (rule leads_bnd)
    show "leads ?K ?I (spoolObject b r)" by (rule leads_keeps [OF keeps_within_spool [OF assms(1), of N]]) (simp_all add: mono)
    show "?K (est w') \<and> spool_name b (fst x) \<and> snd x = ?n" if "spoolObject b r w = (Inr x, w')" "?K (est w)" for w x w'
      using that keepsD [OF keeps_within_spool [OF assms(1)]] spoolObject_name [OF _ assms(2), of b w "fst x" "snd x" w'] by auto
  qed (rule step)
  then show ?thesis
    unfolding pk_Put_def
    by (auto intro!: leads_bnd_keeps [OF keeps_ctx_Err] leads_bnd_keeps [OF keeps_when_err] mono
        intro: leads_keeps [OF keeps_within_loose [OF assms(1)]])
qed

end
