(* ===== verification/Pack_Correct.thy ===== *)
theory Pack_Correct
  imports Pack_Room
begin

text \<open>
  The packed store of \<open>src/cas/backend/packfs/packfs.go\<close>, end to end: it serves nothing but what was put, whatever
  happens between a put and a read, and on a working system it serves what was put, before and after a restart.
\<close>

section \<open>Nothing but what was put\<close>

text \<open>
  C10: Whatever happens to a packed store between its creation and a read, the read does not return wrong bytes. For
  every sequence of operations on a store that starts empty, with any options, any rotation of the packs, restarts
  at any point, and for every schedule of failing calls, partial writes, crashes and cancellations, a stream that \<open>Get\<close> returns and that
  ends without an error carries the content of a complete stream that was put under the same digest in that history, and so does every
  stream that \<open>GetMany\<close> hands to its callback. The readers that are put do not fail with \<open>io.EOF\<close>, and the base path is well-formed UTF-8.
\<close>

theorem pack_serves_what_was_put:
  assumes "ValidateBase p = Inr ()" "utf8_ok (filepath_Join p ''packs'')" "fresh_base p (est w)" "proper_steps steps"
    "pack_run p steps (None, w) = (Some b, w1)"
  shows "(\<forall>sch d rc w2. pk_Get b d (under sch w1) = (Inr rc, w2) \<longrightarrow> r_err rc = None \<longrightarrow> r_data rc \<in> puts_of steps d) \<and>
    (\<forall>sch ds d c. (d, c) \<in> set (snd (fst (pk_GetMany b ds (Some collect) [] (under sch w1)))) \<longrightarrow> c \<in> puts_of steps d)"
proof -
  let ?H = "puts_of steps"
  have put: "proper_reader r \<and> (r_err r = None \<longrightarrow> r_data r \<in> ?H d)" if step: "s \<in> set steps" "snd s = PPut d r" for s d r
  proof -
    have "(fst s, PPut d r) \<in> set steps" using step by (metis prod.collapse)
    with assms(4) show ?thesis by (force simp: proper_steps_def list_all_iff puts_of_def)
  qed
  have run: "(\<forall>b'. Some b = Some b' \<longrightarrow> wf_packb b' \<and> pk_base b' = p) \<and> pack_inv ?H {} (plain_packb p) (est w1)"
    by (rule pack_run_inv [OF assms(1,2) _ fresh_inv [OF assms(1,3)] _ assms(5)]) (use put in auto)
  then have wf: "wf_packb b" and inv: "pack_inv ?H {} b (est (under sch w1))" for sch
    by (auto simp: pack_inv_under wf_plain [symmetric])
  have "serves ?H collect (\<lambda>acc. \<forall>e \<in> set acc. snd e \<in> ?H (fst e))" by (auto simp: serves_def collect_def)
  note many = pk_GetMany_ok [OF wf this inv, of "[]"]
  show ?thesis using pk_Get_sound [OF wf inv] many by fastforce
qed

definition calm :: schedule where
  "calm = \<lparr>sch_ctx = Live, sch_faults = [], sch_wplan = [], sch_now = 9, sch_random = []\<rparr>"

definition pack_demo :: "(path \<times> node) list \<Rightarrow> packst env" where
  "pack_demo ns = \<lparr>ectx = Live, est = \<lparr>nodes = ns, os_now = 9, faults = [], wplan = [], crashed = False, outside = False,
     pk_index = [], packFile = None, packFilePath = '''', packBytes = 0, packEntries = 0, pk_random = []\<rparr>\<rparr>"

definition pack_demo_b :: packb where
  "pack_demo_b = (plain_packb ''s'')\<lparr>pk_cfg := \<lparr>enabled = True, packMaxBytes = 64 * 2 ^ 20, packMaxEntries = 10000\<rparr>\<rparr>"

definition pack_demo_steps :: "(schedule \<times> pack_op) list" where
  "pack_demo_steps = [(calm, POpen [WithEnabled]), (calm\<lparr>sch_faults := [Go, Go, Go, Go, Go, Go, Go, Crash]\<rparr>, PPut [7] demo_reader)]"

lemma pack_demo_opens: "fst (pk_New ''s'' [WithEnabled] (reborn (under calm (pack_demo [])))) = Inr pack_demo_b"
  by code_simp

theorem pack_serves_what_was_put_witness:
  "case pack_run ''s'' pack_demo_steps (None, pack_demo []) of
     (Some b, w1) \<Rightarrow> {r_data rc |sch rc w2. pk_Get b [7] (under sch w1) = (Inr rc, w2) \<and> r_err rc = None} \<subseteq> {[2, 3]}
   | (None, _) \<Rightarrow> False"
proof -
  obtain w1 where w1: "pack_run ''s'' pack_demo_steps (None, pack_demo []) = (Some pack_demo_b, w1)"
    using pack_demo_opens by (cases "pk_New ''s'' [WithEnabled] (reborn (under calm (pack_demo [])))") (simp add: pack_run_def pack_demo_steps_def)
  have base: "ValidateBase ''s'' = Inr ()" "utf8_ok (filepath_Join ''s'' ''packs'')" by code_simp+
  have "fresh_base ''s'' (est (pack_demo []))" by (auto simp: fresh_base_def pack_demo_def node_at_def below_def)
  moreover have "proper_steps pack_demo_steps" by (simp add: proper_steps_def pack_demo_steps_def proper_reader_def demo_reader_def)
  moreover have "puts_of pack_demo_steps [7] = {[2, 3]}"
    by (auto simp: puts_of_def pack_demo_steps_def demo_reader_def r_data_def)
  ultimately have "\<forall>sch rc w2. pk_Get pack_demo_b [7] (under sch w1) = (Inr rc, w2) \<longrightarrow> r_err rc = None \<longrightarrow> r_data rc = [2, 3]"
    using pack_serves_what_was_put [OF base _ _ w1] by (metis singletonD)
  with w1 show ?thesis by auto
qed

section \<open>What was put\<close>

lemma pk_Put_live:
  fixes w :: "'z packst_scheme env"
  assumes "wf_packb b" "enabled (pk_cfg b)" "working b {} (est w)" "pack_inv H {} b (est w)" "ectx w = Live"
    "d \<noteq> []" "r_err r = None" "r_data r \<in> H d"
  obtains s' where "pk_Put b d r w = (Inr (), w\<lparr>est := s'\<rparr>)" "working b {} s'" "pack_inv H {} b s'" "persisted b s'" "d \<in> fst ` set (pk_index s')"
proof -
  have r: "proper_reader r" using assms(7) by (simp add: proper_reader_def)
  have put: "works (\<lambda>s. working b {} s \<and> pack_inv H {} b s)
      (\<lambda>_ s. working b {} s \<and> persisted b s \<and> d \<in> fst ` set (pk_index s)) (pk_Put b d r :: ('z packst_scheme, unit) act)"
    using works_pk_Put [where H = H and E = "{}" and b = b and d = d and r = r] assms(1,2,6-8) by simp
  have inv: "keeps (pack_inv H {} b) (pk_Put b d r :: ('z packst_scheme, unit) act)"
    using keeps_pk_Put [where H = H and E = "{}" and b = b and d = d and r = r] assms(1,8) r by simp
  obtain x s' where x: "pk_Put b d r w = (Inr x, w\<lparr>est := s'\<rparr>)"
    and s': "(working b {} s' \<and> persisted b s' \<and> d \<in> fst ` set (pk_index s')) \<and> pack_inv H {} b s'"
    by (rule worksE [OF works_keeps [OF put inv] assms(5)]) (use assms(3,4) in simp_all)
  show thesis by (rule that [of s']) (use x s' in simp_all)
qed

text \<open>
  C11: On a working system a put into the packed store succeeds, and the object is there: a get of the digest returns the bytes that
  were put, and so does a get after the store is opened again with any options, when the index is read back from the manifest and every
  record is checked against its pack file. The packs leave room for the record below the largest offset, and the streams that
  were put under the digest before have the same content, as the callers of a content-addressed store see to.
\<close>

theorem pack_put_get:
  fixes w :: "'z packst_scheme env"
  assumes "wf_packb b" "utf8_ok (packDir b)" "enabled (pk_cfg b)" "working b {} (est w)" "pack_inv H {} b (est w)" "ectx w = Live"
    "d \<noteq> []" "r_err r = None" "H d = {r_data r}" "packs_within b N (est w)" "int (N + record_room d (length (r_data r))) \<le> MaxInt64"
  shows "\<exists>w1. pk_Put b d r w = (Inr (), w1) \<and>
    (\<exists>rc. pk_Get b d w1 = (Inr rc, w1) \<and> r_err rc = None \<and> r_data rc = r_data r) \<and>
    (\<forall>opts. \<exists>b' w2 rc. pk_New (pk_base b) opts w1 = (Inr b', w2) \<and> pk_Get b' d w2 = (Inr rc, w2) \<and> r_err rc = None \<and> r_data rc = r_data r)"
proof -
  from pk_Put_live [OF assms(1,3,4,5,6,7,8)] assms(9) obtain s1 where s1: "pk_Put b d r w = (Inr (), w\<lparr>est := s1\<rparr>)"
    "working b {} s1" "pack_inv H {} b s1" "persisted b s1" "d \<in> fst ` set (pk_index s1)" by auto
  let ?w1 = "w\<lparr>est := s1\<rparr>"
  have live: "ectx ?w1 = Live" using assms(6) by simp
  have "packs_within b (N + record_room d (length (r_data r))) s1"
    using within_pk_Put [OF assms(1), of r N d] assms(8,10) s1(1) by (force simp: leads_def proper_reader_def)
  then have fit: "packs_fit b s1" using assms(11) by (rule packs_within_fit)
  have get: "\<exists>rc. pk_Get b' d w' = (Inr rc, w') \<and> r_err rc = None \<and> r_data rc = r_data r"
    if "wf_packb b'" "working b' {} (est w')" "pack_inv H {} b' (est w')" "packs_fit b' (est w')" "ectx w' = Live" "d \<in> fst ` set (pk_index (est w'))"
    for b' and w' :: "'z packst_scheme env"
  proof -
    from pk_Get_live [OF that(1-5) assms(7) that(6)] obtain rc where "pk_Get b' d w' = (Inr rc, w')" "r_err rc = None" "r_data rc \<in> H d" .
    then show ?thesis using assms(9) by simp
  qed
  have "\<exists>rc. pk_Get b d ?w1 = (Inr rc, ?w1) \<and> r_err rc = None \<and> r_data rc = r_data r"
    by (rule get) (use assms(1) s1 fit live in simp_all)
  moreover have "\<exists>b' w2 rc. pk_New (pk_base b) opts ?w1 = (Inr b', w2) \<and> pk_Get b' d w2 = (Inr rc, w2) \<and> r_err rc = None \<and> r_data rc = r_data r"
    for opts
  proof -
    from pk_New_live [OF assms(1,2), of ?w1 H opts] s1 fit live
    obtain b' s2 where n: "pk_New (pk_base b) opts ?w1 = (Inr b', ?w1\<lparr>est := s2\<rparr>)" "b' = b\<lparr>pk_cfg := fold (\<lambda>o1. o1) opts default_config\<rparr>"
      "working b' {} s2" "pack_inv H {} b' s2" "packs_fit b' s2" "\<And>d. d \<noteq> [] \<Longrightarrow> map_of (pk_index s2) d = map_of (pk_index s1) d"
      by auto
    have "wf_packb b'" using assms(1) n(2) by (simp add: wf_packb_def)
    moreover have "d \<in> fst ` set (pk_index s2)" using s1(5) n(6) [OF assms(7)] by (metis map_of_eq_None_iff)
    ultimately have "\<exists>rc. pk_Get b' d (?w1\<lparr>est := s2\<rparr>) = (Inr rc, ?w1\<lparr>est := s2\<rparr>) \<and> r_err rc = None \<and> r_data rc = r_data r"
      by (intro get) (use n(3-5) live in simp_all)
    with n(1) show ?thesis by blast
  qed
  ultimately show ?thesis using s1(1) by auto
qed

definition pack_demo_dirs :: "(path \<times> node) list" where
  "pack_demo_dirs = [([''s''], Dir), ([''s'', ''packs''], Dir), ([''s'', ''loose''], Dir)]"

lemma pack_demo_paths:
  "path_parts (packDir pack_demo_b) = [''s'', ''packs'']" "pk_loose pack_demo_b = fs_default [''s'', ''loose''] False"
  "pk_base pack_demo_b = ''s''"
proof -
  have "path_parts (filepath_Join ''s'' ''packs'') = [''s'', ''packs'']" "path_parts ''s'' = [''s'']" by code_simp+
  then show "path_parts (packDir pack_demo_b) = [''s'', ''packs'']" "pk_loose pack_demo_b = fs_default [''s'', ''loose''] False"
    "pk_base pack_demo_b = ''s''"
    by (simp_all add: pack_demo_b_def plain_packb_def)
qed

lemma pack_demo_working: "working pack_demo_b {} (est (pack_demo pack_demo_dirs))"
proof -
  have "fs_tree (pk_loose pack_demo_b) (est (pack_demo pack_demo_dirs))"
    unfolding pack_demo_paths
    by (rule fs_tree_fresh) (auto simp: pack_demo_def pack_demo_dirs_def base_ok_def node_at_def parents_def below_def)
  then show ?thesis
    by (auto simp: working_def pack_demo_paths pack_dirs_def pack_path_def healthy_def file_slot_def pack_demo_def pack_demo_dirs_def
        node_at_def parents_def temp_name_def canon_def butlast_append)
qed

lemma pack_demo_inv: "pack_inv H {} pack_demo_b (est (pack_demo pack_demo_dirs))"
  by (auto simp: pack_inv_def handle_ok_def no_special_def manifest_ok_def loose_ok_def fs_abs_def pack_demo_paths pack_path_def canon_def
      pack_demo_def pack_demo_dirs_def node_at_def)

theorem pack_put_get_witness:
  "\<exists>w1 w2 b' rc. pk_Put pack_demo_b [7] demo_reader (pack_demo pack_demo_dirs) = (Inr (), w1) \<and>
     pk_New ''s'' [] w1 = (Inr b', w2) \<and> pk_Get b' [7] w2 = (Inr rc, w2) \<and> r_data rc = [2, 3]"
proof -
  let ?b = "pack_demo_b" and ?w = "pack_demo pack_demo_dirs"
  have "ValidateBase ''s'' = Inr ()" "utf8_ok (filepath_Join ''s'' ''packs'')" by code_simp+
  then have b: "wf_packb ?b" "utf8_ok (packDir ?b)" "enabled (pk_cfg ?b)"
    by (simp_all add: pack_demo_b_def wf_packb_def plain_packb_def)
  have r: "ectx ?w = Live" "[7] \<noteq> []" "r_err demo_reader = None" "(\<lambda>_. {[2, 3]}) [7] = {r_data demo_reader}"
    by (simp_all add: pack_demo_def demo_reader_def r_data_def)
  have "packs_within ?b 0 (est ?w)"
    by (auto simp: packs_within_def pack_demo_def pack_demo_dirs_def node_at_def)
  moreover have "int (0 + record_room [7] (length (r_data demo_reader))) \<le> MaxInt64"
    by (simp add: record_room_def demo_reader_def r_data_def MaxInt64_def)
  ultimately obtain w1 where "pk_Put ?b [7] demo_reader ?w = (Inr (), w1)"
    "\<forall>opts. \<exists>b' w2 rc. pk_New (pk_base ?b) opts w1 = (Inr b', w2) \<and> pk_Get b' [7] w2 = (Inr rc, w2) \<and> r_err rc = None \<and> r_data rc = r_data demo_reader"
    using pack_put_get [OF b pack_demo_working pack_demo_inv r] by blast
  moreover have "r_data demo_reader = [2, 3]" by (simp add: demo_reader_def r_data_def)
  ultimately show ?thesis unfolding pack_demo_paths by metis
qed

end
