(* ===== verification/Codec_Cbor.thy ===== *)
theory Codec_Cbor
  imports Complex_Main Cas_Store "HOL-Library.Multiset"
begin

text \<open>
  \<open>src/cas/codec/cbor/cbor.go\<close>: the compact CBOR codec. A Go value of type \<open>any\<close> is a value of the datatype
  \<open>goany\<close>, with one constructor per type of the encoder's type switch; a Go map is an association list with distinct keys,
  and a nil map is the empty one. A \<open>float64\<close> is its bit pattern. A slice expression out of range
  is the error value \<open>bounds_panic\<close>, so that the absence of panics is a theorem.

  Shown: a value that is encoded decodes to itself (with integers widened and map keys in order), the encoding
  does not depend on the order in which a map is listed, the decoder answers every byte string without a panic, with a
  value that is no deeper than the bound and no larger than the input, and a widened half-precision number has the same value.
\<close>

unbundle bit_operations_syntax

section \<open>Values\<close>

datatype int_kind = IntN | Int8 | Int16 | Int32 | Int64

datatype goany =
  GNil
| GBool bool
| GInt int_kind int
| GUint int_kind nat
| GFloat32 "32 word"
| GFloat64 "64 word"
| GString string
| GBytes bytes
| GStrings "string list"
| GSlice "goany list"
| GMap "(string \<times> goany) list"
| GStringMap "(string \<times> string) list"
| GOther string

definition MaxDepth :: nat where
  "MaxDepth = 128"

definition ErrTooDeep :: err where
  "ErrTooDeep = ErrorsNew ''cbor: value nested deeper than 128 levels''"

definition ErrIntegerRange :: err where
  "ErrIntegerRange = ErrorsNew ''cbor: integer argument outside the int64 value model''"

definition MaxInt64u :: nat where
  "MaxInt64u = 2 ^ 63 - 1"

section \<open>Floating-point numbers\<close>

text \<open>
  The double \<open>m * 2 ^ e\<close> with a sign, for a positive \<open>m\<close> below \<open>2 ^ 53\<close> and an exponent in the normal range, where Go's
  conversion from an integer, its addition and division by a power of two, and \<open>math.Ldexp\<close> are exact.
\<close>

fun ilog2 :: "nat \<Rightarrow> nat" where
  "ilog2 n = (if n \<le> 1 then 0 else Suc (ilog2 (n div 2)))"

declare ilog2.simps [simp del]

definition double :: "bool \<Rightarrow> nat \<Rightarrow> int \<Rightarrow> 64 word" where
  "double neg m e =
     (if neg then push_bit 63 1 else 0) OR
     (if m = 0 then 0
      else word_of_int (2 ^ 52 * (e + int (ilog2 m) + 1023) + int (m * 2 ^ (52 - ilog2 m)) - 2 ^ 52))"

definition math_Inf :: "64 word" where
  "math_Inf = 0x7FF0000000000000"

definition math_NaN :: "64 word" where
  "math_NaN = 0x7FF8000000000001"

definition double_exp :: "64 word \<Rightarrow> nat" where
  "double_exp w = unat (drop_bit 52 w AND 0x7FF)"

definition float64_neg :: "64 word \<Rightarrow> 64 word" where
  "float64_neg w = w XOR push_bit 63 1"

text \<open>The conversion of a \<open>float32\<close> to a \<open>float64\<close>; a signalling not-a-number becomes quiet.\<close>

definition widen32 :: "32 word \<Rightarrow> 64 word" where
  "widen32 w =
     (let neg = bit w 31; ex = unat (drop_bit 23 w AND 0xFF); frac = unat (w AND 0x7FFFFF) in
      if ex = 0 then double neg frac (- 149)
      else if ex = 255
      then (if neg then push_bit 63 1 else 0) OR math_Inf OR
        (if frac = 0 then 0 else push_bit 51 1 OR push_bit 29 (word_of_nat frac))
      else double neg (2 ^ 23 + frac) (int ex - 150))"

definition halfToFloat64 :: "16 word \<Rightarrow> 64 word" where
  "halfToFloat64 bits =
     (let negative = bit bits 15; ex = unat (drop_bit 10 bits AND 0x1F); frac = unat (bits AND 0x3FF) in
      if ex = 0x1F \<and> frac \<noteq> 0 then math_NaN
      else
        (let v = (if ex = 0 then double False frac (- 24)
                  else if ex = 0x1F then math_Inf
                  else double False (1024 + frac) (int ex - 25)) in
         if negative then float64_neg v else v))"

section \<open>Encoding\<close>

definition appendMajor :: "bytes \<Rightarrow> 8 word \<Rightarrow> nat \<Rightarrow> bytes" where
  "appendMajor dst mt len =
     (if len < 24 then dst @ [push_bit 5 mt OR word_of_nat len]
      else if len \<le> 0xFF then dst @ (push_bit 5 mt OR 24) # be_put 1 len
      else if len \<le> 0xFFFF then dst @ (push_bit 5 mt OR 25) # be_put 2 len
      else if len \<le> 0xFFFFFFFF then dst @ (push_bit 5 mt OR 26) # be_put 4 len
      else dst @ (push_bit 5 mt OR 27) # be_put 8 len)"

definition encodeInt64Into :: "bytes \<Rightarrow> int \<Rightarrow> bytes result" where
  "encodeInt64Into dst v =
     (if 0 \<le> v then Inr (appendMajor dst 0 (nat v)) else Inr (appendMajor dst 1 (nat (- (v + 1)))))"

definition encodeUint64Into :: "bytes \<Rightarrow> nat \<Rightarrow> bytes result" where
  "encodeUint64Into dst v = Inr (appendMajor dst 0 v)"

definition encodeFloat64Into :: "bytes \<Rightarrow> 64 word \<Rightarrow> bytes result" where
  "encodeFloat64Into dst v =
     (if double_exp v = 0x7FF then Inl (ErrorsNew ''cbor: unsupported float value'')
      else Inr (dst @ 0xFB # be_put 8 (unat v)))"

definition appendBytes :: "bytes \<Rightarrow> bytes \<Rightarrow> bytes" where
  "appendBytes dst data = appendMajor dst 2 (length data) @ data"

definition appendStringBytes :: "bytes \<Rightarrow> bytes \<Rightarrow> bytes" where
  "appendStringBytes dst data = appendMajor dst 3 (length data) @ data"

text \<open>The recursion descends into containers whose items are rewrapped first; \<open>weight\<close> counts them.\<close>

primrec weight :: "goany \<Rightarrow> nat" where
  "weight GNil = 0"
| "weight (GBool b) = 0"
| "weight (GInt k i) = 0"
| "weight (GUint k n) = 0"
| "weight (GFloat32 w) = 0"
| "weight (GFloat64 w) = 0"
| "weight (GString s) = 0"
| "weight (GBytes b) = 0"
| "weight (GStrings ss) = 2 + length ss"
| "weight (GSlice vs) = 2 + sum_list (map Suc (map weight vs))"
| "weight (GMap kvs) = 2 + sum_list (map (\<lambda>kv. Suc (snd kv)) (map (map_prod id weight) kvs))"
| "weight (GStringMap kvs) = 2 + length kvs"
| "weight (GOther t) = 0"

lemma weight_sort: "sum_list (map f (sort_key g xs)) = sum_list (map (f :: 'a \<Rightarrow> nat) xs)"
  by (metis mset_map mset_sort sum_mset_sum_list)

function appendEncodedValue :: "bytes \<Rightarrow> goany \<Rightarrow> bytes result"
  and append_items :: "bytes \<Rightarrow> goany list \<Rightarrow> bytes result"
  and append_pairs :: "bytes \<Rightarrow> (string \<times> goany) list \<Rightarrow> bytes result" where
  "appendEncodedValue dst v =
     (case v of
        GNil \<Rightarrow> Inr (dst @ [0xF6])
      | GBool x \<Rightarrow> Inr (dst @ [if x then 0xF5 else 0xF4])
      | GInt _ x \<Rightarrow> encodeInt64Into dst x
      | GUint _ x \<Rightarrow> encodeUint64Into dst x
      | GFloat32 x \<Rightarrow> encodeFloat64Into dst (widen32 x)
      | GFloat64 x \<Rightarrow> encodeFloat64Into dst x
      | GString x \<Rightarrow> Inr (appendStringBytes dst (bytes_of x))
      | GBytes x \<Rightarrow> Inr (appendBytes dst x)
      | GStrings x \<Rightarrow> append_items (appendMajor dst 4 (length x)) (map GString x)
      | GSlice x \<Rightarrow> append_items (appendMajor dst 4 (length x)) x
      | GMap x \<Rightarrow> append_pairs (appendMajor dst 5 (length x)) (sort_key fst x)
      | GStringMap x \<Rightarrow> append_pairs (appendMajor dst 5 (length x)) (sort_key fst (map (map_prod id GString) x))
      | GOther t \<Rightarrow> Inl (ErrorsNew ''cbor: unsupported value type''))"
| "append_items dst [] = Inr dst"
| "append_items dst (v # vs) =
     (case appendEncodedValue dst v of Inl e \<Rightarrow> Inl e | Inr dst' \<Rightarrow> append_items dst' vs)"
| "append_pairs dst [] = Inr dst"
| "append_pairs dst ((key, v) # kvs) =
     (case appendEncodedValue (appendStringBytes dst (bytes_of key)) v of
        Inl e \<Rightarrow> Inl e
      | Inr dst' \<Rightarrow> append_pairs dst' kvs)"
  by pat_completeness auto
termination
  by (relation "measure (case_sum (\<lambda>(_, v). weight v)
        (case_sum (\<lambda>(_, vs). Suc (sum_list (map (\<lambda>v. Suc (weight v)) vs)))
          (\<lambda>(_, kvs). Suc (sum_list (map (\<lambda>kv. Suc (weight (snd kv))) kvs)))))")
    (auto simp: weight_sort comp_def sum_list_Suc)

declare appendEncodedValue.simps [simp del]

definition encodeAny :: "goany \<Rightarrow> bytes result" where
  "encodeAny v = appendEncodedValue [] v"

section \<open>Decoding\<close>

definition truncated_length :: err where
  "truncated_length = ErrorsNew ''cbor: truncated length''"

definition truncated_value :: err where
  "truncated_value = ErrorsNew ''cbor: truncated value''"

text \<open>The argument behind the initial byte, and by how much it moves the position.\<close>

definition readLength :: "bytes \<Rightarrow> nat \<Rightarrow> (nat \<times> nat) result" where
  "readLength data ai =
     (if ai < 24 then Inr (ai, 0)
      else if ai = 24 then (if length data < 1 then Inl truncated_length else Inr (be_get (take 1 data), 1))
      else if ai = 25 then (if length data < 2 then Inl truncated_length else Inr (be_get (take 2 data), 2))
      else if ai = 26 then (if length data < 4 then Inl truncated_length else Inr (be_get (take 4 data), 4))
      else if ai = 27 then (if length data < 8 then Inl truncated_length else Inr (be_get (take 8 data), 8))
      else Inl (ErrorsNew ''cbor: unsupported length encoding''))"

definition slice :: "bytes \<Rightarrow> nat \<Rightarrow> nat \<Rightarrow> bytes result" where
  "slice data i j = (if i \<le> j \<and> j \<le> length data then Inr (take (j - i) (drop i data)) else Inl bounds_panic)"

definition slice_from :: "bytes \<Rightarrow> nat \<Rightarrow> bytes result" where
  "slice_from data i = slice data i (length data)"

text \<open>The length of a tail as a \<open>uint64\<close>.\<close>

definition room :: "bytes \<Rightarrow> nat \<Rightarrow> nat" where
  "room data p = nat ((int (length data) - int p) mod 2 ^ 64)"

definition decode_float_at :: "bytes \<Rightarrow> nat \<Rightarrow> string \<Rightarrow> (nat \<Rightarrow> 64 word) \<Rightarrow> (goany \<times> bytes) result" where
  "decode_float_at data n msg f =
     (if length data < Suc n then Inl (ErrorsNew msg)
      else case slice data 1 (Suc n) of
          Inl e \<Rightarrow> Inl e
        | Inr b \<Rightarrow> map_sum id (Pair (GFloat64 (f (be_get b)))) (slice_from data (Suc n)))"

definition decode_simple :: "bytes \<Rightarrow> nat \<Rightarrow> (goany \<times> bytes) result" where
  "decode_simple data addl =
     (if addl = 20 then map_sum id (Pair (GBool False)) (slice_from data 1)
      else if addl = 21 then map_sum id (Pair (GBool True)) (slice_from data 1)
      else if addl = 22 then map_sum id (Pair GNil) (slice_from data 1)
      else if addl = 25 then decode_float_at data 2 ''cbor: truncated float16'' (\<lambda>n. halfToFloat64 (word_of_nat n))
      else if addl = 26 then decode_float_at data 4 ''cbor: truncated float32'' (\<lambda>n. widen32 (word_of_nat n))
      else if addl = 27 then decode_float_at data 8 ''cbor: truncated float64'' word_of_nat
      else Inl (ErrorsNew ''cbor: unsupported simple value''))"

text \<open>The scalar types behind their argument; \<open>p\<close> is the position of the payload.\<close>

definition decode_scalar :: "bytes \<Rightarrow> nat \<Rightarrow> nat \<Rightarrow> nat \<Rightarrow> (goany \<times> bytes) result" where
  "decode_scalar data major len p =
     (if major = 0 then (if len > MaxInt64u then Inl (Errorf ''unsigned'' [ErrIntegerRange])
        else map_sum id (Pair (GInt Int64 (int len))) (slice_from data p))
      else if major = 1 then (if len > MaxInt64u then Inl (Errorf ''negated'' [ErrIntegerRange])
        else map_sum id (Pair (GInt Int64 (- 1 - int len))) (slice_from data p))
      else if len > room data p then Inl truncated_value
      else case slice data p (p + len) of
          Inl e \<Rightarrow> Inl e
        | Inr b \<Rightarrow> map_sum id (Pair (if major = 2 then GBytes b else GString (string_of b))) (slice_from data (p + len)))"

function decodeOne :: "bytes \<Rightarrow> nat \<Rightarrow> (goany \<times> bytes) result"
  and decode_items :: "bytes \<Rightarrow> nat \<Rightarrow> nat \<Rightarrow> nat \<Rightarrow> (goany list \<times> nat) result"
  and decode_pairs :: "bytes \<Rightarrow> nat \<Rightarrow> nat \<Rightarrow> nat \<Rightarrow> (string \<times> goany) list \<Rightarrow> ((string \<times> goany) list \<times> nat) result" where
  "decodeOne data depth =
     (if depth > MaxDepth then Inl ErrTooDeep
      else case data of
          [] \<Rightarrow> Inl (ErrorsNew ''cbor: unexpected end of input'')
        | b # tl1 \<Rightarrow>
            (let major = unat (drop_bit 5 b); addl = unat (b AND 0x1F) in
             if major = 7 then decode_simple data addl
             else case readLength tl1 addl of
                 Inl e \<Rightarrow> Inl e
               | Inr (len, moved) \<Rightarrow>
                   (let p = 1 + moved in
                    if major < 4 then decode_scalar data major len p
                    else if major = 4
                    then (if len > room data p then Inl truncated_value
                          else case decode_items data p len (depth + 1) of
                              Inl e \<Rightarrow> Inl e
                            | Inr (items, cursor) \<Rightarrow> map_sum id (Pair (GSlice items)) (slice_from data cursor))
                    else if major = 5
                    then (if len > room data p then Inl truncated_value
                          else case decode_pairs data p len (depth + 1) [] of
                              Inl e \<Rightarrow> Inl e
                            | Inr (m, cursor) \<Rightarrow> map_sum id (Pair (GMap m)) (slice_from data cursor))
                    else Inl (ErrorsNew ''cbor: unsupported major type''))))"
| "decode_items data cursor 0 depth = Inr ([], cursor)"
| "decode_items data cursor (Suc n) depth =
     (case slice_from data cursor of
        Inl e \<Rightarrow> Inl e
      | Inr d \<Rightarrow>
          (case decodeOne d depth of
             Inl e \<Rightarrow> Inl e
           | Inr (item, rest) \<Rightarrow>
               map_sum id (\<lambda>(items, c). (item # items, c)) (decode_items data (length data - length rest) n depth)))"
| "decode_pairs data cursor 0 depth m = Inr (m, cursor)"
| "decode_pairs data cursor (Suc n) depth m =
     (case slice_from data cursor of
        Inl e \<Rightarrow> Inl e
      | Inr d \<Rightarrow>
          (case decodeOne d depth of
             Inl e \<Rightarrow> Inl e
           | Inr (key, rest) \<Rightarrow>
               (case key of
                  GString k \<Rightarrow>
                    (case decodeOne rest depth of
                       Inl e \<Rightarrow> Inl e
                     | Inr (val, rest2) \<Rightarrow> decode_pairs data (length data - length rest2) n depth (AList.update k val m))
                | _ \<Rightarrow> Inl (ErrorsNew ''cbor: map key must be a string''))))"
  by pat_completeness auto
termination
  by (relation "inv_image (less_than <*lex*> less_than) (case_sum (\<lambda>(_, depth). (MaxDepth + 1 - depth, 0))
        (case_sum (\<lambda>(_, _, n, depth). (MaxDepth + 1 - depth, n)) (\<lambda>(_, _, n, depth, _). (MaxDepth + 1 - depth, n))))")
    auto

declare decodeOne.simps [simp del]

definition decodeAny :: "bytes \<Rightarrow> goany result" where
  "decodeAny data =
     (case decodeOne data 0 of
        Inl e \<Rightarrow> Inl e
      | Inr (v, rest) \<Rightarrow> if rest \<noteq> [] then Inl (ErrorsNew ''cbor: trailing data'') else Inr v)"

definition encodeMapValue :: "(string \<times> goany) list \<Rightarrow> bytes result" where
  "encodeMapValue m = appendEncodedValue [] (GMap m)"

definition decodeMapValue :: "bytes \<Rightarrow> (string \<times> goany) list result" where
  "decodeMapValue data =
     (case decodeAny data of
        Inl e \<Rightarrow> Inl e
      | Inr v \<Rightarrow> (case v of GMap m \<Rightarrow> Inr m | _ \<Rightarrow> Inl (ErrorsNew ''cbor: expected map[string]any'')))"

section \<open>The codec\<close>

record 'a cbor =
  cb_next :: "'a codec option"
  cb_encode :: "('a \<Rightarrow> bytes result) option"
  cb_decode :: "(bytes \<Rightarrow> 'a result) option"

definition errNilEncode :: err where
  "errNilEncode = ErrorsNew ''cbor: encode func is nil''"

definition errNilDecode :: err where
  "errNilDecode = ErrorsNew ''cbor: decode func is nil''"

definition errCodecStack :: err where
  "errCodecStack = ErrorsNew ''cbor: an inner codec and conversion functions cannot both be set''"

definition cbor_New :: "'a codec option \<Rightarrow> ('a \<Rightarrow> bytes result) option \<Rightarrow> (bytes \<Rightarrow> 'a result) option \<Rightarrow> 'a cbor" where
  "cbor_New nxt enc dcd = \<lparr>cb_next = nxt, cb_encode = enc, cb_decode = dcd\<rparr>"

definition NewRaw :: "('a \<Rightarrow> bytes result) option \<Rightarrow> (bytes \<Rightarrow> 'a result) option \<Rightarrow> 'a cbor" where
  "NewRaw enc dcd = \<lparr>cb_next = None, cb_encode = enc, cb_decode = dcd\<rparr>"

definition NewValue :: "goany cbor" where
  "NewValue = NewRaw (Some encodeAny) (Some decodeAny)"

definition NewMap :: "(string \<times> goany) list cbor" where
  "NewMap = NewRaw (Some encodeMapValue) (Some decodeMapValue)"

definition cbor_Encode :: "'a cbor \<Rightarrow> 'a \<Rightarrow> bytes result" where
  "cbor_Encode c v =
     (case (cb_encode c, cb_next c) of
        (Some _, Some _) \<Rightarrow> Inl errCodecStack
      | (Some enc, None) \<Rightarrow> enc v
      | (None, Some nxt) \<Rightarrow> c_Encode nxt v
      | (None, None) \<Rightarrow> Inl errNilEncode)"

definition cbor_Decode :: "'a cbor \<Rightarrow> bytes \<Rightarrow> 'a result" where
  "cbor_Decode c data =
     (case (cb_decode c, cb_next c) of
        (Some _, Some _) \<Rightarrow> Inl errCodecStack
      | (Some dcd, None) \<Rightarrow> dcd data
      | (None, Some nxt) \<Rightarrow> c_Decode nxt data
      | (None, None) \<Rightarrow> Inl errNilDecode)"

definition cbor_CodecName :: "'a cbor \<Rightarrow> string" where
  "cbor_CodecName c =
     (case (cb_encode c, cb_next c) of
        (None, Some nxt) \<Rightarrow> (case c_CodecName nxt of Some name \<Rightarrow> name | None \<Rightarrow> '''')
      | _ \<Rightarrow> ''cbor'')"

text \<open>The codec a store is given.\<close>

definition cbor_codec :: "'a cbor \<Rightarrow> 'a codec" where
  "cbor_codec c = \<lparr>c_Encode = cbor_Encode c, c_Decode = cbor_Decode c, c_CodecName = Some (cbor_CodecName c)\<rparr>"

section \<open>Reading back the argument\<close>

definition initial :: "nat \<Rightarrow> nat \<Rightarrow> 8 word" where
  "initial mt x = push_bit 5 (word_of_nat mt) OR word_of_nat x"

lemma initial_byte:
  assumes "mt < 8" "x < 32"
  shows "unat (drop_bit 5 (initial mt x)) = mt" "unat (initial mt x AND 0x1F) = x"
proof -
  have "list_all (\<lambda>m. list_all (\<lambda>y. unat (drop_bit 5 (initial m y)) = m \<and> unat (initial m y AND 0x1F) = y) [0..<32]) [0..<8]"
    by code_simp
  with assms show "unat (drop_bit 5 (initial mt x)) = mt" "unat (initial mt x AND 0x1F) = x"
    by (auto simp: list_all_iff)
qed

lemma appendMajor_initial:
  "appendMajor [] (word_of_nat mt) len =
     (if len < 24 then [initial mt len] else if len \<le> 0xFF then initial mt 24 # be_put 1 len
      else if len \<le> 0xFFFF then initial mt 25 # be_put 2 len else if len \<le> 0xFFFFFFFF then initial mt 26 # be_put 4 len
      else initial mt 27 # be_put 8 len)"
  by (simp add: appendMajor_def initial_def)

lemma appendMajor_append: "appendMajor (a @ dst) mt len = a @ appendMajor dst mt len"
  by (simp add: appendMajor_def)

lemma appendMajor_Nil: "appendMajor dst mt len = dst @ appendMajor [] mt len"
  using appendMajor_append [of dst "[]"] by simp

lemma read_argument:
  assumes "mt < 8" "len < 2 ^ 64"
  obtains b ext where "appendMajor [] (word_of_nat mt) len = b # ext" "unat (drop_bit 5 b) = mt"
    "\<And>t. readLength (ext @ t) (unat (b AND 0x1F)) = Inr (len, length ext)"
proof -
  consider "len < 24" | "24 \<le> len" "len \<le> 0xFF" | "0xFF < len" "len \<le> 0xFFFF" | "0xFFFF < len" "len \<le> 0xFFFFFFFF" | "0xFFFFFFFF < len" by linarith
  then show thesis
  proof cases
    case 1
    then show thesis by (intro that [of "initial mt len" "[]"]) (simp_all add: appendMajor_initial readLength_def initial_byte [OF assms(1)])
  next
    case 2
    then show thesis
      by (intro that [of "initial mt 24" "be_put 1 len"]) (simp_all add: appendMajor_initial readLength_def unat_of_nat initial_byte [OF assms(1)])
  next
    case 3
    then show thesis
      by (intro that [of "initial mt 25" "be_put 2 len"]) (simp_all add: appendMajor_initial readLength_def be_get_put_mod initial_byte [OF assms(1)])
  next
    case 4
    then show thesis
      by (intro that [of "initial mt 26" "be_put 4 len"]) (simp_all add: appendMajor_initial readLength_def be_get_put_mod initial_byte [OF assms(1)])
  next
    case 5
    then show thesis using assms(2)
      by (intro that [of "initial mt 27" "be_put 8 len"]) (simp_all add: appendMajor_initial readLength_def be_get_put_mod initial_byte [OF assms(1)])
  qed
qed

section \<open>Slices\<close>

lemma slice_append [simp]: "slice (h @ b @ t) (length h) (length h + length b) = Inr b" "slice_from (h @ t) (length h) = Inr t"
  by (simp_all add: slice_def slice_from_def)

lemma slice_from_le: "slice_from data i = (if i \<le> length data then Inr (drop i data) else Inl bounds_panic)"
  by (simp add: slice_from_def slice_def)

lemma room_tail: "p \<le> length data \<Longrightarrow> length data < 2 ^ 63 \<Longrightarrow> room data p = length data - p"
  by (simp add: room_def of_nat_diff [symmetric] del: of_nat_diff)

section \<open>The encoder only appends\<close>

lemma append_value [simp]:
  "appendEncodedValue dst GNil = Inr (dst @ [0xF6])"
  "appendEncodedValue dst (GBool x) = Inr (dst @ [if x then 0xF5 else 0xF4])"
  "appendEncodedValue dst (GInt k i) = encodeInt64Into dst i"
  "appendEncodedValue dst (GUint k n) = encodeUint64Into dst n"
  "appendEncodedValue dst (GFloat32 f) = encodeFloat64Into dst (widen32 f)"
  "appendEncodedValue dst (GFloat64 g) = encodeFloat64Into dst g"
  "appendEncodedValue dst (GString s) = Inr (appendStringBytes dst (bytes_of s))"
  "appendEncodedValue dst (GBytes b) = Inr (appendBytes dst b)"
  "appendEncodedValue dst (GStrings ss) = append_items (appendMajor dst 4 (length ss)) (map GString ss)"
  "appendEncodedValue dst (GSlice vs) = append_items (appendMajor dst 4 (length vs)) vs"
  "appendEncodedValue dst (GMap m) = append_pairs (appendMajor dst 5 (length m)) (sort_key fst m)"
  "appendEncodedValue dst (GStringMap sm) = append_pairs (appendMajor dst 5 (length sm)) (sort_key fst (map (map_prod id GString) sm))"
  "appendEncodedValue dst (GOther t) = Inl (ErrorsNew ''cbor: unsupported value type'')"
  by (simp_all add: appendEncodedValue.simps)

lemma encoder_appends:
  "appendEncodedValue (a @ dst) v = map_sum id ((@) a) (appendEncodedValue dst v)"
  "append_items (a @ dst) vs = map_sum id ((@) a) (append_items dst vs)"
  "append_pairs (a @ dst) kvs = map_sum id ((@) a) (append_pairs dst kvs)"
proof (induction dst v and dst vs and dst kvs rule: appendEncodedValue_append_items_append_pairs.induct)
  case (1 dst v)
  then show ?case
    by (cases v) (simp_all add: encodeInt64Into_def encodeUint64Into_def encodeFloat64Into_def
        appendStringBytes_def appendBytes_def appendMajor_append)
next
  case (3 dst v vs)
  then show ?case by (cases "appendEncodedValue dst v") simp_all
next
  case (5 dst key v kvs)
  then show ?case
    by (cases "appendEncodedValue (appendStringBytes dst (bytes_of key)) v") (simp_all add: appendStringBytes_def appendMajor_append)
qed simp_all

lemma append_from_Nil:
  "appendEncodedValue dst v = map_sum id ((@) dst) (appendEncodedValue [] v)"
  "append_items dst vs = map_sum id ((@) dst) (append_items [] vs)"
  "append_pairs dst kvs = map_sum id ((@) dst) (append_pairs [] kvs)"
  using encoder_appends [of dst "[]"] by simp_all

section \<open>What is read back\<close>

text \<open>The value a decode gives for an encoded value: every integer an \<open>int64\<close>, every number a \<open>float64\<close>, every map listed by key.\<close>

primrec decoded :: "goany \<Rightarrow> goany" where
  "decoded GNil = GNil"
| "decoded (GBool b) = GBool b"
| "decoded (GInt k i) = GInt Int64 i"
| "decoded (GUint k n) = GInt Int64 (int n)"
| "decoded (GFloat32 f) = GFloat64 (widen32 f)"
| "decoded (GFloat64 g) = GFloat64 g"
| "decoded (GString s) = GString s"
| "decoded (GBytes b) = GBytes b"
| "decoded (GStrings ss) = GSlice (map GString ss)"
| "decoded (GSlice vs) = GSlice (map decoded vs)"
| "decoded (GMap m) = GMap (sort_key fst (map (map_prod id decoded) m))"
| "decoded (GStringMap sm) = GMap (sort_key fst (map (map_prod id GString) sm))"
| "decoded (GOther t) = GOther t"

text \<open>How many levels the decoder descends below a value.\<close>

primrec height :: "goany \<Rightarrow> nat" where
  "height GNil = 0"
| "height (GBool b) = 0"
| "height (GInt k i) = 0"
| "height (GUint k n) = 0"
| "height (GFloat32 f) = 0"
| "height (GFloat64 g) = 0"
| "height (GString s) = 0"
| "height (GBytes b) = 0"
| "height (GStrings ss) = (if ss = [] then 0 else 1)"
| "height (GSlice vs) = foldr (\<lambda>h n. max (Suc h) n) (map height vs) 0"
| "height (GMap m) = foldr (\<lambda>kh n. max (Suc (snd kh)) n) (map (map_prod id height) m) 0"
| "height (GStringMap sm) = (if sm = [] then 0 else 1)"
| "height (GOther t) = 0"

definition finite_bits :: "64 word \<Rightarrow> bool" where
  "finite_bits w \<longleftrightarrow> double_exp w \<noteq> 0x7FF"

text \<open>
  The Go values the encoder accepts and the value model can hold: integers of their type and within \<open>int64\<close>, finite
  numbers, lengths of slices, maps without duplicate keys.
\<close>

primrec representable :: "goany \<Rightarrow> bool" where
  "representable GNil = True"
| "representable (GBool b) = True"
| "representable (GInt k i) = (- (2 ^ 63) \<le> i \<and> i < 2 ^ 63)"
| "representable (GUint k n) = (n < 2 ^ 63)"
| "representable (GFloat32 f) = finite_bits (widen32 f)"
| "representable (GFloat64 g) = finite_bits g"
| "representable (GString s) = (length s < 2 ^ 63)"
| "representable (GBytes b) = (length b < 2 ^ 63)"
| "representable (GStrings ss) = (length ss < 2 ^ 63 \<and> list_all (\<lambda>s. length s < 2 ^ 63) ss)"
| "representable (GSlice vs) = (length vs < 2 ^ 63 \<and> list_all (\<lambda>b. b) (map representable vs))"
| "representable (GMap m) = (length m < 2 ^ 63 \<and> distinct (map fst m) \<and>
     list_all (\<lambda>kb. length (fst kb) < 2 ^ 63 \<and> snd kb) (map (map_prod id representable) m))"
| "representable (GStringMap sm) = (length sm < 2 ^ 63 \<and> distinct (map fst sm) \<and>
     list_all (\<lambda>ks. length (fst ks) < 2 ^ 63 \<and> length (snd ks) < 2 ^ 63) sm)"
| "representable (GOther t) = False"

lemma height_items: "v \<in> set vs \<Longrightarrow> height v < height (GSlice vs)"
  by (induction vs) auto

lemma height_values: "kv \<in> set m \<Longrightarrow> height (snd kv) < height (GMap m)"
  by (induction m) auto

section \<open>Round trip\<close>

lemma decodeOne_header:
  assumes "mt < 6" "len < 2 ^ 64" "depth \<le> MaxDepth" "h = appendMajor [] (word_of_nat mt) len"
  shows "decodeOne (h @ t) depth =
    (if mt < 4 then decode_scalar (h @ t) mt len (length h)
     else if len > room (h @ t) (length h) then Inl truncated_value
     else if mt = 4 then (case decode_items (h @ t) (length h) len (depth + 1) of
         Inl e \<Rightarrow> Inl e | Inr (items, cursor) \<Rightarrow> map_sum id (Pair (GSlice items)) (slice_from (h @ t) cursor))
     else (case decode_pairs (h @ t) (length h) len (depth + 1) [] of
         Inl e \<Rightarrow> Inl e | Inr (m, cursor) \<Rightarrow> map_sum id (Pair (GMap m)) (slice_from (h @ t) cursor)))"
proof -
  obtain b ext where h: "h = b # ext" "unat (drop_bit 5 b) = mt"
    "\<And>t. readLength (ext @ t) (unat (b AND 0x1F)) = Inr (len, length ext)"
    using read_argument [of mt len] assms by auto
  then show ?thesis using assms(1,3) by (subst decodeOne.simps) (simp add: Let_def)
qed

lemma decode_number:
  assumes "i \<in> {- (2 ^ 63)..<2 ^ 63}" "depth \<le> MaxDepth" "encodeInt64Into [] i = Inr b"
  shows "decodeOne (b @ t) depth = Inr (GInt Int64 i, t)"
proof (cases "0 \<le> i")
  case True
  with assms(3) have b: "b = appendMajor [] (word_of_nat 0) (nat i)" by (simp add: encodeInt64Into_def)
  show ?thesis
    using decodeOne_header [OF _ _ assms(2) b, of t] True assms(1) by (simp add: decode_scalar_def MaxInt64u_def nat_le_iff)
next
  case False
  with assms(3) have b: "b = appendMajor [] (word_of_nat 1) (nat (- (i + 1)))" by (simp add: encodeInt64Into_def)
  show ?thesis
    using decodeOne_header [OF _ _ assms(2) b, of t] False assms(1) by (simp add: decode_scalar_def MaxInt64u_def nat_le_iff)
qed

lemma decode_text:
  assumes "length c < 2 ^ 63" "depth \<le> MaxDepth" "length (b @ t) < 2 ^ 63"
  shows "b = appendBytes [] c \<Longrightarrow> decodeOne (b @ t) depth = Inr (GBytes c, t)"
    "b = appendStringBytes [] c \<Longrightarrow> decodeOne (b @ t) depth = Inr (GString (string_of c), t)"
proof -
  have *: "decodeOne ((h @ c) @ t) depth = Inr (if mt = 2 then GBytes c else GString (string_of c), t)"
    if "mt = 2 \<or> mt = 3" "h = appendMajor [] (word_of_nat mt) (length c)" "length ((h @ c) @ t) < 2 ^ 63" for mt h
    using decodeOne_header [OF _ _ assms(2) that(2), of "c @ t"] that(1,3) assms(1) room_tail [of "length h" "h @ c @ t"]
    by (auto simp: decode_scalar_def slice_def slice_from_le)
  show "b = appendBytes [] c \<Longrightarrow> decodeOne (b @ t) depth = Inr (GBytes c, t)"
    "b = appendStringBytes [] c \<Longrightarrow> decodeOne (b @ t) depth = Inr (GString (string_of c), t)"
    using * [of 2] * [of 3] assms(3) by (auto simp: appendBytes_def appendStringBytes_def)
qed

lemma decode_float:
  assumes "finite_bits f" "depth \<le> MaxDepth" "encodeFloat64Into [] f = Inr b"
  shows "decodeOne (b @ t) depth = Inr (GFloat64 f, t)"
proof -
  have b: "b = 0xFB # be_put 8 (unat f)" using assms(1,3) by (simp add: encodeFloat64Into_def finite_bits_def)
  have "unat f < 256 ^ 8" using unsigned_less [of f] by simp
  then have "be_get (be_put 8 (unat f)) = unat f" by (rule be_get_put)
  moreover have "unat (drop_bit 5 (0xFB :: 8 word)) = 7" "unat ((0xFB :: 8 word) AND 0x1F) = 27" by code_simp+
  ultimately show ?thesis
    using assms(2) b by (subst decodeOne.simps) (simp add: Let_def decode_simple_def decode_float_at_def slice_def slice_from_le)
qed

definition returns :: "nat \<Rightarrow> goany \<Rightarrow> bytes \<Rightarrow> bool" where
  "returns depth v b \<longleftrightarrow> appendEncodedValue [] v = Inr b \<and> b \<noteq> [] \<and>
     (\<forall>t. length (b @ t) < 2 ^ 63 \<longrightarrow> decodeOne (b @ t) depth = Inr (decoded v, t))"

lemma returns_whole: "returns depth v b \<Longrightarrow> length b < 2 ^ 63 \<Longrightarrow> decodeOne b depth = Inr (decoded v, [])"
  unfolding returns_def by (metis append_Nil2)

lemma returns_items:
  assumes "\<forall>v \<in> set vs. \<exists>b. returns depth v b"
  shows "\<exists>b. append_items [] vs = Inr b \<and> length vs \<le> length b \<and>
    (\<forall>h t. length (h @ b @ t) < 2 ^ 63 \<longrightarrow> decode_items (h @ b @ t) (length h) (length vs) depth = Inr (map decoded vs, length (h @ b)))"
  using assms
proof (induction vs)
  case (Cons v vs)
  then obtain b c where b: "returns depth v b" and c: "append_items [] vs = Inr c" "length vs \<le> length c"
    "\<And>h t. length (h @ c @ t) < 2 ^ 63 \<Longrightarrow> decode_items (h @ c @ t) (length h) (length vs) depth = Inr (map decoded vs, length (h @ c))"
    by auto
  have "append_items [] (v # vs) = Inr (b @ c)"
    using b c(1) append_from_Nil(2) [of b vs] by (simp add: returns_def)
  moreover have "length (v # vs) \<le> length (b @ c)" using b c(2) by (cases b) (simp_all add: returns_def)
  moreover have "decode_items (h @ (b @ c) @ t) (length h) (length (v # vs)) depth = Inr (map decoded (v # vs), length (h @ b @ c))"
    if "length (h @ (b @ c) @ t) < 2 ^ 63" for h t
  proof -
    have "decodeOne (b @ c @ t) depth = Inr (decoded v, c @ t)" using b that by (simp add: returns_def)
    moreover have "decode_items ((h @ b) @ c @ t) (length (h @ b)) (length vs) depth = Inr (map decoded vs, length ((h @ b) @ c))"
      using that by (intro c(3)) simp
    ultimately show ?thesis by (simp add: slice_from_le)
  qed
  ultimately show ?case by blast
qed simp

lemma AList_update_new: "k \<notin> fst ` set m \<Longrightarrow> AList.update k v m = m @ [(k, v)]"
  by (induction m) auto

lemma returns_pairs:
  assumes "\<forall>kv \<in> set kvs. length (fst kv) < 2 ^ 63 \<and> (\<exists>b. returns depth (snd kv) b)" "depth \<le> MaxDepth" "distinct (map fst kvs)"
  shows "\<exists>b. append_pairs [] kvs = Inr b \<and> length kvs \<le> length b \<and>
    (\<forall>h t m. length (h @ b @ t) < 2 ^ 63 \<longrightarrow> fst ` set m \<inter> fst ` set kvs = {} \<longrightarrow>
       decode_pairs (h @ b @ t) (length h) (length kvs) depth m = Inr (m @ map (map_prod id decoded) kvs, length (h @ b)))"
  using assms(1,3)
proof (induction kvs)
  case (Cons kv kvs)
  obtain k v where kv: "kv = (k, v)" by fastforce
  from Cons.prems(1) kv obtain b where b: "returns depth v b" by auto
  have prems: "\<forall>kv \<in> set kvs. length (fst kv) < 2 ^ 63 \<and> (\<exists>b. returns depth (snd kv) b)" "distinct (map fst kvs)" using Cons.prems by auto
  from Cons.IH [OF prems] obtain c where c: "append_pairs [] kvs = Inr c" "length kvs \<le> length c"
    "\<And>h t m. length (h @ c @ t) < 2 ^ 63 \<Longrightarrow> fst ` set m \<inter> fst ` set kvs = {} \<Longrightarrow>
       decode_pairs (h @ c @ t) (length h) (length kvs) depth m = Inr (m @ map (map_prod id decoded) kvs, length (h @ c))"
    by blast
  have k: "length (bytes_of k) < 2 ^ 63" using Cons.prems(1) kv by simp
  define a where "a = appendStringBytes [] (bytes_of k)"
  have "append_pairs [] (kv # kvs) = Inr (a @ b @ c)"
    using b c(1) append_from_Nil(1) [of a v] append_from_Nil(3) [of "a @ b" kvs] by (simp add: returns_def kv a_def)
  moreover have "length (kv # kvs) \<le> length (a @ b @ c)" using b c(2) by (cases b) (simp_all add: returns_def)
  moreover have "decode_pairs (h @ (a @ b @ c) @ t) (length h) (length (kv # kvs)) depth m =
      Inr (m @ map (map_prod id decoded) (kv # kvs), length (h @ a @ b @ c))"
    if len: "length (h @ (a @ b @ c) @ t) < 2 ^ 63" and new: "fst ` set m \<inter> fst ` set (kv # kvs) = {}" for h t m
  proof -
    have "decodeOne (a @ b @ c @ t) depth = Inr (GString k, b @ c @ t)"
      using decode_text(2) [OF k assms(2), of a "b @ c @ t"] len by (simp add: a_def)
    moreover have "decodeOne (b @ c @ t) depth = Inr (decoded v, c @ t)" using b len by (simp add: returns_def)
    moreover have "decode_pairs ((h @ a @ b) @ c @ t) (length (h @ a @ b)) (length kvs) depth (AList.update k (decoded v) m) =
        Inr (AList.update k (decoded v) m @ map (map_prod id decoded) kvs, length ((h @ a @ b) @ c))"
      by (rule c(3)) (use len new kv Cons.prems(2) in \<open>auto simp: AList_update_new\<close>)
    moreover have "AList.update k (decoded v) m = m @ [(k, decoded v)]" using new kv by (intro AList_update_new) auto
    ultimately show ?thesis by (simp add: kv slice_from_le)
  qed
  ultimately show ?case by blast
qed simp

lemma returns_slice:
  assumes "\<forall>v \<in> set vs. \<exists>b. returns (Suc depth) v b" "length vs < 2 ^ 63" "depth \<le> MaxDepth"
    "appendEncodedValue [] v = append_items (appendMajor [] 4 (length vs)) vs" "decoded v = GSlice (map decoded vs)"
  shows "\<exists>b. returns depth v b"
proof -
  let ?h = "appendMajor [] (word_of_nat 4) (length vs)"
  from returns_items [OF assms(1)] obtain b where b: "append_items [] vs = Inr b" "length vs \<le> length b"
    "\<And>h t. length (h @ b @ t) < 2 ^ 63 \<Longrightarrow> decode_items (h @ b @ t) (length h) (length vs) (Suc depth) = Inr (map decoded vs, length (h @ b))"
    by blast
  have "appendEncodedValue [] v = Inr (?h @ b)" using append_from_Nil(2) [of ?h vs] b(1) assms(4) by simp
  moreover have "?h \<noteq> []" by (simp add: appendMajor_def)
  moreover have "decodeOne ((?h @ b) @ t) depth = Inr (decoded v, t)" if "length ((?h @ b) @ t) < 2 ^ 63" for t
    using decodeOne_header [OF _ _ assms(3) refl, of 4 "length vs" "b @ t"] b(2) b(3) [of ?h t] that assms(2,5) room_tail [of "length ?h" "?h @ b @ t"]
    by (simp add: slice_from_le)
  ultimately show ?thesis unfolding returns_def by auto
qed

lemma returns_map:
  assumes "\<forall>kv \<in> set kvs. length (fst kv) < 2 ^ 63 \<and> (\<exists>b. returns (Suc depth) (snd kv) b)" "length kvs < 2 ^ 63" "distinct (map fst kvs)"
    "kvs \<noteq> [] \<longrightarrow> depth < MaxDepth" "depth \<le> MaxDepth" "appendEncodedValue [] v = append_pairs (appendMajor [] 5 (length kvs)) kvs"
    "decoded v = GMap (map (map_prod id decoded) kvs)"
  shows "\<exists>b. returns depth v b"
proof -
  let ?h = "appendMajor [] (word_of_nat 5) (length kvs)"
  have "\<exists>b. append_pairs [] kvs = Inr b \<and> length kvs \<le> length b \<and>
    (\<forall>h t. length (h @ b @ t) < 2 ^ 63 \<longrightarrow>
       decode_pairs (h @ b @ t) (length h) (length kvs) (Suc depth) [] = Inr (map (map_prod id decoded) kvs, length (h @ b)))"
  proof (cases "kvs = []")
    case False
    with assms(4) have "Suc depth \<le> MaxDepth" by simp
    from returns_pairs [OF assms(1) this assms(3)] show ?thesis by fastforce
  qed simp
  then obtain b where b: "append_pairs [] kvs = Inr b" "length kvs \<le> length b"
    "\<And>h t. length (h @ b @ t) < 2 ^ 63 \<Longrightarrow>
       decode_pairs (h @ b @ t) (length h) (length kvs) (Suc depth) [] = Inr (map (map_prod id decoded) kvs, length (h @ b))" by blast
  have "appendEncodedValue [] v = Inr (?h @ b)" using append_from_Nil(3) [of ?h kvs] b(1) assms(6) by simp
  moreover have "?h \<noteq> []" by (simp add: appendMajor_def)
  moreover have "decodeOne ((?h @ b) @ t) depth = Inr (decoded v, t)" if "length ((?h @ b) @ t) < 2 ^ 63" for t
    using decodeOne_header [OF _ _ assms(5) refl, of 5 "length kvs" "b @ t"] b(2) b(3) [of ?h t] that assms(2,7) room_tail [of "length ?h" "?h @ b @ t"]
    by (simp add: slice_from_le)
  ultimately show ?thesis unfolding returns_def by auto
qed

lemma sort_key_map: "sort_key f (map g xs) = map g (sort_key (\<lambda>x. f (g x)) xs)"
proof -
  have "insort_key f (g x) (map g ys) = map g (insort_key (\<lambda>x. f (g x)) x ys)" for x ys by (induction ys) auto
  then show ?thesis by (induction xs) auto
qed

lemma decoded_map: "decoded (GMap m) = GMap (map (map_prod id decoded) (sort_key fst m))"
  by (simp add: sort_key_map)

lemma decoded_string_map: "decoded (GStringMap sm) = GMap (map (map_prod id decoded) (sort_key fst (map (map_prod id GString) sm)))"
proof -
  have "map_prod id decoded kv = kv" if "kv \<in> set (sort_key fst (map (map_prod id GString) sm))" for kv using that by auto
  then have "map (map_prod id decoded) (sort_key fst (map (map_prod id GString) sm)) = sort_key fst (map (map_prod id GString) sm)"
    by (rule map_idI)
  then show ?thesis by simp
qed

lemma appendMajor_ne [simp]: "appendMajor dst mt len \<noteq> []"
  by (simp add: appendMajor_def)

lemma decode_constant:
  "depth \<le> MaxDepth \<Longrightarrow> decodeOne (0xF6 # t) depth = Inr (GNil, t)"
  "depth \<le> MaxDepth \<Longrightarrow> decodeOne (0xF5 # t) depth = Inr (GBool True, t)"
  "depth \<le> MaxDepth \<Longrightarrow> decodeOne (0xF4 # t) depth = Inr (GBool False, t)"
proof -
  have "unat (drop_bit 5 (0xF6 :: 8 word)) = 7" "unat ((0xF6 :: 8 word) AND 0x1F) = 22"
    "unat (drop_bit 5 (0xF5 :: 8 word)) = 7" "unat ((0xF5 :: 8 word) AND 0x1F) = 21"
    "unat (drop_bit 5 (0xF4 :: 8 word)) = 7" "unat ((0xF4 :: 8 word) AND 0x1F) = 20" by code_simp+
  then show "depth \<le> MaxDepth \<Longrightarrow> decodeOne (0xF6 # t) depth = Inr (GNil, t)"
    "depth \<le> MaxDepth \<Longrightarrow> decodeOne (0xF5 # t) depth = Inr (GBool True, t)"
    "depth \<le> MaxDepth \<Longrightarrow> decodeOne (0xF4 # t) depth = Inr (GBool False, t)"
    by (subst decodeOne.simps; simp add: Let_def decode_simple_def slice_from_le)+
qed

lemma returns_string: "length s < 2 ^ 63 \<Longrightarrow> depth \<le> MaxDepth \<Longrightarrow> \<exists>b. returns depth (GString s) b"
  using decode_text(2) [of "bytes_of s" depth] by (auto simp: returns_def appendStringBytes_def)

lemma returns_float:
  assumes "finite_bits f" "depth \<le> MaxDepth" "appendEncodedValue [] v = encodeFloat64Into [] f" "decoded v = GFloat64 f"
  shows "\<exists>b. returns depth v b"
proof -
  obtain b where b: "encodeFloat64Into [] f = Inr b" "b \<noteq> []" using assms(1) by (simp add: encodeFloat64Into_def finite_bits_def)
  with assms decode_float [OF assms(1,2) b(1)] show ?thesis by (auto simp: returns_def)
qed

lemma returns_representable: "representable v \<Longrightarrow> depth + height v \<le> MaxDepth \<Longrightarrow> \<exists>b. returns depth v b"
proof (induction v arbitrary: depth)
  case (GInt k i)
  then show ?case using decode_number [of i depth] by (auto simp: returns_def encodeInt64Into_def encodeUint64Into_def)
next
  case (GUint k n)
  then have "encodeInt64Into [] (int n) = encodeUint64Into [] n" "int n \<in> {- (2 ^ 63)..<2 ^ 63}" "depth \<le> MaxDepth"
    by (auto simp: encodeInt64Into_def encodeUint64Into_def)
  then show ?case using decode_number [of "int n" depth] by (auto simp: returns_def encodeInt64Into_def encodeUint64Into_def)
next
  case (GFloat32 f)
  then show ?case by (intro returns_float [of "widen32 f"]) simp_all
next
  case (GFloat64 g)
  then show ?case by (intro returns_float [of g]) simp_all
next
  case (GBytes c)
  then show ?case using decode_text(1) [of c depth] by (auto simp: returns_def appendBytes_def)
next
  case (GStrings ss)
  then have "\<forall>v \<in> set (map GString ss). \<exists>b. returns (Suc depth) v b"
    using returns_string [of _ "Suc depth"] by (cases ss) (auto simp: list_all_iff)
  moreover have "map decoded (map GString ss) = map GString ss" by simp
  ultimately show ?case using GStrings by (intro returns_slice [of "map GString ss"]) auto
next
  case (GSlice vs)
  have "\<exists>b. returns (Suc depth) v b" if "v \<in> set vs" for v
    using GSlice that height_items [OF that] by (intro GSlice.IH) (auto simp: list_all_iff)
  with GSlice.prems show ?case by (intro returns_slice [of vs]) auto
next
  case (GMap m)
  have "length (fst kv) < 2 ^ 63 \<and> (\<exists>b. returns (Suc depth) (snd kv) b)" if "kv \<in> set m" for kv
  proof -
    have "\<exists>b. returns (Suc depth) (snd kv) b"
      using GMap.prems that height_values [OF that] by (intro GMap.IH [OF that]) (auto simp: list_all_iff snds.simps prod_eq_iff)
    then show ?thesis using GMap.prems that by (auto simp: list_all_iff)
  qed
  moreover have "m \<noteq> [] \<longrightarrow> depth < MaxDepth" using GMap.prems(2) by (cases m) auto
  ultimately show ?case
    using GMap.prems distinct_sort_key [of m fst] unfolding decoded_map
    by (intro returns_map [of "sort_key fst m"]) (auto simp: decoded_map simp del: decoded.simps)
next
  case (GStringMap sm)
  let ?m = "sort_key fst (map (map_prod id GString) sm)"
  have "distinct (map fst ?m)" using GStringMap.prems(1) by (intro distinct_sort_key) (simp add: comp_def)
  moreover have "length (fst kv) < 2 ^ 63 \<and> (\<exists>b. returns (Suc depth) (snd kv) b)" if "kv \<in> set ?m" for kv
  proof -
    from that obtain s where s: "snd kv = GString s" "(fst kv, s) \<in> set sm" by auto
    with GStringMap.prems have "length s < 2 ^ 63" "length (fst kv) < 2 ^ 63" "Suc depth \<le> MaxDepth"
      by (auto simp: list_all_iff split: if_splits)
    then show ?thesis using returns_string s(1) by auto
  qed
  ultimately show ?case
    using GStringMap.prems by (intro returns_map [of ?m]) (auto simp: decoded_string_map simp del: decoded.simps split: if_splits)
next
  case (GString s)
  then show ?case using returns_string by simp
next
  case GNil
  then show ?case by (intro exI [of _ "[0xF6]"]) (simp add: returns_def decode_constant)
next
  case (GBool x)
  then show ?case by (intro exI [of _ "[if x then 0xF5 else 0xF4]"]) (simp add: returns_def decode_constant)
qed simp

text \<open>
  C21: Whatever the encoder is given of the values it supports, nested at most \<open>MaxDepth\<close> levels deep, with integers in the range of
  \<open>int64\<close> and finite numbers, it encodes, and the decoder turns the bytes back into the value, with integers widened to
  \<open>int64\<close>, numbers to \<open>float64\<close> and the entries of maps by key.
\<close>

theorem cbor_roundtrip:
  assumes "representable v" "height v \<le> MaxDepth"
  shows "\<exists>b. cbor_Encode NewValue v = Inr b \<and> (length b < 2 ^ 63 \<longrightarrow> cbor_Decode NewValue b = Inr (decoded v))"
proof -
  from returns_representable [OF assms(1), of 0] assms(2) obtain b where "returns 0 v b" by auto
  then have "encodeAny v = Inr b" "length b < 2 ^ 63 \<longrightarrow> decodeAny b = Inr (decoded v)"
    by (auto simp: returns_def encodeAny_def decodeAny_def dest: spec [of _ "[]"])
  then show ?thesis by (simp add: cbor_Encode_def cbor_Decode_def NewValue_def NewRaw_def)
qed

theorem cbor_roundtrip_witness:
  "\<exists>b. cbor_Encode NewValue (GMap [(''b'', GSlice [GInt Int8 (- 5), GNil]), (''a'', GUint Int16 300)]) = Inr b \<and>
     cbor_Decode NewValue b = Inr (GMap [(''a'', GInt Int64 300), (''b'', GSlice [GInt Int64 (- 5), GNil])])"
proof -
  let ?v = "GMap [(''b'', GSlice [GInt Int8 (- 5), GNil]), (''a'', GUint Int16 300)]"
  have "representable ?v" "height ?v \<le> MaxDepth" by (simp_all add: MaxDepth_def)
  then obtain b where b: "cbor_Encode NewValue ?v = Inr b" "length b < 2 ^ 63 \<longrightarrow> cbor_Decode NewValue b = Inr (decoded ?v)"
    using cbor_roundtrip by blast
  have "sort_key fst [(''b'', GSlice [GInt Int8 (- 5), GNil]), (''a'', GUint Int16 300)] = [(''a'', GUint Int16 300), (''b'', GSlice [GInt Int8 (- 5), GNil])]"
    by code_simp
  then have "\<exists>b. cbor_Encode NewValue ?v = Inr b \<and> length b = 11"
    by (simp add: cbor_Encode_def NewValue_def NewRaw_def encodeAny_def appendMajor_def appendStringBytes_def encodeUint64Into_def
        encodeInt64Into_def)
  with b have "cbor_Decode NewValue b = Inr (decoded ?v)" by auto
  moreover have "decoded ?v = GMap [(''a'', GInt Int64 300), (''b'', GSlice [GInt Int64 (- 5), GNil])]" by code_simp
  ultimately show ?thesis using b(1) by auto
qed

section \<open>Every input is answered\<close>

text \<open>The bytes a decoded value accounts for.\<close>

primrec extent :: "goany \<Rightarrow> nat" where
  "extent GNil = 1"
| "extent (GBool b) = 1"
| "extent (GInt k i) = 1"
| "extent (GUint k n) = 1"
| "extent (GFloat32 f) = 1"
| "extent (GFloat64 g) = 1"
| "extent (GString s) = Suc (length s)"
| "extent (GBytes b) = Suc (length b)"
| "extent (GStrings ss) = Suc (sum_list (map (\<lambda>s. Suc (length s)) ss))"
| "extent (GSlice vs) = Suc (sum_list (map extent vs))"
| "extent (GMap m) = Suc (sum_list (map (\<lambda>kn. Suc (length (fst kn)) + snd kn) (map (map_prod id extent) m)))"
| "extent (GStringMap sm) = Suc (sum_list (map (\<lambda>kv. 2 + length (fst kv) + length (snd kv)) sm))"
| "extent (GOther t) = 1"

definition pairs_extent :: "(string \<times> goany) list \<Rightarrow> nat" where
  "pairs_extent m = sum_list (map (\<lambda>kv. Suc (length (fst kv)) + extent (snd kv)) m)"

lemma extent_map: "extent (GMap m) = Suc (pairs_extent m)"
  by (simp add: pairs_extent_def comp_def)

lemma extent_update: "pairs_extent (AList.update k v m) \<le> Suc (length k) + extent v + pairs_extent m"
  by (induction m) (auto simp: pairs_extent_def)

lemma height_slice: "height (GSlice vs) \<le> n \<longleftrightarrow> (\<forall>v \<in> set vs. height v < n)"
  by (induction vs) auto

lemma height_map: "height (GMap m) \<le> n \<longleftrightarrow> (\<forall>kv \<in> set m. height (snd kv) < n)"
  by (induction m) auto

definition answers :: "bytes \<Rightarrow> nat \<Rightarrow> (goany \<times> bytes) result \<Rightarrow> bool" where
  "answers data depth r \<longleftrightarrow> r \<noteq> Inl bounds_panic \<and>
     (\<forall>v rest. r = Inr (v, rest) \<longrightarrow> extent v + length rest \<le> length data \<and> depth + height v \<le> MaxDepth)"

lemma answers_Inl: "e \<noteq> bounds_panic \<Longrightarrow> answers data depth (Inl e)"
  by (simp add: answers_def)

lemma answers_from:
  "c \<le> length data \<Longrightarrow> extent v \<le> c \<Longrightarrow> depth + height v \<le> MaxDepth \<Longrightarrow> answers data depth (map_sum id (Pair v) (slice_from data c))"
  by (auto simp: answers_def slice_from_le)

lemma readLength_cases:
  assumes "readLength data ai = r"
  shows "r \<noteq> Inl bounds_panic" "r = Inr (len, moved) \<Longrightarrow> moved \<le> length data"
  using assms by (auto simp: readLength_def truncated_length_def bounds_panic_def Suc_le_eq split: if_splits)

lemma answers_float_at: "depth \<le> MaxDepth \<Longrightarrow> hd msg = CHR ''c'' \<Longrightarrow> answers data depth (decode_float_at data n msg f)"
  unfolding decode_float_at_def slice_def by (auto intro!: answers_from answers_Inl simp: bounds_panic_def)

lemma answers_simple:
  assumes "data \<noteq> []" "depth \<le> MaxDepth"
  shows "answers data depth (decode_simple data addl)"
proof -
  have one: "1 \<le> length data" using assms(1) by (cases data) auto
  have "answers data depth (map_sum id (Pair v) (slice_from data 1))" if "v = GNil \<or> (\<exists>x. v = GBool x)" for v
    using that one assms(2) by (intro answers_from) auto
  moreover have "answers data depth (Inl (ErrorsNew ''cbor: unsupported simple value''))" by (rule answers_Inl) (simp add: bounds_panic_def)
  ultimately show ?thesis unfolding decode_simple_def using answers_float_at [OF assms(2)] by auto
qed

lemma answers_scalar:
  assumes "0 < p" "p \<le> length data" "length data < 2 ^ 63" "depth \<le> MaxDepth"
  shows "answers data depth (decode_scalar data major len p)"
  using assms room_tail [OF assms(2,3)]
  by (auto simp: decode_scalar_def slice_def intro!: answers_from answers_Inl) (auto simp: bounds_panic_def truncated_value_def)

definition items_answer :: "bytes \<Rightarrow> nat \<Rightarrow> nat \<Rightarrow> (goany list \<times> nat) result \<Rightarrow> bool" where
  "items_answer data cursor depth r \<longleftrightarrow> r \<noteq> Inl bounds_panic \<and>
     (\<forall>vs c. r = Inr (vs, c) \<longrightarrow> c \<le> length data \<and> sum_list (map extent vs) + cursor \<le> c \<and> (\<forall>v \<in> set vs. depth + height v \<le> MaxDepth))"

definition pairs_answer :: "bytes \<Rightarrow> nat \<Rightarrow> nat \<Rightarrow> (string \<times> goany) list \<Rightarrow> ((string \<times> goany) list \<times> nat) result \<Rightarrow> bool" where
  "pairs_answer data cursor depth m r \<longleftrightarrow> r \<noteq> Inl bounds_panic \<and>
     (\<forall>m' c. r = Inr (m', c) \<longrightarrow> c \<le> length data \<and> pairs_extent m' + cursor \<le> pairs_extent m + c \<and>
        (\<forall>kv \<in> set m' - set m. depth + height (snd kv) \<le> MaxDepth))"

lemma answers_slice:
  assumes "items_answer data p (Suc depth) r" "0 < p" "depth \<le> MaxDepth"
  shows "answers data depth (case r of Inl e \<Rightarrow> Inl e | Inr (items, cursor) \<Rightarrow> map_sum id (Pair (GSlice items)) (slice_from data cursor))"
proof (cases r)
  case (Inr x)
  obtain vs c where x: "x = (vs, c)" by fastforce
  with Inr assms(1) have vs: "c \<le> length data" "sum_list (map extent vs) + p \<le> c" "\<forall>v \<in> set vs. Suc depth + height v \<le> MaxDepth"
    by (simp_all add: items_answer_def)
  then have "height (GSlice vs) \<le> MaxDepth - depth" by (fastforce simp: height_slice simp del: height.simps)
  with vs assms(2,3) Inr x show ?thesis by (auto intro!: answers_from simp del: height.simps)
qed (use assms in \<open>simp add: items_answer_def answers_def\<close>)

lemma answers_map:
  assumes "pairs_answer data p (Suc depth) [] r" "0 < p" "depth \<le> MaxDepth"
  shows "answers data depth (case r of Inl e \<Rightarrow> Inl e | Inr (m, cursor) \<Rightarrow> map_sum id (Pair (GMap m)) (slice_from data cursor))"
proof (cases r)
  case (Inr x)
  obtain m c where x: "x = (m, c)" by fastforce
  with Inr assms(1) have m: "c \<le> length data" "pairs_extent m + p \<le> c" "\<forall>kv \<in> set m. Suc depth + height (snd kv) \<le> MaxDepth"
    by (simp_all add: pairs_answer_def pairs_extent_def)
  then have "height (GMap m) \<le> MaxDepth - depth" by (fastforce simp: height_map simp del: height.simps)
  with m assms(2,3) Inr x show ?thesis by (auto intro!: answers_from simp: extent_map simp del: height.simps extent.simps)
qed (use assms in \<open>simp add: pairs_answer_def answers_def\<close>)

definition level_answers :: "nat \<Rightarrow> bool" where
  "level_answers depth \<longleftrightarrow> (\<forall>data. length data < 2 ^ 63 \<longrightarrow> answers data depth (decodeOne data depth))"

lemma items_answers:
  assumes "level_answers depth" "length data < 2 ^ 63"
  shows "cursor \<le> length data \<Longrightarrow> items_answer data cursor depth (decode_items data cursor n depth)"
proof (induction n arbitrary: cursor)
  case (Suc n)
  let ?d = "drop cursor data"
  have d: "answers ?d depth (decodeOne ?d depth)" using assms by (simp add: level_answers_def)
  show ?case
  proof (cases "decodeOne ?d depth")
    case (Inr x)
    obtain v rest where x: "x = (v, rest)" by fastforce
    with Inr d have v: "extent v + length rest \<le> length ?d" "depth + height v \<le> MaxDepth" by (simp_all add: answers_def)
    let ?c = "length data - length rest"
    have "items_answer data ?c depth (decode_items data ?c n depth)" by (rule Suc.IH) simp
    with v Suc.prems Inr x show ?thesis
      by (cases "decode_items data ?c n depth") (auto simp: slice_from_le items_answer_def)
  qed (use d Suc.prems in \<open>simp add: slice_from_le items_answer_def answers_def\<close>)
qed (simp add: items_answer_def)

lemma pairs_answers:
  assumes "level_answers depth" "length data < 2 ^ 63"
  shows "cursor \<le> length data \<Longrightarrow> pairs_answer data cursor depth m (decode_pairs data cursor n depth m)"
proof (induction n arbitrary: cursor m)
  case (Suc n)
  let ?d = "drop cursor data"
  have d: "answers ?d depth (decodeOne ?d depth)" using assms by (simp add: level_answers_def)
  have key: "ErrorsNew ''cbor: map key must be a string'' \<noteq> bounds_panic" by (simp add: bounds_panic_def)
  show ?case
  proof (cases "decodeOne ?d depth")
    case (Inr x)
    obtain v rest where x: "x = (v, rest)" by fastforce
    show ?thesis
    proof (cases "\<exists>k. v = GString k")
      case True
      then obtain k where k: "v = GString k" by blast
      with Inr x d have rest: "Suc (length k) + length rest \<le> length ?d" by (simp add: answers_def)
      then have r: "answers rest depth (decodeOne rest depth)" using assms by (simp add: level_answers_def)
      show ?thesis
      proof (cases "decodeOne rest depth")
        case (Inr y)
        obtain val rest2 where y: "y = (val, rest2)" by fastforce
        with Inr r have val: "extent val + length rest2 \<le> length rest" "depth + height val \<le> MaxDepth" by (simp_all add: answers_def)
        let ?c = "length data - length rest2" and ?m = "AList.update k val m"
        have ih: "pairs_answer data ?c depth ?m (decode_pairs data ?c n depth ?m)" by (rule Suc.IH) simp
        have "depth + height (snd kv) \<le> MaxDepth" if "decode_pairs data ?c n depth ?m = Inr (m', c)" "kv \<in> set m' - set m" for m' c kv
          using ih that val(2) set_update_subset [of k val m] by (cases "kv \<in> set ?m") (auto simp: pairs_answer_def)
        with ih val rest Suc.prems extent_update [of k val m] \<open>decodeOne ?d depth = Inr x\<close> x k Inr y show ?thesis
          by (simp add: slice_from_le pairs_answer_def) fastforce
      qed (use r Suc.prems Inr x k in \<open>simp add: slice_from_le pairs_answer_def answers_def\<close>)
    next
      case False
      with Inr x Suc.prems key show ?thesis by (cases v) (simp_all add: slice_from_le pairs_answer_def)
    qed
  qed (use d Suc.prems in \<open>simp add: slice_from_le pairs_answer_def answers_def\<close>)
qed (simp add: pairs_answer_def)

lemma decode_answers: "level_answers depth"
proof (induction "MaxDepth + 1 - depth" arbitrary: depth rule: less_induct)
  case less
  have "answers data depth (decodeOne data depth)" if len: "length data < 2 ^ 63" for data
  proof (cases "depth > MaxDepth \<or> data = []")
    case True
    then show ?thesis by (subst decodeOne.simps) (auto intro!: answers_Inl simp: ErrTooDeep_def bounds_panic_def)
  next
    case False
    then obtain b t where d: "data = b # t" "depth \<le> MaxDepth" by (cases data) auto
    have below: "level_answers (Suc depth)" using d(2) by (intro less) simp
    obtain r where r: "readLength t (unat (b AND 0x1F)) = r" by simp
    have errs: "truncated_value \<noteq> bounds_panic" "ErrorsNew ''cbor: unsupported major type'' \<noteq> bounds_panic"
      by (simp_all add: truncated_value_def bounds_panic_def)
    show ?thesis
    proof (cases r)
      case (Inl e)
      then show ?thesis
        using d r readLength_cases(1) [OF r] answers_simple [of data depth addl for addl]
        by (subst decodeOne.simps) (auto simp: Let_def intro!: answers_Inl)
    next
      case (Inr x)
      then obtain n moved where lm: "r = Inr (n, moved)" by (cases x) auto
      have p: "0 < Suc moved" "Suc moved \<le> length data" using readLength_cases(2) [OF r lm] d(1) by simp_all
      show ?thesis
        using answers_slice [OF items_answers [OF below len p(2), of n] p(1) d(2)] answers_map [OF pairs_answers [OF below len p(2), of "[]" n] p(1) d(2)]
          answers_scalar [OF p len d(2), of _ n] answers_simple [of data depth] d r lm errs
        by (subst decodeOne.simps) (auto simp: Let_def intro!: answers_Inl)
    qed
  qed
  then show ?case by (simp add: level_answers_def)
qed

text \<open>
  C22: The decoder answers every byte string: it never slices out of range and never recurses deeper than the bound, and a value it
  returns accounts for at most the bytes of the input, at one byte per item and per byte of text, and nests at most \<open>MaxDepth\<close> levels deep.
\<close>

theorem cbor_decode_bounded:
  assumes "length data < 2 ^ 63"
  shows "cbor_Decode NewValue data \<noteq> Inl bounds_panic \<and>
    (\<forall>v. cbor_Decode NewValue data = Inr v \<longrightarrow> extent v \<le> length data \<and> height v \<le> MaxDepth)"
proof -
  have "answers data 0 (decodeOne data 0)" using decode_answers [of 0] assms by (simp add: level_answers_def)
  then show ?thesis
    by (cases "decodeOne data 0") (auto simp: cbor_Decode_def NewValue_def NewRaw_def decodeAny_def answers_def bounds_panic_def split: if_splits)
qed

theorem cbor_decode_bounded_witness:
  "cbor_Decode NewValue [0x9B, 0xFF, 0xFF, 0xFF, 0xFF, 0xFF, 0xFF, 0xFF, 0xFF, 0x00] \<noteq> Inl bounds_panic"
  using cbor_decode_bounded [of "[0x9B, 0xFF, 0xFF, 0xFF, 0xFF, 0xFF, 0xFF, 0xFF, 0xFF, 0x00]"] by simp

section \<open>One value, one encoding\<close>

lemma items_decoded:
  "\<forall>v \<in> set vs. \<forall>dst. appendEncodedValue dst (decoded v) = appendEncodedValue dst v \<Longrightarrow>
    append_items dst (map decoded vs) = append_items dst vs"
  by (induction vs arbitrary: dst) (auto split: sum.splits)

lemma pairs_decoded:
  "\<forall>kv \<in> set kvs. \<forall>dst. appendEncodedValue dst (decoded (snd kv)) = appendEncodedValue dst (snd kv) \<Longrightarrow>
    append_pairs dst (map (map_prod id decoded) kvs) = append_pairs dst kvs"
  by (induction kvs arbitrary: dst) (auto split: sum.splits)

lemma encode_decoded: "appendEncodedValue dst (decoded v) = appendEncodedValue dst v"
proof (induction v arbitrary: dst)
  case (GSlice vs)
  then show ?case by (simp add: items_decoded)
next
  case (GMap m)
  have "\<forall>kv \<in> set (sort_key fst m). \<forall>dst. appendEncodedValue dst (decoded (snd kv)) = appendEncodedValue dst (snd kv)"
    using GMap.IH by (auto simp: snds.simps)
  then show ?case by (simp add: sort_key_map sort_key_id_if_sorted pairs_decoded)
next
  case (GStringMap sm)
  then show ?case by (simp add: sort_key_id_if_sorted)
qed (simp_all add: encodeInt64Into_def encodeUint64Into_def)

text \<open>
  C23: Equal content has equal bytes and different content different bytes, which content addressing rests on: two values have the same
  encoding exactly if they decode to the same value, in particular if they differ only in the order in which their maps are listed.
\<close>

theorem cbor_canonical:
  assumes "representable v" "height v \<le> MaxDepth" "representable v'" "height v' \<le> MaxDepth" "cbor_Encode NewValue v = Inr b" "length b < 2 ^ 63"
  shows "cbor_Encode NewValue v' = Inr b \<longleftrightarrow> decoded v' = decoded v"
proof
  assume "decoded v' = decoded v"
  then show "cbor_Encode NewValue v' = Inr b"
    using assms(5) encode_decoded [of "[]" v] encode_decoded [of "[]" v'] by (simp add: cbor_Encode_def NewValue_def NewRaw_def encodeAny_def)
next
  assume "cbor_Encode NewValue v' = Inr b"
  moreover obtain c c' where "returns 0 v c" "returns 0 v' c'" using returns_representable [of _ 0] assms(1-4) by fastforce
  ultimately have "returns 0 v b" "returns 0 v' b"
    using assms(5) by (auto simp: returns_def cbor_Encode_def NewValue_def NewRaw_def encodeAny_def)
  from this [THEN returns_whole, OF assms(6)] show "decoded v' = decoded v" by simp
qed

theorem cbor_canonical_witness:
  "\<exists>b. cbor_Encode NewValue (GMap [(''a'', GNil), (''b'', GUint Int8 1)]) = Inr b \<and>
     cbor_Encode NewValue (GMap [(''b'', GInt Int64 1), (''a'', GNil)]) = Inr b \<and> cbor_Encode NewValue (GMap [(''a'', GNil)]) \<noteq> Inr b"
proof -
  let ?v = "GMap [(''a'', GNil), (''b'', GUint Int8 1)]" and ?w = "GMap [(''b'', GInt Int64 1), (''a'', GNil)]" and ?x = "GMap [(''a'', GNil)]"
  have v: "representable ?v" "height ?v \<le> MaxDepth" "representable ?w" "height ?w \<le> MaxDepth" "representable ?x" "height ?x \<le> MaxDepth"
    by (simp_all add: MaxDepth_def)
  have d: "decoded ?w = decoded ?v" "decoded ?x \<noteq> decoded ?v" by code_simp+
  have "sort_key fst [(''a'', GNil), (''b'', GUint Int8 1)] = [(''a'', GNil), (''b'', GUint Int8 1)]" by code_simp
  then obtain b where b: "cbor_Encode NewValue ?v = Inr b" "length b < 2 ^ 63"
    by (simp add: cbor_Encode_def NewValue_def NewRaw_def encodeAny_def appendMajor_def appendStringBytes_def encodeUint64Into_def)
  show ?thesis
    using cbor_canonical [OF v(1,2,3,4) b] cbor_canonical [OF v(1,2,5,6) b] b(1) d by blast
qed

section \<open>What is written and cannot be read\<close>

text \<open>The encoder has no bound on nesting: a value one level deeper than the decoder descends is encoded and refused.\<close>

definition nested :: "nat \<Rightarrow> goany" where
  "nested n = ((\<lambda>v. GSlice [v]) ^^ n) GNil"

lemma nested_bytes: "appendEncodedValue dst (nested n) = Inr (dst @ replicate n 0x81 @ [0xF6])"
proof (induction n arbitrary: dst)
  case (Suc n)
  have "appendMajor dst 4 1 = dst @ [0x81]" by (simp add: appendMajor_def)
  with Suc show ?case by (simp add: nested_def replicate_append_same [symmetric] del: replicate_append_same)
qed (simp add: nested_def)

lemma nested_refused: "MaxDepth < depth + n \<Longrightarrow> n < 2 ^ 62 \<Longrightarrow> decodeOne (replicate n 0x81 @ [0xF6]) depth = Inl ErrTooDeep"
proof (induction n arbitrary: depth)
  case (Suc n)
  have b: "unat (drop_bit 5 (0x81 :: 8 word)) = 4" "unat ((0x81 :: 8 word) AND 0x1F) = 1" by code_simp+
  have "room (replicate (Suc n) 0x81 @ [0xF6]) 1 = Suc n" using room_tail [of 1 "replicate (Suc n) 0x81 @ [0xF6]"] Suc.prems(2) by simp
  moreover have "decodeOne (replicate n 0x81 @ [0xF6]) (Suc depth) = Inl ErrTooDeep" using Suc.prems by (intro Suc.IH) simp_all
  ultimately show ?case using b
    by (subst decodeOne.simps) (simp add: Let_def readLength_def slice_from_le numeral_eq_Suc)
qed (simp add: decodeOne.simps)

lemma cbor_deep_value_unreadable:
  assumes "MaxDepth < n" "n < 2 ^ 62"
  shows "\<exists>b. cbor_Encode NewValue (nested n) = Inr b \<and> cbor_Decode NewValue b = Inl ErrTooDeep"
  using nested_bytes [of "[]" n] nested_refused [of 0 n] assms
  by (simp add: cbor_Encode_def cbor_Decode_def NewValue_def NewRaw_def encodeAny_def decodeAny_def)

section \<open>Widened numbers\<close>

text \<open>The numbers that half-precision and double-precision patterns denote by the standard, infinities and not-a-numbers apart.\<close>

definition half_value :: "16 word \<Rightarrow> real" where
  "half_value h =
     (let ex = unat (drop_bit 10 h AND 0x1F); frac = real (unat (h AND 0x3FF)) in
      (if bit h 15 then - 1 else 1) * (if ex = 0 then frac / 2 ^ 24 else (1 + frac / 2 ^ 10) * 2 ^ ex / 2 ^ 15))"

definition double_value :: "64 word \<Rightarrow> real" where
  "double_value w =
     (let ex = double_exp w; frac = real (unat (take_bit 52 w)) in
      (if bit w 63 then - 1 else 1) * (if ex = 0 then frac / 2 ^ 1074 else (1 + frac / 2 ^ 52) * 2 ^ ex / 2 ^ 1023))"

lemma ilog2_bounds: "0 < m \<Longrightarrow> 2 ^ ilog2 m \<le> m \<and> m < 2 ^ Suc (ilog2 m)"
proof (induction m rule: ilog2.induct)
  case (1 n)
  show ?case
  proof (cases "n \<le> 1")
    case False
    then have "2 ^ ilog2 (n div 2) \<le> n div 2 \<and> n div 2 < 2 ^ Suc (ilog2 (n div 2))" using 1 by simp
    moreover have "ilog2 n = Suc (ilog2 (n div 2))" using False by (simp add: ilog2.simps [of n])
    ultimately show ?thesis by auto
  qed (use 1 in \<open>simp add: ilog2.simps [of n]\<close>)
qed

text \<open>The fields of a pattern that is put together from an exponent and a fraction.\<close>

lemma and_2047: "(w :: 64 word) AND 0x7FF = take_bit 11 w"
  by (simp add: take_bit_eq_mask mask_eq_exp_minus_1)

lemma pattern_fields:
  assumes "n < 2 ^ 63"
  shows "double_exp (word_of_nat n) = n div 2 ^ 52" "unat (take_bit 52 (word_of_nat n :: 64 word)) = n mod 2 ^ 52"
    "\<not> bit (word_of_nat n :: 64 word) 63"
proof -
  have u: "unat (word_of_nat n :: 64 word) = n" using assms by (simp add: unat_of_nat)
  have "unat (drop_bit 52 (word_of_nat n :: 64 word)) = n div 2 ^ 52"
    unfolding unsigned_drop_bit_eq u using assms by (simp add: drop_bit_eq_div take_bit_eq_mod)
  then have ex: "unat (take_bit 11 (drop_bit 52 (word_of_nat n :: 64 word))) = take_bit 11 (n div 2 ^ 52)"
    by (simp only: unsigned_take_bit_eq)
  have "n div 2 ^ 52 < 2 ^ 11" using assms by (simp add: less_mult_imp_div_less)
  then have "take_bit 11 (n div 2 ^ 52) = n div 2 ^ 52" by (rule take_bit_nat_eq_self)
  then show "double_exp (word_of_nat n) = n div 2 ^ 52" unfolding double_exp_def and_2047 ex .
  show "unat (take_bit 52 (word_of_nat n :: 64 word)) = n mod 2 ^ 52"
    unfolding unsigned_take_bit_eq u by (rule take_bit_eq_mod)
  show "\<not> bit (word_of_nat n :: 64 word) 63" unfolding bit_of_nat_iff using assms by (simp add: bit_iff_odd)
qed

lemma scale_powers: "x * 2 ^ a / 2 ^ b * 2 ^ c / 2 ^ d = (x :: real) * 2 powi (int a - int b + int c - int d)"
  by (simp add: power_int_diff power_int_add)

lemma double_fields:
  assumes "0 < m" "m < 2 ^ 11" "- 200 < e" "e < 200"
  shows "double_value (double False m e) = real m * 2 powi e" "bit (double False m e) 63 = False"
proof -
  let ?k = "ilog2 m"
  have k: "2 ^ ?k \<le> m" "m < 2 ^ Suc ?k" using ilog2_bounds [OF assms(1)] by simp_all
  then have "(2 :: nat) ^ ?k < 2 ^ 11" using assms(2) by linarith
  then have k11: "?k < 11" by (rule power_less_imp_less_exp [rotated]) simp
  define E where "E = nat (e + int ?k + 1023)"
  define F where "F = m * 2 ^ (52 - ?k) - 2 ^ 52"
  have split: "(2 :: nat) ^ ?k * 2 ^ (52 - ?k) = 2 ^ 52" using k11 by (simp add: power_add [symmetric])
  have ge: "2 ^ 52 \<le> m * 2 ^ (52 - ?k)" using k(1) split by (metis mult_le_mono1)
  have "m * 2 ^ (52 - ?k) < 2 ^ Suc ?k * 2 ^ (52 - ?k)" using k(2) by simp
  also have "\<dots> = 2 * 2 ^ 52" using split by simp
  finally have F: "F < 2 ^ 52" unfolding F_def using ge by simp
  have E: "E < 2 ^ 11" "int E = e + int ?k + 1023" "0 < E" using assms(3,4) k11 by (simp_all add: E_def)
  have "2 ^ 52 * (e + int ?k + 1023) + int (m * 2 ^ (52 - ?k)) - 2 ^ 52 = int (2 ^ 52 * E + F)"
    using E(2) ge by (simp add: F_def of_nat_diff)
  then have w: "double False m e = word_of_int (int (2 ^ 52 * E + F))" using assms(1) by (simp only: double_def) simp
  define n where "n = 2 ^ 52 * E + F"
  have n: "n < 2 ^ 63" "n div 2 ^ 52 = E" "n mod 2 ^ 52 = F" using F E(1) by (simp_all add: n_def)
  have w: "double False m e = word_of_nat n" unfolding w n_def [symmetric] by (simp only: of_int_of_nat_eq)
  show "bit (double False m e) 63 = False" using pattern_fields(3) [OF n(1)] w by simp
  have "double_value (double False m e) = (1 + real F / 2 ^ 52) * 2 ^ E / 2 ^ 1023"
    unfolding double_value_def w using pattern_fields [OF n(1)] n(2,3) E(3) by simp
  also have "1 + real F / 2 ^ 52 = real m * 2 ^ (52 - ?k) / 2 ^ 52" using ge by (simp add: F_def of_nat_diff field_simps)
  also have "real m * 2 ^ (52 - ?k) / 2 ^ 52 * 2 ^ E / 2 ^ 1023 = real m * 2 powi (int (52 - ?k) - int 52 + int E - int 1023)"
    by (rule scale_powers)
  also have "int (52 - ?k) - int 52 + int E - int 1023 = e" using E(2) k11 by simp
  finally show "double_value (double False m e) = real m * 2 powi e" .
qed

lemma double_value_neg: "double_value (float64_neg w) = - double_value w"
proof -
  have "double_exp (float64_neg w) = double_exp w"
    unfolding double_exp_def float64_neg_def and_2047 by (rule arg_cong [of _ _ unat], rule bit_word_eqI) (auto simp: bit_simps)
  moreover have "take_bit 52 (float64_neg w) = take_bit 52 w"
    unfolding float64_neg_def by (rule bit_word_eqI) (auto simp: bit_simps)
  moreover have "bit (float64_neg w) 63 = (\<not> bit w 63)" by (simp add: float64_neg_def bit_simps)
  ultimately show ?thesis by (simp add: double_value_def Let_def)
qed

text \<open>
  A half-precision number is widened exactly: the \<open>float64\<close> the decoder returns for it denotes the same real number, normal or
  subnormal, with either sign.
\<close>

theorem half_widened_exactly:
  assumes "unat (drop_bit 10 h AND 0x1F) \<noteq> 0x1F"
  shows "double_value (halfToFloat64 h) = half_value h"
proof -
  define ex where "ex = unat (drop_bit 10 h AND 0x1F)"
  define frac where "frac = unat (h AND 0x3FF)"
  have "h AND 0x3FF = take_bit 10 h" by (simp add: take_bit_eq_mask mask_eq_exp_minus_1)
  then have frac: "frac < 1024" using take_bit_nat_less_exp [of 10 "unat h"] by (simp add: frac_def unsigned_take_bit_eq)
  have "drop_bit 10 h AND 0x1F = take_bit 5 (drop_bit 10 h)" by (simp add: take_bit_eq_mask mask_eq_exp_minus_1)
  then have ex: "ex < 31"
    using take_bit_nat_less_exp [of 5 "unat (drop_bit 10 h)"] assms by (simp add: ex_def unsigned_take_bit_eq)
  define v where "v = (if ex = 0 then double False frac (- 24) else double False (1024 + frac) (int ex - 25))"
  have zero: "double_value (double False 0 (- 24)) = 0" by (simp add: double_def double_value_def double_exp_def)
  have "double_value v = (if ex = 0 then real frac / 2 ^ 24 else (1 + real frac / 2 ^ 10) * 2 ^ ex / 2 ^ 15)"
  proof (cases "ex = 0")
    case True
    have "double_value (double False frac (- 24)) = real frac * 2 powi (- 24)"
    proof (cases "frac = 0")
      case True
      then show ?thesis using zero by (simp only: of_nat_0 mult_zero_left)
    qed (use frac in \<open>intro double_fields(1), simp_all\<close>)
    also have "2 powi (- 24) = 1 / (2 :: real) ^ 24" unfolding power_int_minus by simp
    finally show ?thesis using True by (simp only: v_def refl if_True mult_1_right times_divide_eq_right)
  next
    case False
    have "double_value v = real (1024 + frac) * 2 powi (int ex - 25)"
      using double_fields(1) [of "1024 + frac" "int ex - 25"] False frac ex by (simp add: v_def)
    also have "2 powi (int ex - 25) = (2 :: real) ^ ex / 2 ^ 25" by (simp add: power_int_diff)
    also have "real (1024 + frac) * (2 ^ ex / 2 ^ 25) = (1 + real frac / 2 ^ 10) * 2 ^ ex / 2 ^ 15" by simp
    finally show ?thesis using False by simp
  qed
  moreover have "halfToFloat64 h = (if bit h 15 then float64_neg v else v)"
    using ex by (simp add: halfToFloat64_def Let_def ex_def [symmetric] frac_def [symmetric] v_def)
  ultimately show ?thesis
    using double_value_neg [of v] by (simp add: half_value_def Let_def ex_def [symmetric] frac_def [symmetric])
qed

theorem half_widened_exactly_witness: "double_value (halfToFloat64 0xC500) = - 5"
proof -
  have "unat (drop_bit 10 (0xC500 :: 16 word) AND 0x1F) = 17" "unat ((0xC500 :: 16 word) AND 0x3FF) = 256" "bit (0xC500 :: 16 word) 15"
    by code_simp+
  then show ?thesis using half_widened_exactly [of "0xC500"] by (simp add: half_value_def)
qed

end
