(* ===== verification/Hashers.thy ===== *)
theory Hashers
  imports Cas_Store Fs_Backend Bloom_Persistent
begin

text \<open>
  The hashers: the text form and the width check all of them share (\<open>src/cas/hash/hash.go\<close>), the addressing hashers
  (\<open>src/cas/hash/sha256\<close>, \<open>sha512\<close>, \<open>sha512_256\<close>), whose hash function is a parameter, and the checksums
  of \<open>src/cas/verify\<close>, for which the standard library's \<open>hash/crc32\<close>, \<open>hash/crc64\<close> and \<open>hash/adler32\<close> are written out.

  Shown: the printable form is read back, and nothing else is accepted but the bare hex form; every hasher satisfies the law the typed store
  asks for; each of the checksums tells two contents apart that differ in one byte.
\<close>

unbundle bit_operations_syntax

section \<open>Text form and width\<close>

definition ValidateDigestSize :: "digest \<Rightarrow> string \<Rightarrow> nat \<Rightarrow> err option" where
  "ValidateDigestSize d name sz =
     (if IsZero d then Some (Errorf ''absent digest'' [ErrInvalidDigest])
      else if length d \<noteq> sz then Some (Errorf ''digest width'' [ErrInvalidDigest])
      else None)"

definition FormatDigest :: "string \<Rightarrow> digest \<Rightarrow> string" where
  "FormatDigest name d = (if IsZero d then '''' else name @ '':'' @ Digest_String d)"

definition CutPrefix :: "string \<Rightarrow> string \<Rightarrow> string option" where
  "CutPrefix s pre = (if HasPrefix s pre then Some (drop (length pre) s) else None)"

definition hash_ParseDigest :: "string \<Rightarrow> string \<Rightarrow> nat \<Rightarrow> digest result" where
  "hash_ParseDigest name s sz =
     (case (case CutPrefix s (name @ '':'') of
              Some body \<Rightarrow> Inr body
            | None \<Rightarrow> if CHR '':'' \<in> set s then Inl (Errorf ''not a digest of this algorithm'' [ErrInvalidDigest]) else Inr s) of
        Inl e \<Rightarrow> Inl e
      | Inr body \<Rightarrow>
          (case ParseDigest body of
             Inl e \<Rightarrow> Inl (Errorf s [e])
           | Inr d \<Rightarrow> (case ValidateDigestSize d name sz of Some e \<Rightarrow> Inl (Errorf s [e]) | None \<Rightarrow> Inr d)))"

section \<open>Hashers\<close>

text \<open>\<open>io.Copy\<close> into a hash, whose sum over what it was given is \<open>f\<close>: everything the reader gives, unless it fails.\<close>

definition hash_copy :: "string \<Rightarrow> (bytes \<Rightarrow> bytes) \<Rightarrow> reader \<Rightarrow> digest result" where
  "hash_copy pkg f r = (case io_ReadAll r of Inl e \<Rightarrow> Inl (Errorf pkg [e]) | Inr b \<Rightarrow> Inr (NewDigest (f b)))"

definition sha256_Hasher :: "(bytes \<Rightarrow> bytes) \<Rightarrow> hasher" where
  "sha256_Hasher f = \<lparr>h_Digest = hash_copy ''cas/sha256'' f, h_Validate = (\<lambda>d. ValidateDigestSize d ''sha256'' 32)\<rparr>"

definition sha512_Hasher :: "(bytes \<Rightarrow> bytes) \<Rightarrow> hasher" where
  "sha512_Hasher f = \<lparr>h_Digest = hash_copy ''cas/sha512'' f, h_Validate = (\<lambda>d. ValidateDigestSize d ''sha512'' 64)\<rparr>"

definition sha512_256_Hasher :: "(bytes \<Rightarrow> bytes) \<Rightarrow> hasher" where
  "sha512_256_Hasher f = \<lparr>h_Digest = hash_copy ''cas/sha512_256'' f, h_Validate = (\<lambda>d. ValidateDigestSize d ''sha512_256'' 32)\<rparr>"

section \<open>Checksums\<close>

text \<open>The shift register of a reflected polynomial, and its table-driven step.\<close>

fun lfsr :: "'a::len word \<Rightarrow> nat \<Rightarrow> 'a word \<Rightarrow> 'a word" where
  "lfsr poly 0 c = c"
| "lfsr poly (Suc n) c = lfsr poly n (if bit c 0 then drop_bit 1 c XOR poly else drop_bit 1 c)"

definition IEEE :: "32 word" where
  "IEEE = 0xEDB88320"

definition crc32_byte :: "8 word \<Rightarrow> 32 word \<Rightarrow> 32 word" where
  "crc32_byte v crc = lfsr IEEE 8 (ucast (ucast crc XOR v)) XOR drop_bit 8 crc"

definition crc32_ChecksumIEEE :: "bytes \<Rightarrow> 32 word" where
  "crc32_ChecksumIEEE p = NOT (fold crc32_byte p (NOT 0))"

definition crc32_Of :: "bytes \<Rightarrow> digest" where
  "crc32_Of data = NewDigest (be_put 4 (unat (crc32_ChecksumIEEE data)))"

definition crc64_Of :: "bytes \<Rightarrow> digest" where
  "crc64_Of data = NewDigest (be_put 8 (unat (crc64_Update 0 data)))"

text \<open>
  \<open>hash/adler32\<close> adds up runs of 5552 bytes before it reduces modulo 65521, the longest that cannot overflow 32 bits;
  the sums are those of reducing at each byte.
\<close>

fun adler_step :: "8 word \<Rightarrow> nat \<times> nat \<Rightarrow> nat \<times> nat" where
  "adler_step b (s1, s2) = ((s1 + unat b) mod 65521, (s2 + (s1 + unat b) mod 65521) mod 65521)"

definition adler32_Checksum :: "bytes \<Rightarrow> nat" where
  "adler32_Checksum p = (case fold adler_step p (1, 0) of (s1, s2) \<Rightarrow> s2 * 65536 + s1)"

definition adler32_Of :: "bytes \<Rightarrow> digest" where
  "adler32_Of data = NewDigest (be_put 4 (adler32_Checksum data))"

definition crc32_Hasher :: hasher where
  "crc32_Hasher = \<lparr>h_Digest = hash_copy ''cas/verify/crc32'' crc32_Of, h_Validate = (\<lambda>d. ValidateDigestSize d ''crc32'' 4)\<rparr>"

definition crc64_Hasher :: hasher where
  "crc64_Hasher = \<lparr>h_Digest = hash_copy ''cas/verify/crc64'' crc64_Of, h_Validate = (\<lambda>d. ValidateDigestSize d ''crc64'' 8)\<rparr>"

definition adler32_Hasher :: hasher where
  "adler32_Hasher = \<lparr>h_Digest = hash_copy ''cas/verify/adler32'' adler32_Of, h_Validate = (\<lambda>d. ValidateDigestSize d ''adler32'' 4)\<rparr>"

section \<open>The text form\<close>

lemma ValidateDigestSize_None: "ValidateDigestSize d name sz = None \<longleftrightarrow> d \<noteq> [] \<and> length d = sz"
  by (auto simp: ValidateDigestSize_def IsZero_def)

lemma colon_not_in_String: "CHR '':'' \<notin> set (Digest_String d)"
  using Digest_String_chars [of d] by auto

lemma hash_ParseDigest_Ok:
  assumes "CHR '':'' \<notin> set name"
  shows "hash_ParseDigest name s sz = Inr d \<longleftrightarrow>
    d \<noteq> [] \<and> length d = sz \<and> (s = FormatDigest name d \<or> s = Digest_String d)"
proof -
  have bare: "CutPrefix (Digest_String d) (name @ '':'') = None"
    using colon_not_in_String [of d] by (auto simp: CutPrefix_def HasPrefix_iff)
  have "hash_ParseDigest name s sz = Inr d \<Longrightarrow> d \<noteq> [] \<and> length d = sz \<and> (s = FormatDigest name d \<or> s = Digest_String d)"
    by (auto simp: hash_ParseDigest_def CutPrefix_def HasPrefix_iff FormatDigest_def ValidateDigestSize_None
        dest: ParseDigest_OkD split: option.splits sum.splits if_splits)
  then show ?thesis
    using bare colon_not_in_String [of d] ParseDigest_String [of d]
    by (auto simp: hash_ParseDigest_def FormatDigest_def CutPrefix_def HasPrefix_def ValidateDigestSize_def split: option.splits if_splits)
qed

section \<open>The registers\<close>

definition lfsr_step :: "'a::len word \<Rightarrow> 'a word \<Rightarrow> 'a word" where
  "lfsr_step poly c = (if bit c 0 then drop_bit 1 c XOR poly else drop_bit 1 c)"

lemma lfsr_Suc: "lfsr poly (Suc n) c = lfsr poly n (lfsr_step poly c)"
  by (simp add: lfsr_step_def)

lemma lfsr_step_xor: "lfsr_step poly (a XOR b) = lfsr_step poly a XOR lfsr_step poly b"
  by (auto simp: lfsr_step_def drop_bit_xor bit_xor_iff intro!: bit_word_eqI)

lemma lfsr_xor: "lfsr poly n (a XOR b) = lfsr poly n a XOR lfsr poly n b"
  by (induction n arbitrary: a b) (simp_all add: lfsr_Suc lfsr_step_xor del: lfsr.simps(2))

lemma lfsr_step_0:
  assumes "bit (poly :: 'a::len word) (LENGTH('a) - 1)" "lfsr_step poly c = 0"
  shows "c = 0"
proof (rule bit_word_eqI)
  fix n assume n: "n < LENGTH('a)"
  have "\<not> bit (drop_bit 1 c) (LENGTH('a) - 1)"
    using bit_imp_le_length [of c "LENGTH('a)"] by (auto simp: bit_drop_bit_eq)
  then have "bit (drop_bit 1 c XOR poly) (LENGTH('a) - 1)"
    using assms(1) by (simp add: bit_xor_iff)
  then have c0: "\<not> bit c 0" using assms(2) by (auto simp: lfsr_step_def)
  then have d: "drop_bit 1 c = 0" using assms(2) by (simp add: lfsr_step_def)
  have "\<not> bit c (Suc m)" for m
    using arg_cong [OF d, of "\<lambda>w. bit w m"] by (simp add: bit_drop_bit_eq)
  then show "bit c n = bit 0 n" using c0 by (cases n) auto
qed

lemma lfsr_0:
  assumes "bit (poly :: 'a::len word) (LENGTH('a) - 1)"
  shows "lfsr poly n c = 0 \<Longrightarrow> c = 0"
proof (induction n arbitrary: c)
  case (Suc n)
  from Suc.prems have "lfsr poly n (lfsr_step poly c) = 0" by (simp only: lfsr_Suc)
  from Suc.IH [OF this] show ?case by (rule lfsr_step_0 [OF assms])
qed simp

lemma lfsr_inj:
  assumes "bit (poly :: 'a::len word) (LENGTH('a) - 1)" "lfsr poly n a = lfsr poly n b"
  shows "a = b"
proof -
  have "a XOR b = 0" using lfsr_0 [OF assms(1), of n "a XOR b"] assms(2) by (simp add: lfsr_xor)
  then have "b XOR (a XOR b) = b" by simp
  then show ?thesis by (simp add: xor.left_commute [of b a b])
qed

lemma lfsr_add: "lfsr poly (m + n) c = lfsr poly n (lfsr poly m c)"
  by (induction m arbitrary: c) auto

lemma lfsr_step_push:
  assumes "0 < n" "\<And>i. LENGTH('a) \<le> i + n \<Longrightarrow> \<not> bit (x :: 'a::len word) i"
  shows "lfsr_step poly (push_bit n x) = push_bit (n - 1) x"
proof -
  have "\<not> bit (push_bit n x) 0" using assms(1) by (simp add: bit_push_bit_iff)
  moreover have "drop_bit 1 (push_bit n x) = push_bit (n - 1) x"
  proof (rule bit_word_eqI)
    fix i assume "i < LENGTH('a)"
    then show "bit (drop_bit 1 (push_bit n x)) i = bit (push_bit (n - 1) x) i"
      using assms(1) assms(2) [of "i + 1 - n"]
      by (cases "Suc i < LENGTH('a)") (auto simp: bit_drop_bit_eq bit_push_bit_iff)
  qed
  ultimately show ?thesis by (simp add: lfsr_step_def)
qed

lemma lfsr_push:
  assumes "\<And>i. LENGTH('a) \<le> i + n \<Longrightarrow> \<not> bit (x :: 'a::len word) i"
  shows "lfsr poly n (push_bit n x) = x"
  using assms
proof (induction n)
  case (Suc n)
  have "lfsr_step poly (push_bit (Suc n) x) = push_bit n x"
    using lfsr_step_push [of "Suc n" x poly] Suc.prems by auto
  then show ?case using Suc by (simp add: lfsr_Suc del: lfsr.simps(2))
qed simp

text \<open>The table-driven step of \<open>hash/crc32\<close> and \<open>hash/crc64\<close> is the register's: eight shifts of the byte mixed in.\<close>

lemma table_step:
  fixes c :: "'a::len word" and v :: "8 word"
  assumes "8 \<le> LENGTH('a)"
  shows "lfsr poly 8 (ucast (ucast c XOR v)) XOR drop_bit 8 c = lfsr poly 8 (c XOR ucast v)"
proof -
  have "lfsr poly 8 (push_bit 8 (drop_bit 8 c)) = drop_bit 8 c"
    by (rule lfsr_push) (auto simp: bit_drop_bit_eq dest: bit_imp_le_length)
  moreover have "c XOR ucast v = ucast (ucast c XOR v) XOR push_bit 8 (drop_bit 8 c)"
    using assms by (intro bit_word_eqI) (auto simp: bit_xor_iff bit_push_bit_iff bit_drop_bit_eq bit_ucast_iff dest: bit_imp_le_length)
  ultimately show ?thesis by (simp only: lfsr_xor)
qed

section \<open>Damage a checksum sees\<close>

text \<open>A run of bytes as the register takes it in: the first lowest.\<close>

fun le_word :: "bytes \<Rightarrow> 'a::len word" where
  "le_word [] = 0"
| "le_word (v # vs) = ucast v XOR push_bit 8 (le_word vs)"

lemma le_word_bits: "bit (le_word vs :: 'a::len word) i \<longleftrightarrow> i < LENGTH('a) \<and> i div 8 < length vs \<and> bit (vs ! (i div 8)) (i mod 8)"
proof (induction vs arbitrary: i)
  case (Cons v vs)
  show ?case
  proof (cases "i < 8")
    case True
    then show ?thesis by (auto simp: bit_xor_iff bit_push_bit_iff bit_ucast_iff)
  next
    case False
    then have "\<not> bit v i" using bit_imp_le_length [of v i] by auto
    moreover have "i div 8 = Suc ((i - 8) div 8)" "i mod 8 = (i - 8) mod 8"
      using False by (simp_all add: le_div_geq le_mod_geq)
    ultimately show ?thesis using False Cons.IH [of "i - 8"] by (auto simp: bit_xor_iff bit_push_bit_iff bit_ucast_iff)
  qed
qed simp

lemma le_word_inj:
  assumes "(le_word vs :: 'a::len word) = le_word ws" "length vs = length ws" "8 * length vs \<le> LENGTH('a)"
  shows "vs = ws"
proof (rule nth_equalityI)
  fix k assume k: "k < length vs"
  show "vs ! k = ws ! k"
  proof (rule bit_word_eqI)
    fix j assume "j < LENGTH(8)"
    then show "bit (vs ! k) j = bit (ws ! k) j"
      using arg_cong [OF assms(1), of "\<lambda>w. bit w (8 * k + j)"] k assms(2,3) by (simp add: le_word_bits)
  qed
qed (rule assms(2))

lemma fold_register:
  fixes c :: "'a::len word"
  assumes "\<And>(v :: 8 word) c. f v c = lfsr poly 8 (c XOR ucast v)"
  shows "8 * length vs \<le> LENGTH('a) \<Longrightarrow> fold f vs c = lfsr poly (8 * length vs) (c XOR le_word vs)"
proof (induction vs arbitrary: c)
  case (Cons v vs)
  have "lfsr poly 8 (push_bit 8 (le_word vs)) = le_word vs"
    using Cons.prems by (intro lfsr_push) (auto simp: le_word_bits)
  then have "f v c XOR le_word vs = lfsr poly 8 (c XOR le_word (v # vs))"
    by (simp add: assms lfsr_xor xor.assoc)
  then show ?case using Cons by (simp add: lfsr_add [symmetric] add.commute)
qed simp

lemma fold_register_inj:
  fixes a b :: "'a::len word"
  assumes "bit poly (LENGTH('a) - 1)" "\<And>(v :: 8 word) c. f v c = lfsr poly 8 (c XOR ucast v)" "a \<noteq> b"
  shows "fold f vs a \<noteq> fold f vs b"
  using assms(3)
proof (induction vs arbitrary: a b)
  case (Cons v vs)
  have "f v a \<noteq> f v b"
    using lfsr_inj [OF assms(1), of 8 "a XOR ucast v" "b XOR ucast v"] Cons.prems
    by (metis assms(2) xor.right_neutral xor.assoc xor_self_eq)
  from Cons.IH [OF this] show ?case by simp
qed simp

lemma register_burst:
  fixes c :: "'a::len word"
  assumes "bit poly (LENGTH('a) - 1)" "\<And>(v :: 8 word) c. f v c = lfsr poly 8 (c XOR ucast v)"
    and "length vs = length ws" "8 * length vs \<le> LENGTH('a)" "vs \<noteq> (ws :: bytes)"
  shows "fold f (xs @ vs @ ys) c \<noteq> fold f (xs @ ws @ ys) c"
proof -
  have "fold f vs d \<noteq> fold f ws d" for d
  proof
    assume "fold f vs d = fold f ws d"
    then have "d XOR le_word vs = d XOR le_word ws"
      using lfsr_inj [OF assms(1)] assms(3,4) by (simp add: fold_register [of f, OF assms(2)])
    then have "d XOR (d XOR le_word vs) = d XOR (d XOR le_word ws)" by simp
    then have "(le_word vs :: 'a word) = le_word ws" by (simp add: xor.assoc [symmetric])
    from le_word_inj [OF this assms(3,4)] assms(5) show False by simp
  qed
  then show ?thesis by (simp add: fold_register_inj [OF assms(1,2)])
qed

lemma crc32_byte_register: "crc32_byte v c = lfsr IEEE 8 (c XOR ucast v)"
  unfolding crc32_byte_def by (rule table_step) simp

lemma crc_shift_lfsr: "crc_shift n c = lfsr ECMA n c"
  by (induction n arbitrary: c) auto

lemma crc64_byte_register: "crc_byte v c = lfsr ECMA 8 (c XOR ucast v)"
  unfolding crc_byte_def indexTable_def crc_shift_lfsr by (rule table_step) simp

lemma be_put_inj: "be_put n a = be_put n b \<Longrightarrow> a < 256 ^ n \<Longrightarrow> b < 256 ^ n \<Longrightarrow> a = b"
  by (metis be_get_put)

lemma be_put_unat_inj:
  assumes "2 ^ LENGTH('a) = (256 :: nat) ^ n"
  shows "be_put n (unat (a :: 'a::len word)) = be_put n (unat b) \<longleftrightarrow> a = b"
  using be_put_inj [of n "unat a" "unat b"] unsigned_less [of a, where ?'a = nat] unsigned_less [of b, where ?'a = nat] assms
  by (auto simp: word_eq_iff_unsigned [where ?'a = nat])

lemma crc32_Of_inj: "crc32_Of p = crc32_Of q \<longleftrightarrow> fold crc32_byte p (NOT 0) = fold crc32_byte q (NOT 0)"
  by (simp add: crc32_Of_def crc32_ChecksumIEEE_def be_put_unat_inj)

lemma crc64_Of_inj: "crc64_Of p = crc64_Of q \<longleftrightarrow> fold crc_byte p (NOT 0) = fold crc_byte q (NOT 0)"
  by (simp add: crc64_Of_def crc64_Update_def be_put_unat_inj)

lemma crc32_burst: "length vs = length ws \<Longrightarrow> length vs \<le> 4 \<Longrightarrow> vs \<noteq> ws \<Longrightarrow> crc32_Of (xs @ vs @ ys) \<noteq> crc32_Of (xs @ ws @ ys)"
  unfolding crc32_Of_inj by (rule register_burst [OF _ crc32_byte_register]) (simp_all add: IEEE_def)

lemma crc64_burst: "length vs = length ws \<Longrightarrow> length vs \<le> 8 \<Longrightarrow> vs \<noteq> ws \<Longrightarrow> crc64_Of (xs @ vs @ ys) \<noteq> crc64_Of (xs @ ws @ ys)"
  unfolding crc64_Of_inj by (rule register_burst [OF _ crc64_byte_register]) (simp_all add: ECMA_def)

text \<open>Adler's first sum is that of the bytes, so one changed byte moves it by less than the modulus.\<close>

lemma adler_fold: "fst (fold adler_step p (s1, s2)) mod 65521 = (s1 + sum_list (map unat p)) mod 65521"
proof (induction p arbitrary: s1 s2)
  case (Cons b p)
  show ?case by (simp add: Cons mod_simps add.assoc)
qed simp

lemma adler_bounds: "s1 < 65521 \<Longrightarrow> s2 < 65521 \<Longrightarrow> fst (fold adler_step p (s1, s2)) < 65521 \<and> snd (fold adler_step p (s1, s2)) < 65521"
  by (induction p arbitrary: s1 s2) auto

lemma adler_Of_inj:
  assumes "adler32_Of p = adler32_Of q"
  shows "fst (fold adler_step p (1, 0)) = fst (fold adler_step q (1, 0))"
proof -
  obtain a b where p: "fold adler_step p (1, 0) = (a, b)" "a < 65521" "b < 65521" using adler_bounds [of 1 0 p] by (cases "fold adler_step p (1, 0)") auto
  obtain c d where q: "fold adler_step q (1, 0) = (c, d)" "c < 65521" "d < 65521" using adler_bounds [of 1 0 q] by (cases "fold adler_step q (1, 0)") auto
  have "b * 65536 + a = d * 65536 + c"
    using be_put_inj [of 4 "adler32_Checksum p" "adler32_Checksum q"] assms p q by (simp add: adler32_Of_def adler32_Checksum_def)
  then have "(b * 65536 + a) mod 65536 = (d * 65536 + c) mod 65536" by simp
  then show ?thesis using p q by simp
qed

lemma mod_shift_inj:
  assumes "((a :: nat) + k) mod m = (b + k) mod m" "a < m" "b < m"
  shows "a = b"
  using assms
proof (induction a b rule: linorder_wlog)
  case (le a b)
  then have "m dvd (b + k) - (a + k)" by (metis add_le_cancel_right mod_eq_dvd_iff_nat)
  then have "m dvd b - a" by simp
  then show ?case using le nat_dvd_not_less [of "b - a" m] by linarith
qed simp

lemma adler_byte:
  assumes "v \<noteq> w"
  shows "adler32_Of (xs @ v # ys) \<noteq> adler32_Of (xs @ w # ys)"
proof
  assume "adler32_Of (xs @ v # ys) = adler32_Of (xs @ w # ys)"
  then have "(1 + sum_list (map unat (xs @ v # ys))) mod 65521 = (1 + sum_list (map unat (xs @ w # ys))) mod 65521"
    using adler_Of_inj adler_fold [of _ 1 0] by metis
  then have "(unat v + (1 + sum_list (map unat xs) + sum_list (map unat ys))) mod 65521 = (unat w + (1 + sum_list (map unat xs) + sum_list (map unat ys))) mod 65521"
    by (simp add: ac_simps)
  moreover have "unat v < 65521" "unat w < 65521" using unat_byte_less_256 [of v] unat_byte_less_256 [of w] by linarith+
  ultimately have "unat v = unat w" by (rule mod_shift_inj)
  then show False using assms by (simp add: word_eq_iff_unsigned [where ?'a = nat])
qed

section \<open>What the hashers promise\<close>

lemma hash_copy_bytes [simp]: "hash_copy pkg f (bytes_reader b) = Inr (f b)"
  by (simp add: hash_copy_def io_ReadAll_def)

lemma hasher_law_copy:
  assumes "\<And>b. length (f b) = sz" "0 < sz"
  shows "hasher_law \<lparr>h_Digest = hash_copy pkg f, h_Validate = (\<lambda>d. ValidateDigestSize d name sz)\<rparr> f"
proof -
  have "f b \<noteq> []" for b using assms(1) [of b] assms(2) by auto
  then show ?thesis using assms by (simp add: hasher_law_def hash_copy_def io_ReadAll_def ValidateDigestSize_None)
qed

text \<open>
  Every hasher of the repository is what the typed store asks of one: it turns a reader that does not fail into
  the digest of what it reads, never the absent digest, and accepts exactly its own width. For the addressing hashers
  this rests on the width the standard library documents for their sums; the checksums need nothing.
\<close>

theorem hashers_lawful:
  assumes "\<And>b. length (sum256 b) = 32" "\<And>b. length (sum512 b) = 64" "\<And>b. length (sum512_256 b) = 32"
  shows "hasher_law (sha256_Hasher sum256) sum256 \<and> hasher_law (sha512_Hasher sum512) sum512 \<and>
    hasher_law (sha512_256_Hasher sum512_256) sum512_256 \<and>
    hasher_law crc32_Hasher crc32_Of \<and> hasher_law crc64_Hasher crc64_Of \<and> hasher_law adler32_Hasher adler32_Of"
  unfolding sha256_Hasher_def sha512_Hasher_def sha512_256_Hasher_def crc32_Hasher_def crc64_Hasher_def adler32_Hasher_def
  by (intro conjI hasher_law_copy) (simp_all add: assms crc32_Of_def crc64_Of_def adler32_Of_def)

theorem hashers_lawful_witness:
  "hasher_law (sha256_Hasher (\<lambda>b. replicate 32 0)) (\<lambda>b. replicate 32 0)"
  using hashers_lawful [of "\<lambda>b. replicate 32 0" "\<lambda>b. replicate 64 0" "\<lambda>b. replicate 32 0"] by simp

text \<open>
  The printable form: for an algorithm whose name has no colon, \<open>ParseDigest\<close> returns \<open>d\<close> exactly for the printable
  form of \<open>d\<close> and for its bare hex form, and only when \<open>d\<close> has the algorithm's width.
\<close>

theorem printable_roundtrip:
  assumes "CHR '':'' \<notin> set name"
  shows "hash_ParseDigest name s sz = Inr d \<longleftrightarrow>
    d \<noteq> [] \<and> length d = sz \<and> (s = FormatDigest name d \<or> s = Digest_String d)"
  by (rule hash_ParseDigest_Ok [OF assms])

theorem printable_roundtrip_witness:
  "hash_ParseDigest ''crc32'' ''crc32:00ff00ff'' 4 = Inr [0, 0xFF, 0, 0xFF]"
  using printable_roundtrip [of "''crc32''" "''crc32:00ff00ff''" 4 "[0, 0xFF, 0, 0xFF]"]
  by (simp add: FormatDigest_def) code_simp

text \<open>
  C24: What a checksum sees: a change confined to four consecutive bytes always changes the CRC-32 of a content, one
  confined to eight its CRC-64, and one of a single byte its Adler-32.
\<close>

theorem checksums_see_damage:
  assumes "length vs = length ws" "vs \<noteq> ws"
  shows "(length vs \<le> 4 \<longrightarrow> h_Digest crc32_Hasher (bytes_reader (xs @ vs @ ys)) \<noteq> h_Digest crc32_Hasher (bytes_reader (xs @ ws @ ys))) \<and>
    (length vs \<le> 8 \<longrightarrow> h_Digest crc64_Hasher (bytes_reader (xs @ vs @ ys)) \<noteq> h_Digest crc64_Hasher (bytes_reader (xs @ ws @ ys))) \<and>
    (length vs = 1 \<longrightarrow> h_Digest adler32_Hasher (bytes_reader (xs @ vs @ ys)) \<noteq> h_Digest adler32_Hasher (bytes_reader (xs @ ws @ ys)))"
proof -
  have "adler32_Of (xs @ vs @ ys) \<noteq> adler32_Of (xs @ ws @ ys)" if "length vs = 1"
    using that assms adler_byte by (cases vs; cases ws) auto
  then show ?thesis
    using crc32_burst [OF assms(1) _ assms(2), of xs ys] crc64_burst [OF assms(1) _ assms(2), of xs ys]
    by (simp add: crc32_Hasher_def crc64_Hasher_def adler32_Hasher_def)
qed

theorem checksums_see_damage_witness:
  "h_Digest crc32_Hasher (bytes_reader ([1] @ [2, 3] @ [4])) \<noteq> h_Digest crc32_Hasher (bytes_reader ([1] @ [2, 5] @ [4]))"
  using checksums_see_damage [of "[2, 3]" "[2, 5]" "[1]" "[4]"] by simp

end
