(* ===== verification/Go_Time.thy ===== *)
theory Go_Time
  imports Go_Strings
begin

text \<open>
  What \<open>src/cas/verify/sidecar/record.go\<close> uses of \<open>time\<close>: an instant with the offset it is shown in, its RFC 3339 text with
  nanoseconds as \<open>Time.MarshalJSON\<close> writes it, and the reader of that text. The calendar is the proleptic Gregorian one.

  Shown: a text that is written is read back as the same instant in the same offset.
\<close>

section \<open>The calendar\<close>

definition isLeap :: "nat \<Rightarrow> bool" where
  "isLeap y \<longleftrightarrow> y mod 4 = 0 \<and> (y mod 100 \<noteq> 0 \<or> y mod 400 = 0)"

definition year_len :: "nat \<Rightarrow> nat" where
  "year_len y = (if isLeap y then 366 else 365)"

definition month_lens :: "nat \<Rightarrow> nat list" where
  "month_lens y = [31, if isLeap y then 29 else 28, 31, 30, 31, 30, 31, 31, 30, 31, 30, 31]"

primrec days_before_year :: "nat \<Rightarrow> nat" where
  "days_before_year 0 = 0"
| "days_before_year (Suc y) = days_before_year y + year_len y"

text \<open>The year of a day and the day in it; the month and the day in it, both counted from zero.\<close>

function find_year :: "nat \<Rightarrow> nat \<Rightarrow> nat \<times> nat" where
  "find_year y d = (if d < year_len y then (y, d) else find_year (Suc y) (d - year_len y))"
  by pat_completeness auto
termination
  by (relation "measure snd") (auto simp: year_len_def split: if_splits)

declare find_year.simps [simp del]

fun find_month :: "nat list \<Rightarrow> nat \<Rightarrow> nat \<times> nat" where
  "find_month [] d = (0, d)"
| "find_month (l # ls) d = (if d < l then (0, d) else (case find_month ls (d - l) of (m, r) \<Rightarrow> (Suc m, r)))"

section \<open>Instants and their text\<close>

text \<open>Nanoseconds since the first of January of the year 1, the zero \<open>Time\<close>; the offset from UTC in minutes.\<close>

record gotime =
  t_ns :: int
  t_zone :: int

definition Time_IsZero :: "gotime \<Rightarrow> bool" where
  "Time_IsZero t \<longleftrightarrow> t_ns t = 0"

text \<open>\<open>time.Unix(0, ns).UTC()\<close>.\<close>

definition time_Unix :: "int \<Rightarrow> gotime" where
  "time_Unix ns = \<lparr>t_ns = ns + 62135596800 * 10 ^ 9, t_zone = 0\<rparr>"

primrec pad :: "nat \<Rightarrow> nat \<Rightarrow> string" where
  "pad 0 v = []"
| "pad (Suc n) v = digit (v div 10 ^ n mod 10) # pad n v"

definition frac_text :: "nat \<Rightarrow> string" where
  "frac_text ns = (if ns = 0 then [] else CHR ''.'' # rev (dropWhile (\<lambda>c. c = CHR ''0'') (rev (pad 9 ns))))"

definition zone_text :: "int \<Rightarrow> string" where
  "zone_text z =
     (if z = 0 then ''Z''
      else (if z < 0 then CHR ''-'' else CHR ''+'') # pad 2 (nat \<bar>z\<bar> div 60) @ '':'' @ pad 2 (nat \<bar>z\<bar> mod 60))"

definition clock_text :: "nat \<Rightarrow> string" where
  "clock_text s = pad 2 (s div 3600) @ '':'' @ pad 2 (s div 60 mod 60) @ '':'' @ pad 2 (s mod 60)"

definition date_text :: "nat \<Rightarrow> nat \<Rightarrow> string" where
  "date_text y yd = (case find_month (month_lens y) yd of (m, d) \<Rightarrow> pad 4 y @ ''-'' @ pad 2 (Suc m) @ ''-'' @ pad 2 (Suc d))"

text \<open>
  \<open>Time.MarshalJSON\<close> without the quotes: a year outside of four digits, or an offset of a day, is an error. The count of
  days starts in the year 0, 366 days before the zero time.
\<close>

definition Time_text :: "gotime \<Rightarrow> string option" where
  "Time_text t =
     (let secs = t_ns t div 10 ^ 9 + 60 * t_zone t; day = secs div 86400 + 366 in
      if day < 0 \<or> \<bar>t_zone t\<bar> \<ge> 1440 then None
      else (case find_year 0 (nat day) of (y, yd) \<Rightarrow>
        if y > 9999 then None
        else Some (date_text y yd @ ''T'' @ clock_text (nat (secs mod 86400)) @
               frac_text (nat (t_ns t mod 10 ^ 9)) @ zone_text (t_zone t))))"

section \<open>Reading\<close>

text \<open>\<open>parseUint\<close>: a field of digits within bounds.\<close>

definition field :: "string \<Rightarrow> nat \<Rightarrow> nat \<Rightarrow> nat option" where
  "field s lo hi = (case digits_value 0 s of None \<Rightarrow> None | Some v \<Rightarrow> if lo \<le> v \<and> v \<le> hi then Some v else None)"

definition read_date :: "string \<Rightarrow> nat option" where
  "read_date s =
     (case (field (take 4 s) 0 9999, field (take 2 (drop 5 s)) 1 12) of
        (Some y, Some m) \<Rightarrow>
          (case field (take 2 (drop 8 s)) 1 (month_lens y ! (m - 1)) of
             Some d \<Rightarrow>
               (if s ! 4 = CHR ''-'' \<and> s ! 7 = CHR ''-''
                then Some (days_before_year y + sum_list (take (m - 1) (month_lens y)) + (d - 1)) else None)
           | None \<Rightarrow> None)
      | _ \<Rightarrow> None)"

definition read_clock :: "string \<Rightarrow> nat option" where
  "read_clock s =
     (case (field (take 2 s) 0 23, field (take 2 (drop 3 s)) 0 59, field (take 2 (drop 6 s)) 0 59) of
        (Some h, Some m, Some x) \<Rightarrow> if s ! 2 = CHR '':'' \<and> s ! 5 = CHR '':'' then Some (h * 3600 + m * 60 + x) else None
      | _ \<Rightarrow> None)"

definition is_digit_char :: "char \<Rightarrow> bool" where
  "is_digit_char c \<longleftrightarrow> digit_value c \<noteq> None"

text \<open>The fraction, of which nine digits count, and the rest.\<close>

definition read_frac :: "string \<Rightarrow> nat \<times> string" where
  "read_frac s =
     (case s of
        c # t \<Rightarrow>
          (let ds = takeWhile is_digit_char t in
           if c = CHR ''.'' \<and> ds \<noteq> []
           then (case digits_value 0 (take 9 (ds @ replicate 9 (CHR ''0''))) of Some n \<Rightarrow> (n, drop (length ds) t) | None \<Rightarrow> (0, s))
           else (0, s))
      | [] \<Rightarrow> (0, s))"

definition read_zone :: "string \<Rightarrow> int option" where
  "read_zone s =
     (if s = ''Z'' then Some 0
      else if length s \<noteq> 6 then None
      else case (field (take 2 (drop 1 s)) 0 23, field (take 2 (drop 4 s)) 0 59) of
          (Some h, Some m) \<Rightarrow>
            (if s ! 3 = CHR '':'' \<and> s ! 0 = CHR ''-'' then Some (- int (h * 60 + m))
             else if s ! 3 = CHR '':'' \<and> s ! 0 = CHR ''+'' then Some (int (h * 60 + m))
             else None)
        | _ \<Rightarrow> None)"

definition read_time :: "string \<Rightarrow> gotime option" where
  "read_time s =
     (if length s < 19 then None
      else case (read_date (take 10 s), read_clock (take 8 (drop 11 s)), read_frac (drop 19 s)) of
          (Some day, Some clk, (ns, rest)) \<Rightarrow>
            (if s ! 10 \<noteq> CHR ''T'' then None
             else case read_zone rest of
                 None \<Rightarrow> None
               | Some z \<Rightarrow> Some \<lparr>t_ns = ((int day - 366) * 86400 + int clk - 60 * z) * 10 ^ 9 + int ns, t_zone = z\<rparr>)
        | _ \<Rightarrow> None)"

section \<open>The calendar is consistent\<close>

lemma find_year_spec:
  "find_year y d = (y', d') \<Longrightarrow> days_before_year y + d = days_before_year y' + d' \<and> d' < year_len y'"
proof (induction y d rule: find_year.induct)
  case (1 y d)
  show ?case
  proof (cases "d < year_len y")
    case True
    with "1.prems" show ?thesis by (simp add: find_year.simps)
  next
    case False
    with "1.prems" have "find_year (Suc y) (d - year_len y) = (y', d')" by (simp add: find_year.simps [of y d])
    from "1.IH" [OF False this] False show ?thesis by simp
  qed
qed

lemma find_month_spec:
  "find_month ls d = (m, r) \<Longrightarrow> d < sum_list ls \<Longrightarrow> m < length ls \<and> r < ls ! m \<and> sum_list (take m ls) + r = d"
  by (induction ls d arbitrary: m rule: find_month.induct) (fastforce split: if_splits prod.splits)+

lemma sum_month_lens: "sum_list (month_lens y) = year_len y"
  by (simp add: month_lens_def year_len_def)

lemma month_lens_bound: "m < 12 \<Longrightarrow> month_lens y ! m \<le> 31"
proof -
  have "\<forall>l \<in> set (month_lens y). l \<le> 31" by (simp add: month_lens_def)
  then show "m < 12 \<Longrightarrow> ?thesis" using nth_mem [of m "month_lens y"] by (auto simp: month_lens_def)
qed

section \<open>Digits\<close>

lemma length_pad [simp]: "length (pad n v) = n"
  by (induction n) simp_all

lemma digits_pad: "digits_value acc (pad n v) = Some (acc * 10 ^ n + v mod 10 ^ n)"
proof (induction n arbitrary: acc)
  case (Suc n)
  have "v mod 10 ^ Suc n = (v div 10 ^ n mod 10) * 10 ^ n + v mod 10 ^ n"
    using mod_mult2_eq [of v "10 ^ n" 10] by (simp add: mult.commute)
  with Suc show ?case by (simp add: algebra_simps)
qed simp

lemma field_pad: "v < 10 ^ n \<Longrightarrow> lo \<le> v \<Longrightarrow> v \<le> hi \<Longrightarrow> field (pad n v) lo hi = Some v"
  by (simp add: field_def digits_pad)

lemma pad_digits: "c \<in> set (pad n v) \<Longrightarrow> is_digit_char c"
  by (induction n) (auto simp: is_digit_char_def)

lemma strip_zeros:
  "take (length s) (rev (dropWhile (\<lambda>c. c = CHR ''0'') (rev s)) @ replicate (length s) (CHR ''0'')) = s"
proof (induction s rule: rev_induct)
  case (snoc c s)
  show ?case
  proof (cases "c = CHR ''0''")
    case True
    let ?t = "rev (dropWhile (\<lambda>c. c = CHR ''0'') (rev s))"
    have "length ?t \<le> length s" using length_dropWhile_le [of "\<lambda>c. c = CHR ''0''" "rev s"] by simp
    then obtain k where k: "length s = length ?t + k" using le_Suc_ex by blast
    have s: "?t @ replicate k (CHR ''0'') = s" using snoc k by simp
    have "take (Suc (length s)) (?t @ replicate (Suc (length s)) (CHR ''0'')) = ?t @ replicate (Suc k) (CHR ''0'')"
      using k by simp
    also have "\<dots> = (?t @ replicate k (CHR ''0'')) @ ''0''" by (simp add: replicate_append_same [symmetric])
    also have "\<dots> = s @ ''0''" by (simp only: s)
    finally show ?thesis using True by simp
  qed simp
qed simp

lemma strip_ne: "(\<exists>c \<in> set s. c \<noteq> CHR ''0'') \<Longrightarrow> rev (dropWhile (\<lambda>c. c = CHR ''0'') (rev s)) \<noteq> []"
  by (auto simp: dropWhile_eq_Nil_conv)

lemma pad_nonzero: "v < 10 ^ n \<Longrightarrow> v \<noteq> 0 \<Longrightarrow> \<exists>c \<in> set (pad n v). c \<noteq> CHR ''0''"
proof (rule ccontr)
  assume v: "v < 10 ^ n" "v \<noteq> 0" "\<not> (\<exists>c \<in> set (pad n v). c \<noteq> CHR ''0'')"
  have "digits_value 0 (replicate k (CHR ''0'')) = Some 0" for k
    by (induction k) (simp_all add: digit_value_def)
  moreover have "pad n v = replicate n (CHR ''0'')" using v(3) by (intro replicate_eqI) auto
  ultimately show False using digits_pad [of 0 n v] v(1,2) by simp
qed

definition ends_digits :: "string \<Rightarrow> bool" where
  "ends_digits r \<longleftrightarrow> (case r of [] \<Rightarrow> True | c # _ \<Rightarrow> \<not> is_digit_char c \<and> c \<noteq> CHR ''.'')"

lemma read_frac_text:
  assumes "n < 10 ^ 9" "ends_digits r"
  shows "read_frac (frac_text n @ r) = (n, r)"
proof (cases "n = 0")
  case True
  with assms(2) show ?thesis by (auto simp: frac_text_def read_frac_def ends_digits_def split: list.splits)
next
  case False
  let ?t = "rev (dropWhile (\<lambda>c. c = CHR ''0'') (rev (pad 9 n)))"
  have "\<forall>c \<in> set ?t. is_digit_char c" using pad_digits set_dropWhileD by fastforce
  then have tw: "takeWhile is_digit_char (?t @ r) = ?t"
    using assms(2) by (subst takeWhile_append2) (auto simp: ends_digits_def split: list.splits)
  have "?t \<noteq> []" by (rule strip_ne [OF pad_nonzero [OF assms(1) False]])
  moreover have "digits_value 0 (take 9 (?t @ replicate 9 (CHR ''0''))) = Some n"
    using strip_zeros [of "pad 9 n"] digits_pad [of 0 9 n] assms(1) by simp
  ultimately show ?thesis using False by (simp add: frac_text_def read_frac_def tw Let_def del: rev_is_Nil_conv take_append)
qed

section \<open>Written and read\<close>

lemma read_zone_text:
  assumes "\<bar>z\<bar> < 1440"
  shows "read_zone (zone_text z) = Some z"
proof -
  have b: "nat \<bar>z\<bar> div 60 < 24" "nat \<bar>z\<bar> mod 60 < 60" using assms by (auto simp: less_mult_imp_div_less)
  have f: "field (pad 2 (nat \<bar>z\<bar> div 60)) 0 23 = Some (nat \<bar>z\<bar> div 60)" "field (pad 2 (nat \<bar>z\<bar> mod 60)) 0 59 = Some (nat \<bar>z\<bar> mod 60)"
    using b by (auto intro!: field_pad)
  have "int (nat \<bar>z\<bar> div 60 * 60 + nat \<bar>z\<bar> mod 60) = \<bar>z\<bar>" by (simp only: div_mult_mod_eq)
  with f show ?thesis
    by (auto simp: read_zone_def zone_text_def nth_append numeral_2_eq_2 [symmetric] simp del: pad.simps)
qed

lemma read_clock_text:
  assumes "s < 86400"
  shows "read_clock (clock_text s) = Some s"
proof -
  have b: "s div 3600 < 24" "s div 60 mod 60 < 60" "s mod 60 < 60" using assms by (auto simp: less_mult_imp_div_less)
  have f: "field (pad 2 (s div 3600)) 0 23 = Some (s div 3600)" "field (pad 2 (s div 60 mod 60)) 0 59 = Some (s div 60 mod 60)"
    "field (pad 2 (s mod 60)) 0 59 = Some (s mod 60)"
    using b by (auto intro!: field_pad)
  have regroup: "a = b \<Longrightarrow> a * 3600 + c * 60 + d = (b * 60 + c) * 60 + d" for a b c d :: nat by simp
  have "s div 3600 = s div 60 div 60" by (simp add: div_mult2_eq [of s 60 60, simplified])
  then have "s div 3600 * 3600 + s div 60 mod 60 * 60 + s mod 60 = (s div 60 div 60 * 60 + s div 60 mod 60) * 60 + s mod 60" by (rule regroup)
  also have "\<dots> = s" by (simp only: div_mult_mod_eq)
  finally have "s div 3600 * 3600 + s div 60 mod 60 * 60 + s mod 60 = s" .
  with f show ?thesis by (simp add: read_clock_def clock_text_def nth_append)
qed

lemma read_date_text:
  assumes "y \<le> 9999" "yd < year_len y"
  shows "read_date (date_text y yd) = Some (days_before_year y + yd)"
proof -
  obtain m d where md: "find_month (month_lens y) yd = (m, d)" by fastforce
  from find_month_spec [OF md] assms(2) have s: "m < 12" "d < month_lens y ! m" "sum_list (take m (month_lens y)) + d = yd"
    by (auto simp: sum_month_lens) (simp add: month_lens_def)
  have f: "field (pad 4 y) 0 9999 = Some y" "field (pad 2 (Suc m)) 1 12 = Some (Suc m)"
    "field (pad 2 (Suc d)) 1 (month_lens y ! m) = Some (Suc d)"
    using assms(1) s month_lens_bound [of m y] by (auto intro!: field_pad)
  with s show ?thesis by (simp add: read_date_def date_text_def md nth_append)
qed

lemma length_texts [simp]: "length (date_text y yd) = 10" "length (clock_text n) = 8"
  by (simp_all add: date_text_def clock_text_def split: prod.splits)

lemma ends_zone_text: "ends_digits (zone_text z)"
  by (simp add: zone_text_def ends_digits_def is_digit_char_def digit_value_def)

lemma Time_text_read:
  assumes "Time_text t = Some s"
  shows "read_time s = Some t"
proof -
  define secs where "secs = t_ns t div 10 ^ 9 + 60 * t_zone t"
  define day where "day = secs div 86400 + 366"
  obtain y yd where y: "find_year 0 (nat day) = (y, yd)" by fastforce
  let ?clk = "nat (secs mod 86400)" and ?ns = "nat (t_ns t mod 10 ^ 9)"
  from assms y have d: "0 \<le> day" and z: "\<bar>t_zone t\<bar> < 1440" and y4: "y \<le> 9999"
    and s: "s = date_text y yd @ ''T'' @ clock_text ?clk @ frac_text ?ns @ zone_text (t_zone t)"
    by (auto simp: Time_text_def Let_def secs_def day_def split: if_splits)
  from find_year_spec [OF y] have yd: "yd < year_len y" "days_before_year y + yd = nat day" by auto
  have "read_date (date_text y yd) = Some (nat day)" using read_date_text [OF y4 yd(1)] yd(2) by simp
  moreover have "read_clock (clock_text ?clk) = Some ?clk" by (rule read_clock_text) simp
  moreover have "read_frac (frac_text ?ns @ zone_text (t_zone t)) = (?ns, zone_text (t_zone t))"
    by (rule read_frac_text) (simp_all add: ends_zone_text nat_less_iff)
  moreover have "((int (nat day) - 366) * 86400 + int ?clk - 60 * t_zone t) * 10 ^ 9 + int ?ns = t_ns t"
  proof -
    have "(int (nat day) - 366) * 86400 + int ?clk = secs" using d by (simp add: day_def)
    then have "((int (nat day) - 366) * 86400 + int ?clk - 60 * t_zone t) = t_ns t div 10 ^ 9" by (simp add: secs_def)
    then show ?thesis by (simp only:) simp
  qed
  moreover have "read_zone (zone_text (t_zone t)) = Some (t_zone t)" by (rule read_zone_text [OF z])
  ultimately show ?thesis unfolding s read_time_def by (simp add: nth_append)
qed

text \<open>The text has none of the characters JSON escapes.\<close>

lemma Time_text_chars:
  assumes "Time_text t = Some s" "c \<in> set s"
  shows "is_digit_char c \<or> c \<in> set ''-T:.Z+''"
proof -
  let ?D = "{c. is_digit_char c \<or> c \<in> set ''-T:.Z+''}"
  have p: "set (pad n v) \<subseteq> ?D" for n v using pad_digits by blast
  have "set (date_text y yd) \<subseteq> ?D" for y yd using p by (auto simp: date_text_def split: prod.splits)
  moreover have "set (clock_text n) \<subseteq> ?D" for n using p by (auto simp: clock_text_def)
  moreover have "set (frac_text n) \<subseteq> ?D" for n using p [of 9 n] set_dropWhileD [of _ _ "rev (pad 9 n)"] by (auto simp: frac_text_def)
  moreover have "set (zone_text z) \<subseteq> ?D" for z using p by (auto simp: zone_text_def)
  moreover obtain y yd n m z where "s = date_text y yd @ ''T'' @ clock_text n @ frac_text m @ zone_text z"
    using assms(1) by (auto simp: Time_text_def Let_def split: if_splits prod.splits)
  ultimately have "set s \<subseteq> ?D" by (simp add: Un_subset_iff)
  with assms(2) show ?thesis by blast
qed

text \<open>Every instant between the years 0 and 9999 that is shown in UTC has a text.\<close>

lemma days_before_mono: "y \<le> y' \<Longrightarrow> days_before_year y \<le> days_before_year y'"
  by (induction rule: dec_induct) auto

lemma days_before_10000: "365 * y \<le> days_before_year y"
  by (induction y) (auto simp: year_len_def)

lemma Time_text_UTC:
  assumes "t_zone t = 0" "- 366 * 86400 * 10 ^ 9 \<le> t_ns t" "t_ns t < 3649634 * 86400 * 10 ^ 9"
  shows "\<exists>s. Time_text t = Some s"
proof -
  obtain y yd where y: "find_year 0 (nat (t_ns t div 10 ^ 9 div 86400 + 366)) = (y, yd)" by fastforce
  have d: "- 366 \<le> t_ns t div 10 ^ 9 div 86400" "t_ns t div 10 ^ 9 div 86400 < 3649634" 
  proof -
    have k: "t_ns t div 10 ^ 9 div 86400 = t_ns t div 86400000000000" by (simp add: zdiv_zmult2_eq [symmetric])
    show "- 366 \<le> t_ns t div 10 ^ 9 div 86400" using zdiv_mono1 [of "- 366 * 86400000000000" "t_ns t" 86400000000000] assms(2) k by simp
    show "t_ns t div 10 ^ 9 div 86400 < 3649634" using zdiv_mono1 [of "t_ns t" "3649634 * 86400000000000 - 1" 86400000000000] assms(3) k by simp
  qed
  from find_year_spec [OF y] have "days_before_year y \<le> nat (t_ns t div 10 ^ 9 div 86400 + 366)" by simp
  with days_before_10000 [of y] have "365 * y < 3650000" using d by linarith
  then have "y \<le> 9999" by simp
  with d y assms(1) show ?thesis by (simp add: Time_text_def Let_def)
qed

end
