(* ===== verification/Sidecar.thy ===== *)
theory Sidecar
  imports Go_Time Pack_Index Fs_Contract Cas_Verify
begin

text \<open>
  The checksum sidecar (\<open>src/cas/verify/sidecar\<close>): a decorator of a backend that keeps, for each object, a JSON record with a cheap
  checksum of the stored bytes in \<open><base>/.meta\<close>, and a verifier that compares objects with their records.

  The state is the file tree, which the decorated backend may extend; \<open>sidecar\<close> holds the fields of the Go struct. The decorator sees
  through \<open>eofReader\<close> whether the inner \<open>Put\<close> read its stream to the end, which a backend does not answer: \<open>sc_reads\<close> is a parameter. A hasher
  digests everything readable, as its interface documents, so the count of the bytes read through it is the length of the content. The random
  numbers of \<open>os.CreateTemp\<close> are an argument.

  A time in a record is read from what its JSON string denotes; \<open>Time.UnmarshalJSON\<close> refuses one that is spelled with escapes, which no
  writer produces.
\<close>

section \<open>Records\<close>

definition ErrChecksumAlgorithm :: err where
  "ErrChecksumAlgorithm = ErrorsNew ''sidecar: checksum algorithm mismatch''"

definition ErrUnrecorded :: err where
  "ErrUnrecorded = Errorf ''sidecar: object has no checksum record'' [ErrNotFound]"

definition ErrRecordTooLarge :: err where
  "ErrRecordTooLarge = ErrorsNew ''sidecar: record exceeds the read cap''"

definition RecordVersion :: int where
  "RecordVersion = 1"

record Record =
  rec_Version :: int
  rec_Digest :: digest
  rec_Type :: string
  rec_Codec :: string
  rec_ChecksumAlgo :: string
  rec_Checksum :: digest
  rec_Size :: int
  rec_CreatedAt :: gotime

definition Record_validate :: "Record \<Rightarrow> err option" where
  "Record_validate r =
     (if rec_Version r \<noteq> RecordVersion then Some (ErrorsNew ''record version'')
      else if IsZero (rec_Digest r) then Some (ErrorsNew ''record has no digest'')
      else if rec_ChecksumAlgo r = '''' then Some (ErrorsNew ''record has no checksum algorithm'')
      else if IsZero (rec_Checksum r) then Some (ErrorsNew ''record has no checksum'')
      else if rec_Size r < 0 then Some (ErrorsNew ''record has negative size'')
      else if Time_IsZero (rec_CreatedAt r) then Some (ErrorsNew ''record has no creation time'')
      else None)"

definition optional :: "string \<Rightarrow> string \<Rightarrow> (string \<times> json) list" where
  "optional name v = (if v = '''' then [] else [(name, JStr v)])"

definition Record_json :: "Record \<Rightarrow> string \<Rightarrow> json" where
  "Record_json r created = JObj
     ([(''version'', JNum (Itoa (rec_Version r))), (''digest'', JStr (Digest_String (rec_Digest r)))] @
      optional ''type'' (rec_Type r) @ optional ''codec'' (rec_Codec r) @
      [(''checksum_algo'', JStr (rec_ChecksumAlgo r)), (''checksum'', JStr (Digest_String (rec_Checksum r))),
       (''size'', JNum (Itoa (rec_Size r))), (''created_at'', JStr created)])"

definition Record_encode :: "Record \<Rightarrow> bytes result" where
  "Record_encode r =
     (case Time_text (rec_CreatedAt r) of
        None \<Rightarrow> Inl (Errorf ''sidecar: encode record'' [ErrorsNew ''Time.MarshalJSON: year outside of range [0,9999]''])
      | Some created \<Rightarrow> Inr (json_Marshal (Record_json r created)))"

text \<open>
  \<open>json.Unmarshal\<close> into the struct, as for the manifest of the packed backend; \<open>null\<close> empties a digest, which is a slice, and leaves the
  other fields.
\<close>

definition set_digest :: "json \<Rightarrow> digest option" where
  "set_digest v =
     (case v of
        JStr x \<Rightarrow> (case UnmarshalText (bytes_of x) of Inl _ \<Rightarrow> None | Inr d \<Rightarrow> Some d)
      | JNull \<Rightarrow> Some []
      | _ \<Rightarrow> None)"

definition set_time :: "json \<Rightarrow> gotime \<Rightarrow> gotime option" where
  "set_time v old = (case v of JStr x \<Rightarrow> read_time x | JNull \<Rightarrow> Some old | _ \<Rightarrow> None)"

definition set_field :: "string \<Rightarrow> json \<Rightarrow> Record \<Rightarrow> Record option" where
  "set_field k v r =
     (if field_is k ''version'' then map_option (\<lambda>x. r\<lparr>rec_Version := x\<rparr>) (set_int v (rec_Version r))
      else if field_is k ''digest'' then map_option (\<lambda>x. r\<lparr>rec_Digest := x\<rparr>) (set_digest v)
      else if field_is k ''type'' then map_option (\<lambda>x. r\<lparr>rec_Type := x\<rparr>) (set_string v (rec_Type r))
      else if field_is k ''codec'' then map_option (\<lambda>x. r\<lparr>rec_Codec := x\<rparr>) (set_string v (rec_Codec r))
      else if field_is k ''checksum_algo'' then map_option (\<lambda>x. r\<lparr>rec_ChecksumAlgo := x\<rparr>) (set_string v (rec_ChecksumAlgo r))
      else if field_is k ''checksum'' then map_option (\<lambda>x. r\<lparr>rec_Checksum := x\<rparr>) (set_digest v)
      else if field_is k ''size'' then map_option (\<lambda>x. r\<lparr>rec_Size := x\<rparr>) (set_int v (rec_Size r))
      else if field_is k ''created_at'' then map_option (\<lambda>x. r\<lparr>rec_CreatedAt := x\<rparr>) (set_time v (rec_CreatedAt r))
      else Some r)"

fun set_fields :: "(string \<times> json) list \<Rightarrow> Record \<Rightarrow> Record option" where
  "set_fields [] r = Some r"
| "set_fields ((k, v) # ms) r = (case set_field k v r of None \<Rightarrow> None | Some r' \<Rightarrow> set_fields ms r')"

definition empty_Record :: Record where
  "empty_Record = \<lparr>rec_Version = 0, rec_Digest = [], rec_Type = '''', rec_Codec = '''', rec_ChecksumAlgo = '''',
     rec_Checksum = [], rec_Size = 0, rec_CreatedAt = \<lparr>t_ns = 0, t_zone = 0\<rparr>\<rparr>"

definition decodeRecord :: "bytes \<Rightarrow> Record result" where
  "decodeRecord b =
     (case (case json_Parse b of Some (JObj ms) \<Rightarrow> set_fields ms empty_Record | Some JNull \<Rightarrow> Some empty_Record | _ \<Rightarrow> None) of
        None \<Rightarrow> Inl (Errorf ''sidecar: decode record'' [ErrCorrupt])
      | Some r \<Rightarrow> (case Record_validate r of Some e \<Rightarrow> Inl (Errorf ''sidecar'' [ErrCorrupt, e]) | None \<Rightarrow> Inr r))"

section \<open>The decorator\<close>

record config =
  cfg_base :: string
  cfg_algo :: string
  cfg_hasher :: "hasher option"
  cfg_dirSync :: bool
  cfg_maxRecordBytes :: int

definition DefaultMaxRecordBytes :: int where
  "DefaultMaxRecordBytes = 4096"

definition WithBase :: "string \<Rightarrow> config \<Rightarrow> config" where
  "WithBase p c = c\<lparr>cfg_base := p\<rparr>"

definition WithChecksum :: "string \<Rightarrow> hasher option \<Rightarrow> config \<Rightarrow> config" where
  "WithChecksum algo h c = c\<lparr>cfg_algo := algo, cfg_hasher := h\<rparr>"

definition WithDirSync :: "config \<Rightarrow> config" where
  "WithDirSync c = c\<lparr>cfg_dirSync := True\<rparr>"

definition WithMaxRecordBytes :: "int \<Rightarrow> config \<Rightarrow> config" where
  "WithMaxRecordBytes n c = (if n > 0 then c\<lparr>cfg_maxRecordBytes := n\<rparr> else c)"

text \<open>The base path the inner backend reports, where it implements \<open>basePathReporter\<close>, is the first argument.\<close>

definition resolveBase :: "string option \<Rightarrow> config \<Rightarrow> string result" where
  "resolveBase reporter c =
     (case reporter of
        None \<Rightarrow>
          (if cfg_base c = '''' then Inl (ErrorsNew ''sidecar: WithBase is required for a backend that does not report a base path'')
           else Inr (filepath_Clean (cfg_base c)))
      | Some p \<Rightarrow>
          (let reported = filepath_Clean p in
           if cfg_base c = '''' then Inr reported
           else if filepath_Clean (cfg_base c) \<noteq> reported then Inl (ErrorsNew ''sidecar: base does not match the backend's base'')
           else Inr reported))"

record 'z sidecar =
  sc_inner :: "'z osfs_scheme backend"
  sc_reads :: "digest \<Rightarrow> reader \<Rightarrow> 'z osfs_scheme env \<Rightarrow> bool"
  sc_base :: string
  metaDir :: path
  sc_algo :: string
  sc_hasher :: "hasher option"
  sc_dirSync :: bool
  maxRecordBytes :: int

definition metaDirName :: string where
  "metaDirName = ''.meta''"

definition recordSuffix :: string where
  "recordSuffix = ''.json''"

definition defaultPrefixBytes :: nat where
  "defaultPrefixBytes = 4096"

definition sidecar_New ::
  "'z osfs_scheme backend option \<Rightarrow> (digest \<Rightarrow> reader \<Rightarrow> 'z osfs_scheme env \<Rightarrow> bool) \<Rightarrow> string option \<Rightarrow> (config \<Rightarrow> config) option list \<Rightarrow>
    'z sidecar result" where
  "sidecar_New inner reads reporter options =
     (case inner of
        None \<Rightarrow> Inl (ErrorsNew ''sidecar: nil backend'')
      | Some be \<Rightarrow>
          (let cfg = fold (\<lambda>opt c. case opt of None \<Rightarrow> c | Some f \<Rightarrow> f c) options
                 \<lparr>cfg_base = '''', cfg_algo = '''', cfg_hasher = None, cfg_dirSync = False, cfg_maxRecordBytes = DefaultMaxRecordBytes\<rparr> in
           if (cfg_hasher cfg = None) \<noteq> (cfg_algo cfg = '''')
           then Inl (ErrorsNew ''sidecar: WithChecksum needs both an algorithm name and a hasher'')
           else case resolveBase reporter cfg of
               Inl e \<Rightarrow> Inl e
             | Inr b \<Rightarrow> Inr \<lparr>sc_inner = be, sc_reads = reads, sc_base = b, metaDir = path_parts b @ [metaDirName], sc_algo = cfg_algo cfg,
                   sc_hasher = cfg_hasher cfg, sc_dirSync = cfg_dirSync cfg, maxRecordBytes = cfg_maxRecordBytes cfg\<rparr>))"

definition BasePath :: "'z sidecar \<Rightarrow> string" where
  "BasePath b = sc_base b"

definition recordPath :: "'z sidecar \<Rightarrow> digest \<Rightarrow> path" where
  "recordPath b d = metaDir b @ [Digest_String d @ recordSuffix]"

text \<open>No record, a usable record, or damage. The read cap is added up on 64 bits.\<close>

definition readRecord :: "'z sidecar \<Rightarrow> digest \<Rightarrow> ('z osfs_scheme, Record option) act" where
  "readRecord b d =
     bnd (attempt (os_OpenRead (recordPath b d))) (\<lambda>f.
       case f of
         Inl e \<Rightarrow> if errors_Is e ErrNotExist then ret None else fail (Errorf ''sidecar: open record'' [ErrCorrupt, e])
       | Inr rc \<Rightarrow>
           (case io_ReadAll (io_LimitReader (reader.truncate rc) (wrap64 (maxRecordBytes b + 1))) of
              Inl e \<Rightarrow> fail (Errorf ''sidecar: read record'' [ErrCorrupt, e])
            | Inr data \<Rightarrow>
                (if int (length data) > maxRecordBytes b then fail (Errorf ''sidecar: record exceeds the cap'' [ErrCorrupt])
                 else case decodeRecord data of
                     Inl e \<Rightarrow> fail e
                   | Inr r \<Rightarrow>
                       if \<not> Digest_Equal (rec_Digest r) d then fail (Errorf ''sidecar: record names another digest'' [ErrCorrupt])
                       else ret (Some r))))"

definition encodeRecord :: "'z sidecar \<Rightarrow> Record \<Rightarrow> bytes result" where
  "encodeRecord b r =
     (case Record_encode r of
        Inl e \<Rightarrow> Inl e
      | Inr data \<Rightarrow>
          if int (length data) \<le> maxRecordBytes b then Inr data
          else (case Record_encode (r\<lparr>rec_Type := '''', rec_Codec := ''''\<rparr>) of
              Inl e \<Rightarrow> Inl e
            | Inr data' \<Rightarrow>
                if int (length data') > maxRecordBytes b then Inl (Errorf ''sidecar: record over the cap'' [ErrRecordTooLarge])
                else Inr data'))"

text \<open>\<open>os.CreateTemp\<close> with the pattern \<open><hex>.*.tmp\<close> and \<open>File.Chmod\<close>, whose mode is not modelled.\<close>

fun record_temp :: "nat \<Rightarrow> nat list \<Rightarrow> path \<Rightarrow> string \<Rightarrow> ('z osfs_scheme, path) act" where
  "record_temp 0 rs dir hex = fail ErrExist"
| "record_temp (Suc n) rs dir hex =
     (let p = dir @ [hex @ ''.'' @ dec (case rs of [] \<Rightarrow> 0 | x # _ \<Rightarrow> x) @ ''.tmp''] in
      catch (bnd (os_OpenExcl p) (\<lambda>_. ret p))
        (\<lambda>e. if errors_Is e ErrExist then record_temp n (drop 1 rs) dir hex else fail e))"

definition os_Chmod :: "path \<Rightarrow> ('z osfs_scheme, unit) act" where
  "os_Chmod p = syscall (\<lambda>s. (Inr (), s))"

definition syncDir :: "path \<Rightarrow> ('z osfs_scheme, unit) act" where
  "syncDir p =
     bnd (wrapping ''sidecar: open record directory'' (os_OpenRead p)) (\<lambda>_.
     bnd (or_else (wrapping ''sidecar: sync record directory'' (os_Sync p)) (ignore (os_Close p))) (\<lambda>_.
       ignore (os_Close p)))"

text \<open>The temporary file, filled and closed, discarded on every failure; then its rename into place.\<close>

definition fill_record :: "nat list \<Rightarrow> 'z sidecar \<Rightarrow> Record \<Rightarrow> bytes \<Rightarrow> ('z osfs_scheme, path) act" where
  "fill_record rs b r data =
     bnd (wrapping ''sidecar: create record directory'' (os_MkdirAll (metaDir b))) (\<lambda>_.
     bnd (wrapping ''sidecar: create record temp'' (record_temp 10000 rs (metaDir b) (Digest_String (rec_Digest r)))) (\<lambda>tmp.
     bnd (or_else (wrapping ''sidecar: set record permissions'' (os_Chmod tmp)) (discard tmp)) (\<lambda>_.
     bnd (or_else (wrapping ''sidecar: write record'' (os_Write tmp data)) (discard tmp)) (\<lambda>_.
     bnd (or_else (wrapping ''sidecar: sync record'' (os_Sync tmp)) (discard tmp)) (\<lambda>_.
     bnd (or_else (wrapping ''sidecar: close record'' (os_Close tmp)) (ignore (os_Remove tmp))) (\<lambda>_. ret tmp))))))"

definition writeRecord :: "nat list \<Rightarrow> 'z sidecar \<Rightarrow> Record \<Rightarrow> ('z osfs_scheme, unit) act" where
  "writeRecord rs b r =
     bnd ctx_Err (\<lambda>_.
     bnd (of_result (encodeRecord b r)) (\<lambda>data.
     bnd (fill_record rs b r data) (\<lambda>tmp.
     bnd (or_else (wrapping ''sidecar: publish record'' (os_Rename tmp (recordPath b (rec_Digest r)))) (ignore (os_Remove tmp))) (\<lambda>_.
       if \<not> sc_dirSync b then ret () else syncDir (metaDir b)))))"

definition envelopeType :: "bytes \<Rightarrow> string" where
  "envelopeType prefix =
     (case EnvelopeFromBytes prefix of
        Inr env \<Rightarrow> env_Type env
      | Inl _ \<Rightarrow> (case EnvelopeType prefix of Inr name \<Rightarrow> name | Inl _ \<Rightarrow> ''''))"

definition envelopeCodec :: "bytes \<Rightarrow> string" where
  "envelopeCodec prefix = (case EnvelopeFromBytes prefix of Inr env \<Rightarrow> env_Codec env | Inl _ \<Rightarrow> '''')"

definition prefixReader :: "'z reader_scheme \<Rightarrow> reader" where
  "prefixReader r = \<lparr>r_chunks = r_chunks r, r_err = r_err r, r_len = None\<rparr>"

definition storedChecksum :: "'z sidecar \<Rightarrow> hasher \<Rightarrow> digest \<Rightarrow> ('z osfs_scheme, digest \<times> int \<times> bytes) act" where
  "storedChecksum b h d =
     bnd (b_Get (sc_inner b) d) (\<lambda>rc.
     bnd (of_result (readThenClose rc (\<lambda>r. h_Digest h (prefixReader r)) readWins
            (Some (wrap ''sidecar: checksum'')) (Some (wrap ''sidecar: checksum: close'')))) (\<lambda>hsum.
       ret (hsum, int (length (r_data rc)), take defaultPrefixBytes (r_data rc))))"

text \<open>The inner put through the \<open>eofReader\<close>, which hides a \<open>Len\<close> method: what the wrapper has seen when the put succeeds.\<close>

definition put_through :: "'z sidecar \<Rightarrow> digest \<Rightarrow> reader \<Rightarrow> ('z osfs_scheme, bool) act" where
  "put_through b d r w = bnd (b_Put (sc_inner b) d (r\<lparr>r_len := None\<rparr>)) (\<lambda>_. ret (sc_reads b d r w)) w"

definition sidecar_Put :: "nat list \<Rightarrow> 'z sidecar \<Rightarrow> digest \<Rightarrow> reader option \<Rightarrow> ('z osfs_scheme, unit) act" where
  "sidecar_Put rs b d ro =
     bnd ctx_Err (\<lambda>_.
     bnd (when_err (CheckDigest d ''sidecar: put'')) (\<lambda>_.
       case ro of None \<Rightarrow> fail (ErrorsNew ''sidecar: put: nil reader'') | Some r \<Rightarrow>
       case sc_hasher b of None \<Rightarrow> b_Put (sc_inner b) d r | Some h \<Rightarrow>
       bnd (attempt (readRecord b d)) (\<lambda>x.
         (let existing = (case x of Inl _ \<Rightarrow> None | Inr y \<Rightarrow> y) in
          if (case existing of Some y \<Rightarrow> rec_ChecksumAlgo y = sc_algo b | None \<Rightarrow> False) then b_Put (sc_inner b) d r
          else
            bnd (put_through b d r) (\<lambda>eof.
              if \<not> eof then fail (ErrorsNew ''sidecar: put: the backend returned before reading the object to EOF; no record written'')
              else
                bnd (storedChecksum b h d) (\<lambda>(hsum, size, prefix).
                bnd time_now (\<lambda>now.
                  writeRecord rs b
                    \<lparr>rec_Version = RecordVersion, rec_Digest = d, rec_Type = envelopeType prefix, rec_Codec = envelopeCodec prefix,
                     rec_ChecksumAlgo = sc_algo b, rec_Checksum = hsum, rec_Size = size,
                     rec_CreatedAt = (case existing of Some y \<Rightarrow> rec_CreatedAt y | None \<Rightarrow> time_Unix now)\<rparr>)))))))"

definition sidecar_Get :: "'z sidecar \<Rightarrow> digest \<Rightarrow> ('z osfs_scheme, readcloser) act" where
  "sidecar_Get b d = b_Get (sc_inner b) d"

definition sidecar_Exists :: "'z sidecar \<Rightarrow> digest \<Rightarrow> ('z osfs_scheme, bool) act" where
  "sidecar_Exists b d = b_Exists (sc_inner b) d"

definition remove_record :: "string \<Rightarrow> 'z sidecar \<Rightarrow> digest \<Rightarrow> ('z osfs_scheme, unit) act" where
  "remove_record msg b d =
     catch (os_Remove (recordPath b d)) (\<lambda>e. if errors_Is e ErrNotExist then ret () else fail (Errorf msg [e]))"

definition sidecar_Delete :: "'z sidecar \<Rightarrow> digest \<Rightarrow> ('z osfs_scheme, unit) act" where
  "sidecar_Delete b d =
     bnd ctx_Err (\<lambda>_.
     bnd (when_err (CheckDigest d ''sidecar: delete'')) (\<lambda>_.
     bnd (b_Delete (sc_inner b) d) (\<lambda>_. remove_record ''sidecar: delete record'' b d)))"

definition sidecar_List :: "'z sidecar \<Rightarrow> ('z osfs_scheme, digest list) act" where
  "sidecar_List b = b_List (sc_inner b)"

definition sidecar_Stats :: "'z sidecar \<Rightarrow> ('z osfs_scheme, Stats) act" where
  "sidecar_Stats b = b_Stats (sc_inner b)"

definition sidecar_Load :: "'z sidecar \<Rightarrow> digest \<Rightarrow> ('z osfs_scheme, Record) act" where
  "sidecar_Load b d =
     bnd ctx_Err (\<lambda>_.
     bnd (when_err (CheckDigest d ''sidecar: load'')) (\<lambda>_.
     bnd (readRecord b d) (\<lambda>x. case x of None \<Rightarrow> fail (Errorf (Digest_String d) [ErrUnrecorded]) | Some r \<Rightarrow> ret r)))"

section \<open>Listing and reconciling\<close>

text \<open>\<open>os.ReadDir\<close>: the entries of a directory by name.\<close>

definition os_ReadDir :: "path \<Rightarrow> ('z osfs_scheme, (string \<times> node) list) act" where
  "os_ReadDir p =
     syscall (in_dir p (\<lambda>s. case node_at s p of
         None \<Rightarrow> (Inl ErrNotExist, s)
       | Some Dir \<Rightarrow> (Inr (sort_key fst (map (\<lambda>(q, n). (last q, n)) (filter (\<lambda>(q, _). length q = Suc (length p) \<and> take (length p) q = p) (nodes s)))), s)
       | Some (Link _) \<Rightarrow> follow_link s
       | Some _ \<Rightarrow> (Inl ENOTDIR, s)))"

fun classify :: "(string \<times> node) list \<Rightarrow> ('b, digest list \<times> string list) act" where
  "classify [] = ret ([], [])"
| "classify ((name, n) # es) =
     bnd ctx_Err (\<lambda>_.
       if n = Dir \<or> \<not> HasSuffix name recordSuffix then classify es
       else
         bnd (classify es) (\<lambda>(keys, foreign).
           case ParseDigest (take (length name - length recordSuffix) name) of
             Inl _ \<Rightarrow> ret (keys, name # foreign)
           | Inr d \<Rightarrow> ret (d # keys, foreign)))"

definition listRecords :: "'z sidecar \<Rightarrow> ('z osfs_scheme, digest list \<times> string list) act" where
  "listRecords b =
     bnd ctx_Err (\<lambda>_.
     bnd (attempt (os_ReadDir (metaDir b))) (\<lambda>x.
       case x of
         Inl e \<Rightarrow> if errors_Is e ErrNotExist then ret ([], []) else fail (Errorf ''sidecar: list records'' [e])
       | Inr es \<Rightarrow> bnd (classify es) (\<lambda>(keys, foreign). ret (sort_key Digest_String keys, sort foreign))))"

definition sidecar_Keys :: "'z sidecar \<Rightarrow> ('z osfs_scheme, digest list) act" where
  "sidecar_Keys b = bnd (listRecords b) (\<lambda>(keys, _). ret keys)"

record ReconcileReport =
  Records :: nat
  Removed :: "digest list"
  Unrecorded :: "digest list"
  Foreign :: "string list"

text \<open>A report comes with the error that ended the pass, if one did.\<close>

fun reconcile_loop :: "'z sidecar \<Rightarrow> digest list \<Rightarrow> ReconcileReport \<Rightarrow> ('z osfs_scheme, ReconcileReport \<times> err option) act" where
  "reconcile_loop b [] report = ret (report, None)"
| "reconcile_loop b (d # ds) report =
     bnd (attempt ctx_Err) (\<lambda>c. case c of Inl e \<Rightarrow> ret (report, Some e) | Inr _ \<Rightarrow>
     bnd (attempt (b_Exists (sc_inner b) d)) (\<lambda>x. case x of Inl e \<Rightarrow> ret (report, Some e) | Inr ex \<Rightarrow>
       if ex then reconcile_loop b ds report
       else
         bnd (attempt (remove_record ''sidecar: reconcile: remove record'' b d)) (\<lambda>y. case y of Inl e \<Rightarrow> ret (report, Some e) | Inr _ \<Rightarrow>
           reconcile_loop b ds (report\<lparr>Removed := Removed report @ [d]\<rparr>))))"

fun unrecorded_loop :: "digest list \<Rightarrow> digest list \<Rightarrow> ReconcileReport \<Rightarrow> ('b, ReconcileReport \<times> err option) act" where
  "unrecorded_loop keys [] report = ret (report, None)"
| "unrecorded_loop keys (d # ds) report =
     bnd (attempt ctx_Err) (\<lambda>c. case c of Inl e \<Rightarrow> ret (report, Some e) | Inr _ \<Rightarrow>
       unrecorded_loop keys ds
         (if Digest_String d \<in> Digest_String ` set keys then report else report\<lparr>Unrecorded := Unrecorded report @ [d]\<rparr>))"

definition Reconcile :: "'z sidecar \<Rightarrow> ('z osfs_scheme, ReconcileReport \<times> err option) act" where
  "Reconcile b =
     bnd ctx_Err (\<lambda>_.
     bnd (listRecords b) (\<lambda>(keys, foreign).
     bnd (reconcile_loop b keys \<lparr>Records = length keys, Removed = [], Unrecorded = [], Foreign = foreign\<rparr>) (\<lambda>(report, eo).
       case eo of Some e \<Rightarrow> ret (report, Some e) | None \<Rightarrow>
       bnd (attempt (b_List (sc_inner b))) (\<lambda>x. case x of Inl e \<Rightarrow> ret (report, Some e) | Inr digests \<Rightarrow>
         unrecorded_loop keys digests report))))"

section \<open>The verifier\<close>

record VerifyReport =
  vr_Checked :: nat
  vr_Bad :: "digest list"
  vr_Unreadable :: "digest list"
  vr_Unrecorded :: "digest list"

record 'z Verifier =
  vf_backend :: "'z sidecar option"
  vf_algo :: string
  vf_hasher :: "hasher option"

definition Backend_Verifier :: "'z sidecar \<Rightarrow> string \<Rightarrow> hasher option \<Rightarrow> 'z Verifier" where
  "Backend_Verifier b algo h = \<lparr>vf_backend = Some b, vf_algo = algo, vf_hasher = h\<rparr>"

definition verifyRecord :: "'z sidecar \<Rightarrow> string \<Rightarrow> hasher \<Rightarrow> Record \<Rightarrow> ('z osfs_scheme, unit) act" where
  "verifyRecord b algo h r =
     (if rec_ChecksumAlgo r \<noteq> algo then fail (Errorf ''record names another algorithm'' [ErrChecksumAlgorithm])
      else
        bnd (b_Get (sc_inner b) (rec_Digest r)) (\<lambda>rc.
        bnd (of_result (readThenClose rc (\<lambda>x. h_Digest h (prefixReader x)) readWins
               (Some (wrap ''sidecar: verify'')) (Some (wrap ''sidecar: verify: close'')))) (\<lambda>hsum.
          if int (length (r_data rc)) \<noteq> rec_Size r then fail (Errorf ''stored size'' [ErrCorrupt])
          else if \<not> Digest_Equal hsum (rec_Checksum r) then fail (Errorf ''checksum mismatch'' [ErrCorrupt])
          else ret ())))"

definition sidecar_Verify :: "'z Verifier \<Rightarrow> digest \<Rightarrow> ('z osfs_scheme, unit) act" where
  "sidecar_Verify v d =
     bnd ctx_Err (\<lambda>_.
       case vf_backend v of None \<Rightarrow> fail (ErrorsNew ''sidecar: verify: nil backend'') | Some b \<Rightarrow>
       bnd (when_err (CheckDigest d ''sidecar: verify'')) (\<lambda>_.
         case vf_hasher v of None \<Rightarrow> fail (ErrorsNew ''sidecar: verify: nil hasher'') | Some h \<Rightarrow>
         if vf_algo v = '''' then fail (ErrorsNew ''sidecar: verify: no checksum algorithm'')
         else
           bnd (readRecord b d) (\<lambda>x.
             case x of None \<Rightarrow> fail (Errorf (Digest_String d) [ErrUnrecorded]) | Some r \<Rightarrow> verifyRecord b (vf_algo v) h r)))"

fun sidecar_verify_loop ::
  "'z sidecar \<Rightarrow> string \<Rightarrow> hasher \<Rightarrow> digest list \<Rightarrow> VerifyReport \<Rightarrow> ('z osfs_scheme, VerifyReport \<times> err option) act" where
  "sidecar_verify_loop b algo h [] report = ret (report, None)"
| "sidecar_verify_loop b algo h (d # ds) report =
     bnd (attempt ctx_Err) (\<lambda>c. case c of Inl e \<Rightarrow> ret (report, Some e) | Inr _ \<Rightarrow>
     bnd (attempt (readRecord b d)) (\<lambda>x. case x of
         Inl e \<Rightarrow>
           if errors_Is e ErrCorrupt then sidecar_verify_loop b algo h ds (report\<lparr>vr_Unreadable := vr_Unreadable report @ [d]\<rparr>)
           else ret (report, Some e)
       | Inr None \<Rightarrow> sidecar_verify_loop b algo h ds (report\<lparr>vr_Unrecorded := vr_Unrecorded report @ [d]\<rparr>)
       | Inr (Some r) \<Rightarrow>
           (let report1 = report\<lparr>vr_Checked := Suc (vr_Checked report)\<rparr> in
            bnd (attempt (verifyRecord b algo h r)) (\<lambda>y. case y of
                Inr _ \<Rightarrow> sidecar_verify_loop b algo h ds report1
              | Inl e \<Rightarrow>
                  if errors_Is e ErrCorrupt then sidecar_verify_loop b algo h ds (report1\<lparr>vr_Bad := vr_Bad report1 @ [d]\<rparr>)
                  else ret (report1, Some (Errorf (''sidecar: verify all '' @ Digest_String d) [e]))))))"

definition sidecar_VerifyAll :: "'z Verifier \<Rightarrow> ('z osfs_scheme, VerifyReport \<times> err option) act" where
  "sidecar_VerifyAll v =
     bnd ctx_Err (\<lambda>_.
       case vf_backend v of None \<Rightarrow> fail (ErrorsNew ''sidecar: verify all: nil backend'') | Some b \<Rightarrow>
       case vf_hasher v of None \<Rightarrow> fail (ErrorsNew ''sidecar: verify all: nil hasher'') | Some h \<Rightarrow>
       if vf_algo v = '''' then fail (ErrorsNew ''sidecar: verify all: no checksum algorithm'')
       else
         bnd (b_List (sc_inner b)) (\<lambda>digests.
           sidecar_verify_loop b (vf_algo v) h digests \<lparr>vr_Checked = 0, vr_Bad = [], vr_Unreadable = [], vr_Unrecorded = []\<rparr>))"

end
