(* ===== verification/Sidecar_Records.thy ===== *)
theory Sidecar_Records
  imports Sidecar
begin

text \<open>
  What the sidecar's records promise: a record that is written is read back, whatever the read cap, and the write of one is atomic
  under every schedule of failures, crashes and cancellations.
\<close>

section \<open>Round trip\<close>

definition record_ok :: "Record \<Rightarrow> bool" where
  "record_ok r \<longleftrightarrow> rec_Version r = RecordVersion \<and> rec_Digest r \<noteq> [] \<and> rec_ChecksumAlgo r \<noteq> '''' \<and> rec_Checksum r \<noteq> [] \<and>
     0 \<le> rec_Size r \<and> rec_Size r < 2 ^ 63 \<and> \<not> Time_IsZero (rec_CreatedAt r)"

definition record_text_ok :: "Record \<Rightarrow> bool" where
  "record_text_ok r \<longleftrightarrow> utf8_ok (rec_Type r) \<and> utf8_ok (rec_Codec r) \<and> utf8_ok (rec_ChecksumAlgo r)"

lemma Record_validate_None: "record_ok r \<Longrightarrow> Record_validate r = None"
  by (simp add: Record_validate_def record_ok_def)

lemma utf8_ok_record_fields [simp]:
  "utf8_ok ''version''" "utf8_ok ''digest''" "utf8_ok ''type''" "utf8_ok ''codec''" "utf8_ok ''checksum_algo''" "utf8_ok ''checksum''"
  "utf8_ok ''created_at''"
  by (rule utf8_ok_ascii, auto simp: code_def)+

lemma utf8_ok_Time: "Time_text t = Some s \<Longrightarrow> utf8_ok s"
proof (rule utf8_ok_ascii)
  fix c
  assume "Time_text t = Some s" "c \<in> set s"
  then have "is_digit_char c \<or> c \<in> set ''-T:.Z+''" by (rule Time_text_chars)
  then show "code c < 0x80" by (auto simp: is_digit_char_def digit_value_def code_def Let_def split: if_splits)
qed

lemma set_digest_String: "d \<noteq> [] \<Longrightarrow> set_digest (JStr (Digest_String d)) = Some d"
  using ParseDigest_String [of d] by (auto simp: set_digest_def ParseDigest_def split: sum.splits if_splits)

lemma record_names [simp]:
  "field_is ''version'' ''version''" "field_is ''digest'' ''digest''" "field_is ''type'' ''type''" "field_is ''codec'' ''codec''"
  "field_is ''checksum_algo'' ''checksum_algo''" "field_is ''checksum'' ''checksum''" "field_is ''created_at'' ''created_at''"
  "\<not> field_is ''digest'' ''version''"
  "\<not> field_is ''type'' ''version''" "\<not> field_is ''type'' ''digest''"
  "\<not> field_is ''codec'' ''version''" "\<not> field_is ''codec'' ''digest''" "\<not> field_is ''codec'' ''type''"
  "\<not> field_is ''checksum_algo'' ''version''" "\<not> field_is ''checksum_algo'' ''digest''" "\<not> field_is ''checksum_algo'' ''type''"
  "\<not> field_is ''checksum_algo'' ''codec''"
  "\<not> field_is ''checksum'' ''version''" "\<not> field_is ''checksum'' ''digest''" "\<not> field_is ''checksum'' ''type''"
  "\<not> field_is ''checksum'' ''codec''" "\<not> field_is ''checksum'' ''checksum_algo''"
  "\<not> field_is ''size'' ''version''" "\<not> field_is ''size'' ''digest''" "\<not> field_is ''size'' ''type''"
  "\<not> field_is ''size'' ''codec''" "\<not> field_is ''size'' ''checksum_algo''" "\<not> field_is ''size'' ''checksum''"
  "\<not> field_is ''created_at'' ''version''" "\<not> field_is ''created_at'' ''digest''" "\<not> field_is ''created_at'' ''type''"
  "\<not> field_is ''created_at'' ''codec''" "\<not> field_is ''created_at'' ''checksum_algo''" "\<not> field_is ''created_at'' ''checksum''"
  "\<not> field_is ''created_at'' ''size''"
  by (simp_all add: field_is_def to_upper_def Let_def code_def)

lemma set_fields_append: "set_fields (a @ b) r = (case set_fields a r of None \<Rightarrow> None | Some r' \<Rightarrow> set_fields b r')"
  by (induction a r rule: set_fields.induct) (auto split: option.splits)

lemma set_optional:
  "set_fields (optional ''type'' v) r = Some (if v = '''' then r else r\<lparr>rec_Type := v\<rparr>)"
  "set_fields (optional ''codec'' v) r = Some (if v = '''' then r else r\<lparr>rec_Codec := v\<rparr>)"
  by (simp_all add: optional_def set_field_def set_string_def)

lemma Record_decode:
  assumes "Record_encode r = Inr b" "record_ok r" "record_text_ok r"
  shows "decodeRecord b = Inr r"
proof -
  from assms(1) obtain t where t: "Time_text (rec_CreatedAt r) = Some t" "b = json_Marshal (Record_json r t)"
    by (auto simp: Record_encode_def split: option.splits)
  have "json_ok (Record_json r t)" "json_depth (Record_json r t) \<le> maxNestingDepth"
    using assms(3) utf8_ok_Time [OF t(1)] by (auto simp: Record_json_def optional_def record_text_ok_def utf8_ok_Digest maxNestingDepth_def)
  then have "json_Parse b = Some (Record_json r t)" using json_roundtrip(1) t(2) by blast
  moreover have "ParseInt (Itoa (rec_Version r)) = Some (rec_Version r)" "ParseInt (Itoa (rec_Size r)) = Some (rec_Size r)"
    using assms(2) by (auto simp: record_ok_def RecordVersion_def intro!: ParseInt_Itoa)
  then have "\<exists>ms. Record_json r t = JObj ms \<and> set_fields ms empty_Record = Some r"
    using assms(2) Time_text_read [OF t(1)]
    by (auto simp: Record_json_def set_fields_append set_optional set_field_def set_int_def set_string_def set_time_def
        set_digest_String record_ok_def empty_Record_def)
  ultimately show ?thesis
    using Record_validate_None [OF assms(2)] by (auto simp: decodeRecord_def)
qed

lemma encodeRecord_cases:
  assumes "encodeRecord b r = Inr data"
  obtains r' where "Record_encode r' = Inr data" "r' = r \<or> r' = r\<lparr>rec_Type := '''', rec_Codec := ''''\<rparr>" "int (length data) \<le> maxRecordBytes b"
  using assms by (auto simp: encodeRecord_def split: sum.splits if_splits)

text \<open>The bytes of a record file as \<open>readRecord\<close> judges them.\<close>

definition record_of :: "'z sidecar \<Rightarrow> bytes \<Rightarrow> digest \<Rightarrow> Record result" where
  "record_of b c d =
     (let data = take (nat (wrap64 (maxRecordBytes b + 1))) c in
      if int (length data) > maxRecordBytes b then Inl (Errorf ''sidecar: record exceeds the cap'' [ErrCorrupt])
      else case decodeRecord data of
          Inl e \<Rightarrow> Inl e
        | Inr r \<Rightarrow> if \<not> Digest_Equal (rec_Digest r) d then Inl (Errorf ''sidecar: record names another digest'' [ErrCorrupt]) else Inr r)"

lemma decodeRecord_error: "decodeRecord c = Inl e \<Longrightarrow> errors_Is e ErrCorrupt"
  by (auto simp: decodeRecord_def split: option.splits json.splits)

lemma record_of_error: "record_of b c d = Inl e \<Longrightarrow> errors_Is e ErrCorrupt"
  by (auto simp: record_of_def Let_def dest: decodeRecord_error split: if_splits sum.splits)

lemma record_encoded_is_accepted:
  assumes "encodeRecord b r = Inr data" "record_ok r" "record_text_ok r" "maxRecordBytes b < MaxInt64"
  shows "record_of b data (rec_Digest r) = Inr r \<or> record_of b data (rec_Digest r) = Inr (r\<lparr>rec_Type := [], rec_Codec := []\<rparr>)"
proof -
  from assms(1) obtain r' where r': "Record_encode r' = Inr data" "r' = r \<or> r' = r\<lparr>rec_Type := '''', rec_Codec := ''''\<rparr>"
    "int (length data) \<le> maxRecordBytes b" by (rule encodeRecord_cases)
  have "0 \<le> maxRecordBytes b" using r'(3) by linarith
  then have w: "wrap64 (maxRecordBytes b + 1) = maxRecordBytes b + 1" using assms(4) by (intro wrap64_id) auto
  have "utf8_ok []" by (simp add: utf8_ok.simps)
  then have "record_ok r'" "record_text_ok r'" using r'(2) assms(2,3) by (auto simp: record_ok_def record_text_ok_def)
  then have "decodeRecord data = Inr r'" using Record_decode [OF r'(1)] by blast
  moreover have "Digest_Equal (rec_Digest r') (rec_Digest r)" using r'(2) assms(2) by (auto simp: record_ok_def Digest_Equal_def)
  moreover have "take (nat (maxRecordBytes b + 1)) data = data" using r'(3) by simp
  ultimately show ?thesis using r'(2,3) w by (auto simp: record_of_def Let_def)
qed

text \<open>On a working system a regular record file is read as its bytes say, and a missing one as no record.\<close>

lemma parents_record: "set (parents (recordPath b d)) = insert (metaDir b) (set (parents (metaDir b))) - {[]}"
  by (auto simp: recordPath_def parents_snoc set_parents)

lemma readRecord_file:
  assumes "healthy (est w)" "\<forall>q \<in> insert (metaDir b) (set (parents (metaDir b))). node_at (est w) q = Some Dir"
    and "node_at (est w) (recordPath b d) = Some (Reg c t)"
  shows "readRecord b d w = (case record_of b c d of Inl e \<Rightarrow> Inl e | Inr r \<Rightarrow> Inr (Some r), w)"
proof -
  have "\<forall>q \<in> set (parents (recordPath b d)). node_at (est w) q = Some Dir" using assms(2) by (auto simp: parents_record)
  then have "os_OpenRead (recordPath b d) w = (Inr (nop_closer c), w)"
    using assms(1,3) by (simp add: os_OpenRead_def syscall_healthy in_dir_clear)
  moreover have "io_ReadAll (io_LimitReader (reader.truncate (nop_closer c)) n) = Inr (take (nat n) c)" for n
    by (simp add: io_ReadAll_def)
  ultimately show ?thesis
    by (auto simp: readRecord_def record_of_def attempt_def bnd_def Let_def fail_def ret_def split: sum.splits)
qed

lemma readRecord_none:
  assumes "healthy (est w)" "\<forall>q \<in> set (parents (metaDir b)). node_at (est w) q = Some Dir" "dir_slot (node_at (est w) (metaDir b))"
    and "node_at (est w) (recordPath b d) = None"
  shows "readRecord b d w = (Inr None, w)"
proof -
  have "dirs_verdict (node_at (est w)) (parents (recordPath b d)) \<in> {Clear, Missing}"
    using assms(2,3) by (intro dirs_verdict_slots) (auto simp: parents_record dir_slot_def)
  then have "os_OpenRead (recordPath b d) w = (Inl ErrNotExist, w)"
    using assms(1,4) by (auto simp: os_OpenRead_def syscall_healthy in_dir_def)
  then show ?thesis by (simp add: readRecord_def attempt_def bnd_def ret_def)
qed

text \<open>
  The writer and the reader of records agree on the cap: where a record file holds what \<open>encodeRecord\<close> lets through, \<open>readRecord\<close>
  returns the record that was written, its optional type and codec apart where the cap left no room for them. So a writer never
  publishes a file its own reader would report as corrupt.
\<close>

theorem record_written_is_readable:
  assumes "encodeRecord b r = Inr data" "record_ok r" "record_text_ok r" "maxRecordBytes b < MaxInt64"
    and "healthy (est w)" "\<forall>q \<in> insert (metaDir b) (set (parents (metaDir b))). node_at (est w) q = Some Dir"
    and "node_at (est w) (recordPath b (rec_Digest r)) = Some (Reg data t)"
  shows "readRecord b (rec_Digest r) w = (Inr (Some r), w) \<or>
    readRecord b (rec_Digest r) w = (Inr (Some (r\<lparr>rec_Type := [], rec_Codec := []\<rparr>)), w)"
  using record_encoded_is_accepted [OF assms(1-4)] readRecord_file [OF assms(5-7)] by auto

definition demo_record :: Record where
  "demo_record = \<lparr>rec_Version = 1, rec_Digest = [7], rec_Type = ''blob@1'', rec_Codec = ''json'', rec_ChecksumAlgo = ''crc32'',
     rec_Checksum = [1, 2, 3, 4], rec_Size = 5, rec_CreatedAt = \<lparr>t_ns = 10 ^ 9, t_zone = 0\<rparr>\<rparr>"

definition demo_sidecar :: "unit sidecar" where
  "demo_sidecar = \<lparr>sc_inner = fs_backend (fs_default [''s''] False), sc_reads = (\<lambda>_ _ _. True), sc_base = ''s'', metaDir = [''s'', ''.meta''],
     sc_algo = ''crc32'', sc_hasher = None, sc_dirSync = False, maxRecordBytes = 4096\<rparr>"

lemma numeral_4_eq_4: "4 = Suc (Suc (Suc (Suc 0)))"
  by simp

lemma pad_short: "pad 2 v = [digit (v div 10 mod 10), digit (v mod 10)]"
  "pad 4 v = [digit (v div 1000 mod 10), digit (v div 100 mod 10), digit (v div 10 mod 10), digit (v mod 10)]"
proof -
  have "pad (Suc (Suc 0)) v = [digit (v div 10 mod 10), digit (v mod 10)]" by simp
  then show "pad 2 v = [digit (v div 10 mod 10), digit (v mod 10)]" by (simp only: numeral_2_eq_2)
  have "pad (Suc (Suc (Suc (Suc 0)))) v = [digit (v div 1000 mod 10), digit (v div 100 mod 10), digit (v div 10 mod 10), digit (v mod 10)]"
    by simp
  then show "pad 4 v = [digit (v div 1000 mod 10), digit (v div 100 mod 10), digit (v div 10 mod 10), digit (v mod 10)]"
    by (simp only: numeral_4_eq_4)
qed

lemma demo_record_text: "Time_text (rec_CreatedAt demo_record) = Some ''0001-01-01T00:00:01Z''"
proof -
  have "find_year 0 366 = (1, 0)" by (simp add: find_year.simps year_len_def isLeap_def)
  moreover have "date_text 1 0 = ''0001-01-01''" "clock_text 1 = ''00:00:01''"
    by (simp_all add: date_text_def month_lens_def clock_text_def pad_short digit_def char_of_def bit_0)
  ultimately show ?thesis
    by (simp add: Time_text_def demo_record_def Let_def frac_text_def zone_text_def)
qed

lemma demo_record_encoded: "Record_encode demo_record = Inr (json_Marshal (Record_json demo_record ''0001-01-01T00:00:01Z''))"
  by (simp add: Record_encode_def demo_record_text)

lemma demo_json: "length (json_Marshal (Record_json demo_record ''0001-01-01T00:00:01Z'')) < 4096"
  by code_simp

definition record_demo :: "bytes \<Rightarrow> osfs env" where
  "record_demo data = \<lparr>ectx = Live, est = \<lparr>nodes = [([''s''], Dir), ([''s'', ''.meta''], Dir), ([''s'', ''.meta'', ''07.json''], Reg data 0)],
     os_now = 9, faults = [], wplan = [], crashed = False, outside = False\<rparr>\<rparr>"

lemma demo_path: "recordPath demo_sidecar [7] = [''s'', ''.meta'', ''07.json'']"
  by (simp add: recordPath_def demo_sidecar_def recordSuffix_def) code_simp

theorem record_written_is_readable_witness:
  "\<exists>data. encodeRecord demo_sidecar demo_record = Inr data \<and>
     (readRecord demo_sidecar [7] (record_demo data) = (Inr (Some demo_record), record_demo data) \<or>
      readRecord demo_sidecar [7] (record_demo data) = (Inr (Some (demo_record\<lparr>rec_Type := [], rec_Codec := []\<rparr>)), record_demo data))"
proof -
  let ?data = "json_Marshal (Record_json demo_record ''0001-01-01T00:00:01Z'')"
  have enc: "encodeRecord demo_sidecar demo_record = Inr ?data"
    using demo_json by (simp add: encodeRecord_def demo_record_encoded demo_sidecar_def)
  have ok: "record_ok demo_record" "record_text_ok demo_record"
    by (auto simp: record_ok_def demo_record_def RecordVersion_def Time_IsZero_def record_text_ok_def code_def intro!: utf8_ok_ascii)
  have cap: "maxRecordBytes demo_sidecar < MaxInt64" and d: "rec_Digest demo_record = [7]"
    by (simp_all add: demo_sidecar_def MaxInt64_def demo_record_def)
  have "healthy (est (record_demo ?data))"
    "\<forall>q \<in> insert (metaDir demo_sidecar) (set (parents (metaDir demo_sidecar))). node_at (est (record_demo ?data)) q = Some Dir"
    "node_at (est (record_demo ?data)) (recordPath demo_sidecar (rec_Digest demo_record)) = Some (Reg ?data 0)"
    using demo_path d by (simp_all add: record_demo_def healthy_def demo_sidecar_def parents_def node_at_def upt_rec)
  from record_written_is_readable [OF enc ok cap this]
  have "readRecord demo_sidecar (rec_Digest demo_record) (record_demo ?data) = (Inr (Some demo_record), record_demo ?data) \<or>
      readRecord demo_sidecar (rec_Digest demo_record) (record_demo ?data) =
        (Inr (Some (demo_record\<lparr>rec_Type := [], rec_Codec := []\<rparr>)), record_demo ?data)" .
  with enc show ?thesis unfolding d by blast
qed

text \<open>With the largest cap the limit of the read wraps and every record reads as damage.\<close>

lemma record_cap_overflow: "maxRecordBytes b = MaxInt64 \<Longrightarrow> \<exists>e. record_of b c d = Inl e \<and> errors_Is e ErrCorrupt"
proof -
  assume "maxRecordBytes b = MaxInt64"
  then have "take (nat (wrap64 (maxRecordBytes b + 1))) c = []" by (simp add: MaxInt64_def wrap64_def)
  moreover have "\<exists>e. decodeRecord [] = Inl e"
    by (simp add: decodeRecord_def json_Parse_def skip_ws_def)
  ultimately have "\<exists>e. record_of b c d = Inl e" by (auto simp: record_of_def Let_def)
  then show ?thesis using record_of_error by blast
qed

section \<open>Publishing a record\<close>

definition record_scratch :: "'z sidecar \<Rightarrow> digest \<Rightarrow> nat \<Rightarrow> path" where
  "record_scratch b d i = metaDir b @ [Digest_String d @ ''.'' @ dec i @ ''.tmp'']"

lemma record_scratch_simps [simp]:
  "record_scratch b d i \<noteq> []" "record_scratch b d i \<noteq> recordPath b d'" "recordPath b d' \<noteq> record_scratch b d i" "recordPath b d \<noteq> []"
proof -
  have "last (''.'' @ dec i @ ''.tmp'') \<noteq> last recordSuffix" by (simp add: recordSuffix_def)
  then have "Digest_String d @ ''.'' @ dec i @ ''.tmp'' \<noteq> Digest_String d' @ recordSuffix"
    by (metis last_appendR append_is_Nil_conv not_Cons_self2 recordSuffix_def list.distinct(1))
  then show "record_scratch b d i \<noteq> recordPath b d'" "recordPath b d' \<noteq> record_scratch b d i"
    by (auto simp: record_scratch_def recordPath_def)
qed (simp_all add: record_scratch_def recordPath_def)

lemma record_temp_ok:
  "record_temp n rs (metaDir b) (Digest_String d) w = (Inr tmp, w') \<Longrightarrow>
    (\<exists>i. tmp = record_scratch b d i) \<and> (\<exists>t. node_at (est w') tmp = Some (Reg [] t))"
proof (induction n arbitrary: rs w)
  case (Suc n)
  let ?p = "record_scratch b d (case rs of [] \<Rightarrow> 0 | x # _ \<Rightarrow> x)"
  obtain x w1 where x: "os_OpenExcl ?p w = (x, w1)" by fastforce
  show ?case
  proof (cases x)
    case (Inl e)
    with Suc.prems x Suc.IH show ?thesis
      by (auto simp: Let_def record_scratch_def catch_def bnd_def fail_def split: if_splits)
  next
    case (Inr u)
    with Suc.prems x have "tmp = ?p" "w' = w1" by (auto simp: Let_def record_scratch_def catch_def bnd_def ret_def)
    with os_OpenExcl_ok [of ?p w u w1] x Inr show ?thesis by auto
  qed
qed (simp add: fail_def)

lemma keeps_record_temp:
  assumes "\<And>i. keeps I (os_OpenExcl (record_scratch b d i))"
  shows "keeps I (record_temp n rs (metaDir b) (Digest_String d))"
proof (induction n arbitrary: rs)
  case (Suc n)
  have "keeps I (os_OpenExcl (metaDir b @ [Digest_String d @ ''.'' @ dec k @ ''.tmp'']))" for k
    using assms by (simp add: record_scratch_def)
  with Suc show ?case by (auto simp: Let_def intro!: keeps_intros)
qed (simp add: keeps_fail)

lemma keeps_os_Chmod [keeps_intros]: "control_free I \<Longrightarrow> keeps I (os_Chmod p)"
  unfolding os_Chmod_def by (rule keeps_syscall) auto

lemma keeps_syncDir [keeps_intros]: "control_free I \<Longrightarrow> keeps I (syncDir p)"
  unfolding syncDir_def by (intro keeps_intros)

lemma fill_record_ok:
  assumes "fill_record rs b r data w = (Inr tmp, w')"
  shows "(\<exists>i. tmp = record_scratch b (rec_Digest r) i) \<and> (\<exists>t. node_at (est w') tmp = Some (Reg data t))"
proof -
  from assms obtain w1 w2 w3 w4 w5 where
    t: "record_temp 10000 rs (metaDir b) (Digest_String (rec_Digest r)) w1 = (Inr tmp, w2)"
    and s: "os_Chmod tmp w2 = (Inr (), w3)" "os_Write tmp data w3 = (Inr (), w4)" "os_Sync tmp w4 = (Inr (), w5)" "os_Close tmp w5 = (Inr (), w')"
    by (auto simp: fill_record_def bnd_ok)
  from record_temp_ok [OF t] obtain i t0 where i: "tmp = record_scratch b (rec_Digest r) i" "node_at (est w2) tmp = Some (Reg [] t0)" by blast
  have "node_at (est w3) tmp = Some (Reg [] t0)"
    using keepsD [OF keeps_os_Chmod s(1), of "\<lambda>st. node_at st tmp = Some (Reg [] t0)"] i(2) by auto
  from os_Write_ok [OF s(2) this] i(1) obtain t1 where "node_at (est w4) tmp = Some (Reg data t1)" by auto
  then have "node_at (est w5) tmp = Some (Reg data t1)"
    using keepsD [OF keeps_reads(5) s(3), of "\<lambda>st. node_at st tmp = Some (Reg data t1)"] by auto
  then have "node_at (est w') tmp = Some (Reg data t1)"
    using keepsD [OF keeps_reads(6) s(4), of "\<lambda>st. node_at st tmp = Some (Reg data t1)"] by auto
  with i show ?thesis by blast
qed

lemma keeps_fill_record:
  assumes "control_free I"
    and mk: "\<And>q s. q \<in> insert (metaDir b) (set (parents (metaDir b))) \<Longrightarrow> I s \<Longrightarrow> node_at s q = None \<Longrightarrow> I (set_node q Dir s)"
    and new: "\<And>i t s. I s \<Longrightarrow> node_at s (record_scratch b (rec_Digest r) i) = None \<Longrightarrow> I (set_node (record_scratch b (rec_Digest r) i) (Reg [] t) s)"
    and grow: "\<And>i c x t s. I s \<Longrightarrow> node_at s (record_scratch b (rec_Digest r) i) = Some (Reg c t) \<Longrightarrow>
      I (set_node (record_scratch b (rec_Digest r) i) (Reg (c @ x) (os_now s)) s)"
    and del: "\<And>i s. I s \<Longrightarrow> I (del_node (record_scratch b (rec_Digest r) i) s)"
  shows "keeps I (fill_record rs b r data)"
proof -
  have dirs: "keeps I (os_MkdirAll (metaDir b))"
    unfolding os_MkdirAll_def using mk by (intro keeps_mkdirs [OF assms(1)]) (auto split: if_splits)
  have temp: "keeps I (record_temp 10000 rs (metaDir b) (Digest_String (rec_Digest r)))"
    by (intro keeps_record_temp keeps_os_OpenExcl [OF assms(1)] new)
  have "keeps I (bnd (or_else (wrapping ''sidecar: set record permissions'' (os_Chmod tmp)) (discard tmp)) (\<lambda>_.
     bnd (or_else (wrapping ''sidecar: write record'' (os_Write tmp data)) (discard tmp)) (\<lambda>_.
     bnd (or_else (wrapping ''sidecar: sync record'' (os_Sync tmp)) (discard tmp)) (\<lambda>_.
     bnd (or_else (wrapping ''sidecar: close record'' (os_Close tmp)) (ignore (os_Remove tmp))) (\<lambda>_. ret tmp)))))"
    if "\<exists>i. tmp = record_scratch b (rec_Digest r) i" for tmp
  proof -
    have "keeps I (os_Remove tmp)" "keeps I (os_Write tmp data)"
      using that by (auto intro!: keeps_os_Remove keeps_os_Write assms)
    then show ?thesis unfolding discard_def by (intro keeps_intros assms(1))
  qed
  note rest = keeps_bnd_P [OF keeps_wrapping [OF temp], where P = "\<lambda>tmp. \<exists>i. tmp = record_scratch b (rec_Digest r) i", OF _ this]
  show ?thesis
    unfolding fill_record_def
    by (rule keeps_bnd [OF keeps_wrapping [OF dirs]], rule rest) (auto dest: record_temp_ok)
qed

text \<open>A state property survives the write of a record when it survives what the write may do to the tree.\<close>

lemma keeps_writeRecord:
  assumes "control_free I"
    and mk: "\<And>q s. q \<in> insert (metaDir b) (set (parents (metaDir b))) \<Longrightarrow> I s \<Longrightarrow> node_at s q = None \<Longrightarrow> I (set_node q Dir s)"
    and new: "\<And>i t s. I s \<Longrightarrow> node_at s (record_scratch b (rec_Digest r) i) = None \<Longrightarrow> I (set_node (record_scratch b (rec_Digest r) i) (Reg [] t) s)"
    and grow: "\<And>i c x t s. I s \<Longrightarrow> node_at s (record_scratch b (rec_Digest r) i) = Some (Reg c t) \<Longrightarrow>
      I (set_node (record_scratch b (rec_Digest r) i) (Reg (c @ x) (os_now s)) s)"
    and del: "\<And>i s. I s \<Longrightarrow> I (del_node (record_scratch b (rec_Digest r) i) s)"
    and ren: "\<And>i n s. I s \<Longrightarrow> node_at s (record_scratch b (rec_Digest r) i) = Some n \<Longrightarrow> n \<noteq> Dir \<Longrightarrow>
      I (del_node (record_scratch b (rec_Digest r) i) (set_node (recordPath b (rec_Digest r)) n s))"
  shows "keeps I (writeRecord rs b r)"
proof -
  have "keeps I (bnd (fill_record rs b r data) (\<lambda>tmp.
     bnd (or_else (wrapping ''sidecar: publish record'' (os_Rename tmp (recordPath b (rec_Digest r)))) (ignore (os_Remove tmp))) (\<lambda>_.
       if \<not> sc_dirSync b then ret () else syncDir (metaDir b))))" for data
  proof (rule keeps_bnd_P [where P = "\<lambda>tmp. \<exists>i. tmp = record_scratch b (rec_Digest r) i"])
    show "keeps I (fill_record rs b r data)" by (rule keeps_fill_record) (use assms in auto)
    fix tmp
    assume "\<exists>i. tmp = record_scratch b (rec_Digest r) i"
    then have "keeps I (os_Remove tmp)" "keeps I (os_Rename tmp (recordPath b (rec_Digest r)))"
      by (auto intro!: keeps_os_Remove assms(1) del) (auto intro!: keeps_os_Rename assms(1) ren)
    then show "keeps I (bnd (or_else (wrapping ''sidecar: publish record'' (os_Rename tmp (recordPath b (rec_Digest r)))) (ignore (os_Remove tmp))) (\<lambda>_.
       if \<not> sc_dirSync b then ret () else syncDir (metaDir b)))" by (intro keeps_intros assms(1))
  qed (use fill_record_ok in blast)
  then show ?thesis unfolding writeRecord_def by (rule keeps_bnd [OF keeps_ctx_Err keeps_bnd [OF keeps_of_result]])
qed

lemma writeRecord_other:
  assumes "q \<notin> insert (metaDir b) (set (parents (metaDir b)))" "q \<noteq> recordPath b (rec_Digest r)" "\<And>i. q \<noteq> record_scratch b (rec_Digest r) i"
  shows "keeps (\<lambda>s. node_at s q = v) (writeRecord rs b r)"
  by (rule keeps_writeRecord) (use assms in auto)

lemma recordPath_not_dir [simp]: "recordPath b d \<noteq> metaDir b" "recordPath b d \<notin> set (parents (metaDir b))"
  by (auto simp: recordPath_def dest: parents_shorter)

lemma ignore_returns: "\<exists>w'. ignore m w = (Inr (), w')"
  by (cases "m w") (auto simp: ignore_def catch_def bnd_def ret_def split: sum.splits)

lemma writeRecord_cases:
  assumes "writeRecord rs b r w = (x, w')"
  shows "node_at (est w') (recordPath b (rec_Digest r)) = node_at (est w) (recordPath b (rec_Digest r)) \<and> (\<exists>e. x = Inl e) \<or>
    (\<exists>data t. encodeRecord b r = Inr data \<and> node_at (est w') (recordPath b (rec_Digest r)) = Some (Reg data t))"
proof -
  let ?p = "recordPath b (rec_Digest r)"
  obtain y w1 where y: "ctx_Err w = (y, w1)" by fastforce
  show ?thesis
  proof (cases "y = Inr () \<and> is_ok (encodeRecord b r)")
    case False
    then show ?thesis using assms y ctx_Err_estD [OF y]
      by (cases y) (auto simp: writeRecord_def bnd_def of_result_def split: sum.splits)
  next
    case True
    then obtain data where data: "y = Inr ()" "encodeRecord b r = Inr data" by (auto simp: is_ok_iff)
    obtain z w2 where z: "fill_record rs b r data w1 = (z, w2)" by fastforce
    have "keeps (\<lambda>s. node_at s ?p = node_at (est w) ?p) (fill_record rs b r data)"
      by (rule keeps_fill_record) (use recordPath_not_dir in auto)
    from keepsD [OF this z] have keep: "node_at (est w2) ?p = node_at (est w) ?p" using ctx_Err_estD [OF y] by simp
    show ?thesis
    proof (cases z)
      case (Inl e)
      with assms y z data keep show ?thesis by (auto simp: writeRecord_def bnd_def of_result_def)
    next
      case (Inr tmp)
      from fill_record_ok [of rs b r data w1 tmp w2] z Inr obtain i t where
        tmp: "tmp = record_scratch b (rec_Digest r) i" "node_at (est w2) tmp = Some (Reg data t)" by auto
      obtain u w3 where u: "os_Rename tmp ?p w2 = (u, w3)" by fastforce
      from os_Rename_cases [OF u] tmp(1) have ren: "case u of Inr _ \<Rightarrow> (\<exists>n. node_at (est w2) tmp = Some n \<and> node_at (est w3) ?p = Some n)
          | Inl e \<Rightarrow> node_at (est w3) = node_at (est w2)" by simp
      show ?thesis
      proof (cases u)
        case (Inl e)
        obtain w4 where v: "ignore (os_Remove tmp) w3 = (Inr (), w4)" using ignore_returns by blast
        have "?p \<noteq> tmp" using tmp(1) by simp
        from keepsD [OF keeps_ignore [OF keeps_os_Remove_other [OF this]] v] ren Inl keep
        have "node_at (est w4) ?p = node_at (est w) ?p" by simp
        moreover have "x = Inl (Errorf ''sidecar: publish record'' [e])" "w' = w4"
          using assms y z Inr data u Inl v
          by (simp_all add: writeRecord_def bnd_def of_result_def or_else_def wrapping_def catch_def fail_def)
        ultimately show ?thesis by blast
      next
        case (Inr uu)
        with ren tmp(2) have at3: "node_at (est w3) ?p = Some (Reg data t)" by auto
        have "(if \<not> sc_dirSync b then ret () else syncDir (metaDir b)) w3 = (x, w')"
          using assms y z \<open>z = Inr tmp\<close> data u Inr
          by (auto simp: writeRecord_def bnd_def of_result_def or_else_def wrapping_def catch_def)
        moreover have "keeps (\<lambda>s. node_at s ?p = Some (Reg data t)) (if \<not> sc_dirSync b then ret () else syncDir (metaDir b))"
          by (intro keeps_intros control_free_at)
        ultimately have "node_at (est w') ?p = Some (Reg data t)" using keepsD at3 by fast
        with data(2) show ?thesis by blast
      qed
    qed
  qed
qed

text \<open>
  C27: Publishing a record is atomic. Under every schedule of failing calls, for a crash at any call and a cancellation at any check, the
  record file of the digest is as it was or holds the complete encoding of the new record, and success means the latter;
  the records of other digests and every other file are untouched, scratch files of this digest and the record directory apart.
\<close>

theorem record_write_atomic:
  assumes "d = rec_Digest r"
  shows "case writeRecord rs b r w of (x, w') \<Rightarrow>
      (node_at (est w') (recordPath b d) = node_at (est w) (recordPath b d) \<and> (\<exists>e. x = Inl e) \<or>
        (\<exists>data t. encodeRecord b r = Inr data \<and> node_at (est w') (recordPath b d) = Some (Reg data t))) \<and>
      (\<forall>q. q \<noteq> recordPath b d \<and> q \<notin> insert (metaDir b) (set (parents (metaDir b))) \<and> (\<forall>i. q \<noteq> record_scratch b d i) \<longrightarrow>
        node_at (est w') q = node_at (est w) q)"
proof (cases "writeRecord rs b r w")
  case (Pair x w')
  have "node_at (est w') q = node_at (est w) q"
    if "q \<noteq> recordPath b d" "q \<notin> insert (metaDir b) (set (parents (metaDir b)))" "\<forall>i. q \<noteq> record_scratch b d i" for q
    using keepsD [OF writeRecord_other Pair] that assms by blast
  with writeRecord_cases [OF Pair] Pair assms show ?thesis by auto
qed

theorem record_write_atomic_witness:
  "case writeRecord [3] demo_sidecar demo_record (fs_demo [Go, Go, Go, Crash]) of (x, w') \<Rightarrow>
     node_at (est w') [''s'', ''.meta'', ''07.json''] = None \<or>
     (\<exists>data t. encodeRecord demo_sidecar demo_record = Inr data \<and> node_at (est w') [''s'', ''.meta'', ''07.json''] = Some (Reg data t))"
proof -
  note demo_path
  moreover have "node_at (est (fs_demo [Go, Go, Go, Crash])) [''s'', ''.meta'', ''07.json''] = None"
    by (simp add: fs_demo_def node_at_def)
  ultimately show ?thesis
    using record_write_atomic [of "[7]" demo_record demo_sidecar "fs_demo [Go, Go, Go, Crash]" "[3]"] by (auto simp: demo_record_def split: prod.splits)
qed

end
