(* ===== verification/Sidecar_Verify.thy ===== *)
theory Sidecar_Verify
  imports Sidecar_Records Hashers
begin

text \<open>
  What the sidecar's verifier promises, proved in the locale \<open>record_host\<close> for every backend that satisfies the contract and leaves the
  record directory alone, and interpreted on the file backend: the verdict on one object, the exactness of a pass over the
  store, and that a put leaves a record under which exactly the stored content passes.
\<close>

section \<open>The records of a tree\<close>

text \<open>Nothing stands in the way of the record directory and the record files.\<close>

definition records_ok :: "'z sidecar \<Rightarrow> 'z osfs_scheme \<Rightarrow> bool" where
  "records_ok b s \<longleftrightarrow> dir_slot (node_at s (metaDir b)) \<and>
     (\<forall>d. file_slot (node_at s (recordPath b d)) \<and> (node_at s (recordPath b d) \<noteq> None \<longrightarrow> node_at s (metaDir b) = Some Dir))"

definition record_at :: "'z sidecar \<Rightarrow> 'z osfs_scheme \<Rightarrow> digest \<Rightarrow> Record option result" where
  "record_at b s d =
     (case node_at s (recordPath b d) of
        Some (Reg c _) \<Rightarrow> (case record_of b c d of Inl e \<Rightarrow> Inl e | Inr r \<Rightarrow> Inr (Some r))
      | _ \<Rightarrow> Inr None)"

definition same_records :: "'z sidecar \<Rightarrow> 'z osfs_scheme \<Rightarrow> 'z osfs_scheme \<Rightarrow> bool" where
  "same_records b s s' \<longleftrightarrow> os_now s' = os_now s \<and> (\<forall>q. take (length (metaDir b)) q = metaDir b \<longrightarrow> node_at s' q = node_at s q)"

lemma same_records_at: "same_records b s s' \<Longrightarrow> record_at b s' d = record_at b s d \<and> (records_ok b s' \<longleftrightarrow> records_ok b s)"
  by (simp add: same_records_def record_at_def records_ok_def recordPath_def)

lemma same_records_refl [simp]: "same_records b s s"
  by (simp add: same_records_def)

lemma same_records_trans: "same_records b s t \<Longrightarrow> same_records b t u \<Longrightarrow> same_records b s u"
  by (simp add: same_records_def)

lemma record_at_digest: "record_at b s d = Inr (Some r) \<Longrightarrow> rec_Digest r = d"
  by (auto simp: record_at_def record_of_def Let_def Digest_Equal_def split: option.splits node.splits sum.splits if_splits)

lemma record_at_error: "record_at b s d = Inl e \<Longrightarrow> errors_Is e ErrCorrupt"
  by (auto simp: record_at_def dest: record_of_error split: option.splits node.splits sum.splits)

text \<open>A content is the one a record describes, by size and by checksum.\<close>

definition described :: "(bytes \<Rightarrow> digest) \<Rightarrow> Record \<Rightarrow> bytes \<Rightarrow> bool" where
  "described H r c \<longleftrightarrow> int (length c) = rec_Size r \<and> H c = rec_Checksum r"

text \<open>The report of a pass over listed objects with the given contents: each list names what it should, in the order of the listing.\<close>

definition pass_report :: "'z sidecar \<Rightarrow> (bytes \<Rightarrow> digest) \<Rightarrow> (digest \<Rightarrow> bytes option) \<Rightarrow> 'z osfs_scheme \<Rightarrow> digest list \<Rightarrow> VerifyReport \<Rightarrow> VerifyReport" where
  "pass_report b H m s ds report =
     \<lparr>vr_Checked = vr_Checked report + length (filter (\<lambda>d. \<exists>r. record_at b s d = Inr (Some r)) ds),
      vr_Bad = vr_Bad report @ filter (\<lambda>d. \<exists>r c. record_at b s d = Inr (Some r) \<and> m d = Some c \<and> \<not> described H r c) ds,
      vr_Unreadable = vr_Unreadable report @ filter (\<lambda>d. \<exists>e. record_at b s d = Inl e) ds,
      vr_Unrecorded = vr_Unrecorded report @ filter (\<lambda>d. record_at b s d = Inr None) ds\<rparr>"

lemma metaDir_not_record [simp]: "metaDir b \<noteq> recordPath b d"
  using recordPath_not_dir(1) [of b d, symmetric] .

section \<open>Writing on a working system\<close>

definition draw :: "nat list \<Rightarrow> nat \<Rightarrow> nat" where
  "draw rs i = (case drop i rs of [] \<Rightarrow> 0 | x # _ \<Rightarrow> x)"

lemma parents_scratch: "set (parents (record_scratch b d i)) = set (parents (recordPath b d'))"
  by (simp add: record_scratch_def recordPath_def parents_snoc)

lemma record_temp_healthy:
  assumes "healthy (est w)" "\<forall>q \<in> insert (metaDir b) (set (parents (metaDir b))). node_at (est w) q = Some Dir"
  shows "\<exists>i < n. node_at (est w) (record_scratch b d (draw rs i)) = None \<Longrightarrow>
    \<exists>i. record_temp n rs (metaDir b) (Digest_String d) w =
      (Inr (record_scratch b d i), w\<lparr>est := set_node (record_scratch b d i) (Reg [] (os_now (est w))) (est w)\<rparr>)"
proof (induction n arbitrary: rs)
  case (Suc n)
  let ?p = "record_scratch b d (draw rs 0)"
  have path: "metaDir b @ [Digest_String d @ ''.'' @ dec (case rs of [] \<Rightarrow> 0 | x # _ \<Rightarrow> x) @ ''.tmp''] = ?p"
    by (simp add: record_scratch_def draw_def)
  have dirs: "\<forall>q \<in> set (parents ?p). node_at (est w) q = Some Dir"
    unfolding parents_scratch [of b d "draw rs 0" d] using assms(2) by (auto simp: parents_record)
  show ?case
  proof (cases "node_at (est w) ?p")
    case None
    then have "os_OpenExcl ?p w = (Inr (), w\<lparr>est := set_node ?p (Reg [] (os_now (est w))) (est w)\<rparr>)"
      using assms(1) dirs by (simp add: os_OpenExcl_def syscall_healthy in_dir_clear)
    then show ?thesis unfolding record_temp.simps path Let_def by (auto simp: catch_def bnd_def ret_def)
  next
    case (Some m)
    then have "os_OpenExcl ?p w = (Inl ErrExist, w)"
      using assms(1) dirs by (simp add: os_OpenExcl_def syscall_healthy in_dir_clear)
    then have "record_temp (Suc n) rs (metaDir b) (Digest_String d) w = record_temp n (drop 1 rs) (metaDir b) (Digest_String d) w"
      unfolding record_temp.simps path Let_def by (simp add: catch_def bnd_def)
    moreover from Suc.prems obtain i where i: "i < Suc n" "node_at (est w) (record_scratch b d (draw rs i)) = None" by blast
    then have "i \<noteq> 0" using Some by (intro notI) simp
    then obtain j where "i = Suc j" by (cases i) auto
    with i have "\<exists>j < n. node_at (est w) (record_scratch b d (draw (drop 1 rs) j)) = None" by (auto simp: draw_def)
    ultimately show ?thesis using Suc.IH [of "drop 1 rs"] by simp
  qed
qed simp

lemma writeRecord_healthy:
  assumes "healthy (est w)" "ectx w = Live" "encodeRecord b r = Inr data" "d = rec_Digest r"
    and dirs: "\<forall>q \<in> set (parents (metaDir b)). node_at (est w) q = Some Dir" "dir_slot (node_at (est w) (metaDir b))"
    and slot: "node_at (est w) (recordPath b d) \<noteq> Some Dir" and free: "\<exists>i < 10000. node_at (est w) (record_scratch b d (draw rs i)) = None"
  shows "\<exists>s' i. writeRecord rs b r w = (Inr (), w\<lparr>est := s'\<rparr>) \<and> healthy s' \<and> os_now s' = os_now (est w) \<and>
    (\<forall>q. node_at s' q = (if q = recordPath b d then Some (Reg data (os_now (est w))) else if q = metaDir b then Some Dir
       else if q = record_scratch b d i then None else node_at (est w) q))"
proof -
  have "node_at (est w) q = None \<or> node_at (est w) q = Some Dir" if "q \<in> set (parents (metaDir b)) \<union> {metaDir b}" for q
    using that dirs by (auto simp: dir_slot_def)
  from mkdirs_healthy [OF assms(1) this] obtain s1 where mk: "os_MkdirAll (metaDir b) w = (Inr (), w\<lparr>est := s1\<rparr>)" "healthy s1"
    "os_now s1 = os_now (est w)" and at0: "\<And>q. node_at s1 q = (if q \<in> set (parents (metaDir b)) \<union> {metaDir b} then Some Dir else node_at (est w) q)"
    by blast
  have at1: "node_at s1 q = (if q = metaDir b then Some Dir else node_at (est w) q)" for q
    using at0 [of q] dirs(1) by auto
  have scr: "record_scratch b d i \<noteq> metaDir b" for i by (simp add: record_scratch_def)
  have "\<exists>i < 10000. node_at (est (w\<lparr>est := s1\<rparr>)) (record_scratch b d (draw rs i)) = None" using free at1 scr by simp
  from record_temp_healthy [OF _ _ this] mk(2) at0 obtain i where
    tmp: "record_temp 10000 rs (metaDir b) (Digest_String d) (w\<lparr>est := s1\<rparr>) =
      (Inr (record_scratch b d i), w\<lparr>est := set_node (record_scratch b d i) (Reg [] (os_now s1)) s1\<rparr>)" by auto
  let ?t = "record_scratch b d i"
  define s2 where "s2 = append_at ?t data (set_node ?t (Reg [] (os_now s1)) s1)"
  have h2: "healthy s2" using mk(2) by (simp add: s2_def)
  have at2: "node_at s2 q = (if q = ?t then Some (Reg data (os_now (est w))) else node_at s1 q)" for q
    using mk(3) by (auto simp: s2_def node_at_append_at)
  have "os_Chmod ?t w' = (Inr (), w')" if "healthy (est w')" for w' :: "'a osfs_scheme env"
    using that by (simp add: os_Chmod_def syscall_healthy)
  then have fill: "fill_record rs b r data w = (Inr ?t, w\<lparr>est := s2\<rparr>)"
    using mk(1,2) tmp os_Write_healthy [of "w\<lparr>est := set_node ?t (Reg [] (os_now s1)) s1\<rparr>" ?t data] ok_steps [of "w\<lparr>est := s2\<rparr>"] h2 assms(4)
    by (simp add: fill_record_def bnd_def wrapping_def or_else_def catch_def ret_def s2_def)
  define s3 where "s3 = del_node ?t (set_node (recordPath b d) (Reg data (os_now (est w))) s2)"
  have d2: "\<forall>q \<in> insert (metaDir b) (set (parents (metaDir b))). node_at s2 q = Some Dir"
    using at2 at0 scr by (auto simp: record_scratch_def dest: parents_shorter)
  then have "\<forall>q \<in> set (parents ?t). node_at s2 q = Some Dir" "\<forall>q \<in> set (parents (recordPath b d)). node_at s2 q = Some Dir"
    unfolding parents_scratch [of b d i d] by (auto simp: parents_record)
  moreover have "node_at s2 (recordPath b d) \<noteq> Some Dir" using slot at1 at2 by simp
  ultimately have "os_Rename ?t (recordPath b d) (w\<lparr>est := s2\<rparr>) = (Inr (), w\<lparr>est := s3\<rparr>)"
    using h2 at2 by (simp add: os_Rename_def syscall_healthy in_dir_clear s3_def)
  moreover have h3: "healthy s3" using h2 by (simp add: s3_def)
  have at3: "node_at s3 q = (if q = recordPath b d then Some (Reg data (os_now (est w))) else if q = metaDir b then Some Dir
       else if q = ?t then None else node_at (est w) q)" for q
    using at1 at2 scr [of i] scr [of i, symmetric] by (auto simp: s3_def)
  have "syncDir (metaDir b) (w\<lparr>est := s3\<rparr>) = (Inr (), w\<lparr>est := s3\<rparr>)"
  proof -
    have "\<forall>q \<in> set (parents (metaDir b)). node_at s3 q = Some Dir"
      using at3 dirs(1) recordPath_not_dir(2) by (auto simp: record_scratch_def dest: parents_shorter)
    then have "os_OpenRead (metaDir b) (w\<lparr>est := s3\<rparr>) = (Inr ((nop_closer [])\<lparr>r_err := Some EISDIR\<rparr>), w\<lparr>est := s3\<rparr>)"
      using h3 at3 [of "metaDir b"] recordPath_not_dir(1) [of b d, symmetric] by (simp add: os_OpenRead_def syscall_healthy in_dir_clear)
    then show ?thesis
      using ok_steps [of "w\<lparr>est := s3\<rparr>"] h3 by (simp add: syncDir_def bnd_def wrapping_def or_else_def ignore_def catch_def ret_def)
  qed
  ultimately have "writeRecord rs b r w = (Inr (), w\<lparr>est := s3\<rparr>)"
    using assms(2,3,4) fill by (simp add: writeRecord_def bnd_def of_result_def or_else_def wrapping_def catch_def ret_def)
  moreover have "os_now s3 = os_now (est w)" using mk(3) by (simp add: s3_def s2_def)
  ultimately show ?thesis using h3 at3 by blast
qed

lemma keeps_distinct_writeRecord: "keeps (\<lambda>s. distinct (map fst (nodes s))) (writeRecord rs b r)"
  by (rule keeps_writeRecord) (auto simp: control_free_def distinct_nodes)

section \<open>A backend that leaves the records alone\<close>

locale record_host = reliable_backend "sc_inner b" abs inv
  for b :: "'z sidecar" and abs :: "'z osfs_scheme \<Rightarrow> digest \<Rightarrow> bytes option" and inv :: "'z osfs_scheme \<Rightarrow> bool" +
  assumes host_healthy: "inv s \<Longrightarrow> healthy s"
    and host_dirs: "inv s \<Longrightarrow> q \<in> set (parents (metaDir b)) \<Longrightarrow> node_at s q = Some Dir"
    and host_get: "inv (est w) \<Longrightarrow> b_Get (sc_inner b) d w = (gx, w') \<Longrightarrow> same_records b (est w) (est w')"
    and host_list: "inv (est w) \<Longrightarrow> b_List (sc_inner b) w = (lx, w') \<Longrightarrow> same_records b (est w) (est w')"
    and host_put: "inv (est w) \<Longrightarrow> b_Put (sc_inner b) d r w = (px, w') \<Longrightarrow> same_records b (est w) (est w')"
    and host_distinct: "inv s \<Longrightarrow> distinct (map fst (nodes s))"
    and host_frame: "inv s \<Longrightarrow> healthy s' \<Longrightarrow> distinct (map fst (nodes s')) \<Longrightarrow>
      (\<forall>q. take (length (metaDir b)) q \<noteq> metaDir b \<longrightarrow> node_at s' q = node_at s q) \<Longrightarrow>
      (\<forall>q n d. node_at s' q = Some n \<longrightarrow> n \<noteq> Dir \<longrightarrow> ParseDigest (last q) = Inr d \<longrightarrow> node_at s q = Some n) \<Longrightarrow>
      inv s' \<and> abs s' = abs s"
begin

lemma readRecord_at:
  assumes "inv (est w)" "records_ok b (est w)"
  shows "readRecord b d w = (record_at b (est w) d, w)"
proof (cases "node_at (est w) (recordPath b d)")
  case None
  then show ?thesis
    using readRecord_none [OF host_healthy [OF assms(1)] _ _ None] host_dirs [OF assms(1)] assms(2) by (simp add: record_at_def records_ok_def)
next
  case (Some n)
  with assms(2) obtain c t where n: "n = Reg c t" and m: "node_at (est w) (metaDir b) = Some Dir"
    unfolding records_ok_def file_slot_def by (metis option.distinct(1) option.inject)
  have "\<forall>q \<in> insert (metaDir b) (set (parents (metaDir b))). node_at (est w) q = Some Dir"
    using m host_dirs [OF assms(1)] by simp
  from readRecord_file [OF host_healthy [OF assms(1)] this] Some n show ?thesis by (simp add: record_at_def)
qed

lemma verifyRecord_value:
  assumes "inv (est w)" "ectx w = Live" "hasher_law h H" "rec_ChecksumAlgo r = algo" "abs (est w) (rec_Digest r) = Some c"
  obtains x w' where "verifyRecord b algo h r w = (x, w')" "ectx w' = Live" "inv (est w')" "abs (est w') = abs (est w)"
    "same_records b (est w) (est w')" "described H r c \<longrightarrow> x = Inr ()" "\<not> described H r c \<longrightarrow> (\<exists>e. x = Inl e \<and> errors_Is e ErrCorrupt)"
proof -
  from get_value [OF assms(1,2,5)] obtain rc w' where g: "b_Get (sc_inner b) (rec_Digest r) w = (Inr rc, w')" "r_err rc = None"
    "rc_close rc = None" "r_data rc = c" "ectx w' = Live" "inv (est w')" "abs (est w') = abs (est w)" by blast
  have "h_Digest h (prefixReader rc) = Inr (H c)"
    using assms(3) g(2,4) by (simp add: hasher_law_def prefixReader_def r_data_def)
  moreover have "H c \<noteq> []" using assms(3) by (simp add: hasher_law_def)
  ultimately have "verifyRecord b algo h r w =
      (if int (length c) \<noteq> rec_Size r then Inl (Errorf ''stored size'' [ErrCorrupt])
       else if H c \<noteq> rec_Checksum r then Inl (Errorf ''checksum mismatch'' [ErrCorrupt]) else Inr (), w')"
    using g assms(4) by (auto simp: verifyRecord_def bnd_def readThenClose_no_close_error of_result_def fail_def ret_def Digest_Equal_def)
  then show thesis
    using that [of _ w'] g host_get [OF assms(1) g(1)] by (simp add: described_def)
qed

text \<open>The verdict on one object.\<close>

lemma verify_verdict:
  assumes "inv (est w)" "ectx w = Live" "records_ok b (est w)" "hasher_law h H" "algo \<noteq> []" "d \<noteq> []"
    and "record_at b (est w) d = Inr (Some r)" "rec_ChecksumAlgo r = algo" "abs (est w) d = Some c"
  shows "described H r c \<longrightarrow> fst (sidecar_Verify (Backend_Verifier b algo (Some h)) d w) = Inr ()"
    "\<not> described H r c \<longrightarrow> (\<exists>e. fst (sidecar_Verify (Backend_Verifier b algo (Some h)) d w) = Inl e \<and> errors_Is e ErrCorrupt)"
proof -
  have "sidecar_Verify (Backend_Verifier b algo (Some h)) d w = verifyRecord b algo h r w"
    using assms readRecord_at [OF assms(1,3), of d]
    by (simp add: sidecar_Verify_def Backend_Verifier_def bnd_def when_err_def CheckDigest_def)
  moreover have "rec_Digest r = d" using record_at_digest assms(7) .
  ultimately show "described H r c \<longrightarrow> fst (sidecar_Verify (Backend_Verifier b algo (Some h)) d w) = Inr ()"
    "\<not> described H r c \<longrightarrow> (\<exists>e. fst (sidecar_Verify (Backend_Verifier b algo (Some h)) d w) = Inl e \<and> errors_Is e ErrCorrupt)"
    using verifyRecord_value [OF assms(1,2,4,8), of c] assms(9) by (metis fst_conv)+
qed

text \<open>A pass over listed objects appends to each list what it names, in the order of the listing.\<close>

lemma verify_loop_exact:
  assumes "hasher_law h H"
  shows "inv (est w) \<Longrightarrow> ectx w = Live \<Longrightarrow> records_ok b (est w) \<Longrightarrow> set ds \<subseteq> dom (abs (est w)) \<Longrightarrow>
    \<forall>d \<in> set ds. \<forall>r. record_at b (est w) d = Inr (Some r) \<longrightarrow> rec_ChecksumAlgo r = algo \<Longrightarrow>
    \<exists>w'. sidecar_verify_loop b algo h ds report w =
      (Inr (pass_report b H (abs (est w)) (est w) ds report, None), w') \<and>
      abs (est w') = abs (est w) \<and> inv (est w')"
proof (induction ds arbitrary: report w)
  case Nil
  then show ?case by (simp add: ret_def pass_report_def)
next
  case (Cons d ds)
  have c: "ctx_Err w = (Inr (), w)" using Cons.prems(2) by simp
  note rd = readRecord_at [OF Cons.prems(1,3), of d]
  from Cons.prems(4) obtain content where content: "abs (est w) d = Some content" by auto
  show ?case
  proof (cases "record_at b (est w) d")
    case (Inl e)
    with rd c record_at_error [OF Inl]
    have step: "sidecar_verify_loop b algo h (d # ds) report w = sidecar_verify_loop b algo h ds (report\<lparr>vr_Unreadable := vr_Unreadable report @ [d]\<rparr>) w"
      by (simp add: bnd_def attempt_def)
    show ?thesis unfolding step
      using Cons.IH [OF Cons.prems(1,2,3), of "report\<lparr>vr_Unreadable := vr_Unreadable report @ [d]\<rparr>"] Cons.prems(4,5) Inl
      by (simp add: pass_report_def)
  next
    case (Inr ro)
    show ?thesis
    proof (cases ro)
      case None
      with rd c Inr
      have step: "sidecar_verify_loop b algo h (d # ds) report w = sidecar_verify_loop b algo h ds (report\<lparr>vr_Unrecorded := vr_Unrecorded report @ [d]\<rparr>) w"
        by (simp add: bnd_def attempt_def)
      show ?thesis unfolding step
        using Cons.IH [OF Cons.prems(1,2,3), of "report\<lparr>vr_Unrecorded := vr_Unrecorded report @ [d]\<rparr>"] Cons.prems(4,5) Inr None
        by (simp add: pass_report_def)
    next
      case (Some r)
      have dr: "rec_Digest r = d" using record_at_digest Inr Some by blast
      have alg: "rec_ChecksumAlgo r = algo" using Cons.prems(5) Inr Some by simp
      obtain x w1 where x: "verifyRecord b algo h r w = (x, w1)" "ectx w1 = Live" "inv (est w1)" "abs (est w1) = abs (est w)"
        "same_records b (est w) (est w1)" "described H r content \<longrightarrow> x = Inr ()"
        "\<not> described H r content \<longrightarrow> (\<exists>e. x = Inl e \<and> errors_Is e ErrCorrupt)"
        using verifyRecord_value [OF Cons.prems(1,2) assms alg, of content] content dr by blast
      define report1 where "report1 = (let r1 = report\<lparr>vr_Checked := Suc (vr_Checked report)\<rparr> in
        if described H r content then r1 else r1\<lparr>vr_Bad := vr_Bad r1 @ [d]\<rparr>)"
      have step: "sidecar_verify_loop b algo h (d # ds) report w = sidecar_verify_loop b algo h ds report1 w1"
        using rd c Inr Some x(1,6,7) by (cases "described H r content") (auto simp: bnd_def attempt_def report1_def Let_def)
      have rec: "record_at b (est w1) d' = record_at b (est w) d'" and ok: "records_ok b (est w1)" for d'
        using same_records_at [OF x(5)] Cons.prems(3) by auto
      have "\<forall>d \<in> set ds. \<forall>r. record_at b (est w1) d = Inr (Some r) \<longrightarrow> rec_ChecksumAlgo r = algo" "set ds \<subseteq> dom (abs (est w1))"
        using Cons.prems(4,5) rec x(4) by auto
      from Cons.IH [OF x(3,2) ok this(2,1), of report1] show ?thesis
        unfolding step pass_report_def rec x(4) using Inr Some content
        by (cases "described H r content") (simp_all add: report1_def)
    qed
  qed
qed

lemma verify_all_exact:
  assumes "inv (est w)" "ectx w = Live" "records_ok b (est w)" "hasher_law h H" "algo \<noteq> []"
    and "\<forall>d r. abs (est w) d \<noteq> None \<longrightarrow> record_at b (est w) d = Inr (Some r) \<longrightarrow> rec_ChecksumAlgo r = algo"
  obtains ds w' where "sidecar_VerifyAll (Backend_Verifier b algo (Some h)) w =
      (Inr (pass_report b H (abs (est w)) (est w) ds \<lparr>vr_Checked = 0, vr_Bad = [], vr_Unreadable = [], vr_Unrecorded = []\<rparr>, None), w')"
    "set ds = dom (abs (est w))" "distinct ds" "abs (est w') = abs (est w)" "inv (est w')"
proof -
  from list_live [OF assms(1,2)] obtain ds w1 where l: "b_List (sc_inner b) w = (Inr ds, w1)" "set ds = dom (abs (est w))" "distinct ds" "ectx w1 = Live"
    by blast
  have i1: "inv (est w1)" "abs (est w1) = abs (est w)" using list_frame [OF assms(1) l(1)] by auto
  note same = same_records_at [OF host_list [OF assms(1) l(1)]]
  let ?e = "\<lparr>vr_Checked = 0, vr_Bad = [], vr_Unreadable = [], vr_Unrecorded = []\<rparr>"
  have "records_ok b (est w1)" "set ds \<subseteq> dom (abs (est w1))"
    "\<forall>d \<in> set ds. \<forall>r. record_at b (est w1) d = Inr (Some r) \<longrightarrow> rec_ChecksumAlgo r = algo"
    using same assms(3,6) l(2) i1(2) by auto
  from verify_loop_exact [OF assms(4) i1(1) l(4) this, of ?e] obtain w' where
    w': "sidecar_verify_loop b algo h ds ?e w1 = (Inr (pass_report b H (abs (est w1)) (est w1) ds ?e, None), w')"
      "abs (est w') = abs (est w1)" "inv (est w')" by blast
  have "pass_report b H (abs (est w1)) (est w1) ds ?e = pass_report b H (abs (est w)) (est w) ds ?e"
    using same i1(2) by (simp add: pass_report_def)
  with w' l assms(2,5) i1 show thesis
    by (intro that [of ds w']) (simp_all add: sidecar_VerifyAll_def Backend_Verifier_def bnd_def)
qed

text \<open>A put that records: where there is no usable record yet and the inner put succeeds, the record describes what is stored.\<close>

lemma put_records:
  assumes "inv (est w)" "ectx w = Live" "records_ok b (est w)" "hasher_law h H" "sc_hasher b = Some h" "sc_algo b \<noteq> []" "d \<noteq> []"
    and none: "\<forall>x. record_at b (est w) d \<noteq> Inr (Some x)" and reads: "sc_reads b d r w"
    and put: "b_Put (sc_inner b) d (r\<lparr>r_len := None\<rparr>) w = (Inr (), w1)" "ectx w1 = Live" "abs (est w1) d = Some c"
    and new: "rec = \<lparr>rec_Version = RecordVersion, rec_Digest = d, rec_Type = envelopeType (take defaultPrefixBytes c),
        rec_Codec = envelopeCodec (take defaultPrefixBytes c), rec_ChecksumAlgo = sc_algo b, rec_Checksum = H c, rec_Size = int (length c),
        rec_CreatedAt = time_Unix (os_now (est w))\<rparr>"
    and fits: "encodeRecord b rec = Inr data" "record_text_ok rec" "maxRecordBytes b < MaxInt64" "length c < 2 ^ 63"
    and now: "\<not> Time_IsZero (time_Unix (os_now (est w)))" and free: "\<exists>i < 10000. node_at (est w) (record_scratch b d (draw rs i)) = None"
  obtains w' rec' where "sidecar_Put rs b d (Some r) w = (Inr (), w')" "ectx w' = Live" "inv (est w')" "abs (est w') = abs (est w1)"
    "records_ok b (est w')" "record_at b (est w') d = Inr (Some rec')" "rec' = rec \<or> rec' = rec\<lparr>rec_Type := [], rec_Codec := []\<rparr>"
proof -
  have i1: "inv (est w1)" using put_inv [OF assms(1) put(1)] .
  have s1: "same_records b (est w) (est w1)" using host_put [OF assms(1) put(1)] .
  from get_value [OF i1 put(2,3)] obtain rc w2 where g: "b_Get (sc_inner b) d w1 = (Inr rc, w2)" "r_err rc = None" "rc_close rc = None"
    "r_data rc = c" "ectx w2 = Live" "inv (est w2)" "abs (est w2) = abs (est w1)" by blast
  have s2: "same_records b (est w) (est w2)" using s1 host_get [OF i1 g(1)] same_records_trans by blast
  have now2: "os_now (est w2) = os_now (est w)" using s2 by (simp add: same_records_def)
  have ro2: "records_ok b (est w2)" using same_records_at [OF s2] assms(3) by simp
  have "h_Digest h (prefixReader rc) = Inr (H c)" using assms(4) g(2,4) by (simp add: hasher_law_def prefixReader_def r_data_def)
  then have cs: "storedChecksum b h d w1 = (Inr (H c, int (length c), take defaultPrefixBytes c), w2)"
    using g by (simp add: storedChecksum_def bnd_def readThenClose_no_close_error of_result_def ret_def)
  have meta: "node_at (est w2) q = node_at (est w) q" if "take (length (metaDir b)) q = metaDir b" for q
    using that s2 by (simp add: same_records_def)
  have "node_at (est w2) (recordPath b d) \<noteq> Some Dir" using ro2 by (auto simp: records_ok_def file_slot_def)
  moreover have "\<exists>i < 10000. node_at (est w2) (record_scratch b d (draw rs i)) = None" using free meta by (simp add: record_scratch_def)
  moreover have "dir_slot (node_at (est w2) (metaDir b))" using ro2 by (simp add: records_ok_def)
  ultimately obtain s' i where s': "writeRecord rs b rec w2 = (Inr (), w2\<lparr>est := s'\<rparr>)" "healthy s'"
    "\<And>q. node_at s' q = (if q = recordPath b d then Some (Reg data (os_now (est w2))) else if q = metaDir b then Some Dir
       else if q = record_scratch b d i then None else node_at (est w2) q)"
    using writeRecord_healthy [OF host_healthy [OF g(6)] g(5) fits(1), of d rs] host_dirs [OF g(6)] new by auto
  have run: "sidecar_Put rs b d (Some r) w = (Inr (), w2\<lparr>est := s'\<rparr>)"
  proof -
    have "put_through b d r w = (Inr True, w1)" using put(1) reads by (simp add: put_through_def bnd_def ret_def)
    moreover have "(case record_at b (est w) d of Inl _ \<Rightarrow> None | Inr y \<Rightarrow> y) = None" using none by (auto split: sum.splits)
    ultimately show ?thesis
      using assms(2,5,7) readRecord_at [OF assms(1,3), of d] cs s'(1) new now2
      by (simp add: sidecar_Put_def bnd_def when_err_def CheckDigest_def attempt_def Let_def time_now_def)
  qed
  have dist: "distinct (map fst (nodes s'))"
    using keepsD [OF keeps_distinct_writeRecord s'(1)] host_distinct [OF g(6)] by simp
  have "inv s' \<and> abs s' = abs (est w2)"
  proof (rule host_frame [OF g(6) s'(2) dist])
    show "\<forall>q. take (length (metaDir b)) q \<noteq> metaDir b \<longrightarrow> node_at s' q = node_at (est w2) q"
      using s'(3) by (auto simp: recordPath_def record_scratch_def)
    have "ParseDigest (last (recordPath b d)) \<noteq> Inr d'" for d'
      using ParseDigest_OkD [of "last (recordPath b d)" d'] Digest_String_no_dot [of d'] by (auto simp: recordPath_def recordSuffix_def)
    then show "\<forall>q n d. node_at s' q = Some n \<longrightarrow> n \<noteq> Dir \<longrightarrow> ParseDigest (last q) = Inr d \<longrightarrow> node_at (est w2) q = Some n"
      using s'(3) by auto
  qed
  moreover have "records_ok b s'"
    using ro2 s'(3) recordPath_not_dir(1) [of b] by (auto simp: records_ok_def dir_slot_def file_slot_def)
  moreover have "record_ok rec" using assms(6,7) new fits(4) now assms(4)
    by (auto simp: record_ok_def hasher_law_def)
  then have "record_of b data d = Inr rec \<or> record_of b data d = Inr (rec\<lparr>rec_Type := [], rec_Codec := []\<rparr>)"
    using record_encoded_is_accepted [OF fits(1) _ fits(2,3)] new by simp
  then have "\<exists>rec'. record_at b s' d = Inr (Some rec') \<and> (rec' = rec \<or> rec' = rec\<lparr>rec_Type := [], rec_Codec := []\<rparr>)"
    using s'(3) [of "recordPath b d"] by (auto simp: record_at_def)
  ultimately show thesis using that [OF run] g(5,7) by auto
qed

end

section \<open>The file backend leaves the records alone\<close>

text \<open>The sidecar \<open>New\<close> builds over the file backend, whose put reads its stream to the end before it reports success; \<open>ds\<close> is the option to sync the record directory.\<close>

definition fs_sidecar :: "string \<Rightarrow> bool \<Rightarrow> bool \<Rightarrow> string \<Rightarrow> hasher option \<Rightarrow> int \<Rightarrow> 'z sidecar" where
  "fs_sidecar p sync ds algo h cap =
     \<lparr>sc_inner = fs_backend (fs_default (path_parts p) sync), sc_reads = (\<lambda>_ _ _. True), sc_base = p, metaDir = path_parts p @ [metaDirName],
      sc_algo = algo, sc_hasher = h, sc_dirSync = ds, maxRecordBytes = cap\<rparr>"

lemma fs_sidecar_New:
  assumes "filepath_Clean p = p" "(h = None) = (algo = [])" "0 < cap"
  shows "sidecar_New (Some (fs_backend (fs_default (path_parts p) sync))) (\<lambda>_ _ _. True) (Some p)
    ((if ds then [Some WithDirSync] else []) @ [Some (WithChecksum algo h), Some (WithMaxRecordBytes cap)]) = Inr (fs_sidecar p sync ds algo h cap)"
  using assms by (simp add: sidecar_New_def Let_def WithChecksum_def WithMaxRecordBytes_def WithDirSync_def resolveBase_def fs_sidecar_def)

lemma hex_not_meta: "set c \<subseteq> set ''0123456789abcdef'' \<Longrightarrow> c @ t \<noteq> metaDirName \<or> c = []"
  by (cases c) (auto simp: metaDirName_def)

lemma canon_component:
  assumes "q = canon s d \<or> q \<in> set (parents (canon s d)) \<or> q = temp_name (canon s d) i" "length (base s) < length q" "d \<noteq> []"
  shows "q ! length (base s) \<noteq> metaDirName"
proof -
  let ?n = "length (base s)" and ?rest = "fan_of s (Digest_String d) @ [Digest_String d]"
  have hex: "c \<noteq> metaDirName" if "c \<in> set ?rest" for c
  proof -
    have "set c \<subseteq> set (Digest_String d)" using that by (auto simp: fan_of_def dest: in_set_takeD in_set_dropD)
    then have "CHR ''.'' \<notin> set c" using Digest_String_no_dot [of d] by blast
    then show ?thesis by (auto simp: metaDirName_def)
  qed
  have can: "canon s d ! ?n \<noteq> metaDirName"
    using hex [of "?rest ! 0"] by (simp add: canon_def nth_append)
  consider "q = canon s d" | "q \<in> set (parents (canon s d))" | "q = temp_name (canon s d) i" using assms(1) by blast
  then show ?thesis
  proof cases
    case 2
    then obtain r where "canon s d = q @ r" by (auto simp: set_parents)
    then have "canon s d ! ?n = q ! ?n" using assms(2) by (simp add: nth_append)
    with can show ?thesis by simp
  next
    case 3
    show ?thesis
    proof (cases "fan_of s (Digest_String d)")
      case Nil
      have "Digest_String d \<noteq> []" using assms(3) by simp
      then show ?thesis
        using 3 Nil hex_not_meta [OF Digest_String_chars [of d]] by (simp add: temp_name_def canon_def butlast_append nth_append)
    next
      case (Cons f fs)
      then have "q ! ?n = f" using 3 by (simp add: temp_name_def canon_def butlast_append nth_append)
      with hex [of f] Cons show ?thesis by simp
    qed
  qed (simp add: can)
qed

lemma fs_meta_apart:
  assumes "take (Suc (length (base s))) q = base s @ [metaDirName]" "d \<noteq> []"
  shows "q \<noteq> canon s d" "q \<notin> set (parents (canon s d))" "q \<noteq> temp_name (canon s d) i"
proof -
  have l: "length (base s) < length q" using arg_cong [OF assms(1), of length] by simp
  have "q ! length (base s) = metaDirName" using arg_cong [OF assms(1), of "\<lambda>x. x ! length (base s)"] l by simp
  with canon_component [of q s d i] l assms(2) show "q \<noteq> canon s d" "q \<notin> set (parents (canon s d))" "q \<noteq> temp_name (canon s d) i" by blast+
qed

lemma fs_Put_apart:
  assumes "sane_layout s" "fs_Put s d r w = (x, w')" "take (Suc (length (base s))) q = base s @ [metaDirName]"
  shows "node_at (est w') q = node_at (est w) q"
  using assms(1,2)
proof (cases rule: fs_Put_cases)
  case (published y w1 w0)
  have "d \<noteq> []" using published(1) by (simp add: usable_def)
  from fs_meta_apart [OF assms(3) this] have "keeps (\<lambda>st. node_at st q = node_at (est w) q) (Publish (canon s d) r (put_options s))"
    by (intro Publish_frame) auto
  from keepsD [OF this published(3)] published(2) show ?thesis by simp
qed simp

lemma keeps_now_Publish: "p \<noteq> [] \<Longrightarrow> keeps (\<lambda>st. os_now st = v) (Publish p r opts)"
  by (rule keeps_Publish) (auto simp: control_free_def)

lemma control_free_now [simp]: "control_free (\<lambda>st. os_now st = v)"
  by (simp add: control_free_def)

lemma fs_Put_now:
  assumes "sane_layout s" "fs_Put s d r w = (x, w')"
  shows "os_now (est w') = os_now (est w)"
proof (cases "usable s d")
  case True
  have "keeps (\<lambda>st. os_now st = os_now (est w)) (fs_Put s d r)"
    unfolding fs_Put_usable [OF assms(1) True] by (intro keeps_intros keeps_ValidateFile control_free_now keeps_now_Publish canon_simps(2))
  from keepsD [OF this assms(2)] show ?thesis by simp
next
  case False
  from fs_Put_unusable [OF this assms(2)] show ?thesis by auto
qed

lemma fs_tree_frame:
  assumes "fs_tree s st" "distinct (map fst (nodes st'))"
    and same: "\<forall>q. take (Suc (length (base s))) q \<noteq> base s @ [metaDirName] \<longrightarrow> node_at st' q = node_at st q"
    and named: "\<forall>q n d. node_at st' q = Some n \<longrightarrow> n \<noteq> Dir \<longrightarrow> ParseDigest (last q) = Inr d \<longrightarrow> node_at st q = Some n"
  shows "fs_tree s st'" "fs_abs s st' = fs_abs s st"
proof -
  have at [simp]: "usable s d \<Longrightarrow> node_at st' (canon s d) = node_at st (canon s d)"
    "usable s d \<Longrightarrow> q \<in> set (parents (canon s d)) \<Longrightarrow> node_at st' q = node_at st q"
    "usable s d \<Longrightarrow> node_at st' (temp_name (canon s d) i) = node_at st (temp_name (canon s d) i)" for q d i
    using same fs_meta_apart [of s _ d] unfolding usable_def by blast+
  have "node_at st' q = node_at st q" if "q \<in> insert (base s) (set (parents (base s)))" for q
  proof -
    have "length q \<le> length (base s)" using that by (auto dest: parents_shorter)
    then have "length (take (Suc (length (base s))) q) \<noteq> length (base s @ [metaDirName])" by simp
    then have "take (Suc (length (base s))) q \<noteq> base s @ [metaDirName]" by (intro notI) simp
    with same show ?thesis by blast
  qed
  then have "base_ok s (node_at st')" using assms(1) by (simp add: fs_tree_def base_ok_def)
  moreover have "named_ok s (node_at st')" using assms(1) named unfolding fs_tree_def named_ok_def by metis
  moreover have "slot_ok (node_at st') (canon s d)" if "usable s d" for d
    using fs_tree_slot [OF assms(1) that] that unfolding slot_ok_def by simp
  ultimately show "fs_tree s st'" using assms(2) by (simp add: fs_tree_def)
  show "fs_abs s st' = fs_abs s st" by (auto simp: fs_abs_def fun_eq_iff)
qed

interpretation fsr: record_host "fs_sidecar p sync ds algo h cap" "fs_abs (fs_default (path_parts p) sync)" "fs_inv (fs_default (path_parts p) sync)"
  for p sync ds algo h cap
proof (intro record_host.intro record_host_axioms.intro)
  let ?s = "fs_default (path_parts p) sync" and ?b = "fs_sidecar p sync ds algo h cap :: 'a sidecar"
  have b [simp]: "sc_inner ?b = fs_backend ?s" "metaDir ?b = base ?s @ [metaDirName]" by (simp_all add: fs_sidecar_def)
  have reads: "same_records ?b (est w) (est w')" if "m w = (x, w')" "\<And>I. reads_ok I \<Longrightarrow> keeps I m"
    for m :: "('a osfs_scheme, 'c) act" and w x w'
  proof -
    have n: "keeps (\<lambda>st. node_at st = node_at (est w)) m" by (intro that(2) reads_ok_control_free control_free_node_at)
    have o: "keeps (\<lambda>st. os_now st = os_now (est w)) m" by (intro that(2) reads_ok_control_free) simp
    show ?thesis using keepsD [OF n that(1)] keepsD [OF o that(1)] by (simp add: same_records_def)
  qed
  show "reliable_backend (sc_inner ?b) (fs_abs ?s) (fs_inv ?s)" unfolding b by (rule fsb.reliable_backend_axioms)
  fix s s' :: "'a osfs_scheme" and w w' :: "'a osfs_scheme env" and q d r
  show "fs_inv ?s s \<Longrightarrow> healthy s" "fs_inv ?s s \<Longrightarrow> distinct (map fst (nodes s))" by (simp_all add: fs_inv_def fs_tree_def)
  show "fs_inv ?s s \<Longrightarrow> q \<in> set (parents (metaDir ?b)) \<Longrightarrow> node_at s q = Some Dir"
    by (auto simp: fs_inv_def fs_tree_def base_ok_def parents_snoc split: if_splits)
  show "b_Get (sc_inner ?b) d w = (gx, w') \<Longrightarrow> same_records ?b (est w) (est w')" for gx
    by (rule reads [where m = "fs_Get ?s d"]) (simp_all add: fs_backend_def keeps_fs_reads)
  show "b_List (sc_inner ?b) w = (lx, w') \<Longrightarrow> same_records ?b (est w) (est w')" for lx
    by (rule reads [where m = "fs_List ?s"]) (simp_all add: fs_backend_def keeps_fs_reads)
  show "b_Put (sc_inner ?b) d r w = (px, w') \<Longrightarrow> same_records ?b (est w) (est w')" for px
    using fs_Put_apart [of ?s d r w px w'] fs_Put_now [of ?s d r w px w'] by (auto simp: fs_backend_def same_records_def)
  show "fs_inv ?s s' \<and> fs_abs ?s s' = fs_abs ?s s" if "fs_inv ?s s" "healthy s'" "distinct (map fst (nodes s'))"
    "\<forall>q. take (length (metaDir ?b)) q \<noteq> metaDir ?b \<longrightarrow> node_at s' q = node_at s q"
    "\<forall>q n d. node_at s' q = Some n \<longrightarrow> n \<noteq> Dir \<longrightarrow> ParseDigest (last q) = Inr d \<longrightarrow> node_at s q = Some n"
  proof -
    have "fs_tree ?s s" using that(1) by (simp add: fs_inv_def)
    from fs_tree_frame [OF this that(3)] that(4,5) have "fs_tree ?s s' \<and> fs_abs ?s s' = fs_abs ?s s"
      unfolding b length_append_singleton by blast
    with that(2) show ?thesis unfolding fs_inv_def by blast
  qed
qed

section \<open>What the sidecar of a file store promises\<close>

text \<open>
  C26: A pass of the verifier over a file store is exact: on a working system, where the readable records of stored objects name the
  verifier's algorithm, it ends without an error and reports as bad exactly the recorded objects whose stored bytes differ from
  their record in size or checksum, as unreadable exactly those whose record is damaged, as unrecorded exactly those without
  one, counts the records it checked, and changes no object.
\<close>

theorem sidecar_verify_all_exact:
  assumes "s = fs_default (path_parts p) sync" "b = fs_sidecar p sync ds algo ho cap"
    and "fs_inv s (est w)" "ectx w = Live" "records_ok b (est w)" "hasher_law h H" "algo' \<noteq> []"
    and "\<forall>d r. fs_abs s (est w) d \<noteq> None \<longrightarrow> record_at b (est w) d = Inr (Some r) \<longrightarrow> rec_ChecksumAlgo r = algo'"
  shows "\<exists>report w'. sidecar_VerifyAll (Backend_Verifier b algo' (Some h)) w = (Inr (report, None), w') \<and> fs_abs s (est w') = fs_abs s (est w) \<and>
    set (vr_Bad report) = {d. \<exists>r c. fs_abs s (est w) d = Some c \<and> record_at b (est w) d = Inr (Some r) \<and> \<not> described H r c} \<and>
    set (vr_Unreadable report) = {d. fs_abs s (est w) d \<noteq> None \<and> (\<exists>e. record_at b (est w) d = Inl e)} \<and>
    set (vr_Unrecorded report) = {d. fs_abs s (est w) d \<noteq> None \<and> record_at b (est w) d = Inr None} \<and>
    vr_Checked report = card {d. fs_abs s (est w) d \<noteq> None \<and> (\<exists>r. record_at b (est w) d = Inr (Some r))}"
proof -
  let ?e = "\<lparr>vr_Checked = 0, vr_Bad = [], vr_Unreadable = [], vr_Unrecorded = []\<rparr>"
  obtain ds w' where v: "sidecar_VerifyAll (Backend_Verifier b algo' (Some h)) w =
      (Inr (pass_report b H (fs_abs s (est w)) (est w) ds ?e, None), w')"
    and ds: "set ds = dom (fs_abs s (est w))" "distinct ds" and w': "fs_abs s (est w') = fs_abs s (est w)"
    using fsr.verify_all_exact assms(3-8) unfolding assms(1,2) by metis
  have "vr_Checked (pass_report b H (fs_abs s (est w)) (est w) ds ?e) =
      card {d. fs_abs s (est w) d \<noteq> None \<and> (\<exists>r. record_at b (est w) d = Inr (Some r))}"
    using ds distinct_card [of "filter (\<lambda>d. \<exists>r. record_at b (est w) d = Inr (Some r)) ds"]
    by (simp add: pass_report_def dom_def)
  with v ds(1) w' show ?thesis by (auto simp: pass_report_def dom_def)
qed

lemma parts_demo: "path_parts ''s'' = [''s'']"
  by (simp add: path_parts_def HasPrefix_def)

lemma fs_demo_inv: "fs_inv (fs_default [''s''] True) (est (fs_demo []))"
  using fs_demo_tree by (simp add: fs_inv_def healthy_def fs_demo_def)

lemma fs_demo_free: "\<exists>i < 10000. node_at (est (fs_demo [])) (temp_name (canon (fs_default [''s''] True) [7]) i) = None"
  by (intro exI [of _ 0]) (simp add: fs_demo_def node_at_def temp_name_def canon_def butlast_append)

lemma crc32_law: "hasher_law crc32_Hasher crc32_Of"
  unfolding crc32_Hasher_def by (rule hasher_law_copy) (simp_all add: crc32_Of_def)

lemma records_ok_none: "(\<And>q. take (length (metaDir b)) q = metaDir b \<Longrightarrow> node_at st q = None) \<Longrightarrow> records_ok b st"
  by (simp add: records_ok_def dir_slot_def file_slot_def recordPath_def)

theorem sidecar_verify_all_exact_witness:
  "\<exists>w report w'. fs_abs (fs_default [''s''] True) (est w) [7] = Some [2, 3] \<and>
     sidecar_VerifyAll (Backend_Verifier (fs_sidecar ''s'' True True ''crc32'' (Some crc32_Hasher) 4096) ''crc32'' (Some crc32_Hasher)) (w :: osfs env) =
       (Inr (report, None), w') \<and> set (vr_Unrecorded report) = {[7]} \<and> set (vr_Bad report) = {}"
proof -
  let ?s = "fs_default [''s''] True" and ?b = "fs_sidecar ''s'' True True ''crc32'' (Some crc32_Hasher) 4096 :: unit sidecar"
  have "usable ?s [7]" "r_err demo_reader = None" "ectx (fs_demo []) = Live" by (simp_all add: usable_default demo_reader_def fs_demo_def)
  from fs_Put_live [OF sane_default fs_demo_inv this(3,1,2) fs_demo_free] obtain st where
    st: "fs_Put ?s [7] demo_reader (fs_demo []) = (Inr (), (fs_demo [])\<lparr>est := st\<rparr>)" "fs_inv ?s st"
      "fs_abs ?s st = (fs_abs ?s (est (fs_demo [])))([7] \<mapsto> r_data demo_reader)" by blast
  let ?w = "(fs_demo [])\<lparr>est := st\<rparr>"
  have m: "metaDir ?b = [''s'', ''.meta'']" by (simp add: fs_sidecar_def parts_demo metaDirName_def)
  have none: "node_at st q = None" if "take 2 q = [''s'', ''.meta'']" for q
    using fs_Put_apart [OF sane_default st(1), of q] that by (auto simp: metaDirName_def numeral_2_eq_2 fs_demo_def node_at_def)
  have "records_ok ?b (est ?w)" by (rule records_ok_none) (simp add: m none numeral_2_eq_2 [symmetric])
  moreover have rec: "record_at ?b (est ?w) d = Inr None" for d by (simp add: record_at_def recordPath_def m none)
  moreover have "fs_abs ?s (est (fs_demo [])) = Map.empty" by (auto simp: fs_abs_def fs_demo_def node_at_def canon_def fun_eq_iff)
  ultimately show ?thesis
    using sidecar_verify_all_exact [of ?s "''s''" True ?b True "''crc32''" "Some crc32_Hasher" 4096 ?w crc32_Hasher crc32_Of "''crc32''"] st(2,3) crc32_law
    by (intro exI [of _ ?w]) (fastforce simp: parts_demo fs_demo_def demo_reader_def r_data_def)
qed

text \<open>
  C25: What a put through the sidecar of a file store leaves behind. On a working system, where the digest has no usable record yet and the names
  a write needs are free, the put succeeds, the object is stored, every other object is as before, and from then on, as long as the record
  file stays, the verifier accepts exactly the contents of that size and checksum under this digest: whatever else is found there is
  reported as corruption.
\<close>

theorem sidecar_put_verify:
  assumes "s = fs_default (path_parts p) sync" "b = fs_sidecar p sync ds algo (Some h) cap"
    and "fs_inv s (est w)" "ectx w = Live" "records_ok b (est w)" "hasher_law h H" "algo \<noteq> []" "d \<noteq> []" "r_err r = None" "length (r_data r) < 2 ^ 63"
    and none: "\<forall>x. record_at b (est w) d \<noteq> Inr (Some x)"
    and free: "\<exists>i < 10000. node_at (est w) (temp_name (canon s d) i) = None" "\<exists>i < 10000. node_at (est w) (record_scratch b d (draw rs i)) = None"
    and new: "rec = \<lparr>rec_Version = RecordVersion, rec_Digest = d, rec_Type = envelopeType (take defaultPrefixBytes (r_data r)),
        rec_Codec = envelopeCodec (take defaultPrefixBytes (r_data r)), rec_ChecksumAlgo = algo, rec_Checksum = H (r_data r),
        rec_Size = int (length (r_data r)), rec_CreatedAt = time_Unix (os_now (est w))\<rparr>"
    and fits: "encodeRecord b rec = Inr data" "record_text_ok rec" "cap < MaxInt64" "\<not> Time_IsZero (time_Unix (os_now (est w)))"
  shows "\<exists>w'. sidecar_Put rs b d (Some r) w = (Inr (), w') \<and> fs_inv s (est w') \<and> records_ok b (est w') \<and>
    fs_abs s (est w') = (fs_abs s (est w))(d \<mapsto> r_data r) \<and>
    (\<forall>w2 c. fs_inv s (est w2) \<and> ectx w2 = Live \<and> records_ok b (est w2) \<and> fs_abs s (est w2) d = Some c \<and>
        node_at (est w2) (recordPath b d) = node_at (est w') (recordPath b d) \<longrightarrow>
      (if length c = length (r_data r) \<and> H c = H (r_data r) then fst (sidecar_Verify (Backend_Verifier b algo (Some h)) d w2) = Inr ()
       else (\<exists>e. fst (sidecar_Verify (Backend_Verifier b algo (Some h)) d w2) = Inl e \<and> errors_Is e ErrCorrupt)))"
proof -
  have us: "usable s d" using usable_default assms(1,8) by blast
  have "r_err (r\<lparr>r_len := None\<rparr>) = None" using assms(9) by simp
  from fs_Put_live [OF _ assms(3,4) us this free(1)] assms(1) obtain st where
    st: "fs_Put s d (r\<lparr>r_len := None\<rparr>) w = (Inr (), w\<lparr>est := st\<rparr>)" "fs_abs s st = (fs_abs s (est w))(d \<mapsto> r_data (r\<lparr>r_len := None\<rparr>))" by auto
  have data: "r_data (r\<lparr>r_len := None\<rparr>) = r_data r" by (simp add: r_data_def)
  have b: "sc_inner b = fs_backend s" "sc_hasher b = Some h" "sc_algo b = algo" "maxRecordBytes b = cap" "sc_reads b d r w"
    using assms(1,2) by (simp_all add: fs_sidecar_def)
  have put: "b_Put (sc_inner b) d (r\<lparr>r_len := None\<rparr>) w = (Inr (), w\<lparr>est := st\<rparr>)" "ectx (w\<lparr>est := st\<rparr>) = Live" "fs_abs s (est (w\<lparr>est := st\<rparr>)) d = Some (r_data r)"
    using st assms(4) data b(1) by (simp_all add: fs_backend_def)
  obtain w' rec' where w': "sidecar_Put rs b d (Some r) w = (Inr (), w')" "ectx w' = Live" "fs_inv s (est w')" "fs_abs s (est w') = fs_abs s st"
    "records_ok b (est w')" "record_at b (est w') d = Inr (Some rec')" "rec' = rec \<or> rec' = rec\<lparr>rec_Type := [], rec_Codec := []\<rparr>"
    using fsr.put_records [of p sync w ds algo "Some h" cap h H d r "w\<lparr>est := st\<rparr>" "r_data r" rec data rs] assms(3-8) none put new fits free(2) b assms(10)
    unfolding assms(1,2) by auto
  have fields: "rec_ChecksumAlgo rec' = algo" "rec_Size rec' = int (length (r_data r))" "rec_Checksum rec' = H (r_data r)"
    using w'(7) new by auto
  have "if length c = length (r_data r) \<and> H c = H (r_data r) then fst (sidecar_Verify (Backend_Verifier b algo (Some h)) d w2) = Inr ()
       else (\<exists>e. fst (sidecar_Verify (Backend_Verifier b algo (Some h)) d w2) = Inl e \<and> errors_Is e ErrCorrupt)"
    if "fs_inv s (est w2)" "ectx w2 = Live" "records_ok b (est w2)" "fs_abs s (est w2) d = Some c"
      "node_at (est w2) (recordPath b d) = node_at (est w') (recordPath b d)" for w2 c
  proof -
    have "record_at b (est w2) d = Inr (Some rec')" using w'(6) that(5) by (simp add: record_at_def)
    with that fields(1) have "described H rec' c \<longrightarrow> fst (sidecar_Verify (Backend_Verifier b algo (Some h)) d w2) = Inr ()"
      "\<not> described H rec' c \<longrightarrow> (\<exists>e. fst (sidecar_Verify (Backend_Verifier b algo (Some h)) d w2) = Inl e \<and> errors_Is e ErrCorrupt)"
      using fsr.verify_verdict [of p sync w2 ds algo "Some h" cap h H algo d rec' c] assms(6-8) unfolding assms(1,2) by auto
    then show ?thesis using fields(2,3) by (simp add: described_def)
  qed
  with w' st(2) data show ?thesis by (intro exI [of _ w']) auto
qed

definition put_demo :: "osfs env" where
  "put_demo = \<lparr>ectx = Live, est = \<lparr>nodes = [([''s''], Dir)], os_now = 10 ^ 9 - 62135596800 * 10 ^ 9, faults = [], wplan = [], crashed = False,
     outside = False\<rparr>\<rparr>"

definition byte_sum :: "bytes \<Rightarrow> digest" where
  "byte_sum b = [sum_list b]"

definition byte_sum_Hasher :: hasher where
  "byte_sum_Hasher = \<lparr>h_Digest = hash_copy ''sum'' byte_sum, h_Validate = (\<lambda>d. ValidateDigestSize d ''sum'' 1)\<rparr>"

lemma byte_sum_law: "hasher_law byte_sum_Hasher byte_sum"
  unfolding byte_sum_Hasher_def by (rule hasher_law_copy) (simp_all add: byte_sum_def)

definition put_demo_record :: Record where
  "put_demo_record = \<lparr>rec_Version = 1, rec_Digest = [7], rec_Type = [], rec_Codec = [], rec_ChecksumAlgo = ''sum'', rec_Checksum = [5],
     rec_Size = 2, rec_CreatedAt = \<lparr>t_ns = 10 ^ 9, t_zone = 0\<rparr>\<rparr>"

lemma put_demo_names: "envelopeType (take defaultPrefixBytes [2, 3]) = []" "envelopeCodec (take defaultPrefixBytes [2, 3]) = []"
  by (simp_all add: defaultPrefixBytes_def) (code_simp)+

lemma put_demo_length: "length (json_Marshal (Record_json put_demo_record ''0001-01-01T00:00:01Z'')) < 4096"
  by code_simp

lemma put_demo_encoded: "encodeRecord (fs_sidecar p sync ds algo h 4096) put_demo_record =
    Inr (json_Marshal (Record_json put_demo_record ''0001-01-01T00:00:01Z''))"
proof -
  have "rec_CreatedAt put_demo_record = rec_CreatedAt demo_record" by (simp add: put_demo_record_def demo_record_def)
  then show ?thesis using put_demo_length by (simp add: encodeRecord_def Record_encode_def demo_record_text fs_sidecar_def)
qed

lemma put_demo_state:
  "fs_inv (fs_default [''s''] True) (est put_demo)" "ectx put_demo = Live"
  "q \<noteq> [] \<Longrightarrow> q \<noteq> [''s''] \<Longrightarrow> node_at (est put_demo) q = None"
  "time_Unix (os_now (est put_demo)) = rec_CreatedAt put_demo_record"
proof -
  have "node_at (est put_demo) = node_at (est (fs_demo []))" "nodes (est put_demo) = nodes (est (fs_demo []))" "healthy (est put_demo)"
    by (simp_all add: put_demo_def fs_demo_def node_at_def healthy_def fun_eq_iff)
  with fs_demo_inv show "fs_inv (fs_default [''s''] True) (est put_demo)" by (simp add: fs_inv_def fs_tree_def)
qed (simp_all add: put_demo_def node_at_def time_Unix_def put_demo_record_def)

theorem sidecar_put_verify_witness:
  "\<exists>w'. sidecar_Put [] (fs_sidecar ''s'' True True ''sum'' (Some byte_sum_Hasher) 4096) [7] (Some demo_reader) put_demo = (Inr (), w') \<and>
     fs_abs (fs_default [''s''] True) (est w') [7] = Some [2, 3] \<and>
     fst (sidecar_Verify (Backend_Verifier (fs_sidecar ''s'' True True ''sum'' (Some byte_sum_Hasher) 4096) ''sum'' (Some byte_sum_Hasher)) [7]
       (w'\<lparr>ectx := Live\<rparr>)) = Inr ()"
proof -
  let ?s = "fs_default [''s''] True" and ?b = "fs_sidecar ''s'' True True ''sum'' (Some byte_sum_Hasher) 4096 :: unit sidecar"
  have m: "metaDir ?b = [''s'', ''.meta'']" by (simp add: fs_sidecar_def parts_demo metaDirName_def)
  have data: "r_data demo_reader = [2, 3]" "r_err demo_reader = None" by (simp_all add: demo_reader_def r_data_def)
  have none: "node_at (est put_demo) q = None" if "take 2 q = [''s'', ''.meta'']" for q using that by (auto intro: put_demo_state(3))
  have ok: "records_ok ?b (est put_demo)" by (rule records_ok_none) (simp add: m none numeral_2_eq_2 [symmetric])
  have norec: "\<forall>x. record_at ?b (est put_demo) [7] \<noteq> Inr (Some x)" by (simp add: record_at_def recordPath_def m none)
  have tmp: "\<exists>i < 10000. node_at (est put_demo) (temp_name (canon ?s [7]) i) = None"
    by (intro exI [of _ 0]) (simp add: put_demo_state(3) temp_name_def canon_def butlast_append)
  have scr: "\<exists>i < 10000. node_at (est put_demo) (record_scratch ?b [7] (draw [] i)) = None"
    by (intro exI [of _ 0]) (simp add: record_scratch_def m none)
  have new: "put_demo_record = \<lparr>rec_Version = RecordVersion, rec_Digest = [7], rec_Type = envelopeType (take defaultPrefixBytes (r_data demo_reader)),
      rec_Codec = envelopeCodec (take defaultPrefixBytes (r_data demo_reader)), rec_ChecksumAlgo = ''sum'', rec_Checksum = byte_sum (r_data demo_reader),
      rec_Size = int (length (r_data demo_reader)), rec_CreatedAt = time_Unix (os_now (est put_demo))\<rparr>"
    unfolding data put_demo_names put_demo_state(4) by (simp add: put_demo_record_def RecordVersion_def byte_sum_def)
  have text_ok: "record_text_ok put_demo_record" by (auto simp: record_text_ok_def put_demo_record_def code_def intro!: utf8_ok_ascii)
  have time: "\<not> Time_IsZero (time_Unix (os_now (est put_demo)))" unfolding put_demo_state(4) by (simp add: put_demo_record_def Time_IsZero_def)
  have small: "(''sum'' :: string) \<noteq> []" "[7] \<noteq> ([] :: digest)" "length (r_data demo_reader) < 2 ^ 63" "(4096 :: int) < MaxInt64"
    by (simp_all add: data MaxInt64_def)
  obtain w' where w': "sidecar_Put [] ?b [7] (Some demo_reader) put_demo = (Inr (), w')" "fs_inv ?s (est w')" "records_ok ?b (est w')"
    "fs_abs ?s (est w') = (fs_abs ?s (est put_demo))([7] \<mapsto> r_data demo_reader)"
    and v: "\<forall>w2 c. fs_inv ?s (est w2) \<and> ectx w2 = Live \<and> records_ok ?b (est w2) \<and> fs_abs ?s (est w2) [7] = Some c \<and>
        node_at (est w2) (recordPath ?b [7]) = node_at (est w') (recordPath ?b [7]) \<longrightarrow>
      (if length c = length (r_data demo_reader) \<and> byte_sum c = byte_sum (r_data demo_reader)
       then fst (sidecar_Verify (Backend_Verifier ?b ''sum'' (Some byte_sum_Hasher)) [7] w2) = Inr ()
       else (\<exists>e. fst (sidecar_Verify (Backend_Verifier ?b ''sum'' (Some byte_sum_Hasher)) [7] w2) = Inl e \<and> errors_Is e ErrCorrupt))"
    using sidecar_put_verify [OF _ refl put_demo_state(1,2) ok byte_sum_law small(1,2) data(2) small(3) norec tmp scr new put_demo_encoded text_ok small(4) time]
    unfolding parts_demo by blast
  from v [rule_format, of "w'\<lparr>ectx := Live\<rparr>" "r_data demo_reader"] w' show ?thesis
    by (intro exI [of _ w']) (simp add: data(1))
qed

end
