(* ===== verification/Spec2Isabelle.thy ===== *)
theory Spec2Isabelle
  imports Cask_Prelude Cas_Digest Cas_Envelope Backend_Stream Cas_Backend Cas_Store Cas_Walk Cas_Sweep
    Cas_Verify Mem_Backend Mem_Snapshot Mem_Store Cache_Mem Cache_Lru Bloom_Filter Bloom_Guard Bloom_Persistent
    Os_Files Go_Strings Atomic_File Fs_Policy Fs_Backend Fs_Contract Fs_Maintenance Refs_Store Snapshot_Archive
    Pack_Manifest Go_Json Pack_Backend Pack_Index Pack_Safety Pack_Machine Pack_Live Pack_Room Pack_Correct
    Codec_Cbor Hashers Go_Time Sidecar Sidecar_Records Sidecar_Verify
begin

text \<open>
  A verification library for go-cask, a content-addressable store in Go. Objects are stored once
  under the digest of their content and refer to each other by digest; a non-generic byte layer
  (digests, backends) lies below a generic typed layer (objects, codecs, stores, walks).

  \<^bold>\<open>Parts and theories.\<close>
  \<^item> \<open>Cask_Prelude\<close>: bytes, error values with their wrapping chain, cancellable contexts, the
    state-and-error monad the operations are written in, readers, association lists, big-endian
    integers.
  \<^item> \<open>Cas_Digest\<close> (\<open>src/cas/digest.go\<close>): the digest type, its text form and its guard.
  \<^item> \<open>Cas_Envelope\<close> (\<open>src/cas/envelope.go\<close>): the self-describing frame, its writer and its two readers.
  \<^item> \<open>Backend_Stream\<close> (\<open>src/cas/backend/context.go\<close>, \<open>stream.go\<close>): the reading and writing loops all
    backends share.
  \<^item> \<open>Cas_Backend\<close> (\<open>src/cas/backend.go\<close>, \<open>readclose.go\<close>, \<open>capabilities.go\<close>, \<open>stats.go\<close>): the backend
    interface as a record of operations and its contract as the locales \<open>backend_contract\<close> and
    \<open>reliable_backend\<close>; the read-then-close rule; bounded header reads.
  \<^item> \<open>Cas_Store\<close> (\<open>src/cas/store.go\<close>, \<open>stream.go\<close>, \<open>object.go\<close>, \<open>codec.go\<close>, \<open>hasher.go\<close>): the typed store;
    object type, codec and hasher are parameters.
  \<^item> \<open>Cas_Walk\<close> (\<open>src/cas/reachability.go\<close>, \<open>walker.go\<close>): the graph walk.
  \<^item> \<open>Cas_Sweep\<close> (\<open>src/cas/sweep.go\<close>), \<open>Cas_Verify\<close> (\<open>src/cas/verifier.go\<close>, \<open>batch.go\<close>): maintenance.
  \<^item> \<open>Mem_Backend\<close>, \<open>Mem_Snapshot\<close> (\<open>src/cas/backend/mem\<close>): the in-memory backend, its interleavings and
    its archive format.
  \<^item> \<open>Mem_Store\<close>: the typed layer over the in-memory backend, where the locales of the client
    components are interpreted on the backend's definitions.
  \<^item> \<open>Cache_Mem\<close>, \<open>Cache_Lru\<close> (\<open>src/cas/cache\<close>): the decoded-object cache in front of a store and its
    bounded variant with recency order.
  \<^item> \<open>Bloom_Filter\<close>, \<open>Bloom_Guard\<close>, \<open>Bloom_Persistent\<close> (\<open>src/cas/bloom\<close>): the bit and the counting
    filter, the backend guarded by one, and the filter kept in a file.
  \<^item> \<open>Os_Files\<close>: the part of Go's \<open>os\<close> and \<open>io/fs\<close> packages the sources call, over a tree of files,
    directories and symbolic links. The environment holds a schedule which decides for each call
    whether it succeeds, fails, or is the point at which the process is killed.
  \<^item> \<open>Go_Strings\<close>: what the sources use of \<open>strings\<close>, \<open>strconv\<close>, \<open>path\<close> and \<open>time\<close>.
  \<^item> \<open>Atomic_File\<close> (\<open>src/cas/internal/atomicfile\<close>): publishing a file by temporary file, sync and rename.
  \<^item> \<open>Fs_Policy\<close>, \<open>Fs_Backend\<close>, \<open>Fs_Contract\<close>, \<open>Fs_Maintenance\<close> (\<open>src/cas/backend/fs\<close>): the accepted
    base directories; the one-file-per-object backend; its proof of the backend contract, which is
    the interpretation \<open>fsb\<close> of \<open>reliable_backend\<close>; garbage collection, pruning and cleaning.
  \<^item> \<open>Snapshot_Archive\<close> (\<open>src/cas/backend/snapshot\<close>): the transport archive of any backend, proved in two
    locales and interpreted on the memory and the file backend.
  \<^item> \<open>Pack_Manifest\<close> (\<open>src/cas/pack\<close>): chunking, and a value kept in a file through a codec.
  \<^item> \<open>Go_Json\<close>: what \<open>packfs.go\<close> uses of \<open>encoding/json\<close>, the writer with indentation and the reader, and their round trip.
  \<^item> \<open>Pack_Backend\<close> (\<open>src/cas/backend/packfs/packfs.go\<close>): the packed backend, which appends small objects to shared
    files and keeps the index of their positions in a JSON manifest. \<open>Pack_Index\<close> reads written manifests back;
    \<open>Pack_Safety\<close> holds the invariant, \<open>Pack_Machine\<close> proves that every operation keeps it under every schedule and
    composes operations, crashes and restarts into runs; \<open>Pack_Live\<close> proves that the operations succeed on a working
    system, \<open>Pack_Room\<close> bounds the growth of a pack, \<open>Pack_Correct\<close> states the two results.
  \<^item> \<open>Codec_Cbor\<close> (\<open>src/cas/codec/cbor\<close>): the CBOR encoder and decoder over dynamic values and the codec built on them.
  \<^item> \<open>Hashers\<close> (\<open>src/cas/hash\<close>, \<open>src/cas/verify/crc32\<close>, \<open>crc64\<close>, \<open>adler32\<close>): the text form of digests by algorithm, the
    addressing hashers over the sums of the standard library, and the checksums, written out.
  \<^item> \<open>Go_Time\<close>: instants and their RFC 3339 text, as the records of the sidecar hold them.
  \<^item> \<open>Sidecar\<close>, \<open>Sidecar_Records\<close>, \<open>Sidecar_Verify\<close> (\<open>src/cas/verify/sidecar\<close>): the decorator that keeps a checksum record for
    each object beside a backend's files, its reconciliation and its verifier; the round trip and the atomic publication of the
    records; the exactness of the verifier's verdicts over a file store.
  \<^item> \<open>Refs_Store\<close> (\<open>src/cas/refs\<close>): named references with their value files and append-only logs.

  \<^bold>\<open>How the state corresponds.\<close> A Go method on a mutable receiver is an action of the state-and-error
  monad over the record of the receiver's fields; the environment carries the context, whose \<open>Err\<close>
  may start to fail after any number of calls, so every lemma about an arbitrary environment covers
  a cancellation at any point. A lock-protected method is one atomic action, except where a method
  takes its lock more than once (\<open>Put\<close> of the memory backend, \<open>Clear\<close> of the bounded cache), for which
  the critical sections are separate steps of a step relation. A reader is the schedule of its reads.
  The state of the components that keep files is the file tree itself, and their invariants are
  predicates on trees (\<open>fs_inv\<close>) with an abstraction to a map from digests to bytes (\<open>fs_abs\<close>).

  \<^bold>\<open>What is shown.\<close> Round trips (digest text, frames, archives, put and get, reference logs, filter files),
  the functional behaviour of every operation of the memory backend and of the typed store on every
  branch, the accounting invariant of the backend under all interleavings, exactness and safety of
  garbage collection, exactness of verification, the agreement of the two header readers. A cached
  store answers as the store does where nothing is memoized, and repeats what it memoized, errors
  included; the bounded cache keeps its bound and its list, index and map in step; a filter denies no
  member, and the counters of the counting filter are those of the multiset of members.
  For the components on files: under every schedule of failures and at every point where the
  process may die, a published file, an object or a reference has either its old or its new
  content, and nothing else in the tree changes but temporary files; on a healthy schedule the
  operations succeed and give what was written. Garbage collection deletes exactly the unreachable
  objects, pruning spares every young or kept object, cleaning deletes exactly the old temporary
  files. A packed store serves nothing but what was put, over every sequence of operations, failures, crashes and
  restarts, and on a working system serves what was put before and after a restart. Accepted names of references and accepted base directories stay below their root.
  The CBOR codec reads back what it
  writes, equal content has equal bytes, and the decoder answers every input within its depth. The checksums see every change
  confined to their width.
  A few theorems exhibit behaviour that a comment or an interface excludes (a truncated object after
  two interleaved puts, a bounded cache above its bound, a counting filter that hides an object
  after a delete of an absent one, a resized persistent filter that denies a member, a maximal header
  that is written but not read back, a torn log line that is misread, a deeply nested value that is encoded and not decoded).

  \<^bold>\<open>Bounds and fuel.\<close> Lengths are below \<open>2 ^ 63\<close> where a Go slice has them. The graph walk takes fuel, since a
  graph handed to it need not be finite; \<open>walk_bound\<close> (the pending digests and the references still
  to follow) is proved to be enough on a finite graph. The search for a free temporary name ends
  after 10000 names and the retried open and rename after 20 attempts, as in the sources; the fan-out product of
  the filesystem backend is computed on 64 bits and its wrap-around is kept. All other loops are total.

  \<^bold>\<open>Not modelled.\<close> Cryptographic sums and the compressors of the standard library (parameters); panics of client
  callbacks; messages of errors beyond their static part. Of the operating system: loss of data that
  was written and not synced when the machine stops, file modes, the branches for Windows, other
  processes changing a directory during a walk over it. Two processes using one packed
  directory at a time. Of the repository: the
  codecs that wrap compressors and \<open>gob\<close>, the repository registry, the git-like example, the viewer, the command line and the build tooling.
\<close>

end
